(* ===== verification/Prelude.thy ===== *)
theory Prelude imports Main "HOL-Library.Word" begin

text \<open>
  What the components share: the machine integers, the results with which the Rust code
  reports errors, slices, little- and big-endian byte strings, and checked and saturating
  arithmetic. Nothing here is specific to one source file; the definitions stand for the
  operations of Rust's core library that the sources call
  (\<open>to_le_bytes\<close>, \<open>from_le_bytes\<close>, \<open>checked_add\<close>, \<open>saturating_sub\<close>, range indexing).
\<close>

unbundle bit_operations_syntax

type_synonym u8 = "8 word"
type_synonym u16 = "16 word"
type_synonym u32 = "32 word"
type_synonym u64 = "64 word"
type_synonym u128 = "128 word"
type_synonym bytes = "u8 list"

text \<open>Facts a group of proofs shares: lengths of encodings, slices of concatenations.\<close>

named_theorems enc_len \<open>lengths of byte encodings\<close>
named_theorems res_simps \<open>unfolding of result-valued code\<close>

lemma unat_u8_less: "unat (b :: u8) < 256"
proof -
  have "unat b < 2 ^ LENGTH(8)" by (rule unsigned_less)
  then show ?thesis by simp
qed

section \<open>Results\<close>

text \<open>\<open>Result<a, e>\<close> is the sum \<open>e + a\<close>: \<open>Inl\<close> is \<open>Err\<close> and \<open>Inr\<close> is \<open>Ok\<close>.\<close>

abbreviation Err :: "'e \<Rightarrow> 'e + 'a" where "Err \<equiv> Inl"
abbreviation Ok :: "'a \<Rightarrow> 'e + 'a" where "Ok \<equiv> Inr"

text \<open>The question-mark operator: go on with the value, or return the error at once.\<close>

fun and_then :: "'e + 'a \<Rightarrow> ('a \<Rightarrow> 'e + 'b) \<Rightarrow> 'e + 'b" where
  "and_then (Inl e) f = Inl e"
| "and_then (Inr x) f = f x"

lemma and_then_Ok [res_simps]: "and_then r f = Inr y \<longleftrightarrow> (\<exists>x. r = Inr x \<and> f x = Inr y)"
  by (cases r) auto

lemma and_then_Err [res_simps]: "and_then r f = Inl e \<longleftrightarrow> r = Inl e \<or> (\<exists>x. r = Inr x \<and> f x = Inl e)"
  by (cases r) auto

fun map_err :: "('e \<Rightarrow> 'f) \<Rightarrow> 'e + 'a \<Rightarrow> 'f + 'a" where
  "map_err f (Inl e) = Inl (f e)"
| "map_err f (Inr x) = Inr x"

lemma map_err_Ok [res_simps]: "map_err f r = Inr y \<longleftrightarrow> r = Inr y"
  by (cases r) auto

lemma map_err_Err [res_simps]: "map_err f r = Inl e \<longleftrightarrow> (\<exists>e'. r = Inl e' \<and> e = f e')"
  by (cases r) auto

fun ok_or :: "'e \<Rightarrow> 'a option \<Rightarrow> 'e + 'a" where
  "ok_or e None = Inl e"
| "ok_or e (Some x) = Inr x"

lemma ok_or_Ok [res_simps]: "ok_or e r = Inr y \<longleftrightarrow> r = Some y"
  by (cases r) auto

lemma ok_or_Err [res_simps]: "ok_or e r = Inl e' \<longleftrightarrow> r = None \<and> e' = e"
  by (cases r) auto

text \<open>Code that may also panic returns \<open>None\<close> then; the question mark passes a panic on.\<close>

fun and_thenp :: "('e + 'a) option \<Rightarrow> ('a \<Rightarrow> ('e + 'b) option) \<Rightarrow> ('e + 'b) option" where
  "and_thenp None f = None"
| "and_thenp (Some (Inl e)) f = Some (Inl e)"
| "and_thenp (Some (Inr x)) f = f x"

lemma and_thenp_Ok [res_simps]: "and_thenp r f = Some (Inr y) \<longleftrightarrow> (\<exists>x. r = Some (Inr x) \<and> f x = Some (Inr y))"
  by (cases "(r, f)" rule: and_thenp.cases) auto

lemma and_thenp_None [res_simps]: "and_thenp r f = None \<longleftrightarrow> r = None \<or> (\<exists>x. r = Some (Inr x) \<and> f x = None)"
  by (cases "(r, f)" rule: and_thenp.cases) auto

lemma and_thenp_Err [res_simps]:
  "and_thenp r f = Some (Inl e) \<longleftrightarrow> r = Some (Inl e) \<or> (\<exists>x. r = Some (Inr x) \<and> f x = Some (Inl e))"
  by (cases "(r, f)" rule: and_thenp.cases) auto

definition is_ok :: "'e + 'a \<Rightarrow> bool" where
  "is_ok r = (case r of Inl _ \<Rightarrow> False | Inr _ \<Rightarrow> True)"

lemma is_ok_simps [simp]: "is_ok (Inr x)" "\<not> is_ok (Inl e)"
  by (simp_all add: is_ok_def)

lemma is_ok_iff: "is_ok r \<longleftrightarrow> (\<exists>x. r = Inr x)"
  by (cases r) auto

section \<open>Slices\<close>

text \<open>\<open>xs[a..b]\<close>; every use in the sources is behind a length check, so that it cannot panic.\<close>

definition slice :: "nat \<Rightarrow> nat \<Rightarrow> 'a list \<Rightarrow> 'a list" where
  "slice a b xs = take (b - a) (drop a xs)"

lemma length_slice [simp]: "length (slice a b xs) = min (b - a) (length xs - a)"
  by (simp add: slice_def min.commute)

lemma slice_append_left: "b \<le> length xs \<Longrightarrow> slice a b (xs @ ys) = slice a b xs"
  by (simp add: slice_def)

lemma slice_append_right:
  "length xs \<le> a \<Longrightarrow> slice a b (xs @ ys) = slice (a - length xs) (b - length xs) ys"
  by (simp add: slice_def)

lemma slice_all: "length xs = b \<Longrightarrow> slice 0 b xs = xs"
  by (simp add: slice_def)

lemma slice_join:
  assumes "a \<le> b" "b \<le> c"
  shows "slice a b xs @ slice b c xs = slice a c xs"
proof -
  have "take (b - a) (drop a xs) @ take (c - b) (drop (b - a) (drop a xs))
      = take ((b - a) + (c - b)) (drop a xs)"
    by (simp only: take_add)
  then show ?thesis using assms by (simp add: slice_def add.commute)
qed

lemma slice_join_append:
  "a \<le> b \<Longrightarrow> b \<le> c \<Longrightarrow> slice a b xs @ slice b c xs @ ys = slice a c xs @ ys"
  by (metis append_assoc slice_join)

lemma slice_drop: "length xs = c \<Longrightarrow> slice a c xs = drop a xs"
  by (simp add: slice_def)

lemma slice_nth: "a < length xs \<Longrightarrow> [xs ! a] = slice a (Suc a) xs"
  by (simp add: slice_def take_Suc_conv_app_nth)

lemma slice_Cons_nth: "a < length xs \<Longrightarrow> xs ! a # ys = slice a (Suc a) xs @ ys"
  by (simp add: slice_nth [symmetric])

lemmas slice_concat = slice_append_left slice_append_right slice_all

section \<open>Little- and big-endian byte strings\<close>

definition to_le :: "nat \<Rightarrow> 'a::len word \<Rightarrow> bytes" where
  "to_le n w = map (\<lambda>i. ucast (drop_bit (8 * i) w)) [0..<n]"

fun from_le :: "bytes \<Rightarrow> 'a::len word" where
  "from_le [] = 0"
| "from_le (b # bs) = ucast b OR push_bit 8 (from_le bs)"

lemma length_to_le [simp, enc_len]: "length (to_le n w) = n"
  by (simp add: to_le_def)

lemma bit_from_le:
  "bit (from_le bs :: 'a::len word) k \<longleftrightarrow>
     k < LENGTH('a) \<and> k div 8 < length bs \<and> bit (bs ! (k div 8)) (k mod 8)"
proof (induction bs arbitrary: k)
  case Nil
  then show ?case by simp
next
  case (Cons b bs)
  show ?case
  proof (cases "k < 8")
    case True
    then show ?thesis
      by (auto simp: bit_or_iff bit_push_bit_iff bit_ucast_iff dest: bit_imp_le_length)
  next
    case False
    then have "k div 8 = Suc ((k - 8) div 8)" "k mod 8 = (k - 8) mod 8"
      by (simp_all add: le_div_geq le_mod_geq)
    moreover have "\<not> bit b k"
      using False by (auto dest: bit_imp_le_length)
    ultimately show ?thesis
      using False Cons.IH [of "k - 8"]
      by (auto simp: bit_or_iff bit_push_bit_iff bit_ucast_iff)
  qed
qed

lemma from_le_to_le:
  assumes "LENGTH('a) \<le> 8 * n"
  shows "from_le (to_le n w) = (w :: 'a::len word)"
proof (rule bit_word_eqI)
  fix k assume k: "k < LENGTH('a)"
  then have "k div 8 < n" using assms by (simp add: less_mult_imp_div_less mult.commute)
  then show "bit (from_le (to_le n w) :: 'a word) k \<longleftrightarrow> bit w k"
    using k by (simp add: bit_from_le to_le_def bit_ucast_iff bit_drop_bit_eq)
qed

lemma to_le_from_le:
  assumes "length bs = n" "8 * n \<le> LENGTH('a)"
  shows "to_le n (from_le bs :: 'a::len word) = bs"
proof (rule nth_equalityI)
  show "length (to_le n (from_le bs :: 'a word)) = length bs" using assms by simp
next
  fix i assume "i < length (to_le n (from_le bs :: 'a word))"
  then have i: "i < n" by simp
  show "to_le n (from_le bs :: 'a word) ! i = bs ! i"
  proof (rule bit_word_eqI)
    fix k assume "k < LENGTH(8)"
    then have k: "k < 8" by simp
    then have "8 * i + k < LENGTH('a)" using i assms(2) by linarith
    with i k show "bit (to_le n (from_le bs :: 'a word) ! i) k \<longleftrightarrow> bit (bs ! i) k"
      using assms(1) by (simp add: to_le_def bit_ucast_iff bit_drop_bit_eq bit_from_le)
  qed
qed

lemma from_le_to_le_16 [simp]: "from_le (to_le 2 w) = (w :: u16)"
  and from_le_to_le_32 [simp]: "from_le (to_le 4 v) = (v :: u32)"
  and from_le_to_le_64 [simp]: "from_le (to_le 8 x) = (x :: u64)"
  and from_le_to_le_128 [simp]: "from_le (to_le 16 y) = (y :: u128)"
  by (simp_all add: from_le_to_le)

lemma to_le_from_le_16 [simp]: "length bs = 2 \<Longrightarrow> to_le 2 (from_le bs :: u16) = bs"
  and to_le_from_le_32 [simp]: "length bs = 4 \<Longrightarrow> to_le 4 (from_le bs :: u32) = bs"
  and to_le_from_le_64 [simp]: "length bs = 8 \<Longrightarrow> to_le 8 (from_le bs :: u64) = bs"
  and to_le_from_le_128 [simp]: "length bs = 16 \<Longrightarrow> to_le 16 (from_le bs :: u128) = bs"
  by (simp_all add: to_le_from_le)

lemma to_le_inj: "LENGTH('a) \<le> 8 * n \<Longrightarrow> to_le n v = to_le n w \<Longrightarrow> v = (w :: 'a::len word)"
  by (metis from_le_to_le)

lemma to_le_eq_16 [simp]: "to_le 2 v = to_le 2 (w :: u16) \<longleftrightarrow> v = w"
  and to_le_eq_32 [simp]: "to_le 4 v' = to_le 4 (w' :: u32) \<longleftrightarrow> v' = w'"
  and to_le_eq_64 [simp]: "to_le 8 x = to_le 8 (y :: u64) \<longleftrightarrow> x = y"
  and to_le_eq_128 [simp]: "to_le 16 x' = to_le 16 (y' :: u128) \<longleftrightarrow> x' = y'"
  by (auto dest: to_le_inj [rotated])

definition to_be :: "nat \<Rightarrow> 'a::len word \<Rightarrow> bytes" where
  "to_be n w = rev (to_le n w)"

definition from_be :: "bytes \<Rightarrow> 'a::len word" where
  "from_be bs = from_le (rev bs)"

lemma length_to_be [simp, enc_len]: "length (to_be n w) = n"
  by (simp add: to_be_def)

lemma from_be_to_be_64 [simp]: "from_be (to_be 8 x) = (x :: u64)"
  by (simp add: from_be_def to_be_def)

lemma to_be_from_be_64 [simp]: "length bs = 8 \<Longrightarrow> to_be 8 (from_be bs :: u64) = bs"
  by (simp add: from_be_def to_be_def)

section \<open>Checked and saturating arithmetic\<close>

definition checked_add :: "'a::len word \<Rightarrow> 'a word \<Rightarrow> 'a word option" where
  "checked_add a b = (if unat a + unat b < 2 ^ LENGTH('a) then Some (a + b) else None)"

definition checked_sub :: "'a::len word \<Rightarrow> 'a word \<Rightarrow> 'a word option" where
  "checked_sub a b = (if b \<le> a then Some (a - b) else None)"

definition saturating_add :: "'a::len word \<Rightarrow> 'a word \<Rightarrow> 'a word" where
  "saturating_add a b = (if unat a + unat b < 2 ^ LENGTH('a) then a + b else - 1)"

definition saturating_sub :: "'a::len word \<Rightarrow> 'a word \<Rightarrow> 'a word" where
  "saturating_sub a b = (if b \<le> a then a - b else 0)"

lemma checked_add_Some [res_simps]:
  "checked_add a b = Some c \<longleftrightarrow> unat (a :: 'a::len word) + unat b < 2 ^ LENGTH('a) \<and> c = a + b"
  by (auto simp: checked_add_def)

lemma checked_add_None [res_simps]:
  "checked_add a b = None \<longleftrightarrow> 2 ^ LENGTH('a) \<le> unat (a :: 'a::len word) + unat b"
  by (auto simp: checked_add_def)

lemma checked_add_unat:
  "checked_add a b = Some c \<Longrightarrow> unat (c :: 'a::len word) = unat a + unat b"
  by (simp add: res_simps unat_word_ariths)

lemma checked_sub_Some [res_simps]: "checked_sub a b = Some c \<longleftrightarrow> b \<le> a \<and> c = a - b"
  by (auto simp: checked_sub_def)

lemma checked_sub_None [res_simps]: "checked_sub a b = None \<longleftrightarrow> a < b"
  by (auto simp: checked_sub_def)

text \<open>The same as contracts on numbers: the result exists exactly when the number fits.\<close>

lemma checked_add_unat_iff:
  "checked_add a b = Some c \<longleftrightarrow> unat (c :: 'a::len word) = unat a + unat b"
proof
  assume c: "unat c = unat a + unat b"
  have "unat c < 2 ^ LENGTH('a)" by (rule unsigned_less)
  then show "checked_add a b = Some c"
    using c by (simp add: checked_add_Some word_unat_eq_iff unat_word_ariths)
qed (rule checked_add_unat)

lemma checked_sub_unat_iff:
  "checked_sub a b = Some c \<longleftrightarrow> unat (c :: 'a::len word) + unat b = unat a"
proof
  assume "checked_sub a b = Some c"
  then show "unat c + unat b = unat a"
    by (simp add: checked_sub_Some unat_sub word_le_nat_alt)
next
  assume c: "unat c + unat b = unat a"
  then have "b \<le> a" by (simp add: word_le_nat_alt)
  moreover have "unat (a - b) = unat a - unat b" using calculation by (simp add: unat_sub word_le_nat_alt)
  ultimately show "checked_sub a b = Some c"
    using c by (simp add: checked_sub_Some word_unat_eq_iff)
qed

lemma unat_saturating_sub [simp]: "unat (saturating_sub a b) = unat a - unat b"
  by (simp add: saturating_sub_def unat_sub word_le_nat_alt)

lemma unat_saturating_add:
  "unat (saturating_add a b) = min (unat a + unat b) (2 ^ LENGTH('a) - 1)"
  for a b :: "'a::len word"
  by (auto simp: saturating_add_def unat_word_ariths unsigned_minus_1_eq_mask mask_eq_exp_minus_1 min_def)

definition saturating_mul :: "'a::len word \<Rightarrow> 'a word \<Rightarrow> 'a word" where
  "saturating_mul a b = (if unat a * unat b < 2 ^ LENGTH('a) then a * b else - 1)"

lemma unat_saturating_mul:
  "unat (saturating_mul a b) = min (unat a * unat b) (2 ^ LENGTH('a) - 1)"
  for a b :: "'a::len word"
proof (cases "unat a * unat b < 2 ^ LENGTH('a)")
  case True
  then have "min (unat a * unat b) (2 ^ LENGTH('a) - 1) = unat a * unat b" by (intro min_absorb1) linarith
  then show ?thesis using True by (simp add: saturating_mul_def unat_word_ariths)
next
  case False
  then have "min (unat a * unat b) (2 ^ LENGTH('a) - 1) = 2 ^ LENGTH('a) - 1" by (intro min_absorb2) simp
  then show ?thesis
    using False by (simp add: saturating_mul_def unsigned_minus_1_eq_mask mask_eq_exp_minus_1)
qed

section \<open>Loops that may stop\<close>

text \<open>
  A \<open>for\<close> loop over a list whose body may panic (\<open>None\<close>), and the rule that proves that it
  does not: an invariant that says how far the loop has come.
\<close>

fun for_each :: "('a \<Rightarrow> 's \<Rightarrow> 's option) \<Rightarrow> 'a list \<Rightarrow> 's \<Rightarrow> 's option" where
  "for_each f [] s = Some s"
| "for_each f (x # xs) s = (case f x s of None \<Rightarrow> None | Some s' \<Rightarrow> for_each f xs s')"

lemma for_each_append:
  "for_each f (xs @ ys) s = (case for_each f xs s of None \<Rightarrow> None | Some s' \<Rightarrow> for_each f ys s')"
  by (induction xs arbitrary: s) (auto split: option.splits)

lemma for_each_range:
  assumes "P a s" "a \<le> b"
    and "\<And>i s. a \<le> i \<Longrightarrow> i < b \<Longrightarrow> P i s \<Longrightarrow> \<exists>s'. f i s = Some s' \<and> P (Suc i) s'"
  shows "\<exists>s'. for_each f [a..<b] s = Some s' \<and> P b s'"
  using assms(2,3)
proof (induction b)
  case 0
  then show ?case using assms(1) by simp
next
  case (Suc b)
  show ?case
  proof (cases "a \<le> b")
    case True
    then obtain s' where "for_each f [a..<b] s = Some s'" "P b s'"
      using Suc.IH Suc.prems(2) by (metis less_Suc_eq)
    then show ?thesis using Suc.prems(2) [OF True, of s'] True by (auto simp: for_each_append)
  next
    case False
    then show ?thesis using Suc.prems(1) assms(1) by (simp add: le_Suc_eq)
  qed
qed

end
