(* ===== verification/Constants.thy ===== *)
theory Constants imports Prelude begin

text \<open>
  The consensus constants of \<open>lib/consensus/src/constants.rs\<close> that the modelled code
  reads, under their own names, with the width the source declares for each, and the
  relations between them that the source asserts at compile time.
\<close>

definition CHAIN_ID :: bytes where "CHAIN_ID = [0x50, 0x4C, 0x4E, 0x45]"
definition MAGIC_MAIN :: bytes where "MAGIC_MAIN = [0xB7, 0x4E, 0xD3, 0x21]"

datatype Network = Main

fun chain_id :: "Network \<Rightarrow> bytes" where "chain_id Main = CHAIN_ID"
fun magic :: "Network \<Rightarrow> bytes" where "magic Main = MAGIC_MAIN"

definition ADDRESS_PAYLOAD_BYTES :: nat where [simp]: "ADDRESS_PAYLOAD_BYTES = 20"
definition BLOCK_SUBSIDY :: u128 where "BLOCK_SUBSIDY = 200000"
definition MILE_PER_PLNE :: u128 where "MILE_PER_PLNE = 1000000"
definition BLOCKS_PER_YEAR :: u64 where "BLOCKS_PER_YEAR = 525960"
definition HEADER_BYTES :: nat where [simp]: "HEADER_BYTES = 132"
definition VERSION_BASE :: u32 where "VERSION_BASE = 0x20000000"
definition TX_TYPE_COINBASE :: u8 where [simp]: "TX_TYPE_COINBASE = 0"
definition TX_TYPE_TRANSFER :: u8 where [simp]: "TX_TYPE_TRANSFER = 1"
definition TX_TYPE_ANNOUNCEMENT :: u8 where [simp]: "TX_TYPE_ANNOUNCEMENT = 2"
definition TX_TRANSFER_BYTES :: nat where [simp]: "TX_TRANSFER_BYTES = 157"
definition TX_TRANSFER_BYTES_UNSIGNED :: nat where [simp]: "TX_TRANSFER_BYTES_UNSIGNED = 93"
definition PUBKEY_BYTES :: nat where [simp]: "PUBKEY_BYTES = 32"
definition SIG_BYTES :: nat where [simp]: "SIG_BYTES = 64"
definition HASH_BYTES :: nat where [simp]: "HASH_BYTES = 32"
definition AUTHOR_NOTE_HEADER_BYTES :: nat where [simp]: "AUTHOR_NOTE_HEADER_BYTES = 4"
definition ANNOUNCEMENT_MIN_PAYLOAD_BYTES :: nat where [simp]: "ANNOUNCEMENT_MIN_PAYLOAD_BYTES = 1"
definition ANNOUNCEMENT_MAX_PAYLOAD_BYTES :: nat where [simp]: "ANNOUNCEMENT_MAX_PAYLOAD_BYTES = 1024"
definition TX_ANNOUNCEMENT_PREFIX_BYTES :: nat where [simp]: "TX_ANNOUNCEMENT_PREFIX_BYTES = 60"
definition TX_ANNOUNCEMENT_OVERHEAD_BYTES :: nat where
  [simp]: "TX_ANNOUNCEMENT_OVERHEAD_BYTES = TX_ANNOUNCEMENT_PREFIX_BYTES + SIG_BYTES"
definition TX_ANN_OFF_TYPE :: nat where [simp]: "TX_ANN_OFF_TYPE = 0"
definition TX_ANN_OFF_FROM_PUB :: nat where [simp]: "TX_ANN_OFF_FROM_PUB = 1"
definition TX_ANN_OFF_FEE :: nat where [simp]: "TX_ANN_OFF_FEE = 33"
definition TX_ANN_OFF_NONCE :: nat where [simp]: "TX_ANN_OFF_NONCE = 49"
definition TX_ANN_OFF_ENCODING :: nat where [simp]: "TX_ANN_OFF_ENCODING = 57"
definition TX_ANN_OFF_LENGTH :: nat where [simp]: "TX_ANN_OFF_LENGTH = 58"
definition TX_ANN_OFF_PAYLOAD :: nat where [simp]: "TX_ANN_OFF_PAYLOAD = 60"
definition COINBASE_PREFIX_BYTES :: nat where [simp]: "COINBASE_PREFIX_BYTES = 61"
definition TX_CB_OFF_HEIGHT :: nat where [simp]: "TX_CB_OFF_HEIGHT = 1"
definition TX_CB_OFF_TO :: nat where [simp]: "TX_CB_OFF_TO = 9"
definition TX_CB_OFF_REWARD :: nat where [simp]: "TX_CB_OFF_REWARD = 29"
definition TX_CB_OFF_FEES :: nat where [simp]: "TX_CB_OFF_FEES = 45"
definition TX_CB_OFF_NOTE :: nat where [simp]: "TX_CB_OFF_NOTE = 61"
definition BODY_COUNT_BYTES :: nat where [simp]: "BODY_COUNT_BYTES = 4"
definition BODY_TXLEN_BYTES :: nat where [simp]: "BODY_TXLEN_BYTES = 4"
definition BODY_MIN_RECORD_BYTES :: nat where [simp]: "BODY_MIN_RECORD_BYTES = BODY_TXLEN_BYTES + 1"
definition MERKLE_FLAG_PAIR :: u8 where [simp]: "MERKLE_FLAG_PAIR = 0"
definition MERKLE_FLAG_DUP :: u8 where [simp]: "MERKLE_FLAG_DUP = 1"
definition TX_ROOT_EMPTY :: bytes where "TX_ROOT_EMPTY = replicate 32 0"
definition MERKLE_MAX_DEPTH :: nat where [simp]: "MERKLE_MAX_DEPTH = 12"
definition FEE_FLOOR_MILE :: u128 where [simp]: "FEE_FLOOR_MILE = 1"
definition COINBASE_MATURITY :: u64 where "COINBASE_MATURITY = 60"

definition BLOCK_TIME_SECS :: u64 where "BLOCK_TIME_SECS = 60"
definition SYNC_WINDOW_SECS :: u64 where "SYNC_WINDOW_SECS = 720"
definition MAX_MEMPOOL_TXS :: nat where "MAX_MEMPOOL_TXS = 20000"
definition MAX_MEMPOOL_NONCE_GAP :: u64 where "MAX_MEMPOOL_NONCE_GAP = 256"
definition MAX_MEMPOOL_TXS_PER_SENDER :: nat where "MAX_MEMPOOL_TXS_PER_SENDER = 4096"

text \<open>The ASCII tags \<open>PLNE-tx-v1\<close>, \<open>PLNE-note-v1\<close>, \<open>PLNE-txid\<close>, \<open>PLNE-leaf\<close> and \<open>PLNE-node\<close>.\<close>

definition DOMAIN_TX_SIGN :: bytes where
  "DOMAIN_TX_SIGN = [0x50, 0x4C, 0x4E, 0x45, 0x2D, 0x74, 0x78, 0x2D, 0x76, 0x31]"
definition DOMAIN_NOTE_SIGN :: bytes where
  "DOMAIN_NOTE_SIGN = [0x50, 0x4C, 0x4E, 0x45, 0x2D, 0x6E, 0x6F, 0x74, 0x65, 0x2D, 0x76, 0x31]"
definition DOMAIN_TXID :: bytes where
  "DOMAIN_TXID = [0x50, 0x4C, 0x4E, 0x45, 0x2D, 0x74, 0x78, 0x69, 0x64]"
definition DOMAIN_MERKLE_LEAF :: bytes where
  "DOMAIN_MERKLE_LEAF = [0x50, 0x4C, 0x4E, 0x45, 0x2D, 0x6C, 0x65, 0x61, 0x66]"
definition DOMAIN_MERKLE_NODE :: bytes where
  "DOMAIN_MERKLE_NODE = [0x50, 0x4C, 0x4E, 0x45, 0x2D, 0x6E, 0x6F, 0x64, 0x65]"

definition ASERT_HALF_LIFE_SECS :: int where [simp]: "ASERT_HALF_LIFE_SECS = 3600"
definition ASERT_TARGET_SPACING_SECS :: int where [simp]: "ASERT_TARGET_SPACING_SECS = 60"
definition ASERT_ANCHOR_INTERVAL :: u64 where "ASERT_ANCHOR_INTERVAL = 100000"
definition POW_LIMIT_LIMBS :: "u64 list" where
  "POW_LIMIT_LIMBS = [- 1, - 1, - 1, push_bit 48 1 - 1]"
definition MAX_FUTURE_DRIFT_SECS :: u64 where "MAX_FUTURE_DRIFT_SECS = 600"
definition MEDIAN_TIME_SPAN :: nat where [simp]: "MEDIAN_TIME_SPAN = 11"
definition MAX_REORG_DEPTH :: u64 where "MAX_REORG_DEPTH = 30"

text \<open>\<open>plaine-checkpoint-v1|\<close>\<close>

definition CHECKPOINT_MSG_PREFIX :: bytes where
  "CHECKPOINT_MSG_PREFIX = [0x70, 0x6C, 0x61, 0x69, 0x6E, 0x65, 0x2D, 0x63, 0x68, 0x65, 0x63, 0x6B,
     0x70, 0x6F, 0x69, 0x6E, 0x74, 0x2D, 0x76, 0x31, 0x7C]"
definition CHECKPOINT_SUNSET_HEIGHT :: u64 where "CHECKPOINT_SUNSET_HEIGHT = 525960"
definition AUTHOR_NOTE_RECORD_VERSION :: u8 where [simp]: "AUTHOR_NOTE_RECORD_VERSION = 1"
definition AUTHOR_NOTE_MAX_BYTES :: nat where [simp]: "AUTHOR_NOTE_MAX_BYTES = 256"
definition MAX_BLOCK_BYTES :: nat where [simp]: "MAX_BLOCK_BYTES = 1048576"
definition MAX_TX_BYTES :: nat where [simp]: "MAX_TX_BYTES = 8192"
definition MAX_TXS_PER_BLOCK :: nat where [simp]: "MAX_TXS_PER_BLOCK = 4096"

text \<open>The relations the source asserts when it is compiled, in the source's order.\<close>

definition static_asserts :: bool where
  "static_asserts \<longleftrightarrow>
     CHAIN_ID = [0x50, 0x4C, 0x4E, 0x45] \<and> CHAIN_ID \<noteq> [0, 0, 0, 0] \<and>
     chain_id Main ! 3 = 0x45 \<and> chain_id Main ! 0 = 0x50 \<and>
     magic Main ! 0 = MAGIC_MAIN ! 0 \<and>
     POW_LIMIT_LIMBS ! 0 = - 1 \<and> POW_LIMIT_LIMBS ! 1 = - 1 \<and> POW_LIMIT_LIMBS ! 2 = - 1 \<and>
     POW_LIMIT_LIMBS ! 3 = push_bit 48 1 - 1 \<and>
     MAX_REORG_DEPTH < COINBASE_MATURITY \<and>
     TX_TRANSFER_BYTES = TX_TRANSFER_BYTES_UNSIGNED + 64 \<and>
     TX_ANNOUNCEMENT_OVERHEAD_BYTES = TX_ANNOUNCEMENT_PREFIX_BYTES + SIG_BYTES \<and>
     TX_ANN_OFF_PAYLOAD = TX_ANNOUNCEMENT_PREFIX_BYTES \<and>
     TX_ANN_OFF_LENGTH + 2 = TX_ANN_OFF_PAYLOAD \<and> TX_ANN_OFF_ENCODING + 1 = TX_ANN_OFF_LENGTH \<and>
     TX_ANN_OFF_NONCE + 8 = TX_ANN_OFF_ENCODING \<and> TX_ANN_OFF_FEE + 16 = TX_ANN_OFF_NONCE \<and>
     TX_ANN_OFF_FROM_PUB + PUBKEY_BYTES = TX_ANN_OFF_FEE \<and>
     TX_ANN_OFF_TYPE + 1 = TX_ANN_OFF_FROM_PUB \<and>
     TX_ANNOUNCEMENT_OVERHEAD_BYTES + ANNOUNCEMENT_MAX_PAYLOAD_BYTES \<le> MAX_TX_BYTES \<and>
     TX_CB_OFF_NOTE = COINBASE_PREFIX_BYTES \<and> TX_CB_OFF_FEES + 16 = TX_CB_OFF_NOTE \<and>
     TX_CB_OFF_REWARD + 16 = TX_CB_OFF_FEES \<and>
     TX_CB_OFF_TO + ADDRESS_PAYLOAD_BYTES = TX_CB_OFF_REWARD \<and>
     TX_CB_OFF_HEIGHT + 8 = TX_CB_OFF_TO \<and>
     COINBASE_PREFIX_BYTES + AUTHOR_NOTE_HEADER_BYTES + AUTHOR_NOTE_MAX_BYTES \<le> MAX_TX_BYTES \<and>
     HEADER_BYTES + BODY_COUNT_BYTES + MAX_TXS_PER_BLOCK * BODY_MIN_RECORD_BYTES \<le> MAX_BLOCK_BYTES \<and>
     MAX_TXS_PER_BLOCK \<le> 2 ^ MERKLE_MAX_DEPTH \<and>
     MERKLE_FLAG_PAIR \<noteq> MERKLE_FLAG_DUP"

lemma static_asserts_hold: static_asserts
  by (simp add: static_asserts_def CHAIN_ID_def MAGIC_MAIN_def POW_LIMIT_LIMBS_def
      MAX_REORG_DEPTH_def COINBASE_MATURITY_def)

end
