(* ===== verification/Emission.thy ===== *)
theory Emission imports Constants begin

text \<open>
  \<open>lib/consensus/src/emission.rs\<close>: the flat subsidy and the closed forms of issuance. The
  lemmas show that the closed forms are the sum of the subsidies of the blocks issued, and
  that no product of a 64-bit height and the subsidy leaves 128 bits.
\<close>

definition subsidy :: "u64 \<Rightarrow> u128" where
  "subsidy height = (if height = 0 then 0 else BLOCK_SUBSIDY)"

definition block_reward :: "u64 \<Rightarrow> u128" where
  "block_reward height = subsidy height"

definition cumulative_issued :: "u64 \<Rightarrow> u128" where
  "cumulative_issued height = ucast (saturating_sub height 1) * BLOCK_SUBSIDY"

definition issued_through :: "u64 \<Rightarrow> u128" where
  "issued_through height = ucast height * BLOCK_SUBSIDY"

lemma unat_BLOCK_SUBSIDY [simp]: "unat BLOCK_SUBSIDY = 200000"
  by (simp add: BLOCK_SUBSIDY_def)

lemma unat_ucast_u64_u128 [simp]: "unat (ucast (h :: u64) :: u128) = unat h"
  
proof -
  have "unat h < 2 ^ 64" using unsigned_less [of h] by simp
  then show ?thesis by (simp add: unsigned_ucast_eq take_bit_nat_eq_self_iff)
qed

lemma mult_subsidy_exact: "unat (ucast (h :: u64) * BLOCK_SUBSIDY) = unat h * 200000"
proof -
  have "unat h < 2 ^ 64" using unsigned_less [of h] by simp
  then have "unat h * 200000 < 2 ^ 128" by simp
  then show ?thesis by (simp add: unat_word_ariths)
qed

lemma issued_through_exact: "unat (issued_through h) = unat h * 200000"
  by (simp add: issued_through_def mult_subsidy_exact)

lemma cumulative_issued_exact: "unat (cumulative_issued h) = (unat h - 1) * 200000"
  by (simp add: cumulative_issued_def mult_subsidy_exact)

lemma subsidy_sum: "(\<Sum>i \<le> n. unat (subsidy (word_of_nat i))) = n * 200000" if "n < 2 ^ 64"
  using that
proof (induction n)
  case 0
  then show ?case by (simp add: subsidy_def)
next
  case (Suc n)
  then have "unat (word_of_nat (Suc n) :: u64) = Suc n"
    by (simp add: unat_of_nat del: of_nat_Suc)
  then have "(word_of_nat (Suc n) :: u64) \<noteq> 0" by (metis nat.distinct(1) unat_0)
  with Suc show ?case by (simp add: subsidy_def del: of_nat_Suc)
qed

lemma subsidy_sum_less: "(\<Sum>i < n. unat (subsidy (word_of_nat i))) = (n - 1) * 200000" if "n < 2 ^ 64"
proof (cases n)
  case (Suc m)
  then show ?thesis using subsidy_sum [of m] that by (simp add: lessThan_Suc_atMost)
qed simp

text \<open>The closed forms of issuance are the sum of the rewards of the blocks they cover,
  without overflow at any height of 64 bits.\<close>

theorem issuance_is_sum:
  "unat (issued_through h) = (\<Sum>i \<le> unat h. unat (block_reward (word_of_nat i))) \<and>
   unat (cumulative_issued h) = (\<Sum>i < unat h. unat (block_reward (word_of_nat i)))"
proof -
  have "unat h < 2 ^ 64" using unsigned_less [of h] by simp
  then show ?thesis
    by (simp add: block_reward_def subsidy_sum subsidy_sum_less issued_through_exact cumulative_issued_exact)
qed

end

