(* ===== verification/Interfaces.thy ===== *)
theory Interfaces imports Prelude begin

text \<open>
  The contracts several components of the consensus core share, as locales: a canonical
  byte codec (what \<open>encode\<close>/\<open>decode\<close> pairs promise), and a streaming hash (what the
  clients of \<open>blake3::Hasher\<close> rely on). Each is interpreted on the model's own functions
  in the theory of the component that provides them.
\<close>

section \<open>Canonical byte codecs\<close>

text \<open>
  \<open>enc\<close> may refuse a value (\<open>Result\<close>); \<open>ok\<close> says that the value inhabits its Rust
  type (the lengths of its fixed-size arrays). The two laws make the pair a bijection
  between the encodable values and the accepted byte strings: one byte string per value,
  which is what makes a transaction have one txid.
\<close>

locale byte_codec =
  fixes enc :: "'a \<Rightarrow> 'e + bytes"
    and dec :: "bytes \<Rightarrow> 'f + 'a"
    and ok :: "'a \<Rightarrow> bool"
  assumes dec_enc: "ok x \<Longrightarrow> enc x = Inr b \<Longrightarrow> dec b = Inr x"
    and enc_dec: "dec b = Inr x \<Longrightarrow> ok x \<and> enc x = Inr b"
begin

lemma dec_iff: "dec b = Inr x \<longleftrightarrow> ok x \<and> enc x = Inr b"
  using dec_enc enc_dec by blast

lemma enc_inj: "ok x \<Longrightarrow> ok y \<Longrightarrow> enc x = Inr b \<Longrightarrow> enc y = Inr b \<Longrightarrow> x = y"
  using dec_enc by (metis Inr_inject)

lemma dec_inj: "dec b = Inr x \<Longrightarrow> dec c = Inr x \<Longrightarrow> b = c"
  using enc_dec by (metis Inr_inject)

lemma rejects_iff: "(\<exists>e. dec b = Inl e) \<longleftrightarrow> (\<forall>x. ok x \<longrightarrow> enc x \<noteq> Inr b)"
  proof (cases "dec b")
  case (Inl e)
  then have "\<not> (ok x \<and> enc x = Inr b)" for x using dec_iff [of b x] by simp
  then show ?thesis using Inl by blast
next
  case (Inr x)
  then show ?thesis using enc_dec by force
qed

end

section \<open>Streaming hashes\<close>

text \<open>
  A hasher that is fed in pieces: where the input is cut does not matter, and feeding
  nothing changes nothing. \<open>inv\<close> is the provider's invariant, which \<open>new\<close> establishes
  and \<open>update\<close> keeps.
\<close>

locale streaming_hash =
  fixes new :: "'s"
    and update :: "'s \<Rightarrow> bytes \<Rightarrow> 's"
    and finalize :: "'s \<Rightarrow> bytes"
    and inv :: "'s \<Rightarrow> bool"
  assumes inv_new: "inv new"
    and inv_update: "inv h \<Longrightarrow> inv (update h xs)"
    and update_nil: "inv h \<Longrightarrow> update h [] = h"
    and update_append: "inv h \<Longrightarrow> update h (xs @ ys) = update (update h xs) ys"
begin

lemma inv_fold: "inv h \<Longrightarrow> inv (fold (\<lambda>x s. update s x) xss h)"
  by (induction xss arbitrary: h) (simp_all add: inv_update)

lemma update_fold: "inv h \<Longrightarrow> fold (\<lambda>x s. update s x) xss h = update h (concat xss)"
proof (induction xss arbitrary: h)
  case Nil
  then show ?case by (simp add: update_nil)
next
  case (Cons x xss)
  then show ?case by (simp add: inv_update update_append)
qed

lemma hash_pieces:
  "finalize (fold (\<lambda>x s. update s x) xss new) = finalize (update new (concat xss))"
  by (simp add: update_fold inv_new)

end

end
