(* ===== verification/Blake3.thy ===== *)
theory Blake3 imports Interfaces begin

text \<open>
  \<open>lib/consensus/src/blake3.rs\<close>: the whole hash that every identifier of the protocol goes
  through. First the code: the compression function, the chunk state with its lazily
  compressed 64-byte block, and the \<open>Hasher\<close> with its array of \<open>MAX_DEPTH\<close> chaining
  values. The lemmas then show that
  \<^item> where the input is cut into \<open>update\<close> calls does not matter (the \<open>streaming_hash\<close>
    contract, interpreted as \<open>b3\<close>);
  \<^item> the incremental hasher computes the tree hash of its reference definition \<open>tree_hash\<close>
    (chunks of 1024 bytes, the left subtree the largest power of two), for every input a
    64-bit length can describe; in particular the stack never needs a 55th entry.
\<close>

definition OUT_LEN :: nat where [simp]: "OUT_LEN = 32"
definition BLOCK_LEN :: nat where [simp]: "BLOCK_LEN = 64"
definition CHUNK_LEN :: nat where [simp]: "CHUNK_LEN = 1024"
definition CHUNK_START :: u32 where "CHUNK_START = push_bit 0 1"
definition CHUNK_END :: u32 where "CHUNK_END = push_bit 1 1"
definition PARENT :: u32 where "PARENT = push_bit 2 1"
definition ROOT :: u32 where "ROOT = push_bit 3 1"

definition IV :: "u32 list" where
  "IV = [0x6A09E667, 0xBB67AE85, 0x3C6EF372, 0xA54FF53A, 0x510E527F, 0x9B05688C, 0x1F83D9AB, 0x5BE0CD19]"

definition MSG_PERMUTATION :: "nat list" where
  "MSG_PERMUTATION = [2, 6, 3, 10, 7, 0, 4, 13, 1, 11, 12, 5, 9, 14, 15, 8]"

definition MAX_DEPTH :: nat where [simp]: "MAX_DEPTH = 54"

section \<open>Compression\<close>

definition blake3_g :: "u32 list \<Rightarrow> nat \<Rightarrow> nat \<Rightarrow> nat \<Rightarrow> nat \<Rightarrow> u32 \<Rightarrow> u32 \<Rightarrow> u32 list" where
  "blake3_g s a b c d mx my =
     (let s = s[a := s ! a + s ! b + mx];
          s = s[d := word_rotr 16 (s ! d XOR s ! a)];
          s = s[c := s ! c + s ! d];
          s = s[b := word_rotr 12 (s ! b XOR s ! c)];
          s = s[a := s ! a + s ! b + my];
          s = s[d := word_rotr 8 (s ! d XOR s ! a)];
          s = s[c := s ! c + s ! d]
      in s[b := word_rotr 7 (s ! b XOR s ! c)])"

definition round_fn :: "u32 list \<Rightarrow> u32 list \<Rightarrow> u32 list" where
  "round_fn s m =
     (let s = blake3_g s 0 4 8 12 (m ! 0) (m ! 1);
          s = blake3_g s 1 5 9 13 (m ! 2) (m ! 3);
          s = blake3_g s 2 6 10 14 (m ! 4) (m ! 5);
          s = blake3_g s 3 7 11 15 (m ! 6) (m ! 7);
          s = blake3_g s 0 5 10 15 (m ! 8) (m ! 9);
          s = blake3_g s 1 6 11 12 (m ! 10) (m ! 11);
          s = blake3_g s 2 7 8 13 (m ! 12) (m ! 13)
      in blake3_g s 3 4 9 14 (m ! 14) (m ! 15))"

definition permute_words :: "u32 list \<Rightarrow> u32 list" where
  "permute_words m = map (\<lambda>src. m ! src) MSG_PERMUTATION"

text \<open>The six rounds that follow the first, each on the permuted block.\<close>

fun blake3_rounds :: "nat \<Rightarrow> u32 list \<Rightarrow> u32 list \<Rightarrow> u32 list" where
  "blake3_rounds 0 s m = s"
| "blake3_rounds (Suc n) s m = (let m = permute_words m in blake3_rounds n (round_fn s m) m)"

definition blake3_compress :: "u32 list \<Rightarrow> u32 list \<Rightarrow> u64 \<Rightarrow> u32 \<Rightarrow> u32 \<Rightarrow> u32 list" where
  "blake3_compress cv m counter blen flags =
     (let s = [cv ! 0, cv ! 1, cv ! 2, cv ! 3, cv ! 4, cv ! 5, cv ! 6, cv ! 7,
               IV ! 0, IV ! 1, IV ! 2, IV ! 3,
               ucast counter, ucast (drop_bit 32 counter), blen, flags];
          s = blake3_rounds 6 (round_fn s m) m
      in fold (\<lambda>i s. let s = s[i := s ! i XOR s ! (i + 8)] in s[i + 8 := s ! (i + 8) XOR cv ! i])
           [0..<8] s)"

definition first_8_words :: "u32 list \<Rightarrow> u32 list" where
  "first_8_words ws = take 8 ws"

definition words_from_le_bytes :: "bytes \<Rightarrow> u32 list" where
  "words_from_le_bytes b = map (\<lambda>i. from_le (slice (4 * i) (4 * i + 4) b)) [0..<16]"

record Output =
  input_chaining_value :: "u32 list"
  block_words :: "u32 list"
  out_counter :: u64
  out_block_len :: u32
  out_flags :: u32

definition output_cv :: "Output \<Rightarrow> u32 list" where
  "output_cv out = first_8_words
     (blake3_compress (input_chaining_value out) (block_words out) (out_counter out) (out_block_len out) (out_flags out))"

definition root_hash :: "Output \<Rightarrow> bytes" where
  "root_hash out =
     (let words = blake3_compress (input_chaining_value out) (block_words out) 0 (out_block_len out)
                    (out_flags out OR ROOT)
      in concat (map (to_le 4) (take 8 words)))"

section \<open>Chunks\<close>

record ChunkState =
  chaining_value :: "u32 list"
  chunk_counter :: u64
  chunk_block :: bytes
  block_len :: nat
  blocks_compressed :: nat

definition chunk_new :: "u64 \<Rightarrow> ChunkState" where
  "chunk_new c = \<lparr>chaining_value = IV, chunk_counter = c, chunk_block = replicate BLOCK_LEN 0,
     block_len = 0, blocks_compressed = 0\<rparr>"

definition chunk_len :: "ChunkState \<Rightarrow> nat" where
  "chunk_len c = BLOCK_LEN * blocks_compressed c + block_len c"

definition start_flag :: "ChunkState \<Rightarrow> u32" where
  "start_flag c = (if blocks_compressed c = 0 then CHUNK_START else 0)"

text \<open>The body of the \<open>if\<close> of \<open>ChunkState::update\<close>: compress the full block.\<close>

definition chunk_flush :: "ChunkState \<Rightarrow> ChunkState" where
  "chunk_flush c = c\<lparr>
     chaining_value := first_8_words (blake3_compress (chaining_value c) (words_from_le_bytes (chunk_block c))
       (chunk_counter c) (word_of_nat BLOCK_LEN) (start_flag c)),
     blocks_compressed := blocks_compressed c + 1,
     chunk_block := replicate BLOCK_LEN 0,
     block_len := 0\<rparr>"

definition chunk_fill :: "ChunkState \<Rightarrow> bytes \<Rightarrow> ChunkState" where
  "chunk_fill c xs = c\<lparr>
     chunk_block := take (block_len c) (chunk_block c) @ xs @ drop (block_len c + length xs) (chunk_block c),
     block_len := block_len c + length xs\<rparr>"

text \<open>The loop. \<open>block_len \<le> 64\<close> always, so that \<open>want\<close> is never 0 after the flush; a state
  that breaks it cannot be built, and the guard only makes the recursion total on it.\<close>

function chunk_update :: "ChunkState \<Rightarrow> bytes \<Rightarrow> ChunkState" where
  "chunk_update c input =
     (if input = [] then c else
      let c = if block_len c = BLOCK_LEN then chunk_flush c else c;
          want = BLOCK_LEN - block_len c;
          n = min want (length input)
      in if n = 0 then c else chunk_update (chunk_fill c (take n input)) (drop n input))"
  by pat_completeness auto
termination
  by (relation "measure (\<lambda>(c, xs). length xs)") (auto split: if_splits)

definition chunk_output :: "ChunkState \<Rightarrow> Output" where
  "chunk_output c = \<lparr>input_chaining_value = chaining_value c,
     block_words = words_from_le_bytes (chunk_block c),
     out_counter = chunk_counter c, out_block_len = word_of_nat (block_len c),
     out_flags = start_flag c OR CHUNK_END\<rparr>"

definition parent_output :: "u32 list \<Rightarrow> u32 list \<Rightarrow> Output" where
  "parent_output left right = \<lparr>input_chaining_value = IV, block_words = left @ right,
     out_counter = 0, out_block_len = word_of_nat BLOCK_LEN, out_flags = PARENT\<rparr>"

section \<open>The hasher\<close>

record Hasher =
  chunk_state :: ChunkState
  cv_stack :: "u32 list list"
  cv_stack_len :: nat

definition hasher_new :: Hasher where
  "hasher_new = \<lparr>chunk_state = chunk_new 0, cv_stack = replicate MAX_DEPTH (replicate 8 0), cv_stack_len = 0\<rparr>"

text \<open>The two debug assertions (\<open>cv_stack_len < MAX_DEPTH\<close> and \<open>> 0\<close>) hold at every call, by
  \<open>stack_inv\<close> below.\<close>

definition push_stack :: "Hasher \<Rightarrow> u32 list \<Rightarrow> Hasher" where
  "push_stack h cv = h\<lparr>cv_stack := (cv_stack h)[cv_stack_len h := cv], cv_stack_len := cv_stack_len h + 1\<rparr>"

definition pop_stack :: "Hasher \<Rightarrow> u32 list \<times> Hasher" where
  "pop_stack h = (let n = cv_stack_len h - 1 in (cv_stack h ! n, h\<lparr>cv_stack_len := n\<rparr>))"

lemma unat_drop_bit_1: "unat (drop_bit 1 (t :: u64)) = unat t div 2"
  by (rule trans [OF unat_drop_bit_eq]) (simp add: drop_bit_eq_div)

text \<open>\<open>total_chunks\<close> is never 0 (it is one more than the number of finished chunks); the loop
  would not end there.\<close>

function add_chunk_chaining_value :: "Hasher \<Rightarrow> u32 list \<Rightarrow> u64 \<Rightarrow> Hasher" where
  "add_chunk_chaining_value h cv total_chunks =
     (if total_chunks AND 1 = 0 \<and> total_chunks \<noteq> 0
      then (let (left, h) = pop_stack h
            in add_chunk_chaining_value h (output_cv (parent_output left cv)) (drop_bit 1 total_chunks))
      else push_stack h cv)"
  by pat_completeness auto

termination
  by (relation "measure (\<lambda>(h, cv, t). unat t)") (auto simp: unat_drop_bit_1 [unfolded One_nat_def] unat_gt_0)

definition finish_chunk :: "Hasher \<Rightarrow> Hasher" where
  "finish_chunk h =
     (let cv = output_cv (chunk_output (chunk_state h));
          total_chunks = chunk_counter (chunk_state h) + 1;
          h = add_chunk_chaining_value h cv total_chunks
      in h\<lparr>chunk_state := chunk_new total_chunks\<rparr>)"

function hasher_update :: "Hasher \<Rightarrow> bytes \<Rightarrow> Hasher" where
  "hasher_update h input =
     (if input = [] then h else
      let h = if chunk_len (chunk_state h) = CHUNK_LEN then finish_chunk h else h;
          want = CHUNK_LEN - chunk_len (chunk_state h);
          n = min want (length input)
      in if n = 0 then h else
         hasher_update (h\<lparr>chunk_state := chunk_update (chunk_state h) (take n input)\<rparr>) (drop n input))"
  by pat_completeness auto
termination
  by (relation "measure (\<lambda>(h, xs). length xs)") (auto split: if_splits)

text \<open>The loop of \<open>finalize\<close>, with \<open>n\<close> parents remaining.\<close>

fun finalize_from :: "u32 list list \<Rightarrow> nat \<Rightarrow> Output \<Rightarrow> Output" where
  "finalize_from stack 0 out = out"
| "finalize_from stack (Suc n) out = finalize_from stack n (parent_output (stack ! n) (output_cv out))"

definition finalize :: "Hasher \<Rightarrow> bytes" where
  "finalize h = root_hash (finalize_from (cv_stack h) (cv_stack_len h) (chunk_output (chunk_state h)))"

definition blake3_hash :: "bytes \<Rightarrow> bytes" where
  "blake3_hash input = finalize (hasher_update hasher_new input)"

declare chunk_update.simps [simp del] hasher_update.simps [simp del] add_chunk_chaining_value.simps [simp del]

section \<open>Cutting the input\<close>

text \<open>What one byte does to a chunk and to the hasher; the loops are folds of these.\<close>

definition chunk_byte :: "u8 \<Rightarrow> ChunkState \<Rightarrow> ChunkState" where
  "chunk_byte b c = chunk_fill (if block_len c = BLOCK_LEN then chunk_flush c else c) [b]"

definition hasher_byte :: "u8 \<Rightarrow> Hasher \<Rightarrow> Hasher" where
  "hasher_byte b h =
     (let h = if chunk_len (chunk_state h) = CHUNK_LEN then finish_chunk h else h
      in h\<lparr>chunk_state := chunk_byte b (chunk_state h)\<rparr>)"

definition chunk_inv :: "ChunkState \<Rightarrow> bool" where
  "chunk_inv c \<longleftrightarrow> length (chunk_block c) = BLOCK_LEN \<and> block_len c \<le> BLOCK_LEN"

definition hasher_inv :: "Hasher \<Rightarrow> bool" where
  "hasher_inv h \<longleftrightarrow> chunk_inv (chunk_state h) \<and> chunk_len (chunk_state h) \<le> CHUNK_LEN"

lemma chunk_inv_new [simp]: "chunk_inv (chunk_new n)"
  by (simp add: chunk_inv_def chunk_new_def)

lemma chunk_inv_flush [simp]: "chunk_inv (chunk_flush c)"
  by (simp add: chunk_inv_def chunk_flush_def)

lemma chunk_inv_fill:
  "chunk_inv c \<Longrightarrow> block_len c + length xs \<le> BLOCK_LEN \<Longrightarrow> chunk_inv (chunk_fill c xs)"
  by (simp add: chunk_inv_def chunk_fill_def)

lemma chunk_inv_byte: "chunk_inv c \<Longrightarrow> chunk_inv (chunk_byte b c)"
  unfolding chunk_byte_def
  by (rule chunk_inv_fill) (auto simp: chunk_inv_def chunk_flush_def)

lemma chunk_fill_nil [simp]: "chunk_fill c [] = c"
  by (simp add: chunk_fill_def)

lemma chunk_fill_Cons:
  assumes "chunk_inv c" "block_len c + length (x # xs) \<le> BLOCK_LEN"
  shows "chunk_fill c (x # xs) = chunk_fill (chunk_byte x c) xs"
  using assms by (auto simp: chunk_fill_def chunk_byte_def chunk_inv_def take_Suc_conv_app_nth add.commute)

lemma chunk_fill_fold:
  "chunk_inv c \<Longrightarrow> block_len c + length xs \<le> BLOCK_LEN \<Longrightarrow> chunk_fill c xs = fold chunk_byte xs c"
proof (induction xs arbitrary: c)
  case Nil
  then show ?case by simp
next
  case (Cons x xs)
  have "block_len (chunk_byte x c) = Suc (block_len c)"
    using Cons.prems by (simp add: chunk_byte_def chunk_fill_def)
  then show ?case using Cons by (simp add: chunk_fill_Cons chunk_inv_byte)
qed

lemma chunk_byte_flush:
  "block_len c = BLOCK_LEN \<Longrightarrow> chunk_byte x c = chunk_byte x (chunk_flush c)"
  by (simp add: chunk_byte_def chunk_flush_def)

lemma chunk_update_step:
  assumes "input \<noteq> []" "c' = (if block_len c = BLOCK_LEN then chunk_flush c else c)"
    "n = min (BLOCK_LEN - block_len c') (length input)" "n \<noteq> 0"
  shows "chunk_update c input = chunk_update (chunk_fill c' (take n input)) (drop n input)"
  by (rule trans [OF chunk_update.simps])
     (use assms(1, 4) in \<open>simp only: Let_def assms(2) [symmetric] assms(3) [symmetric] if_False\<close>)

lemma chunk_update_fold: "chunk_inv c \<Longrightarrow> chunk_update c xs = fold chunk_byte xs c"
proof (induction c xs rule: chunk_update.induct)
  case (1 c input)
  show ?case
  proof (cases input)
    case Nil
    then show ?thesis by (simp add: chunk_update.simps)
  next
    case (Cons x xs)
    define c' where "c' = (if block_len c = BLOCK_LEN then chunk_flush c else c)"
    define n where "n = min (BLOCK_LEN - block_len c') (length input)"
    have inv: "chunk_inv c'" using "1.prems" by (simp add: c'_def)
    have "block_len c' < BLOCK_LEN"
      using "1.prems" by (simp add: c'_def chunk_flush_def chunk_inv_def)
    then have n: "n \<noteq> 0" "block_len c' + n \<le> BLOCK_LEN" using Cons by (auto simp: n_def)
    have "chunk_update c input = chunk_update (chunk_fill c' (take n input)) (drop n input)"
      using Cons c'_def n_def n(1) by (intro chunk_update_step) simp_all
    also have "\<dots> = fold chunk_byte (drop n input) (chunk_fill c' (take n input))"
      using "1.IH" [OF _ c'_def refl n_def] Cons n inv by (simp add: chunk_inv_fill)
    also have "\<dots> = fold chunk_byte (take n input @ drop n input) c'"
      using n(2) inv by (simp add: chunk_fill_fold del: append_take_drop_id)
    also have "\<dots> = fold chunk_byte input c"
      using Cons by (simp add: c'_def chunk_byte_flush)
    finally show ?thesis .
  qed
qed

lemma chunk_len_byte:
  "chunk_inv c \<Longrightarrow> chunk_len (chunk_byte b c) = Suc (chunk_len c)"
  by (simp add: chunk_len_def chunk_byte_def chunk_fill_def chunk_flush_def)

lemma chunk_fold:
  "chunk_inv c \<Longrightarrow> chunk_inv (fold chunk_byte xs c) \<and> chunk_len (fold chunk_byte xs c) = chunk_len c + length xs"
  by (induction xs arbitrary: c) (simp_all add: chunk_inv_byte chunk_len_byte)

lemma chunk_len_new [simp]: "chunk_len (chunk_new n) = 0"
  by (simp add: chunk_len_def chunk_new_def)

lemma finish_chunk_state [simp]: "chunk_state (finish_chunk h) = chunk_new (chunk_counter (chunk_state h) + 1)"
  by (simp add: finish_chunk_def Let_def)

lemma hasher_inv_finish [simp]: "hasher_inv (finish_chunk h)"
  by (simp add: hasher_inv_def)

lemma hasher_inv_byte: "hasher_inv h \<Longrightarrow> hasher_inv (hasher_byte b h)"
  by (auto simp: hasher_inv_def hasher_byte_def Let_def chunk_inv_byte chunk_len_byte)

lemma hasher_fill_fold:
  assumes "hasher_inv h" "chunk_len (chunk_state h) + length xs \<le> CHUNK_LEN"
  shows "h\<lparr>chunk_state := fold chunk_byte xs (chunk_state h)\<rparr> = fold hasher_byte xs h"
  using assms
proof (induction xs arbitrary: h)
  case Nil
  then show ?case by simp
next
  case (Cons x xs)
  have "hasher_byte x h = h\<lparr>chunk_state := chunk_byte x (chunk_state h)\<rparr>"
    using Cons.prems by (simp add: hasher_byte_def)
  then show ?case
    using Cons.IH [of "hasher_byte x h"] Cons.prems hasher_inv_byte [of h x]
    by (simp add: chunk_len_byte hasher_inv_def)
qed

lemma hasher_byte_finish:
  "chunk_len (chunk_state h) = CHUNK_LEN \<Longrightarrow> hasher_byte x h = hasher_byte x (finish_chunk h)"
  by (simp add: hasher_byte_def)

lemma hasher_update_step:
  assumes "input \<noteq> []" "h' = (if chunk_len (chunk_state h) = CHUNK_LEN then finish_chunk h else h)"
    "n = min (CHUNK_LEN - chunk_len (chunk_state h')) (length input)" "n \<noteq> 0"
  shows "hasher_update h input =
    hasher_update (h'\<lparr>chunk_state := chunk_update (chunk_state h') (take n input)\<rparr>) (drop n input)"
  by (rule trans [OF hasher_update.simps])
     (use assms(1, 4) in \<open>simp only: Let_def assms(2) [symmetric] assms(3) [symmetric] if_False\<close>)

lemma hasher_update_fold: "hasher_inv h \<Longrightarrow> hasher_update h xs = fold hasher_byte xs h"
proof (induction h xs rule: hasher_update.induct)
  case (1 h input)
  show ?case
  proof (cases input)
    case Nil
    then show ?thesis by (simp add: hasher_update.simps)
  next
    case (Cons x xs)
    define h' where "h' = (if chunk_len (chunk_state h) = CHUNK_LEN then finish_chunk h else h)"
    define n where "n = min (CHUNK_LEN - chunk_len (chunk_state h')) (length input)"
    have inv: "hasher_inv h'" using "1.prems" by (simp add: h'_def)
    then have cinv: "chunk_inv (chunk_state h')" by (simp add: hasher_inv_def)
    have "chunk_len (chunk_state h') < CHUNK_LEN"
      using "1.prems" by (simp add: h'_def hasher_inv_def)
    then have n: "n \<noteq> 0" "chunk_len (chunk_state h') + n \<le> CHUNK_LEN" using Cons by (auto simp: n_def)
    let ?h = "h'\<lparr>chunk_state := chunk_update (chunk_state h') (take n input)\<rparr>"
    have eq: "?h = fold hasher_byte (take n input) h'"
      using hasher_fill_fold [OF inv, of "take n input"] n cinv by (simp add: chunk_update_fold)
    have "hasher_inv ?h"
      using chunk_fold [OF cinv, of "take n input"] n cinv
      by (simp add: hasher_inv_def chunk_update_fold)
    then have IH: "hasher_update ?h (drop n input) = fold hasher_byte (drop n input) ?h"
      using "1.IH" [OF _ h'_def refl n_def] Cons n by simp
    have "hasher_update h input = hasher_update ?h (drop n input)"
      using Cons h'_def n_def n(1) by (intro hasher_update_step) simp_all
    also have "\<dots> = fold hasher_byte (take n input @ drop n input) h'"
      unfolding IH unfolding eq by (simp del: append_take_drop_id)
    also have "\<dots> = fold hasher_byte input h"
      using Cons by (simp add: h'_def hasher_byte_finish)
    finally show ?thesis .
  qed
qed

lemma hasher_inv_new [simp]: "hasher_inv hasher_new"
  by (simp add: hasher_inv_def hasher_new_def)

lemma hasher_inv_fold: "hasher_inv h \<Longrightarrow> hasher_inv (fold hasher_byte xs h)"
  by (induction xs arbitrary: h) (simp_all add: hasher_inv_byte)

interpretation b3: streaming_hash hasher_new hasher_update finalize hasher_inv
  by unfold_locales (simp_all add: hasher_update_fold hasher_inv_fold)

section \<open>The reference definition\<close>

text \<open>One chunk: its 64-byte blocks compressed in order, the last one left to the output.\<close>

function ref_chunk :: "u32 list \<Rightarrow> u64 \<Rightarrow> u32 \<Rightarrow> bytes \<Rightarrow> Output" where
  "ref_chunk cv n start xs =
     (if length xs \<le> BLOCK_LEN
      then \<lparr>input_chaining_value = cv,
             block_words = words_from_le_bytes (xs @ replicate (BLOCK_LEN - length xs) 0),
             out_counter = n, out_block_len = word_of_nat (length xs), out_flags = start OR CHUNK_END\<rparr>
      else ref_chunk (first_8_words (blake3_compress cv (words_from_le_bytes (take BLOCK_LEN xs)) n
             (word_of_nat BLOCK_LEN) start)) n 0 (drop BLOCK_LEN xs))"
  by pat_completeness auto
termination by (relation "measure (\<lambda>(cv, n, start, xs). length xs)") auto

declare ref_chunk.simps [simp del]

text \<open>The chunks of a message: 1024 bytes each, at least one, the last one as long as what is left.\<close>

definition chunk_leaf :: "bytes \<Rightarrow> nat \<Rightarrow> Output" where
  "chunk_leaf xs j = ref_chunk IV (word_of_nat j) CHUNK_START (slice (CHUNK_LEN * j) (CHUNK_LEN * j + CHUNK_LEN) xs)"

definition leaf_outputs :: "bytes \<Rightarrow> Output list" where
  "leaf_outputs xs = map (chunk_leaf xs) [0..<max 1 ((length xs + (CHUNK_LEN - 1)) div CHUNK_LEN)]"

text \<open>The largest power of two below \<open>n\<close>, for \<open>2 \<le> n\<close>.\<close>

fun left_len :: "nat \<Rightarrow> nat" where
  "left_len n = (if n \<le> 2 then 1 else 2 * left_len ((n + 1) div 2))"

declare left_len.simps [simp del]

definition cv_join :: "Output \<Rightarrow> Output \<Rightarrow> Output" where
  "cv_join a b = parent_output (output_cv a) (output_cv b)"

lemma left_len_bounds: "2 \<le> n \<Longrightarrow> 0 < left_len n \<and> left_len n < n \<and> n \<le> 2 * left_len n"
proof (induction n rule: left_len.induct)
  case (1 n)
  show ?case
  proof (cases "n \<le> 2")
    case True
    then show ?thesis using 1 by (simp add: left_len.simps)
  next
    case False
    then have "2 \<le> (n + 1) div 2" by simp
    then have IH: "0 < left_len ((n + 1) div 2)" "left_len ((n + 1) div 2) < (n + 1) div 2"
      "(n + 1) div 2 \<le> 2 * left_len ((n + 1) div 2)"
      using "1.IH" [OF False] by auto
    have "left_len n = 2 * left_len ((n + 1) div 2)"
      using False by (subst left_len.simps) simp
    then show ?thesis using IH by linarith
  qed
qed

lemma left_len_power: "\<exists>k. left_len n = 2 ^ k"
proof (induction n rule: left_len.induct)
  case (1 n)
  show ?case
  proof (cases "n \<le> 2")
    case True
    then have "left_len n = 2 ^ 0" by (simp add: left_len.simps)
    then show ?thesis ..
  next
    case False
    with "1.IH" obtain k where "left_len ((n + 1) div 2) = 2 ^ k" by blast
    then have "left_len n = 2 ^ Suc k" using False by (subst left_len.simps) simp
    then show ?thesis ..
  qed
qed

function cv_tree :: "Output list \<Rightarrow> Output" where
  "cv_tree outs =
     (if length outs < 2 then hd outs
      else cv_join (cv_tree (take (left_len (length outs)) outs)) (cv_tree (drop (left_len (length outs)) outs)))"
  by pat_completeness auto
termination
  by (relation "measure length") (auto simp: not_less dest!: left_len_bounds)

declare cv_tree.simps [simp del]

definition tree_hash :: "bytes \<Rightarrow> bytes" where
  "tree_hash xs = root_hash (cv_tree (leaf_outputs xs))"

section \<open>The incremental hasher computes the tree hash\<close>

lemma tree_single [simp]: "cv_tree [x] = x"
  by (simp add: cv_tree.simps)

fun cv_pairs :: "Output list \<Rightarrow> Output list" where
  "cv_pairs (a # b # r) = cv_join a b # cv_pairs r"
| "cv_pairs r = r"

lemma length_pairs [simp]: "length (cv_pairs xs) = (length xs + 1) div 2"
  by (induction xs rule: cv_pairs.induct) simp_all

lemma pairs_append: "even (length xs) \<Longrightarrow> cv_pairs (xs @ ys) = cv_pairs xs @ cv_pairs ys"
  by (induction xs rule: cv_pairs.induct) simp_all

lemma pairs_take_drop:
  assumes "2 * q \<le> length xs"
  shows "cv_pairs (take (2 * q) xs) = take q (cv_pairs xs)" "cv_pairs (drop (2 * q) xs) = drop q (cv_pairs xs)"
proof -
  have len: "length (take (2 * q) xs) = 2 * q" using assms by simp
  then have "even (length (take (2 * q) xs))" "length (cv_pairs (take (2 * q) xs)) = q"
    by (simp_all del: length_take)
  then have "cv_pairs xs = cv_pairs (take (2 * q) xs) @ cv_pairs (drop (2 * q) xs)"
    "length (cv_pairs (take (2 * q) xs)) = q"
    using pairs_append [of "take (2 * q) xs" "drop (2 * q) xs"] by simp_all
  then show "cv_pairs (take (2 * q) xs) = take q (cv_pairs xs)" "cv_pairs (drop (2 * q) xs) = drop q (cv_pairs xs)"
    by simp_all
qed

lemma tree_pairs: "xs \<noteq> [] \<Longrightarrow> cv_tree (cv_pairs xs) = cv_tree xs"
proof (induction "length xs" arbitrary: xs rule: less_induct)
  case less
  consider "length xs = 1" | "length xs = 2" | "3 \<le> length xs"
    using less.prems by (cases xs rule: cv_pairs.cases) (auto simp: Suc_le_eq numeral_3_eq_3)
  then show ?case
  proof cases
    case 1
    then show ?thesis by (auto simp: length_Suc_conv)
  next
    case 2
    then obtain a b where "xs = [a, b]" by (auto simp: length_Suc_conv numeral_2_eq_2)
    then show ?thesis by (simp add: cv_tree.simps [of "[a, b]"] left_len.simps)
  next
    case 3
    define q where "q = left_len ((length xs + 1) div 2)"
    have q: "left_len (length xs) = 2 * q"
      using 3 by (subst left_len.simps) (simp add: q_def)
    have b: "0 < q" "2 * q < length xs"
      using left_len_bounds [of "length xs"] 3 q by simp_all
    have "cv_tree xs = cv_join (cv_tree (take (2 * q) xs)) (cv_tree (drop (2 * q) xs))"
      using 3 by (subst cv_tree.simps) (simp add: q)
    also have "\<dots> = cv_join (cv_tree (cv_pairs (take (2 * q) xs))) (cv_tree (cv_pairs (drop (2 * q) xs)))"
      using less.hyps [of "take (2 * q) xs"] less.hyps [of "drop (2 * q) xs"] b less.prems by auto
    also have "\<dots> = cv_join (cv_tree (take q (cv_pairs xs))) (cv_tree (drop q (cv_pairs xs)))"
      using b by (simp add: pairs_take_drop)
    also have "\<dots> = cv_tree (cv_pairs xs)"
      using 3 by (subst (3) cv_tree.simps) (simp add: q_def)
    finally show ?thesis by simp
  qed
qed

text \<open>The subtree of level \<open>k\<close> and index \<open>j\<close>, and the stack after \<open>n\<close> subtrees of level \<open>k\<close>:
  one entry per bit of \<open>n\<close>.\<close>

fun cv_node :: "(nat \<Rightarrow> Output) \<Rightarrow> nat \<Rightarrow> nat \<Rightarrow> Output" where
  "cv_node L 0 j = L j"
| "cv_node L (Suc k) j = cv_join (cv_node L k (2 * j)) (cv_node L k (2 * j + 1))"

declare cv_node.simps(2) [simp del]

fun stack_of :: "(nat \<Rightarrow> Output) \<Rightarrow> nat \<Rightarrow> nat \<Rightarrow> u32 list list" where
  "stack_of L k n =
     (if n = 0 then [] else stack_of L (Suc k) (n div 2) @
        (if odd n then [output_cv (cv_node L k (n - 1))] else []))"

declare stack_of.simps [simp del]

lemma stack_of_0 [simp]: "stack_of L k 0 = []"
  by (simp add: stack_of.simps)

lemma stack_of_even: "even n \<Longrightarrow> stack_of L k n = stack_of L (Suc k) (n div 2)"
  by (subst stack_of.simps) auto

lemma stack_of_odd:
  "odd n \<Longrightarrow> stack_of L k n = stack_of L (Suc k) (n div 2) @ [output_cv (cv_node L k (n - 1))]"
  by (subst stack_of.simps) (auto simp: odd_pos)

lemma length_stack_of: "n < 2 ^ d \<Longrightarrow> length (stack_of L k n) \<le> d"
proof (induction d arbitrary: n k)
  case 0
  then show ?case by simp
next
  case (Suc d)
  then have "n div 2 < 2 ^ d" by auto
  with Suc.IH [of "n div 2" "Suc k"] show ?case
    by (cases "even n") (simp_all add: stack_of_even stack_of_odd)
qed

lemma pairs_nodes: "cv_pairs (map (cv_node L k) [0..<2 * m]) = map (cv_node L (Suc k)) [0..<m]"
  by (induction m) (simp_all add: pairs_append cv_node.simps(2))

lemma fold_stack:
  "foldr (\<lambda>left out. parent_output left (output_cv out)) (stack_of L k n) out =
     cv_tree (map (cv_node L k) [0..<n] @ [out])"
proof (induction L k n arbitrary: out rule: stack_of.induct)
  case (1 L k n)
  let ?m = "n div 2"
  show ?case
  proof (cases "n = 0")
    case True
    then show ?thesis by simp
  next
    case False
    note IH = "1.IH" [OF False]
    show ?thesis
    proof (cases "even n")
      case True
      then have "cv_pairs (map (cv_node L k) [0..<n] @ [out]) = map (cv_node L (Suc k)) [0..<?m] @ [out]"
        by (simp add: pairs_append pairs_nodes [symmetric])
      then show ?thesis
        using IH [of out] tree_pairs [of "map (cv_node L k) [0..<n] @ [out]"] True
        by (simp add: stack_of_even)
    next
      case odd: False
      then have n: "n = Suc (2 * ?m)" by simp
      have "map (cv_node L k) [0..<n] @ [out] = map (cv_node L k) [0..<2 * ?m] @ [cv_node L k (n - 1), out]"
        using odd by (auto elim!: oddE)
      then have "cv_pairs (map (cv_node L k) [0..<n] @ [out]) =
          map (cv_node L (Suc k)) [0..<?m] @ [cv_join (cv_node L k (n - 1)) out]"
        by (simp only:) (simp add: pairs_append pairs_nodes)
      then show ?thesis
        using IH [of "cv_join (cv_node L k (n - 1)) out"] odd
          tree_pairs [of "map (cv_node L k) [0..<n] @ [out]"]
        by (simp add: stack_of_odd cv_join_def)
    qed
  qed
qed

lemma finalize_from_foldr:
  "n \<le> length s \<Longrightarrow> finalize_from s n out =
     foldr (\<lambda>left out. parent_output left (output_cv out)) (take n s) out"
  by (induction s n out rule: finalize_from.induct) (simp_all add: take_Suc_conv_app_nth)

text \<open>What the stack holds: the chaining values of the finished subtrees, in room that suffices.\<close>

definition stack_inv :: "(nat \<Rightarrow> Output) \<Rightarrow> nat \<Rightarrow> nat \<Rightarrow> Hasher \<Rightarrow> bool" where
  "stack_inv L k n h \<longleftrightarrow> length (cv_stack h) = MAX_DEPTH \<and>
     cv_stack_len h = length (stack_of L k n) \<and> take (cv_stack_len h) (cv_stack h) = stack_of L k n"

lemma stack_inv_finalize:
  assumes "stack_inv L k n h"
  shows "finalize_from (cv_stack h) (cv_stack_len h) out = cv_tree (map (cv_node L k) [0..<n] @ [out])"
proof -
  have "length (take (cv_stack_len h) (cv_stack h)) = cv_stack_len h"
    using assms unfolding stack_inv_def by metis
  then have "cv_stack_len h \<le> length (cv_stack h)" by simp
  then show ?thesis
    using assms unfolding stack_inv_def by (metis finalize_from_foldr fold_stack)
qed

lemma stack_inv_even: "even n \<Longrightarrow> stack_inv L k n h \<longleftrightarrow> stack_inv L (Suc k) (n div 2) h"
  by (simp only: stack_inv_def stack_of_even)

lemma stack_inv_new [simp]: "stack_inv L k 0 hasher_new"
  by (simp add: stack_inv_def hasher_new_def)

lemma stack_inv_chunk [simp]: "stack_inv L k n (h\<lparr>chunk_state := c\<rparr>) = stack_inv L k n h"
  by (simp add: stack_inv_def)

lemma and_1_eq_0: "t AND 1 = 0 \<longleftrightarrow> even (unat t)" for t :: u64
proof -
  have "bit (unat t) 0 \<longleftrightarrow> bit t 0" by (simp add: bit_unsigned_iff del: bit_0)
  then have "odd (unat t) \<longleftrightarrow> odd t" by (simp only: bit_0)
  then show ?thesis by (simp add: and_one_eq even_iff_mod_2_eq_zero [symmetric])
qed

lemma take_Suc_snoc:
  assumes "take (Suc n) xs = ys @ [y]" "n = length ys"
  shows "take n xs = ys" "xs ! n = y"
proof -
  have "take n (take (Suc n) xs) = ys" "take (Suc n) xs ! n = y" using assms by simp_all
  then show "take n xs = ys" "xs ! n = y" by simp_all
qed

lemma add_chunk_stack:
  assumes "stack_inv L k (unat t - 1) h" "0 < unat t" "unat t < 2 ^ MAX_DEPTH"
    "cv = output_cv (cv_node L k (unat t - 1))"
  shows "stack_inv L k (unat t) (add_chunk_chaining_value h cv t)"
  using assms
proof (induction h cv t arbitrary: k rule: add_chunk_chaining_value.induct)
  case (1 h cv t)
  let ?n = "unat t"
  note inv = "1.prems"(1) [unfolded stack_inv_def]
  show ?case
  proof (cases "even ?n")
    case True
    define m where "m = ?n div 2 - 1"
    have m: "?n - 1 = Suc (2 * m)" "?n div 2 - 1 = m" using True "1.prems"(2) by (auto simp: m_def elim!: evenE)
    obtain left h' where pop: "pop_stack h = (left, h')" by fastforce
    have st: "stack_of L k (?n - 1) = stack_of L (Suc k) m @ [output_cv (cv_node L k (2 * m))]"
      unfolding m by (subst stack_of_odd) simp_all
    let ?l = "length (stack_of L (Suc k) m)"
    have tk: "take (Suc ?l) (cv_stack h) = stack_of L (Suc k) m @ [output_cv (cv_node L k (2 * m))]"
      and len: "cv_stack_len h = Suc ?l"
      using inv unfolding st by auto
    have left: "left = output_cv (cv_node L k (2 * m))" and h': "stack_inv L (Suc k) m h'"
    proof -
      have "pop_stack h = (cv_stack h ! ?l, h\<lparr>cv_stack_len := ?l\<rparr>)"
        by (simp add: pop_stack_def len Let_def)
      then have "left = cv_stack h ! ?l" "h' = h\<lparr>cv_stack_len := ?l\<rparr>" using pop by simp_all
      then show "left = output_cv (cv_node L k (2 * m))" "stack_inv L (Suc k) m h'"
        using inv take_Suc_snoc [OF tk refl] by (simp_all add: stack_inv_def)
    qed
    have half: "unat (drop_bit 1 t) = ?n div 2" by (rule unat_drop_bit_1)
    have "stack_inv L (Suc k) (unat (drop_bit 1 t))
        (add_chunk_chaining_value h' (output_cv (parent_output left cv)) (drop_bit 1 t))"
    proof (rule "1.IH" [OF _ pop [symmetric] refl])
      show "t AND 1 = 0 \<and> t \<noteq> 0" using True "1.prems"(2) by (auto simp: and_1_eq_0)
      show "stack_inv L (Suc k) (unat (drop_bit 1 t) - 1) h'" unfolding half m by (rule h')
      show "0 < unat (drop_bit 1 t)" unfolding half using True "1.prems"(2) by (auto elim!: evenE)
      show "unat (drop_bit 1 t) < 2 ^ MAX_DEPTH" unfolding half using "1.prems"(3) by simp
      show "output_cv (parent_output left cv) = output_cv (cv_node L (Suc k) (unat (drop_bit 1 t) - 1))"
        unfolding half m using "1.prems"(4) left m(1) by (simp add: cv_node.simps(2) cv_join_def)
    qed
    moreover have "add_chunk_chaining_value h cv t =
        add_chunk_chaining_value h' (output_cv (parent_output left cv)) (drop_bit 1 t)"
      using True "1.prems"(2) pop by (subst add_chunk_chaining_value.simps) (auto simp: and_1_eq_0)
    ultimately show ?thesis using half by (simp only: stack_inv_even [OF True])
  next
    case False
    have st: "stack_of L k ?n = stack_of L k (?n - 1) @ [cv]"
    proof -
      have "stack_of L k (?n - 1) = stack_of L (Suc k) ((?n - 1) div 2)"
        using False by (subst stack_of_even) auto
      moreover have "(?n - 1) div 2 = ?n div 2" using False by (auto elim!: oddE)
      ultimately show ?thesis using "1.prems"(4) False by (simp add: stack_of_odd)
    qed
    have "length (stack_of L k ?n) \<le> MAX_DEPTH" using "1.prems"(3) by (rule length_stack_of)
    then have room: "cv_stack_len h < MAX_DEPTH" using inv st by simp
    have "add_chunk_chaining_value h cv t = push_stack h cv"
      using False by (subst add_chunk_chaining_value.simps) (simp add: and_1_eq_0)
    then show ?thesis
      using inv room by (auto simp: stack_inv_def push_stack_def st take_Suc_conv_app_nth)
  qed
qed

lemma chunk_counter_fill [simp]: "chunk_counter (chunk_fill c xs) = chunk_counter c"
  and chunk_counter_flush [simp]: "chunk_counter (chunk_flush c) = chunk_counter c"
  by (simp_all add: chunk_fill_def chunk_flush_def)

lemma chunk_counter_fold [simp]: "chunk_counter (fold chunk_byte xs c) = chunk_counter c"
  by (induction xs arbitrary: c) (simp_all add: chunk_byte_def)

lemma chunk_counter_new [simp]: "chunk_counter (chunk_new n) = n"
  by (simp add: chunk_new_def)

text \<open>A chunk state with an empty block that is fed a whole chunk has its reference output.\<close>

lemma chunk_output_ref:
  assumes "chunk_block c = replicate BLOCK_LEN 0" "block_len c = 0"
  shows "chunk_output (fold chunk_byte xs c) =
    ref_chunk (chaining_value c) (chunk_counter c) (start_flag c) xs"
  using assms
proof (induction "length xs" arbitrary: xs c rule: less_induct)
  case less
  have inv: "chunk_inv c" using less.prems by (simp add: chunk_inv_def)
  show ?case
  proof (cases "length xs \<le> BLOCK_LEN")
    case True
    then have "fold chunk_byte xs c = chunk_fill c xs"
      using inv less.prems by (simp add: chunk_fill_fold)
    then show ?thesis
      using True less.prems
      by (subst ref_chunk.simps) (simp add: chunk_output_def chunk_fill_def start_flag_def)
  next
    case False
    let ?a = "take BLOCK_LEN xs" and ?b = "drop BLOCK_LEN xs"
    define c1 where "c1 = chunk_fill c ?a"
    have c1: "chunk_block c1 = ?a" "block_len c1 = BLOCK_LEN" "chaining_value c1 = chaining_value c"
      "start_flag c1 = start_flag c" "chunk_counter c1 = chunk_counter c"
      using False less.prems by (simp_all add: c1_def chunk_fill_def start_flag_def)
    have "fold chunk_byte ?a c = c1"
      unfolding c1_def using inv less.prems by (simp add: chunk_fill_fold)
    then have "fold chunk_byte xs c = fold chunk_byte ?b c1"
      by (metis append_take_drop_id comp_apply fold_append)
    also obtain x ys where "?b = x # ys" using False by (cases ?b) auto
    then have "fold chunk_byte ?b c1 = fold chunk_byte ?b (chunk_flush c1)"
      using chunk_byte_flush [OF c1(2)] by simp
    finally have eq: "fold chunk_byte xs c = fold chunk_byte ?b (chunk_flush c1)" .
    have "chunk_output (fold chunk_byte ?b (chunk_flush c1)) =
        ref_chunk (chaining_value (chunk_flush c1)) (chunk_counter (chunk_flush c1))
          (start_flag (chunk_flush c1)) ?b"
      using False by (intro less.hyps) (simp_all add: chunk_flush_def)
    also have "\<dots> = ref_chunk (chaining_value c) (chunk_counter c) (start_flag c) xs"
      using False c1 by (subst (2) ref_chunk.simps) (simp add: chunk_flush_def start_flag_def)
    finally show ?thesis using eq by simp
  qed
qed

lemma chunk_output_new:
  "chunk_output (fold chunk_byte xs (chunk_new n)) = ref_chunk IV n CHUNK_START xs"
  using chunk_output_ref [of "chunk_new n" xs] by (simp add: chunk_new_def start_flag_def)

text \<open>The state after the first \<open>i\<close> bytes of \<open>M\<close>.\<close>

definition tree_inv :: "bytes \<Rightarrow> nat \<Rightarrow> Hasher \<Rightarrow> bool" where
  "tree_inv M i h \<longleftrightarrow> (let n = (i - 1) div CHUNK_LEN in
     chunk_state h = fold chunk_byte (slice (CHUNK_LEN * n) i M) (chunk_new (word_of_nat n)) \<and>
     stack_inv (chunk_leaf M) 0 n h)"

lemma stack_inv_finish:
  assumes "stack_inv L 0 n h" "n + 1 < 2 ^ MAX_DEPTH" "chunk_counter (chunk_state h) = word_of_nat n"
    "chunk_output (chunk_state h) = L n"
  shows "stack_inv L 0 (n + 1) (finish_chunk h)"
proof -
  have "unat (word_of_nat (n + 1) :: u64) = n + 1" using assms(2) by (simp only: unat_of_nat) simp
  then have "unat (chunk_counter (chunk_state h) + 1) = n + 1"
    using assms(3) by (simp add: add.commute)
  then show ?thesis
    using add_chunk_stack [of L 0 "chunk_counter (chunk_state h) + 1" h] assms
    by (simp add: finish_chunk_def Let_def)
qed

lemma slice_snoc: "a \<le> i \<Longrightarrow> i < length xs \<Longrightarrow> slice a (Suc i) xs = slice a i xs @ [xs ! i]"
  by (simp add: slice_nth slice_join)

lemma slice_empty [simp]: "slice i i xs = []"
  by (simp add: slice_def)

lemma tree_inv_step:
  assumes "tree_inv M i h" "i < length M" "length M < 2 ^ 64"
  shows "tree_inv M (Suc i) (hasher_byte (M ! i) h)"
proof -
  define n where "n = (i - 1) div CHUNK_LEN"
  have cs: "chunk_state h = fold chunk_byte (slice (CHUNK_LEN * n) i M) (chunk_new (word_of_nat n))"
    and st: "stack_inv (chunk_leaf M) 0 n h"
    using assms(1) by (simp_all add: tree_inv_def Let_def n_def)
  have ni: "CHUNK_LEN * n \<le> i" "i \<le> CHUNK_LEN * n + CHUNK_LEN"
    unfolding n_def by (simp_all add: mult.commute)
  have len: "chunk_len (chunk_state h) = i - CHUNK_LEN * n"
    using chunk_fold [of "chunk_new (word_of_nat n)" "slice (CHUNK_LEN * n) i M"] assms(2) by (simp add: cs)
  show ?thesis
  proof (cases "i = CHUNK_LEN * n + CHUNK_LEN")
    case True
    have n': "(Suc i - 1) div CHUNK_LEN = n + 1" using True by simp
    have small: "n + 1 < 2 ^ MAX_DEPTH" using True assms(2,3) by simp
    have "chunk_output (chunk_state h) = chunk_leaf M n"
      by (simp add: cs chunk_output_new chunk_leaf_def True)
    then have st': "stack_inv (chunk_leaf M) 0 (n + 1) (finish_chunk h)"
      using st small by (intro stack_inv_finish) (simp_all add: cs)
    have "hasher_byte (M ! i) h = (finish_chunk h)\<lparr>chunk_state := chunk_byte (M ! i) (chunk_new (word_of_nat n + 1))\<rparr>"
      using len True by (simp add: hasher_byte_def cs)
    moreover have "slice (CHUNK_LEN * (n + 1)) (Suc i) M = [M ! i]"
      using slice_snoc [of i i M] True assms(2) by (simp add: add.commute)
    ultimately show ?thesis
      unfolding tree_inv_def n' Let_def using st' by (simp add: add.commute)
  next
    case False
    have n': "(Suc i - 1) div CHUNK_LEN = n"
      using False ni by (simp add: div_nat_eqI)
    have "hasher_byte (M ! i) h = h\<lparr>chunk_state := chunk_byte (M ! i) (chunk_state h)\<rparr>"
      using len False ni by (simp add: hasher_byte_def)
    then show ?thesis
      unfolding tree_inv_def n' Let_def using st slice_snoc [OF ni(1) assms(2)] by (simp add: cs)
  qed
qed

lemma tree_inv_take:
  assumes "length M < 2 ^ 64"
  shows "i \<le> length M \<Longrightarrow> tree_inv M i (fold hasher_byte (take i M) hasher_new)"
proof (induction i)
  case 0
  then show ?case by (simp add: tree_inv_def) (simp add: hasher_new_def)
next
  case (Suc i)
  then show ?case
    using tree_inv_step [of M i "fold hasher_byte (take i M) hasher_new"] assms
    by (simp add: take_Suc_conv_app_nth)
qed

text \<open>C37: Hashing an input of any length that fits 64 bits with the incremental hasher, its
  lazily compressed blocks and its bounded stack of chaining values, gives the BLAKE3 tree hash
  of that input: the reference definition over the list of its chunks.\<close>

theorem blake3_hash_tree:
  assumes "length input < 2 ^ 64"
  shows "blake3_hash input = tree_hash input"
proof -
  let ?h = "fold hasher_byte input hasher_new"
  define n where "n = (length input - 1) div CHUNK_LEN"
  have "tree_inv input (length input) ?h"
    using tree_inv_take [OF assms, of "length input"] by simp
  then have cs: "chunk_state ?h =
      fold chunk_byte (slice (CHUNK_LEN * n) (length input) input) (chunk_new (word_of_nat n))"
    and st: "stack_inv (chunk_leaf input) 0 n ?h"
    by (simp_all add: tree_inv_def Let_def n_def)
  have "slice (CHUNK_LEN * n) (CHUNK_LEN * n + CHUNK_LEN) input = slice (CHUNK_LEN * n) (length input) input"
  proof -
    have "length input \<le> CHUNK_LEN * n + CHUNK_LEN" unfolding n_def by simp
    then show ?thesis by (simp add: slice_def)
  qed
  then have last: "chunk_output (chunk_state ?h) = chunk_leaf input n"
    by (simp add: cs chunk_output_new chunk_leaf_def)
  have count: "max 1 ((length input + (CHUNK_LEN - 1)) div CHUNK_LEN) = Suc n"
    unfolding n_def by (cases "length input") auto
  have "finalize_from (cv_stack ?h) (cv_stack_len ?h) (chunk_leaf input n) =
      cv_tree (map (cv_node (chunk_leaf input) 0) [0..<n] @ [chunk_leaf input n])"
    using st by (rule stack_inv_finalize)
  also have "map (cv_node (chunk_leaf input) 0) [0..<n] @ [chunk_leaf input n] = leaf_outputs input"
    by (simp add: leaf_outputs_def count del: One_nat_def CHUNK_LEN_def)
  finally show ?thesis
    by (simp add: blake3_hash_def hasher_update_fold finalize_def last tree_hash_def)
qed

theorem blake3_hash_tree_witness:
  "blake3_hash (replicate 5000 7) = tree_hash (replicate 5000 7)"
  by (rule blake3_hash_tree) simp

section \<open>Lengths\<close>

lemma length_blake3_g [simp]: "length (blake3_g s a b c d x y) = length s"
  by (simp add: blake3_g_def Let_def)

lemma length_round_fn [simp]: "length (round_fn s m) = length s"
  by (simp add: round_fn_def Let_def)

lemma length_rounds [simp]: "length (blake3_rounds n s m) = length s"
  by (induction n arbitrary: s m) (simp_all add: Let_def)

lemma length_compress [simp]: "length (blake3_compress cv m n l f) = 16"
proof -
  have "length (fold (\<lambda>i s. let s = s[i := s ! i XOR s ! (i + 8)] in s[i + 8 := s ! (i + 8) XOR cv ! i]) is s)
      = length s" for "is" s
    by (induction "is" arbitrary: s) (simp_all add: Let_def)
  then show ?thesis by (simp add: blake3_compress_def Let_def)
qed

lemma length_blake3_hash [simp, enc_len]: "length (blake3_hash xs) = 32"
  by (simp add: blake3_hash_def finalize_def root_hash_def Let_def length_concat comp_def sum_list_triv)

end

