(* ===== verification/Limbs.thy ===== *)
theory Limbs imports Prelude begin

text \<open>
  Arrays of 64-bit limbs, least significant first, as \<open>Target\<close>, \<open>Work\<close> and the
  320-bit intermediates of \<open>lib/consensus/src/asert.rs\<close> and \<open>rules.rs\<close> hold
  them. Each loop of the code over such an array is one function here, and one lemma says
  which operation on natural numbers it computes (\<open>limbs_val\<close> is the number an array
  stands for).
\<close>

type_synonym limbs = "u64 list"

primrec limbs_val :: "limbs \<Rightarrow> nat" where
  "limbs_val [] = 0"
| "limbs_val (l # ls) = unat l + 2 ^ 64 * limbs_val ls"

named_theorems limb_vals \<open>what an operation on limb arrays does to the number\<close>

section \<open>The number of an array\<close>

lemma unat_u64_less: "unat (l :: u64) < 2 ^ 64"
  using unsigned_less [of l] by simp

lemma limbs_val_less: "limbs_val ls < 2 ^ (64 * length ls)"
proof (induction ls)
  case Nil
  then show ?case by simp
next
  case (Cons l ls)
  have "limbs_val (l # ls) < 2 ^ 64 + 2 ^ 64 * limbs_val ls"
    using unat_u64_less [of l] by simp
  also have "\<dots> = 2 ^ 64 * (limbs_val ls + 1)" by simp
  also have "\<dots> \<le> 2 ^ 64 * 2 ^ (64 * length ls)"
    using Cons by (intro mult_le_mono2) simp
  finally show ?case by (simp add: power_add)
qed

lemma limbs_val_append: "limbs_val (xs @ ys) = limbs_val xs + 2 ^ (64 * length xs) * limbs_val ys"
  by (induction xs) (simp_all add: power_add algebra_simps)

lemma limbs_val_snoc: "limbs_val (xs @ [y]) = limbs_val xs + 2 ^ (64 * length xs) * unat y"
  by (simp add: limbs_val_append)

lemma limbs_val_replicate0 [simp]: "limbs_val (replicate n 0) = 0"
  by (induction n) simp_all

lemma limbs_val_eq_0: "limbs_val ls = 0 \<longleftrightarrow> (\<forall>l \<in> set ls. l = 0)"
  by (induction ls) (simp_all add: unat_eq_zero)

lemma bit_limbs_val:
  "bit (limbs_val ls) k \<longleftrightarrow> k div 64 < length ls \<and> bit (ls ! (k div 64)) (k mod 64)"
proof (induction ls arbitrary: k)
  case Nil
  then show ?case by simp
next
  case (Cons l ls)
  show ?case
  proof (cases "k < 64")
    case True
    have "take_bit 64 (limbs_val (l # ls)) = unat l"
      using unat_u64_less [of l] by (simp add: take_bit_eq_mod)
    then have "bit (limbs_val (l # ls)) k \<longleftrightarrow> bit (unat l) k"
      using True by (metis bit_take_bit_iff)
    then show ?thesis using True by (simp add: bit_unsigned_iff)
  next
    case False
    have "drop_bit 64 (limbs_val (l # ls)) = limbs_val ls"
      using unat_u64_less [of l] by (simp add: drop_bit_eq_div)
    then have "bit (limbs_val (l # ls)) k \<longleftrightarrow> bit (limbs_val ls) (k - 64)"
      using False by (metis bit_drop_bit_eq comp_apply le_add_diff_inverse not_less)
    moreover have "k div 64 = Suc ((k - 64) div 64)" "k mod 64 = (k - 64) mod 64"
      using False by (simp_all add: le_div_geq le_mod_geq)
    ultimately show ?thesis using Cons.IH [of "k - 64"] by simp
  qed
qed

lemma limbs_val_inj:
  assumes "length xs = length ys" "limbs_val xs = limbs_val ys"
  shows "xs = ys"
proof (rule nth_equalityI)
  show "length xs = length ys" by fact
next
  fix i assume i: "i < length xs"
  show "xs ! i = ys ! i"
  proof (rule bit_word_eqI)
    fix k assume "k < LENGTH(64)"
    then have "(64 * i + k) div 64 = i" "(64 * i + k) mod 64 = k" by simp_all
    then show "bit (xs ! i) k \<longleftrightarrow> bit (ys ! i) k"
      using bit_limbs_val [of xs "64 * i + k"] bit_limbs_val [of ys "64 * i + k"] assms i
      by simp
  qed
qed

section \<open>Comparison\<close>

datatype ordering = Less | Equal | Greater

text \<open>The loop \<open>for i in (0..n).rev()\<close> of the two \<open>Ord::cmp\<close>, on the reversed arrays.\<close>

fun cmp_rev :: "limbs \<Rightarrow> limbs \<Rightarrow> ordering" where
  "cmp_rev (x # xs) (y # ys) = (if x < y then Less else if y < x then Greater else cmp_rev xs ys)"
| "cmp_rev _ _ = Equal"

definition limbs_cmp :: "limbs \<Rightarrow> limbs \<Rightarrow> ordering" where
  "limbs_cmp xs ys = cmp_rev (rev xs) (rev ys)"

lemma cmp_rev_val:
  "length xs = length ys \<Longrightarrow>
     (cmp_rev (rev xs) (rev ys) = Less \<longleftrightarrow> limbs_val xs < limbs_val ys) \<and>
     (cmp_rev (rev xs) (rev ys) = Greater \<longleftrightarrow> limbs_val ys < limbs_val xs)"
proof (induction xs arbitrary: ys rule: rev_induct)
  case Nil
  then show ?case by simp
next
  case (snoc x xs)
  then obtain y ys' where ys: "ys = ys' @ [y]" "length ys' = length xs"
    by (metis length_append_singleton length_Suc_conv_rev)
  let ?B = "2 ^ (64 * length xs) :: nat"
  have lx: "limbs_val xs < ?B" and ly: "limbs_val ys' < ?B"
    using limbs_val_less [of xs] limbs_val_less [of ys'] ys by simp_all
  have step: "a + ?B * unat u < b + ?B * unat v"
    if "a < ?B" "(u :: u64) < v" for a b u v
  proof -
    have "unat u + 1 \<le> unat v" using that(2) by (simp add: word_less_nat_alt)
    then have "?B * (unat u + 1) \<le> ?B * unat v" by (rule mult_le_mono2)
    then show ?thesis using that(1) by (simp add: algebra_simps)
  qed
  show ?case
    using snoc.IH [of ys'] ys step [OF lx, of x y "limbs_val ys'"] step [OF ly, of y x "limbs_val xs"]
    by (auto simp: limbs_val_snoc not_less dest: order.strict_trans)
qed

lemma limbs_cmp_Less [limb_vals]:
  "length xs = length ys \<Longrightarrow> limbs_cmp xs ys = Less \<longleftrightarrow> limbs_val xs < limbs_val ys"
  and limbs_cmp_Greater [limb_vals]:
  "length xs = length ys \<Longrightarrow> limbs_cmp xs ys = Greater \<longleftrightarrow> limbs_val ys < limbs_val xs"
  using cmp_rev_val [of xs ys] by (simp_all add: limbs_cmp_def)

section \<open>Shifts\<close>

definition limbs_shl :: "limbs \<Rightarrow> nat \<Rightarrow> limbs" where
  "limbs_shl v n =
     (let limb = n div 64; b = n mod 64
      in map (\<lambda>i. if limb \<le> i
                  then let src = i - limb; x = push_bit b (v ! src)
                       in if 0 < b \<and> 0 < src then x OR drop_bit (64 - b) (v ! (src - 1)) else x
                  else 0) [0..<length v])"

definition limbs_shr :: "limbs \<Rightarrow> nat \<Rightarrow> limbs" where
  "limbs_shr v n =
     (if 64 * length v \<le> n then replicate (length v) 0
      else let limb = n div 64; b = n mod 64
      in map (\<lambda>i. let src = i + limb
                  in if src < length v
                     then let x = drop_bit b (v ! src)
                          in if 0 < b \<and> src + 1 < length v
                             then x OR push_bit (64 - b) (v ! (src + 1)) else x
                     else 0) [0..<length v])"

lemma length_limbs_shl [simp]: "length (limbs_shl v n) = length v"
  by (simp add: limbs_shl_def Let_def)

lemma length_limbs_shr [simp]: "length (limbs_shr v n) = length v"
  by (simp add: limbs_shr_def Let_def)

lemma div_mod_64: "r < 64 \<Longrightarrow> (64 * m + r) div 64 = m" "r < 64 \<Longrightarrow> (64 * m + r) mod 64 = (r :: nat)"
  by simp_all

lemma limbs_shl_nth:
  "i < length v \<Longrightarrow> limbs_shl v n ! i =
     (if n div 64 \<le> i
      then push_bit (n mod 64) (v ! (i - n div 64)) OR
        (if 0 < n mod 64 \<and> n div 64 < i then drop_bit (64 - n mod 64) (v ! (i - n div 64 - 1)) else 0)
      else 0)"
  by (simp add: limbs_shl_def Let_def cong: if_cong)

lemma limbs_shr_nth:
  "i < length v \<Longrightarrow> n < 64 * length v \<Longrightarrow> limbs_shr v n ! i =
     (if i + n div 64 < length v
      then drop_bit (n mod 64) (v ! (i + n div 64)) OR
        (if 0 < n mod 64 \<and> i + n div 64 + 1 < length v
         then push_bit (64 - n mod 64) (v ! (i + n div 64 + 1)) else 0)
      else 0)"
  by (simp add: limbs_shr_def Let_def cong: if_cong)

lemma limbs_val_shl [limb_vals]:
  "limbs_val (limbs_shl v n) = (limbs_val v * 2 ^ n) mod 2 ^ (64 * length v)"
proof -
  have "limbs_val (limbs_shl v n) = take_bit (64 * length v) (push_bit n (limbs_val v))"
  proof (rule bit_eqI)
    fix k :: nat
    define limb b i j where "limb = n div 64" and "b = n mod 64" and "i = k div 64" and "j = k mod 64"
    have n: "n = 64 * limb + b" and b: "b < 64" and k: "k = 64 * i + j" and j: "j < 64"
      by (simp_all add: limb_def b_def i_def j_def)
    have L: "bit (limbs_val (limbs_shl v n)) k \<longleftrightarrow>
        i < length v \<and> limb \<le> i \<and> (b \<le> j \<and> bit (v ! (i - limb)) (j - b) \<or>
          0 < b \<and> limb < i \<and> bit (v ! (i - limb - 1)) (64 - b + j))"
      using j b by (auto simp: bit_limbs_val limbs_shl_nth limb_def [symmetric]
          b_def [symmetric] i_def [symmetric] j_def [symmetric] bit_or_iff bit_push_bit_iff
          bit_drop_bit_eq cong: if_cong split: if_splits)
    have R: "bit (take_bit (64 * length v) (push_bit n (limbs_val v))) k \<longleftrightarrow>
        i < length v \<and> n \<le> k \<and> bit (limbs_val v) (k - n)"
      using j by (auto simp: bit_take_bit_iff bit_push_bit_iff k)
    show "bit (limbs_val (limbs_shl v n)) k \<longleftrightarrow>
        bit (take_bit (64 * length v) (push_bit n (limbs_val v))) k"
    proof (cases "b \<le> j")
      case True
      then have lk: "n \<le> k \<longleftrightarrow> limb \<le> i" using n k j by linarith
      have "k - n = 64 * (i - limb) + (j - b)" if "limb \<le> i" using n k that True by simp
      then have kn: "(k - n) div 64 = i - limb" "(k - n) mod 64 = j - b" if "limb \<le> i"
        using j that by simp_all
      have nb: "\<not> bit (v ! m) (64 - b + j)" for m
        using True b by (auto dest: bit_imp_le_length)
      show ?thesis unfolding L R unfolding bit_limbs_val lk using kn nb True by auto
    next
      case False
      then have lk: "n \<le> k \<longleftrightarrow> limb < i" using n k j b by linarith
      have "k - n = 64 * (i - limb - 1) + (64 - b + j)" if "limb < i" using n k that False b by simp
      moreover have "64 - b + j < 64" using False b by simp
      ultimately have kn: "(k - n) div 64 = i - limb - 1" "(k - n) mod 64 = 64 - b + j" if "limb < i"
        using that by (simp_all only: div_mod_64)
      show ?thesis unfolding L R unfolding bit_limbs_val lk using kn False by auto
    qed
  qed
  then show ?thesis by (simp add: take_bit_eq_mod push_bit_eq_mult)
qed

lemma limbs_val_shr [limb_vals]: "limbs_val (limbs_shr v n) = limbs_val v div 2 ^ n"
proof (cases "64 * length v \<le> n")
  case True
  then have "limbs_val v < 2 ^ n"
    using limbs_val_less [of v] by (meson less_le_trans one_le_numeral power_increasing)
  then show ?thesis using True by (simp add: limbs_shr_def)
next
  case False
  have "limbs_val (limbs_shr v n) = drop_bit n (limbs_val v)"
  proof (rule bit_eqI)
    fix k :: nat
    define limb b i j where "limb = n div 64" and "b = n mod 64" and "i = k div 64" and "j = k mod 64"
    have n: "n = 64 * limb + b" and b: "b < 64" and k: "k = 64 * i + j" and j: "j < 64"
      by (simp_all add: limb_def b_def i_def j_def)
    have L: "bit (limbs_val (limbs_shr v n)) k \<longleftrightarrow>
        i + limb < length v \<and> (bit (v ! (i + limb)) (b + j) \<or>
          0 < b \<and> i + limb + 1 < length v \<and> 64 - b \<le> j \<and> bit (v ! (i + limb + 1)) (j - (64 - b)))"
      using j b False by (auto simp: bit_limbs_val limbs_shr_nth limb_def [symmetric]
          b_def [symmetric] i_def [symmetric] j_def [symmetric] bit_or_iff bit_push_bit_iff
          bit_drop_bit_eq cong: if_cong split: if_splits)
    have R: "bit (drop_bit n (limbs_val v)) k \<longleftrightarrow> bit (limbs_val v) (n + k)"
      by (simp add: bit_drop_bit_eq)
    show "bit (limbs_val (limbs_shr v n)) k \<longleftrightarrow> bit (drop_bit n (limbs_val v)) k"
    proof (cases "b + j < 64")
      case True
      have "n + k = 64 * (i + limb) + (b + j)" using n k by simp
      then have "(n + k) div 64 = i + limb" "(n + k) mod 64 = b + j" using True
        by (simp_all only: div_mod_64)
      then show ?thesis unfolding L R unfolding bit_limbs_val using True by auto
    next
      case F: False
      have "n + k = 64 * (i + limb + 1) + (b + j - 64)" using n k F by simp
      moreover have "b + j - 64 < 64" using b j by simp
      ultimately have "(n + k) div 64 = i + limb + 1" "(n + k) mod 64 = b + j - 64"
        by (simp_all only: div_mod_64)
      moreover have "\<not> bit (v ! m) (b + j)" for m using F by (auto dest: bit_imp_le_length)
      ultimately show ?thesis unfolding L R unfolding bit_limbs_val using F b j by (auto simp: add.commute)
    qed
  qed
  then show ?thesis by (simp add: drop_bit_eq_div)
qed

section \<open>Bit length\<close>

definition leading_zeros :: "u64 \<Rightarrow> nat" where
  "leading_zeros w = length (takeWhile (\<lambda>i. \<not> bit w i) (rev [0..<64]))"

text \<open>The loop \<open>for i in (0..n).rev()\<close> that finds the highest non-zero limb.\<close>

fun limbs_bit_len :: "limbs \<Rightarrow> nat \<Rightarrow> nat" where
  "limbs_bit_len v 0 = 0"
| "limbs_bit_len v (Suc i) =
     (if v ! i \<noteq> 0 then i * 64 + (64 - leading_zeros (v ! i)) else limbs_bit_len v i)"

lemma leading_zeros_bounds:
  assumes "w \<noteq> 0"
  shows "leading_zeros w < 64" "unat w < 2 ^ (64 - leading_zeros w)"
    "2 ^ (63 - leading_zeros w) \<le> unat w"
proof -
  let ?P = "\<lambda>i. \<not> bit w i" and ?r = "rev [0..<64]"
  let ?n = "leading_zeros w"
  obtain k where k: "bit w k" using assms by (metis bit_word_eqI bit_0_eq bot_apply bot_bool_def)
  then have k64: "k < 64" using bit_imp_le_length by fastforce
  then have "k \<in> set ?r" by simp
  then have "takeWhile ?P ?r \<noteq> ?r" using k by (metis takeWhile_eq_all_conv)
  then have "?n \<noteq> length ?r"
    unfolding leading_zeros_def by (metis length_takeWhile_le nat_less_le takeWhile_eq_all_conv
        append_eq_conv_conj takeWhile_dropWhile_id takeWhile_eq_take take_all order_refl)
  then show n: "?n < 64"
    using length_takeWhile_le [of ?P ?r] by (simp add: leading_zeros_def)
  have nth: "?r ! i = 63 - i" if "i < 64" for i using that by (simp add: rev_nth)
  have high: "\<not> bit w i" if "64 - ?n \<le> i" for i
  proof (cases "i < 64")
    case True
    then have "63 - i < ?n" using that n by simp
    then have "?P (?r ! (63 - i))"
      unfolding leading_zeros_def by (metis nth_mem set_takeWhileD takeWhile_nth)
    then show ?thesis using nth [of "63 - i"] True by simp
  next
    case False
    then show ?thesis by (auto dest: bit_imp_le_length)
  qed
  have "bit w (63 - ?n)"
    using nth_length_takeWhile [of ?P ?r] n nth [of ?n] by (simp add: leading_zeros_def)
  then have "bit (unat w) (63 - ?n)" by (simp add: bit_unsigned_iff)
  then show "2 ^ (63 - ?n) \<le> unat w"
    by (metis bit_iff_odd div_less even_zero not_less)
  have "take_bit (64 - ?n) (unat w) = unat w"
  proof (rule bit_eqI)
    fix i
    have "bit w i \<Longrightarrow> i < 64 - ?n" using high not_less by blast
    then show "bit (take_bit (64 - ?n) (unat w)) i \<longleftrightarrow> bit (unat w) i"
      by (auto simp: bit_take_bit_iff bit_unsigned_iff)
  qed
  then show "unat w < 2 ^ (64 - ?n)"
    by (metis take_bit_nat_less_exp)
qed

lemma limbs_bit_len_bounds:
  "m \<le> length v \<Longrightarrow>
     limbs_val (take m v) < 2 ^ limbs_bit_len v m \<and>
     (limbs_val (take m v) \<noteq> 0 \<longrightarrow>
        0 < limbs_bit_len v m \<and> 2 ^ (limbs_bit_len v m - 1) \<le> limbs_val (take m v))"
proof (induction m)
  case 0
  then show ?case by simp
next
  case (Suc m)
  then have m: "m < length v" by simp
  have tk: "limbs_val (take (Suc m) v) = limbs_val (take m v) + 2 ^ (64 * m) * unat (v ! m)"
    using m by (simp add: take_Suc_conv_app_nth limbs_val_snoc)
  show ?case
  proof (cases "v ! m = 0")
    case True
    then show ?thesis using Suc m tk by simp
  next
    case False
    note lz = leading_zeros_bounds [OF False]
    let ?z = "leading_zeros (v ! m)"
    have lo: "limbs_val (take m v) < 2 ^ (64 * m)"
      using limbs_val_less [of "take m v"] m by simp
    have "unat (v ! m) + 1 \<le> 2 ^ (64 - ?z)" using lz(2) by simp
    then have "2 ^ (64 * m) * (unat (v ! m) + 1) \<le> 2 ^ (64 * m) * 2 ^ (64 - ?z)"
      by (rule mult_le_mono2)
    then have up: "limbs_val (take (Suc m) v) < 2 ^ (m * 64 + (64 - ?z))"
      using lo tk by (simp add: power_add mult.commute)
    have "(2 :: nat) ^ (m * 64 + (64 - ?z) - 1) = 2 ^ (64 * m) * 2 ^ (63 - ?z)"
      using lz(1) by (simp add: power_add [symmetric] mult.commute)
    also have "\<dots> \<le> limbs_val (take (Suc m) v)"
      using lz(3) tk by (simp add: trans_le_add2)
    finally show ?thesis using up False lz(1) by simp
  qed
qed

lemma limbs_bit_len_val:
  "limbs_val v < 2 ^ limbs_bit_len v (length v)"
  "limbs_val v \<noteq> 0 \<Longrightarrow> 2 ^ (limbs_bit_len v (length v) - 1) \<le> limbs_val v"
  "limbs_val v \<noteq> 0 \<Longrightarrow> 0 < limbs_bit_len v (length v)"
  using limbs_bit_len_bounds [of "length v" v] by simp_all

lemma limbs_bit_len_0 [simp]: "limbs_val v = 0 \<Longrightarrow> limbs_bit_len v (length v) = 0"
proof -
  have "\<forall>i < m. v ! i = 0 \<Longrightarrow> limbs_bit_len v m = 0" for m
    by (induction m) auto
  then show "limbs_val v = 0 \<Longrightarrow> limbs_bit_len v (length v) = 0"
    by (simp add: limbs_val_eq_0)
qed

end
