(* ===== verification/Hex.thy ===== *)
theory Hex imports Interfaces begin

text \<open>
  \<open>lib/consensus/src/hex.rs\<close>: the lower-case hexadecimal writer and the case-insensitive
  reader. Strings are their UTF-8 bytes, as the source reads them (\<open>as_bytes\<close>). The lemmas
  show that the reader inverts the writer, that it accepts exactly the even-length strings
  of hex digits, and that an error names the first offending byte.
\<close>

datatype HexError = OddLength nat | InvalidChar nat u8

text \<open>The table \<open>b"0123456789abcdef"\<close>.\<close>

definition LUT :: bytes where
  "LUT = [48, 49, 50, 51, 52, 53, 54, 55, 56, 57, 97, 98, 99, 100, 101, 102]"

fun hex_encode :: "bytes \<Rightarrow> bytes" where
  "hex_encode [] = []"
| "hex_encode (b # bs) = LUT ! unat (drop_bit 4 b) # LUT ! unat (b AND 15) # hex_encode bs"

definition nibble :: "u8 \<Rightarrow> u8 option" where
  "nibble b =
     (if 48 \<le> b \<and> b \<le> 57 then Some (b - 48)
      else if 97 \<le> b \<and> b \<le> 102 then Some (b - 97 + 10)
      else if 65 \<le> b \<and> b \<le> 70 then Some (b - 65 + 10)
      else None)"

text \<open>The loop over \<open>(0..len).step_by(2)\<close>, at index \<open>i\<close> with what is left of the string.\<close>

fun hex_decode_from :: "nat \<Rightarrow> bytes \<Rightarrow> HexError + bytes" where
  "hex_decode_from i (a # b # rest) =
     and_then (ok_or (InvalidChar i a) (nibble a)) (\<lambda>hi.
     and_then (ok_or (InvalidChar (i + 1) b) (nibble b)) (\<lambda>lo.
     and_then (hex_decode_from (i + 2) rest) (\<lambda>out. Inr ((push_bit 4 hi OR lo) # out))))"
| "hex_decode_from i _ = Inr []"

definition hex_decode :: "bytes \<Rightarrow> HexError + bytes" where
  "hex_decode s = (if length s mod 2 \<noteq> 0 then Inl (OddLength (length s)) else hex_decode_from 0 s)"

text \<open>Rust's \<open>to_ascii_lowercase\<close> on one byte.\<close>

definition ascii_lower :: "u8 \<Rightarrow> u8" where
  "ascii_lower b = (if 65 \<le> b \<and> b \<le> 90 then b + 32 else b)"

section \<open>One digit\<close>

lemma nat_digit:
  "48 \<le> n \<Longrightarrow> n \<le> 57 \<Longrightarrow> n \<in> {48, 49, 50, 51, 52, 53, 54, 55, 56, 57}"
  "97 \<le> n \<Longrightarrow> n \<le> 102 \<Longrightarrow> n \<in> {97, 98, 99, 100, 101, 102}"
  "65 \<le> n \<Longrightarrow> n \<le> 70 \<Longrightarrow> n \<in> {65, 66, 67, 68, 69, 70}"
  "n < 16 \<Longrightarrow> n \<in> {0, 1, 2, 3, 4, 5, 6, 7, 8, 9, 10, 11, 12, 13, 14, 15}" for n :: nat
proof -
  have m1: "n \<in> {48, 49, 50, 51, 52, 53, 54, 55, 56, 57}" if "n \<in> set [48..<58]"
    using that by (simp del: set_upt)
  show "n \<in> {48, 49, 50, 51, 52, 53, 54, 55, 56, 57}" if "48 \<le> n" "n \<le> 57"
    by (rule m1) (use that in \<open>simp only: set_upt atLeastLessThan_iff, simp\<close>)
  have m2: "n \<in> {97, 98, 99, 100, 101, 102}" if "n \<in> set [97..<103]"
    using that by (simp del: set_upt)
  show "n \<in> {97, 98, 99, 100, 101, 102}" if "97 \<le> n" "n \<le> 102"
    by (rule m2) (use that in \<open>simp only: set_upt atLeastLessThan_iff, simp\<close>)
  have m3: "n \<in> {65, 66, 67, 68, 69, 70}" if "n \<in> set [65..<71]"
    using that by (simp del: set_upt)
  show "n \<in> {65, 66, 67, 68, 69, 70}" if "65 \<le> n" "n \<le> 70"
    by (rule m3) (use that in \<open>simp only: set_upt atLeastLessThan_iff, simp\<close>)
  have m4: "n \<in> {0, 1, 2, 3, 4, 5, 6, 7, 8, 9, 10, 11, 12, 13, 14, 15}" if "n \<in> set [0..<16]"
    using that by (simp del: set_upt add: upt_conv_Cons numeral_2_eq_2 [symmetric])
  show "n \<in> {0, 1, 2, 3, 4, 5, 6, 7, 8, 9, 10, 11, 12, 13, 14, 15}" if "n < 16"
    by (rule m4) (use that in \<open>simp only: set_upt atLeastLessThan_iff, simp\<close>)
qed

lemma u8_of_nat: "unat b \<in> A \<Longrightarrow> b \<in> word_of_nat ` A" for b :: u8
  by (drule imageI [where f = "word_of_nat :: nat \<Rightarrow> u8"]) simp

lemma u8_digit:
  "48 \<le> b \<Longrightarrow> b \<le> 57 \<Longrightarrow> b \<in> {48, 49, 50, 51, 52, 53, 54, 55, 56, 57}"
  "97 \<le> b \<Longrightarrow> b \<le> 102 \<Longrightarrow> b \<in> {97, 98, 99, 100, 101, 102}"
  "65 \<le> b \<Longrightarrow> b \<le> 70 \<Longrightarrow> b \<in> {65, 66, 67, 68, 69, 70}" for b :: u8
  using nat_digit [of "unat b", THEN u8_of_nat]
  by (simp_all only: word_le_nat_alt unat_numeral image_insert image_empty of_nat_numeral) simp_all

lemma u8_nibble: "x \<in> {0, 1, 2, 3, 4, 5, 6, 7, 8, 9, 10, 11, 12, 13, 14, 15}" if "x < 16" for x :: u8
  using that nat_digit(4) [of "unat x", THEN u8_of_nat] by (simp add: word_less_nat_alt)

lemma nibble_cases:
  assumes "nibble b = Some x"
  obtains "b \<in> {48, 49, 50, 51, 52, 53, 54, 55, 56, 57}" | "b \<in> {97, 98, 99, 100, 101, 102}"
    | "b \<in> {65, 66, 67, 68, 69, 70}"
  using assms u8_digit [of b] unfolding nibble_def by (metis option.distinct(1))

lemma nibble_digit: "nibble b = Some x \<Longrightarrow> x < 16 \<and> LUT ! unat x = ascii_lower b"
  by (frule nibble_cases) (auto simp: nibble_def LUT_def ascii_lower_def)

lemma nibble_LUT: "x < 16 \<Longrightarrow> nibble (LUT ! unat x) = Some x"
  by (drule u8_nibble) (auto simp: LUT_def nibble_def)

lemma and_15: "b AND 15 = take_bit 4 (b :: u8)"
  by (simp add: take_bit_eq_mask mask_eq_exp_minus_1)

lemma bit_nibble: "(x :: u8) < 16 \<Longrightarrow> bit x n \<Longrightarrow> n < 4"
proof -
  assume "x < 16" "bit x n"
  have "bit (unat x) n" using \<open>bit x n\<close> by (simp add: bit_unsigned_iff)
  then have "2 ^ n \<le> unat x" by (metis bit_iff_odd div_less even_zero not_less)
  moreover have "unat x < 2 ^ 4" using \<open>x < 16\<close> by (simp add: word_less_nat_alt)
  ultimately have "(2 :: nat) ^ n < 2 ^ 4" by (rule order_le_less_trans)
  then show ?thesis by (rule power_less_imp_less_exp [rotated]) simp
qed

lemma nibble_join: "push_bit 4 (drop_bit 4 b) OR (b AND 15) = (b :: u8)"
  by (rule bit_word_eqI) (auto simp: and_15 bit_or_iff bit_take_bit_iff bit_push_bit_iff bit_drop_bit_eq)

lemma nibble_split:
  assumes "hi < 16" "lo < (16 :: u8)"
  shows "drop_bit 4 (push_bit 4 hi) OR drop_bit 4 lo = hi" "(push_bit 4 hi OR lo) AND 15 = lo"
  using bit_nibble [OF assms(1)] bit_nibble [OF assms(2)]
  by (auto intro!: bit_word_eqI
      simp: and_15 bit_or_iff bit_take_bit_iff bit_push_bit_iff bit_drop_bit_eq dest: bit_imp_le_length)
     fastforce+

lemma hi_bound: "drop_bit 4 (b :: u8) < 16" and lo_bound: "b AND 15 < (16 :: u8)"
proof -
  have "unat (drop_bit 4 b) = unat b div 2 ^ 4" 
    by (rule trans [OF unat_drop_bit_eq]) (simp add: drop_bit_eq_div)
  moreover have "unat b < 256" using unsigned_less [of b] by simp
  ultimately show "drop_bit 4 b < 16" by (simp add: word_less_nat_alt)
  have "b AND 15 \<le> 15" by (rule word_and_le1)
  then show "b AND 15 < 16" by (simp add: order_le_less_trans)
qed

section \<open>Strings of digits\<close>

lemma length_hex_encode [simp]: "length (hex_encode v) = 2 * length v"
  by (induction v) simp_all

lemma hex_encode_Nil [simp]: "hex_encode v = [] \<longleftrightarrow> v = []" "[] = hex_encode v \<longleftrightarrow> v = []"
  by (cases v; simp)+

lemma hex_decode_from_encode: "hex_decode_from i (hex_encode v) = Inr v"
  by (induction v arbitrary: i) (simp_all add: nibble_LUT hi_bound lo_bound nibble_join)

lemma hex_decode_encode: "hex_decode (hex_encode v) = Inr v"
  by (simp add: hex_decode_def hex_decode_from_encode)

lemma hex_encode_decode_from:
  "even (length s) \<Longrightarrow> hex_decode_from i s = Inr v \<Longrightarrow> hex_encode v = map ascii_lower s"
  by (induction i s arbitrary: v rule: hex_decode_from.induct)
     (auto simp: res_simps nibble_split dest!: nibble_digit)

lemma hex_decode_lower: "hex_decode s = Inr v \<Longrightarrow> hex_encode v = map ascii_lower s"
  by (auto simp: hex_decode_def hex_encode_decode_from even_iff_mod_2_eq_zero split: if_splits)

text \<open>The reader reports the first byte that is not a hex digit, and only such a byte.\<close>

definition first_bad :: "bytes \<Rightarrow> nat \<Rightarrow> bool" where
  "first_bad s i \<longleftrightarrow> i < length s \<and> nibble (s ! i) = None \<and> (\<forall>j < i. nibble (s ! j) \<noteq> None)"

lemma first_bad_0 [simp]: "nibble a = None \<Longrightarrow> first_bad (a # s) i \<longleftrightarrow> i = 0"
  by (cases i) (auto simp: first_bad_def)

lemma first_bad_Suc: "nibble a = Some x \<Longrightarrow> first_bad (a # s) i \<longleftrightarrow> (\<exists>j. i = Suc j \<and> first_bad s j)"
  by (cases i) (auto simp: first_bad_def less_Suc_eq_0_disj)

lemma nibble_iff: "x < 16 \<Longrightarrow> nibble b = Some x \<longleftrightarrow> ascii_lower b = LUT ! unat x"
proof
  assume x: "x < 16"
  show "nibble b = Some x \<Longrightarrow> ascii_lower b = LUT ! unat x" using nibble_digit by simp
  assume l: "ascii_lower b = LUT ! unat x"
  show "nibble b = Some x"
  proof (cases "65 \<le> b \<and> b \<le> 90")
    case False
    then have "b = LUT ! unat x" using l by (simp add: ascii_lower_def split: if_splits)
    then show ?thesis using nibble_LUT [OF x] by simp
  next
    case True
    then have "b + 32 = LUT ! unat x" using l by (simp add: ascii_lower_def)
    then have "b = LUT ! unat x - 32" by (simp add: eq_diff_eq)
    then show ?thesis using True u8_nibble [OF x] by (auto simp: LUT_def nibble_def)
  qed
qed

lemma hex_decode_from_iff:
  "even (length s) \<Longrightarrow> hex_decode_from i s = Inr v \<longleftrightarrow> hex_encode v = map ascii_lower s"
proof (induction i s arbitrary: v rule: hex_decode_from.induct)
  case (1 i a b rest)
  show ?case
  proof
    show "hex_decode_from i (a # b # rest) = Inr v \<Longrightarrow> hex_encode v = map ascii_lower (a # b # rest)"
      using "1.prems" by (rule hex_encode_decode_from)
    assume h: "hex_encode v = map ascii_lower (a # b # rest)"
    then obtain c cs where v: "v = c # cs" by (cases v) auto
    then have "nibble a = Some (drop_bit 4 c)" "nibble b = Some (c AND 15)"
      using h by (simp_all add: nibble_iff hi_bound lo_bound)
    moreover from this have "hex_decode_from (i + 2) rest = Inr cs"
      using "1.IH" "1.prems" h v by simp
    ultimately show "hex_decode_from i (a # b # rest) = Inr v" by (simp add: nibble_join v)
  qed
qed auto

lemma hex_decode_from_err:
  "even (length s) \<Longrightarrow>
     hex_decode_from i s = Inl e \<longleftrightarrow> (\<exists>j. first_bad s j \<and> e = InvalidChar (i + j) (s ! j))"
proof (induction i s arbitrary: e rule: hex_decode_from.induct)
  case (1 i a b rest)
  show ?case
  proof (cases "nibble a")
    case None
    then show ?thesis by auto
  next
    case (Some hi)
    show ?thesis
    proof (cases "nibble b")
      case None
      with Some show ?thesis by (auto simp: first_bad_Suc)
    next
      case (Some lo)
      with \<open>nibble a = Some hi\<close> have "hex_decode_from i (a # b # rest) = Inl e \<longleftrightarrow>
          hex_decode_from (i + 2) rest = Inl e"
        by (auto simp: res_simps)
      also have "\<dots> \<longleftrightarrow> (\<exists>j. first_bad rest j \<and> e = InvalidChar (i + 2 + j) (rest ! j))"
        using "1.IH" "1.prems" Some \<open>nibble a = Some hi\<close> by simp
      finally show ?thesis
        using Some \<open>nibble a = Some hi\<close> by (auto simp: first_bad_Suc)
    qed
  qed
qed (auto simp: first_bad_def)

lemma hex_decode_err:
  "hex_decode s = Inl (InvalidChar i b) \<longleftrightarrow> even (length s) \<and> first_bad s i \<and> b = s ! i"
  using hex_decode_from_err [of s 0 "InvalidChar i b"]
  by (auto simp: hex_decode_def even_iff_mod_2_eq_zero)

text \<open>The reader accepts exactly the strings that the writer produces, in either case of the
  letters, and returns the bytes they were written from.\<close>

theorem hex_decode_iff: "hex_decode s = Inr v \<longleftrightarrow> hex_encode v = map ascii_lower s"
proof -
  have "even (length s)" if "hex_encode v = map ascii_lower s"
    using arg_cong [OF that, of length] by (metis dvd_triv_left length_hex_encode length_map)
  then show ?thesis
    using hex_decode_from_iff [of s 0 v] by (auto simp: hex_decode_def even_iff_mod_2_eq_zero)
qed

text \<open>A refused string of even length is blamed on its first byte that is not a hex digit,
  and such a byte is the only reason to refuse it.\<close>

theorem hex_decode_blames_first:
  "hex_decode s = Inl (InvalidChar i b) \<longleftrightarrow> even (length s) \<and> first_bad s i \<and> b = s ! i"
  by (rule hex_decode_err)

end
