(* ===== verification/Targets.thy ===== *)
theory Targets imports Limbs Hex Constants begin

text \<open>
  \<open>Target\<close> of \<open>lib/consensus/src/asert.rs\<close>: 256-bit proof-of-work targets, their order,
  their hexadecimal form and the compact \<open>bits\<close> of a header. The lemmas show that the order is
  the order of the numbers, and that the compact form is exact on every target that was
  decoded from a compact one, never rounds up, and loses less than one part in \<open>2 ^ 15\<close>.
\<close>

datatype Target = Target u64 u64 u64 u64

primrec limbs :: "Target \<Rightarrow> limbs" where
  "limbs (Target a b c d) = [a, b, c, d]"

definition of_limbs :: "limbs \<Rightarrow> Target" where
  "of_limbs v = Target (v ! 0) (v ! 1) (v ! 2) (v ! 3)"

definition target_val :: "Target \<Rightarrow> nat" where
  "target_val t = limbs_val (limbs t)"

datatype AsertError = NegativeCompact | OverflowCompact | ParentBelowAnchor | BadHex

definition target_ZERO :: Target where "target_ZERO = Target 0 0 0 0"
definition target_ONE :: Target where "target_ONE = Target 1 0 0 0"
definition target_MAX :: Target where "target_MAX = Target (- 1) (- 1) (- 1) (- 1)"
definition POW_LIMIT :: Target where "POW_LIMIT = of_limbs POW_LIMIT_LIMBS"

definition target_from_u64 :: "u64 \<Rightarrow> Target" where
  "target_from_u64 v = Target v 0 0 0"

definition target_is_zero :: "Target \<Rightarrow> bool" where
  "target_is_zero t \<longleftrightarrow> limbs t = [0, 0, 0, 0]"

definition low_u64 :: "Target \<Rightarrow> u64" where
  "low_u64 t = limbs t ! 0"

definition target_bit_len :: "Target \<Rightarrow> nat" where
  "target_bit_len t = limbs_bit_len (limbs t) 4"

definition target_shl :: "Target \<Rightarrow> nat \<Rightarrow> Target" where
  "target_shl t n = of_limbs (limbs_shl (limbs t) n)"

definition target_shr :: "Target \<Rightarrow> nat \<Rightarrow> Target" where
  "target_shr t n = of_limbs (limbs_shr (limbs t) n)"

definition target_from_be_hex :: "bytes \<Rightarrow> AsertError + Target" where
  "target_from_be_hex s =
     and_then (map_err (\<lambda>_. BadHex) (hex_decode s)) (\<lambda>b.
     if length b \<noteq> 32 then Inl BadHex
     else Inr (of_limbs (map (\<lambda>i. from_be (slice (8 * (3 - i)) (8 * (3 - i) + 8) b)) [0..<4])))"

definition target_to_be_hex :: "Target \<Rightarrow> bytes" where
  "target_to_be_hex t = hex_encode (concat (map (\<lambda>i. to_be 8 (limbs t ! (3 - i))) [0..<4]))"

definition from_compact :: "u32 \<Rightarrow> AsertError + Target" where
  "from_compact bits =
     (let size = unat (drop_bit 24 bits);
          word = (ucast (bits AND 0x007fffff) :: u64)
      in if word \<noteq> 0 \<and> bits AND 0x00800000 \<noteq> 0 then Inl NegativeCompact
         else if word = 0 then Inr target_ZERO
         else if size > 34 \<or> (word > 0xff \<and> size > 33) \<or> (word > 0xffff \<and> size > 32)
         then Inl OverflowCompact
         else Inr (if size \<le> 3 then target_from_u64 (drop_bit (8 * (3 - size)) word)
                   else target_shl (target_from_u64 word) (8 * (size - 3))))"

definition to_compact :: "Target \<Rightarrow> u32" where
  "to_compact t =
     (let size = (target_bit_len t + 7) div 8;
          compact = (if size \<le> 3 then push_bit (8 * (3 - size)) (low_u64 t)
                     else low_u64 (target_shr t (8 * (size - 3))));
          (compact, size) = (if compact AND 0x00800000 \<noteq> 0 then (drop_bit 8 compact, size + 1)
                             else (compact, size))
      in ucast compact OR push_bit 24 (word_of_nat size))"

section \<open>The number of a target\<close>

lemma length_limbs [simp]: "length (limbs t) = 4"
  by (cases t) simp

lemma limbs_of_limbs [simp]: "length v = 4 \<Longrightarrow> limbs (of_limbs v) = v"
  by (auto simp: of_limbs_def length_Suc_conv numeral_eq_Suc)

lemma of_limbs_limbs [simp]: "of_limbs (limbs t) = t"
  by (cases t) (simp add: of_limbs_def)

lemma target_val_less: "target_val t < 2 ^ 256"
  using limbs_val_less [of "limbs t"] by (simp add: target_val_def)

lemma target_val_inj [simp]: "target_val s = target_val t \<longleftrightarrow> s = t"
  by (metis length_limbs limbs_val_inj of_limbs_limbs target_val_def)

lemma target_val_of_limbs: "length v = 4 \<Longrightarrow> target_val (of_limbs v) = limbs_val v"
  by (simp add: target_val_def)

lemma target_val_simps [simp]:
  "target_val target_ZERO = 0" "target_val target_ONE = 1" "target_val (target_from_u64 v) = unat v"
  by (simp_all add: target_val_def target_ZERO_def target_ONE_def target_from_u64_def)

lemma target_is_zero_iff [simp]: "target_is_zero t \<longleftrightarrow> target_val t = 0"
  by (cases t) (simp add: target_is_zero_def target_val_def unat_eq_zero)

lemma target_val_shl: "target_val (target_shl t n) = target_val t * 2 ^ n mod 2 ^ 256"
  by (simp add: target_shl_def target_val_def limb_vals)

lemma target_val_shr: "target_val (target_shr t n) = target_val t div 2 ^ n"
  by (simp add: target_shr_def target_val_def limb_vals)

lemma target_bit_len_bounds:
  "target_val t < 2 ^ target_bit_len t"
  "target_val t \<noteq> 0 \<Longrightarrow> 0 < target_bit_len t \<and> 2 ^ (target_bit_len t - 1) \<le> target_val t"
  using limbs_bit_len_val [of "limbs t"] by (simp_all add: target_bit_len_def target_val_def)

lemma target_bit_len_0: "target_val t = 0 \<Longrightarrow> target_bit_len t = 0"
  using limbs_bit_len_0 [of "limbs t"] by (simp add: target_bit_len_def target_val_def)

lemma unat_low_u64: "unat (low_u64 t) = target_val t mod 2 ^ 64"
proof -
  have "limbs_val (l # ls) mod 2 ^ 64 = unat l" for l ls
    using unat_u64_less [of l] by (simp only: limbs_val.simps mod_mult_self2 mod_less)
  then show ?thesis
    by (cases t) (simp add: low_u64_def target_val_def del: limbs_val.simps)
qed

lemma limbs_val_max: "limbs_val [- 1, - 1, - 1, - 1] = 2 ^ 256 - 1"
  by (simp add: unsigned_minus_1_eq_mask mask_eq_exp_minus_1)

lemma target_val_MAX: "target_val target_MAX = 2 ^ 256 - 1"
  by (simp add: target_val_def target_MAX_def limbs_val_max del: limbs_val.simps)

lemma target_val_POW_LIMIT: "target_val POW_LIMIT = 2 ^ 240 - 1"
proof -
  have "unat (push_bit 48 1 - 1 :: u64) = 2 ^ 48 - 1" by (simp add: push_bit_eq_mult)
  then show ?thesis
    by (simp add: POW_LIMIT_def POW_LIMIT_LIMBS_def target_val_of_limbs
        unsigned_minus_1_eq_mask mask_eq_exp_minus_1)
qed

section \<open>The order\<close>

text \<open>\<open>impl Ord for Target\<close>: the order of the library is the one the code's comparison gives.\<close>

definition target_cmp :: "Target \<Rightarrow> Target \<Rightarrow> ordering" where
  "target_cmp a b = limbs_cmp (limbs a) (limbs b)"

instantiation Target :: linorder
begin

definition less_eq_Target :: "Target \<Rightarrow> Target \<Rightarrow> bool" where
  "less_eq_Target a b \<longleftrightarrow> target_cmp a b \<noteq> Greater"

definition less_Target :: "Target \<Rightarrow> Target \<Rightarrow> bool" where
  "less_Target a b \<longleftrightarrow> target_cmp a b = Less"

instance
  by standard
    (auto simp: less_eq_Target_def less_Target_def target_cmp_def limb_vals target_val_def [symmetric])

end

lemma target_le_iff: "a \<le> b \<longleftrightarrow> target_val a \<le> target_val b" for a b :: Target
  by (auto simp: less_eq_Target_def target_cmp_def limb_vals target_val_def)

lemma target_less_iff: "a < b \<longleftrightarrow> target_val a < target_val b" for a b :: Target
  by (simp add: less_Target_def target_cmp_def limb_vals target_val_def)

section \<open>Hexadecimal\<close>

lemma slice_concat8:
  "slice 0 8 (to_be 8 a @ r) = to_be 8 (a :: u64)"
  "i \<ge> 8 \<Longrightarrow> slice i j (to_be 8 (a :: u64) @ r) = slice (i - 8) (j - 8) r"
  by (simp_all add: slice_concat)

lemma target_hex_roundtrip: "target_from_be_hex (target_to_be_hex t) = Inr t"
proof (cases t)
  case (Target a b c d)
  have upt4: "[0..<4] = [0, 1, 2, 3 :: nat]" by (simp add: upt_rec)
  show ?thesis
    by (simp add: target_from_be_hex_def target_to_be_hex_def hex_decode_encode upt4 Target
        of_limbs_def slice_concat)
qed

section \<open>Compact bits\<close>

text \<open>Compact bits on numbers: a mantissa below \<open>2 ^ 23\<close> scaled by a power of 256.\<close>

definition compact_val :: "nat \<Rightarrow> nat \<Rightarrow> nat" where
  "compact_val sz word = (if sz \<le> 3 then word div 256 ^ (3 - sz) else word * 256 ^ (sz - 3))"

lemma pow_256: "(2 :: nat) ^ (8 * n) = 256 ^ n"
  by (simp add: power_mult)

lemma and_mantissa: "(bits AND 0x007fffff :: u32) = take_bit 23 bits"
  by (simp add: take_bit_eq_mask mask_eq_exp_minus_1)

lemma and_sign: "bits AND 0x00800000 \<noteq> 0 \<longleftrightarrow> bit bits 23" for bits :: "'a::len word"
proof -
  have "(0x00800000 :: 'a word) = 2 ^ 23" by simp
  then show ?thesis by (simp only: and_exp_eq_0_iff_not_bit not_not)
qed

lemma from_compact_Inr:
  assumes "from_compact bits = Inr t"
  shows "target_val t = compact_val (unat (drop_bit 24 bits)) (unat (take_bit 23 bits))"
proof -
  define sz where "sz = unat (drop_bit 24 bits)"
  define m where "m = (ucast (take_bit 23 bits) :: u64)"
  have "unat (take_bit 23 bits) < 2 ^ 32" using unsigned_less [of "take_bit 23 bits"] by simp
  then have um: "unat m = unat (take_bit 23 bits)"
    by (simp add: m_def unsigned_ucast_eq take_bit_nat_eq_self_iff)
  have m23: "unat m < 2 ^ 23"
    unfolding um using take_bit_nat_less_exp [of 23 "unat bits"] by (simp add: unsigned_take_bit_eq)
  have R: "(if m \<noteq> 0 \<and> bits AND 0x00800000 \<noteq> 0 then Inl NegativeCompact
         else if m = 0 then Inr target_ZERO
         else if sz > 34 \<or> (m > 0xff \<and> sz > 33) \<or> (m > 0xffff \<and> sz > 32)
         then Inl OverflowCompact
         else Inr (if sz \<le> 3 then target_from_u64 (drop_bit (8 * (3 - sz)) m)
                   else target_shl (target_from_u64 m) (8 * (sz - 3)))) = Inr t"
    using assms by (simp only: from_compact_def Let_def and_mantissa sz_def m_def)
  show ?thesis
  proof (cases "m = 0")
    case True
    then have "t = target_ZERO" "unat (take_bit 23 bits) = 0" using R um by simp_all
    then show ?thesis by (simp add: compact_val_def)
  next
    case False
    then have ov: "sz \<le> 34" "m > 0xff \<Longrightarrow> sz \<le> 33" "m > 0xffff \<Longrightarrow> sz \<le> 32"
      and t: "t = (if sz \<le> 3 then target_from_u64 (drop_bit (8 * (3 - sz)) m)
                   else target_shl (target_from_u64 m) (8 * (sz - 3)))"
      using R by (simp_all split: if_splits)
    show ?thesis
    proof (cases "sz \<le> 3")
      case True
      have "unat (drop_bit (8 * (3 - sz)) m) = unat m div 256 ^ (3 - sz)"
        by (rule trans [OF unat_drop_bit_eq]) (simp add: drop_bit_eq_div pow_256)
      with True show ?thesis
        by (simp add: t compact_val_def sz_def [symmetric] um [symmetric])
    next
      case False
      have "unat m * 256 ^ (sz - 3) < 2 ^ 256"
      proof -
        have "unat m < 2 ^ (256 - 8 * (sz - 3))"
        proof (cases "m > 0xffff")
          case True
          then have "unat m < 2 ^ 23 \<and> 23 \<le> 256 - 8 * (sz - 3)" using ov(3) m23 by simp
          then show ?thesis by (meson less_le_trans one_le_numeral power_increasing)
        next
          case F: False
          show ?thesis
          proof (cases "m > 0xff")
            case True
            then have "unat m < 2 ^ 16 \<and> 16 \<le> 256 - 8 * (sz - 3)"
              using ov(2) F by (simp add: word_less_nat_alt not_less)
            then show ?thesis by (meson less_le_trans one_le_numeral power_increasing)
          next
            case False
            then have "unat m < 2 ^ 8 \<and> 8 \<le> 256 - 8 * (sz - 3)"
              using ov(1) by (simp add: word_less_nat_alt not_less)
            then show ?thesis by (meson less_le_trans one_le_numeral power_increasing)
          qed
        qed
        then have "unat m * 2 ^ (8 * (sz - 3)) < 2 ^ (256 - 8 * (sz - 3)) * 2 ^ (8 * (sz - 3))"
          by simp
        also have "\<dots> = 2 ^ 256" using ov(1) by (simp add: power_add [symmetric] del: power_Suc)
        finally show ?thesis by (simp add: pow_256)
      qed
      then show ?thesis
        using False by (simp add: t target_val_shl compact_val_def sz_def [symmetric] um [symmetric] pow_256)
    qed
  qed
qed

text \<open>The bytes of a number and the three most significant of them.\<close>

lemma bytes_bounds:
  assumes "x < 2 ^ n" "x \<noteq> 0 \<Longrightarrow> 0 < n \<and> 2 ^ (n - 1) \<le> x"
  shows "x < 256 ^ ((n + 7) div 8)" "x \<noteq> 0 \<Longrightarrow> 0 < (n + 7) div 8 \<and> 256 ^ ((n + 7) div 8 - 1) \<le> (x :: nat)"
proof -
  have "(2 :: nat) ^ n \<le> 2 ^ (8 * ((n + 7) div 8))" by (intro power_increasing) simp_all
  then show "x < 256 ^ ((n + 7) div 8)" using assms(1) by (simp add: pow_256)
  assume "x \<noteq> 0"
  with assms(2) have n: "0 < n" "2 ^ (n - 1) \<le> x" by auto
  then have "(2 :: nat) ^ (8 * ((n + 7) div 8 - 1)) \<le> 2 ^ (n - 1)" by (intro power_increasing) simp_all
  then show "0 < (n + 7) div 8 \<and> 256 ^ ((n + 7) div 8 - 1) \<le> x" using n by (simp add: pow_256)
qed

definition top3 :: "nat \<Rightarrow> nat \<Rightarrow> nat" where
  "top3 x sz = (if sz \<le> 3 then x * 256 ^ (3 - sz) else x div 256 ^ (sz - 3))"

lemma top3_less: "x < 256 ^ sz \<Longrightarrow> top3 x sz < 2 ^ 24"
proof (cases "sz \<le> 3")
  case True
  assume "x < 256 ^ sz"
  then have "x * 256 ^ (3 - sz) < 256 ^ sz * 256 ^ (3 - sz)" by simp
  also have "\<dots> = (256 :: nat) ^ 3" using True by (simp only: power_add [symmetric] le_add_diff_inverse)
  finally show ?thesis using True by (simp add: top3_def)
next
  case False
  assume "x < 256 ^ sz"
  also have "\<dots> = (256 :: nat) ^ 3 * 256 ^ (sz - 3)" using False by (simp only: power_add [symmetric]) simp
  finally have "x div 256 ^ (sz - 3) < 256 ^ 3" by (simp add: less_mult_imp_div_less)
  then show ?thesis using False by (simp add: top3_def)
qed

lemma top3_ge: "0 < sz \<Longrightarrow> 256 ^ (sz - 1) \<le> x \<Longrightarrow> 2 ^ 16 \<le> top3 x sz"
proof (cases "sz \<le> 3")
  case True
  assume "0 < sz" "256 ^ (sz - 1) \<le> x"
  then have "256 ^ (sz - 1) * 256 ^ (3 - sz) \<le> x * 256 ^ (3 - sz)" by simp
  moreover have "(256 :: nat) ^ (sz - 1) * 256 ^ (3 - sz) = 256 ^ 2"
    using True \<open>0 < sz\<close> by (simp only: power_add [symmetric]) simp
  ultimately have "256 ^ 2 \<le> x * 256 ^ (3 - sz)" by (simp only:)
  then show ?thesis using True by (simp add: top3_def)
next
  case False
  assume "256 ^ (sz - 1) \<le> x"
  moreover have "(256 :: nat) ^ (sz - 1) = 256 ^ 2 * 256 ^ (sz - 3)"
  proof -
    have "sz - 1 = 2 + (sz - 3)" using False by simp
    then show ?thesis by (simp only: power_add)
  qed
  ultimately have "256 ^ 2 * 256 ^ (sz - 3) div 256 ^ (sz - 3) \<le> x div 256 ^ (sz - 3)"
    by (intro div_le_mono) simp
  then show ?thesis using False by (simp add: top3_def)
qed

text \<open>The adjustment that keeps the sign bit clear.\<close>

definition normal3 :: "nat \<Rightarrow> nat \<Rightarrow> nat \<times> nat" where
  "normal3 c sz = (if 2 ^ 23 \<le> c then (c div 256, sz + 1) else (c, sz))"

lemma div_256: "x div 256 ^ k div 256 = x div (256 ^ Suc k :: nat)"
  by (simp only: power_Suc2 div_mult2_eq)

lemma compact_val_normal3:
  assumes "x < 256 ^ sz" "normal3 (top3 x sz) sz = (c, s)"
  shows "compact_val s c = x div 256 ^ (s - 3) * 256 ^ (s - 3)" "c < 2 ^ 23"
    "s \<le> sz + 1" "s = sz + 1 \<Longrightarrow> c < 2 ^ 16"
proof -
  note c24 = top3_less [OF assms(1)]
  show "c < 2 ^ 23" "s \<le> sz + 1" "s = sz + 1 \<Longrightarrow> c < 2 ^ 16"
    using assms(2) c24 by (auto simp: normal3_def split: if_splits)
  have small: "x * 256 ^ (3 - sz) div 256 div 256 ^ (3 - Suc sz) = x" if "Suc sz \<le> 3"
  proof -
    have "3 - sz = Suc (3 - Suc sz)" using that by simp
    then show ?thesis by (simp add: div_mult2_eq [symmetric])
  qed
  consider (a) "2 ^ 23 \<le> top3 x sz" "sz < 3" | (b) "2 ^ 23 \<le> top3 x sz" "3 \<le> sz"
    | (c) "top3 x sz < 2 ^ 23" "sz \<le> 3" | (d) "top3 x sz < 2 ^ 23" "3 < sz" by linarith
  then show "compact_val s c = x div 256 ^ (s - 3) * 256 ^ (s - 3)"
  proof cases
    case a
    then have "s = Suc sz" "c = x * 256 ^ (3 - sz) div 256" using assms(2) by (auto simp: normal3_def top3_def)
    then show ?thesis using small a by (simp add: compact_val_def)
  next
    case b
    then have "s - 3 = Suc (sz - 3)" "3 < s" "c = x div 256 ^ (sz - 3) div 256"
      using assms(2) by (auto simp: normal3_def top3_def Suc_diff_le)
    then show ?thesis unfolding compact_val_def by (simp only: div_256) simp
  next
    case c
    then show ?thesis using assms(2) by (auto simp: normal3_def top3_def compact_val_def)
  next
    case d
    then show ?thesis using assms(2) by (auto simp: normal3_def top3_def compact_val_def)
  qed
qed

lemma normal3_mantissa:
  assumes "normal3 (top3 x sz) sz = (c, s)" "3 < s" "0 < sz" "256 ^ (sz - 1) \<le> x"
  shows "c = x div 256 ^ (s - 3)" "2 ^ 15 \<le> c"
proof -
  note c16 = top3_ge [OF assms(3,4)]
  show "2 ^ 15 \<le> c" using assms(1) c16 by (auto simp: normal3_def split: if_splits)
  show "c = x div 256 ^ (s - 3)"
  proof (cases "2 ^ 23 \<le> top3 x sz")
    case True
    then have s: "s = Suc sz" "c = top3 x sz div 256" using assms(1) by (auto simp: normal3_def)
    then have "top3 x sz = x div 256 ^ (sz - 3)" using assms(2) by (auto simp: top3_def)
    moreover have "s - 3 = Suc (sz - 3)" using s assms(2) by (simp add: Suc_diff_le)
    ultimately show ?thesis using s by (simp only: div_256)
  next
    case False
    then have "s = sz" "c = top3 x sz" using assms(1) by (auto simp: normal3_def)
    then show ?thesis using assms(2) by (simp add: top3_def)
  qed
qed

lemma target_bytes:
  defines "sz t \<equiv> (target_bit_len t + 7) div 8"
  shows "target_val t < 256 ^ sz t" "target_val t \<noteq> 0 \<Longrightarrow> 0 < sz t \<and> 256 ^ (sz t - 1) \<le> target_val t"
    "sz t \<le> 32"
proof -
  show lt: "target_val t < 256 ^ sz t" and
    ge: "target_val t \<noteq> 0 \<Longrightarrow> 0 < sz t \<and> 256 ^ (sz t - 1) \<le> target_val t"
    unfolding sz_def by (rule bytes_bounds [OF target_bit_len_bounds]; simp)+
  show "sz t \<le> 32"
  proof (rule ccontr)
    assume "\<not> sz t \<le> 32"
    then have "32 \<le> sz t - 1" by linarith
    then have "(256 :: nat) ^ 32 \<le> 256 ^ (sz t - 1)" by (rule power_increasing) simp
    moreover have "target_val t \<noteq> 0"
      using target_bit_len_0 [of t] \<open>\<not> sz t \<le> 32\<close> by (intro notI) (simp add: sz_def)
    ultimately have "(256 :: nat) ^ 32 \<le> target_val t" using ge by linarith
    then show False using target_val_less [of t] by simp
  qed
qed

lemma to_compact_parts:
  fixes t
  defines "sz \<equiv> (target_bit_len t + 7) div 8"
  obtains c s where "normal3 (top3 (target_val t) sz) sz = (unat c, s)"
    "to_compact t = ucast (c :: u64) OR push_bit 24 (word_of_nat s)"
proof -
  define c0 where "c0 = (if sz \<le> 3 then push_bit (8 * (3 - sz)) (low_u64 t)
                     else low_u64 (target_shr t (8 * (sz - 3))))"
  note lt = target_bytes(1) [of t, folded sz_def]
  have c0: "unat c0 = top3 (target_val t) sz"
  proof (cases "sz \<le> 3")
    case True
    then have tb: "target_val t < 2 ^ 64"
      using lt power_increasing [of sz 8 "256 :: nat"] by simp
    then have lo: "unat (low_u64 t) = target_val t" by (simp add: unat_low_u64)
    have "target_val t * 256 ^ (3 - sz) < 2 ^ 64"
      using top3_less [OF lt] True by (simp add: top3_def)
    then have "unat (push_bit (8 * (3 - sz)) (low_u64 t)) = target_val t * 256 ^ (3 - sz)"
      by (intro trans [OF unsigned_push_bit_eq])
         (simp add: lo push_bit_eq_mult take_bit_nat_eq_self_iff pow_256)
    then show ?thesis using True by (simp add: c0_def top3_def)
  next
    case False
    have "target_val t div 256 ^ (sz - 3) < 2 ^ 64"
      using top3_less [OF lt] False by (simp add: top3_def)
    then show ?thesis
      using False by (simp add: c0_def top3_def unat_low_u64 target_val_shr pow_256)
  qed
  have bit: "c0 AND 0x00800000 \<noteq> 0 \<longleftrightarrow> 2 ^ 23 \<le> unat c0"
  proof -
    have "c0 AND 0x00800000 \<noteq> 0 \<longleftrightarrow> bit c0 23" by (rule and_sign)
    also have "\<dots> \<longleftrightarrow> bit (unat c0) 23" by (simp add: bit_unsigned_iff)
    also have "\<dots> \<longleftrightarrow> odd (unat c0 div 2 ^ 23)" by (rule bit_iff_odd)
    also have "\<dots> \<longleftrightarrow> 2 ^ 23 \<le> unat c0"
    proof -
      have "unat c0 div 2 ^ 23 < 2" using top3_less [OF lt] c0 by (simp add: less_mult_imp_div_less)
      then have "odd (unat c0 div 2 ^ 23) \<longleftrightarrow> unat c0 div 2 ^ 23 \<noteq> 0"
        by (metis One_nat_def even_zero less_2_cases odd_one)
      then show ?thesis by (simp add: div_eq_0_iff not_less)
    qed
    finally show ?thesis .
  qed
  have d8: "unat (drop_bit 8 c0) = unat c0 div 256"
    by (rule trans [OF unat_drop_bit_eq]) (simp add: drop_bit_eq_div)
  show thesis
  proof (cases "2 ^ 23 \<le> unat c0")
    case True
    show thesis
    proof (rule that)
      show "normal3 (top3 (target_val t) sz) sz = (unat (drop_bit 8 c0), sz + 1)"
        using True unfolding d8 by (simp add: normal3_def c0)
      show "to_compact t = ucast (drop_bit 8 c0) OR push_bit 24 (word_of_nat (sz + 1))"
        using True bit by (simp only: to_compact_def Let_def sz_def [symmetric] c0_def [symmetric]) simp
    qed
  next
    case False
    show thesis
    proof (rule that)
      show "normal3 (top3 (target_val t) sz) sz = (unat c0, sz)"
        using False by (simp add: normal3_def c0)
      show "to_compact t = ucast c0 OR push_bit 24 (word_of_nat sz)"
        using False bit by (simp only: to_compact_def Let_def sz_def [symmetric] c0_def [symmetric]) simp
    qed
  qed
qed

text \<open>Reading the two fields back.\<close>

lemma compact_fields:
  assumes "unat c < 2 ^ 23" "s < 256"
  defines "b \<equiv> (ucast (c :: u64) OR push_bit 24 (word_of_nat s) :: u32)"
  shows "unat (drop_bit 24 b) = s" "unat (take_bit 23 b) = unat c" "\<not> bit b 23"
proof -
  have high: "\<not> bit c k" if "23 \<le> k" for k
  proof -
    have "take_bit 23 (unat c) = unat c" using assms(1) by (simp add: take_bit_nat_eq_self_iff)
    then have "bit (unat c) k \<longleftrightarrow> k < 23 \<and> bit (unat c) k" by (metis bit_take_bit_iff)
    then show ?thesis using that by (simp add: bit_unsigned_iff)
  qed
  have "drop_bit 24 b = take_bit 8 (word_of_nat s)"
    by (rule bit_word_eqI) (auto simp: b_def bit_drop_bit_eq bit_or_iff bit_push_bit_iff bit_ucast_iff
        bit_take_bit_iff high)
  moreover have "unat (take_bit 8 (word_of_nat s :: u32)) = s"
    using assms(2) by (simp add: unsigned_take_bit_eq unat_of_nat take_bit_nat_eq_self_iff del: take_bit_of_nat)
  ultimately show "unat (drop_bit 24 b) = s" by simp
  have "take_bit 23 b = ucast c"
    by (rule bit_word_eqI) (use high in \<open>auto simp: b_def bit_or_iff bit_push_bit_iff bit_ucast_iff
        bit_take_bit_iff not_le\<close>)
  then show "unat (take_bit 23 b) = unat c"
    using assms(1) by (simp add: unsigned_ucast_eq take_bit_nat_eq_self_iff)
  show "\<not> bit b 23" using high by (simp add: b_def bit_or_iff bit_push_bit_iff bit_ucast_iff)
qed

lemma from_compact_fields:
  assumes "unat c < 2 ^ 23" "s \<le> 33" "s = 33 \<Longrightarrow> unat c < 2 ^ 16"
  defines "b \<equiv> (ucast (c :: u64) OR push_bit 24 (word_of_nat s) :: u32)"
  obtains t where "from_compact b = Inr t" "target_val t = compact_val s (unat c)"
proof -
  have "s < 256" using assms(2) by simp
  note f = compact_fields [OF assms(1) this, folded b_def]
  have m: "unat (ucast (take_bit 23 b) :: u64) = unat c"
    using f(2) assms(1) unat_u64_less [of c] by (simp add: unsigned_ucast_eq take_bit_nat_eq_self_iff)
  have "\<not> (34 < s \<or> (ucast (take_bit 23 b) :: u64) > 0xff \<and> 33 < s \<or>
      (ucast (take_bit 23 b) :: u64) > 0xffff \<and> 32 < s)"
    using assms(2,3) by (auto simp: word_less_nat_alt m)
  then have "is_ok (from_compact b)"
    using f(3) by (simp only: from_compact_def Let_def and_mantissa and_sign f(1)) simp
  then obtain t where t: "from_compact b = Inr t" by (auto simp: is_ok_iff)
  then show thesis using that from_compact_Inr [OF t] f by simp
qed

text \<open>What \<open>to_compact\<close> keeps: the number cut to a multiple of a power of 256, of which at
  least 15 bits remain.\<close>

lemma compact_cut:
  obtains t' k where "from_compact (to_compact t) = Inr t'"
    "target_val t' = target_val t div 256 ^ k * 256 ^ k"
    "k = 0 \<or> 2 ^ 15 \<le> target_val t div 256 ^ k"
proof -
  let ?x = "target_val t" and ?sz = "(target_bit_len t + 7) div 8"
  obtain c s where n: "normal3 (top3 ?x ?sz) ?sz = (unat c, s)"
    and b: "to_compact t = ucast (c :: u64) OR push_bit 24 (word_of_nat s)"
    by (rule to_compact_parts [of t])
  note tb = target_bytes [of t]
  note cv = compact_val_normal3 [OF tb(1) n]
  have s33: "s \<le> 33" "s = 33 \<Longrightarrow> unat c < 2 ^ 16" using cv(3,4) tb(3) by auto
  obtain t' where t': "from_compact (to_compact t) = Inr t'" "target_val t' = compact_val s (unat c)"
    unfolding b by (rule from_compact_fields [OF cv(2) s33])
  have "s - 3 = 0 \<or> 2 ^ 15 \<le> ?x div 256 ^ (s - 3)"
  proof (cases "3 < s")
    case True
    then have "?x \<noteq> 0"
      using n target_bit_len_0 [of t] by (intro notI) (simp add: normal3_def top3_def)
    then show ?thesis using normal3_mantissa [OF n True] tb(2) by auto
  qed simp
  with t' cv(1) show thesis by (intro that [of t' "s - 3"]) simp_all
qed

text \<open>A target that goes through its compact form is never rounded up, and less than one
  part in \<open>2 ^ 15\<close> of it is lost: proof of work is never made easier by the encoding.\<close>

theorem to_compact_rounds_down:
  "\<exists>t'. from_compact (to_compact t) = Inr t' \<and> t' \<le> t \<and>
     2 ^ 15 * (target_val t - target_val t') \<le> target_val t"
proof -
  obtain t' k where t': "from_compact (to_compact t) = Inr t'"
    and v: "target_val t' = target_val t div 256 ^ k * 256 ^ k"
    and k: "k = 0 \<or> 2 ^ 15 \<le> target_val t div 256 ^ k"
    by (rule compact_cut [of t])
  let ?x = "target_val t" and ?p = "256 ^ k :: nat"
  have x: "?x = ?x div ?p * ?p + ?x mod ?p" by (rule div_mult_mod_eq [symmetric])
  have "2 ^ 15 * (?x - target_val t') = 2 ^ 15 * (?x mod ?p)"
    unfolding v by (simp add: minus_div_mult_eq_mod)
  also have "\<dots> \<le> ?x"
  proof (cases "k = 0")
    case False
    then have "2 ^ 15 * (?x mod ?p) \<le> ?x div ?p * ?p"
      using k by (intro mult_mono) (simp_all add: less_imp_le)
    then show ?thesis using x by linarith
  qed simp
  finally show ?thesis using t' v by (auto simp: target_le_iff)
qed

text \<open>The compact form is exact on consensus targets: every target decoded from the bits
  of a header is decoded again from its own compact form.\<close>

theorem compact_roundtrip:
  assumes "from_compact bits = Inr t"
  shows "from_compact (to_compact t) = Inr t"
proof -
  obtain t' k where t': "from_compact (to_compact t) = Inr t'"
    and v: "target_val t' = target_val t div 256 ^ k * 256 ^ k"
    and k: "k = 0 \<or> 2 ^ 15 \<le> target_val t div 256 ^ k"
    by (rule compact_cut [of t])
  define m where "m = unat (take_bit 23 bits)"
  have m: "m < 2 ^ 23"
    unfolding m_def using take_bit_nat_less_exp [of 23 "unat bits"] by (simp add: unsigned_take_bit_eq)
  obtain w j where w: "target_val t = w * 256 ^ j" "w < 2 ^ 23"
  proof (cases "unat (drop_bit 24 bits) \<le> 3")
    case True
    then have "target_val t = (m div 256 ^ (3 - unat (drop_bit 24 bits))) * 256 ^ 0"
      using from_compact_Inr [OF assms] by (simp only: compact_val_def m_def) simp
    moreover have "m div 256 ^ (3 - unat (drop_bit 24 bits)) < 2 ^ 23"
      using m div_le_dividend [of m] by (rule order_le_less_trans [rotated])
    ultimately show thesis by (rule that)
  next
    case False
    then have "target_val t = m * 256 ^ (unat (drop_bit 24 bits) - 3)"
      using from_compact_Inr [OF assms] by (simp only: compact_val_def m_def) simp
    then show thesis using m by (rule that)
  qed
  have "256 ^ k dvd target_val t"
  proof (cases "k \<le> j")
    case True
    then show ?thesis unfolding w by (intro dvd_mult le_imp_power_dvd)
  next
    case False
    then have e: "(256 :: nat) ^ k = 256 ^ j * (256 * 256 ^ (k - Suc j))"
      by (simp only: power_Suc [symmetric] power_add [symmetric]) simp
    have "w div (256 * 256 ^ (k - Suc j)) < 2 ^ 15"
    proof -
      have "w div 256 < 2 ^ 15" using w(2) by simp
      then show ?thesis
        unfolding div_mult2_eq using div_le_dividend by (rule order_le_less_trans [rotated])
    qed
    moreover have "target_val t div 256 ^ k = w div (256 * 256 ^ (k - Suc j))"
      unfolding w e by (simp add: div_mult2_eq)
    ultimately have "k = 0" using k by simp
    with False show ?thesis by simp
  qed
  then have "target_val t' = target_val t" using v by simp
  with t' show ?thesis by simp
qed

theorem compact_roundtrip_witness:
  "from_compact (to_compact (Target 0 0 0 0xffff00000000)) = Inr (Target 0 0 0 0xffff00000000)"
  by (rule compact_roundtrip [of "0x1f00ffff"]) code_simp

section \<open>The overflow check is exact\<close>

lemma compact_overflow_iff:
  assumes "0 < w" "w < 2 ^ 23"
  shows "34 < s \<or> 0xff < w \<and> 33 < s \<or> 0xffff < w \<and> 32 < s \<longleftrightarrow> 2 ^ 256 \<le> compact_val s w"
proof -
  have lo: "compact_val s w < 2 ^ 256" if "s \<le> 3 + j" "w * 256 ^ j < 2 ^ 256" for j
  proof (cases "s \<le> 3")
    case True
    have "w div 256 ^ (3 - s) \<le> w" by (rule div_le_dividend)
    also have "w < 2 ^ 256" using assms(2) by simp
    finally show ?thesis using True by (simp add: compact_val_def)
  next
    case False
    have "(256 :: nat) ^ (s - 3) \<le> 256 ^ j" using that(1) by (intro power_increasing) simp_all
    then have "w * 256 ^ (s - 3) \<le> w * 256 ^ j" by (rule mult_le_mono2)
    then show ?thesis using False that(2) by (simp only: compact_val_def if_False order_le_less_trans)
  qed
  have hi: "2 ^ 256 \<le> compact_val s w" if "3 + j \<le> s" "0 < j" "2 ^ 256 \<le> w * 256 ^ j" for j
  proof -
    have "(256 :: nat) ^ j \<le> 256 ^ (s - 3)" using that(1) by (intro power_increasing) simp_all
    then have "w * 256 ^ j \<le> w * 256 ^ (s - 3)" by (rule mult_le_mono2)
    with that(3) have "2 ^ 256 \<le> w * 256 ^ (s - 3)" by (rule order_trans)
    then show ?thesis using that(1,2) by (simp add: compact_val_def)
  qed
  consider "s \<le> 32" | "s = 33" | "s = 34" | "35 \<le> s" by linarith
  then show ?thesis
  proof cases
    case 1
    then show ?thesis using lo [of 29] assms(2) by simp
  next
    case 2
    then show ?thesis using lo [of 30] hi [of 30] by (cases "0xffff < w") simp_all
  next
    case 3
    then show ?thesis using lo [of 31] hi [of 31] by (cases "0xff < w") simp_all
  next
    case 4
    then show ?thesis using hi [of 32] assms(1) by simp
  qed
qed

text \<open>What \<open>from_compact\<close> does on every input: a signed non-zero mantissa is refused as
  negative, a number of 257 bits or more as an overflow (and nothing else is), and every other
  input gives the target that its mantissa and exponent stand for.\<close>

theorem from_compact_spec:
  "let s = unat (drop_bit 24 bits); w = unat (take_bit 23 bits)
   in if w \<noteq> 0 \<and> bit bits 23 then from_compact bits = Inl NegativeCompact
      else if 2 ^ 256 \<le> compact_val s w then from_compact bits = Inl OverflowCompact
      else \<exists>t. from_compact bits = Inr t \<and> target_val t = compact_val s w"
proof -
  define s where "s = unat (drop_bit 24 bits)"
  define w where "w = unat (take_bit 23 bits)"
  define m where "m = (ucast (take_bit 23 bits) :: u64)"
  have w23: "w < 2 ^ 23"
    unfolding w_def using take_bit_nat_less_exp [of 23 "unat bits"] by (simp add: unsigned_take_bit_eq)
  have um: "unat m = w"
    using w23 by (simp add: m_def w_def unsigned_ucast_eq take_bit_nat_eq_self_iff)
  have m0: "m = 0 \<longleftrightarrow> w = 0" by (simp add: um [symmetric] unat_eq_zero)
  have mw: "0xff < m \<longleftrightarrow> 0xff < w" "0xffff < m \<longleftrightarrow> 0xffff < w"
    by (simp_all add: word_less_nat_alt um)
  have F: "from_compact bits =
      (if w \<noteq> 0 \<and> bit bits 23 then Inl NegativeCompact
       else if w = 0 then Inr target_ZERO
       else if 34 < s \<or> 0xff < w \<and> 33 < s \<or> 0xffff < w \<and> 32 < s then Inl OverflowCompact
       else Inr (if s \<le> 3 then target_from_u64 (drop_bit (8 * (3 - s)) m)
                 else target_shl (target_from_u64 m) (8 * (s - 3))))"
    unfolding from_compact_def Let_def and_mantissa and_sign s_def [symmetric] m_def [symmetric] m0 mw
    by (rule refl)
  have v: "target_val t = compact_val s w" if "from_compact bits = Inr t" for t
    unfolding s_def w_def by (rule from_compact_Inr [OF that])
  show ?thesis
  proof (cases "w = 0")
    case True
    then have "from_compact bits = Inr target_ZERO" "compact_val s w = 0"
      unfolding F by (simp_all add: compact_val_def)
    then show ?thesis using True by (simp add: s_def [symmetric] w_def [symmetric])
  next
    case False
    then have "34 < s \<or> 0xff < w \<and> 33 < s \<or> 0xffff < w \<and> 32 < s \<longleftrightarrow> 2 ^ 256 \<le> compact_val s w"
      using w23 by (intro compact_overflow_iff) simp_all
    then have "if w \<noteq> 0 \<and> bit bits 23 then from_compact bits = Inl NegativeCompact
      else if 2 ^ 256 \<le> compact_val s w then from_compact bits = Inl OverflowCompact
      else \<exists>t. from_compact bits = Inr t"
      using False unfolding F by simp
    then show ?thesis
      using v False unfolding Let_def s_def [symmetric] w_def [symmetric] by (auto split: if_splits)
  qed
qed

end
