(* ===== verification/Asert.thy ===== *)
theory Asert imports Targets "HOL-Library.Signed_Division" begin

text \<open>
  The difficulty adjustment of \<open>lib/consensus/src/asert.rs\<close>: the next target is the
  anchor's target scaled by \<open>2 ^ (lateness / half-life)\<close>, in fixed point over a 320-bit
  intermediate. The lemmas show that this bit-level code computes one closed expression on
  natural numbers, clamped to \<open>[1, pow_limit]\<close>, that the target grows with time and
  shrinks with height, and that it is exact whenever the chain is a whole number of half-lives
  off schedule. \<open>i128\<close> values are integers: with 64-bit times and heights they stay below
  \<open>2 ^ 88\<close> in size.
\<close>

definition RADIX_BITS :: nat where [simp]: "RADIX_BITS = 16"
definition RADIX :: int where [simp]: "RADIX = 65536"
definition CUBE_C1 :: u128 where "CUBE_C1 = 195766423245049"
definition CUBE_C2 :: u128 where "CUBE_C2 = 971821376"
definition CUBE_C3 :: u128 where "CUBE_C3 = 5127"

text \<open>The loop of \<open>mul_256_by_64\<close> over the limbs, with the carry; the last limb is what is left of it.\<close>

fun mul_limbs :: "limbs \<Rightarrow> u64 \<Rightarrow> u128 \<Rightarrow> limbs" where
  "mul_limbs [] b carry = [ucast carry]"
| "mul_limbs (l # ls) b carry =
     (let p = ucast l * ucast b + carry in ucast p # mul_limbs ls b (drop_bit 64 p))"

definition mul_256_by_64 :: "Target \<Rightarrow> u64 \<Rightarrow> limbs" where
  "mul_256_by_64 a b = mul_limbs (limbs a) b 0"

definition bit_len_320 :: "limbs \<Rightarrow> nat" where "bit_len_320 v = limbs_bit_len v 5"
definition shr_320 :: "limbs \<Rightarrow> nat \<Rightarrow> limbs" where "shr_320 v n = limbs_shr v n"
definition shl_320 :: "limbs \<Rightarrow> nat \<Rightarrow> limbs" where "shl_320 v n = limbs_shl v n"

definition asert_exponent :: "u64 \<Rightarrow> int \<Rightarrow> int" where
  "asert_exponent height_diff time_diff =
     (let ideal = ASERT_TARGET_SPACING_SECS * (uint height_diff + 1)
      in ((time_diff - ideal) * RADIX) sdiv ASERT_HALF_LIFE_SECS)"

definition asert_factor :: "u64 \<Rightarrow> u64" where
  "asert_factor frac =
     (let f = (ucast frac :: u128)
      in 65536 + ucast (drop_bit 48 (CUBE_C1 * f + CUBE_C2 * f * f + CUBE_C3 * f * f * f + push_bit 47 1)))"

text \<open>The end of the function, from the 320-bit value on: the four early returns.\<close>

definition asert_clamp :: "limbs \<Rightarrow> Target \<Rightarrow> Target" where
  "asert_clamp wide pow_limit =
     (if wide ! 4 \<noteq> 0 then pow_limit
      else let next = Target (wide ! 0) (wide ! 1) (wide ! 2) (wide ! 3)
           in if target_is_zero next then target_ONE
              else if next > pow_limit then pow_limit
              else next)"

definition asert_next_target_from_ref :: "Target \<Rightarrow> u64 \<Rightarrow> int \<Rightarrow> Target \<Rightarrow> Target" where
  "asert_next_target_from_ref ref_target height_diff time_diff pow_limit =
     (let exponent = asert_exponent height_diff time_diff;
          shifts = drop_bit RADIX_BITS exponent;
          frac = word_of_int (exponent AND 0xffff);
          factor = asert_factor frac;
          wide = mul_256_by_64 ref_target factor;
          shifts = shifts - int RADIX_BITS
      in if shifts \<le> 0
         then asert_clamp (shr_320 wide (nat (min (- shifts) 320))) pow_limit
         else let bl = int (bit_len_320 wide)
              in if bl \<noteq> 0
                 then if bl + shifts > 256 then pow_limit
                      else asert_clamp (shl_320 wide (nat shifts)) pow_limit
                 else asert_clamp wide pow_limit)"

definition asert_next_target :: "u32 \<Rightarrow> u64 \<Rightarrow> u64 \<Rightarrow> u64 \<Rightarrow> u64 \<Rightarrow> Target \<Rightarrow> AsertError + Target" where
  "asert_next_target anchor_bits anchor_height anchor_parent_time parent_height parent_time pow_limit =
     (if parent_height < anchor_height then Inl ParentBelowAnchor
      else and_then (from_compact anchor_bits) (\<lambda>ref_target.
        let height_diff = parent_height - anchor_height;
            time_diff = uint parent_time - uint anchor_parent_time
        in Inr (asert_next_target_from_ref ref_target height_diff time_diff pow_limit)))"

definition asert_next_bits :: "u32 \<Rightarrow> u64 \<Rightarrow> u64 \<Rightarrow> u64 \<Rightarrow> u64 \<Rightarrow> Target \<Rightarrow> AsertError + u32" where
  "asert_next_bits anchor_bits anchor_height anchor_parent_time parent_height parent_time pow_limit =
     and_then (asert_next_target anchor_bits anchor_height anchor_parent_time parent_height parent_time
       pow_limit) (\<lambda>t. Inr (to_compact t))"

section \<open>The multiplication\<close>

lemma unat_ucast_64_128 [simp]: "unat (ucast (w :: u64) :: u128) = unat w"
  using unat_u64_less [of w] by (simp add: unsigned_ucast_eq take_bit_nat_eq_self_iff)

lemma unat_ucast_128_64: "unat (ucast (w :: u128) :: u64) = unat w mod 2 ^ 64"
  by (simp add: unsigned_ucast_eq take_bit_eq_mod)

lemma unat_drop_bit_word: "unat (drop_bit n (w :: 'a::len word)) = unat w div 2 ^ n"
  by (rule trans [OF unat_drop_bit_eq]) (simp add: drop_bit_eq_div)

lemma mul_step:
  assumes "unat c < 2 ^ 64"
  shows "unat (ucast l * ucast b + c :: u128) = unat (l :: u64) * unat (b :: u64) + unat c"
    "unat (drop_bit 64 (ucast l * ucast b + c :: u128)) < 2 ^ 64"
proof -
  have "unat l * unat b \<le> (2 ^ 64 - 1) * (2 ^ 64 - 1)"
    using unat_u64_less [of l] unat_u64_less [of b] by (intro mult_mono) simp_all
  then have lt: "unat l * unat b + unat c < 2 ^ 128" using assms by simp
  then show e: "unat (ucast l * ucast b + c :: u128) = unat l * unat b + unat c"
    by (simp add: unat_word_ariths mod_add_left_eq)
  show "unat (drop_bit 64 (ucast l * ucast b + c :: u128)) < 2 ^ 64"
    unfolding unat_drop_bit_word e using lt by (simp add: less_mult_imp_div_less)
qed

lemma mul_limbs_val:
  "unat c < 2 ^ 64 \<Longrightarrow> limbs_val (mul_limbs ls b c) = limbs_val ls * unat b + unat c"
proof (induction ls arbitrary: c)
  case Nil
  then show ?case by (simp add: unat_ucast_128_64)
next
  case (Cons l ls)
  note st = mul_step [OF Cons.prems, of l b]
  have "limbs_val (mul_limbs (l # ls) b c) =
      unat (ucast l * ucast b + c :: u128) mod 2 ^ 64 +
      2 ^ 64 * (limbs_val ls * unat b + unat (ucast l * ucast b + c :: u128) div 2 ^ 64)"
    using Cons.IH [OF st(2)] by (simp add: Let_def unat_ucast_128_64 unat_drop_bit_word)
  also have "\<dots> = unat (ucast l * ucast b + c :: u128) + 2 ^ 64 * (limbs_val ls * unat b)"
    by (simp add: distrib_left)
  also have "\<dots> = limbs_val (l # ls) * unat b + unat c"
    unfolding st(1) by (simp add: algebra_simps)
  finally show ?case .
qed

lemma length_mul_limbs [simp]: "length (mul_limbs ls b c) = Suc (length ls)"
  by (induction ls b c rule: mul_limbs.induct) (simp_all add: Let_def)

lemma mul_256_by_64_val: "limbs_val (mul_256_by_64 t b) = target_val t * unat b"
  and length_mul_256 [simp]: "length (mul_256_by_64 t b) = 5"
  by (simp_all add: mul_256_by_64_def mul_limbs_val target_val_def)

section \<open>The factor\<close>

text \<open>The cubic on numbers.\<close>

definition factor_val :: "nat \<Rightarrow> nat" where
  "factor_val f = 65536 + (195766423245049 * f + 971821376 * f * f + 5127 * f * f * f + 2 ^ 47) div 2 ^ 48"

lemma cubic_less:
  "f < 2 ^ 16 \<Longrightarrow>
     195766423245049 * f + 971821376 * f * f + 5127 * f * f * f + 2 ^ 47 \<le> (65535 * 2 ^ 48 + 2 ^ 47 :: nat)"
proof -
  assume "f < 2 ^ 16"
  then have f: "f \<le> 65535" by simp
  have f2: "f * f \<le> 65535 * 65535" using f f by (rule mult_le_mono)
  have f3: "f * f * f \<le> 65535 * 65535 * 65535" using f2 f by (rule mult_le_mono)
  have "195766423245049 * f + 971821376 * (f * f) + 5127 * (f * f * f) + 2 ^ 47
      \<le> 195766423245049 * 65535 + 971821376 * (65535 * 65535) + 5127 * (65535 * 65535 * 65535) + 2 ^ 47"
    using f f2 f3 by (intro add_mono mult_le_mono2) simp_all
  then show ?thesis by (simp add: mult.assoc)
qed

lemma factor_val_bounds: "f < 2 ^ 16 \<Longrightarrow> 65536 \<le> factor_val f \<and> factor_val f \<le> 131071"
  using div_le_mono [OF cubic_less, of f "2 ^ 48"] by (simp add: factor_val_def)

lemma factor_val_0 [simp]: "factor_val 0 = 65536"
  by (simp add: factor_val_def)

lemma factor_val_mono: "f \<le> f' \<Longrightarrow> factor_val f \<le> factor_val f'"
  unfolding factor_val_def by (intro add_mono div_le_mono mult_le_mono order_refl) simp_all

lemma asert_factor_val:
  assumes "unat frac < 2 ^ 16"
  shows "unat (asert_factor frac) = factor_val (unat frac)"
proof -
  let ?f = "unat frac"
  let ?n = "195766423245049 * ?f + 971821376 * ?f * ?f + 5127 * ?f * ?f * ?f + 2 ^ 47"
  have f: "(ucast frac :: u128) = word_of_nat ?f"
    by simp
  have w: "CUBE_C1 * ucast frac + CUBE_C2 * ucast frac * ucast frac
      + CUBE_C3 * ucast frac * ucast frac * ucast frac + push_bit 47 1 = word_of_nat ?n"
    unfolding f CUBE_C1_def CUBE_C2_def CUBE_C3_def by (simp add: push_bit_eq_mult)
  have n: "?n \<le> 65535 * 2 ^ 48 + 2 ^ 47" using assms by (rule cubic_less)
  then have un: "unat (word_of_nat ?n :: u128) = ?n" by (simp only: unat_of_nat) simp
  have "?n div 2 ^ 48 \<le> (65535 * 2 ^ 48 + 2 ^ 47) div 2 ^ 48" using n by (rule div_le_mono)
  then have d: "?n div 2 ^ 48 < 2 ^ 17" by simp
  have "unat (ucast (drop_bit 48 (word_of_nat ?n :: u128)) :: u64) = ?n div 2 ^ 48"
    unfolding unat_ucast_128_64 unat_drop_bit_word un using d by (intro mod_less) simp
  then show ?thesis
    using d unfolding asert_factor_def Let_def w factor_val_def
    by (subst unat_word_ariths) simp
qed

section \<open>Shifting by a signed amount\<close>

definition scale :: "nat \<Rightarrow> int \<Rightarrow> nat" where
  "scale w s = (if s \<le> 0 then w div 2 ^ nat (- s) else w * 2 ^ nat s)"

lemma scale_mono: "w \<le> w' \<Longrightarrow> scale w s \<le> scale w' s"
  by (simp add: scale_def div_le_mono)

lemma scale_Suc: "scale w (s + 1) = scale (2 * w) s"
proof (cases "s < 0")
  case True
  then have "nat (- s) = Suc (nat (- (s + 1)))" by simp
  then show ?thesis using True by (simp add: scale_def)
next
  case False
  then show ?thesis by (simp add: scale_def nat_add_distrib)
qed

lemma scale_add: "scale w (s + int n) = scale (2 ^ n * w) s"
proof (induction n arbitrary: w)
  case 0
  then show ?case by simp
next
  case (Suc n)
  have "scale w (s + int (Suc n)) = scale w (s + int n + 1)" by (simp add: ac_simps)
  also have "\<dots> = scale (2 ^ n * (2 * w)) s" by (simp only: scale_Suc Suc.IH)
  finally show ?case by (simp add: mult.left_commute mult.assoc)
qed

lemma scale_step: "w \<le> 2 * w' \<Longrightarrow> s < s' \<Longrightarrow> scale w s \<le> scale w' s'"
proof -
  assume w: "w \<le> 2 * w'" and s: "s < s'"
  obtain n where n: "s' = s + int (Suc n)"
    using s by (metis add.commute zless_iff_Suc_zadd)
  have "w \<le> 2 ^ n * (2 * w')" using w by (simp add: trans_le_add1 order_trans)
  then have "w \<le> 2 ^ Suc n * w'" by simp
  then show ?thesis unfolding n scale_add by (rule scale_mono)
qed

section \<open>The code computes the closed form\<close>

text \<open>The target before clamping, and the clamp, on numbers.\<close>

definition asert_ideal :: "nat \<Rightarrow> int \<Rightarrow> nat" where
  "asert_ideal ref e = scale (ref * factor_val (nat (e mod 65536))) (e div 65536 - 16)"

definition clamp_val :: "nat \<Rightarrow> nat \<Rightarrow> nat" where
  "clamp_val limit v = (if v = 0 then 1 else min v limit)"

lemma limbs5:
  assumes "length w = 5"
  shows "limbs_val w = target_val (Target (w ! 0) (w ! 1) (w ! 2) (w ! 3)) + 2 ^ 256 * unat (w ! 4)"
proof -
  obtain a b c d e where "w = [a, b, c, d, e]"
    using assms by (auto simp: length_Suc_conv numeral_eq_Suc)
  then show ?thesis by (simp add: target_val_def)
qed

lemma asert_clamp_val:
  assumes "length w = 5"
  shows "target_val (asert_clamp w limit) = clamp_val (target_val limit) (limbs_val w)"
proof -
  let ?t = "Target (w ! 0) (w ! 1) (w ! 2) (w ! 3)"
  note v = limbs5 [OF assms]
  show ?thesis
  proof (cases "w ! 4 = 0")
    case True
    then show ?thesis
      by (auto simp: asert_clamp_def Let_def clamp_val_def v target_less_iff min_def)
  next
    case False
    then have "1 \<le> unat (w ! 4)" using unat_gt_0 [of "w ! 4"] by linarith
    then have "2 ^ 256 * 1 \<le> 2 ^ 256 * unat (w ! 4)" by (rule mult_le_mono2)
    then have "2 ^ 256 \<le> limbs_val w" unfolding v by simp
    then have "limbs_val w \<noteq> 0" "target_val limit \<le> limbs_val w"
      using target_val_less [of limit] by (intro notI, simp, linarith)
    then show ?thesis using False by (simp add: asert_clamp_def clamp_val_def)
  qed
qed

lemma frac_val: "unat (word_of_int (e AND 0xffff) :: u64) = nat (e mod 65536)"
proof -
  have m: "e AND 0xffff = e mod 65536"
    using take_bit_eq_mask [of 16 e] by (simp add: mask_eq_exp_minus_1 take_bit_eq_mod)
  have b: "0 \<le> e mod 65536" "e mod 65536 < 65536" by simp_all
  then have "e mod 65536 < 2 ^ 64" by simp
  with b(1) have "take_bit 64 (e mod 65536) = e mod 65536" by (rule take_bit_int_eq_self)
  then show ?thesis unfolding m by (simp add: unsigned_of_int)
qed

lemma asert_from_ref_val:
  "target_val (asert_next_target_from_ref r h t limit) =
     clamp_val (target_val limit) (asert_ideal (target_val r) (asert_exponent h t))"
proof -
  define e where "e = asert_exponent h t"
  define wide where "wide = mul_256_by_64 r (asert_factor (word_of_int (e AND 0xffff)))"
  define s where "s = drop_bit RADIX_BITS e - int RADIX_BITS"
  have sd: "s = e div 65536 - 16" by (simp add: s_def drop_bit_eq_div)
  have len: "length wide = 5" by (simp add: wide_def)
  have "nat (e mod 65536) < 2 ^ 16" by (simp add: nat_less_iff)
  then have wv: "limbs_val wide = target_val r * factor_val (nat (e mod 65536))"
    unfolding wide_def mul_256_by_64_val
    using asert_factor_val [of "word_of_int (e AND 0xffff)"] by (simp add: frac_val)
  have ideal: "asert_ideal (target_val r) e = scale (limbs_val wide) s"
    by (simp add: asert_ideal_def wv sd)
  have code: "asert_next_target_from_ref r h t limit =
     (if s \<le> 0 then asert_clamp (shr_320 wide (nat (min (- s) 320))) limit
      else if int (bit_len_320 wide) \<noteq> 0
           then if int (bit_len_320 wide) + s > 256 then limit
                else asert_clamp (shl_320 wide (nat s)) limit
           else asert_clamp wide limit)"
    by (simp only: asert_next_target_from_ref_def Let_def e_def [symmetric] wide_def [symmetric]
        s_def [symmetric])
  have w320: "limbs_val wide < 2 ^ 320" using limbs_val_less [of wide] by (simp add: len)
  note bl = limbs_bit_len_val [of wide, unfolded len, folded bit_len_320_def]
  consider "s \<le> 0" | "0 < s" "limbs_val wide = 0" | "0 < s" "limbs_val wide \<noteq> 0" by linarith
  then have "target_val (asert_next_target_from_ref r h t limit) =
      clamp_val (target_val limit) (scale (limbs_val wide) s)"
  proof cases
    case 1
    have "limbs_val wide div 2 ^ nat (min (- s) 320) = limbs_val wide div 2 ^ nat (- s)"
    proof (cases "- s \<le> 320")
      case False
      then have "(2 :: nat) ^ 320 \<le> 2 ^ nat (- s)" by (intro power_increasing) simp_all
      then have "limbs_val wide < 2 ^ nat (- s)" using w320 by (rule less_le_trans [rotated])
      then show ?thesis using False w320 by (simp add: min_def)
    qed simp
    then show ?thesis
      using 1 unfolding code shr_320_def
      by (simp add: asert_clamp_val len limb_vals scale_def)
  next
    case 2
    have "bit_len_320 wide = 0"
      using limbs_bit_len_0 [OF 2(2)] by (simp add: bit_len_320_def len)
    then show ?thesis using 2 unfolding code by (simp add: asert_clamp_val len scale_def)
  next
    case 3
    then have b0: "0 < bit_len_320 wide" using bl(3) by simp
    show ?thesis
    proof (cases "int (bit_len_320 wide) + s > 256")
      case True
      then have "256 \<le> bit_len_320 wide - 1 + nat s" using b0 3(1) by linarith
      then have "(2 :: nat) ^ 256 \<le> 2 ^ (bit_len_320 wide - 1 + nat s)" by (rule power_increasing) simp
      also have "\<dots> \<le> limbs_val wide * 2 ^ nat s"
        using bl(2) 3(2) by (simp add: power_add)
      finally have big: "2 ^ 256 \<le> scale (limbs_val wide) s" using 3(1) by (simp add: scale_def)
      then have "scale (limbs_val wide) s \<noteq> 0" "target_val limit \<le> scale (limbs_val wide) s"
        using target_val_less [of limit] by (intro notI, simp, linarith)
      then show ?thesis using True b0 3(1) unfolding code by (simp add: clamp_val_def)
    next
      case False
      then have le: "bit_len_320 wide + nat s \<le> 256" using 3(1) by linarith
      have "limbs_val wide * 2 ^ nat s < 2 ^ bit_len_320 wide * 2 ^ nat s" using bl(1) by simp
      also have "\<dots> = 2 ^ (bit_len_320 wide + nat s)" by (rule power_add [symmetric])
      also have "\<dots> \<le> 2 ^ 320" using le by (intro power_increasing) simp_all
      finally have "limbs_val (limbs_shl wide (nat s)) = limbs_val wide * 2 ^ nat s"
        by (simp add: limb_vals len)
      then show ?thesis
        using False b0 3(1) unfolding code shl_320_def by (simp add: asert_clamp_val len scale_def)
    qed
  qed
  then show ?thesis unfolding ideal [symmetric] by (simp only: e_def)
qed

text \<open>The bit-level code, its limb loops, its 320-bit intermediate and its early returns,
  computes one closed expression: the target of the anchor's bits times the cubic's approximation
  of \<open>2 ^ fraction\<close>, shifted by the whole part of the exponent and rounded down, then clamped.
  A parent below the anchor and undecodable bits are the only errors.\<close>

theorem asert_closed_form:
  "map_sum id target_val (asert_next_target bits ah apt ph pt limit) =
     (if ph < ah then Inl ParentBelowAnchor
      else map_sum id (\<lambda>r. clamp_val (target_val limit)
             (asert_ideal (target_val r) (asert_exponent (ph - ah) (uint pt - uint apt))))
           (from_compact bits))"
  by (cases "from_compact bits") (simp_all add: asert_next_target_def Let_def asert_from_ref_val)

text \<open>The clamp.\<close>

lemma clamp_val_mono: "v \<le> v' \<Longrightarrow> 0 < limit \<Longrightarrow> clamp_val limit v \<le> clamp_val limit v'"
  by (auto simp: clamp_val_def)

lemma clamp_val_bounds: "0 < limit \<Longrightarrow> 1 \<le> clamp_val limit v \<and> clamp_val limit v \<le> limit"
  by (auto simp: clamp_val_def min_def)

text \<open>The closed form grows with the exponent: the cubic never exceeds twice its value at 0.\<close>

lemma asert_ideal_mono:
  assumes "e \<le> e'"
  shows "asert_ideal r e \<le> asert_ideal r e'"
proof (cases "e div 65536 = e' div 65536")
  case True
  then have "e mod 65536 \<le> e' mod 65536"
    using assms by (simp add: minus_mult_div_eq_mod [symmetric])
  then have "factor_val (nat (e mod 65536)) \<le> factor_val (nat (e' mod 65536))"
    by (intro factor_val_mono nat_mono)
  then show ?thesis unfolding asert_ideal_def True by (intro scale_mono mult_le_mono2)
next
  case False
  then have lt: "e div 65536 - 16 < e' div 65536 - 16"
    using zdiv_mono1 [OF assms, of 65536] by simp
  have "nat (e mod 65536) < 2 ^ 16" "nat (e' mod 65536) < 2 ^ 16" by (simp_all add: nat_less_iff)
  then have "factor_val (nat (e mod 65536)) \<le> 2 * factor_val (nat (e' mod 65536))"
    using factor_val_bounds [of "nat (e mod 65536)"] factor_val_bounds [of "nat (e' mod 65536)"]
    by linarith
  then have "r * factor_val (nat (e mod 65536)) \<le> 2 * (r * factor_val (nat (e' mod 65536)))"
    using mult_le_mono2 [of _ _ r] by (simp add: mult.left_commute)
  then show ?thesis unfolding asert_ideal_def using lt by (rule scale_step)
qed

lemma sdiv_mono:
  assumes "a \<le> b" "0 < (n :: int)"
  shows "a sdiv n \<le> b sdiv n"
proof -
  have pos: "x sdiv n = (if 0 \<le> x then x div n else - (- x div n))" for x
    using assms(2) by (simp add: signed_divide_int_def sgn_if)
  have nn: "0 \<le> x div n" if "0 \<le> x" for x
    using that assms(2) by (simp add: pos_imp_zdiv_nonneg_iff)
  consider "0 \<le> a" | "a < 0" "0 \<le> b" | "b < 0" by linarith
  then show ?thesis
  proof cases
    case 1
    then show ?thesis using assms zdiv_mono1 [of a b n] by (simp add: pos)
  next
    case 2
    then have "- (- a div n) \<le> 0" "0 \<le> b div n" using nn [of "- a"] nn [of b] by simp_all
    then show ?thesis using 2 by (simp add: pos)
  next
    case 3
    then have "- b div n \<le> - a div n" using assms by (intro zdiv_mono1) simp_all
    then show ?thesis using 3 assms(1) by (simp add: pos)
  qed
qed

lemma asert_exponent_mono:
  "t \<le> t' \<Longrightarrow> h' \<le> h \<Longrightarrow> asert_exponent h t \<le> asert_exponent h' t'"
  unfolding asert_exponent_def Let_def word_le_def by (rule sdiv_mono) simp_all

text \<open>Blocks that arrive later never make the next block harder, and a chain that got
  higher in the same time never makes it easier.\<close>

theorem asert_monotone:
  assumes "t \<le> t'" "h' \<le> h" "target_ZERO < limit"
  shows "asert_next_target_from_ref r h t limit \<le> asert_next_target_from_ref r h' t' limit"
proof -
  have "0 < target_val limit" using assms(3) by (simp add: target_less_iff)
  then show ?thesis
    unfolding target_le_iff asert_from_ref_val
    by (intro clamp_val_mono asert_ideal_mono asert_exponent_mono assms)
qed

theorem asert_monotone_witness:
  "asert_next_target_from_ref POW_LIMIT 10 500 POW_LIMIT \<le> asert_next_target_from_ref POW_LIMIT 9 600 POW_LIMIT"
  by (rule asert_monotone) (simp_all add: target_less_iff target_val_POW_LIMIT)

lemma asert_next_target_range:
  assumes "asert_next_target bits ah apt ph pt limit = Inr t" "target_ZERO < limit"
  shows "1 \<le> target_val t" "target_val t \<le> target_val limit"
proof -
  have "0 < target_val limit" using assms(2) by (simp add: target_less_iff)
  then have "1 \<le> target_val t \<and> target_val t \<le> target_val limit"
    using assms(1) clamp_val_bounds
    by (auto simp: asert_next_target_def Let_def res_simps asert_from_ref_val split: if_splits)
  then show "1 \<le> target_val t" "target_val t \<le> target_val limit" by simp_all
qed

text \<open>Every target the adjustment returns lies in \<open>[1, pow_limit]\<close>.\<close>

theorem asert_in_range:
  assumes "asert_next_target bits ah apt ph pt limit = Inr t" "target_ZERO < limit"
  shows "target_ONE \<le> t \<and> t \<le> limit"
  using asert_next_target_range [OF assms] by (simp add: target_le_iff)

theorem asert_in_range_witness:
  "target_ONE \<le> Target 0 0 0 0xffff00000000 \<and> Target 0 0 0 0xffff00000000 \<le> POW_LIMIT"
proof (rule asert_in_range [of "0x1f00ffff" 0 0 0 60])
  have "from_compact 0x1f00ffff = Inr (Target 0 0 0 0xffff00000000)" by code_simp
  moreover have "asert_next_target_from_ref (Target 0 0 0 0xffff00000000) 0 60 POW_LIMIT =
      Target 0 0 0 0xffff00000000"
    by code_simp
  ultimately show "asert_next_target 0x1f00ffff 0 0 0 60 POW_LIMIT = Inr (Target 0 0 0 0xffff00000000)"
    by (simp add: asert_next_target_def Let_def)
qed (simp add: target_less_iff target_val_POW_LIMIT)

text \<open>A chain that is \<open>k\<close> half-lives behind schedule, or ahead of it for a negative
  \<open>k\<close>, has exactly the reference target scaled by \<open>2 ^ k\<close> (and clamped); on schedule,
  the reference target itself.\<close>

theorem asert_half_lives:
  assumes "t = ASERT_TARGET_SPACING_SECS * (uint h + 1) + k * ASERT_HALF_LIFE_SECS"
  shows "target_val (asert_next_target_from_ref r h t limit) =
    clamp_val (target_val limit) (scale (target_val r) k)"
proof -
  have "asert_exponent h t = (k * 65536 * 3600) sdiv 3600"
    using assms by (simp add: asert_exponent_def)
  also have "\<dots> = k * 65536"
    by (simp add: signed_divide_int_def sgn_if abs_mult)
  finally have e: "asert_exponent h t = k * 65536" .
  have "scale (target_val r * 65536) (k - 16) = scale (2 ^ 16 * target_val r) (k - 16)"
    by (simp add: mult.commute)
  also have "\<dots> = scale (target_val r) k" using scale_add [of "target_val r" "k - 16" 16] by simp
  finally show ?thesis unfolding asert_from_ref_val e by (simp add: asert_ideal_def)
qed

theorem asert_half_lives_witness:
  "target_val (asert_next_target_from_ref (target_from_u64 1000) 5 7560 POW_LIMIT) = 4000"
  using asert_half_lives [of 7560 5 2 "target_from_u64 1000" POW_LIMIT]
  by (simp add: scale_def clamp_val_def target_val_POW_LIMIT)

lemma asert_next_bits_Ok:
  "asert_next_bits bits ah apt ph pt limit = Inr b \<longleftrightarrow>
     (\<exists>t. asert_next_target bits ah apt ph pt limit = Inr t \<and> b = to_compact t)"
  by (auto simp: asert_next_bits_def res_simps)

lemma asert_next_bits_facts:
  assumes "asert_next_bits bits ah apt ph pt limit = Inr b" "target_ZERO < limit"
  shows "\<exists>t t'. asert_next_target bits ah apt ph pt limit = Inr t \<and> from_compact b = Inr t' \<and>
    t' \<le> t \<and> t' \<le> limit \<and> target_ZERO < t'"
proof -
  obtain t where t: "asert_next_target bits ah apt ph pt limit = Inr t" "b = to_compact t"
    using assms(1) by (auto simp: asert_next_bits_Ok)
  note range = asert_next_target_range [OF t(1) assms(2)]
  obtain t' k where t': "from_compact (to_compact t) = Inr t'"
    "target_val t' = target_val t div 256 ^ k * 256 ^ k"
    "k = 0 \<or> 2 ^ 15 \<le> target_val t div 256 ^ k"
    by (rule compact_cut [of t])
  have "target_val t' \<le> target_val t" "0 < target_val t'"
    using t'(2,3) range(1) by (auto simp: Suc_le_eq)
  then show ?thesis using t t'(1) range by (auto simp: target_le_iff target_less_iff)
qed

text \<open>The bits the adjustment puts in a header always decode, to a target that is no easier
  than the one it computed, hence within the proof-of-work limit.\<close>

theorem asert_bits_decode:
  assumes "asert_next_bits bits ah apt ph pt limit = Inr b" "target_ZERO < limit"
  shows "\<exists>t t'. asert_next_target bits ah apt ph pt limit = Inr t \<and> from_compact b = Inr t' \<and>
    t' \<le> t \<and> t' \<le> limit \<and> target_ZERO < t'"
  by (rule asert_next_bits_facts [OF assms])

theorem asert_bits_decode_witness:
  "\<exists>t t'. asert_next_target 0x1f00ffff 0 0 0 60 POW_LIMIT = Inr t \<and> from_compact 0x1f00ffff = Inr t' \<and>
    t' \<le> t \<and> t' \<le> POW_LIMIT \<and> target_ZERO < t'"
proof (rule asert_bits_decode)
  have "from_compact 0x1f00ffff = Inr (Target 0 0 0 0xffff00000000)" by code_simp
  moreover have "asert_next_target_from_ref (Target 0 0 0 0xffff00000000) 0 60 POW_LIMIT =
      Target 0 0 0 0xffff00000000" "to_compact (Target 0 0 0 0xffff00000000) = 0x1f00ffff"
    by code_simp+
  ultimately show "asert_next_bits 0x1f00ffff 0 0 0 60 POW_LIMIT = Inr 0x1f00ffff"
    by (simp add: asert_next_bits_def asert_next_target_def Let_def)
qed (simp add: target_less_iff target_val_POW_LIMIT)

end

