(* ===== verification/Works.thy ===== *)
theory Works imports Limbs begin

text \<open>
  \<open>Work\<close> of \<open>lib/consensus/src/rules.rs\<close>: 512-bit sums of expected hashes, as eight limbs.
  The lemmas show that its carry loops are exact addition and subtraction (and refuse exactly
  what does not fit), that the bit-by-bit long division is the division of the numbers, and
  that \<open>work_from_target\<close> is \<open>2 ^ 256 div (target + 1)\<close> and never panics. A panic of the
  source (\<open>expect\<close>, \<open>assert!\<close>) is the value \<open>None\<close>.
\<close>

datatype Work = Work u64 u64 u64 u64 u64 u64 u64 u64

primrec wlimbs :: "Work \<Rightarrow> limbs" where
  "wlimbs (Work a b c d e f g h) = [a, b, c, d, e, f, g, h]"

definition of_wlimbs :: "limbs \<Rightarrow> Work" where
  "of_wlimbs v = Work (v ! 0) (v ! 1) (v ! 2) (v ! 3) (v ! 4) (v ! 5) (v ! 6) (v ! 7)"

definition work_val :: "Work \<Rightarrow> nat" where
  "work_val w = limbs_val (wlimbs w)"

definition work_ZERO :: Work where "work_ZERO = Work 0 0 0 0 0 0 0 0"
definition work_ONE :: Work where "work_ONE = Work 1 0 0 0 0 0 0 0"
definition two_pow_256 :: Work where "two_pow_256 = of_wlimbs ((wlimbs work_ZERO)[4 := 1])"

text \<open>The inner loop of \<open>from_be256\<close>: \<open>v = (v << 8) | byte\<close>.\<close>

definition be_word :: "bytes \<Rightarrow> u64" where
  "be_word bs = fold (\<lambda>b v. push_bit 8 v OR ucast b) bs 0"

definition from_be256 :: "bytes \<Rightarrow> Work" where
  "from_be256 bytes = of_wlimbs
     (fold (\<lambda>limb w. w[3 - limb := be_word (slice (limb * 8) (limb * 8 + 8) bytes)]) [0..<4]
       (wlimbs work_ZERO))"

definition overflowing_add :: "u64 \<Rightarrow> u64 \<Rightarrow> u64 \<times> bool" where
  "overflowing_add a b = (a + b, 2 ^ 64 \<le> unat a + unat b)"

definition overflowing_sub :: "u64 \<Rightarrow> u64 \<Rightarrow> u64 \<times> bool" where
  "overflowing_sub a b = (a - b, a < b)"

fun add_limbs :: "limbs \<Rightarrow> limbs \<Rightarrow> u64 \<Rightarrow> limbs \<times> u64" where
  "add_limbs (x # xs) (y # ys) carry =
     (let (s1, c1) = overflowing_add x y;
          (s2, c2) = overflowing_add s1 carry;
          (out, c) = add_limbs xs ys (of_bool c1 + of_bool c2)
      in (s2 # out, c))"
| "add_limbs _ _ carry = ([], carry)"

fun sub_limbs :: "limbs \<Rightarrow> limbs \<Rightarrow> u64 \<Rightarrow> limbs \<times> u64" where
  "sub_limbs (x # xs) (y # ys) borrow =
     (let (d1, b1) = overflowing_sub x y;
          (d2, b2) = overflowing_sub d1 borrow;
          (out, b) = sub_limbs xs ys (of_bool b1 + of_bool b2)
      in (d2 # out, b))"
| "sub_limbs _ _ borrow = ([], borrow)"

definition work_checked_add :: "Work \<Rightarrow> Work \<Rightarrow> Work option" where
  "work_checked_add a b =
     (let (out, carry) = add_limbs (wlimbs a) (wlimbs b) 0
      in if carry \<noteq> 0 then None else Some (of_wlimbs out))"

definition work_checked_sub :: "Work \<Rightarrow> Work \<Rightarrow> Work option" where
  "work_checked_sub a b =
     (let (out, borrow) = sub_limbs (wlimbs a) (wlimbs b) 0
      in if borrow \<noteq> 0 then None else Some (of_wlimbs out))"

definition work_bit :: "Work \<Rightarrow> nat \<Rightarrow> bool" where
  "work_bit w i \<longleftrightarrow> drop_bit (i mod 64) (wlimbs w ! (i div 64)) AND 1 = 1"

definition work_set_bit :: "Work \<Rightarrow> nat \<Rightarrow> Work" where
  "work_set_bit w i = (let v = wlimbs w
     in of_wlimbs (v[i div 64 := v ! (i div 64) OR push_bit (i mod 64) 1]))"

fun shl1_limbs :: "limbs \<Rightarrow> u64 \<Rightarrow> limbs" where
  "shl1_limbs [] carry = []"
| "shl1_limbs (l # ls) carry = (push_bit 1 l OR carry) # shl1_limbs ls (drop_bit 63 l)"

definition shl1_or :: "Work \<Rightarrow> bool \<Rightarrow> Work" where
  "shl1_or w low = of_wlimbs (shl1_limbs (wlimbs w) (of_bool low))"

definition work_cmp :: "Work \<Rightarrow> Work \<Rightarrow> ordering" where
  "work_cmp a b = limbs_cmp (wlimbs a) (wlimbs b)"

section \<open>The number of a sum of work\<close>

lemma length_wlimbs [simp]: "length (wlimbs w) = 8"
  by (cases w) simp

lemma wlimbs_of_wlimbs [simp]: "length v = 8 \<Longrightarrow> wlimbs (of_wlimbs v) = v"
  by (auto simp: of_wlimbs_def length_Suc_conv numeral_eq_Suc)

lemma of_wlimbs_wlimbs [simp]: "of_wlimbs (wlimbs w) = w"
  by (cases w) (simp add: of_wlimbs_def)

lemma work_val_less: "work_val w < 2 ^ 512"
  using limbs_val_less [of "wlimbs w"] by (simp add: work_val_def)

lemma work_val_inj [simp]: "work_val v = work_val w \<longleftrightarrow> v = w"
  by (metis length_wlimbs limbs_val_inj of_wlimbs_wlimbs work_val_def)

lemma work_val_of_wlimbs: "length v = 8 \<Longrightarrow> work_val (of_wlimbs v) = limbs_val v"
  by (simp add: work_val_def)

lemma work_val_ZERO [simp]: "work_val work_ZERO = 0"
  and work_val_ONE [simp]: "work_val work_ONE = 1"
  by (simp_all add: work_val_def work_ZERO_def work_ONE_def)

lemma work_val_two_pow_256 [simp]: "work_val two_pow_256 = 2 ^ 256"
proof -
  have "(wlimbs work_ZERO)[4 := 1] = [0, 0, 0, 0, 1, 0, 0, 0]"
    by (simp add: work_ZERO_def numeral_eq_Suc)
  then show ?thesis by (simp add: two_pow_256_def work_val_of_wlimbs)
qed

instantiation Work :: linorder
begin

definition less_eq_Work :: "Work \<Rightarrow> Work \<Rightarrow> bool" where
  "less_eq_Work a b \<longleftrightarrow> work_cmp a b \<noteq> Greater"

definition less_Work :: "Work \<Rightarrow> Work \<Rightarrow> bool" where
  "less_Work a b \<longleftrightarrow> work_cmp a b = Less"

instance
  by standard
    (auto simp: less_eq_Work_def less_Work_def work_cmp_def limb_vals work_val_def [symmetric])

end

lemma work_le_iff: "a \<le> b \<longleftrightarrow> work_val a \<le> work_val b" for a b :: Work
  by (auto simp: less_eq_Work_def work_cmp_def limb_vals work_val_def)

lemma work_less_iff: "a < b \<longleftrightarrow> work_val a < work_val b" for a b :: Work
  by (simp add: less_Work_def work_cmp_def limb_vals work_val_def)

section \<open>Addition and subtraction\<close>

lemma add_step:
  assumes "unat (c :: u64) \<le> 1" "overflowing_add x y = (s1, c1)" "overflowing_add s1 c = (s2, c2)"
  shows "unat x + unat y + unat c = unat s2 + 2 ^ 64 * unat (of_bool c1 + of_bool c2 :: u64)"
    "unat (of_bool c1 + of_bool c2 :: u64) \<le> 1"
proof -
  have s1: "s1 = x + y" "c1 \<longleftrightarrow> 2 ^ 64 \<le> unat x + unat y"
    and s2: "s2 = s1 + c" "c2 \<longleftrightarrow> 2 ^ 64 \<le> unat s1 + unat c"
    using assms(2,3) by (auto simp: overflowing_add_def)
  have u1: "unat s1 = (if c1 then unat x + unat y - 2 ^ 64 else unat x + unat y)"
    using unat_u64_less [of x] unat_u64_less [of y]
    by (simp add: s1 unat_word_ariths mod_if)
  have u2: "unat s2 = (if c2 then unat s1 + unat c - 2 ^ 64 else unat s1 + unat c)"
    using unat_u64_less [of s1] assms(1)
    by (simp add: s2 unat_word_ariths mod_if)
  have nb: "\<not> (c1 \<and> c2)"
    using u1 s1(2) s2(2) assms(1) unat_u64_less [of x] unat_u64_less [of y] by auto
  then show "unat (of_bool c1 + of_bool c2 :: u64) \<le> 1" by (cases c1; cases c2) simp_all
  show "unat x + unat y + unat c = unat s2 + 2 ^ 64 * unat (of_bool c1 + of_bool c2 :: u64)"
    using u1 u2 nb s1(2) s2(2) by (cases c1; cases c2) simp_all
qed

lemma sub_step:
  assumes "unat (c :: u64) \<le> 1" "overflowing_sub x y = (s1, c1)" "overflowing_sub s1 c = (s2, c2)"
  shows "unat x + 2 ^ 64 * unat (of_bool c1 + of_bool c2 :: u64) = unat s2 + unat y + unat c"
    "unat (of_bool c1 + of_bool c2 :: u64) \<le> 1"
proof -
  have s1: "s1 = x - y" "c1 \<longleftrightarrow> unat x < unat y"
    and s2: "s2 = s1 - c" "c2 \<longleftrightarrow> unat s1 < unat c"
    using assms(2,3) by (auto simp: overflowing_sub_def word_less_nat_alt)
  have wrap: "unat (a - b) = (if unat a < unat b then unat a + 2 ^ 64 - unat b else unat a - unat b)"
    for a b :: u64
    by (simp add: unat_sub_if' not_less [symmetric])
  have u1: "unat s1 = (if c1 then unat x + 2 ^ 64 - unat y else unat x - unat y)"
    unfolding s1 by (rule wrap)
  have u2: "unat s2 = (if c2 then unat s1 + 2 ^ 64 - unat c else unat s1 - unat c)"
    unfolding s2 by (rule wrap)
  have nb: "\<not> (c1 \<and> c2)"
    using u1 s1(2) s2(2) assms(1) unat_u64_less [of x] unat_u64_less [of y] by auto
  then show "unat (of_bool c1 + of_bool c2 :: u64) \<le> 1" by (cases c1; cases c2) simp_all
  show "unat x + 2 ^ 64 * unat (of_bool c1 + of_bool c2 :: u64) = unat s2 + unat y + unat c"
    using u1 u2 nb s1(2) s2(2) assms(1) unat_u64_less [of y] by (cases c1; cases c2) simp_all
qed

lemma add_limbs_val:
  "length xs = length ys \<Longrightarrow> unat c \<le> 1 \<Longrightarrow> add_limbs xs ys c = (out, c') \<Longrightarrow>
     length out = length xs \<and> unat c' \<le> 1 \<and>
     limbs_val out + 2 ^ (64 * length xs) * unat c' = limbs_val xs + limbs_val ys + unat c"
proof (induction xs ys c arbitrary: out c' rule: add_limbs.induct)
  case (1 x xs y ys c)
  obtain s1 c1 where o1: "overflowing_add x y = (s1, c1)" by fastforce
  obtain s2 c2 where o2: "overflowing_add s1 c = (s2, c2)" by fastforce
  obtain out' d where rest: "add_limbs xs ys (of_bool c1 + of_bool c2) = (out', d)" by fastforce
  note st = add_step [OF "1.prems"(2) o1 o2]
  have out: "out = s2 # out'" "c' = d" using "1.prems"(3) by (auto simp: o1 o2 rest)
  have IH: "length out' = length xs" "unat d \<le> 1"
    "limbs_val out' + 2 ^ (64 * length xs) * unat d =
       limbs_val xs + limbs_val ys + unat (of_bool c1 + of_bool c2 :: u64)"
    using "1.IH" [OF o1 [symmetric] refl o2 [symmetric] refl _ st(2) rest] "1.prems"(1) by auto
  have "limbs_val out + 2 ^ (64 * length (x # xs)) * unat c' =
      unat s2 + 2 ^ 64 * (limbs_val out' + 2 ^ (64 * length xs) * unat d)"
    by (simp add: out power_add algebra_simps)
  also have "\<dots> = limbs_val (x # xs) + limbs_val (y # ys) + unat c"
    unfolding IH(3) using st(1) by (simp add: algebra_simps)
  finally show ?case using IH out by simp
qed auto

lemma sub_limbs_val:
  "length xs = length ys \<Longrightarrow> unat c \<le> 1 \<Longrightarrow> sub_limbs xs ys c = (out, c') \<Longrightarrow>
     length out = length xs \<and> unat c' \<le> 1 \<and>
     limbs_val xs + 2 ^ (64 * length xs) * unat c' = limbs_val out + limbs_val ys + unat c"
proof (induction xs ys c arbitrary: out c' rule: sub_limbs.induct)
  case (1 x xs y ys c)
  obtain s1 c1 where o1: "overflowing_sub x y = (s1, c1)" by fastforce
  obtain s2 c2 where o2: "overflowing_sub s1 c = (s2, c2)" by fastforce
  obtain out' d where rest: "sub_limbs xs ys (of_bool c1 + of_bool c2) = (out', d)" by fastforce
  note st = sub_step [OF "1.prems"(2) o1 o2]
  have out: "out = s2 # out'" "c' = d" using "1.prems"(3) by (auto simp: o1 o2 rest)
  have IH: "length out' = length xs" "unat d \<le> 1"
    "limbs_val xs + 2 ^ (64 * length xs) * unat d =
       limbs_val out' + limbs_val ys + unat (of_bool c1 + of_bool c2 :: u64)"
    using "1.IH" [OF o1 [symmetric] refl o2 [symmetric] refl _ st(2) rest] "1.prems"(1) by auto
  have "limbs_val (x # xs) + 2 ^ (64 * length (x # xs)) * unat c' =
      unat x + 2 ^ 64 * (limbs_val xs + 2 ^ (64 * length xs) * unat d)"
    by (simp add: out power_add algebra_simps)
  also have "\<dots> = limbs_val out + limbs_val (y # ys) + unat c"
    unfolding IH(3) out using st(1) by (simp add: algebra_simps)
  finally show ?case using IH out by simp
qed auto

text \<open>The contracts of the two operations, in the form their clients use.\<close>

lemma work_checked_add_Some:
  "work_checked_add a b = Some c \<longleftrightarrow> work_val c = work_val a + work_val b"
proof -
  obtain out d where o: "add_limbs (wlimbs a) (wlimbs b) 0 = (out, d)" by fastforce
  have v: "length out = 8" "unat d \<le> 1"
    "limbs_val out + 2 ^ 512 * unat d = work_val a + work_val b"
    using add_limbs_val [OF _ _ o] by (simp_all add: work_val_def)
  have "work_checked_add a b = (if d \<noteq> 0 then None else Some (of_wlimbs out))"
    by (simp add: work_checked_add_def o)
  moreover have "work_val a + work_val b < 2 ^ 512 \<longleftrightarrow> d = 0"
  proof (cases "d = 0")
    case True
    then show ?thesis using v limbs_val_less [of out] by simp
  next
    case False
    then have "unat d = 1" using v(2) unat_gt_0 [of d] by simp
    then show ?thesis using v(3) False by simp
  qed
  moreover have "d = 0 \<Longrightarrow> work_val (of_wlimbs out) = work_val a + work_val b"
    using v by (simp add: work_val_of_wlimbs)
  ultimately show ?thesis
    using work_val_less [of c] by (auto simp flip: work_val_inj split: if_splits)
qed

lemma work_checked_add_None:
  "work_checked_add a b = None \<longleftrightarrow> 2 ^ 512 \<le> work_val a + work_val b"
proof -
  obtain out d where o: "add_limbs (wlimbs a) (wlimbs b) 0 = (out, d)" by fastforce
  have v: "length out = 8" "unat d \<le> 1"
    "limbs_val out + 2 ^ 512 * unat d = work_val a + work_val b"
    using add_limbs_val [OF _ _ o] by (simp_all add: work_val_def)
  have "d = 0 \<Longrightarrow> work_val a + work_val b < 2 ^ 512" using v limbs_val_less [of out] by simp
  moreover have "d \<noteq> 0 \<Longrightarrow> 2 ^ 512 \<le> work_val a + work_val b"
    using v(2,3) unat_gt_0 [of d] by (simp add: le_Suc_eq)
  ultimately show ?thesis by (auto simp: work_checked_add_def o)
qed

lemma work_checked_sub_Some:
  "work_checked_sub a b = Some c \<longleftrightarrow> work_val a = work_val c + work_val b"
proof -
  obtain out d where o: "sub_limbs (wlimbs a) (wlimbs b) 0 = (out, d)" by fastforce
  have v: "length out = 8" "unat d \<le> 1"
    "work_val a + 2 ^ 512 * unat d = limbs_val out + work_val b"
    using sub_limbs_val [OF _ _ o] by (simp_all add: work_val_def)
  have eq: "work_checked_sub a b = (if d \<noteq> 0 then None else Some (of_wlimbs out))"
    by (simp add: work_checked_sub_def o)
  have lt: "limbs_val out < 2 ^ 512" using limbs_val_less [of out] v(1) by simp
  show ?thesis
  proof (cases "d = 0")
    case True
    then have "work_val a = work_val (of_wlimbs out) + work_val b" using v by (simp add: work_val_of_wlimbs)
    then show ?thesis using True eq by (auto simp flip: work_val_inj)
  next
    case False
    then have "unat d = 1" using v(2) unat_gt_0 [of d] by simp
    then have "work_val a < work_val b" using v(3) lt by simp
    then show ?thesis using False eq by simp
  qed
qed

lemma work_checked_sub_None:
  "work_checked_sub a b = None \<longleftrightarrow> work_val a < work_val b"
proof (cases "work_checked_sub a b")
  case None
  have "\<not> work_val b \<le> work_val a"
  proof
    assume le: "work_val b \<le> work_val a"
    obtain out d where o: "sub_limbs (wlimbs a) (wlimbs b) 0 = (out, d)" by fastforce
    have v: "length out = 8" "unat d \<le> 1" "work_val a + 2 ^ 512 * unat d = limbs_val out + work_val b"
      using sub_limbs_val [OF _ _ o] by (simp_all add: work_val_def)
    have "d \<noteq> 0" using None by (auto simp: work_checked_sub_def o split: if_splits)
    then have "unat d = 1" using v(2) unat_gt_0 [of d] by simp
    then show False using v(3) le limbs_val_less [of out] v(1) by simp
  qed
  then show ?thesis using None by simp
next
  case (Some c)
  then show ?thesis by (simp add: work_checked_sub_Some)
qed

section \<open>Division\<close>

text \<open>\<open>div_floor\<close>: the loop \<open>for i in (0..512).rev()\<close> with \<open>i\<close> rounds to go.\<close>

fun div_loop :: "Work \<Rightarrow> Work \<Rightarrow> nat \<Rightarrow> Work \<Rightarrow> Work \<Rightarrow> Work option" where
  "div_loop n den 0 quot rem = Some quot"
| "div_loop n den (Suc i) quot rem =
     (let rem = shl1_or rem (work_bit n i)
      in if den \<le> rem
         then (case work_checked_sub rem den of
                 None \<Rightarrow> None
               | Some rem \<Rightarrow> div_loop n den i (work_set_bit quot i) rem)
         else div_loop n den i quot rem)"

definition div_floor :: "Work \<Rightarrow> Work \<Rightarrow> Work option" where
  "div_floor n den =
     (if den = work_ZERO then None else div_loop n den 512 work_ZERO work_ZERO)"

definition work_from_target :: "bytes \<Rightarrow> Work option" where
  "work_from_target target_be =
     Option.bind (work_checked_add (from_be256 target_be) work_ONE) (\<lambda>denom.
     div_floor two_pow_256 denom)"

lemma work_bit_val: "i < 512 \<Longrightarrow> work_bit w i \<longleftrightarrow> bit (work_val w) i"
  unfolding work_bit_def and_one_eq odd_iff_mod_2_eq_one [symmetric] bit_iff_odd_drop_bit [symmetric]
  by (simp add: work_val_def bit_limbs_val less_mult_imp_div_less)

lemma mod_carry: "lo < m \<Longrightarrow> lo + m * (x mod b) = (lo + m * x) mod (m * b)" for lo m x b :: nat
  by (simp add: mod_mult2_eq)

lemma shl1_limbs_val:
  "unat c \<le> 1 \<Longrightarrow> limbs_val (shl1_limbs ls c) = (2 * limbs_val ls + unat c) mod 2 ^ (64 * length ls) \<and>
     length (shl1_limbs ls c) = length ls"
proof (induction ls arbitrary: c)
  case Nil
  then show ?case by simp
next
  case (Cons l ls)
  have d: "unat (drop_bit 63 l) = unat l div 2 ^ 63"
    by (rule trans [OF unat_drop_bit_eq]) (simp add: drop_bit_eq_div)
  then have d1: "unat (drop_bit 63 l) \<le> 1" using unat_u64_less [of l] by simp
  have bitc: "\<not> bit c k" if "0 < k" for k
  proof -
    have "c = 0 \<or> c = 1"
    proof (cases "unat c = 0")
      case False
      then have "unat c = unat (1 :: u64)" using Cons.prems by simp
      then show ?thesis by (intro disjI2) (rule word_unat_eq_iff [THEN iffD2])
    qed (simp add: unat_eq_zero)
    then show ?thesis using that by (auto simp: bit_1_iff)
  qed
  have h: "unat (push_bit 1 l OR c) = (2 * unat l + unat c) mod 2 ^ 64"
  proof -
    have "push_bit 1 l OR c = push_bit 1 l + c"
    proof (rule disjunctive_add_eq_or [symmetric], rule bit_eqI)
      show "bit (push_bit 1 l AND c) k \<longleftrightarrow> bit 0 k" for k
        by (cases "k = 0") (simp_all add: bit_and_iff bitc bit_0 even_and_iff)
    qed
    then show ?thesis by (simp add: push_bit_eq_mult unat_word_ariths mod_add_left_eq mult.commute)
  qed
  have c64: "2 * unat l + unat c = 2 ^ 64 * (unat l div 2 ^ 63) + (2 * unat l + unat c) mod 2 ^ 64"
  proof -
    have "(2 * unat l + unat c) div 2 = unat l" using Cons.prems by simp
    then have "(2 * unat l + unat c) div 2 ^ 64 = unat l div 2 ^ 63"
      using div_mult2_eq [of "2 * unat l + unat c" 2 "2 ^ 63"] by simp
    then show ?thesis by (metis mult_div_mod_eq)
  qed
  let ?B = "2 ^ (64 * length ls) :: nat"
  have "limbs_val (shl1_limbs (l # ls) c) =
      (2 * unat l + unat c) mod 2 ^ 64 + 2 ^ 64 * ((2 * limbs_val ls + unat l div 2 ^ 63) mod ?B)"
    using Cons.IH [OF d1] by (simp only: shl1_limbs.simps limbs_val.simps h d)
  also have "\<dots> = ((2 * unat l + unat c) mod 2 ^ 64 + 2 ^ 64 * (2 * limbs_val ls + unat l div 2 ^ 63)) mod (2 ^ 64 * ?B)"
    by (rule mod_carry) simp
  also have "(2 * unat l + unat c) mod 2 ^ 64 + 2 ^ 64 * (2 * limbs_val ls + unat l div 2 ^ 63) =
      2 * limbs_val (l # ls) + unat c"
    using c64 by (simp add: algebra_simps)
  finally show ?case using Cons.IH [OF d1] by (simp add: power_add)
qed

lemma shl1_or_val: "work_val w < 2 ^ 511 \<Longrightarrow> work_val (shl1_or w b) = 2 * work_val w + of_bool b"
  using shl1_limbs_val [of "of_bool b" "wlimbs w"]
  by (cases b) (simp_all add: shl1_or_def work_val_of_wlimbs work_val_def)

lemma set_bit_limbs:
  assumes "i < 64 * length v"
  shows "limbs_val (v[i div 64 := v ! (i div 64) OR push_bit (i mod 64) 1]) = Bit_Operations.set_bit i (limbs_val v)"
proof (rule bit_eqI)
  fix k
  have "i = k \<longleftrightarrow> i div 64 = k div 64 \<and> i mod 64 = k mod 64" by (metis div_mult_mod_eq)
  moreover have "i div 64 < length v" using assms by (simp add: less_mult_imp_div_less mult.commute)
  ultimately show "bit (limbs_val (v[i div 64 := v ! (i div 64) OR push_bit (i mod 64) 1])) k \<longleftrightarrow>
      bit (Bit_Operations.set_bit i (limbs_val v)) k"
    by (auto simp: bit_limbs_val bit_set_bit_iff nth_list_update bit_or_iff bit_exp_iff)
qed

lemma work_set_bit_val:
  assumes "i < 512" "work_val w mod 2 ^ Suc i = 0"
  shows "work_val (work_set_bit w i) = work_val w + 2 ^ i"
proof -
  have "\<not> bit (work_val w) i"
  proof -
    have "take_bit (Suc i) (work_val w) = 0" using assms(2) by (simp add: take_bit_eq_mod)
    then show ?thesis by (metis bit_0_eq bit_take_bit_iff bot_apply bot_bool_def lessI)
  qed
  then show ?thesis
    using set_bit_limbs [of i "wlimbs w"] assms(1)
    by (simp add: work_set_bit_def Let_def work_val_of_wlimbs set_bit_eq work_val_def)
qed

lemma divmod_nat_unique:
  assumes "x = d * q + r" "r < d"
  shows "x div d = q" "x mod d = (r :: nat)"
  using assms by simp_all

lemma div_loop_val:
  assumes "0 < work_val den" "work_val den \<le> 2 ^ 511" "i \<le> 512"
    "work_val quot = work_val n div 2 ^ i div work_val den * 2 ^ i"
    "work_val rem = work_val n div 2 ^ i mod work_val den"
  shows "\<exists>q. div_loop n den i quot rem = Some q \<and> work_val q = work_val n div work_val den"
  using assms
proof (induction i arbitrary: quot rem)
  case 0
  then show ?case by simp
next
  case (Suc i)
  let ?d = "work_val den" and ?n = "work_val n"
  define a b where "a = ?n div 2 ^ Suc i" and "b = (of_bool (bit ?n i) :: nat)"
  have b: "b \<le> 1" by (simp add: b_def)
  have ni: "?n div 2 ^ i = 2 * a + b"
  proof -
    have "a = ?n div 2 ^ i div 2" by (simp add: a_def div_mult2_eq [symmetric] mult.commute)
    moreover have "b = ?n div 2 ^ i mod 2" by (simp add: b_def bit_iff_odd odd_iff_mod_2_eq_one)
    ultimately show ?thesis by simp
  qed
  have r: "work_val rem = a mod ?d" and rd: "a mod ?d < ?d" using Suc.prems by (simp_all add: a_def)
  then have small: "work_val rem < 2 ^ 511" using Suc.prems(2) by linarith
  define rem' where "rem' = shl1_or rem (work_bit n i)"
  have rem': "work_val rem' = 2 * (a mod ?d) + b"
    using Suc.prems(3) small r by (simp add: rem'_def shl1_or_val work_bit_val b_def)
  have split: "2 * a + b = ?d * (2 * (a div ?d)) + (2 * (a mod ?d) + b)"
    by (metis (no_types, lifting) add.assoc distrib_left mult.left_commute mult_div_mod_eq)
  show ?case
  proof (cases "den \<le> rem'")
    case True
    then have ge: "?d \<le> 2 * (a mod ?d) + b" by (simp add: work_le_iff rem')
    obtain r2 where r2: "work_checked_sub rem' den = Some r2"
      using work_checked_sub_None [of rem' den] ge rem' by fastforce
    then have r2v: "work_val r2 = 2 * (a mod ?d) + b - ?d" using rem' by (simp add: work_checked_sub_Some)
    have q1: "(2 * a + b) div ?d = 2 * (a div ?d) + 1" and m1: "(2 * a + b) mod ?d = 2 * (a mod ?d) + b - ?d"
    proof -
      have "2 * a + b = ?d * (2 * (a div ?d) + 1) + (2 * (a mod ?d) + b - ?d)" using split ge by simp
      moreover have "2 * (a mod ?d) + b - ?d < ?d" using rd b ge by linarith
      ultimately show "(2 * a + b) div ?d = 2 * (a div ?d) + 1" "(2 * a + b) mod ?d = 2 * (a mod ?d) + b - ?d"
        by (rule divmod_nat_unique)+
    qed
    have qz: "work_val quot mod 2 ^ Suc i = 0" using Suc.prems(4) by simp
    have "\<exists>q. div_loop n den i (work_set_bit quot i) r2 = Some q \<and> work_val q = ?n div ?d"
    proof (rule Suc.IH)
      show "work_val (work_set_bit quot i) = ?n div 2 ^ i div ?d * 2 ^ i"
      proof -
        have "work_val (work_set_bit quot i) = work_val quot + 2 ^ i"
          using Suc.prems(3) qz by (intro work_set_bit_val) simp_all
        also have "work_val quot = a div ?d * 2 ^ Suc i" using Suc.prems(4) by (simp only: a_def)
        finally show ?thesis unfolding ni q1 by (simp add: algebra_simps)
      qed
      show "work_val r2 = ?n div 2 ^ i mod ?d" by (simp only: ni m1 r2v)
    qed (use Suc.prems in simp_all)
    then show ?thesis using True r2 by (simp add: Let_def rem'_def [symmetric])
  next
    case False
    then have lt: "2 * (a mod ?d) + b < ?d" by (simp add: work_le_iff rem' not_le)
    have q0: "(2 * a + b) div ?d = 2 * (a div ?d)" and m0: "(2 * a + b) mod ?d = 2 * (a mod ?d) + b"
      using lt Suc.prems(1) unfolding split by simp_all
    have "\<exists>q. div_loop n den i quot rem' = Some q \<and> work_val q = ?n div ?d"
    proof (rule Suc.IH)
      show "work_val quot = ?n div 2 ^ i div ?d * 2 ^ i"
      proof -
        have "work_val quot = a div ?d * 2 ^ Suc i" using Suc.prems(4) by (simp only: a_def)
        then show ?thesis unfolding ni q0 by simp
      qed
      show "work_val rem' = ?n div 2 ^ i mod ?d" by (simp only: ni m0 rem')
    qed (use Suc.prems in simp_all)
    then show ?thesis using False by (simp add: Let_def rem'_def [symmetric])
  qed
qed

lemma div_floor_val:
  assumes "0 < work_val den" "work_val den \<le> 2 ^ 511"
  shows "\<exists>q. div_floor n den = Some q \<and> work_val q = work_val n div work_val den"
proof -
  have "work_val n div 2 ^ 512 = 0" using work_val_less [of n] by simp
  then have "\<exists>q. div_loop n den 512 work_ZERO work_ZERO = Some q \<and> work_val q = work_val n div work_val den"
    using assms by (intro div_loop_val) simp_all
  moreover have "den \<noteq> work_ZERO" using assms(1) by auto
  ultimately show ?thesis by (simp add: div_floor_def)
qed

section \<open>The work of a block\<close>

text \<open>The number a 32-byte big-endian target stands for.\<close>

definition be_val :: "bytes \<Rightarrow> nat" where
  "be_val bs = fold (\<lambda>b v. 256 * v + unat b) bs 0"

lemma be_val_snoc: "be_val (bs @ [b]) = 256 * be_val bs + unat b"
  by (simp add: be_val_def)

lemma be_val_append: "be_val (xs @ ys) = be_val xs * 256 ^ length ys + be_val ys"
proof (induction ys rule: rev_induct)
  case Nil
  then show ?case by (simp add: be_val_def)
next
  case (snoc y ys)
  have "be_val (xs @ ys @ [y]) = 256 * be_val (xs @ ys) + unat y"
    using be_val_snoc [of "xs @ ys" y] by simp
  then show ?case by (simp add: snoc be_val_snoc algebra_simps)
qed

lemma be_val_less: "be_val bs < 256 ^ length bs"
proof (induction bs rule: rev_induct)
  case Nil
  then show ?case by (simp add: be_val_def)
next
  case (snoc b bs)
  have "unat b < 256" by (rule unat_u8_less)
  then have "256 * be_val bs + unat b < 256 * (be_val bs + 1)" by simp
  also have "\<dots> \<le> 256 * 256 ^ length bs" using snoc by (intro mult_le_mono2) simp
  finally show ?case by (simp add: be_val_snoc)
qed

lemma be_word_val: "length bs \<le> 8 \<Longrightarrow> unat (be_word bs) = be_val bs"
proof (induction bs rule: rev_induct)
  case Nil
  then show ?case by (simp add: be_word_def be_val_def)
next
  case (snoc b bs)
  have "be_val (bs @ [b]) < 256 ^ 8"
    using be_val_less [of "bs @ [b]"] power_increasing [of "length (bs @ [b])" 8 "256 :: nat"] snoc.prems
    by simp
  then have lt: "256 * be_val bs + unat b < 2 ^ 64" by (simp add: be_val_snoc)
  have "be_word (bs @ [b]) = push_bit 8 (be_word bs) OR ucast b" by (simp add: be_word_def)
  also have "\<dots> = push_bit 8 (be_word bs) + ucast b"
    by (rule disjunctive_add_eq_or [symmetric], rule bit_eqI)
       (auto simp: bit_and_iff bit_push_bit_iff bit_ucast_iff dest: bit_imp_le_length)
  also have "unat \<dots> = 256 * be_val bs + unat b"
  proof -
    have "unat (ucast b :: u64) = unat b"
      using unat_u8_less [of b] by (simp add: unsigned_ucast_eq take_bit_nat_eq_self_iff)
    then show ?thesis
      using snoc lt by (simp add: push_bit_eq_mult unat_word_ariths mult.commute)
  qed
  finally show ?case by (simp add: be_val_snoc)
qed

lemma from_be256_val: "length bs = 32 \<Longrightarrow> work_val (from_be256 bs) = be_val bs"
proof -
  assume len: "length bs = 32"
  let ?s = "\<lambda>i. slice (i * 8) (i * 8 + 8) bs"
  have upt4: "[0..<4] = [0, 1, 2, 3 :: nat]" by (simp add: upt_rec)
  have w: "from_be256 bs = of_wlimbs [be_word (?s 3), be_word (?s 2), be_word (?s 1), be_word (?s 0), 0, 0, 0, 0]"
    by (simp add: from_be256_def upt4 work_ZERO_def numeral_eq_Suc)
  have cat: "bs = ?s 0 @ ?s 1 @ ?s 2 @ ?s 3"
    using len by (simp add: slice_join slice_join_append slice_all)
  have u: "unat (be_word (slice a b bs)) = be_val (slice a b bs)" if "b - a \<le> 8" for a b
    by (rule be_word_val) (use that in simp)
  have "be_val bs = be_val (?s 0) * 256 ^ 24 + be_val (?s 1) * 256 ^ 16 + be_val (?s 2) * 256 ^ 8 + be_val (?s 3)"
    by (subst cat) (simp add: be_val_append len algebra_simps)
  then show ?thesis unfolding w by (simp add: work_val_of_wlimbs u)
qed

text \<open>The work credited to a block is exactly \<open>2 ^ 256\<close> divided by its target plus
  one, rounded down, and computing it never panics: neither assertion nor checked subtraction of
  the long division can fail.\<close>

theorem work_from_target_exact:
  assumes "length target = 32"
  shows "\<exists>w. work_from_target target = Some w \<and> work_val w = 2 ^ 256 div (be_val target + 1)"
proof -
  have lt: "be_val target < 2 ^ 256" using be_val_less [of target] assms by simp
  then obtain d where d: "work_checked_add (from_be256 target) work_ONE = Some d"
    using work_checked_add_None [of "from_be256 target" work_ONE] assms by (auto simp: from_be256_val)
  then have dv: "work_val d = be_val target + 1"
    using assms by (simp add: work_checked_add_Some from_be256_val)
  have "\<exists>q. div_floor two_pow_256 d = Some q \<and> work_val q = work_val two_pow_256 div work_val d"
    by (rule div_floor_val) (use lt in \<open>simp_all add: dv\<close>)
  then show ?thesis using d dv by (auto simp: work_from_target_def)
qed

theorem work_from_target_exact_witness:
  "\<exists>w. work_from_target (replicate 32 1) = Some w \<and>
     work_val w = 2 ^ 256 div (be_val (replicate 32 1) + 1)"
  by (rule work_from_target_exact) simp

end
