(* ===== verification/Rules.thy ===== *)
theory Rules imports Works Hex Constants "HOL-Library.List_Lexorder" "HOL-Library.Monad_Syntax" begin

text \<open>
  \<open>lib/consensus/src/rules.rs\<close>: the rules that choose between chains. The trait
  \<open>ChainView\<close> is a record of functions, and what its documentation calls its contract is the
  predicate \<open>chain_contract\<close>. Checkpoint signatures are verified by \<open>ed25519_dalek\<close>, which is
  not part of the repository: \<open>vk_from_bytes\<close> and \<open>verify_strict\<close> are parameters. The outer
  \<open>option\<close> of \<open>evaluate_reorg\<close> is the panic (\<open>None\<close>) of an \<open>expect\<close>.
\<close>

type_synonym Hash32 = bytes

definition ZERO_HASH :: Hash32 where "ZERO_HASH = replicate 32 0"

record HeaderInfo =
  hi_height :: u64
  hi_hash :: Hash32
  hi_time :: u64
  hi_target :: Hash32

record ChainView =
  cv_len :: u64
  cv_header_at :: "u64 \<Rightarrow> HeaderInfo option"
  cv_header_by_hash :: "Hash32 \<Rightarrow> HeaderInfo option"
  cv_cumulative_work :: Work

definition cv_tip :: "ChainView \<Rightarrow> HeaderInfo option" where
  "cv_tip v = cv_header_at v (cv_len v - 1)"

datatype RuleError =
    EmptyCandidate
  | BadForkPoint
  | NonContiguousCandidate
  | ReorgTooDeep u64 u64
  | CheckpointShorteningAttack u64
  | CheckpointMismatch u64
  | InsufficientWork u64
  | TimestampTooOld u64 u64
  | TimestampTooFarInFuture u64 u64

datatype ReorgVerdict = StrictlyMoreWork | TieBreak

record Anchor =
  an_height :: u64
  an_hash :: Hash32

definition candidate_meets_anchor :: "Anchor \<Rightarrow> u64 \<Rightarrow> HeaderInfo list \<Rightarrow> bool" where
  "candidate_meets_anchor anchor start_height candidate =
     (if an_height anchor = 0 \<or> an_hash anchor = ZERO_HASH then False
      else if an_height anchor < start_height then False
      else let idx = an_height anchor - start_height
           in if length candidate \<le> unat idx then False
              else hi_hash (candidate ! unat idx) = an_hash anchor)"

definition anchor_supersedes :: "Anchor option \<Rightarrow> Anchor \<Rightarrow> bool" where
  "anchor_supersedes current candidate =
     (if an_height candidate = 0 \<or> an_hash candidate = ZERO_HASH then False
      else case current of None \<Rightarrow> True | Some cur \<Rightarrow> an_height cur < an_height candidate)"

section \<open>Signed checkpoints\<close>

record CheckpointSig =
  cs_pubkey :: bytes
  cs_sig :: bytes

record SignedCheckpoint =
  cp_height :: u64
  cp_hash :: Hash32
  cp_sigs :: "CheckpointSig list"

text \<open>Rust's decimal \<open>to_string\<close>.\<close>

function decimal :: "nat \<Rightarrow> bytes" where
  "decimal n = (if n < 10 then [48 + word_of_nat n] else decimal (n div 10) @ [48 + word_of_nat (n mod 10)])"
  by pat_completeness auto
termination by (relation "measure id") auto

declare decimal.simps [simp del]

definition checkpoint_message :: "u64 \<Rightarrow> Hash32 \<Rightarrow> bytes" where
  "checkpoint_message height hash =
     CHECKPOINT_MSG_PREFIX @ decimal (unat height) @ [124] @ hex_encode hash"

fun position :: "('a \<Rightarrow> bool) \<Rightarrow> 'a list \<Rightarrow> nat option" where
  "position p [] = None"
| "position p (x # xs) = (if p x then Some 0 else map_option Suc (position p xs))"

text \<open>The loop over the signatures, with \<open>key_tried\<close> and \<open>valid\<close>.\<close>

fun count_signatures :: "(bytes \<Rightarrow> 'vk option) \<Rightarrow> ('vk \<Rightarrow> bytes \<Rightarrow> bytes \<Rightarrow> bool) \<Rightarrow> bytes \<Rightarrow> bytes list \<Rightarrow>
    nat \<Rightarrow> CheckpointSig list \<Rightarrow> bool list \<Rightarrow> nat \<Rightarrow> bool" where
  "count_signatures vk_from_bytes verify_strict msg keys threshold [] key_tried valid = False"
| "count_signatures vk_from_bytes verify_strict msg keys threshold (s # sigs) key_tried valid =
     (case position (\<lambda>k. k = cs_pubkey s) keys of
        None \<Rightarrow> count_signatures vk_from_bytes verify_strict msg keys threshold sigs key_tried valid
      | Some key_idx \<Rightarrow>
          if key_tried ! key_idx
          then count_signatures vk_from_bytes verify_strict msg keys threshold sigs key_tried valid
          else let key_tried = key_tried[key_idx := True]
               in case vk_from_bytes (cs_pubkey s) of
                    None \<Rightarrow> count_signatures vk_from_bytes verify_strict msg keys threshold sigs key_tried valid
                  | Some vk \<Rightarrow>
                      if verify_strict vk msg (cs_sig s)
                      then (let valid = valid + 1
                            in if threshold \<le> valid then True
                               else count_signatures vk_from_bytes verify_strict msg keys threshold sigs
                                      key_tried valid)
                      else count_signatures vk_from_bytes verify_strict msg keys threshold sigs
                             key_tried valid)"

definition verify_checkpoint ::
  "(bytes \<Rightarrow> 'vk option) \<Rightarrow> ('vk \<Rightarrow> bytes \<Rightarrow> bytes \<Rightarrow> bool) \<Rightarrow> SignedCheckpoint \<Rightarrow> bytes list \<Rightarrow> nat \<Rightarrow> bool" where
  "verify_checkpoint vk_from_bytes verify_strict cp authority_keys threshold =
     (if authority_keys = [] \<or> threshold = 0 \<or> length authority_keys < threshold then False
      else if length authority_keys < length (cp_sigs cp) then False
      else if cp_hash cp = ZERO_HASH then False
      else if CHECKPOINT_SUNSET_HEIGHT \<le> cp_height cp then False
      else count_signatures vk_from_bytes verify_strict (checkpoint_message (cp_height cp) (cp_hash cp))
             authority_keys threshold (cp_sigs cp) (replicate (length authority_keys) False) 0)"

definition check_block_checkpoint :: "(u64 \<times> Hash32) list \<Rightarrow> u64 \<Rightarrow> Hash32 \<Rightarrow> RuleError + unit" where
  "check_block_checkpoint checkpoints height hash =
     (case List.find (\<lambda>(h, cp_hash). h = height \<and> cp_hash \<noteq> hash) checkpoints of
        Some _ \<Rightarrow> Inl (CheckpointMismatch height)
      | None \<Rightarrow> Inr ())"

datatype CheckpointAdmission = Admit | GenesisImmutable | NotHeldYet | HashConflict

definition checkpoint_admission :: "ChainView \<Rightarrow> u64 \<Rightarrow> Hash32 \<Rightarrow> CheckpointAdmission option" where
  "checkpoint_admission view height hash =
     (if height = 0 then Some GenesisImmutable
      else if cv_len view \<le> height then Some NotHeldYet
      else do {
        held \<leftarrow> cv_header_at view height;
        Some (if hi_hash held = hash then Admit else HashConflict)
      })"

section \<open>Reorganisations\<close>

definition tie_break_prefers_candidate :: "u64 \<Rightarrow> Work \<Rightarrow> Work \<Rightarrow> HeaderInfo \<Rightarrow> HeaderInfo \<Rightarrow> bool" where
  "tie_break_prefers_candidate depth cand_work our_work cand_tip our_tip \<longleftrightarrow>
     depth = 1 \<and> cand_work = our_work \<and> hi_height cand_tip = hi_height our_tip \<and>
     hi_hash cand_tip < hi_hash our_tip"

record ReorgParams =
  rp_anchor :: "Anchor option"
  rp_checkpoints :: "(u64 \<times> Hash32) list"
  rp_local_time :: u64

text \<open>The loop that adds up the work of some headers.\<close>

fun add_work :: "Work \<Rightarrow> HeaderInfo list \<Rightarrow> Work option" where
  "add_work acc [] = Some acc"
| "add_work acc (hdr # hdrs) = do {
     w \<leftarrow> work_from_target (hi_target hdr);
     acc \<leftarrow> work_checked_add acc w;
     add_work acc hdrs
   }"

text \<open>The loop \<open>for h in start_height..chain_len\<close> over the view, for \<open>n\<close> heights from \<open>h\<close>.\<close>

fun discarded_work :: "ChainView \<Rightarrow> Work \<Rightarrow> u64 \<Rightarrow> nat \<Rightarrow> Work option" where
  "discarded_work view acc h 0 = Some acc"
| "discarded_work view acc h (Suc n) = do {
     hdr \<leftarrow> cv_header_at view h;
     w \<leftarrow> work_from_target (hi_target hdr);
     acc \<leftarrow> work_checked_add acc w;
     discarded_work view acc (h + 1) n
   }"

definition contiguous :: "u64 \<Rightarrow> HeaderInfo list \<Rightarrow> bool" where
  "contiguous start_height candidate \<longleftrightarrow>
     list_all (\<lambda>(i, h). hi_height h = start_height + word_of_nat i) (enumerate 0 candidate)"

definition evaluate_reorg_with_cap ::
  "ChainView \<Rightarrow> u64 \<Rightarrow> HeaderInfo list \<Rightarrow> ReorgParams \<Rightarrow> u64 \<Rightarrow> (RuleError + ReorgVerdict) option" where
  "evaluate_reorg_with_cap view start_height candidate params cap =
     (if candidate = [] then Some (Inl EmptyCandidate)
      else let chain_len = cv_len view in
      if start_height = 0 \<or> chain_len < start_height then Some (Inl BadForkPoint)
      else if \<not> contiguous start_height candidate then Some (Inl NonContiguousCandidate)
      else let depth = chain_len - start_height in
      do {
        our_tip \<leftarrow> cv_tip view;
        if 0 < cap \<and> cap < depth \<and>
           \<not> (case rp_anchor params of None \<Rightarrow> False | Some a \<Rightarrow> candidate_meets_anchor a start_height candidate)
        then Some (Inl (ReorgTooDeep depth cap))
        else let our_tip_h = chain_len - 1;
                 new_tip_h = start_height + word_of_nat (length candidate) - 1
        in case List.find (\<lambda>(h, _). start_height \<le> h \<and> h \<le> our_tip_h \<and> new_tip_h < h) (rp_checkpoints params) of
          Some (h, _) \<Rightarrow> Some (Inl (CheckpointShorteningAttack h))
        | None \<Rightarrow>
        (case List.find (\<lambda>(h, cp_hash). start_height \<le> h \<and> h \<le> new_tip_h \<and>
                 hi_hash (candidate ! unat (h - start_height)) \<noteq> cp_hash) (rp_checkpoints params) of
          Some (h, _) \<Rightarrow> Some (Inl (CheckpointMismatch h))
        | None \<Rightarrow> do {
            let cum_work = cv_cumulative_work view;
            discarded \<leftarrow> discarded_work view work_ZERO start_height (unat depth);
            added \<leftarrow> add_work work_ZERO candidate;
            rest \<leftarrow> work_checked_sub cum_work discarded;
            cand_work \<leftarrow> work_checked_add rest added;
            if cum_work < cand_work then Some (Inr StrictlyMoreWork)
            else if tie_break_prefers_candidate depth cand_work cum_work (last candidate) our_tip
            then Some (Inr TieBreak)
            else Some (Inl (InsufficientWork depth))
          })
      })"

definition evaluate_reorg :: "ChainView \<Rightarrow> u64 \<Rightarrow> HeaderInfo list \<Rightarrow> ReorgParams \<Rightarrow> (RuleError + ReorgVerdict) option" where
  "evaluate_reorg view start_height candidate params =
     evaluate_reorg_with_cap view start_height candidate params MAX_REORG_DEPTH"

section \<open>Time and maturity\<close>

text \<open>The assertion of \<open>median_time_past\<close> (a non-empty window) is the \<open>None\<close> branch.\<close>

definition median_time_past :: "u64 list \<Rightarrow> u64 option" where
  "median_time_past ts =
     (if ts = [] then None
      else let window = drop (length ts - MEDIAN_TIME_SPAN) ts;
               sorted = sort window
           in Some (sorted ! (length sorted div 2)))"

definition check_block_time :: "u64 \<Rightarrow> u64 \<Rightarrow> u64 \<Rightarrow> RuleError + unit" where
  "check_block_time mtp time local_time =
     (if time \<le> mtp then Inl (TimestampTooOld mtp time)
      else let limit = saturating_add local_time MAX_FUTURE_DRIFT_SECS
           in if limit < time then Inl (TimestampTooFarInFuture time limit) else Inr ())"

definition coinbase_is_mature :: "u64 \<Rightarrow> u64 \<Rightarrow> bool" where
  "coinbase_is_mature coinbase_height spend_height \<longleftrightarrow>
     coinbase_height \<le> spend_height \<and> COINBASE_MATURITY \<le> spend_height - coinbase_height"

definition spendable_balance :: "u128 \<Rightarrow> u128 \<Rightarrow> u128" where
  "spendable_balance balance immature = saturating_sub balance immature"

section \<open>Checkpoints: who signed what\<close>

lemma position_Some: "position p xs = Some i \<Longrightarrow> i < length xs \<and> p (xs ! i)"
  by (induction xs arbitrary: i) (auto split: if_splits)

lemma position_None: "position p xs = None \<longleftrightarrow> (\<forall>x \<in> set xs. \<not> p x)"
  by (induction xs) auto

lemma position_inj:
  "position (\<lambda>k. k = a) xs = Some i \<Longrightarrow> position (\<lambda>k. k = b) xs = Some i \<Longrightarrow> a = b"
  by (drule position_Some, drule position_Some) simp

text \<open>The vote of a key: its first signature in the list, and whether that one is valid.\<close>

definition key_vote ::
  "(bytes \<Rightarrow> 'vk option) \<Rightarrow> ('vk \<Rightarrow> bytes \<Rightarrow> bytes \<Rightarrow> bool) \<Rightarrow> bytes \<Rightarrow> CheckpointSig list \<Rightarrow> bytes \<Rightarrow> bool" where
  "key_vote vk_from_bytes verify_strict msg sigs k \<longleftrightarrow>
     (case List.find (\<lambda>s. cs_pubkey s = k) sigs of
        None \<Rightarrow> False
      | Some s \<Rightarrow> (case vk_from_bytes k of None \<Rightarrow> False | Some vk \<Rightarrow> verify_strict vk msg (cs_sig s)))"

lemma key_vote_Cons:
  "key_vote fb vs msg (s # sigs) k \<longleftrightarrow>
     (if cs_pubkey s = k
      then (case fb k of None \<Rightarrow> False | Some vk \<Rightarrow> vs vk msg (cs_sig s))
      else key_vote fb vs msg sigs k)"
  by (simp add: key_vote_def)

definition open_votes ::
  "(bytes \<Rightarrow> 'vk option) \<Rightarrow> ('vk \<Rightarrow> bytes \<Rightarrow> bytes \<Rightarrow> bool) \<Rightarrow> bytes \<Rightarrow> bytes list \<Rightarrow> CheckpointSig list \<Rightarrow>
     bool list \<Rightarrow> bytes set" where
  "open_votes fb vs msg keys sigs tried =
     {k. (\<exists>i. position (\<lambda>x. x = k) keys = Some i \<and> \<not> tried ! i) \<and> key_vote fb vs msg sigs k}"

lemma finite_open_votes [simp]: "finite (open_votes fb vs msg keys sigs tried)"
proof (rule finite_subset)
  show "open_votes fb vs msg keys sigs tried \<subseteq> set keys"
    by (auto simp: open_votes_def dest!: position_Some)
qed simp

lemma open_votes_skip:
  "\<not> (\<exists>i. position (\<lambda>x. x = cs_pubkey s) keys = Some i \<and> \<not> tried ! i) \<Longrightarrow>
     open_votes fb vs msg keys (s # sigs) tried = open_votes fb vs msg keys sigs tried"
  by (auto simp: open_votes_def key_vote_Cons split: if_splits)

lemma open_votes_vote:
  assumes "position (\<lambda>x. x = cs_pubkey s) keys = Some i" "\<not> tried ! i" "length tried = length keys"
  shows "open_votes fb vs msg keys (s # sigs) tried =
    (if case fb (cs_pubkey s) of None \<Rightarrow> False | Some vk \<Rightarrow> vs vk msg (cs_sig s)
     then {cs_pubkey s} else {}) \<union> open_votes fb vs msg keys sigs (tried[i := True])"
    "cs_pubkey s \<notin> open_votes fb vs msg keys sigs (tried[i := True])"
proof -
  have i: "i < length tried" using position_Some [OF assms(1)] assms(3) by simp
  show "cs_pubkey s \<notin> open_votes fb vs msg keys sigs (tried[i := True])"
    using assms(1) i by (simp add: open_votes_def)
  show "open_votes fb vs msg keys (s # sigs) tried =
    (if case fb (cs_pubkey s) of None \<Rightarrow> False | Some vk \<Rightarrow> vs vk msg (cs_sig s)
     then {cs_pubkey s} else {}) \<union> open_votes fb vs msg keys sigs (tried[i := True])" (is "?L = ?R")
  proof (rule set_eqI)
    fix k
    show "k \<in> ?L \<longleftrightarrow> k \<in> ?R"
    proof (cases "k = cs_pubkey s")
      case True
      then show ?thesis using assms(1,2) i by (simp add: open_votes_def key_vote_Cons)
    next
      case False
      then have "position (\<lambda>x. x = k) keys = Some j \<Longrightarrow> tried[i := True] ! j = tried ! j" for j
        using position_inj [OF assms(1), of k] by (cases "j = i") auto
      then show ?thesis using False by (auto simp: open_votes_def key_vote_Cons)
    qed
  qed
qed

lemma count_signatures_iff:
  assumes "length tried = length keys" "valid < threshold"
  shows "count_signatures fb vs msg keys threshold sigs tried valid \<longleftrightarrow>
    threshold \<le> valid + card (open_votes fb vs msg keys sigs tried)"
  using assms
proof (induction sigs arbitrary: tried valid)
  case Nil
  then show ?case by (simp add: open_votes_def key_vote_def)
next
  case (Cons s sigs)
  show ?case
  proof (cases "\<exists>i. position (\<lambda>x. x = cs_pubkey s) keys = Some i \<and> \<not> tried ! i")
    case False
    then have "count_signatures fb vs msg keys threshold (s # sigs) tried valid =
        count_signatures fb vs msg keys threshold sigs tried valid"
      by (auto split: option.splits)
    then show ?thesis unfolding open_votes_skip [OF False] using Cons.IH [OF Cons.prems] by (simp only:)
  next
    case True
    then obtain i where i: "position (\<lambda>x. x = cs_pubkey s) keys = Some i" "\<not> tried ! i" by blast
    note v = open_votes_vote [OF i Cons.prems(1)]
    have len: "length (tried[i := True]) = length keys" using Cons.prems by simp
    show ?thesis
    proof (cases "case fb (cs_pubkey s) of None \<Rightarrow> False | Some vk \<Rightarrow> vs vk msg (cs_sig s)")
      case False
      then have "count_signatures fb vs msg keys threshold (s # sigs) tried valid =
          count_signatures fb vs msg keys threshold sigs (tried[i := True]) valid"
        using i by (auto split: option.splits)
      moreover have "open_votes fb vs msg keys (s # sigs) tried = open_votes fb vs msg keys sigs (tried[i := True])"
        unfolding v(1) using False by (simp only: if_False Un_empty_left)
      ultimately show ?thesis using Cons.IH [OF len Cons.prems(2)] by (simp only:)
    next
      case True
      then have step: "count_signatures fb vs msg keys threshold (s # sigs) tried valid \<longleftrightarrow>
          threshold \<le> valid + 1 \<or> count_signatures fb vs msg keys threshold sigs (tried[i := True]) (valid + 1)"
        using i by (auto split: option.splits)
      have card: "card (open_votes fb vs msg keys (s # sigs) tried) =
          Suc (card (open_votes fb vs msg keys sigs (tried[i := True])))"
        unfolding v(1) using True
        by (simp only: if_True Un_insert_left Un_empty_left card_insert_disjoint [OF finite_open_votes v(2)])
      show ?thesis
      proof (cases "threshold \<le> valid + 1")
        case True
        then show ?thesis unfolding step card by simp
      next
        case False
        then show ?thesis unfolding step card using Cons.IH [OF len, of "valid + 1"] by simp
      qed
    qed
  qed
qed

text \<open>C39: A checkpoint is accepted exactly when it is within the limits of the code and at least
  \<open>threshold\<close> distinct authority keys voted for it: no key counts twice, however often it
  signs or is listed, and only a key's first signature is its vote.\<close>

theorem verify_checkpoint_iff:
  "verify_checkpoint fb vs cp keys threshold \<longleftrightarrow>
     0 < threshold \<and> threshold \<le> length keys \<and> length (cp_sigs cp) \<le> length keys \<and>
     cp_hash cp \<noteq> ZERO_HASH \<and> cp_height cp < CHECKPOINT_SUNSET_HEIGHT \<and>
     threshold \<le> card {k. k \<in> set keys \<and>
       key_vote fb vs (checkpoint_message (cp_height cp) (cp_hash cp)) (cp_sigs cp) k}"
proof -
  have "open_votes fb vs msg keys sigs (replicate (length keys) False) =
      {k. k \<in> set keys \<and> key_vote fb vs msg sigs k}" for msg sigs
  proof -
    have "(\<exists>i. position (\<lambda>x. x = k) keys = Some i \<and> \<not> replicate (length keys) False ! i) \<longleftrightarrow> k \<in> set keys" for k
      using position_None [of "\<lambda>x. x = k" keys] position_Some [of "\<lambda>x. x = k" keys]
      by (cases "position (\<lambda>x. x = k) keys") auto
    then show ?thesis by (simp add: open_votes_def)
  qed
  then show ?thesis
    by (auto simp: verify_checkpoint_def count_signatures_iff not_le not_less)
qed

text \<open>What is signed: distinct pairs of a height and a hash have distinct messages.\<close>

definition undecimal :: "bytes \<Rightarrow> nat" where
  "undecimal bs = fold (\<lambda>b v. 10 * v + (unat b - 48)) bs 0"

lemma unat_digit: "n < 10 \<Longrightarrow> unat (48 + word_of_nat n :: u8) = 48 + n"
  by (simp add: unat_word_ariths unat_of_nat)

lemma undecimal_decimal: "undecimal (decimal n) = n"
proof (induction n rule: decimal.induct)
  case (1 n)
  show ?case
  proof (cases "n < 10")
    case True
    then show ?thesis by (simp add: decimal.simps undecimal_def unat_digit)
  next
    case False
    then have "undecimal (decimal n) = 10 * undecimal (decimal (n div 10)) + n mod 10"
      by (subst decimal.simps) (simp add: undecimal_def unat_digit)
    then show ?thesis using "1.IH" [OF False] by simp
  qed
qed

text \<open>Two checkpoints with the same signed message are the same checkpoint: a signature
  over one height and hash can not be replayed for another.\<close>

theorem checkpoint_message_inj:
  assumes "checkpoint_message h x = checkpoint_message h' x'" "length x = 32" "length x' = 32"
  shows "h = h' \<and> x = x'"
proof -
  have "decimal (unat h) @ [124] @ hex_encode x = decimal (unat h') @ [124] @ hex_encode x'"
    using assms(1) by (simp add: checkpoint_message_def)
  moreover have "length (hex_encode x) = length (hex_encode x')" using assms(2,3) by simp
  ultimately have "decimal (unat h) = decimal (unat h')" and x: "hex_encode x = hex_encode x'"
    by (simp_all add: append_eq_append_conv)
  then have "unat h = unat h'" using undecimal_decimal by metis
  moreover have "x = x'" using x hex_decode_encode by (metis Inr_inject)
  ultimately show ?thesis by (simp add: word_unat_eq_iff)
qed

theorem checkpoint_message_inj_witness:
  "(7 :: u64) = 7 \<and> replicate 32 (1 :: u8) = replicate 32 1"
  by (rule checkpoint_message_inj [of 7 "replicate 32 1"]) simp_all

section \<open>The view contract\<close>

text \<open>The work of a header, by the number its target stands for.\<close>

definition header_work :: "HeaderInfo \<Rightarrow> nat" where
  "header_work x = 2 ^ 256 div (be_val (hi_target x) + 1)"

lemma header_work_le: "header_work x \<le> 2 ^ 256"
  unfolding header_work_def by (rule div_le_dividend)

lemma sum_work_le: "sum_list (map header_work hs) \<le> length hs * 2 ^ 256"
proof (induction hs)
  case (Cons x hs)
  then show ?case using header_work_le [of x] by simp
qed simp

lemma work_of_header:
  assumes "length (hi_target x) = 32"
  obtains w where "work_from_target (hi_target x) = Some w" "work_val w = header_work x"
proof -
  have lt: "be_val (hi_target x) < 2 ^ 256" using be_val_less [of "hi_target x"] assms by simp
  then obtain d where d: "work_checked_add (from_be256 (hi_target x)) work_ONE = Some d"
    using work_checked_add_None [of "from_be256 (hi_target x)" work_ONE] assms by (auto simp: from_be256_val)
  then have dv: "work_val d = be_val (hi_target x) + 1"
    using assms by (simp add: work_checked_add_Some from_be256_val)
  have "\<exists>q. div_floor two_pow_256 d = Some q \<and> work_val q = work_val two_pow_256 div work_val d"
    by (rule div_floor_val) (use lt in \<open>simp_all add: dv\<close>)
  then show thesis using that d dv by (auto simp: work_from_target_def header_work_def)
qed

lemma add_work_val:
  assumes "\<forall>x \<in> set hs. length (hi_target x) = 32" "work_val acc + length hs * 2 ^ 256 < 2 ^ 512"
  shows "\<exists>w. add_work acc hs = Some w \<and> work_val w = work_val acc + sum_list (map header_work hs)"
  using assms
proof (induction hs arbitrary: acc)
  case Nil
  then show ?case by simp
next
  case (Cons x hs)
  obtain w where w: "work_from_target (hi_target x) = Some w" "work_val w = header_work x"
    using work_of_header [of x] Cons.prems(1) by auto
  have "work_val acc + header_work x < 2 ^ 512"
    using Cons.prems(2) header_work_le [of x] by (simp add: algebra_simps)
  then obtain acc' where a: "work_checked_add acc w = Some acc'"
    using work_checked_add_None [of acc w] w by fastforce
  then have av: "work_val acc' = work_val acc + header_work x"
    using w by (simp add: work_checked_add_Some)
  have "\<exists>u. add_work acc' hs = Some u \<and> work_val u = work_val acc' + sum_list (map header_work hs)"
    using Cons.prems header_work_le [of x] by (intro Cons.IH) (simp_all add: av algebra_simps)
  then show ?case using w a av by auto
qed

text \<open>The guards before any work is summed, on numbers.\<close>

definition placed :: "HeaderInfo list \<Rightarrow> u64 \<Rightarrow> HeaderInfo list \<Rightarrow> bool" where
  "placed hs start cand \<longleftrightarrow> cand \<noteq> [] \<and> 0 < start \<and> unat start \<le> length hs \<and> contiguous start cand"

text \<open>What \<open>ChainView\<close> promises of a view of the chain \<open>chain s\<close> (genesis first), for the states
  that satisfy the provider's invariant.\<close>

locale chain_view =
  fixes view :: "'s \<Rightarrow> ChainView"
    and chain :: "'s \<Rightarrow> HeaderInfo list"
    and inv :: "'s \<Rightarrow> bool"
  assumes chain_nonempty: "inv s \<Longrightarrow> chain s \<noteq> []"
    and chain_short: "inv s \<Longrightarrow> length (chain s) < 2 ^ 63"
    and view_len: "inv s \<Longrightarrow> unat (cv_len (view s)) = length (chain s)"
    and view_at: "inv s \<Longrightarrow> cv_header_at (view s) h =
      (if unat h < length (chain s) then Some (chain s ! unat h) else None)"
    and view_by_hash: "inv s \<Longrightarrow> cv_header_by_hash (view s) x = List.find (\<lambda>i. hi_hash i = x) (chain s)"
    and chain_heights: "inv s \<Longrightarrow> i < length (chain s) \<Longrightarrow> unat (hi_height (chain s ! i)) = i"
    and chain_targets: "inv s \<Longrightarrow> \<forall>x \<in> set (chain s). length (hi_target x) = 32"
    and view_work: "inv s \<Longrightarrow> work_val (cv_cumulative_work (view s)) = sum_list (map header_work (chain s))"
begin

lemma tip: "inv s \<Longrightarrow> cv_tip (view s) = Some (last (chain s))"
proof -
  assume inv: "inv s"
  have "unat (cv_len (view s) - 1) = length (chain s) - 1"
    using view_len [OF inv] chain_nonempty [OF inv]
    by (subst unat_sub) (simp_all add: word_le_nat_alt Suc_le_eq)
  then show ?thesis
    using chain_nonempty [OF inv] by (simp add: cv_tip_def view_at [OF inv] last_conv_nth)
qed

lemma tip_height: "inv s \<Longrightarrow> unat (hi_height (last (chain s))) = length (chain s) - 1"
  using chain_heights [of s "length (chain s) - 1"] chain_nonempty [of s] by (simp add: last_conv_nth)

lemma admission:
  assumes "inv s"
  shows "checkpoint_admission (view s) h x =
    Some (if h = 0 then GenesisImmutable
          else if length (chain s) \<le> unat h then NotHeldYet
          else if hi_hash (chain s ! unat h) = x then Admit else HashConflict)"
  using assms by (auto simp: checkpoint_admission_def view_at view_len word_le_nat_alt)

lemma discarded:
  assumes "inv s"
  shows "unat h + n = length (chain s) \<Longrightarrow>
    discarded_work (view s) acc h n = add_work acc (drop (unat h) (chain s))"
proof (induction n arbitrary: h acc)
  case 0
  then show ?case by simp
next
  case (Suc n)
  then have lt: "unat h < length (chain s)" by simp
  have "unat (h + 1) = unat h + 1"
    using lt chain_short [OF assms] by (simp add: unat_word_ariths)
  moreover have "drop (unat h) (chain s) = chain s ! unat h # drop (unat h + 1) (chain s)"
    using lt by (simp add: Cons_nth_drop_Suc)
  ultimately show ?case
    using lt Suc.IH [of "h + 1"] Suc.prems
    by (simp add: view_at [OF assms] cong: bind_option_cong)
qed

lemma work_sums:
  assumes "inv s" "unat start \<le> length (chain s)" "\<forall>x \<in> set cand. length (hi_target x) = 32" "length cand < 2 ^ 63"
  obtains d a r w where
    "discarded_work (view s) work_ZERO start (length (chain s) - unat start) = Some d"
    "add_work work_ZERO cand = Some a"
    "work_checked_sub (cv_cumulative_work (view s)) d = Some r"
    "work_checked_add r a = Some w"
    "work_val w + sum_list (map header_work (drop (unat start) (chain s))) =
       work_val (cv_cumulative_work (view s)) + sum_list (map header_work cand)"
proof -
  let ?old = "drop (unat start) (chain s)"
  note short = chain_short [OF assms(1)]
  have "\<forall>x \<in> set ?old. length (hi_target x) = 32" "length ?old * 2 ^ 256 < 2 ^ 512"
    using chain_targets [OF assms(1)] short by (auto dest: in_set_dropD)
  then obtain d where d: "add_work work_ZERO ?old = Some d" "work_val d = sum_list (map header_work ?old)"
    using add_work_val [of ?old work_ZERO] by auto
  have D: "discarded_work (view s) work_ZERO start (length (chain s) - unat start) = Some d"
    using discarded [OF assms(1)] d(1) assms(2) by simp
  have "length cand * 2 ^ 256 < 2 ^ 512" using assms(4) by simp
  then obtain a where a: "add_work work_ZERO cand = Some a" "work_val a = sum_list (map header_work cand)"
    using add_work_val [of cand work_ZERO] assms(3) by auto
  let ?pre = "sum_list (map header_work (take (unat start) (chain s)))"
  have cum: "work_val (cv_cumulative_work (view s)) = ?pre + work_val d"
    unfolding view_work [OF assms(1)] d(2)
    by (metis append_take_drop_id map_append sum_list_append)
  then obtain r where r: "work_checked_sub (cv_cumulative_work (view s)) d = Some r"
    using work_checked_sub_None [of "cv_cumulative_work (view s)" d] by fastforce
  then have rv: "work_val r = ?pre" using cum by (simp add: work_checked_sub_Some)
  have "?pre \<le> length (chain s) * 2 ^ 256"
  proof -
    have "length (take (unat start) (chain s)) * 2 ^ 256 \<le> length (chain s) * 2 ^ 256"
      by (intro mult_le_mono1) simp
    with sum_work_le show ?thesis by (rule order_trans)
  qed
  moreover have "work_val a \<le> length cand * 2 ^ 256" unfolding a(2) by (rule sum_work_le)
  ultimately have "work_val r + work_val a \<le> (length (chain s) + length cand) * 2 ^ 256"
    unfolding rv distrib_right by (rule add_mono)
  also have "\<dots> < 2 ^ 64 * 2 ^ 256" using short assms(4) by simp
  finally have "work_val r + work_val a < 2 ^ 512" by simp
  then obtain w where w: "work_checked_add r a = Some w"
    using work_checked_add_None [of r a] by fastforce
  then have "work_val w = work_val r + work_val a" by (simp add: work_checked_add_Some)
  then have "work_val w + sum_list (map header_work ?old) =
      work_val (cv_cumulative_work (view s)) + sum_list (map header_work cand)"
    using rv cum d(2) a(2) by simp
  then show thesis using that D a(1) r w by blast
qed

lemma evaluate_verdict:
  assumes "inv s" "placed (chain s) start cand" "\<forall>x \<in> set cand. length (hi_target x) = 32" "length cand < 2 ^ 63"
  defines "old \<equiv> sum_list (map header_work (drop (unat start) (chain s)))"
    and "new \<equiv> sum_list (map header_work cand)"
    and "depth \<equiv> cv_len (view s) - start"
    and "tip_h \<equiv> cv_len (view s) - 1"
    and "new_h \<equiv> start + word_of_nat (length cand) - 1"
  shows "evaluate_reorg_with_cap (view s) start cand params cap =
    Some (if 0 < cap \<and> cap < depth \<and>
           \<not> (case rp_anchor params of None \<Rightarrow> False | Some a \<Rightarrow> candidate_meets_anchor a start cand)
          then Inl (ReorgTooDeep depth cap)
          else case List.find (\<lambda>(h, _). start \<le> h \<and> h \<le> tip_h \<and> new_h < h) (rp_checkpoints params) of
            Some (h, _) \<Rightarrow> Inl (CheckpointShorteningAttack h)
          | None \<Rightarrow>
          (case List.find (\<lambda>(h, x). start \<le> h \<and> h \<le> new_h \<and> hi_hash (cand ! unat (h - start)) \<noteq> x)
              (rp_checkpoints params) of
            Some (h, _) \<Rightarrow> Inl (CheckpointMismatch h)
          | None \<Rightarrow>
            if old < new then Inr StrictlyMoreWork
            else if depth = 1 \<and> old = new \<and> hi_height (last cand) = hi_height (last (chain s)) \<and>
                    hi_hash (last cand) < hi_hash (last (chain s)) then Inr TieBreak
            else Inl (InsufficientWork depth)))"
proof -
  have pl: "cand \<noteq> []" "start \<noteq> 0" "\<not> cv_len (view s) < start" "contiguous start cand"
    "unat start \<le> length (chain s)"
    using assms(2) view_len [OF assms(1)] by (auto simp: placed_def word_less_nat_alt word_neq_0_conv)
  have dn: "unat depth = length (chain s) - unat start"
    using pl(3) view_len [OF assms(1)] by (simp add: depth_def unat_sub word_le_nat_alt not_less)
  obtain d a r w where dw: "discarded_work (view s) work_ZERO start (length (chain s) - unat start) = Some d"
    and aw: "add_work work_ZERO cand = Some a"
    and rw: "work_checked_sub (cv_cumulative_work (view s)) d = Some r"
    and ww: "work_checked_add r a = Some w"
    and v: "work_val w + old = work_val (cv_cumulative_work (view s)) + new"
    unfolding old_def new_def using work_sums [OF assms(1) pl(5) assms(3,4)] by blast
  have lt: "cv_cumulative_work (view s) < w \<longleftrightarrow> old < new"
    unfolding work_less_iff using v by linarith
  have eq: "w = cv_cumulative_work (view s) \<longleftrightarrow> old = new"
    unfolding work_val_inj [symmetric] using v by linarith
  show ?thesis
    unfolding evaluate_reorg_with_cap_def Let_def depth_def [symmetric] tip_h_def [symmetric]
      new_h_def [symmetric] dn dw aw
    by (simp add: pl tip [OF assms(1)] rw ww lt eq tie_break_prefers_candidate_def
        split: option.splits prod.splits)
qed

end

section \<open>Time and maturity: what the rules give\<close>

lemma length_filter_sort: "length (filter P (sort xs)) = length (filter P xs)" for xs :: "u64 list"
  by (simp add: filter_sort)

lemma sorted_nth_count:
  assumes "sorted s" "k < length s"
  shows "k < length (filter (\<lambda>t. t \<le> s ! k) s)" "length s - k \<le> length (filter (\<lambda>t. s ! k \<le> t) s)"
proof -
  have "\<forall>t \<in> set (take (Suc k) s). t \<le> s ! k"
    using assms by (auto simp: in_set_conv_nth sorted_iff_nth_mono)
  then have "filter (\<lambda>t. t \<le> s ! k) (take (Suc k) s) = take (Suc k) s" by (simp only: filter_id_conv)
  then have "length (filter (\<lambda>t. t \<le> s ! k) (take (Suc k) s @ drop (Suc k) s)) \<ge> Suc k"
    unfolding filter_append using assms(2) by simp
  then show "k < length (filter (\<lambda>t. t \<le> s ! k) s)" by simp
  have "\<forall>t \<in> set (drop k s). s ! k \<le> t"
    using assms by (auto simp: in_set_conv_nth sorted_iff_nth_mono)
  then have "filter (\<lambda>t. s ! k \<le> t) (drop k s) = drop k s" by (simp only: filter_id_conv)
  then have "length (filter (\<lambda>t. s ! k \<le> t) (take k s @ drop k s)) \<ge> length s - k"
    unfolding filter_append by simp
  then show "length s - k \<le> length (filter (\<lambda>t. s ! k \<le> t) s)" by simp
qed

text \<open>A block whose time passes the checks is strictly later than more than half of the
  (at most 11) ancestors in the window, so that no minority of miners can hold the clock back or
  drag it; and it is at most 600 seconds ahead of the local clock.\<close>

theorem block_time_after_majority:
  assumes "ts \<noteq> []"
  shows "\<exists>mtp. median_time_past ts = Some mtp \<and>
    (let window = drop (length ts - MEDIAN_TIME_SPAN) ts in
      mtp \<in> set window \<and> length window \<le> 2 * length (filter (\<lambda>t. mtp \<le> t) window) \<and>
      (check_block_time mtp time now = Inr () \<longrightarrow>
         length window < 2 * length (filter (\<lambda>t. t < time) window) \<and>
         unat time \<le> unat now + 600))"
proof -
  define w where "w = drop (length ts - MEDIAN_TIME_SPAN) ts"
  have "0 < length ts" using assms by simp
  then have "length ts - MEDIAN_TIME_SPAN < length ts" by simp
  then have w: "w \<noteq> []" unfolding w_def by (metis drop_eq_Nil not_less)
  define m where "m = sort w ! (length w div 2)"
  have mtp: "median_time_past ts = Some m"
    using assms by (simp add: median_time_past_def Let_def w_def m_def)
  have k: "length w div 2 < length (sort w)" using w by simp
  then have "m \<in> set (sort w)" unfolding m_def by (rule nth_mem)
  then have "m \<in> set w" by simp
  have lo: "length w div 2 < length (filter (\<lambda>t. t \<le> m) w)"
    and hi: "length w - length w div 2 \<le> length (filter (\<lambda>t. m \<le> t) w)"
    using sorted_nth_count [OF sorted_sort k] by (simp_all add: m_def length_filter_sort)
  have "length w < 2 * length (filter (\<lambda>t. t < time) w) \<and> unat time \<le> unat now + 600"
    if ok: "check_block_time m time now = Inr ()"
  proof
    have "m < time" using ok by (simp add: check_block_time_def split: if_splits)
    then have "length (filter (\<lambda>t. t \<le> m) w) \<le> length (filter (\<lambda>t. t < time) w)"
      by (induction w) auto
    then show "length w < 2 * length (filter (\<lambda>t. t < time) w)" using lo by linarith
    have "time \<le> saturating_add now MAX_FUTURE_DRIFT_SECS"
      using ok by (simp add: check_block_time_def Let_def not_less split: if_splits)
    then show "unat time \<le> unat now + 600"
      by (simp add: word_le_nat_alt unat_saturating_add MAX_FUTURE_DRIFT_SECS_def)
  qed
  then show ?thesis
    using mtp \<open>m \<in> set w\<close> hi unfolding Let_def w_def [symmetric] by (intro exI [of _ m]) auto
qed

theorem block_time_after_majority_witness:
  "\<exists>mtp. median_time_past [3, 1, 2] = Some mtp \<and> mtp \<in> {1, 2, 3}"
  using block_time_after_majority [of "[3, 1, 2]" 3 5] by (auto simp: Let_def)

lemma mature_iff: "coinbase_is_mature c h \<longleftrightarrow> unat c + 60 \<le> unat h"
  by (auto simp: coinbase_is_mature_def COINBASE_MATURITY_def word_le_nat_alt unat_sub)

end
