(* ===== verification/Codec.thy ===== *)
theory Codec imports Interfaces Constants begin

text \<open>
  \<open>lib/consensus/src/codec.rs\<close>: the byte formats of headers, transactions, author notes and
  block bodies. Each structure is a record, each \<open>encode\<close>/\<open>decode\<close> a pair of functions that
  reads its fields at the offsets of the source; a \<open>[u8; N]\<close> field is a byte list, and the
  \<open>_ok\<close> predicate of a structure says that those lists have the lengths of the Rust types. Every
  pair is interpreted as a \<open>byte_codec\<close>, whose laws make it a bijection: one byte string per
  transaction, hence one transaction id. \<open>usize\<close> offsets are natural numbers: they are bounded by
  the length of the input, so that the \<open>checked_add\<close> of the source never fails.
\<close>

datatype CodecError =
    Truncated nat nat
  | TrailingBytes nat
  | WrongTxType u8
  | ReservedTxType u8
  | AuthorNoteVersion u8
  | AuthorNoteTooLong nat
  | AnnouncementLength nat
  | BodyTxCount nat
  | BodyTxLen nat
  | BodyTooLarge nat

definition require_exact :: "nat \<Rightarrow> nat \<Rightarrow> CodecError + unit" where
  "require_exact got need =
     (if got < need then Inl (Truncated need got)
      else if got > need then Inl (TrailingBytes (got - need))
      else Inr ())"

lemma require_exact_Ok [simp]: "require_exact got need = Inr () \<longleftrightarrow> got = need"
  by (simp add: require_exact_def)

section \<open>Block headers\<close>

record Header =
  hd_version :: u32
  hd_height :: u64
  hd_prev_hash :: bytes
  hd_tx_root :: bytes
  hd_ext_root :: bytes
  hd_time :: u64
  hd_bits :: u32
  hd_author_note_len :: u32
  hd_nonce :: u64

definition header_ok :: "Header \<Rightarrow> bool" where
  "header_ok h \<longleftrightarrow> length (hd_prev_hash h) = HASH_BYTES \<and> length (hd_tx_root h) = HASH_BYTES \<and>
     length (hd_ext_root h) = HASH_BYTES"

definition header_encode :: "Header \<Rightarrow> bytes" where
  "header_encode h =
     to_le 4 (hd_version h) @ to_le 8 (hd_height h) @ hd_prev_hash h @ hd_tx_root h @ hd_ext_root h @
     to_le 8 (hd_time h) @ to_le 4 (hd_bits h) @ to_le 4 (hd_author_note_len h) @ to_le 8 (hd_nonce h)"

definition header_decode :: "bytes \<Rightarrow> CodecError + Header" where
  "header_decode b =
     and_then (require_exact (length b) HEADER_BYTES) (\<lambda>_.
     Inr \<lparr>hd_version = from_le (slice 0 4 b), hd_height = from_le (slice 4 12 b),
          hd_prev_hash = slice 12 44 b, hd_tx_root = slice 44 76 b, hd_ext_root = slice 76 108 b,
          hd_time = from_le (slice 108 116 b), hd_bits = from_le (slice 116 120 b),
          hd_author_note_len = from_le (slice 120 124 b), hd_nonce = from_le (slice 124 132 b)\<rparr>)"

lemma length_header_encode [simp]: "header_ok h \<Longrightarrow> length (header_encode h) = HEADER_BYTES"
  by (simp add: header_ok_def header_encode_def)

interpretation header: byte_codec "\<lambda>h. Inr (header_encode h) :: CodecError + bytes" header_decode header_ok
proof
  fix x :: Header and b
  assume "header_ok x" "Inr (header_encode x) = (Inr b :: CodecError + bytes)"
  then show "header_decode b = Inr x"
    by (auto simp: header_decode_def header_encode_def header_ok_def slice_concat require_exact_def)
next
  fix b x
  assume "header_decode b = Inr x"
  then show "header_ok x \<and> Inr (header_encode x) = (Inr b :: CodecError + bytes)"
    by (auto simp: header_decode_def header_encode_def header_ok_def res_simps
        slice_join slice_join_append slice_all)
qed

section \<open>Transfers\<close>

record TransferTx =
  tr_from_pub :: bytes
  tr_to :: bytes
  tr_amount :: u128
  tr_fee :: u128
  tr_nonce :: u64
  tr_sig :: bytes

definition transfer_ok :: "TransferTx \<Rightarrow> bool" where
  "transfer_ok t \<longleftrightarrow> length (tr_from_pub t) = PUBKEY_BYTES \<and> length (tr_to t) = ADDRESS_PAYLOAD_BYTES \<and>
     length (tr_sig t) = SIG_BYTES"

definition transfer_encode_unsigned :: "TransferTx \<Rightarrow> bytes" where
  "transfer_encode_unsigned t =
     TX_TYPE_TRANSFER # tr_from_pub t @ tr_to t @ to_le 16 (tr_amount t) @ to_le 16 (tr_fee t) @
     to_le 8 (tr_nonce t)"

definition transfer_encode :: "TransferTx \<Rightarrow> bytes" where
  "transfer_encode t = transfer_encode_unsigned t @ tr_sig t"

definition transfer_decode :: "bytes \<Rightarrow> CodecError + TransferTx" where
  "transfer_decode b =
     and_then (require_exact (length b) TX_TRANSFER_BYTES) (\<lambda>_.
     if b ! 0 \<noteq> TX_TYPE_TRANSFER then Inl (WrongTxType (b ! 0))
     else Inr \<lparr>tr_from_pub = slice 1 33 b, tr_to = slice 33 53 b,
               tr_amount = from_le (slice 53 69 b), tr_fee = from_le (slice 69 85 b),
               tr_nonce = from_le (slice 85 93 b), tr_sig = slice 93 157 b\<rparr>)"

lemma slice_Cons: "0 < a \<Longrightarrow> slice a b (x # xs) = slice (a - 1) (b - 1) xs"
  by (cases a) (simp_all add: slice_def)

lemma head_slice: "length b = n \<Longrightarrow> 0 < n \<Longrightarrow> b ! 0 = t \<Longrightarrow> t # slice (Suc 0) n b = b"
  by (cases b) (simp_all add: slice_def)

lemma length_transfer_unsigned:
  "transfer_ok t \<Longrightarrow> length (transfer_encode_unsigned t) = TX_TRANSFER_BYTES_UNSIGNED"
  by (simp add: transfer_ok_def transfer_encode_unsigned_def)

interpretation transfer: byte_codec "\<lambda>t. Inr (transfer_encode t) :: CodecError + bytes" transfer_decode transfer_ok
proof
  fix x :: TransferTx and b
  assume "transfer_ok x" "Inr (transfer_encode x) = (Inr b :: CodecError + bytes)"
  then show "transfer_decode b = Inr x"
    by (auto simp: transfer_decode_def transfer_encode_def transfer_encode_unsigned_def
        transfer_ok_def slice_concat slice_Cons require_exact_def)
next
  fix b x
  assume d: "transfer_decode b = Inr x"
  then have len: "length b = 157" and hd: "b ! 0 = 1"
    by (auto simp: transfer_decode_def res_simps split: if_splits)
  have "1 # slice (Suc 0) 157 b = b" using len hd by (intro head_slice) simp_all
  then show "transfer_ok x \<and> Inr (transfer_encode x) = (Inr b :: CodecError + bytes)"
    using d len
    by (auto simp: transfer_decode_def transfer_encode_def transfer_encode_unsigned_def
        transfer_ok_def res_simps slice_join slice_join_append slice_all split: if_splits)
qed

section \<open>Announcements\<close>

record AnnouncementTx =
  an_from_pub :: bytes
  an_fee :: u128
  an_nonce :: u64
  an_encoding :: u8
  an_payload :: bytes
  an_sig :: bytes

definition announcement_ok :: "AnnouncementTx \<Rightarrow> bool" where
  "announcement_ok a \<longleftrightarrow> length (an_from_pub a) = PUBKEY_BYTES \<and> length (an_sig a) = SIG_BYTES"

definition check_payload_len :: "AnnouncementTx \<Rightarrow> CodecError + u16" where
  "check_payload_len a =
     (let len = length (an_payload a)
      in if \<not> (ANNOUNCEMENT_MIN_PAYLOAD_BYTES \<le> len \<and> len \<le> ANNOUNCEMENT_MAX_PAYLOAD_BYTES)
         then Inl (AnnouncementLength len)
         else Inr (word_of_nat len))"

definition announcement_wire_len :: "AnnouncementTx \<Rightarrow> nat" where
  "announcement_wire_len a = TX_ANNOUNCEMENT_OVERHEAD_BYTES + length (an_payload a)"

definition announcement_encode_unsigned :: "AnnouncementTx \<Rightarrow> CodecError + bytes" where
  "announcement_encode_unsigned a =
     and_then (check_payload_len a) (\<lambda>len.
     Inr (TX_TYPE_ANNOUNCEMENT # an_from_pub a @ to_le 16 (an_fee a) @ to_le 8 (an_nonce a) @
          an_encoding a # to_le 2 len @ an_payload a))"

definition announcement_encode :: "AnnouncementTx \<Rightarrow> CodecError + bytes" where
  "announcement_encode a =
     and_then (announcement_encode_unsigned a) (\<lambda>v. Inr (v @ an_sig a))"

definition announcement_decode :: "bytes \<Rightarrow> CodecError + AnnouncementTx" where
  "announcement_decode b =
     (let min_len = TX_ANNOUNCEMENT_OVERHEAD_BYTES + ANNOUNCEMENT_MIN_PAYLOAD_BYTES in
      if length b < min_len then Inl (Truncated min_len (length b))
      else if b ! 0 \<noteq> TX_TYPE_ANNOUNCEMENT then Inl (WrongTxType (b ! 0))
      else let len = unat (from_le [b ! TX_ANN_OFF_LENGTH, b ! (TX_ANN_OFF_LENGTH + 1)] :: u16) in
      if \<not> (ANNOUNCEMENT_MIN_PAYLOAD_BYTES \<le> len \<and> len \<le> ANNOUNCEMENT_MAX_PAYLOAD_BYTES)
      then Inl (AnnouncementLength len)
      else and_then (require_exact (length b) (TX_ANNOUNCEMENT_OVERHEAD_BYTES + len)) (\<lambda>_.
      let payload_end = TX_ANN_OFF_PAYLOAD + len
      in Inr \<lparr>an_from_pub = slice TX_ANN_OFF_FROM_PUB (TX_ANN_OFF_FROM_PUB + PUBKEY_BYTES) b,
              an_fee = from_le (slice TX_ANN_OFF_FEE (TX_ANN_OFF_FEE + 16) b),
              an_nonce = from_le (slice TX_ANN_OFF_NONCE (TX_ANN_OFF_NONCE + 8) b),
              an_encoding = b ! TX_ANN_OFF_ENCODING,
              an_payload = slice TX_ANN_OFF_PAYLOAD payload_end b,
              an_sig = slice payload_end (payload_end + SIG_BYTES) b\<rparr>))"

lemma pair_slice: "Suc i < length b \<Longrightarrow> [b ! i, b ! Suc i] = slice i (Suc (Suc i)) b"
  by (simp add: slice_def take_Suc_conv_app_nth numeral_2_eq_2 [symmetric] flip: Cons_nth_drop_Suc)

lemma unat_u16_len: "n \<le> 1024 \<Longrightarrow> unat (word_of_nat n :: u16) = n"
  by (simp only: unat_of_nat) simp

lemma check_payload_len_Ok [res_simps]:
  "check_payload_len a = Inr l \<longleftrightarrow>
     1 \<le> length (an_payload a) \<and> length (an_payload a) \<le> 1024 \<and> l = word_of_nat (length (an_payload a))"
  by (auto simp: check_payload_len_def Let_def)

lemma to_le_2_cases: obtains p q where "to_le 2 w = [p, q]"
  using length_to_le [of 2 w] by (auto simp del: length_to_le simp: length_Suc_conv numeral_2_eq_2)

interpretation announcement: byte_codec announcement_encode announcement_decode announcement_ok
proof
  fix x b
  assume ok: "announcement_ok x" and e: "announcement_encode x = Inr b"
  let ?n = "length (an_payload x)"
  obtain p q where pq: "to_le 2 (word_of_nat ?n :: u16) = [p, q]" by (rule to_le_2_cases)
  have n: "1 \<le> ?n" "?n \<le> 1024"
    and b: "b = TX_TYPE_ANNOUNCEMENT # an_from_pub x @ to_le 16 (an_fee x) @ to_le 8 (an_nonce x) @
          an_encoding x # p # q # an_payload x @ an_sig x"
    using e pq by (auto simp: announcement_encode_def announcement_encode_unsigned_def res_simps)
  have n0: "an_payload x \<noteq> []" using n by auto
  have len: "length b = 124 + ?n" using ok by (simp add: b announcement_ok_def)
  have "(from_le [p, q] :: u16) = word_of_nat ?n"
    using from_le_to_le_16 [of "word_of_nat ?n"] pq by (simp del: from_le_to_le_16)
  then have u: "unat (from_le [p, q] :: u16) = ?n" using n unat_u16_len by simp
  have at: "b ! 58 = p" "b ! 59 = q" "b ! 57 = an_encoding x"
    using ok by (simp_all add: b announcement_ok_def nth_append nth_Cons')
  show "announcement_decode b = Inr x"
    using ok n n0 len u at
    by (simp add: announcement_decode_def Let_def)
       (simp add: b announcement_ok_def slice_concat slice_Cons require_exact_def)
next
  fix b x
  assume d: "announcement_decode b = Inr x"
  define L where "L = (from_le [b ! 58, b ! 59] :: u16)"
  have n: "1 \<le> unat L" "unat L \<le> 1024" and len: "length b = 124 + unat L" and hd: "b ! 0 = 2"
    and x: "x = \<lparr>an_from_pub = slice 1 33 b, an_fee = from_le (slice 33 49 b), an_nonce = from_le (slice 49 57 b),
      an_encoding = b ! 57, an_payload = slice 60 (60 + unat L) b, an_sig = slice (60 + unat L) (60 + unat L + 64) b\<rparr>"
    using d by (auto simp: announcement_decode_def Let_def res_simps L_def split: if_splits)
  have h1: "2 # slice (Suc 0) (124 + unat L) b = b" using len hd by (intro head_slice) simp_all
  have h2: "b ! 57 # r = slice 57 58 b @ r" for r using slice_Cons_nth [of 57 b r] len by simp
  have h3: "to_le 2 L = slice 58 60 b"
    using pair_slice [of 58 b] len by (simp add: L_def del: from_le.simps)
  show "announcement_ok x \<and> announcement_encode x = Inr b"
    using n len
    by (simp add: x announcement_ok_def announcement_encode_def announcement_encode_unsigned_def
        res_simps h2 h3 slice_join slice_join_append)
       (use h1 in \<open>simp add: ac_simps\<close>)
qed

section \<open>Author notes and coinbases\<close>

record AuthorNote =
  note_encoding :: u8
  note_payload :: bytes

definition note_encode :: "AuthorNote \<Rightarrow> CodecError + bytes" where
  "note_encode n =
     (if length (note_payload n) > AUTHOR_NOTE_MAX_BYTES
      then Inl (AuthorNoteTooLong (length (note_payload n)))
      else Inr (AUTHOR_NOTE_RECORD_VERSION # note_encoding n #
                to_le 2 (word_of_nat (length (note_payload n)) :: u16) @ note_payload n))"

definition note_decode :: "bytes \<Rightarrow> CodecError + AuthorNote" where
  "note_decode b =
     (if length b < AUTHOR_NOTE_HEADER_BYTES then Inl (Truncated AUTHOR_NOTE_HEADER_BYTES (length b))
      else if b ! 0 \<noteq> AUTHOR_NOTE_RECORD_VERSION then Inl (AuthorNoteVersion (b ! 0))
      else let len = unat (from_le [b ! 2, b ! 3] :: u16) in
      if len > AUTHOR_NOTE_MAX_BYTES then Inl (AuthorNoteTooLong len)
      else and_then (require_exact (length b) (AUTHOR_NOTE_HEADER_BYTES + len)) (\<lambda>_.
      Inr \<lparr>note_encoding = b ! 1, note_payload = drop AUTHOR_NOTE_HEADER_BYTES b\<rparr>))"

interpretation anote: byte_codec note_encode note_decode "\<lambda>_. True"
proof
  fix x b
  assume e: "note_encode x = Inr b"
  let ?n = "length (note_payload x)"
  obtain p q where pq: "to_le 2 (word_of_nat ?n :: u16) = [p, q]" by (rule to_le_2_cases)
  have n: "?n \<le> 256" and b: "b = 1 # note_encoding x # p # q # note_payload x"
    using e pq by (auto simp: note_encode_def split: if_splits)
  have "(from_le [p, q] :: u16) = word_of_nat ?n"
    using from_le_to_le_16 [of "word_of_nat ?n"] pq by (simp del: from_le_to_le_16)
  then have u: "unat (from_le [p, q] :: u16) = ?n" using n unat_u16_len by simp
  then show "note_decode b = Inr x" using n by (simp add: note_decode_def Let_def b require_exact_def)
next
  fix b x
  assume d: "note_decode b = Inr x"
  define L where "L = (from_le [b ! 2, b ! 3] :: u16)"
  have n: "unat L \<le> 256" and len: "length b = 4 + unat L" and hd: "b ! 0 = 1"
    and x: "x = \<lparr>note_encoding = b ! 1, note_payload = drop 4 b\<rparr>"
    using d by (auto simp: note_decode_def Let_def res_simps L_def split: if_splits)
  have h1: "1 # slice (Suc 0) (4 + unat L) b = b" using len hd by (intro head_slice) simp_all
  have h2: "b ! Suc 0 # r = slice (Suc 0) 2 b @ r" for r using slice_Cons_nth [of 1 b r] len by (simp add: numeral_2_eq_2)
  have h3: "to_le 2 L = slice 2 4 b"
    using pair_slice [of 2 b] len by (simp add: L_def del: from_le.simps)
  have h4: "drop 4 b = slice 4 (4 + unat L) b" using len by (simp add: slice_drop)
  show "True \<and> note_encode x = Inr b"
    using n len by (simp add: x note_encode_def h2 h3)
      (use h1 in \<open>simp add: h4 slice_join slice_join_append\<close>)
qed

record CoinbaseTx =
  cb_height :: u64
  cb_to :: bytes
  cb_reward :: u128
  cb_fees :: u128
  cb_note :: AuthorNote

definition coinbase_ok :: "CoinbaseTx \<Rightarrow> bool" where
  "coinbase_ok c \<longleftrightarrow> length (cb_to c) = ADDRESS_PAYLOAD_BYTES"

definition coinbase_wire_len :: "CoinbaseTx \<Rightarrow> nat" where
  "coinbase_wire_len c = COINBASE_PREFIX_BYTES + AUTHOR_NOTE_HEADER_BYTES + length (note_payload (cb_note c))"

definition coinbase_encode :: "CoinbaseTx \<Rightarrow> CodecError + bytes" where
  "coinbase_encode c =
     and_then (note_encode (cb_note c)) (\<lambda>note.
     Inr (TX_TYPE_COINBASE # to_le 8 (cb_height c) @ cb_to c @ to_le 16 (cb_reward c) @
          to_le 16 (cb_fees c) @ note))"

definition coinbase_decode :: "bytes \<Rightarrow> CodecError + CoinbaseTx" where
  "coinbase_decode b =
     (let min_len = COINBASE_PREFIX_BYTES + AUTHOR_NOTE_HEADER_BYTES in
      if length b < min_len then Inl (Truncated min_len (length b))
      else if b ! 0 \<noteq> TX_TYPE_COINBASE then Inl (WrongTxType (b ! 0))
      else and_then (note_decode (drop TX_CB_OFF_NOTE b)) (\<lambda>note.
      Inr \<lparr>cb_height = from_le (slice TX_CB_OFF_HEIGHT (TX_CB_OFF_HEIGHT + 8) b),
           cb_to = slice TX_CB_OFF_TO (TX_CB_OFF_TO + ADDRESS_PAYLOAD_BYTES) b,
           cb_reward = from_le (slice TX_CB_OFF_REWARD (TX_CB_OFF_REWARD + 16) b),
           cb_fees = from_le (slice TX_CB_OFF_FEES (TX_CB_OFF_FEES + 16) b),
           cb_note = note\<rparr>))"

lemma note_encode_length: "note_encode n = Inr b \<Longrightarrow> length b = 4 + length (note_payload n)"
  by (auto simp: note_encode_def split: if_splits)

interpretation coinbase: byte_codec coinbase_encode coinbase_decode coinbase_ok
proof
  fix x b
  assume ok: "coinbase_ok x" and e: "coinbase_encode x = Inr b"
  then obtain n where n: "note_encode (cb_note x) = Inr n"
    and b: "b = 0 # to_le 8 (cb_height x) @ cb_to x @ to_le 16 (cb_reward x) @ to_le 16 (cb_fees x) @ n"
    by (auto simp: coinbase_encode_def res_simps)
  have "note_decode n = Inr (cb_note x)" using anote.dec_enc n by simp
  then show "coinbase_decode b = Inr x"
    using ok note_encode_length [OF n]
    by (simp add: coinbase_decode_def b coinbase_ok_def Let_def slice_concat slice_Cons drop_Cons')
next
  fix b x
  assume d: "coinbase_decode b = Inr x"
  then have len: "65 \<le> length b" and hd: "b ! 0 = 0"
    by (auto simp: coinbase_decode_def Let_def split: if_splits)
  have n: "note_encode (cb_note x) = Inr (drop 61 b)"
    using d anote.enc_dec [of "drop 61 b" "cb_note x"]
    by (auto simp: coinbase_decode_def Let_def res_simps split: if_splits)
  have h1: "0 # slice (Suc 0) (length b) b = b" using len hd by (intro head_slice) (auto intro: Suc_le_lessD)
  have h4: "drop 61 b = slice 61 (length b) b" by (simp add: slice_drop)
  show "coinbase_ok x \<and> coinbase_encode x = Inr b"
    using d len h1 n
    by (auto simp: coinbase_decode_def Let_def res_simps coinbase_ok_def coinbase_encode_def
        h4 slice_join slice_join_append split: if_splits)
qed

section \<open>Transactions\<close>

datatype Tx = Coinbase CoinbaseTx | Transfer TransferTx | Announcement AnnouncementTx

fun tx_fee :: "Tx \<Rightarrow> u128" where
  "tx_fee (Coinbase _) = 0"
| "tx_fee (Transfer t) = tr_fee t"
| "tx_fee (Announcement a) = an_fee a"

fun tx_type_byte :: "Tx \<Rightarrow> u8" where
  "tx_type_byte (Coinbase _) = TX_TYPE_COINBASE"
| "tx_type_byte (Transfer _) = TX_TYPE_TRANSFER"
| "tx_type_byte (Announcement _) = TX_TYPE_ANNOUNCEMENT"

definition decode_tx :: "bytes \<Rightarrow> CodecError + Tx" where
  "decode_tx b =
     (case b of [] \<Rightarrow> Inl (Truncated 1 0)
      | first # _ \<Rightarrow>
          if first = TX_TYPE_COINBASE then and_then (coinbase_decode b) (\<lambda>t. Inr (Coinbase t))
          else if first = TX_TYPE_TRANSFER then and_then (transfer_decode b) (\<lambda>t. Inr (Transfer t))
          else if first = TX_TYPE_ANNOUNCEMENT then and_then (announcement_decode b) (\<lambda>t. Inr (Announcement t))
          else Inl (ReservedTxType first))"

text \<open>The writer that goes with it, and the type of the values it applies to.\<close>

fun tx_encode :: "Tx \<Rightarrow> CodecError + bytes" where
  "tx_encode (Coinbase t) = coinbase_encode t"
| "tx_encode (Transfer t) = Inr (transfer_encode t)"
| "tx_encode (Announcement t) = announcement_encode t"

fun tx_ok :: "Tx \<Rightarrow> bool" where
  "tx_ok (Coinbase t) = coinbase_ok t"
| "tx_ok (Transfer t) = transfer_ok t"
| "tx_ok (Announcement t) = announcement_ok t"

lemma tx_encode_head: "tx_encode t = Inr b \<Longrightarrow> \<exists>r. b = tx_type_byte t # r"
  by (cases t) (auto simp: coinbase_encode_def transfer_encode_def transfer_encode_unsigned_def
      announcement_encode_def announcement_encode_unsigned_def res_simps)

interpretation tx: byte_codec tx_encode decode_tx tx_ok
proof
  fix x b
  assume ok: "tx_ok x" and e: "tx_encode x = Inr b"
  obtain r where "b = tx_type_byte x # r" using tx_encode_head [OF e] by blast
  then show "decode_tx b = Inr x"
    using ok e by (cases x) (simp_all add: decode_tx_def coinbase.dec_enc transfer.dec_enc announcement.dec_enc)
next
  fix b x
  assume d: "decode_tx b = Inr x"
  then show "tx_ok x \<and> tx_encode x = Inr b"
    using coinbase.enc_dec [of b] transfer.enc_dec [of b] announcement.enc_dec [of b]
    by (auto simp: decode_tx_def res_simps split: list.splits if_splits)
qed

section \<open>Block bodies\<close>

record BlockBody =
  body_raw :: bytes
  body_spans :: "(nat \<times> nat) list"

text \<open>The loop \<open>for _ in 0..count\<close> of \<open>parse\<close>: \<open>n\<close> records to go from offset \<open>off\<close>.\<close>

fun parse_spans :: "bytes \<Rightarrow> nat \<Rightarrow> nat \<Rightarrow> (nat \<times> nat) list \<Rightarrow> CodecError + (nat \<times> nat) list \<times> nat" where
  "parse_spans raw 0 off spans = Inr (spans, off)"
| "parse_spans raw (Suc n) off spans =
     (let len_end = off + BODY_TXLEN_BYTES in
      if len_end > length raw then Inl (Truncated len_end (length raw))
      else let tx_len = unat (from_le (slice off len_end raw) :: u32) in
      if tx_len = 0 \<or> tx_len > MAX_TX_BYTES then Inl (BodyTxLen tx_len)
      else let tx_end = len_end + tx_len in
      if tx_end > length raw then Inl (Truncated tx_end (length raw))
      else parse_spans raw n tx_end (spans @ [(len_end, tx_end)]))"

definition body_parse :: "bytes \<Rightarrow> CodecError + BlockBody" where
  "body_parse raw =
     (if length raw + HEADER_BYTES > MAX_BLOCK_BYTES then Inl (BodyTooLarge (length raw))
      else if length raw < BODY_COUNT_BYTES then Inl (Truncated BODY_COUNT_BYTES (length raw))
      else let count = unat (from_le (slice 0 BODY_COUNT_BYTES raw) :: u32) in
      if count = 0 \<or> count > MAX_TXS_PER_BLOCK then Inl (BodyTxCount count)
      else let min_total = BODY_COUNT_BYTES + count * BODY_MIN_RECORD_BYTES in
      if min_total > length raw then Inl (Truncated min_total (length raw))
      else and_then (parse_spans raw count BODY_COUNT_BYTES []) (\<lambda>(spans, off).
      if off \<noteq> length raw then Inl (TrailingBytes (length raw - off))
      else Inr \<lparr>body_raw = raw, body_spans = spans\<rparr>))"

text \<open>The loop of \<open>encode\<close> over the transactions.\<close>

fun encode_txs :: "bytes \<Rightarrow> bytes list \<Rightarrow> CodecError + bytes" where
  "encode_txs v [] = Inr v"
| "encode_txs v (tx # txs) =
     (if tx = [] \<or> length tx > MAX_TX_BYTES then Inl (BodyTxLen (length tx))
      else encode_txs (v @ to_le 4 (word_of_nat (length tx) :: u32) @ tx) txs)"

definition body_encode :: "bytes list \<Rightarrow> CodecError + bytes" where
  "body_encode txs =
     (if txs = [] \<or> length txs > MAX_TXS_PER_BLOCK then Inl (BodyTxCount (length txs))
      else and_then (encode_txs (to_le 4 (word_of_nat (length txs) :: u32)) txs) (\<lambda>v.
      if length v + HEADER_BYTES > MAX_BLOCK_BYTES then Inl (BodyTooLarge (length v))
      else Inr v))"

definition body_len :: "BlockBody \<Rightarrow> nat" where
  "body_len b = length (body_spans b)"

definition tx_bytes :: "BlockBody \<Rightarrow> nat \<Rightarrow> bytes option" where
  "tx_bytes b i =
     (if i < length (body_spans b)
      then Some (let (a, e) = body_spans b ! i in slice a e (body_raw b)) else None)"

definition body_decode_tx :: "BlockBody \<Rightarrow> nat \<Rightarrow> (CodecError + Tx) option" where
  "body_decode_tx b i = map_option decode_tx (tx_bytes b i)"

text \<open>The bytes of every transaction in order, which \<open>decode_all\<close> and \<open>leaves\<close> map over.\<close>

definition body_txs :: "BlockBody \<Rightarrow> bytes list" where
  "body_txs b = map (\<lambda>i. the (tx_bytes b i)) [0..<body_len b]"

fun collect :: "(CodecError + 'a) list \<Rightarrow> CodecError + 'a list" where
  "collect [] = Inr []"
| "collect (r # rs) = and_then r (\<lambda>x. and_then (collect rs) (\<lambda>xs. Inr (x # xs)))"

definition decode_all :: "BlockBody \<Rightarrow> CodecError + Tx list" where
  "decode_all b = collect (map decode_tx (body_txs b))"

lemma body_txs_spans: "body_txs b = map (\<lambda>(a, e). slice a e (body_raw b)) (body_spans b)"
  unfolding body_txs_def body_len_def
  by (rule nth_equalityI) (simp_all add: tx_bytes_def case_prod_beta)

text \<open>One record: its length and its bytes.\<close>

definition tx_record :: "bytes \<Rightarrow> bytes" where
  "tx_record tx = to_le 4 (word_of_nat (length tx) :: u32) @ tx"

definition tx_len_ok :: "bytes \<Rightarrow> bool" where
  "tx_len_ok tx \<longleftrightarrow> tx \<noteq> [] \<and> length tx \<le> MAX_TX_BYTES"

lemma encode_txs_Ok:
  "encode_txs v txs = Inr w \<longleftrightarrow> (\<forall>tx \<in> set txs. tx_len_ok tx) \<and> w = v @ concat (map tx_record txs)"
  by (induction v txs rule: encode_txs.induct) (auto simp: tx_len_ok_def tx_record_def)

lemma unat_u32_len: "n < 2 ^ 32 \<Longrightarrow> unat (word_of_nat n :: u32) = n"
  by (simp only: unat_of_nat) simp

lemma parse_spans_sound:
  "parse_spans raw n off spans = Inr (spans', off') \<Longrightarrow> off \<le> length raw \<Longrightarrow>
     \<exists>new. spans' = spans @ new \<and> length new = n \<and> off \<le> off' \<and> off' \<le> length raw \<and>
       (\<forall>(a, e) \<in> set new. tx_len_ok (slice a e raw)) \<and>
       slice off off' raw = concat (map (\<lambda>(a, e). tx_record (slice a e raw)) new)"
proof (induction raw n off spans arbitrary: spans' off' rule: parse_spans.induct)
  case (1 raw off spans)
  then show ?case by (auto simp: slice_def)
next
  case (2 raw n off spans)
  define len_end where "len_end = off + 4"
  define w where "w = (from_le (slice off len_end raw) :: u32)"
  define tx_end where "tx_end = len_end + unat w"
  have ok: "len_end \<le> length raw" "0 < unat w" "unat w \<le> 8192" "tx_end \<le> length raw"
    and rest: "parse_spans raw n tx_end (spans @ [(len_end, tx_end)]) = Inr (spans', off')"
    using "2.prems"(1) by (auto simp: Let_def len_end_def w_def tx_end_def split: if_splits)
  obtain new where new: "spans' = (spans @ [(len_end, tx_end)]) @ new" "length new = n" "tx_end \<le> off'"
    "off' \<le> length raw" "\<forall>(a, e) \<in> set new. tx_len_ok (slice a e raw)"
    "slice tx_end off' raw = concat (map (\<lambda>(a, e). tx_record (slice a e raw)) new)"
    using "2.IH" [OF refl _ refl _ refl _, of spans' off'] rest ok
    by (auto simp: len_end_def w_def tx_end_def)
  have lt: "length (slice len_end tx_end raw) = unat w" using ok by (simp add: tx_end_def)
  have "to_le 4 w = slice off len_end raw"
    unfolding w_def using ok(1) by (intro to_le_from_le_32) (simp add: len_end_def)
  then have rec: "tx_record (slice len_end tx_end raw) = slice off tx_end raw"
    unfolding tx_record_def lt by (simp add: slice_join len_end_def tx_end_def)
  have "tx_len_ok (slice len_end tx_end raw)"
    using lt ok by (auto simp: tx_len_ok_def simp flip: length_greater_0_conv simp del: length_slice)
  then show ?case
    using new rec ok
    by (intro exI [of _ "(len_end, tx_end) # new"])
       (simp add: slice_join len_end_def tx_end_def flip: new(6))
qed

lemma parse_spans_complete:
  "\<forall>tx \<in> set txs. tx_len_ok tx \<Longrightarrow>
     \<exists>new. parse_spans (pre @ concat (map tx_record txs)) (length txs) (length pre) spans =
        Inr (spans @ new, length pre + length (concat (map tx_record txs))) \<and>
      map (\<lambda>(a, e). slice a e (pre @ concat (map tx_record txs))) new = txs"
proof (induction txs arbitrary: pre spans)
  case Nil
  then show ?case by simp
next
  case (Cons tx txs)
  let ?rest = "concat (map tx_record txs)"
  let ?raw = "pre @ tx_record tx @ ?rest"
  have ok: "tx \<noteq> []" "length tx \<le> 8192" using Cons.prems by (simp_all add: tx_len_ok_def)
  have sl: "slice (length pre) (length pre + 4) ?raw = to_le 4 (word_of_nat (length tx) :: u32)"
    by (simp add: tx_record_def slice_concat)
  have tx: "slice (length pre + 4) (length pre + 4 + length tx) ?raw = tx"
    by (simp add: tx_record_def slice_concat)
  have u: "unat (from_le (slice (length pre) (length pre + 4) ?raw) :: u32) = length tx"
    unfolding sl using ok by (simp add: unat_u32_len)
  obtain new where new: "parse_spans ((pre @ tx_record tx) @ ?rest) (length txs) (length (pre @ tx_record tx))
        (spans @ [(length pre + 4, length pre + 4 + length tx)]) =
        Inr ((spans @ [(length pre + 4, length pre + 4 + length tx)]) @ new,
          length (pre @ tx_record tx) + length ?rest)"
      "map (\<lambda>(a, e). slice a e ((pre @ tx_record tx) @ ?rest)) new = txs"
    using Cons.IH [of "pre @ tx_record tx" "spans @ [(length pre + 4, length pre + 4 + length tx)]"] Cons.prems
    by auto
  have len: "length (tx_record tx) = 4 + length tx" by (simp add: tx_record_def)
  have "parse_spans ?raw (Suc (length txs)) (length pre) spans =
      parse_spans ?raw (length txs) (length pre + 4 + length tx) (spans @ [(length pre + 4, length pre + 4 + length tx)])"
    using ok u by (simp add: Let_def len)
  then show ?case
    using new tx len by (intro exI [of _ "(length pre + 4, length pre + 4 + length tx) # new"]) (simp add: ac_simps)
qed

lemma length_records: "\<forall>tx \<in> set txs. tx_len_ok tx \<Longrightarrow> 5 * length txs \<le> length (concat (map tx_record txs))"
  by (induction txs) (auto simp: tx_len_ok_def tx_record_def Suc_le_eq simp flip: length_greater_0_conv)

interpretation body: byte_codec body_encode "\<lambda>raw. map_sum id body_txs (body_parse raw)" "\<lambda>_. True"
proof
  fix txs raw
  assume e: "body_encode txs = Inr raw"
  then have n: "txs \<noteq> []" "length txs \<le> 4096"
    and ok: "\<forall>tx \<in> set txs. tx_len_ok tx"
    and raw: "raw = to_le 4 (word_of_nat (length txs) :: u32) @ concat (map tx_record txs)"
    and len: "length raw + 132 \<le> 1048576"
    by (auto simp: body_encode_def res_simps encode_txs_Ok split: if_splits)
  let ?pre = "to_le 4 (word_of_nat (length txs) :: u32)"
  obtain new where new: "parse_spans raw (length txs) 4 [] = Inr (new, length raw)"
      "map (\<lambda>(a, e). slice a e raw) new = txs"
    using parse_spans_complete [OF ok, of ?pre "[]"] by (auto simp: raw)
  have "unat (from_le (slice 0 4 raw) :: u32) = length txs"
    using n by (simp add: raw slice_concat unat_u32_len)
  moreover have "4 + length txs * 5 \<le> length raw" using length_records [OF ok] by (simp add: raw)
  ultimately have "body_parse raw = Inr \<lparr>body_raw = raw, body_spans = new\<rparr>"
    using n len new(1) by (simp add: body_parse_def Let_def)
  then show "map_sum id body_txs (body_parse raw) = Inr txs"
    using new(2) by (simp add: body_txs_spans)
next
  fix raw txs
  assume "map_sum id body_txs (body_parse raw) = Inr txs"
  then obtain b where b: "body_parse raw = Inr b" "txs = body_txs b"
    by (cases "body_parse raw") auto
  define w where "w = (from_le (slice 0 4 raw) :: u32)"
  have ok: "length raw + 132 \<le> 1048576" "4 \<le> length raw" "0 < unat w" "unat w \<le> 4096"
    and p: "parse_spans raw (unat w) 4 [] = Inr (body_spans b, length raw)" and br: "body_raw b = raw"
    using b(1) by (auto simp: body_parse_def Let_def res_simps w_def split: if_splits)
  have sp: "length (body_spans b) = unat w" "\<forall>(a, e) \<in> set (body_spans b). tx_len_ok (slice a e raw)"
    "slice 4 (length raw) raw = concat (map (\<lambda>(a, e). tx_record (slice a e raw)) (body_spans b))"
    using parse_spans_sound [OF p ok(2)] by auto
  have txs: "txs = map (\<lambda>(a, e). slice a e raw) (body_spans b)"
    by (simp add: b(2) body_txs_spans br)
  have c: "concat (map tx_record txs) = slice 4 (length raw) raw"
    unfolding sp(3) txs by (simp add: comp_def split_def)
  have "to_le 4 w = slice 0 4 raw" unfolding w_def using ok(2) by (intro to_le_from_le_32) simp
  moreover have lw: "length txs = unat w" by (simp add: txs sp(1))
  ultimately have "to_le 4 (word_of_nat (length txs) :: u32) @ concat (map tx_record txs) = raw"
    unfolding c lw using ok(2) by (simp add: slice_join slice_all)
  moreover have "\<forall>tx \<in> set txs. tx_len_ok tx" using sp(2) by (auto simp: txs)
  moreover have "txs \<noteq> []" "length txs \<le> 4096" using sp(1) ok by (auto simp: txs)
  ultimately show "True \<and> body_encode txs = Inr raw"
    using ok(1) encode_txs_Ok [of "to_le 4 (word_of_nat (length txs) :: u32)" txs raw]
    by (simp add: body_encode_def)
qed

section \<open>Canonical bytes\<close>

text \<open>A byte string is a transaction exactly when it is the encoding of that transaction:
  every accepted string is canonical, and every transaction that can be encoded is decoded back.\<close>

theorem decode_tx_canonical: "decode_tx b = Inr t \<longleftrightarrow> tx_ok t \<and> tx_encode t = Inr b"
  by (rule tx.dec_iff)

text \<open>A block body parses into a list of transactions exactly when it is the encoding of that
  list, within the limits on their count, their sizes and the size of the block.\<close>

theorem body_canonical: "map_sum id body_txs (body_parse raw) = Inr txs \<longleftrightarrow> body_encode txs = Inr raw"
  using body.dec_iff [of raw txs] by simp

text \<open>Headers and their 132 bytes are in bijection.\<close>

theorem header_canonical: "header_decode b = Inr h \<longleftrightarrow> header_ok h \<and> header_encode h = b"
  using header.dec_iff [of b h] by simp

lemma header_encode_inj: "header_ok h \<Longrightarrow> header_ok h' \<Longrightarrow> header_encode h = header_encode h' \<Longrightarrow> h = h'"
  using header.enc_inj by blast

end
