(* ===== verification/Crypto.thy ===== *)
theory Crypto imports Codec Blake3 begin

text \<open>
  \<open>lib/consensus/src/crypto.rs\<close> and \<open>pow.rs\<close>: the tagged hashes behind identifiers, signatures
  and Merkle nodes, as the sequences of \<open>update\<close> calls of the source. Ed25519 is not part of the
  repository: \<open>vk_from_bytes\<close> and \<open>verify_strict\<close> are parameters. The lemmas give the preimage of
  every hash (through the \<open>streaming_hash\<close> contract), and show that preimages determine the
  fields they are built from and that no two kinds of hash share a preimage.
\<close>

datatype SigError = InvalidPubkey | InvalidSignature

abbreviation feed :: "bytes \<Rightarrow> Hasher \<Rightarrow> Hasher" where
  "feed x h \<equiv> hasher_update h x"

definition header_hash :: "bytes \<Rightarrow> bytes" where
  "header_hash header_bytes = blake3_hash header_bytes"

definition txid :: "bytes \<Rightarrow> bytes" where
  "txid canonical_unsigned = finalize (feed canonical_unsigned (feed DOMAIN_TXID hasher_new))"

definition signing_message_with_chain_id ::
  "bytes \<Rightarrow> bytes \<Rightarrow> bytes \<Rightarrow> u128 \<Rightarrow> u128 \<Rightarrow> u64 \<Rightarrow> bytes" where
  "signing_message_with_chain_id cid from_pub to amount fee nonce =
     (let h = hasher_new;
          h = feed DOMAIN_TX_SIGN h;
          h = feed cid h;
          h = feed from_pub h;
          h = feed to h;
          h = feed (to_le 16 amount) h;
          h = feed (to_le 16 fee) h;
          h = feed (to_le 8 nonce) h
      in finalize h)"

definition signing_message :: "Network \<Rightarrow> bytes \<Rightarrow> bytes \<Rightarrow> u128 \<Rightarrow> u128 \<Rightarrow> u64 \<Rightarrow> bytes" where
  "signing_message network from_pub to amount fee nonce =
     signing_message_with_chain_id (chain_id network) from_pub to amount fee nonce"

definition transfer_signing_message :: "Network \<Rightarrow> TransferTx \<Rightarrow> bytes" where
  "transfer_signing_message network t =
     signing_message network (tr_from_pub t) (tr_to t) (tr_amount t) (tr_fee t) (tr_nonce t)"

definition merkle_leaf :: "bytes \<Rightarrow> bytes" where
  "merkle_leaf tx = finalize (feed tx (feed DOMAIN_MERKLE_LEAF hasher_new))"

definition merkle_node :: "bytes \<Rightarrow> bytes \<Rightarrow> bool \<Rightarrow> bytes" where
  "merkle_node left right duplicated =
     (let h = hasher_new;
          h = feed DOMAIN_MERKLE_NODE h;
          h = feed [if duplicated then MERKLE_FLAG_DUP else MERKLE_FLAG_PAIR] h;
          h = feed left h;
          h = feed right h
      in finalize h)"

definition announcement_signing_message_explicit_length ::
  "bytes \<Rightarrow> bytes \<Rightarrow> u128 \<Rightarrow> u64 \<Rightarrow> u8 \<Rightarrow> u16 \<Rightarrow> bytes \<Rightarrow> bytes" where
  "announcement_signing_message_explicit_length cid from_pub fee nonce encoding len payload =
     (let h = hasher_new;
          h = feed DOMAIN_NOTE_SIGN h;
          h = feed cid h;
          h = feed from_pub h;
          h = feed (to_le 16 fee) h;
          h = feed (to_le 8 nonce) h;
          h = feed [encoding] h;
          h = feed (to_le 2 len) h;
          h = feed payload h
      in finalize h)"

definition announcement_signing_message_with_chain_id ::
  "bytes \<Rightarrow> bytes \<Rightarrow> u128 \<Rightarrow> u64 \<Rightarrow> u8 \<Rightarrow> bytes \<Rightarrow> CodecError + bytes" where
  "announcement_signing_message_with_chain_id cid from_pub fee nonce encoding payload =
     (let len = length payload
      in if \<not> (ANNOUNCEMENT_MIN_PAYLOAD_BYTES \<le> len \<and> len \<le> ANNOUNCEMENT_MAX_PAYLOAD_BYTES)
         then Inl (AnnouncementLength len)
         else Inr (announcement_signing_message_explicit_length cid from_pub fee nonce encoding
                     (word_of_nat len) payload))"

definition announcement_signing_message ::
  "Network \<Rightarrow> bytes \<Rightarrow> u128 \<Rightarrow> u64 \<Rightarrow> u8 \<Rightarrow> bytes \<Rightarrow> CodecError + bytes" where
  "announcement_signing_message network from_pub fee nonce encoding payload =
     announcement_signing_message_with_chain_id (chain_id network) from_pub fee nonce encoding payload"

definition announcement_message_of :: "Network \<Rightarrow> AnnouncementTx \<Rightarrow> CodecError + bytes" where
  "announcement_message_of network a =
     announcement_signing_message network (an_from_pub a) (an_fee a) (an_nonce a) (an_encoding a) (an_payload a)"

definition verify_signature ::
  "(bytes \<Rightarrow> 'vk option) \<Rightarrow> ('vk \<Rightarrow> bytes \<Rightarrow> bytes \<Rightarrow> bool) \<Rightarrow> bytes \<Rightarrow> bytes \<Rightarrow> bytes \<Rightarrow> SigError + unit" where
  "verify_signature vk_from_bytes verify_strict pubkey message sig =
     and_then (ok_or InvalidPubkey (vk_from_bytes pubkey)) (\<lambda>vk.
     if verify_strict vk message sig then Inr () else Inl InvalidSignature)"

definition verify_transfer_signature ::
  "(bytes \<Rightarrow> 'vk option) \<Rightarrow> ('vk \<Rightarrow> bytes \<Rightarrow> bytes \<Rightarrow> bool) \<Rightarrow> Network \<Rightarrow> TransferTx \<Rightarrow> SigError + unit" where
  "verify_transfer_signature vk_from_bytes verify_strict network t =
     verify_signature vk_from_bytes verify_strict (tr_from_pub t) (transfer_signing_message network t) (tr_sig t)"

definition verify_announcement_signature ::
  "(bytes \<Rightarrow> 'vk option) \<Rightarrow> ('vk \<Rightarrow> bytes \<Rightarrow> bytes \<Rightarrow> bool) \<Rightarrow> Network \<Rightarrow> AnnouncementTx \<Rightarrow> SigError + unit" where
  "verify_announcement_signature vk_from_bytes verify_strict network a =
     and_then (map_err (\<lambda>_. InvalidSignature) (announcement_message_of network a)) (\<lambda>msg.
     verify_signature vk_from_bytes verify_strict (an_from_pub a) msg (an_sig a))"

definition address_payload :: "bytes \<Rightarrow> bytes" where
  "address_payload pubkey = take ADDRESS_PAYLOAD_BYTES (blake3_hash pubkey)"

definition header_id :: "Header \<Rightarrow> bytes" where
  "header_id h = header_hash (header_encode h)"

definition transfer_txid :: "TransferTx \<Rightarrow> bytes" where
  "transfer_txid t = txid (transfer_encode_unsigned t)"

definition announcement_txid :: "AnnouncementTx \<Rightarrow> CodecError + bytes" where
  "announcement_txid a = and_then (announcement_encode_unsigned a) (\<lambda>v. Inr (txid v))"

definition coinbase_txid :: "CoinbaseTx \<Rightarrow> CodecError + bytes" where
  "coinbase_txid c = and_then (coinbase_encode c) (\<lambda>v. Inr (txid v))"

section \<open>Proof of work\<close>

text \<open>\<open>PLNE-pow-seed\<close> and \<open>PLNE-pow-final\<close>.\<close>

definition DOMAIN_POW_SEED :: bytes where
  "DOMAIN_POW_SEED = [0x50, 0x4C, 0x4E, 0x45, 0x2D, 0x70, 0x6F, 0x77, 0x2D, 0x73, 0x65, 0x65, 0x64]"
definition DOMAIN_POW_FINAL :: bytes where
  "DOMAIN_POW_FINAL = [0x50, 0x4C, 0x4E, 0x45, 0x2D, 0x70, 0x6F, 0x77, 0x2D, 0x66, 0x69, 0x6E, 0x61, 0x6C]"

definition pow_seed :: "bytes \<Rightarrow> u64" where
  "pow_seed header =
     (let d = finalize (feed header (feed DOMAIN_POW_SEED hasher_new)) in from_le (slice 0 8 d))"

definition pow_hash :: "bytes \<Rightarrow> u64 \<Rightarrow> bytes" where
  "pow_hash header isochron_digest =
     finalize (feed (to_le 8 isochron_digest) (feed header (feed DOMAIN_POW_FINAL hasher_new)))"

section \<open>Preimages\<close>

lemma hash_updates:
  "finalize (fold feed xs hasher_new) = blake3_hash (concat xs)"
  using b3.hash_pieces [of xs] by (simp add: blake3_hash_def)

lemma feed_hash: "finalize (hasher_update hasher_new x) = blake3_hash x"
  by (simp add: blake3_hash_def)

lemma feed_feed: "feed y (hasher_update hasher_new x) = hasher_update hasher_new (x @ y)"
  by (simp add: b3.update_append)

definition transfer_preimage :: "Network \<Rightarrow> TransferTx \<Rightarrow> bytes" where
  "transfer_preimage n t = DOMAIN_TX_SIGN @ chain_id n @ tr_from_pub t @ tr_to t @
     to_le 16 (tr_amount t) @ to_le 16 (tr_fee t) @ to_le 8 (tr_nonce t)"

definition announcement_preimage :: "Network \<Rightarrow> AnnouncementTx \<Rightarrow> bytes" where
  "announcement_preimage n a = DOMAIN_NOTE_SIGN @ chain_id n @ an_from_pub a @ to_le 16 (an_fee a) @
     to_le 8 (an_nonce a) @ [an_encoding a] @ to_le 2 (word_of_nat (length (an_payload a)) :: u16) @ an_payload a"

definition leaf_preimage :: "bytes \<Rightarrow> bytes" where
  "leaf_preimage tx = DOMAIN_MERKLE_LEAF @ tx"

definition node_preimage :: "bool \<Rightarrow> bytes \<Rightarrow> bytes \<Rightarrow> bytes" where
  "node_preimage dup l r = DOMAIN_MERKLE_NODE @ [if dup then MERKLE_FLAG_DUP else MERKLE_FLAG_PAIR] @ l @ r"

definition txid_preimage :: "bytes \<Rightarrow> bytes" where
  "txid_preimage b = DOMAIN_TXID @ b"

lemmas feed_simps = feed_feed feed_hash Let_def

lemma transfer_message_hash: "transfer_signing_message n t = blake3_hash (transfer_preimage n t)"
  by (simp add: transfer_signing_message_def signing_message_def signing_message_with_chain_id_def
      transfer_preimage_def feed_simps)

lemma announcement_message_hash:
  "announcement_message_of n a =
     (if 1 \<le> length (an_payload a) \<and> length (an_payload a) \<le> 1024
      then Inr (blake3_hash (announcement_preimage n a)) else Inl (AnnouncementLength (length (an_payload a))))"
  by (simp add: announcement_message_of_def announcement_signing_message_def
      announcement_signing_message_with_chain_id_def announcement_signing_message_explicit_length_def
      announcement_preimage_def feed_simps)

lemma merkle_leaf_hash: "merkle_leaf tx = blake3_hash (leaf_preimage tx)"
  by (simp add: merkle_leaf_def leaf_preimage_def feed_simps)

lemma merkle_node_hash: "merkle_node l r dup = blake3_hash (node_preimage dup l r)"
  by (simp add: merkle_node_def node_preimage_def feed_simps)

lemma txid_hash: "txid b = blake3_hash (txid_preimage b)"
  by (simp add: txid_def txid_preimage_def feed_simps)

lemmas domain_defs = DOMAIN_TX_SIGN_def DOMAIN_NOTE_SIGN_def DOMAIN_TXID_def DOMAIN_MERKLE_LEAF_def
  DOMAIN_MERKLE_NODE_def

lemma leaf_node_differ: "leaf_preimage x \<noteq> node_preimage d l r"
  by (simp add: leaf_preimage_def node_preimage_def domain_defs)

lemma node_preimage_eq:
  "length l = length l' \<Longrightarrow> node_preimage d l r = node_preimage d' l' r' \<longleftrightarrow> d = d' \<and> l = l' \<and> r = r'"
  by (auto simp: node_preimage_def)

lemma leaf_preimage_eq: "leaf_preimage x = leaf_preimage y \<longleftrightarrow> x = y"
  by (simp add: leaf_preimage_def)

text \<open>What a transfer signs determines everything but the signature: two well-formed transfers
  with the same signed preimage agree in every field, and the message is its BLAKE3 hash. The same
  holds of announcements, and no transfer shares its preimage with an announcement.\<close>

theorem signed_preimages:
  assumes "transfer_ok t" "transfer_ok t'" "announcement_ok a" "announcement_ok a'"
  shows "transfer_signing_message n t = blake3_hash (transfer_preimage n t) \<and>
    (transfer_preimage n t = transfer_preimage n t' \<longleftrightarrow> t\<lparr>tr_sig := tr_sig t'\<rparr> = t') \<and>
    (announcement_preimage n a = announcement_preimage n a' \<longleftrightarrow> a\<lparr>an_sig := an_sig a'\<rparr> = a') \<and>
    transfer_preimage n t \<noteq> announcement_preimage n a"
proof (intro conjI)
  show "transfer_signing_message n t = blake3_hash (transfer_preimage n t)"
    by (rule transfer_message_hash)
  show "transfer_preimage n t = transfer_preimage n t' \<longleftrightarrow> t\<lparr>tr_sig := tr_sig t'\<rparr> = t'"
    using assms(1,2) by (cases t; cases t') (auto simp: transfer_preimage_def transfer_ok_def)
  show "announcement_preimage n a = announcement_preimage n a' \<longleftrightarrow> a\<lparr>an_sig := an_sig a'\<rparr> = a'"
    using assms(3,4) by (cases a; cases a') (auto simp: announcement_preimage_def announcement_ok_def)
  show "transfer_preimage n t \<noteq> announcement_preimage n a"
    by (simp add: transfer_preimage_def announcement_preimage_def domain_defs)
qed

theorem signed_preimages_witness:
  "transfer_signing_message Main \<lparr>tr_from_pub = replicate 32 1, tr_to = replicate 20 2, tr_amount = 5,
       tr_fee = 1, tr_nonce = 0, tr_sig = replicate 64 3\<rparr> =
     blake3_hash (transfer_preimage Main \<lparr>tr_from_pub = replicate 32 1, tr_to = replicate 20 2, tr_amount = 5,
       tr_fee = 1, tr_nonce = 0, tr_sig = replicate 64 3\<rparr>)"
  by (rule signed_preimages [THEN conjunct1, of _ "\<lparr>tr_from_pub = replicate 32 1, tr_to = replicate 20 2, tr_amount = 5,
       tr_fee = 1, tr_nonce = 0, tr_sig = replicate 64 3\<rparr>" "\<lparr>an_from_pub = replicate 32 1, an_fee = 1, an_nonce = 0,
       an_encoding = 0, an_payload = [1], an_sig = replicate 64 3\<rparr>" "\<lparr>an_from_pub = replicate 32 1, an_fee = 1,
       an_nonce = 0, an_encoding = 0, an_payload = [1], an_sig = replicate 64 3\<rparr>"])
     (simp_all add: transfer_ok_def announcement_ok_def)

end
