(* ===== verification/Merkle.thy ===== *)
theory Merkle imports Crypto begin

text \<open>
  \<open>lib/consensus/src/merkle.rs\<close>: the Merkle root of a block's transactions and its inclusion
  proofs. The lemmas show that every generated proof verifies, that two different lists of
  transactions with the same root contain a BLAKE3 collision among the strings hashed to
  compute the two roots (so that the duplication of an odd last node can not be abused), and
  that a proof that verifies for a transaction outside the block contains one too, whatever its
  unauthenticated \<open>tx_count\<close> says.
\<close>

definition leaf_hash :: "bytes \<Rightarrow> bytes" where
  "leaf_hash tx = merkle_leaf tx"

definition node_hash :: "bytes \<Rightarrow> bytes \<Rightarrow> bool \<Rightarrow> bytes" where
  "node_hash left right duplicated = merkle_node left right duplicated"

text \<open>One pass of the loop: pairs, and the odd leaf out paired with itself.\<close>

fun next_level :: "bytes list \<Rightarrow> bytes list" where
  "next_level (a # b # rest) = node_hash a b False # next_level rest"
| "next_level [a] = [node_hash a a True]"
| "next_level [] = []"

lemma length_next_level [simp]: "length (next_level xs) = (length xs + 1) div 2"
  by (induction xs rule: next_level.induct) simp_all

function root_loop :: "bytes list \<Rightarrow> bytes list" where
  "root_loop xs = (if length xs > 1 then root_loop (next_level xs) else xs)"
  by pat_completeness auto
termination by (relation "measure length") auto

declare root_loop.simps [simp del]

definition merkle_root :: "bytes list \<Rightarrow> bytes" where
  "merkle_root leaves = (if leaves = [] then TX_ROOT_EMPTY else root_loop leaves ! 0)"

definition tx_root :: "bytes list \<Rightarrow> bytes" where
  "tx_root txs = merkle_root (map leaf_hash txs)"

record MerkleProof =
  mp_index :: u32
  mp_tx_count :: u32
  mp_siblings :: "bytes list"

text \<open>The loop of \<open>merkle_proof\<close>: the siblings from a level and an index up.\<close>

function proof_loop :: "bytes list \<Rightarrow> nat \<Rightarrow> bytes list \<Rightarrow> bytes list" where
  "proof_loop xs idx siblings =
     (if length xs > 1
      then let is_odd_last = idx = length xs - 1 \<and> length xs mod 2 = 1;
               siblings = (if \<not> is_odd_last
                           then siblings @ [xs ! (if idx mod 2 = 0 then idx + 1 else idx - 1)]
                           else siblings)
           in proof_loop (next_level xs) (idx div 2) siblings
      else siblings)"
  by pat_completeness auto
termination by (relation "measure (\<lambda>(xs, idx, s). length xs)") auto

declare proof_loop.simps [simp del]

definition merkle_proof :: "bytes list \<Rightarrow> nat \<Rightarrow> MerkleProof option" where
  "merkle_proof leaves index =
     (if leaves = [] \<or> length leaves \<le> index \<or> 2 ^ 32 - 1 < length leaves then None
      else Some \<lparr>mp_index = word_of_nat index, mp_tx_count = word_of_nat (length leaves),
                 mp_siblings = proof_loop leaves index []\<rparr>)"

text \<open>The loop of \<open>verify_merkle_proof\<close>; \<open>None\<close> is the early \<open>return false\<close> on a missing sibling.\<close>

function verify_loop :: "bytes list \<Rightarrow> bytes \<Rightarrow> nat \<Rightarrow> nat \<Rightarrow> nat \<Rightarrow> (bytes \<times> nat) option" where
  "verify_loop siblings h idx width used =
     (if width > 1
      then if idx = width - 1 \<and> width mod 2 = 1
           then verify_loop siblings (node_hash h h True) (idx div 2) ((width + 1) div 2) used
           else if used < length siblings
           then let sib = siblings ! used;
                    h = (if idx mod 2 = 0 then node_hash h sib False else node_hash sib h False)
                in verify_loop siblings h (idx div 2) ((width + 1) div 2) (used + 1)
           else None
      else Some (h, used))"
  by pat_completeness auto
termination by (relation "measure (\<lambda>(s, h, idx, width, used). width)") auto

declare verify_loop.simps [simp del]

definition verify_merkle_proof :: "bytes \<Rightarrow> MerkleProof \<Rightarrow> bytes \<Rightarrow> bool" where
  "verify_merkle_proof leaf prf root =
     (if mp_tx_count prf = 0 \<or> mp_tx_count prf \<le> mp_index prf then False
      else if length (mp_siblings prf) > MERKLE_MAX_DEPTH then False
      else (case verify_loop (mp_siblings prf) leaf (unat (mp_index prf)) (unat (mp_tx_count prf)) 0 of
              None \<Rightarrow> False
            | Some (h, used) \<Rightarrow> used = length (mp_siblings prf) \<and> h = root))"

definition body_leaves :: "BlockBody \<Rightarrow> bytes list" where
  "body_leaves b = map merkle_leaf (body_txs b)"

definition body_tx_root :: "BlockBody \<Rightarrow> bytes" where
  "body_tx_root b = merkle_root (body_leaves b)"

lemma body_tx_root_txs: "body_tx_root b = tx_root (body_txs b)"
  by (simp add: body_tx_root_def body_leaves_def tx_root_def leaf_hash_def [abs_def])

lemma length_node_hash [simp]: "length (node_hash a b d) = 32"
  by (simp add: node_hash_def merkle_node_hash)

lemma length_leaf_hash [simp]: "length (leaf_hash t) = 32"
  by (simp add: leaf_hash_def merkle_leaf_hash)

section \<open>Generated proofs verify\<close>

lemma next_level_nth:
  "i < length (next_level xs) \<Longrightarrow> next_level xs ! i =
     (if 2 * i + 1 < length xs then node_hash (xs ! (2 * i)) (xs ! (2 * i + 1)) False
      else node_hash (xs ! (2 * i)) (xs ! (2 * i)) True)"
proof (induction xs arbitrary: i rule: next_level.induct)
  case (1 a b rest)
  then show ?case by (cases i) auto
qed auto

lemma next_level_up:
  assumes "idx < length xs" "1 < length xs"
  shows "next_level xs ! (idx div 2) =
    (if idx = length xs - 1 \<and> length xs mod 2 = 1 then node_hash (xs ! idx) (xs ! idx) True
     else if idx mod 2 = 0 then node_hash (xs ! idx) (xs ! (idx + 1)) False
     else node_hash (xs ! (idx - 1)) (xs ! idx) False)"
proof -
  have i: "idx div 2 < length (next_level xs)" using assms by simp
  show ?thesis
  proof (cases "idx mod 2 = 0")
    case True
    then have e: "2 * (idx div 2) = idx" by presburger
    have "2 * (idx div 2) + 1 < length xs \<longleftrightarrow> \<not> (idx = length xs - 1 \<and> length xs mod 2 = 1)"
      using True assms unfolding e by presburger
    then show ?thesis using next_level_nth [OF i] True unfolding e by simp
  next
    case False
    then have e: "2 * (idx div 2) = idx - 1" "idx - 1 + 1 = idx" by presburger+
    have "\<not> (idx = length xs - 1 \<and> length xs mod 2 = 1)" using False assms by presburger
    then show ?thesis using next_level_nth [OF i] False assms unfolding e by (auto simp: odd_iff_mod_2_eq_one)
  qed
qed

lemma proof_loop_append: "\<exists>new. proof_loop xs idx sibs = sibs @ new"
proof (induction xs idx sibs rule: proof_loop.induct)
  case (1 xs idx sibs)
  show ?case
  proof (cases "length xs > 1")
    case True
    then show ?thesis
      using "1.IH" [OF True refl refl] by (subst proof_loop.simps) (auto simp: Let_def)
  next
    case False
    then show ?thesis by (subst proof_loop.simps) simp
  qed
qed

lemma proof_loop_length: "length xs \<le> 2 ^ d \<Longrightarrow> length (proof_loop xs idx sibs) \<le> length sibs + d"
proof (induction d arbitrary: xs idx sibs)
  case 0
  then show ?case by (subst proof_loop.simps) simp
next
  case (Suc d)
  then have "length (next_level xs) \<le> 2 ^ d" by simp
  note IH = Suc.IH [OF this, of "idx div 2"]
  have "length (proof_loop (next_level xs) (idx div 2) (sibs @ [s])) \<le> length sibs + Suc d" for s
    using IH [of "sibs @ [s]"] by simp
  moreover have "length (proof_loop (next_level xs) (idx div 2) sibs) \<le> length sibs + Suc d"
    using IH [of sibs] by simp
  ultimately show ?case by (subst proof_loop.simps) (auto simp: Let_def)
qed

lemma verify_loop_odd:
  "width > 1 \<Longrightarrow> idx = width - 1 \<and> width mod 2 = 1 \<Longrightarrow>
   verify_loop siblings h idx width used =
     verify_loop siblings (node_hash h h True) (idx div 2) ((width + 1) div 2) used"
  by (subst verify_loop.simps) simp

lemma verify_loop_pair:
  "width > 1 \<Longrightarrow> \<not> (idx = width - 1 \<and> width mod 2 = 1) \<Longrightarrow>
   verify_loop siblings h idx width used =
     (if used < length siblings
      then verify_loop siblings
        (if idx mod 2 = 0 then node_hash h (siblings ! used) False else node_hash (siblings ! used) h False)
        (idx div 2) ((width + 1) div 2) (used + 1)
      else None)"
  by (subst verify_loop.simps) (simp only: if_True if_False Let_def)

lemma verify_proof_loop:
  assumes "idx < length xs" "proof_loop xs idx sibs = full"
  shows "verify_loop full (xs ! idx) idx (length xs) (length sibs) = Some (root_loop xs ! 0, length full)"
  using assms
proof (induction "length xs" arbitrary: xs idx sibs rule: less_induct)
  case less
  show ?case
  proof (cases "length xs > 1")
    case False
    then have "idx = 0" "full = sibs" using less.prems by (auto simp: proof_loop.simps)
    then show ?thesis
      using False by (simp add: verify_loop.simps [of _ _ _ "length xs"] root_loop.simps [of xs])
  next
    case True
    define odd_last where "odd_last \<longleftrightarrow> idx = length xs - 1 \<and> length xs mod 2 = 1"
    define sib where "sib = xs ! (if idx mod 2 = 0 then idx + 1 else idx - 1)"
    define sibs' where "sibs' = (if \<not> odd_last then sibs @ [sib] else sibs)"
    have full: "proof_loop (next_level xs) (idx div 2) sibs' = full"
      using less.prems(2) True
      by (subst (asm) proof_loop.simps)
         (simp only: if_True Let_def odd_last_def [symmetric] sib_def [symmetric] sibs'_def [symmetric])
    then obtain new where new: "full = sibs' @ new" using proof_loop_append by metis
    have IH: "verify_loop full (next_level xs ! (idx div 2)) (idx div 2) (length (next_level xs)) (length sibs') =
        Some (root_loop (next_level xs) ! 0, length full)"
      using less.hyps [OF _ _ full] less.prems(1) True by simp
    have root: "root_loop xs = root_loop (next_level xs)"
      using True by (subst root_loop.simps) simp
    have up: "next_level xs ! (idx div 2) =
        (if odd_last then node_hash (xs ! idx) (xs ! idx) True
         else if idx mod 2 = 0 then node_hash (xs ! idx) sib False else node_hash sib (xs ! idx) False)"
      using next_level_up [OF less.prems(1) True] by (simp add: odd_last_def sib_def)
    show ?thesis
    proof (cases odd_last)
      case o: True
      have "verify_loop full (xs ! idx) idx (length xs) (length sibs) =
          verify_loop full (node_hash (xs ! idx) (xs ! idx) True) (idx div 2) ((length xs + 1) div 2) (length sibs)"
        using o by (intro verify_loop_odd True) (simp add: odd_last_def)
      then show ?thesis using IH up o by (simp add: root sibs'_def)
    next
      case o: False
      have s: "full ! length sibs = sib" "length sibs < length full"
        using o new by (simp_all add: sibs'_def nth_append)
      have "verify_loop full (xs ! idx) idx (length xs) (length sibs) =
          verify_loop full (if idx mod 2 = 0 then node_hash (xs ! idx) sib False else node_hash sib (xs ! idx) False)
            (idx div 2) ((length xs + 1) div 2) (length sibs + 1)"
        using verify_loop_pair [OF True, of idx full "xs ! idx" "length sibs"] o s
        by (simp only: odd_last_def if_True simp_thms)
      then show ?thesis using IH up o by (simp add: root sibs'_def)
    qed
  qed
qed

text \<open>For every transaction of a block of at most 4096, the proof the code generates is
  accepted against the block's Merkle root.\<close>

theorem merkle_proof_verifies:
  assumes "i < length txs" "length txs \<le> MAX_TXS_PER_BLOCK"
  shows "\<exists>prf. merkle_proof (map leaf_hash txs) i = Some prf \<and>
    verify_merkle_proof (leaf_hash (txs ! i)) prf (tx_root txs)"
proof -
  let ?xs = "map leaf_hash txs"
  define full where "full = proof_loop ?xs i []"
  have ne: "?xs \<noteq> []" using assms(1) by auto
  have u: "unat (word_of_nat i :: u32) = i" "unat (word_of_nat (length txs) :: u32) = length txs"
    using assms by (auto intro!: unat_u32_len)
  have "length full \<le> MERKLE_MAX_DEPTH"
    using proof_loop_length [of ?xs MERKLE_MAX_DEPTH i "[]"] assms(2) by (simp add: full_def)
  moreover have "verify_loop full (?xs ! i) i (length ?xs) 0 = Some (root_loop ?xs ! 0, length full)"
    using verify_proof_loop [of i ?xs "[]" full] assms(1) by (simp add: full_def)
  ultimately have "verify_merkle_proof (leaf_hash (txs ! i))
      \<lparr>mp_index = word_of_nat i, mp_tx_count = word_of_nat (length txs), mp_siblings = full\<rparr> (tx_root txs)"
    using assms u ne
    by (simp add: verify_merkle_proof_def tx_root_def merkle_root_def word_le_nat_alt
        word_unat_eq_iff)
  then show ?thesis using assms ne by (simp add: merkle_proof_def full_def)
qed

theorem merkle_proof_verifies_witness:
  "\<exists>prf. merkle_proof (map leaf_hash [[1], [2], [3]]) 2 = Some prf \<and>
    verify_merkle_proof (leaf_hash ([[1], [2], [3]] ! 2)) prf (tx_root [[1], [2], [3]])"
  by (rule merkle_proof_verifies) simp_all

section \<open>The root binds the transactions\<close>

text \<open>
  The strings hashed to compute a root, level by level, and the tree they form. A node whose
  flag says that it is the odd one out carries the same tree twice.
\<close>

fun next_preimages :: "bytes list \<Rightarrow> bytes set" where
  "next_preimages (a # b # rest) = insert (node_preimage False a b) (next_preimages rest)"
| "next_preimages [a] = {node_preimage True a a}"
| "next_preimages [] = {}"

function root_preimages :: "bytes list \<Rightarrow> bytes set" where
  "root_preimages xs = (if length xs > 1 then next_preimages xs \<union> root_preimages (next_level xs) else {})"
  by pat_completeness auto
termination by (relation "measure length") auto

declare root_preimages.simps [simp del]

definition tx_root_preimages :: "bytes list \<Rightarrow> bytes set" where
  "tx_root_preimages txs = leaf_preimage ` set txs \<union> root_preimages (map leaf_hash txs)"

datatype mtree = MLeaf bytes | MNode bool mtree mtree

fun mhash :: "mtree \<Rightarrow> bytes" where
  "mhash (MLeaf tx) = leaf_hash tx"
| "mhash (MNode d l r) = node_hash (mhash l) (mhash r) d"

fun mpre :: "mtree \<Rightarrow> bytes set" where
  "mpre (MLeaf tx) = {leaf_preimage tx}"
| "mpre (MNode d l r) = insert (node_preimage d (mhash l) (mhash r)) (mpre l \<union> mpre r)"

fun fringe :: "mtree \<Rightarrow> bytes list" where
  "fringe (MLeaf tx) = [tx]"
| "fringe (MNode d l r) = fringe l @ (if d then [] else fringe r)"

fun subtrees :: "mtree \<Rightarrow> mtree set" where
  "subtrees (MLeaf tx) = {MLeaf tx}"
| "subtrees (MNode d l r) = insert (MNode d l r) (subtrees l \<union> subtrees r)"

fun tree_level :: "mtree list \<Rightarrow> mtree list" where
  "tree_level (a # b # rest) = MNode False a b # tree_level rest"
| "tree_level [a] = [MNode True a a]"
| "tree_level [] = []"

lemma length_tree_level [simp]: "length (tree_level ts) = (length ts + 1) div 2"
  by (induction ts rule: tree_level.induct) simp_all

function tree_root :: "mtree list \<Rightarrow> mtree" where
  "tree_root ts = (if length ts > 1 then tree_root (tree_level ts) else ts ! 0)"
  by pat_completeness auto
termination by (relation "measure length") auto

declare tree_root.simps [simp del]

lemma mhash_level: "map mhash (tree_level ts) = next_level (map mhash ts)"
  by (induction ts rule: tree_level.induct) simp_all

lemma fringe_level: "concat (map fringe (tree_level ts)) = concat (map fringe ts)"
  by (induction ts rule: tree_level.induct) simp_all

lemma mpre_level: "\<Union> (mpre ` set (tree_level ts)) = \<Union> (mpre ` set ts) \<union> next_preimages (map mhash ts)"
  by (induction ts rule: tree_level.induct) auto

lemma leaves_level:
  "{x. \<exists>t\<in>set (tree_level ts). MLeaf x \<in> subtrees t} = {x. \<exists>t\<in>set ts. MLeaf x \<in> subtrees t}"
  by (induction ts rule: tree_level.induct) auto

lemma tree_root_facts:
  "ts \<noteq> [] \<Longrightarrow> mhash (tree_root ts) = root_loop (map mhash ts) ! 0 \<and>
     fringe (tree_root ts) = concat (map fringe ts) \<and>
     mpre (tree_root ts) \<subseteq> \<Union> (mpre ` set ts) \<union> root_preimages (map mhash ts) \<and>
     {x. MLeaf x \<in> subtrees (tree_root ts)} = {x. \<exists>t\<in>set ts. MLeaf x \<in> subtrees t}"
proof (induction ts rule: tree_root.induct)
  case (1 ts)
  consider (one) t where "ts = [t]" | (more) "length ts > 1"
    using "1.prems" by (cases ts; cases "tl ts") auto
  then show ?case
  proof cases
    case one
    then show ?thesis by (simp add: tree_root.simps [of "[t]"] root_loop.simps)
  next
    case more
    then have ne: "tree_level ts \<noteq> []" by (cases ts rule: tree_level.cases) auto
    have t: "tree_root ts = tree_root (tree_level ts)"
        "root_loop (map mhash ts) = root_loop (map mhash (tree_level ts))"
        "root_preimages (map mhash ts) = next_preimages (map mhash ts) \<union> root_preimages (map mhash (tree_level ts))"
      using more by (simp_all add: tree_root.simps [of ts] root_loop.simps [of "map mhash ts"]
          root_preimages.simps [of "map mhash ts"] mhash_level)
    show ?thesis
      using "1.IH" [OF more ne] unfolding t fringe_level mpre_level leaves_level by blast
  qed
qed

definition tx_tree :: "bytes list \<Rightarrow> mtree" where
  "tx_tree txs = tree_root (map MLeaf txs)"

lemma tx_tree_facts:
  assumes "txs \<noteq> []"
  shows "mhash (tx_tree txs) = tx_root txs"
    and "fringe (tx_tree txs) = txs"
    and "mpre (tx_tree txs) \<subseteq> tx_root_preimages txs"
    and "MLeaf x \<in> subtrees (tx_tree txs) \<longleftrightarrow> x \<in> set txs"
proof -
  have ne: "map MLeaf txs \<noteq> []" using assms by simp
  note f = tree_root_facts [OF ne, folded tx_tree_def]
  have h: "map mhash (map MLeaf txs) = map leaf_hash txs" by simp
  show "mhash (tx_tree txs) = tx_root txs"
    using f assms by (simp add: tx_root_def merkle_root_def h comp_def)
  show "fringe (tx_tree txs) = txs" using f by (simp add: comp_def)
  show "mpre (tx_tree txs) \<subseteq> tx_root_preimages txs"
    using f by (auto simp: tx_root_preimages_def comp_def)
  show "MLeaf x \<in> subtrees (tx_tree txs) \<longleftrightarrow> x \<in> set txs"
    using f by (auto simp: set_eq_iff)
qed

text \<open>Two sets of hashed strings hold a collision.\<close>

definition collide :: "bytes set \<Rightarrow> bytes set \<Rightarrow> bool" where
  "collide X Y \<longleftrightarrow> (\<exists>x\<in>X. \<exists>y\<in>Y. x \<noteq> y \<and> blake3_hash x = blake3_hash y)"

lemma collide_mono: "collide X Y \<Longrightarrow> X \<subseteq> X' \<Longrightarrow> Y \<subseteq> Y' \<Longrightarrow> collide X' Y'"
  by (auto simp: collide_def)

lemma collideI: "blake3_hash x = blake3_hash y \<Longrightarrow> x \<noteq> y \<Longrightarrow> x \<in> X \<Longrightarrow> y \<in> Y \<Longrightarrow> collide X Y"
  by (auto simp: collide_def)

lemma collide_sub: "collide {x} {y} \<Longrightarrow> x \<in> X \<Longrightarrow> y \<in> Y \<Longrightarrow> collide X Y"
  by (auto simp: collide_def)

lemma subtrees_self [simp]: "t \<in> subtrees t"
  by (cases t) auto

lemma mpre_subtree: "S \<in> subtrees t \<Longrightarrow> mpre S \<subseteq> mpre t"
  by (induction t) auto

lemma subtrees_trans: "S \<in> subtrees t \<Longrightarrow> subtrees S \<subseteq> subtrees t"
  by (induction t) auto

lemma length_mhash [simp]: "length (mhash t) = 32"
  by (cases t) simp_all

lemma leaf_node_collide: "leaf_hash t = node_hash a b d \<Longrightarrow> collide {leaf_preimage t} {node_preimage d a b}"
  "node_hash a b d = leaf_hash t \<Longrightarrow> collide {node_preimage d a b} {leaf_preimage t}"
  by (auto simp: collide_def leaf_hash_def node_hash_def merkle_leaf_hash merkle_node_hash leaf_node_differ
      leaf_node_differ [symmetric])

lemma node_collide:
  "node_hash a b d = node_hash a' b' d' \<Longrightarrow> length a = 32 \<Longrightarrow> length a' = 32 \<Longrightarrow>
   d = d' \<and> a = a' \<and> b = b' \<or> collide {node_preimage d a b} {node_preimage d' a' b'}"
  by (auto simp: collide_def node_hash_def merkle_node_hash node_preimage_eq)

lemma mtree_binding: "mhash t = mhash t' \<Longrightarrow> t = t' \<or> collide (mpre t) (mpre t')"
proof (induction t arbitrary: t')
  case (MLeaf x)
  show ?case
  proof (cases t')
    case m: (MLeaf y)
    then show ?thesis
      using MLeaf.prems
      by (auto simp: collide_def leaf_hash_def merkle_leaf_hash leaf_preimage_eq)
  next
    case (MNode d l r)
    then show ?thesis using leaf_node_collide(1) [THEN collide_sub] MLeaf.prems by auto
  qed
next
  case (MNode d l r)
  show ?case
  proof (cases t')
    case (MLeaf y)
    then show ?thesis using leaf_node_collide(2) [THEN collide_sub] MNode.prems by auto
  next
    case m: (MNode d' l' r')
    consider "d = d'" "mhash l = mhash l'" "mhash r = mhash r'"
      | "collide {node_preimage d (mhash l) (mhash r)} {node_preimage d' (mhash l') (mhash r')}"
      using node_collide [of "mhash l" "mhash r" d "mhash l'" "mhash r'" d'] MNode.prems m by auto
    then show ?thesis
    proof cases
      case 1
      then consider "l = l'" "r = r'" | "collide (mpre l) (mpre l')" | "collide (mpre r) (mpre r')"
        using MNode.IH by blast
      then show ?thesis
        using 1 m collide_mono [of "mpre l" "mpre l'" "mpre (MNode d l r)" "mpre t'"]
          collide_mono [of "mpre r" "mpre r'" "mpre (MNode d l r)" "mpre t'"] by cases auto
    next
      case 2
      have "collide (mpre (MNode d l r)) (mpre t')" by (rule collide_sub [OF 2]) (simp_all add: m)
      then show ?thesis ..
    qed
  qed
qed

text \<open>C38: A Merkle root binds the list of transactions, its length and its order included: two
  different non-empty lists with one root exhibit two different strings, one hashed for each
  root, with the same BLAKE3 hash. The flag byte that marks an odd last node is what makes
  this hold of lists that differ by a repeated tail.\<close>

theorem tx_root_binding:
  assumes "txs \<noteq> []" "txs' \<noteq> []" "tx_root txs = tx_root txs'"
  shows "txs = txs' \<or> collide (tx_root_preimages txs) (tx_root_preimages txs')"
proof -
  have "tx_tree txs = tx_tree txs' \<or> collide (mpre (tx_tree txs)) (mpre (tx_tree txs'))"
    using assms by (intro mtree_binding) (simp add: tx_tree_facts)
  then show ?thesis
    using tx_tree_facts(2,3) assms(1,2) by (metis collide_mono)
qed

theorem tx_root_binding_witness:
  "[[1], [2], [3]] = [[1], [2], [3 :: u8]] \<or> collide (tx_root_preimages [[1], [2], [3]]) (tx_root_preimages [[1], [2], [3]])"
  by (rule tx_root_binding) simp_all

section \<open>Verified proofs are proofs of membership\<close>

text \<open>The strings the verifier hashes on its way up.\<close>

function verify_preimages :: "bytes list \<Rightarrow> bytes \<Rightarrow> nat \<Rightarrow> nat \<Rightarrow> nat \<Rightarrow> bytes set" where
  "verify_preimages siblings h idx width used =
     (if width > 1
      then if idx = width - 1 \<and> width mod 2 = 1
           then insert (node_preimage True h h)
             (verify_preimages siblings (node_hash h h True) (idx div 2) ((width + 1) div 2) used)
           else if used < length siblings
           then let l = (if idx mod 2 = 0 then h else siblings ! used);
                    r = (if idx mod 2 = 0 then siblings ! used else h)
                in insert (node_preimage False l r)
                     (verify_preimages siblings (node_hash l r False) (idx div 2) ((width + 1) div 2) (used + 1))
           else {}
      else {})"
  by pat_completeness auto
termination by (relation "measure (\<lambda>(s, h, idx, width, used). width)") auto

declare verify_preimages.simps [simp del]

lemma subtree_node:
  assumes "S \<in> subtrees t" "mhash S = node_hash l r d" "length l = 32"
  shows "(\<exists>L R. L \<in> subtrees t \<and> R \<in> subtrees t \<and> mhash L = l \<and> mhash R = r) \<or>
    collide {node_preimage d l r} (mpre t)"
proof -
  have pre: "mpre S \<subseteq> mpre t" and subs: "subtrees S \<subseteq> subtrees t"
    using assms(1) by (simp_all add: mpre_subtree subtrees_trans)
  show ?thesis
  proof (cases S)
    case (MLeaf x)
    then have "collide {node_preimage d l r} {leaf_preimage x}"
      using assms(2) by (intro leaf_node_collide(2)) simp
    then show ?thesis using pre MLeaf collide_sub [of _ "leaf_preimage x"] by simp
  next
    case (MNode d' L R)
    have LR: "L \<in> subtrees t" "R \<in> subtrees t" using subs MNode by auto
    have "d = d' \<and> l = mhash L \<and> r = mhash R \<or>
        collide {node_preimage d l r} {node_preimage d' (mhash L) (mhash R)}"
      using node_collide [of l r d "mhash L" "mhash R" d'] assms MNode by simp
    then show ?thesis
      using LR pre MNode collide_sub [of _ "node_preimage d' (mhash L) (mhash R)"] by auto
  qed
qed

lemma subtree_step:
  assumes "(\<exists>S\<in>subtrees t. mhash S = node_hash l r d) \<or> collide P (mpre t)" "length l = 32"
  shows "(\<exists>S\<in>subtrees t. mhash S = l) \<and> (\<exists>S\<in>subtrees t. mhash S = r) \<or>
    collide (insert (node_preimage d l r) P) (mpre t)"
proof -
  have "collide {node_preimage d l r} (mpre t) \<or> collide P (mpre t) \<Longrightarrow>
      collide (insert (node_preimage d l r) P) (mpre t)"
    by (auto simp: collide_def)
  then show ?thesis using subtree_node [of _ t l r d] assms by blast
qed

lemma verify_loop_subtree:
  assumes "verify_loop sibs h idx width used = Some (mhash t, u)"
    and "length h = 32" "\<forall>s\<in>set sibs. length s = 32"
  shows "(\<exists>S\<in>subtrees t. mhash S = h) \<or> collide (verify_preimages sibs h idx width used) (mpre t)"
  using assms
proof (induction "width" arbitrary: h idx used rule: less_induct)
  case (less width)
  show ?case
  proof (cases "width > 1")
    case False
    then show ?thesis using less.prems(1) by (auto simp: verify_loop.simps [of _ _ _ width])
  next
    case w: True
    show ?thesis
    proof (cases "idx = width - 1 \<and> width mod 2 = 1")
      case True
      let ?P = "verify_preimages sibs (node_hash h h True) (idx div 2) ((width + 1) div 2) used"
      have P: "verify_preimages sibs h idx width used = insert (node_preimage True h h) ?P"
        by (subst verify_preimages.simps) (use w True in simp)
      have "(\<exists>S\<in>subtrees t. mhash S = node_hash h h True) \<or> collide ?P (mpre t)"
        using less.prems w by (intro less.IH) (auto simp: verify_loop_odd [OF w True])
      then show ?thesis
        using subtree_step [OF _ less.prems(2)] unfolding P by blast
    next
      case False
      then have s: "used < length sibs" using less.prems(1) by (auto simp: verify_loop_pair [OF w] split: if_splits)
      let ?l = "if idx mod 2 = 0 then h else sibs ! used" and ?r = "if idx mod 2 = 0 then sibs ! used else h"
      let ?P = "verify_preimages sibs (node_hash ?l ?r False) (idx div 2) ((width + 1) div 2) (used + 1)"
      have P: "verify_preimages sibs h idx width used = insert (node_preimage False ?l ?r) ?P"
        by (subst verify_preimages.simps) (use w s False in \<open>simp only: if_True if_False Let_def\<close>)
      have n: "(if idx mod 2 = 0 then node_hash h (sibs ! used) False else node_hash (sibs ! used) h False)
          = node_hash ?l ?r False" by simp
      have "(\<exists>S\<in>subtrees t. mhash S = node_hash ?l ?r False) \<or> collide ?P (mpre t)"
        using less.prems w s unfolding verify_loop_pair [OF w False] n
        by (intro less.IH) auto
      moreover have "length ?l = 32" using less.prems(2,3) s by auto
      ultimately show ?thesis
        using subtree_step [of t ?l ?r False ?P] unfolding P by (auto split: if_splits)
    qed
  qed
qed

text \<open>A proof that verifies against the root of a block proves membership: either the
  transaction is one of the block's, or two different strings, one hashed by the verifier and one
  hashed for the root, have the same BLAKE3 hash. The index and the \<open>tx_count\<close> of the proof are
  arbitrary.\<close>

theorem verified_proof_membership:
  assumes "verify_merkle_proof (leaf_hash tx) prf (tx_root txs)"
    and "txs \<noteq> []" "\<forall>s\<in>set (mp_siblings prf). length s = 32"
  shows "tx \<in> set txs \<or>
    collide (insert (leaf_preimage tx)
        (verify_preimages (mp_siblings prf) (leaf_hash tx) (unat (mp_index prf)) (unat (mp_tx_count prf)) 0))
      (tx_root_preimages txs)"
proof -
  let ?v = "verify_preimages (mp_siblings prf) (leaf_hash tx) (unat (mp_index prf)) (unat (mp_tx_count prf)) 0"
  note t = tx_tree_facts [OF assms(2)]
  have "\<exists>u. verify_loop (mp_siblings prf) (leaf_hash tx) (unat (mp_index prf)) (unat (mp_tx_count prf)) 0 =
      Some (mhash (tx_tree txs), u)"
    using assms(1) t(1) by (auto simp: verify_merkle_proof_def split: if_splits option.splits)
  then consider S where "S \<in> subtrees (tx_tree txs)" "mhash S = mhash (MLeaf tx)"
    | "collide ?v (mpre (tx_tree txs))"
    using verify_loop_subtree assms(3) by fastforce
  then show ?thesis
  proof cases
    case 1
    have "S = MLeaf tx \<or> collide (mpre (MLeaf tx)) (mpre S)"
      using mtree_binding 1(2) by metis
    moreover have "mpre S \<subseteq> mpre (tx_tree txs)"
      using 1(1) by (rule mpre_subtree)
    ultimately have "MLeaf tx \<in> subtrees (tx_tree txs) \<or> collide {leaf_preimage tx} (tx_root_preimages txs)"
      using 1(1) t(3) by (auto simp: collide_def)
    then show ?thesis using t(4) by (auto simp: collide_def)
  next
    case 2
    then show ?thesis using t(3) by (auto simp: collide_def)
  qed
qed

theorem verified_proof_membership_witness:
  "[7] \<in> set [[7 :: u8]] \<or>
    collide (insert (leaf_preimage [7])
        (verify_preimages [] (leaf_hash [7]) (unat (0 :: u32)) (unat (1 :: u32)) 0))
      (tx_root_preimages [[7]])"
  using verified_proof_membership [of "[7]" "\<lparr>mp_index = 0, mp_tx_count = 1, mp_siblings = []\<rparr>" "[[7]]"]
  by (simp add: verify_merkle_proof_def verify_loop.simps tx_root_def merkle_root_def root_loop.simps)

end
