(* ===== verification/TxRules.thy ===== *)
theory TxRules imports Merkle Emission begin

text \<open>
  \<open>lib/consensus/src/tx.rs\<close>: what the consensus layer checks of transactions, of the shape of a
  body and of its coinbase. Signature verification is the parameter pair of \<open>Crypto\<close>. The
  \<open>usize\<close> indices in errors are natural numbers.
\<close>

record AccountState =
  as_balance :: u128
  as_nonce :: u64

datatype TxError =
    NotAuthorKey
  | BadSignature
  | AnnouncementLength nat
  | FeeBelowFloor u128
  | BadNonce u64 u64
  | InsufficientBalance u128 u128
  | AmountOverflow
  | FeeSumOverflow
  | RecordDoesNotDecode nat CodecError
  | MissingCoinbase
  | MisplacedCoinbase nat
  | CoinbaseHeightMismatch u64 u64
  | CoinbaseRewardMismatch u128 u128
  | CoinbaseFeesMismatch u128 u128
  | AuthorNoteLenMismatch u32 nat
  | AuthorNoteTooLong nat

definition check_announcement_stateless ::
  "(bytes \<Rightarrow> 'vk option) \<Rightarrow> ('vk \<Rightarrow> bytes \<Rightarrow> bytes \<Rightarrow> bool) \<Rightarrow> Network \<Rightarrow> AnnouncementTx \<Rightarrow> bytes \<Rightarrow> TxError + unit" where
  "check_announcement_stateless vk_from_bytes verify_strict network tx author_pubkey =
     (if an_from_pub tx \<noteq> author_pubkey then Inl NotAuthorKey
      else and_then (map_err (\<lambda>_. AnnouncementLength (length (an_payload tx))) (check_payload_len tx)) (\<lambda>_.
        map_err (\<lambda>_. BadSignature) (verify_announcement_signature vk_from_bytes verify_strict network tx)))"

definition check_announcement_stateful :: "AnnouncementTx \<Rightarrow> AccountState \<Rightarrow> u128 \<Rightarrow> TxError + unit" where
  "check_announcement_stateful tx acct spendable =
     (if an_fee tx < FEE_FLOOR_MILE then Inl (FeeBelowFloor (an_fee tx))
      else if an_nonce tx \<noteq> as_nonce acct then Inl (BadNonce (as_nonce acct) (an_nonce tx))
      else if spendable < an_fee tx then Inl (InsufficientBalance (an_fee tx) spendable)
      else Inr ())"

definition apply_announcement :: "AccountState \<Rightarrow> AnnouncementTx \<Rightarrow> TxError + AccountState" where
  "apply_announcement acct tx =
     and_then (ok_or (InsufficientBalance (an_fee tx) (as_balance acct))
                 (checked_sub (as_balance acct) (an_fee tx))) (\<lambda>balance.
     and_then (ok_or AmountOverflow (checked_add (as_nonce acct) 1)) (\<lambda>nonce.
     Inr \<lparr>as_balance = balance, as_nonce = nonce\<rparr>))"

text \<open>The loop of \<open>block_fee_total\<close> with its running total.\<close>

fun fee_total_from :: "u128 \<Rightarrow> Tx list \<Rightarrow> TxError + u128" where
  "fee_total_from tot [] = Inr tot"
| "fee_total_from tot (tx # txs) =
     and_then (ok_or FeeSumOverflow (checked_add tot (tx_fee tx))) (\<lambda>tot. fee_total_from tot txs)"

definition block_fee_total :: "Tx list \<Rightarrow> TxError + u128" where
  "block_fee_total txs = fee_total_from 0 txs"

text \<open>The loop over the records after the first.\<close>

fun find_coinbase :: "nat \<Rightarrow> Tx list \<Rightarrow> nat option" where
  "find_coinbase i [] = None"
| "find_coinbase i (tx # txs) = (if tx_type_byte tx = TX_TYPE_COINBASE then Some i else find_coinbase (i + 1) txs)"

definition check_body_structure :: "Tx list \<Rightarrow> TxError + CoinbaseTx" where
  "check_body_structure txs =
     (case txs of
        Coinbase cb # rest \<Rightarrow>
          (case find_coinbase 1 rest of
             Some i \<Rightarrow> Inl (MisplacedCoinbase i)
           | None \<Rightarrow> Inr cb)
      | _ \<Rightarrow> Inl MissingCoinbase)"

text \<open>\<open>collect\<close> over the indices of the body: the first record that does not decode is the error.
  \<open>tx_bytes(i)\<close> with \<open>i < len\<close> is the \<open>i\<close>-th record.\<close>

fun decode_from :: "nat \<Rightarrow> bytes list \<Rightarrow> TxError + Tx list" where
  "decode_from i [] = Inr []"
| "decode_from i (b # bs) =
     and_then (map_err (RecordDoesNotDecode i) (decode_tx b)) (\<lambda>tx.
     and_then (decode_from (i + 1) bs) (\<lambda>txs. Inr (tx # txs)))"

definition decode_body :: "BlockBody \<Rightarrow> TxError + Tx list" where
  "decode_body body = decode_from 0 (body_txs body)"

definition check_coinbase :: "CoinbaseTx \<Rightarrow> u64 \<Rightarrow> u32 \<Rightarrow> u128 \<Rightarrow> TxError + unit" where
  "check_coinbase cb header_height header_author_note_len fee_total =
     (if cb_height cb \<noteq> header_height then Inl (CoinbaseHeightMismatch header_height (cb_height cb))
      else let expected = block_reward header_height in
      if cb_reward cb \<noteq> expected then Inl (CoinbaseRewardMismatch expected (cb_reward cb))
      else if cb_fees cb \<noteq> fee_total then Inl (CoinbaseFeesMismatch fee_total (cb_fees cb))
      else let note_len = length (note_payload (cb_note cb)) in
      if note_len > AUTHOR_NOTE_MAX_BYTES then Inl (AuthorNoteTooLong note_len)
      else if unat header_author_note_len \<noteq> note_len
      then Inl (AuthorNoteLenMismatch header_author_note_len note_len)
      else Inr ())"

definition coinbase_credit :: "CoinbaseTx \<Rightarrow> TxError + u128" where
  "coinbase_credit cb = ok_or AmountOverflow (checked_add (cb_reward cb) (cb_fees cb))"

section \<open>What the checks guarantee\<close>

lemma fee_total_from_Ok:
  "fee_total_from t txs = Inr s \<longleftrightarrow> unat s = unat t + sum_list (map (\<lambda>x. unat (tx_fee x)) txs)"
proof (induction txs arbitrary: t)
  case Nil
  then show ?case by (auto simp: word_unat_eq_iff)
next
  case (Cons x txs)
  show ?case
  proof (cases "checked_add t (tx_fee x)")
    case None
    then have "2 ^ 128 \<le> unat t + unat (tx_fee x)" by (simp add: checked_add_None)
    moreover have "unat s < 2 ^ 128" using unsigned_less [of s] by simp
    ultimately show ?thesis using None by simp
  next
    case (Some u)
    then show ?thesis using Cons.IH [of u] checked_add_unat [OF Some] by (simp add: add.assoc)
  qed
qed

lemma block_fee_total_Ok:
  "block_fee_total txs = Inr s \<longleftrightarrow> unat s = sum_list (map (\<lambda>x. unat (tx_fee x)) txs)"
  by (simp add: block_fee_total_def fee_total_from_Ok)

lemma find_coinbase_None: "find_coinbase i txs = None \<longleftrightarrow> (\<forall>t\<in>set txs. \<forall>cb. t \<noteq> Coinbase cb)"
proof (induction txs arbitrary: i)
  case (Cons t txs)
  then show ?case by (cases t) auto
qed simp

lemma check_body_structure_Ok:
  "check_body_structure txs = Inr cb \<longleftrightarrow>
     (\<exists>rest. txs = Coinbase cb # rest \<and> (\<forall>t\<in>set rest. \<forall>c. t \<noteq> Coinbase c))"
  unfolding check_body_structure_def find_coinbase_None [symmetric, of _ 1]
  by (auto split: list.splits Tx.splits option.splits)

lemma decode_from_Ok: "decode_from i bs = Inr txs \<longleftrightarrow> list_all2 (\<lambda>b t. decode_tx b = Inr t) bs txs"
  by (induction bs arbitrary: i txs) (auto simp: res_simps list_all2_Cons1)

lemma decode_body_Ok:
  "decode_body body = Inr txs \<longleftrightarrow> list_all2 (\<lambda>b t. decode_tx b = Inr t) (body_txs body) txs"
  by (simp add: decode_body_def decode_from_Ok)

lemma check_coinbase_Ok:
  "check_coinbase cb h len fees = Inr () \<longleftrightarrow>
     cb_height cb = h \<and> cb_reward cb = block_reward h \<and> cb_fees cb = fees \<and>
     length (note_payload (cb_note cb)) \<le> AUTHOR_NOTE_MAX_BYTES \<and> unat len = length (note_payload (cb_note cb))"
  by (auto simp: check_coinbase_def Let_def)

lemma coinbase_credit_Ok: "coinbase_credit cb = Inr c \<longleftrightarrow> unat c = unat (cb_reward cb) + unat (cb_fees cb)"
  by (simp add: coinbase_credit_def ok_or_Ok checked_add_unat_iff)

lemma apply_announcement_Ok:
  "apply_announcement acct tx = Inr acct' \<longleftrightarrow>
     unat (as_balance acct') + unat (an_fee tx) = unat (as_balance acct) \<and>
     unat (as_nonce acct') = unat (as_nonce acct) + 1"
  by (cases acct') (auto simp: apply_announcement_def and_then_Ok ok_or_Ok checked_sub_unat_iff checked_add_unat_iff)

lemma check_announcement_stateful_Ok:
  "check_announcement_stateful tx acct sp = Inr () \<longleftrightarrow>
     FEE_FLOOR_MILE \<le> an_fee tx \<and> an_nonce tx = as_nonce acct \<and> an_fee tx \<le> sp"
  by (auto simp: check_announcement_stateful_def not_less simp del: FEE_FLOOR_MILE_def)

end
