(* ===== verification/ChainWork.thy ===== *)
theory ChainWork imports Asert Rules begin

text \<open>
  \<open>lib/chain/src/work.rs\<close>: from the compact bits of a header to its work, directly and through
  the direct-mapped memo. The memo's contract is its comment, \<open>a collision recomputes, never
  lies\<close>: over any sequence of calls it returns what the direct computation returns.
\<close>

definition target_to_be :: "Target \<Rightarrow> Hash32" where
  "target_to_be t = concat (map (\<lambda>i. to_be 8 (limbs t ! (3 - i))) [0..<4])"

definition expand_bits :: "u32 \<Rightarrow> Target \<Rightarrow> Target option" where
  "expand_bits bits pow_limit =
     (case from_compact bits of
        Inl _ \<Rightarrow> None
      | Inr t \<Rightarrow> if target_is_zero t \<or> pow_limit < t then None else Some t)"

record WorkCache =
  wc_slots :: "(u32 \<times> Work) option list"
  wc_hits :: u64
  wc_misses :: u64

definition cache_new :: WorkCache where
  "cache_new = \<lparr>wc_slots = replicate 64 None, wc_hits = 0, wc_misses = 0\<rparr>"

text \<open>
  \<open>WorkCache::work\<close>. The outer \<open>option\<close> is the panic of \<open>work_from_target\<close>; the part after the
  lookup is shared by the two ways to miss.
\<close>

definition cache_miss :: "WorkCache \<Rightarrow> u32 \<Rightarrow> Target \<Rightarrow> (Work option \<times> WorkCache) option" where
  "cache_miss c bits pow_limit =
     (let idx = unat (bits AND 63);
          c = c\<lparr>wc_misses := wc_misses c + 1\<rparr>
      in case expand_bits bits pow_limit of
           None \<Rightarrow> Some (None, c)
         | Some t \<Rightarrow> do {
             w \<leftarrow> work_from_target (target_to_be t);
             Some (Some w, c\<lparr>wc_slots := (wc_slots c)[idx := Some (bits, w)]\<rparr>)
           })"

definition cache_work :: "WorkCache \<Rightarrow> u32 \<Rightarrow> Target \<Rightarrow> (Work option \<times> WorkCache) option" where
  "cache_work c bits pow_limit =
     (case wc_slots c ! unat (bits AND 63) of
        Some (k, w) \<Rightarrow> if k = bits then Some (Some w, c\<lparr>wc_hits := wc_hits c + 1\<rparr>)
                       else cache_miss c bits pow_limit
      | None \<Rightarrow> cache_miss c bits pow_limit)"

definition cache_counters :: "WorkCache \<Rightarrow> u64 \<times> u64" where
  "cache_counters c = (wc_hits c, wc_misses c)"

definition anchor_height_for :: "u64 \<Rightarrow> u64 \<Rightarrow> u64" where
  "anchor_height_for parent_height interval =
     (let interval = (if interval = 0 then ASERT_ANCHOR_INTERVAL else interval)
      in (parent_height div interval) * interval)"

definition expected_child_bits :: "u32 \<Rightarrow> u64 \<Rightarrow> u64 \<Rightarrow> u64 \<Rightarrow> u64 \<Rightarrow> Target \<Rightarrow> AsertError + u32" where
  "expected_child_bits anchor_bits anchor_height anchor_parent_time parent_height parent_time pow_limit =
     asert_next_bits anchor_bits anchor_height anchor_parent_time parent_height parent_time pow_limit"

section \<open>The bytes of a target\<close>

lemma be_word_rev: "be_word (rev bs) = from_le bs"
proof (induction bs)
  case (Cons b bs)
  then show ?case by (simp add: be_word_def or.commute)
qed (simp add: be_word_def)

lemma be_val_to_be: "be_val (to_be 8 (w :: u64)) = unat w"
  using be_word_val [of "to_be 8 w"] by (simp add: to_be_def be_word_rev)

lemma length_target_to_be [simp]: "length (target_to_be t) = 32"
  by (simp add: target_to_be_def upt_rec)

lemma be_val_target: "be_val (target_to_be t) = target_val t"
  by (cases t) (simp add: target_to_be_def upt_rec be_val_append be_val_to_be target_val_def algebra_simps)

lemma target_work:
  obtains w where "work_from_target (target_to_be t) = Some w" "work_val w = 2 ^ 256 div (target_val t + 1)"
proof -
  define x where "x = \<lparr>hi_height = 0, hi_hash = [], hi_time = 0, hi_target = target_to_be t\<rparr>"
  obtain w where "work_from_target (hi_target x) = Some w" "work_val w = header_work x"
    by (rule work_of_header [of x]) (simp add: x_def)
  then show thesis using that by (simp add: x_def header_work_def be_val_target)
qed

lemma expand_bits_Some:
  "expand_bits bits limit = Some t \<longleftrightarrow> from_compact bits = Inr t \<and> target_val t \<noteq> 0 \<and> t \<le> limit"
  by (auto simp: expand_bits_def not_less split: sum.splits)

text \<open>The work of bits without the memo, \<open>None\<close> for bits outside the limit.\<close>

definition direct_work :: "u32 \<Rightarrow> Target \<Rightarrow> Work option" where
  "direct_work bits limit =
     (case expand_bits bits limit of None \<Rightarrow> None | Some t \<Rightarrow> work_from_target (target_to_be t))"

section \<open>The memo never lies\<close>

definition cache_ok :: "Target \<Rightarrow> WorkCache \<Rightarrow> bool" where
  "cache_ok limit c \<longleftrightarrow> length (wc_slots c) = 64 \<and>
     (\<forall>k w. Some (k, w) \<in> set (wc_slots c) \<longrightarrow> direct_work k limit = Some w)"

lemma cache_ok_new: "cache_ok limit cache_new"
  by (simp add: cache_ok_def cache_new_def)

lemma cache_index: "unat (bits AND 63 :: u32) < 64"
proof -
  have "bits AND 63 \<le> (63 :: u32)" by (rule word_and_le1)
  then show ?thesis by (simp add: word_le_nat_alt)
qed

lemma cache_miss_ok:
  assumes "cache_ok limit c"
  shows "\<exists>c'. cache_miss c bits limit = Some (direct_work bits limit, c') \<and> cache_ok limit c'"
proof (cases "expand_bits bits limit")
  case None
  then show ?thesis using assms by (simp add: cache_miss_def direct_work_def cache_ok_def)
next
  case (Some t)
  obtain w where w: "work_from_target (target_to_be t) = Some w" by (rule target_work)
  have "Some (k, v) \<in> set ((wc_slots c)[i := Some (bits, w)]) \<Longrightarrow>
      (k, v) = (bits, w) \<or> Some (k, v) \<in> set (wc_slots c)" for k v i
    using set_update_subset_insert [of "wc_slots c" i "Some (bits, w)"] by auto
  moreover have "direct_work bits limit = Some w" using Some w by (simp add: direct_work_def)
  ultimately have "cache_ok limit (c\<lparr>wc_misses := m, wc_slots := (wc_slots c)[i := Some (bits, w)]\<rparr>)" for m i
    using assms unfolding cache_ok_def by (auto, blast)
  then show ?thesis
    using Some w by (simp add: cache_miss_def direct_work_def Let_def)
qed

lemma cache_work_ok:
  assumes "cache_ok limit c"
  shows "\<exists>c'. cache_work c bits limit = Some (direct_work bits limit, c') \<and> cache_ok limit c'"
proof (cases "wc_slots c ! unat (bits AND 63)")
  case None
  then show ?thesis using cache_miss_ok [OF assms] by (simp add: cache_work_def)
next
  case (Some kw)
  obtain k w where kw: "kw = (k, w)" by (cases kw)
  have "Some (k, w) \<in> set (wc_slots c)"
    using Some kw cache_index [of bits] assms nth_mem [of "unat (bits AND 63)" "wc_slots c"]
    by (simp add: cache_ok_def)
  then have "direct_work k limit = Some w" using assms by (simp add: cache_ok_def)
  moreover have "cache_ok limit (c\<lparr>wc_hits := wc_hits c + 1\<rparr>)" using assms by (simp add: cache_ok_def)
  ultimately show ?thesis
    using cache_miss_ok [OF assms] Some kw by (cases "k = bits") (simp_all add: cache_work_def)
qed

text \<open>A sequence of calls on one cache, with one limit as in the node.\<close>

fun cache_calls :: "Target \<Rightarrow> u32 list \<Rightarrow> WorkCache \<Rightarrow> Work option list option" where
  "cache_calls limit [] c = Some []"
| "cache_calls limit (b # bs) c = do {
     (w, c) \<leftarrow> cache_work c b limit;
     ws \<leftarrow> cache_calls limit bs c;
     Some (w # ws)
   }"

lemma cache_calls_ok: "cache_ok limit c \<Longrightarrow> cache_calls limit bs c = Some (map (\<lambda>b. direct_work b limit) bs)"
proof (induction bs arbitrary: c)
  case (Cons b bs)
  obtain c' where "cache_work c b limit = Some (direct_work b limit, c')" "cache_ok limit c'"
    using cache_work_ok [OF Cons.prems] by blast
  then show ?case using Cons.IH by simp
qed simp

text \<open>The work memo is transparent: whatever the sequence of bits, it never panics, and every
  answer is the one computed directly: nothing for bits that do not expand under the limit, and
  \<open>2 ^ 256 div (target + 1)\<close> otherwise.\<close>

theorem work_cache_never_lies:
  "cache_calls limit bs cache_new = Some (map (\<lambda>b. direct_work b limit) bs) \<and>
   map (\<lambda>b. map_option work_val (direct_work b limit)) bs =
     map (\<lambda>b. map_option (\<lambda>t. 2 ^ 256 div (target_val t + 1)) (expand_bits b limit)) bs"
proof
  show "cache_calls limit bs cache_new = Some (map (\<lambda>b. direct_work b limit) bs)"
    by (intro cache_calls_ok cache_ok_new)
  have "map_option work_val (direct_work b limit) =
      map_option (\<lambda>t. 2 ^ 256 div (target_val t + 1)) (expand_bits b limit)" for b
  proof (cases "expand_bits b limit")
    case (Some t)
    obtain w where "work_from_target (target_to_be t) = Some w" "work_val w = 2 ^ 256 div (target_val t + 1)"
      by (rule target_work)
    then show ?thesis using Some by (simp add: direct_work_def)
  qed (simp add: direct_work_def)
  then show "map (\<lambda>b. map_option work_val (direct_work b limit)) bs =
     map (\<lambda>b. map_option (\<lambda>t. 2 ^ 256 div (target_val t + 1)) (expand_bits b limit)) bs" by simp
qed

text \<open>The bits the difficulty rule expects of a child expand under the same limit, so a header
  with exactly those bits is never refused for its bits, and its target is no easier than the one
  computed.\<close>

theorem expected_bits_expand:
  assumes "expected_child_bits bits ah apt ph pt limit = Inr b" "target_ZERO < limit"
  shows "\<exists>t t'. asert_next_target bits ah apt ph pt limit = Inr t \<and> expand_bits b limit = Some t' \<and> t' \<le> t"
  using asert_next_bits_facts [of bits ah apt ph pt limit b] assms
  by (fastforce simp: expected_child_bits_def expand_bits_Some target_less_iff)

theorem expected_bits_expand_witness:
  "\<exists>t t'. asert_next_target 0x1f00ffff 0 0 0 60 POW_LIMIT = Inr t \<and> expand_bits 0x1f00ffff POW_LIMIT = Some t' \<and> t' \<le> t"
proof (rule expected_bits_expand)
  have "from_compact 0x1f00ffff = Inr (Target 0 0 0 0xffff00000000)" by code_simp
  moreover have "asert_next_target_from_ref (Target 0 0 0 0xffff00000000) 0 60 POW_LIMIT =
      Target 0 0 0 0xffff00000000" "to_compact (Target 0 0 0 0xffff00000000) = 0x1f00ffff"
    by code_simp+
  ultimately show "expected_child_bits 0x1f00ffff 0 0 0 60 POW_LIMIT = Inr 0x1f00ffff"
    by (simp add: expected_child_bits_def asert_next_bits_def asert_next_target_def Let_def)
qed (simp add: target_less_iff target_val_POW_LIMIT)

section \<open>Meeting a target\<close>

text \<open>\<open>meets\<close> of \<open>lib/consensus/src/pow.rs\<close>: Rust compares arrays byte by byte.\<close>

definition meets :: "bytes \<Rightarrow> bytes \<Rightarrow> bool" where
  "meets pow_hash_be target_be \<longleftrightarrow> pow_hash_be \<le> target_be"

lemma be_val_Cons: "be_val (b # bs) = unat b * 256 ^ length bs + be_val bs"
  using be_val_append [of "[b]" bs] by (simp add: be_val_def)

lemma lex_be_val: "length xs = length ys \<Longrightarrow> xs < ys \<longleftrightarrow> be_val xs < be_val ys"
proof (induction xs ys rule: list_induct2)
  case (Cons x xs y ys)
  have lt: "be_val xs < 256 ^ length xs" "be_val ys < 256 ^ length xs"
    using be_val_less [of xs] be_val_less [of ys] Cons.hyps by auto
  have step: "a < b \<Longrightarrow> r < k \<Longrightarrow> a * k + r < b * k + s" for a b k r s :: nat
    using mult_le_mono1 [of "Suc a" b k] by simp
  consider "unat x < unat y" | "unat y < unat x" | "x = y" by (meson linorder_cases word_unat_eq_iff)
  then show ?case
  proof cases
    case 1
    then show ?thesis
      using step [OF 1 lt(1)] Cons.hyps by (simp add: be_val_Cons word_less_nat_alt)
  next
    case 2
    then show ?thesis
      using step [OF 2 lt(2), of "be_val xs"] Cons.hyps by (auto simp: be_val_Cons word_less_nat_alt)
  next
    case 3
    then show ?thesis using Cons by (simp add: be_val_Cons)
  qed
qed simp

text \<open>The byte-wise comparison of a proof-of-work hash with the bytes of a target is the
  comparison of the numbers: the hash, read as a 256-bit big-endian number, is at most the target.\<close>

theorem pow_meets_iff:
  assumes "length h = 32"
  shows "meets h (target_to_be t) \<longleftrightarrow> be_val h \<le> target_val t"
  using lex_be_val [of "target_to_be t" h] assms
  by (simp add: meets_def not_less [symmetric] be_val_target)

theorem pow_meets_iff_witness:
  "meets (replicate 32 0) (target_to_be target_ONE) \<longleftrightarrow> be_val (replicate 32 0) \<le> target_val target_ONE"
  by (rule pow_meets_iff) simp

end
