(* ===== verification/ChainTypes.thy ===== *)
theory ChainTypes imports Merkle ChainWork begin

text \<open>
  \<open>lib/chain/src/types.rs\<close>: the records the chain crate passes around and the node's
  parameters. \<open>usize\<close> fields are natural numbers; the casts \<open>as u64\<close> of them are written out.
\<close>

type_synonym Address = bytes
type_synonym SourceId = u32

record Account =
  ac_balance :: u128
  ac_nonce :: u64

definition is_absent :: "Account \<Rightarrow> bool" where
  "is_absent a \<longleftrightarrow> ac_balance a = 0 \<and> ac_nonce a = 0"

record TipRef =
  tip_height :: u64
  tip_hash :: Hash32
  tip_time :: u64
  tip_chainwork :: Work

record HeaderRec =
  hr_height :: u64
  hr_hash :: Hash32
  hr_prev_hash :: Hash32
  hr_time :: u64
  hr_bits :: u32
  hr_raw :: bytes

text \<open>\<open>None\<close> is the \<open>expect\<close> of \<open>from_raw\<close>.\<close>

definition from_raw :: "bytes \<Rightarrow> HeaderRec option" where
  "from_raw raw =
     (case header_decode raw of
        Inl _ \<Rightarrow> None
      | Inr h \<Rightarrow> Some \<lparr>hr_height = hd_height h, hr_hash = header_hash raw, hr_prev_hash = hd_prev_hash h,
          hr_time = hd_time h, hr_bits = hd_bits h, hr_raw = raw\<rparr>)"

definition rec_header :: "HeaderRec \<Rightarrow> Header option" where
  "rec_header r = (case header_decode (hr_raw r) of Inl _ \<Rightarrow> None | Inr h \<Rightarrow> Some h)"

record UndoRec =
  un_addr :: Address
  un_prev_balance :: u128
  un_prev_nonce :: u64
  un_existed :: bool

record StateDelta =
  sd_addr :: Address
  sd_balance :: u128
  sd_nonce :: u64

record CommitBlock =
  cbk_header_raw :: bytes
  cbk_hash :: Hash32
  cbk_height :: u64
  cbk_body :: bytes
  cbk_deltas :: "StateDelta list"
  cbk_undo :: "UndoRec list"
  cbk_issued_delta :: u128
  cbk_chainwork :: Work
  cbk_txids :: "Hash32 list"

record SideHeaderRec =
  shr_rec :: HeaderRec
  shr_chainwork :: Work

record ReorgCommit =
  rcm_rollback :: "u64 list"
  rcm_apply :: "CommitBlock list"

record DeepReorgCommit =
  drc_rewind_to :: u64
  drc_apply :: "CommitBlock list"

datatype Trust = OurStore | Untrusted

datatype TxOrigin = Local | Peer SourceId

datatype Solicitation = Unsolicited | SolicitedIbd | SolicitedSteady

definition charges_budget :: "Solicitation \<Rightarrow> bool" where
  "charges_budget s \<longleftrightarrow> s \<noteq> SolicitedIbd"

definition charges_child_quota :: "Solicitation \<Rightarrow> bool" where
  "charges_child_quota s \<longleftrightarrow> s = Unsolicited"

section \<open>Reports\<close>

record Rejection =
  rj_hash :: Hash32
  rj_height :: u64
  rj_repair_from :: u64
  rj_why :: string

record Held =
  he_hash :: Hash32
  he_height :: u64

record Accepted =
  ap_connected :: u64
  ap_duplicates :: u32
  ap_rejected :: u32
  ap_staged :: u32
  ap_verified_height :: u64
  ap_first_rejection :: "Rejection option"
  ap_first_held :: "Held option"

datatype Progress = NoChange | NeedBodies "Hash32 list" | Advanced TipRef u64 u64

record ChainStats =
  cs_headers_connected :: u64
  cs_bodies_validated :: u64
  cs_reorgs :: u64
  cs_invalidated :: u64
  cs_poisoned :: u64
  cs_deep_reorgs :: u64
  cs_side_headers_restored :: u64
  cs_headers_readmitted :: u64

section \<open>Mempool parameters\<close>

record MempoolParams =
  mpp_max_txs :: nat
  mpp_max_bytes :: nat
  mpp_max_nonce_gap :: u64
  mpp_max_txs_per_sender :: nat
  mpp_ttl_secs :: u64
  mpp_relay_fee_floor :: u128
  mpp_ingress_per_source :: u32
  mpp_ingress_global :: u32
  mpp_reorg_reinject_cap :: nat

definition TX_COST_MILLI :: u64 where "TX_COST_MILLI = 1000"

text \<open>\<open>max_nonce_gap as usize + 1\<close>; the addition does not overflow for the gaps the node uses.\<close>

definition effective_per_sender :: "MempoolParams \<Rightarrow> nat" where
  "effective_per_sender p = min (unat (mpp_max_nonce_gap p) + 1) (mpp_max_txs_per_sender p)"

definition ingress_source_rate_milli :: "MempoolParams \<Rightarrow> u64" where
  "ingress_source_rate_milli p = saturating_mul (ucast (mpp_ingress_per_source p)) TX_COST_MILLI"

definition ingress_source_burst_milli :: "MempoolParams \<Rightarrow> u64" where
  "ingress_source_burst_milli p = ingress_source_rate_milli p"

definition ingress_shared_rate_milli :: "MempoolParams \<Rightarrow> u64" where
  "ingress_shared_rate_milli p = saturating_mul (ucast (mpp_ingress_global p)) TX_COST_MILLI div 2"

definition ingress_shared_burst_milli :: "MempoolParams \<Rightarrow> u64" where
  "ingress_shared_burst_milli p = ingress_shared_rate_milli p"

definition ingress_reserve_rate_milli :: "MempoolParams \<Rightarrow> nat \<Rightarrow> u64" where
  "ingress_reserve_rate_milli p max_peers = ingress_shared_rate_milli p div word_of_nat (max max_peers 1)"

definition ingress_reserve_burst_milli :: "MempoolParams \<Rightarrow> u64" where
  "ingress_reserve_burst_milli p = 2 * TX_COST_MILLI"

definition default_mempool_params :: MempoolParams where
  "default_mempool_params = \<lparr>mpp_max_txs = MAX_MEMPOOL_TXS, mpp_max_bytes = 12 * 1024 * 1024,
     mpp_max_nonce_gap = MAX_MEMPOOL_NONCE_GAP, mpp_max_txs_per_sender = MAX_MEMPOOL_TXS_PER_SENDER,
     mpp_ttl_secs = 24 * 3600, mpp_relay_fee_floor = 1, mpp_ingress_per_source = 100,
     mpp_ingress_global = 2000, mpp_reorg_reinject_cap = 4096\<rparr>"

section \<open>Chain parameters\<close>

datatype Profile = Real | Regtest

record ChainParams =
  pm_profile :: Profile
  pm_network :: Network
  pm_pow_limit :: Target
  pm_genesis_bits :: u32
  pm_asert_anchor_interval :: u64
  pm_author_pubkey :: bytes
  pm_authority_keys :: "bytes list"
  pm_checkpoint_threshold :: nat
  pm_max_reorg_depth :: u64
  pm_sync_window_secs :: u64
  pm_pow_budget_micros :: u64
  pm_pow_budget_window_ms :: u64
  pm_pow_budget_burst_micros :: u64
  pm_max_duplicates_per_batch :: u32
  pm_max_duplicates_per_window :: u32
  pm_duplicate_window_secs :: u64
  pm_max_peers :: nat
  pm_cpu_pool_threads :: nat
  pm_child_pow_failures_per_source :: u32
  pm_child_quota_window_secs :: u64
  pm_max_sources :: nat
  pm_max_side_headers :: nat
  pm_max_staged_headers :: nat
  pm_negative_cache_entries :: nat
  pm_reorg_overlay_max_accounts :: nat
  pm_mempool :: MempoolParams

definition default_pow_limit :: Target where
  "default_pow_limit = Target (- 1) (- 1) (- 1) 0x0000FFFFFFFFFFFF"

definition REGTEST_BITS :: u32 where "REGTEST_BITS = 0x207FFFFF"

definition regtest_pow_limit :: "Target option" where
  "regtest_pow_limit = (case from_compact REGTEST_BITS of Inl _ \<Rightarrow> None | Inr t \<Rightarrow> Some t)"

definition default_params :: ChainParams where
  "default_params = \<lparr>pm_profile = Real, pm_network = Main, pm_pow_limit = default_pow_limit,
     pm_genesis_bits = to_compact default_pow_limit, pm_asert_anchor_interval = ASERT_ANCHOR_INTERVAL,
     pm_author_pubkey = replicate 32 0, pm_authority_keys = [], pm_checkpoint_threshold = 1,
     pm_max_reorg_depth = MAX_REORG_DEPTH, pm_sync_window_secs = SYNC_WINDOW_SECS,
     pm_pow_budget_micros = 100000, pm_pow_budget_window_ms = 10000, pm_pow_budget_burst_micros = 300000,
     pm_max_duplicates_per_batch = 256, pm_max_duplicates_per_window = 1024, pm_duplicate_window_secs = 60,
     pm_max_peers = 128, pm_cpu_pool_threads = 2, pm_child_pow_failures_per_source = 1,
     pm_child_quota_window_secs = 2 * BLOCK_TIME_SECS, pm_max_sources = 128, pm_max_side_headers = 16384,
     pm_max_staged_headers = 256, pm_negative_cache_entries = 65536,
     pm_reorg_overlay_max_accounts = 714000, pm_mempool = default_mempool_params\<rparr>"

definition regtest_params :: "bytes \<Rightarrow> ChainParams option" where
  "regtest_params author_pubkey = do {
     pow_limit \<leftarrow> regtest_pow_limit;
     Some (default_params\<lparr>pm_profile := Regtest, pm_genesis_bits := REGTEST_BITS,
       pm_pow_limit := pow_limit, pm_author_pubkey := author_pubkey\<rparr>)
   }"

definition profile_is_consistent :: "ChainParams \<Rightarrow> bool" where
  "profile_is_consistent p =
     (case pm_profile p of
        Real \<Rightarrow> pm_pow_limit p = default_pow_limit
      | Regtest \<Rightarrow> Some (pm_pow_limit p) = regtest_pow_limit)"

definition class_rate_micros_per_sec :: "ChainParams \<Rightarrow> u64" where
  "class_rate_micros_per_sec p = saturating_mul 250000 (word_of_nat (pm_cpu_pool_threads p))"

definition class_shared_rate_micros_per_sec :: "ChainParams \<Rightarrow> u64" where
  "class_shared_rate_micros_per_sec p = class_rate_micros_per_sec p div 2"

definition class_shared_burst_micros :: "ChainParams \<Rightarrow> u64" where
  "class_shared_burst_micros p = class_shared_rate_micros_per_sec p"

definition class_reserve_rate_micros_per_sec :: "ChainParams \<Rightarrow> u64" where
  "class_reserve_rate_micros_per_sec p =
     class_shared_rate_micros_per_sec p div word_of_nat (max (pm_max_peers p) 1)"

definition class_reserve_burst_micros :: "u64 \<Rightarrow> u64" where
  "class_reserve_burst_micros cost_micros = saturating_mul cost_micros 2"

definition class_reserve_is_survivable :: "ChainParams \<Rightarrow> u64 \<Rightarrow> bool" where
  "class_reserve_is_survivable p cost_micros \<longleftrightarrow>
     cost_micros \<le> saturating_mul (class_reserve_rate_micros_per_sec p) 30"

definition class_aggregate_rate_micros_per_sec :: "ChainParams \<Rightarrow> u64" where
  "class_aggregate_rate_micros_per_sec p =
     saturating_add (class_shared_rate_micros_per_sec p)
       (saturating_mul (class_reserve_rate_micros_per_sec p) (word_of_nat (pm_max_sources p)))"

section \<open>Facts\<close>

lemma from_raw_Some:
  "length raw = 132 \<Longrightarrow> \<exists>h. header_decode raw = Inr h \<and> header_encode h = raw \<and>
     from_raw raw = Some \<lparr>hr_height = hd_height h, hr_hash = header_hash raw, hr_prev_hash = hd_prev_hash h,
       hr_time = hd_time h, hr_bits = hd_bits h, hr_raw = raw\<rparr>"
proof -
  assume l: "length raw = 132"
  then obtain h where h: "header_decode raw = Inr h" by (auto simp: header_decode_def require_exact_def)
  then have "header_encode h = raw" using header.dec_iff [of raw h] by simp
  then show ?thesis using h by (simp add: from_raw_def)
qed

lemma default_pow_limit_eq: "default_pow_limit = POW_LIMIT"
  unfolding target_val_inj [symmetric] target_val_POW_LIMIT
  by (simp add: default_pow_limit_def target_val_def unsigned_minus_1_eq_mask mask_eq_exp_minus_1)

text \<open>The budgets of all sources and the shared pool together stay within the class rate, as long
  as there are no more sources than peers: the boot check never fails for lack of capacity.\<close>

lemma class_rates_fit:
  assumes "pm_max_sources p \<le> pm_max_peers p" "pm_max_peers p < 2 ^ 64"
  shows "class_aggregate_rate_micros_per_sec p \<le> class_rate_micros_per_sec p"
proof -
  define r where "r = unat (class_rate_micros_per_sec p)"
  define k where "k = max (pm_max_peers p) 1"
  have k: "unat (word_of_nat k :: u64) = k" "1 \<le> k" "pm_max_sources p \<le> k"
    using assms by (simp_all add: k_def unat_of_nat)
  have n: "unat (word_of_nat (pm_max_sources p) :: u64) = pm_max_sources p"
    using assms by (simp add: unat_of_nat)
  have shared: "unat (class_shared_rate_micros_per_sec p) = r div 2"
    by (simp add: class_shared_rate_micros_per_sec_def r_def unat_div)
  have reserve: "unat (class_reserve_rate_micros_per_sec p) = r div 2 div k"
    unfolding class_reserve_rate_micros_per_sec_def k_def [symmetric] unat_div shared k(1) ..
  have "r div 2 div k * pm_max_sources p \<le> r div 2 div k * k" using k(3) by (rule mult_le_mono2)
  also have "\<dots> \<le> r div 2" by simp
  finally have "r div 2 + r div 2 div k * pm_max_sources p \<le> r" by linarith
  then show ?thesis
    by (simp add: class_aggregate_rate_micros_per_sec_def word_le_nat_alt unat_saturating_add
        unat_saturating_mul shared reserve n r_def [symmetric])
qed

end
