(* ===== verification/Index.thy ===== *)
theory Index imports ChainTypes begin

text \<open>
  \<open>lib/chain/src/index.rs\<close>: the arena of headers. Nodes refer to their parent by position, a map
  finds them by hash, and a vector lists the canonical chain by height. Indexing past the end of
  the arena panics: those operations return an option, and the invariant \<open>index_ok\<close> excludes it.
  The loops over \<open>prev\<close> links have no bound in the source: they are partial functions, and the
  lemmas show that they return. The debug assertions are preconditions of the lemmas, not
  branches of the model. The lemmas show that every operation keeps the invariant, that the
  ancestry is the path from genesis, that poisoning reaches exactly the descendants, and that
  \<open>branch_base_height\<close> is the height where a branch left the canonical chain.
\<close>

definition NO_PARENT :: u32 where "NO_PARENT = - 1"

definition FLAG_POW_OK :: u8 where "FLAG_POW_OK = 1"
definition FLAG_INVALID :: u8 where "FLAG_INVALID = 2"
definition FLAG_HAVE_BODY :: u8 where "FLAG_HAVE_BODY = 4"

record Node =
  nd_hash :: Hash32
  nd_prev :: u32
  nd_height :: u64
  nd_time :: u64
  nd_bits :: u32
  nd_cum_work :: Work
  nd_branch_base_height :: u64
  nd_flags :: u8

definition pow_ok :: "Node \<Rightarrow> bool" where
  "pow_ok n \<longleftrightarrow> nd_flags n AND FLAG_POW_OK \<noteq> 0"

definition invalid :: "Node \<Rightarrow> bool" where
  "invalid n \<longleftrightarrow> nd_flags n AND FLAG_INVALID \<noteq> 0"

definition have_body :: "Node \<Rightarrow> bool" where
  "have_body n \<longleftrightarrow> nd_flags n AND FLAG_HAVE_BODY \<noteq> 0"

record HeaderIndex =
  hx_nodes :: "Node list"
  hx_by_hash :: "Hash32 \<Rightarrow> u32 option"
  hx_canonical :: "u32 list"

definition index_new :: HeaderIndex where
  "index_new = \<lparr>hx_nodes = [], hx_by_hash = (\<lambda>_. None), hx_canonical = []\<rparr>"

definition node :: "HeaderIndex \<Rightarrow> u32 \<Rightarrow> Node option" where
  "node ix idx = (if unat idx < length (hx_nodes ix) then Some (hx_nodes ix ! unat idx) else None)"

definition index_of :: "HeaderIndex \<Rightarrow> Hash32 \<Rightarrow> u32 option" where
  "index_of ix h = hx_by_hash ix h"

definition index_get :: "HeaderIndex \<Rightarrow> Hash32 \<Rightarrow> Node option option" where
  "index_get ix h = (case index_of ix h of None \<Rightarrow> Some None | Some i \<Rightarrow> map_option Some (node ix i))"

definition index_contains :: "HeaderIndex \<Rightarrow> Hash32 \<Rightarrow> bool" where
  "index_contains ix h \<longleftrightarrow> hx_by_hash ix h \<noteq> None"

definition tip_index :: "HeaderIndex \<Rightarrow> u32 option" where
  "tip_index ix = (if hx_canonical ix = [] then None else Some (last (hx_canonical ix)))"

definition index_tip :: "HeaderIndex \<Rightarrow> Node option" where
  "index_tip ix = do { i \<leftarrow> tip_index ix; node ix i }"

definition index_tip_height :: "HeaderIndex \<Rightarrow> u64 option" where
  "index_tip_height ix = do { n \<leftarrow> index_tip ix; Some (nd_height n) }"

definition canonical_at :: "HeaderIndex \<Rightarrow> u64 \<Rightarrow> Node option option" where
  "canonical_at ix height =
     (if unat height < length (hx_canonical ix)
      then map_option Some (node ix (hx_canonical ix ! unat height)) else Some None)"

text \<open>\<open>self.canonical.get(h) == Some(&idx)\<close>.\<close>

definition canonical_holds :: "u32 list \<Rightarrow> u64 \<Rightarrow> u32 \<Rightarrow> bool" where
  "canonical_holds canonical h idx \<longleftrightarrow> unat h < length canonical \<and> canonical ! unat h = idx"

definition is_canonical :: "HeaderIndex \<Rightarrow> u32 \<Rightarrow> bool option" where
  "is_canonical ix idx = do { n \<leftarrow> node ix idx; Some (canonical_holds (hx_canonical ix) (nd_height n) idx) }"

definition insert_genesis :: "HeaderIndex \<Rightarrow> HeaderRec \<Rightarrow> Work \<Rightarrow> (u32 \<times> HeaderIndex) option" where
  "insert_genesis ix r work =
     (if hx_nodes ix \<noteq> [] then None
      else Some (0, \<lparr>hx_nodes = hx_nodes ix @ [\<lparr>nd_hash = hr_hash r, nd_prev = NO_PARENT,
               nd_height = hr_height r, nd_time = hr_time r, nd_bits = hr_bits r, nd_cum_work = work,
               nd_branch_base_height = hr_height r, nd_flags = FLAG_POW_OK OR FLAG_HAVE_BODY\<rparr>],
             hx_by_hash = (hx_by_hash ix)(hr_hash r \<mapsto> 0),
             hx_canonical = hx_canonical ix @ [0]\<rparr>))"

definition index_insert :: "HeaderIndex \<Rightarrow> HeaderRec \<Rightarrow> u32 \<Rightarrow> Work \<Rightarrow> bool \<Rightarrow> (u32 \<times> HeaderIndex) option" where
  "index_insert ix r parent cum_work ok =
     (case index_of ix (hr_hash r) of
        Some existing \<Rightarrow> Some (existing, ix)
      | None \<Rightarrow> do {
          p \<leftarrow> node ix parent;
          canon \<leftarrow> is_canonical ix parent;
          let branch_base_height = (if canon then nd_height p else nd_branch_base_height p);
          let idx = word_of_nat (length (hx_nodes ix));
          let flags = (if ok then FLAG_POW_OK else 0) OR (if invalid p then FLAG_INVALID else 0);
          Some (idx, \<lparr>hx_nodes = hx_nodes ix @ [\<lparr>nd_hash = hr_hash r, nd_prev = parent,
                   nd_height = hr_height r, nd_time = hr_time r, nd_bits = hr_bits r, nd_cum_work = cum_work,
                   nd_branch_base_height = branch_base_height, nd_flags = flags\<rparr>],
                 hx_by_hash = (hx_by_hash ix)(hr_hash r \<mapsto> idx),
                 hx_canonical = hx_canonical ix\<rparr>)
        })"

definition set_flag :: "u8 \<Rightarrow> HeaderIndex \<Rightarrow> u32 \<Rightarrow> HeaderIndex option" where
  "set_flag flag ix idx = do {
     n \<leftarrow> node ix idx;
     Some (ix\<lparr>hx_nodes := (hx_nodes ix)[unat idx := n\<lparr>nd_flags := nd_flags n OR flag\<rparr>]\<rparr>)
   }"

definition set_have_body :: "HeaderIndex \<Rightarrow> u32 \<Rightarrow> HeaderIndex option" where
  "set_have_body ix idx = set_flag FLAG_HAVE_BODY ix idx"

definition set_invalid_flag :: "HeaderIndex \<Rightarrow> u32 \<Rightarrow> HeaderIndex option" where
  "set_invalid_flag ix idx = set_flag FLAG_INVALID ix idx"

text \<open>One step of the pass of \<open>mark_invalid\<close>, on the nodes and the count.\<close>

definition poison_step :: "nat \<Rightarrow> Node list \<times> u64 \<Rightarrow> (Node list \<times> u64) option" where
  "poison_step i s =
     (let (ns, poisoned) = s; n = ns ! i
      in if nd_prev n = NO_PARENT then Some s
         else if length ns \<le> unat (nd_prev n) then None
         else if invalid (ns ! unat (nd_prev n)) \<and> \<not> invalid n
         then Some (ns[i := n\<lparr>nd_flags := nd_flags n OR FLAG_INVALID\<rparr>], poisoned + 1)
         else Some s)"

definition mark_invalid :: "HeaderIndex \<Rightarrow> u32 \<Rightarrow> (u64 \<times> HeaderIndex) option" where
  "mark_invalid ix idx = do {
     ix \<leftarrow> set_flag FLAG_INVALID ix idx;
     (ns, poisoned) \<leftarrow> for_each poison_step [unat idx + 1..<length (hx_nodes ix)] (hx_nodes ix, 0);
     Some (poisoned, ix\<lparr>hx_nodes := ns\<rparr>)
   }"

definition rebase_step :: "u32 list \<Rightarrow> nat \<Rightarrow> Node list \<Rightarrow> Node list option" where
  "rebase_step canonical i ns =
     (let n = ns ! i; prev = nd_prev n
      in if prev = NO_PARENT then Some (ns[i := n\<lparr>nd_branch_base_height := nd_height n\<rparr>])
         else if length ns \<le> unat prev then None
         else let p = ns ! unat prev;
                  base = (if canonical_holds canonical (nd_height p) prev then nd_height p
                          else nd_branch_base_height p)
              in Some (ns[i := n\<lparr>nd_branch_base_height := base\<rparr>]))"

definition set_canonical :: "HeaderIndex \<Rightarrow> u32 list \<Rightarrow> HeaderIndex option" where
  "set_canonical ix chain = do {
     ns \<leftarrow> for_each (rebase_step chain) [0..<length (hx_nodes ix)] (hx_nodes ix);
     Some (ix\<lparr>hx_canonical := chain, hx_nodes := ns\<rparr>)
   }"

partial_function (option) ancestry_loop :: "HeaderIndex \<Rightarrow> u32 \<Rightarrow> u32 list \<Rightarrow> u32 list option" where
  "ancestry_loop ix cur out =
     (case node ix cur of
        None \<Rightarrow> None
      | Some n \<Rightarrow>
          (let out = out @ [cur]; prev = nd_prev n
           in if prev = NO_PARENT then Some out else ancestry_loop ix prev out))"

definition ancestry :: "HeaderIndex \<Rightarrow> u32 \<Rightarrow> u32 list option" where
  "ancestry ix idx = do { out \<leftarrow> ancestry_loop ix idx []; Some (rev out) }"

partial_function (option) ancestor_at :: "HeaderIndex \<Rightarrow> u32 \<Rightarrow> u64 \<Rightarrow> u32 option option" where
  "ancestor_at ix cur height =
     (case node ix cur of
        None \<Rightarrow> None
      | Some n \<Rightarrow>
          if nd_height n = height then Some (Some cur)
          else if nd_height n < height \<or> nd_prev n = NO_PARENT then Some None
          else ancestor_at ix (nd_prev n) height)"

fun time_loop :: "HeaderIndex \<Rightarrow> u32 \<Rightarrow> nat \<Rightarrow> u64 list \<Rightarrow> u64 list option" where
  "time_loop ix cur 0 out = Some out"
| "time_loop ix cur (Suc k) out = do {
     n \<leftarrow> node ix cur;
     let out = out @ [nd_time n];
     if nd_prev n = NO_PARENT then Some out else time_loop ix (nd_prev n) k out
   }"

definition time_window :: "HeaderIndex \<Rightarrow> u32 \<Rightarrow> nat \<Rightarrow> u64 list option" where
  "time_window ix idx span = do { out \<leftarrow> time_loop ix idx span []; Some (rev out) }"

definition side_count :: "HeaderIndex \<Rightarrow> nat" where
  "side_count ix = length (hx_nodes ix) - length (hx_canonical ix)"

definition index_indices :: "HeaderIndex \<Rightarrow> u32 list" where
  "index_indices ix = map word_of_nat [0..<length (hx_nodes ix)]"

section \<open>The arena is a tree\<close>

text \<open>Every node but the first has its parent before it, one block lower.\<close>

abbreviation par :: "Node list \<Rightarrow> nat \<Rightarrow> nat" where
  "par ns i \<equiv> unat (nd_prev (ns ! i))"

abbreviation hgt :: "Node list \<Rightarrow> nat \<Rightarrow> nat" where
  "hgt ns i \<equiv> unat (nd_height (ns ! i))"

definition nodes_ok :: "Node list \<Rightarrow> bool" where
  "nodes_ok ns \<longleftrightarrow> ns \<noteq> [] \<and> length ns < 2 ^ 32 - 1 \<and> nd_prev (ns ! 0) = NO_PARENT \<and> nd_height (ns ! 0) = 0 \<and>
     (\<forall>i. 0 < i \<longrightarrow> i < length ns \<longrightarrow> par ns i < i \<and> hgt ns i = hgt ns (par ns i) + 1)"

lemma nodes_ok_par:
  assumes "nodes_ok ns" "0 < i" "i < length ns"
  shows "par ns i < i" "par ns i < length ns" "hgt ns i = hgt ns (par ns i) + 1"
proof -
  show "par ns i < i" "hgt ns i = hgt ns (par ns i) + 1" using assms by (simp_all add: nodes_ok_def)
  then show "par ns i < length ns" using assms(3) by linarith
qed

text \<open>The positions from genesis to a node.\<close>

function path :: "Node list \<Rightarrow> nat \<Rightarrow> nat list" where
  "path ns i = (if 0 < i \<and> par ns i < i then path ns (par ns i) @ [i] else [i])"
  by pat_completeness auto
termination by (relation "measure snd") auto

declare path.simps [simp del]

lemma path_0 [simp]: "path ns 0 = [0]"
  by (simp add: path.simps [of ns 0])

lemma path_step: "nodes_ok ns \<Longrightarrow> 0 < i \<Longrightarrow> i < length ns \<Longrightarrow> path ns i = path ns (par ns i) @ [i]"
  by (subst path.simps) (auto simp: nodes_ok_def)

lemma path_induct [consumes 2, case_names genesis child]:
  assumes "nodes_ok ns" "i < length ns"
    and "P 0"
    and "\<And>i. 0 < i \<Longrightarrow> i < length ns \<Longrightarrow> par ns i < i \<Longrightarrow> P (par ns i) \<Longrightarrow> P i"
  shows "P i"
  using assms(2)
proof (induction i rule: less_induct)
  case (less i)
  then show ?case using assms by (cases "i = 0") (auto simp: nodes_ok_def)
qed

lemma path_nonempty [simp]: "path ns i \<noteq> []"
  by (subst path.simps) auto

lemma last_path [simp]: "last (path ns i) = i"
  by (subst path.simps) auto

lemma prev_none_iff: "nodes_ok ns \<Longrightarrow> i < length ns \<Longrightarrow> nd_prev (ns ! i) = NO_PARENT \<longleftrightarrow> i = 0"
proof
  assume ok: "nodes_ok ns" and i: "i < length ns" and n: "nd_prev (ns ! i) = NO_PARENT"
  show "i = 0"
  proof (rule ccontr)
    assume "i \<noteq> 0"
    then have "par ns i < i" "length ns < 2 ^ 32 - 1" using ok i by (auto simp: nodes_ok_def)
    moreover have "par ns i = 2 ^ 32 - 1"
      by (simp add: n NO_PARENT_def unsigned_minus_1_eq_mask mask_eq_exp_minus_1)
    ultimately show False using i by simp
  qed
qed (auto simp: nodes_ok_def)

lemma path_length:
  assumes "nodes_ok ns" "i < length ns"
  shows "length (path ns i) = hgt ns i + 1"
  using assms
proof (induction i rule: path_induct)
  case genesis
  then show ?case using assms(1) by (simp add: nodes_ok_def)
next
  case (child i)
  then show ?case using assms(1) by (simp add: path_step nodes_ok_def)
qed

lemma path_bound:
  assumes "nodes_ok ns" "i < length ns" "j \<in> set (path ns i)"
  shows "j \<le> i"
  using assms
proof (induction i rule: path_induct)
  case (child i)
  then show ?case using assms(1) by (auto simp: path_step)
qed simp

lemma path_height_le:
  assumes "nodes_ok ns" "i < length ns"
  shows "hgt ns i \<le> i"
  using assms
proof (induction i rule: path_induct)
  case genesis
  then show ?case using assms(1) by (simp add: nodes_ok_def)
next
  case (child i)
  then show ?case using assms(1) by (simp add: nodes_ok_def)
qed

lemma path_of_member:
  assumes "nodes_ok ns" "i < length ns" "j \<in> set (path ns i)"
  shows "path ns j = take (hgt ns j + 1) (path ns i)"
  using assms
proof (induction i rule: path_induct)
  case genesis
  then show ?case by simp
next
  case (child i)
  show ?case
  proof (cases "j = i")
    case True
    then show ?thesis using path_length [OF assms(1) child.hyps(2)] by simp
  next
    case False
    then have j: "j \<in> set (path ns (par ns i))" using child assms(1) by (simp add: path_step)
    then have "j \<le> par ns i" using path_bound assms(1) child.hyps(2,3) by (meson less_trans)
    have "path ns j = take (hgt ns j + 1) (path ns (par ns i))" using child j by simp
    moreover have "length (path ns j) = hgt ns j + 1"
      using path_length [OF assms(1), of j] \<open>j \<le> par ns i\<close> child.hyps by simp
    ultimately show ?thesis using child.hyps assms(1) by (simp add: path_step)
  qed
qed

lemma path_nth:
  assumes "nodes_ok ns" "i < length ns" "k \<le> hgt ns i"
  shows "path ns i ! k < length ns" "hgt ns (path ns i ! k) = k" "path ns (path ns i ! k) = take (k + 1) (path ns i)"
proof -
  have k: "k < length (path ns i)" using path_length [OF assms(1,2)] assms(3) by simp
  then have m: "path ns i ! k \<in> set (path ns i)" by simp
  then show lt: "path ns i ! k < length ns" using path_bound [OF assms(1,2)] assms(2) by fastforce
  show h: "hgt ns (path ns i ! k) = k"
    using assms
  proof (induction i arbitrary: k rule: path_induct)
    case genesis
    then show ?case using assms(1) by (simp add: nodes_ok_def)
  next
    case (child i)
    have "hgt ns i = hgt ns (par ns i) + 1" using child.hyps assms(1) by (simp add: nodes_ok_def)
    moreover have "length (path ns (par ns i)) = hgt ns (par ns i) + 1"
      using child.hyps assms(1) by (simp add: path_length)
    ultimately show ?case
      using child by (cases "k = hgt ns i") (simp_all add: path_step assms(1) nth_append)
  qed
  show "path ns (path ns i ! k) = take (k + 1) (path ns i)"
    using path_of_member [OF assms(1,2) m] h by simp
qed

lemma path_unique_height:
  assumes "nodes_ok ns" "i < length ns" "j \<in> set (path ns i)"
  shows "path ns i ! hgt ns j = j"
proof -
  obtain k where k: "k < length (path ns i)" "path ns i ! k = j" using assms(3) by (auto simp: in_set_conv_nth)
  then have "hgt ns j = k" using path_nth(2) [OF assms(1,2), of k] path_length [OF assms(1,2)] by simp
  then show ?thesis using k by simp
qed

text \<open>The paths of two arenas with the same links are the same.\<close>

lemma path_cong:
  assumes "\<And>j. j \<le> i \<Longrightarrow> nd_prev (ns ! j) = nd_prev (ms ! j)"
  shows "path ns i = path ms i"
  using assms
proof (induction ns i rule: path.induct)
  case (1 ns i)
  then show ?case by (simp add: path.simps [of ns i] path.simps [of ms i])
qed

section \<open>The invariant\<close>

text \<open>
  \<open>base_of\<close> is what \<open>branch_base_height\<close> means: the height of the last canonical node among the
  proper ancestors (the genesis node has its own height).
\<close>

definition base_of :: "Node list \<Rightarrow> nat set \<Rightarrow> nat list \<Rightarrow> nat" where
  "base_of ns canon is =
     (let js = filter (\<lambda>j. j \<in> canon) (butlast is) in if js = [] then 0 else hgt ns (last js))"

definition canon_ok :: "Node list \<Rightarrow> u32 list \<Rightarrow> bool" where
  "canon_ok ns canonical \<longleftrightarrow> (\<exists>t < length ns. map unat canonical = path ns t)"

definition by_hash_ok :: "Node list \<Rightarrow> (Hash32 \<Rightarrow> u32 option) \<Rightarrow> bool" where
  "by_hash_ok ns by_hash \<longleftrightarrow> (\<forall>h i. by_hash h = Some i \<longleftrightarrow> unat i < length ns \<and> nd_hash (ns ! unat i) = h)"

definition poison_ok :: "Node list \<Rightarrow> bool" where
  "poison_ok ns \<longleftrightarrow> (\<forall>i. 0 < i \<longrightarrow> i < length ns \<longrightarrow> invalid (ns ! par ns i) \<longrightarrow> invalid (ns ! i))"

definition bases_ok :: "Node list \<Rightarrow> u32 list \<Rightarrow> bool" where
  "bases_ok ns canonical \<longleftrightarrow>
     (\<forall>i < length ns. unat (nd_branch_base_height (ns ! i)) = base_of ns (unat ` set canonical) (path ns i))"

definition index_ok :: "HeaderIndex \<Rightarrow> bool" where
  "index_ok ix \<longleftrightarrow> nodes_ok (hx_nodes ix) \<and> by_hash_ok (hx_nodes ix) (hx_by_hash ix) \<and>
     canon_ok (hx_nodes ix) (hx_canonical ix) \<and> poison_ok (hx_nodes ix) \<and> bases_ok (hx_nodes ix) (hx_canonical ix)"

lemma index_okD:
  assumes "index_ok ix"
  shows "nodes_ok (hx_nodes ix)" "by_hash_ok (hx_nodes ix) (hx_by_hash ix)" "canon_ok (hx_nodes ix) (hx_canonical ix)"
    "poison_ok (hx_nodes ix)" "bases_ok (hx_nodes ix) (hx_canonical ix)"
  using assms by (auto simp: index_ok_def)

lemma canonical_set: "map unat cs = path ns t \<Longrightarrow> unat ` set cs = set (path ns t)"
  by (metis set_map)

lemma canonical_holds_iff:
  assumes "nodes_ok ns" "canon_ok ns cs" "unat i < length ns"
  shows "canonical_holds cs (nd_height (ns ! unat i)) i \<longleftrightarrow> unat i \<in> unat ` set cs"
proof -
  obtain t where t: "t < length ns" "map unat cs = path ns t" using assms(2) by (auto simp: canon_ok_def)
  have nth: "unat (cs ! k) = path ns t ! k" if "k < length cs" for k
    using t(2) that by (metis nth_map)
  have len: "length cs = length (path ns t)" using t(2) by (metis length_map)
  show ?thesis
  proof
    assume "canonical_holds cs (nd_height (ns ! unat i)) i"
    then have "i \<in> set cs" unfolding canonical_holds_def by (metis nth_mem)
    then show "unat i \<in> unat ` set cs" by simp
  next
    assume "unat i \<in> unat ` set cs"
    then have m: "unat i \<in> set (path ns t)" unfolding canonical_set [OF t(2)] .
    have "path ns t ! hgt ns (unat i) = unat i" by (rule path_unique_height [OF assms(1) t(1) m])
    moreover have "hgt ns (unat i) < length cs"
      using path_of_member [OF assms(1) t(1) m] path_length [OF assms(1,3)] unfolding len
      by (metis Suc_eq_plus1 length_take lessI min.strict_boundedE)
    ultimately show "canonical_holds cs (nd_height (ns ! unat i)) i"
      using nth by (auto simp: canonical_holds_def word_unat_eq_iff)
  qed
qed

lemma base_of_step:
  assumes "nodes_ok ns" "0 < i" "i < length ns"
  shows "base_of ns canon (path ns i) =
    (if par ns i \<in> canon then hgt ns (par ns i) else base_of ns canon (path ns (par ns i)))"
proof -
  have p: "path ns (par ns i) = butlast (path ns (par ns i)) @ [par ns i]"
    by (metis append_butlast_last_id last_path path_nonempty)
  have "filter (\<lambda>j. j \<in> canon) (path ns (par ns i)) =
      filter (\<lambda>j. j \<in> canon) (butlast (path ns (par ns i))) @ (if par ns i \<in> canon then [par ns i] else [])"
    by (subst p) simp
  then show ?thesis
    using assms by (simp add: base_of_def path_step Let_def)
qed

lemma base_of_genesis [simp]: "base_of ns canon [i] = 0"
  by (simp add: base_of_def)

text \<open>A list of nodes that changes neither links nor heights keeps the tree.\<close>

definition same_links :: "Node list \<Rightarrow> Node list \<Rightarrow> bool" where
  "same_links ns ms \<longleftrightarrow> length ns = length ms \<and>
     (\<forall>i < length ns. nd_prev (ns ! i) = nd_prev (ms ! i) \<and> nd_height (ns ! i) = nd_height (ms ! i))"

lemma same_links_path: "same_links ns ms \<Longrightarrow> i < length ns \<Longrightarrow> path ns i = path ms i"
  by (rule path_cong) (simp add: same_links_def)

lemma same_links_nodes_ok: "same_links ns ms \<Longrightarrow> nodes_ok ns \<Longrightarrow> nodes_ok ms"
proof -
  assume s: "same_links ns ms" and ok: "nodes_ok ns"
  have "0 < length ns" "length ns = length ms" using s ok by (auto simp: same_links_def nodes_ok_def)
  moreover have "par ms i < i \<and> hgt ms i = hgt ms (par ms i) + 1" if "0 < i" "i < length ms" for i
  proof -
    have i: "i < length ns" using s that by (simp add: same_links_def)
    then have "par ns i < i" "hgt ns i = hgt ns (par ns i) + 1" using ok that by (auto simp: nodes_ok_def)
    then show ?thesis using s i by (auto simp: same_links_def)
  qed
  ultimately show ?thesis using s ok unfolding nodes_ok_def by (auto simp: same_links_def)
qed

lemma same_links_canon_ok: "same_links ns ms \<Longrightarrow> canon_ok ns cs \<Longrightarrow> canon_ok ms cs"
  unfolding canon_ok_def using same_links_path by (metis same_links_def)

lemma base_of_cong: "(\<And>j. j \<in> set is \<Longrightarrow> hgt ns j = hgt ms j) \<Longrightarrow> base_of ns canon is = base_of ms canon is"
proof -
  assume eq: "\<And>j. j \<in> set is \<Longrightarrow> hgt ns j = hgt ms j"
  define js where "js = filter (\<lambda>j. j \<in> canon) (butlast is)"
  have "last js \<in> set is" if "js \<noteq> []"
    using last_in_set [OF that] by (auto simp: js_def dest: in_set_butlastD)
  then show ?thesis using eq by (simp add: base_of_def js_def Let_def)
qed

lemma same_links_base:
  assumes "same_links ns ms" "nodes_ok ns" "i < length ns"
  shows "base_of ns canon (path ns i) = base_of ms canon (path ms i)"
  unfolding same_links_path [OF assms(1,3), symmetric]
  by (rule base_of_cong) (use path_bound [OF assms(2,3)] assms(1,3) in \<open>fastforce simp: same_links_def\<close>)

section \<open>Walking the links\<close>

definition upath :: "Node list \<Rightarrow> nat \<Rightarrow> u32 list" where
  "upath ns i = map word_of_nat (path ns i)"

lemma unat_index: "nodes_ok ns \<Longrightarrow> i < length ns \<Longrightarrow> unat (word_of_nat i :: u32) = i"
  by (simp add: nodes_ok_def unat_of_nat)

lemma map_unat_upath: "nodes_ok ns \<Longrightarrow> i < length ns \<Longrightarrow> map unat (upath ns i) = path ns i"
proof -
  assume a: "nodes_ok ns" "i < length ns"
  then have "unat (word_of_nat j :: u32) = j" if "j \<in> set (path ns i)" for j
    using path_bound [OF a that] by (intro unat_index) auto
  then show ?thesis by (simp add: upath_def map_idI)
qed

lemma upath_step: "nodes_ok ns \<Longrightarrow> 0 < unat i \<Longrightarrow> unat i < length ns \<Longrightarrow>
    upath ns (unat i) = upath ns (par ns (unat i)) @ [i]"
  by (simp add: upath_def path_step)

lemma node_Some [simp]: "unat i < length (hx_nodes ix) \<Longrightarrow> node ix i = Some (hx_nodes ix ! unat i)"
  by (simp add: node_def)

lemma walk_induct [consumes 2, case_names genesis child]:
  assumes "nodes_ok ns" "unat (i :: u32) < length ns"
    and "P 0"
    and "\<And>i. 0 < unat i \<Longrightarrow> unat i < length ns \<Longrightarrow> par ns (unat i) < unat i \<Longrightarrow>
      nd_prev (ns ! unat i) \<noteq> NO_PARENT \<Longrightarrow> P (nd_prev (ns ! unat i)) \<Longrightarrow> P i"
  shows "P i"
  using assms(2)
proof (induction "unat i" arbitrary: i rule: less_induct)
  case less
  show ?case
  proof (cases "unat i = 0")
    case True
    then show ?thesis using assms(3) by (simp add: unat_eq_0)
  next
    case False
    then have p: "par ns (unat i) < unat i" using assms(1) less.prems unfolding nodes_ok_def by simp
    have n: "nd_prev (ns ! unat i) \<noteq> NO_PARENT" using prev_none_iff [OF assms(1) less.prems] False by simp
    have "P (nd_prev (ns ! unat i))" using less.hyps [OF p] p less.prems by (meson less_trans)
    then show ?thesis using assms(4) [of i] False less.prems p n by simp
  qed
qed

lemma ancestry_loop_path:
  assumes "nodes_ok (hx_nodes ix)" "unat i < length (hx_nodes ix)"
  shows "ancestry_loop ix i out = Some (out @ rev (upath (hx_nodes ix) (unat i)))"
  using assms
proof (induction i arbitrary: out rule: walk_induct)
  case genesis
  have "0 < length (hx_nodes ix)" "nd_prev (hx_nodes ix ! 0) = NO_PARENT" using assms(1) by (auto simp: nodes_ok_def)
  then show ?case by (subst ancestry_loop.simps) (simp add: upath_def)
next
  case (child i)
  then show ?case
    using assms(1) by (subst ancestry_loop.simps) (simp add: Let_def upath_step)
qed

lemma ancestry_path:
  "nodes_ok (hx_nodes ix) \<Longrightarrow> unat i < length (hx_nodes ix) \<Longrightarrow>
   ancestry ix i = Some (upath (hx_nodes ix) (unat i))"
  by (simp add: ancestry_def ancestry_loop_path)

lemma ancestor_at_path:
  assumes "nodes_ok (hx_nodes ix)" "unat i < length (hx_nodes ix)"
  shows "ancestor_at ix i h =
    Some (if unat h \<le> hgt (hx_nodes ix) (unat i) then Some (upath (hx_nodes ix) (unat i) ! unat h) else None)"
  using assms
proof (induction i rule: walk_induct)
  case genesis
  have "0 < length (hx_nodes ix)" "nd_prev (hx_nodes ix ! 0) = NO_PARENT" "nd_height (hx_nodes ix ! 0) = 0"
    using assms(1) by (auto simp: nodes_ok_def)
  then show ?case
    by (subst ancestor_at.simps) (auto simp: upath_def unat_eq_0 word_neq_0_conv)
next
  case (child i)
  let ?ns = "hx_nodes ix"
  have h: "hgt ?ns (unat i) = hgt ?ns (par ?ns (unat i)) + 1"
    using assms(1) child.hyps by (simp add: nodes_ok_def)
  have len: "length (upath ?ns (par ?ns (unat i))) = hgt ?ns (unat i)"
    using path_length [OF assms(1), of "par ?ns (unat i)"] child.hyps h by (simp add: upath_def)
  have p: "upath ?ns (unat i) = upath ?ns (par ?ns (unat i)) @ [i]"
    using assms(1) child.hyps by (simp add: upath_step)
  consider "unat h = hgt ?ns (unat i)" | "hgt ?ns (unat i) < unat h" | "unat h < hgt ?ns (unat i)" by linarith
  then show ?case
  proof cases
    case 1
    then have "nd_height (?ns ! unat i) = h" by (simp add: word_unat_eq_iff)
    then show ?thesis using 1 child.hyps len by (subst ancestor_at.simps) (simp add: p nth_append)
  next
    case 2
    then have "nd_height (?ns ! unat i) < h" by (simp add: word_less_nat_alt)
    then show ?thesis using 2 child.hyps by (subst ancestor_at.simps) auto
  next
    case 3
    then have "nd_height (?ns ! unat i) \<noteq> h" "\<not> nd_height (?ns ! unat i) < h"
      by (auto simp: word_less_nat_alt)
    then show ?thesis
      using 3 child h len by (subst ancestor_at.simps) (simp add: p nth_append)
  qed
qed

lemma time_loop_path:
  assumes "nodes_ok (hx_nodes ix)" "unat i < length (hx_nodes ix)"
  shows "time_loop ix i k out =
    Some (out @ take k (map (\<lambda>j. nd_time (hx_nodes ix ! j)) (rev (path (hx_nodes ix) (unat i)))))"
  using assms
proof (induction i arbitrary: k out rule: walk_induct)
  case genesis
  have "0 < length (hx_nodes ix)" "nd_prev (hx_nodes ix ! 0) = NO_PARENT" using assms(1) by (auto simp: nodes_ok_def)
  then show ?case by (cases k) (simp_all add: Let_def)
next
  case (child i)
  then show ?case using assms(1) by (cases k) (simp_all add: Let_def path_step)
qed

lemma time_window_path:
  assumes "nodes_ok (hx_nodes ix)" "unat i < length (hx_nodes ix)"
  shows "time_window ix i span = Some (drop (hgt (hx_nodes ix) (unat i) + 1 - span)
    (map (\<lambda>j. nd_time (hx_nodes ix ! j)) (path (hx_nodes ix) (unat i))))"
  using path_length [OF assms]
  by (simp add: time_window_def time_loop_path [OF assms] rev_map [symmetric] rev_take)

section \<open>Insertion\<close>

lemma path_append:
  assumes "nodes_ok ns" "i < length ns"
  shows "path (ns @ [n]) i = path ns i"
  by (rule path_cong) (use assms in \<open>simp add: nth_append\<close>)

lemma nodes_ok_append:
  assumes "nodes_ok ns" "unat (nd_prev n) < length ns" "hgt ns (unat (nd_prev n)) + 1 = unat (nd_height n)"
    "length ns + 1 < 2 ^ 32 - 1"
  shows "nodes_ok (ns @ [n])"
proof -
  have "par (ns @ [n]) i < i \<and> hgt (ns @ [n]) i = hgt (ns @ [n]) (par (ns @ [n]) i) + 1"
    if "0 < i" "i < length (ns @ [n])" for i
  proof (cases "i = length ns")
    case True
    then show ?thesis using assms(2,3) by (simp add: nth_append)
  next
    case False
    then have "i < length ns" using that by simp
    then show ?thesis using nodes_ok_par [OF assms(1) that(1)] by (simp add: nth_append)
  qed
  moreover have "0 < length ns" using assms(1) by (auto simp: nodes_ok_def)
  ultimately show ?thesis using assms(1,4) unfolding nodes_ok_def by (auto simp: nth_append)
qed

lemma insert_index_ok:
  assumes ok: "index_ok ix" and fresh: "index_of ix (hr_hash r) = None"
    and parent: "unat parent < length (hx_nodes ix)"
    and height: "unat (hr_height r) = hgt (hx_nodes ix) (unat parent) + 1"
    and room: "length (hx_nodes ix) + 1 < 2 ^ 32 - 1"
  obtains idx n ix' where "index_insert ix r parent w good = Some (idx, ix')" "index_ok ix'"
    "unat idx = length (hx_nodes ix)" "hx_nodes ix' = hx_nodes ix @ [n]" "hx_canonical ix' = hx_canonical ix"
    "n = \<lparr>nd_hash = hr_hash r, nd_prev = parent, nd_height = hr_height r, nd_time = hr_time r, nd_bits = hr_bits r,
       nd_cum_work = w, nd_branch_base_height = nd_branch_base_height n, nd_flags = nd_flags n\<rparr>"
    "pow_ok n = good" "invalid n \<longleftrightarrow> invalid (hx_nodes ix ! unat parent)"
proof -
  let ?ns = "hx_nodes ix" and ?C = "unat ` set (hx_canonical ix)"
  note D = index_okD [OF ok]
  let ?p = "?ns ! unat parent"
  define n where "n = \<lparr>nd_hash = hr_hash r, nd_prev = parent, nd_height = hr_height r, nd_time = hr_time r,
    nd_bits = hr_bits r, nd_cum_work = w,
    nd_branch_base_height = (if canonical_holds (hx_canonical ix) (nd_height ?p) parent then nd_height ?p
       else nd_branch_base_height ?p),
    nd_flags = (if good then FLAG_POW_OK else 0) OR (if invalid ?p then FLAG_INVALID else 0)\<rparr>"
  define ix' where "ix' = \<lparr>hx_nodes = ?ns @ [n], hx_by_hash = (hx_by_hash ix)(hr_hash r \<mapsto> word_of_nat (length ?ns)),
    hx_canonical = hx_canonical ix\<rparr>"
  have ins: "index_insert ix r parent w good = Some (word_of_nat (length ?ns), ix')"
    using fresh parent by (simp add: index_insert_def is_canonical_def n_def ix'_def Let_def)
  have u: "unat (word_of_nat (length ?ns) :: u32) = length ?ns" using room by (simp add: unat_of_nat)
  have nodes: "nodes_ok (?ns @ [n])"
    using D(1) parent height room by (intro nodes_ok_append) (simp_all add: n_def)
  have flags: "pow_ok n = good" "invalid n \<longleftrightarrow> invalid ?p"
    by (simp_all add: n_def pow_ok_def invalid_def FLAG_POW_OK_def FLAG_INVALID_def)
  have par_new: "par (?ns @ [n]) (length ?ns) = unat parent" by (simp add: n_def)
  have paths: "path (?ns @ [n]) i = path ?ns i" if "i < length ?ns" for i
    using D(1) that by (rule path_append)
  have bases: "base_of (?ns @ [n]) ?C (path ?ns i) = base_of ?ns ?C (path ?ns i)" if "i < length ?ns" for i
    by (rule base_of_cong) (use path_bound [OF D(1) that] that in \<open>fastforce simp: nth_append\<close>)
  have "by_hash_ok (?ns @ [n]) (hx_by_hash ix')"
  proof -
    have h: "nd_hash n = hr_hash r" by (simp add: n_def)
    have new: "nd_hash (?ns ! unat i) \<noteq> hr_hash r" if "unat i < length ?ns" for i :: u32
      using D(2) fresh that unfolding by_hash_ok_def index_of_def by (metis option.distinct(1))
    show ?thesis
      using D(2) u h new unfolding by_hash_ok_def
      by (auto simp: ix'_def nth_append less_Suc_eq word_unat_eq_iff)
  qed
  moreover have "canon_ok (?ns @ [n]) (hx_canonical ix')"
    using D(3) paths by (auto simp: canon_ok_def ix'_def intro: less_SucI)
  moreover have "poison_ok (?ns @ [n])"
  proof -
    have "invalid ((?ns @ [n]) ! i)" if i: "0 < i" "i < length (?ns @ [n])" "invalid ((?ns @ [n]) ! par (?ns @ [n]) i)" for i
    proof (cases "i = length ?ns")
      case True
      have "nd_prev n = parent" by (simp add: n_def)
      then show ?thesis using True i(3) parent flags(2) by (simp add: nth_append)
    next
      case False
      then have "i < length ?ns" using i by simp
      moreover have "par ?ns i < i" using D(1) i(1) calculation by (auto simp: nodes_ok_def)
      ultimately show ?thesis using D(4) i by (auto simp: poison_ok_def nth_append)
    qed
    then show ?thesis by (auto simp: poison_ok_def)
  qed
  moreover have "bases_ok (?ns @ [n]) (hx_canonical ix')"
  proof -
    have "unat (nd_branch_base_height ((?ns @ [n]) ! i)) = base_of (?ns @ [n]) ?C (path (?ns @ [n]) i)"
      if i: "i < length (?ns @ [n])" for i
    proof (cases "i = length ?ns")
      case True
      have "base_of (?ns @ [n]) ?C (path (?ns @ [n]) (length ?ns)) =
          (if unat parent \<in> ?C then hgt ?ns (unat parent) else base_of ?ns ?C (path ?ns (unat parent)))"
      proof -
        have "0 < length ?ns" "length ?ns < length (?ns @ [n])" using parent by auto
        from base_of_step [OF nodes this, of ?C] show ?thesis
          unfolding par_new bases [OF parent, folded paths [OF parent]] using parent paths [OF parent]
          by (simp add: nth_append)
      qed
      also have "\<dots> = unat (nd_branch_base_height n)"
        using canonical_holds_iff [OF D(1,3) parent] D(5) parent by (simp add: n_def bases_ok_def)
      finally show ?thesis using True by simp
    next
      case False
      then have "i < length ?ns" using i by simp
      then show ?thesis using D(5) bases paths by (simp add: bases_ok_def nth_append)
    qed
    then show ?thesis by (simp add: bases_ok_def ix'_def)
  qed
  ultimately have "index_ok ix'" using nodes by (simp add: index_ok_def ix'_def)
  then show thesis
    using that [OF ins] u flags by (simp add: ix'_def n_def)
qed

lemma insert_known: "index_of ix (hr_hash r) = Some i \<Longrightarrow> index_insert ix r parent w good = Some (i, ix)"
  by (simp add: index_insert_def)

lemma genesis_index_ok:
  assumes "hr_height r = 0"
  obtains ix where "insert_genesis index_new r w = Some (0, ix)" "index_ok ix"
    "length (hx_nodes ix) = 1" "hx_canonical ix = [0]" "nd_hash (hx_nodes ix ! 0) = hr_hash r"
    "nd_cum_work (hx_nodes ix ! 0) = w" "nd_bits (hx_nodes ix ! 0) = hr_bits r"
    "pow_ok (hx_nodes ix ! 0)" "\<not> invalid (hx_nodes ix ! 0)"
proof -
  define n where "n = \<lparr>nd_hash = hr_hash r, nd_prev = NO_PARENT, nd_height = hr_height r, nd_time = hr_time r,
    nd_bits = hr_bits r, nd_cum_work = w, nd_branch_base_height = hr_height r, nd_flags = FLAG_POW_OK OR FLAG_HAVE_BODY\<rparr>"
  define ix where "ix = \<lparr>hx_nodes = [n], hx_by_hash = [hr_hash r \<mapsto> 0], hx_canonical = [0]\<rparr>"
  have "insert_genesis index_new r w = Some (0, ix)"
    by (simp add: insert_genesis_def index_new_def ix_def n_def)
  moreover have "index_ok ix"
    using assms by (auto simp: index_ok_def ix_def nodes_ok_def by_hash_ok_def canon_ok_def poison_ok_def
        bases_ok_def n_def unat_eq_0)
  moreover have "pow_ok n" "\<not> invalid n"
    by (simp_all add: n_def pow_ok_def invalid_def FLAG_POW_OK_def FLAG_INVALID_def FLAG_HAVE_BODY_def)
  moreover have "hx_nodes ix = [n]" "hx_canonical ix = [0]" by (simp_all add: ix_def)
  moreover have "nd_hash n = hr_hash r" "nd_cum_work n = w" "nd_bits n = hr_bits r" by (simp_all add: n_def)
  ultimately show thesis by (intro that [of ix]) simp_all
qed

section \<open>Poisoning\<close>

abbreviation poisoned :: "Node \<Rightarrow> Node" where
  "poisoned n \<equiv> n\<lparr>nd_flags := nd_flags n OR FLAG_INVALID\<rparr>"

lemma invalid_bit: "invalid n \<longleftrightarrow> bit (nd_flags n) 1"
proof -
  have "nd_flags n AND 2 = push_bit 1 (of_bool (bit (nd_flags n) 1))"
    by (rule bit_word_eqI) (auto simp: bit_and_iff bit_push_bit_iff bit_of_bool_iff bit_2_iff)
  then show ?thesis by (simp add: invalid_def FLAG_INVALID_def)
qed

lemma invalid_poisoned [simp]: "invalid (poisoned n)"
  by (simp add: invalid_bit FLAG_INVALID_def bit_or_iff bit_2_iff)

lemma poisoned_invalid: "invalid n \<Longrightarrow> poisoned n = n"
proof -
  assume "invalid n"
  then have "nd_flags n OR FLAG_INVALID = nd_flags n"
    by (intro bit_word_eqI) (auto simp: invalid_bit FLAG_INVALID_def bit_or_iff bit_2_iff)
  then show ?thesis by simp
qed

lemma pow_ok_bit: "pow_ok n \<longleftrightarrow> bit (nd_flags n) 0"
proof -
  have "nd_flags n AND 1 = of_bool (bit (nd_flags n) 0)"
    by (rule bit_word_eqI) (auto simp: bit_and_iff bit_of_bool_iff bit_1_iff)
  then show ?thesis by (simp add: pow_ok_def FLAG_POW_OK_def)
qed

lemma pow_ok_poisoned [simp]: "pow_ok (poisoned n) = pow_ok n"
  by (simp add: pow_ok_bit FLAG_INVALID_def bit_or_iff bit_2_iff)

text \<open>What the pass leaves after looking at the nodes below \<open>i\<close>.\<close>

definition poison_upto :: "Node list \<Rightarrow> nat \<Rightarrow> nat \<Rightarrow> Node list" where
  "poison_upto ns idx i =
     map (\<lambda>j. if idx \<in> set (path ns j) \<and> (j < i \<or> j = idx) then poisoned (ns ! j) else ns ! j) [0..<length ns]"

lemma length_poison_upto [simp]: "length (poison_upto ns idx i) = length ns"
  by (simp add: poison_upto_def)

lemma self_in_path [simp]: "i \<in> set (path ns i)"
  by (subst path.simps) auto

lemma poison_step_upto:
  assumes ok: "nodes_ok ns" "poison_ok ns" and i: "idx < i" "i < length ns"
  shows "poison_step i (poison_upto ns idx i, c) =
    Some (poison_upto ns idx (Suc i), c + of_bool (idx \<in> set (path ns i) \<and> \<not> invalid (ns ! i)))"
proof -
  let ?ms = "poison_upto ns idx i"
  have p: "par ns i < i" "par ns i < length ns" and none: "nd_prev (ns ! i) \<noteq> NO_PARENT"
    using nodes_ok_par [OF ok(1) _ i(2)] i prev_none_iff [OF ok(1) i(2)] by auto
  have nth: "?ms ! i = ns ! i" "?ms ! par ns i = (if idx \<in> set (path ns (par ns i)) then poisoned (ns ! par ns i) else ns ! par ns i)"
    using i p by (simp_all add: poison_upto_def)
  have pi: "idx \<in> set (path ns i) \<longleftrightarrow> idx \<in> set (path ns (par ns i))"
    using path_step [OF ok(1) _ i(2)] i by auto
  have inh: "invalid (ns ! par ns i) \<Longrightarrow> invalid (ns ! i)" using ok(2) i by (auto simp: poison_ok_def)
  have next_ms: "poison_upto ns idx (Suc i) = (if idx \<in> set (path ns i) then ?ms[i := poisoned (ns ! i)] else ?ms)"
    by (rule nth_equalityI) (use i in \<open>auto simp: poison_upto_def nth_list_update less_Suc_eq\<close>)
  have same: "?ms[i := ns ! i] = ?ms" using nth(1) by (metis list_update_id)
  show ?thesis
    unfolding poison_step_def next_ms
    using none p nth pi inh same poisoned_invalid [of "ns ! i"] by (auto simp: Let_def poison_upto_def)
qed

lemma mark_invalid_upto:
  assumes "nodes_ok (hx_nodes ix)" "poison_ok (hx_nodes ix)" "unat idx < length (hx_nodes ix)"
  obtains c where "mark_invalid ix idx = Some (c, ix\<lparr>hx_nodes := poison_upto (hx_nodes ix) (unat idx) (length (hx_nodes ix))\<rparr>)"
    "unat c = card {j. j < length (hx_nodes ix) \<and> j \<noteq> unat idx \<and> unat idx \<in> set (path (hx_nodes ix) j) \<and>
       \<not> invalid (hx_nodes ix ! j)}"
proof -
  let ?ns = "hx_nodes ix" and ?i = "unat idx"
  define news where "news k = {j. ?i < j \<and> j < k \<and> ?i \<in> set (path ?ns j) \<and> \<not> invalid (?ns ! j)}" for k
  have fin: "finite (news k)" for k by (rule finite_subset [of _ "{..<k}"]) (auto simp: news_def)
  have first: "?ns[?i := poisoned (?ns ! ?i)] = poison_upto ?ns ?i (?i + 1)"
  proof (rule nth_equalityI)
    fix j assume "j < length (?ns[?i := poisoned (?ns ! ?i)])"
    then have j: "j < length ?ns" by simp
    have "?i \<in> set (path ?ns j) \<Longrightarrow> ?i \<le> j" using path_bound [OF assms(1) j] by simp
    then show "?ns[?i := poisoned (?ns ! ?i)] ! j = poison_upto ?ns ?i (?i + 1) ! j"
      using j by (cases "j = ?i") (auto simp: poison_upto_def)
  qed (simp add: poison_upto_def)
  have "\<exists>s'. for_each poison_step [?i + 1..<length ?ns] (poison_upto ?ns ?i (?i + 1), 0) = Some s' \<and>
      fst s' = poison_upto ?ns ?i (length ?ns) \<and> snd s' = word_of_nat (card (news (length ?ns)))"
  proof (rule for_each_range [where P = "\<lambda>k s. fst s = poison_upto ?ns ?i k \<and> snd s = word_of_nat (card (news k))"])
    have "news (?i + 1) = {}" by (auto simp: news_def)
    then show "fst (poison_upto ?ns ?i (?i + 1), 0) = poison_upto ?ns ?i (?i + 1) \<and>
        snd (poison_upto ?ns ?i (?i + 1), 0) = (word_of_nat (card (news (?i + 1))) :: u64)" by simp
    show "?i + 1 \<le> length ?ns" using assms(3) by simp
    fix k and s :: "Node list \<times> u64"
    assume k: "?i + 1 \<le> k" "k < length ?ns" and s: "fst s = poison_upto ?ns ?i k \<and> snd s = word_of_nat (card (news k))"
    have "news (Suc k) = news k \<union> (if ?i \<in> set (path ?ns k) \<and> \<not> invalid (?ns ! k) then {k} else {})"
      using k by (auto simp: news_def less_Suc_eq)
    moreover have "k \<notin> news k" by (simp add: news_def)
    ultimately have "card (news (Suc k)) = card (news k) + of_bool (?i \<in> set (path ?ns k) \<and> \<not> invalid (?ns ! k))"
      using fin by auto
    moreover have "s = (poison_upto ?ns ?i k, snd s)" using s by (metis prod.collapse)
    ultimately show "\<exists>s'. poison_step k s = Some s' \<and> fst s' = poison_upto ?ns ?i (Suc k) \<and>
        snd s' = word_of_nat (card (news (Suc k)))"
      using poison_step_upto [OF assms(1,2), of ?i k "snd s"] k s by auto
  qed
  then obtain s' where s': "for_each poison_step [?i + 1..<length ?ns] (poison_upto ?ns ?i (?i + 1), 0) = Some s'"
    "fst s' = poison_upto ?ns ?i (length ?ns)" "snd s' = word_of_nat (card (news (length ?ns)))" by blast
  have "news (length ?ns) = {j. j < length ?ns \<and> j \<noteq> ?i \<and> ?i \<in> set (path ?ns j) \<and> \<not> invalid (?ns ! j)}"
    using path_bound [OF assms(1)] by (force simp: news_def)
  moreover have "card (news (length ?ns)) \<le> length ?ns"
    using card_mono [of "{..<length ?ns}" "news (length ?ns)"] by (auto simp: news_def)
  then have "card (news (length ?ns)) < 2 ^ 64" using assms(1) by (simp add: nodes_ok_def)
  then have "unat (word_of_nat (card (news (length ?ns))) :: u64) = card (news (length ?ns))"
    by (simp add: unat_of_nat)
  moreover have "mark_invalid ix idx = Some (snd s', ix\<lparr>hx_nodes := fst s'\<rparr>)"
    using s'(1) assms(3) by (simp add: mark_invalid_def set_flag_def first case_prod_beta)
  ultimately show thesis using that s' by simp
qed

text \<open>Flags may change as long as no node becomes valid under an invalid parent.\<close>

lemma index_ok_flags:
  assumes ok: "index_ok ix" and len: "length ms = length (hx_nodes ix)"
    and same: "\<And>j. j < length ms \<Longrightarrow> ms ! j = (hx_nodes ix ! j)\<lparr>nd_flags := nd_flags (ms ! j)\<rparr>"
    and poison: "poison_ok ms"
  shows "index_ok (ix\<lparr>hx_nodes := ms\<rparr>)"
proof -
  let ?ns = "hx_nodes ix"
  note D = index_okD [OF ok]
  have fields: "nd_prev (ms ! j) = nd_prev (?ns ! j)" "nd_height (ms ! j) = nd_height (?ns ! j)"
      "nd_hash (ms ! j) = nd_hash (?ns ! j)" "nd_branch_base_height (ms ! j) = nd_branch_base_height (?ns ! j)"
    if "j < length ms" for j
    by (subst same [OF that]; simp)+
  have links: "same_links ?ns ms" using fields len by (simp add: same_links_def)
  have "by_hash_ok ms (hx_by_hash ix)" using D(2) fields len by (simp add: by_hash_ok_def cong: conj_cong)
  moreover have "bases_ok ms (hx_canonical ix)"
    using D(5) fields len same_links_base [OF links D(1)] by (simp add: bases_ok_def)
  ultimately show ?thesis
    using same_links_nodes_ok [OF links D(1)] same_links_canon_ok [OF links D(3)] poison
    by (simp add: index_ok_def)
qed

lemma set_have_body_ok:
  assumes ok: "index_ok ix" and i: "unat idx < length (hx_nodes ix)"
  obtains ix' where "set_have_body ix idx = Some ix'" "index_ok ix'"
    "hx_nodes ix' = (hx_nodes ix)[unat idx := (hx_nodes ix ! unat idx)\<lparr>nd_flags := nd_flags (hx_nodes ix ! unat idx) OR FLAG_HAVE_BODY\<rparr>]"
    "hx_canonical ix' = hx_canonical ix"
proof -
  let ?ns = "hx_nodes ix"
  let ?ms = "?ns[unat idx := (?ns ! unat idx)\<lparr>nd_flags := nd_flags (?ns ! unat idx) OR FLAG_HAVE_BODY\<rparr>]"
  have inv: "invalid (?ms ! j) \<longleftrightarrow> invalid (?ns ! j)" if "j < length ?ns" for j
    using that by (cases "j = unat idx") (simp_all add: invalid_bit FLAG_HAVE_BODY_def bit_or_iff bit_iff_odd [of 4])
  have "index_ok (ix\<lparr>hx_nodes := ?ms\<rparr>)"
  proof (rule index_ok_flags [OF ok])
    show "?ms ! j = (?ns ! j)\<lparr>nd_flags := nd_flags (?ms ! j)\<rparr>" if "j < length ?ms" for j
      using that by (cases "j = unat idx") simp_all
    show "poison_ok ?ms"
    proof -
      have "par ?ms j = par ?ns j" if "j < length ?ns" for j using that by (cases "j = unat idx") simp_all
      then show ?thesis
        using index_okD(4) [OF ok] inv nodes_ok_par(2) [OF index_okD(1) [OF ok]] by (simp add: poison_ok_def)
    qed
  qed simp
  then show thesis using i by (intro that [of "ix\<lparr>hx_nodes := ?ms\<rparr>"]) (simp_all add: set_have_body_def set_flag_def)
qed

lemma mark_invalid_ok:
  assumes "index_ok ix" "unat idx < length (hx_nodes ix)"
  shows "\<exists>c ix'. mark_invalid ix idx = Some (c, ix') \<and> index_ok ix' \<and>
    length (hx_nodes ix') = length (hx_nodes ix) \<and> hx_canonical ix' = hx_canonical ix \<and>
    (\<forall>j < length (hx_nodes ix).
       hx_nodes ix' ! j = (hx_nodes ix ! j)\<lparr>nd_flags := nd_flags (hx_nodes ix' ! j)\<rparr> \<and>
       (invalid (hx_nodes ix' ! j) \<longleftrightarrow> invalid (hx_nodes ix ! j) \<or> unat idx \<in> set (path (hx_nodes ix) j))) \<and>
    unat c = card {j. j < length (hx_nodes ix) \<and> j \<noteq> unat idx \<and> invalid (hx_nodes ix' ! j) \<and> \<not> invalid (hx_nodes ix ! j)}"
  (is "\<exists>c ix'. ?P c ix'")
proof -
  let ?ns = "hx_nodes ix"
  let ?ms = "poison_upto ?ns (unat idx) (length ?ns)"
  note D = index_okD [OF assms(1)]
  have nth: "?ms ! j = (if unat idx \<in> set (path ?ns j) then poisoned (?ns ! j) else ?ns ! j)" if "j < length ?ns" for j
    using that by (simp add: poison_upto_def)
  have len: "length ?ms = length ?ns" by (simp add: poison_upto_def)
  have inv: "invalid (?ms ! j) \<longleftrightarrow> invalid (?ns ! j) \<or> unat idx \<in> set (path ?ns j)" if "j < length ?ns" for j
    using nth [OF that] by simp
  have frame: "?ms ! j = (?ns ! j)\<lparr>nd_flags := nd_flags (?ms ! j)\<rparr>" if "j < length ?ns" for j
    using nth [OF that] by simp
  have "poison_ok ?ms"
  proof -
    have "invalid (?ms ! j)" if j: "0 < j" "j < length ?ns" "invalid (?ms ! par ?ms j)" for j
    proof -
      have "par ?ms j = par ?ns j" using nth [OF j(2)] by simp
      then show ?thesis
        using j inv nodes_ok_par [OF D(1) j(1,2)] D(4) path_step [OF D(1) j(1,2)] by (auto simp: poison_ok_def)
    qed
    then show ?thesis by (auto simp: poison_ok_def len)
  qed
  then have ok: "index_ok (ix\<lparr>hx_nodes := ?ms\<rparr>)" using index_ok_flags [OF assms(1)] frame len by simp
  obtain c where c: "mark_invalid ix idx = Some (c, ix\<lparr>hx_nodes := ?ms\<rparr>)"
    "unat c = card {j. j < length ?ns \<and> j \<noteq> unat idx \<and> unat idx \<in> set (path ?ns j) \<and> \<not> invalid (?ns ! j)}"
    by (rule mark_invalid_upto [OF D(1,4) assms(2)])
  have "{j. j < length ?ns \<and> j \<noteq> unat idx \<and> unat idx \<in> set (path ?ns j) \<and> \<not> invalid (?ns ! j)} =
      {j. j < length ?ns \<and> j \<noteq> unat idx \<and> invalid (?ms ! j) \<and> \<not> invalid (?ns ! j)}"
    using inv by auto
  then have "?P c (ix\<lparr>hx_nodes := ?ms\<rparr>)" using c ok len frame inv by simp
  then show ?thesis by blast
qed

text \<open>C36: Marking a block invalid reaches exactly its descendants: under the invariant the pass never
  panics, keeps the invariant, changes nothing but the flag, leaves the flag set on a node exactly
  when it was set before or the marked block is the node or one of its ancestors, and returns the
  number of other nodes it newly flagged.\<close>

theorem mark_invalid_descendants:
  assumes "index_ok ix" "unat idx < length (hx_nodes ix)"
  shows "\<exists>c ix'. mark_invalid ix idx = Some (c, ix') \<and> index_ok ix' \<and>
    length (hx_nodes ix') = length (hx_nodes ix) \<and> hx_canonical ix' = hx_canonical ix \<and>
    (\<forall>j < length (hx_nodes ix).
       hx_nodes ix' ! j = (hx_nodes ix ! j)\<lparr>nd_flags := nd_flags (hx_nodes ix' ! j)\<rparr> \<and>
       (invalid (hx_nodes ix' ! j) \<longleftrightarrow> invalid (hx_nodes ix ! j) \<or> unat idx \<in> set (path (hx_nodes ix) j))) \<and>
    unat c = card {j. j < length (hx_nodes ix) \<and> j \<noteq> unat idx \<and> invalid (hx_nodes ix' ! j) \<and> \<not> invalid (hx_nodes ix ! j)}"
  using assms by (rule mark_invalid_ok)

section \<open>A new canonical chain\<close>

lemma rebase_step_ok:
  assumes ok: "nodes_ok ns" "canon_ok ns cs" and k: "k < length ns" and len: "length ms = length ns"
    and same: "\<forall>j < length ns. ms ! j = (ns ! j)\<lparr>nd_branch_base_height := nd_branch_base_height (ms ! j)\<rparr>"
    and below: "\<forall>j < k. unat (nd_branch_base_height (ms ! j)) = base_of ns (unat ` set cs) (path ns j)"
  shows "\<exists>b. rebase_step cs k ms = Some (ms[k := (ms ! k)\<lparr>nd_branch_base_height := b\<rparr>]) \<and>
    unat b = base_of ns (unat ` set cs) (path ns k)"
proof -
  have fields: "nd_prev (ms ! j) = nd_prev (ns ! j)" "nd_height (ms ! j) = nd_height (ns ! j)" if "j < length ns" for j
    using same that by (metis Node.select_convs Node.update_convs(7) Node.surjective)+
  show ?thesis
  proof (cases "k = 0")
    case True
    then have "nd_prev (ms ! k) = NO_PARENT" "nd_height (ms ! k) = 0" using ok(1) k fields by (auto simp: nodes_ok_def)
    then show ?thesis using True by (auto simp: rebase_step_def Let_def intro!: exI [of _ 0])
  next
    case False
    then have k0: "0 < k" by simp
    note p = nodes_ok_par [OF ok(1) k0 k]
    have none: "nd_prev (ms ! k) \<noteq> NO_PARENT" using prev_none_iff [OF ok(1) k] False fields k by simp
    have holds: "canonical_holds cs (nd_height (ms ! par ns k)) (nd_prev (ns ! k)) \<longleftrightarrow> par ns k \<in> unat ` set cs"
      using canonical_holds_iff [OF ok p(2)] fields [OF p(2)] by simp
    have "base_of ns (unat ` set cs) (path ns k) =
        (if par ns k \<in> unat ` set cs then hgt ns (par ns k) else base_of ns (unat ` set cs) (path ns (par ns k)))"
      using base_of_step [OF ok(1) k0 k] by simp
    then show ?thesis
      using none p(1,2) len fields k below holds by (auto simp: rebase_step_def Let_def)
  qed
qed

lemma set_canonical_ok:
  assumes ok: "index_ok ix" and chain: "canon_ok (hx_nodes ix) chain"
  obtains ix' where "set_canonical ix chain = Some ix'" "index_ok ix'" "hx_canonical ix' = chain"
    "length (hx_nodes ix') = length (hx_nodes ix)"
    "\<forall>j < length (hx_nodes ix). hx_nodes ix' ! j =
       (hx_nodes ix ! j)\<lparr>nd_branch_base_height := nd_branch_base_height (hx_nodes ix' ! j)\<rparr>"
proof -
  let ?ns = "hx_nodes ix"
  note D = index_okD [OF ok]
  define P where "P k ms \<longleftrightarrow> length ms = length ?ns \<and>
    (\<forall>j < length ?ns. ms ! j = (?ns ! j)\<lparr>nd_branch_base_height := nd_branch_base_height (ms ! j)\<rparr>) \<and>
    (\<forall>j < k. unat (nd_branch_base_height (ms ! j)) = base_of ?ns (unat ` set chain) (path ?ns j))" for k ms
  have "\<exists>ms. for_each (rebase_step chain) [0..<length ?ns] ?ns = Some ms \<and> P (length ?ns) ms"
  proof (rule for_each_range)
    fix k ms assume k: "k < length ?ns" and Pk: "P k ms"
    then obtain b where b: "rebase_step chain k ms = Some (ms[k := (ms ! k)\<lparr>nd_branch_base_height := b\<rparr>])"
      "unat b = base_of ?ns (unat ` set chain) (path ?ns k)"
      using rebase_step_ok [OF D(1) chain k] unfolding P_def by blast
    have "P (Suc k) (ms[k := (ms ! k)\<lparr>nd_branch_base_height := b\<rparr>])"
      unfolding P_def
    proof (intro conjI allI impI)
      fix j assume j: "j < length ?ns"
      have e: "ms ! j = (?ns ! j)\<lparr>nd_branch_base_height := nd_branch_base_height (ms ! j)\<rparr>"
        using Pk j by (simp add: P_def)
      show "ms[k := (ms ! k)\<lparr>nd_branch_base_height := b\<rparr>] ! j = (?ns ! j)\<lparr>nd_branch_base_height :=
          nd_branch_base_height (ms[k := (ms ! k)\<lparr>nd_branch_base_height := b\<rparr>] ! j)\<rparr>"
        using e Pk k j by (cases "j = k") (simp_all add: P_def, metis Node.update_convs(7) Node.surjective)
    next
      fix j assume "j < Suc k"
      then show "unat (nd_branch_base_height (ms[k := (ms ! k)\<lparr>nd_branch_base_height := b\<rparr>] ! j)) =
          base_of ?ns (unat ` set chain) (path ?ns j)"
        using b(2) Pk k by (cases "j = k") (simp_all add: P_def)
    qed (use Pk in \<open>simp add: P_def\<close>)
    then show "\<exists>ms'. rebase_step chain k ms = Some ms' \<and> P (Suc k) ms'" using b(1) by blast
  qed (simp_all add: P_def)
  then obtain ms where ms: "for_each (rebase_step chain) [0..<length ?ns] ?ns = Some ms" "P (length ?ns) ms" by blast
  have frame: "ms ! j = (?ns ! j)\<lparr>nd_branch_base_height := nd_branch_base_height (ms ! j)\<rparr>" if "j < length ?ns" for j
    using ms(2) that by (simp add: P_def)
  have len: "length ms = length ?ns" using ms(2) by (simp add: P_def)
  have fields: "nd_prev (ms ! j) = nd_prev (?ns ! j)" "nd_height (ms ! j) = nd_height (?ns ! j)"
      "nd_hash (ms ! j) = nd_hash (?ns ! j)" "invalid (ms ! j) = invalid (?ns ! j)" if "j < length ?ns" for j
    by (subst frame [OF that]; simp add: invalid_def)+
  have links: "same_links ?ns ms" using fields len by (simp add: same_links_def)
  have "by_hash_ok ms (hx_by_hash ix)" using D(2) fields len by (simp add: by_hash_ok_def cong: conj_cong)
  moreover have "poison_ok ms" using D(4) fields len nodes_ok_par(2) [OF D(1)] by (simp add: poison_ok_def)
  moreover have "bases_ok ms chain"
    using ms(2) same_links_base [OF links D(1)] len by (simp add: bases_ok_def P_def)
  ultimately have "index_ok (ix\<lparr>hx_canonical := chain, hx_nodes := ms\<rparr>)"
    using same_links_nodes_ok [OF links D(1)] same_links_canon_ok [OF links chain] by (simp add: index_ok_def)
  then show thesis
    using ms(1) len frame by (intro that [of "ix\<lparr>hx_canonical := chain, hx_nodes := ms\<rparr>"]) (simp_all add: set_canonical_def)
qed

section \<open>A concrete arena\<close>

definition sample_node :: "u8 \<Rightarrow> u32 \<Rightarrow> u64 \<Rightarrow> Node" where
  "sample_node h prev height = \<lparr>nd_hash = replicate 32 h, nd_prev = prev, nd_height = height, nd_time = height,
     nd_bits = 0x1f00ffff, nd_cum_work = work_ONE, nd_branch_base_height = 0, nd_flags = FLAG_POW_OK\<rparr>"

definition sample_index :: HeaderIndex where
  "sample_index = \<lparr>hx_nodes = [sample_node 1 NO_PARENT 0, sample_node 2 0 1],
     hx_by_hash = [replicate 32 1 \<mapsto> 0, replicate 32 2 \<mapsto> 1], hx_canonical = [0]\<rparr>"

lemma sample_index_ok: "index_ok sample_index"
proof -
  let ?ns = "[sample_node 1 NO_PARENT 0, sample_node 2 0 1]"
  have inv: "\<not> invalid (sample_node h p k)" for h p k
    by (simp add: invalid_def sample_node_def FLAG_INVALID_def FLAG_POW_OK_def)
  have p1: "path ?ns 1 = [0, 1]" by (subst path.simps) (simp add: sample_node_def)
  have two: "i < length ?ns \<longleftrightarrow> i = 0 \<or> i = 1" for i by auto
  have "by_hash_ok ?ns [replicate 32 1 \<mapsto> 0, replicate 32 2 \<mapsto> 1]"
    unfolding by_hash_ok_def
  proof (intro allI)
    fix h :: Hash32 and i :: u32
    have "i = 0 \<longleftrightarrow> unat i = 0" "i = 1 \<longleftrightarrow> unat i = 1" by (simp_all add: word_unat_eq_iff)
    then show "([replicate 32 1 \<mapsto> 0, replicate 32 2 \<mapsto> 1] h = Some i) \<longleftrightarrow>
        unat i < length ?ns \<and> nd_hash (?ns ! unat i) = h"
      unfolding two by (cases "unat i = 0"; cases "unat i = 1") (auto simp: sample_node_def)
  qed
  moreover have "nodes_ok ?ns" by (simp add: nodes_ok_def sample_node_def less_Suc_eq)
  moreover have "canon_ok ?ns [0]" by (auto simp: canon_ok_def intro: exI [of _ 0])
  moreover have "poison_ok ?ns"
    using inv by (simp add: poison_ok_def less_Suc_eq sample_node_def)
  moreover have "bases_ok ?ns [0]"
    using p1 by (simp add: bases_ok_def less_Suc_eq base_of_def sample_node_def)
  ultimately show ?thesis by (simp add: index_ok_def sample_index_def)
qed

theorem mark_invalid_descendants_witness:
  "\<exists>c ix'. mark_invalid sample_index 0 = Some (c, ix') \<and> invalid (hx_nodes ix' ! 1)"
proof -
  have "0 \<in> set (path (hx_nodes sample_index) 1)"
    by (subst path.simps) (simp add: sample_index_def sample_node_def)
  then show ?thesis
    using mark_invalid_descendants [OF sample_index_ok, of 0] by (fastforce simp: sample_index_def)
qed

end
