(* ===== verification/ForkChoice.thy ===== *)
theory ForkChoice imports Index begin

text \<open>
  \<open>lib/chain/src/forkchoice.rs\<close>: which header to follow, how to get there from the canonical
  chain, and the arena as a \<open>ChainView\<close> of the consensus rules. The arena interprets the
  \<open>chain_view\<close> contract, so the facts the rules prove of any view hold of it. \<open>binary_search\<close> on
  the sorted list of skipped indices is membership in it.
\<close>

record Plan =
  pl_fork_height :: u64
  pl_rollback :: "u64 list"
  pl_apply :: "u32 list"
  pl_depth :: u64

definition select_step :: "HeaderIndex \<Rightarrow> u32 list \<Rightarrow> u32 \<Rightarrow> u32 \<Rightarrow> u32 option" where
  "select_step ix skip i best =
     (if List.member skip i then Some best
      else do {
        n \<leftarrow> node ix i;
        if invalid n \<or> \<not> pow_ok n then Some best
        else do {
          b \<leftarrow> node ix best;
          Some (if nd_cum_work b < nd_cum_work n \<or> nd_cum_work n = nd_cum_work b \<and> nd_hash n < nd_hash b
                then i else best)
        }
      })"

definition select_best_excluding :: "HeaderIndex \<Rightarrow> u32 list \<Rightarrow> u32 option" where
  "select_best_excluding ix skip = do {
     best \<leftarrow> tip_index ix;
     for_each (select_step ix skip) (index_indices ix) best
   }"

definition select_best :: "HeaderIndex \<Rightarrow> u32 option" where
  "select_best ix = select_best_excluding ix []"

partial_function (option) plan_loop :: "HeaderIndex \<Rightarrow> u32 \<Rightarrow> u32 list \<Rightarrow> (u32 list \<times> u32) option" where
  "plan_loop ix cur branch =
     (case is_canonical ix cur of
        None \<Rightarrow> None
      | Some canon \<Rightarrow>
          if canon then Some (branch, cur)
          else (case node ix cur of
                  None \<Rightarrow> None
                | Some n \<Rightarrow>
                    (let branch = branch @ [cur]; prev = nd_prev n
                     in if prev = NO_PARENT then Some (branch, cur) else plan_loop ix prev branch)))"

definition plan_reorg :: "HeaderIndex \<Rightarrow> u32 \<Rightarrow> Plan option option" where
  "plan_reorg ix best = do {
     tip \<leftarrow> tip_index ix;
     if best = tip then Some None
     else do {
       (branch, cur) \<leftarrow> plan_loop ix best [];
       n \<leftarrow> node ix cur;
       tip_height \<leftarrow> index_tip_height ix;
       let fork_height = nd_height n;
       Some (Some \<lparr>pl_fork_height = fork_height,
         pl_rollback = map word_of_nat (rev [unat (fork_height + 1)..<unat tip_height + 1]),
         pl_apply = rev branch,
         pl_depth = saturating_sub tip_height fork_height\<rparr>)
     }
   }"

section \<open>The arena as a view\<close>

text \<open>\<open>None\<close> is the \<open>expect\<close> of \<open>target_of\<close>, or an index out of range.\<close>

definition target_of :: "Target \<Rightarrow> u32 \<Rightarrow> Hash32 option" where
  "target_of pow_limit bits = do { t \<leftarrow> expand_bits bits pow_limit; Some (target_to_be t) }"

definition node_info :: "Target \<Rightarrow> Node \<Rightarrow> HeaderInfo option" where
  "node_info pow_limit n = do {
     t \<leftarrow> target_of pow_limit (nd_bits n);
     Some \<lparr>hi_height = nd_height n, hi_hash = nd_hash n, hi_time = nd_time n, hi_target = t\<rparr>
   }"

definition arena_len :: "HeaderIndex \<Rightarrow> u64 option" where
  "arena_len ix = do { h \<leftarrow> index_tip_height ix; Some (h + 1) }"

definition arena_header_at :: "HeaderIndex \<Rightarrow> Target \<Rightarrow> u64 \<Rightarrow> HeaderInfo option option" where
  "arena_header_at ix pow_limit height =
     (case canonical_at ix height of
        None \<Rightarrow> None
      | Some None \<Rightarrow> Some None
      | Some (Some n) \<Rightarrow> map_option Some (node_info pow_limit n))"

definition arena_header_by_hash :: "HeaderIndex \<Rightarrow> Target \<Rightarrow> Hash32 \<Rightarrow> HeaderInfo option option" where
  "arena_header_by_hash ix pow_limit h =
     (case index_of ix h of
        None \<Rightarrow> Some None
      | Some idx \<Rightarrow> do {
          n \<leftarrow> node ix idx;
          canon \<leftarrow> is_canonical ix idx;
          if \<not> canon then Some None else map_option Some (node_info pow_limit n)
        })"

definition arena_cumulative_work :: "HeaderIndex \<Rightarrow> Work option" where
  "arena_cumulative_work ix = do { n \<leftarrow> index_tip ix; Some (nd_cum_work n) }"

text \<open>The record of functions the rules take. A panic inside a method has no value there and is
  mapped to a default; under the invariant there is none (\<open>arena_no_panic\<close>).\<close>

definition or_default :: "'a \<Rightarrow> 'a option \<Rightarrow> 'a" where
  "or_default d r = (case r of None \<Rightarrow> d | Some x \<Rightarrow> x)"

definition arena_view :: "HeaderIndex \<Rightarrow> Target \<Rightarrow> ChainView" where
  "arena_view ix pow_limit = \<lparr>cv_len = or_default 0 (arena_len ix),
     cv_header_at = (\<lambda>h. or_default None (arena_header_at ix pow_limit h)),
     cv_header_by_hash = (\<lambda>h. or_default None (arena_header_by_hash ix pow_limit h)),
     cv_cumulative_work = or_default work_ZERO (arena_cumulative_work ix)\<rparr>"

section \<open>Choosing a head\<close>

lemma for_each_map: "for_each f (map g xs) s = for_each (\<lambda>x. f (g x)) xs s"
  by (induction xs arbitrary: s) (auto split: option.splits)

lemma tip_path:
  assumes "index_ok ix"
  obtains t where "t < length (hx_nodes ix)" "map unat (hx_canonical ix) = path (hx_nodes ix) t"
    "tip_index ix = Some (word_of_nat t)" "unat (word_of_nat t :: u32) = t"
    "hx_canonical ix = upath (hx_nodes ix) t"
proof -
  note D = index_okD [OF assms]
  obtain t where t: "t < length (hx_nodes ix)" "map unat (hx_canonical ix) = path (hx_nodes ix) t"
    using D(3) by (auto simp: canon_ok_def)
  have u: "unat (word_of_nat t :: u32) = t" by (rule unat_index [OF D(1) t(1)])
  have c: "hx_canonical ix = upath (hx_nodes ix) t"
    unfolding upath_def t(2) [symmetric] by (simp add: comp_def)
  have "hx_canonical ix \<noteq> []" "last (hx_canonical ix) = word_of_nat t"
    unfolding c by (simp_all add: upath_def last_map)
  then show thesis using that [OF t] u c by (simp add: tip_index_def)
qed

text \<open>The order of heads: more work first, then the smaller hash.\<close>

definition no_better :: "Node \<Rightarrow> Node \<Rightarrow> bool" where
  "no_better n b \<longleftrightarrow> nd_cum_work n < nd_cum_work b \<or> nd_cum_work n = nd_cum_work b \<and> nd_hash b \<le> nd_hash n"

lemma no_better_refl [simp]: "no_better n n"
  by (simp add: no_better_def)

lemma no_better_trans: "no_better a b \<Longrightarrow> no_better b c \<Longrightarrow> no_better a c"
  by (auto simp: no_better_def)

lemma no_better_total: "\<not> (nd_cum_work b < nd_cum_work n \<or> nd_cum_work n = nd_cum_work b \<and> nd_hash n < nd_hash b) \<longleftrightarrow> no_better n b"
  by (auto simp: no_better_def not_less)

definition eligible :: "HeaderIndex \<Rightarrow> u32 list \<Rightarrow> nat \<Rightarrow> bool" where
  "eligible ix skip i \<longleftrightarrow> i < length (hx_nodes ix) \<and> word_of_nat i \<notin> set skip \<and>
     \<not> invalid (hx_nodes ix ! i) \<and> pow_ok (hx_nodes ix ! i)"

lemma select_best_ok:
  assumes "index_ok ix"
  shows "\<exists>b t. select_best_excluding ix skip = Some b \<and> tip_index ix = Some t \<and>
    (b = t \<or> eligible ix skip (unat b)) \<and> unat b < length (hx_nodes ix) \<and>
    no_better (hx_nodes ix ! unat t) (hx_nodes ix ! unat b) \<and>
    (\<forall>i. eligible ix skip i \<longrightarrow> no_better (hx_nodes ix ! i) (hx_nodes ix ! unat b))"
proof -
  let ?ns = "hx_nodes ix"
  note D = index_okD [OF assms]
  obtain t where t: "t < length ?ns" "tip_index ix = Some (word_of_nat t)" "unat (word_of_nat t :: u32) = t"
    by (rule tip_path [OF assms]) blast
  define P where "P k b \<longleftrightarrow> unat b < length ?ns \<and> (b = word_of_nat t \<or> eligible ix skip (unat b)) \<and>
    no_better (?ns ! t) (?ns ! unat b) \<and>
    (\<forall>i < k. eligible ix skip i \<longrightarrow> no_better (?ns ! i) (?ns ! unat b))" for k and b :: u32
  have "\<exists>b. for_each (\<lambda>i. select_step ix skip (word_of_nat i)) [0..<length ?ns] (word_of_nat t) = Some b \<and> P (length ?ns) b"
  proof (rule for_each_range)
    show "P 0 (word_of_nat t)" using t by (simp add: P_def)
    fix k b assume k: "k < length ?ns" and Pk: "P k b"
    have u: "unat (word_of_nat k :: u32) = k" by (rule unat_index [OF D(1) k])
    show "\<exists>b'. select_step ix skip (word_of_nat k) b = Some b' \<and> P (Suc k) b'"
    proof (cases "eligible ix skip k")
      case False
      then have "select_step ix skip (word_of_nat k) b = Some b"
        using k u by (auto simp: select_step_def eligible_def)
      moreover have "P (Suc k) b" using Pk False by (auto simp: P_def less_Suc_eq)
      ultimately show ?thesis by blast
    next
      case True
      let ?b = "if no_better (?ns ! k) (?ns ! unat b) then b else word_of_nat k"
      have "select_step ix skip (word_of_nat k) b = Some ?b"
        using True k u Pk unfolding no_better_total [symmetric]
        by (simp add: select_step_def eligible_def P_def)
      moreover have "P (Suc k) ?b"
      proof (cases "no_better (?ns ! k) (?ns ! unat b)")
        case True
        then show ?thesis using Pk by (auto simp: P_def less_Suc_eq)
      next
        case False
        then have "no_better (?ns ! unat b) (?ns ! k)" by (auto simp: no_better_def not_less)
        then show ?thesis
          using Pk False k u True by (auto simp: P_def less_Suc_eq intro: no_better_trans)
      qed
      ultimately show ?thesis by blast
    qed
  qed simp
  then obtain b where "select_best_excluding ix skip = Some b" "P (length ?ns) b"
    using t by (auto simp: select_best_excluding_def index_indices_def for_each_map)
  then show ?thesis using t by (auto simp: P_def eligible_def)
qed

text \<open>C35: Fork choice returns a maximum: the head is the canonical tip or an eligible header (proof of
  work checked, not invalid, not skipped), no eligible header has more work, or equal work and a
  smaller hash, and neither has the canonical tip.\<close>

theorem select_best_maximal:
  assumes "index_ok ix"
  shows "\<exists>b t. select_best_excluding ix skip = Some b \<and> tip_index ix = Some t \<and>
    (b = t \<or> eligible ix skip (unat b)) \<and> unat b < length (hx_nodes ix) \<and>
    no_better (hx_nodes ix ! unat t) (hx_nodes ix ! unat b) \<and>
    (\<forall>i. eligible ix skip i \<longrightarrow> no_better (hx_nodes ix ! i) (hx_nodes ix ! unat b))"
  using assms by (rule select_best_ok)

theorem select_best_maximal_witness:
  "\<exists>b. select_best_excluding sample_index [] = Some b \<and> unat b < 2"
  using select_best_maximal [OF sample_index_ok, of "[]"] by (auto simp: sample_index_def)

section \<open>From the tip to another head\<close>

lemma is_canonical_iff:
  assumes "index_ok ix" "unat i < length (hx_nodes ix)"
  shows "is_canonical ix i = Some (unat i \<in> unat ` set (hx_canonical ix))"
  using canonical_holds_iff [OF index_okD(1,3) [OF assms(1)] assms(2)] assms(2)
  by (simp add: is_canonical_def)

text \<open>The canonical nodes of a path are a prefix of it, shared with the canonical chain.\<close>

definition fork_len :: "HeaderIndex \<Rightarrow> nat \<Rightarrow> nat" where
  "fork_len ix i = length (takeWhile (\<lambda>j. j \<in> unat ` set (hx_canonical ix)) (path (hx_nodes ix) i))"

lemma canonical_closed:
  assumes "index_ok ix" "i < length (hx_nodes ix)" "i \<in> unat ` set (hx_canonical ix)"
  shows "set (path (hx_nodes ix) i) \<subseteq> unat ` set (hx_canonical ix)"
proof -
  note D = index_okD [OF assms(1)]
  obtain t where t: "t < length (hx_nodes ix)" "map unat (hx_canonical ix) = path (hx_nodes ix) t"
    by (rule tip_path [OF assms(1)]) blast
  have "i \<in> set (path (hx_nodes ix) t)" using assms(3) canonical_set [OF t(2)] by simp
  from path_of_member [OF D(1) t(1) this] show ?thesis
    unfolding canonical_set [OF t(2)] by (metis set_take_subset)
qed

lemma genesis_canonical:
  assumes "index_ok ix"
  shows "0 \<in> unat ` set (hx_canonical ix)"
proof -
  note D = index_okD [OF assms]
  obtain t where t: "t < length (hx_nodes ix)" "map unat (hx_canonical ix) = path (hx_nodes ix) t"
    by (rule tip_path [OF assms]) blast
  have "0 \<in> set (path (hx_nodes ix) t)"
    using D(1) t(1)
  proof (induction t rule: path_induct)
    case (child i)
    then show ?case using D(1) by (simp add: path_step)
  qed simp
  then show ?thesis using canonical_set [OF t(2)] by simp
qed

lemma fork_len_step:
  assumes "index_ok ix" "0 < i" "i < length (hx_nodes ix)"
  shows "fork_len ix i = (if i \<in> unat ` set (hx_canonical ix) then hgt (hx_nodes ix) i + 1
    else fork_len ix (par (hx_nodes ix) i))"
proof (cases "i \<in> unat ` set (hx_canonical ix)")
  case True
  then have e: "takeWhile (\<lambda>j. j \<in> unat ` set (hx_canonical ix)) (path (hx_nodes ix) i) = path (hx_nodes ix) i"
    using canonical_closed [OF assms(1,3)] by (intro takeWhile_eq_all_conv [THEN iffD2]) auto
  show ?thesis
    using True path_length [OF index_okD(1) [OF assms(1)] assms(3)] unfolding fork_len_def e by simp
next
  case False
  then show ?thesis
    using path_step [OF index_okD(1) [OF assms(1)] assms(2,3)] by (simp add: fork_len_def takeWhile_tail)
qed

lemma fork_len_bounds:
  assumes "index_ok ix" "i < length (hx_nodes ix)"
  shows "1 \<le> fork_len ix i" "fork_len ix i \<le> hgt (hx_nodes ix) i + 1"
proof -
  have "path (hx_nodes ix) i ! 0 = 0"
    using index_okD(1) [OF assms(1)] assms(2)
  proof (induction i rule: path_induct)
    case (child i)
    then show ?case using index_okD(1) [OF assms(1)] by (simp add: path_step nth_append)
  qed simp
  then have "hd (path (hx_nodes ix) i) = 0" by (simp add: hd_conv_nth)
  then show "1 \<le> fork_len ix i"
    using genesis_canonical [OF assms(1)] by (cases "path (hx_nodes ix) i") (auto simp: fork_len_def)
  show "fork_len ix i \<le> hgt (hx_nodes ix) i + 1"
    using length_takeWhile_le path_length [OF index_okD(1) [OF assms(1)] assms(2)] unfolding fork_len_def by metis
qed

lemma plan_loop_path:
  assumes "index_ok ix" "unat i < length (hx_nodes ix)"
  shows "plan_loop ix i br = Some (br @ rev (drop (fork_len ix (unat i)) (upath (hx_nodes ix) (unat i))),
    upath (hx_nodes ix) (unat i) ! (fork_len ix (unat i) - 1))"
  using index_okD(1) [OF assms(1)] assms(2)
proof (induction i arbitrary: br rule: walk_induct)
  case genesis
  have "0 < length (hx_nodes ix)" using index_okD(1) [OF assms(1)] by (auto simp: nodes_ok_def)
  then have "is_canonical ix 0 = Some True" using is_canonical_iff [OF assms(1), of 0] genesis_canonical [OF assms(1)] by simp
  moreover have "fork_len ix 0 = 1" using genesis_canonical [OF assms(1)] by (simp add: fork_len_def)
  ultimately show ?case by (subst plan_loop.simps) (simp add: upath_def)
next
  case (child i)
  let ?ns = "hx_nodes ix"
  have step: "upath ?ns (unat i) = upath ?ns (par ?ns (unat i)) @ [i]"
    using index_okD(1) [OF assms(1)] child.hyps by (simp add: upath_step)
  have len: "length (upath ?ns (unat i)) = hgt ?ns (unat i) + 1"
    using path_length [OF index_okD(1) [OF assms(1)] child.hyps(2)] by (simp add: upath_def)
  show ?case
  proof (cases "unat i \<in> unat ` set (hx_canonical ix)")
    case True
    then have "fork_len ix (unat i) = hgt ?ns (unat i) + 1" using fork_len_step [OF assms(1) child.hyps(1,2)] by simp
    moreover have "upath ?ns (unat i) ! hgt ?ns (unat i) = i" using len step by (simp add: nth_append)
    ultimately show ?thesis
      using True is_canonical_iff [OF assms(1) child.hyps(2)] len by (subst plan_loop.simps) simp
  next
    case False
    have p: "par ?ns (unat i) < length ?ns" using child.hyps by linarith
    have f: "fork_len ix (unat i) = fork_len ix (par ?ns (unat i))"
      using False fork_len_step [OF assms(1) child.hyps(1,2)] by simp
    have b: "1 \<le> fork_len ix (par ?ns (unat i))" "fork_len ix (par ?ns (unat i)) \<le> length (upath ?ns (par ?ns (unat i)))"
      using fork_len_bounds [OF assms(1) p] path_length [OF index_okD(1) [OF assms(1)] p] by (simp_all add: upath_def)
    then have "fork_len ix (par ?ns (unat i)) - 1 < length (upath ?ns (par ?ns (unat i)))" by linarith
    then show ?thesis
      using False is_canonical_iff [OF assms(1) child.hyps(2)] child b
      by (subst plan_loop.simps) (simp add: Let_def step f nth_append)
  qed
qed

lemma common_prefix:
  assumes "index_ok ix" "i < length (hx_nodes ix)"
  shows "take (fork_len ix i) (upath (hx_nodes ix) i) = take (fork_len ix i) (hx_canonical ix)"
proof -
  let ?ns = "hx_nodes ix" and ?k = "fork_len ix i" and ?C = "unat ` set (hx_canonical ix)"
  note D = index_okD [OF assms(1)]
  obtain t where t: "t < length ?ns" "map unat (hx_canonical ix) = path ?ns t" "hx_canonical ix = upath ?ns t"
    by (rule tip_path [OF assms(1)]) blast
  have k: "?k - 1 < length (path ?ns i)" "?k - 1 \<le> hgt ?ns i" "Suc (?k - 1) = ?k"
    using fork_len_bounds [OF assms] path_length [OF D(1) assms(2)] by auto
  let ?j = "path ?ns i ! (?k - 1)"
  have "?j = takeWhile (\<lambda>j. j \<in> ?C) (path ?ns i) ! (?k - 1)"
    using fork_len_bounds(1) [OF assms] by (intro takeWhile_nth [symmetric]) (simp add: fork_len_def)
  also have "\<dots> \<in> ?C"
    using fork_len_bounds(1) [OF assms] nth_mem [of "?k - 1" "takeWhile (\<lambda>j. j \<in> ?C) (path ?ns i)"] set_takeWhileD
    by (fastforce simp: fork_len_def)
  finally have j: "?j \<in> set (path ?ns t)" unfolding canonical_set [OF t(2)] .
  have "take ?k (path ?ns i) = path ?ns ?j" using path_nth(3) [OF D(1) assms(2) k(2)] k(3) by simp
  moreover have "path ?ns ?j = take ?k (path ?ns t)"
    using path_of_member [OF D(1) t(1) j] path_nth(2) [OF D(1) assms(2) k(2)] k(3) by simp
  ultimately show ?thesis unfolding t(3) upath_def by (simp add: take_map)
qed

lemma canonical_length:
  assumes "index_ok ix" "tip_index ix = Some t"
  shows "length (hx_canonical ix) = hgt (hx_nodes ix) (unat t) + 1" "unat t < length (hx_nodes ix)"
    "index_tip_height ix = Some (nd_height (hx_nodes ix ! unat t))"
    "hx_canonical ix = upath (hx_nodes ix) (unat t)"
proof -
  obtain t' where t: "t' < length (hx_nodes ix)" "tip_index ix = Some (word_of_nat t')" "unat (word_of_nat t' :: u32) = t'"
    "hx_canonical ix = upath (hx_nodes ix) t'"
    by (rule tip_path [OF assms(1)]) blast
  then have "t = word_of_nat t'" using assms(2) by simp
  then show "length (hx_canonical ix) = hgt (hx_nodes ix) (unat t) + 1" "unat t < length (hx_nodes ix)"
    "index_tip_height ix = Some (nd_height (hx_nodes ix ! unat t))" "hx_canonical ix = upath (hx_nodes ix) (unat t)"
    using t path_length [OF index_okD(1) [OF assms(1)] t(1)]
    by (simp_all add: upath_def index_tip_height_def index_tip_def)
qed

text \<open>What a plan says, in terms of paths.\<close>

lemma plan_reorg_path:
  assumes "index_ok ix" "unat best < length (hx_nodes ix)" "tip_index ix = Some t" "best \<noteq> t"
  obtains p where "plan_reorg ix best = Some (Some p)"
    "unat (pl_fork_height p) = fork_len ix (unat best) - 1"
    "pl_apply p = drop (fork_len ix (unat best)) (upath (hx_nodes ix) (unat best))"
    "pl_rollback p = map word_of_nat (rev [fork_len ix (unat best)..<length (hx_canonical ix)])"
    "unat (pl_depth p) = length (hx_canonical ix) - fork_len ix (unat best)"
    "fork_len ix (unat best) \<le> length (hx_canonical ix)"
proof -
  let ?ns = "hx_nodes ix" and ?k = "fork_len ix (unat best)"
  note D = index_okD [OF assms(1)]
  note T = canonical_length [OF assms(1,3)]
  let ?c = "upath ?ns (unat best) ! (?k - 1)"
  have b: "1 \<le> ?k" "?k - 1 \<le> hgt ?ns (unat best)" "?k \<le> length (upath ?ns (unat best))"
    using fork_len_bounds [OF assms(1,2)] path_length [OF D(1) assms(2)] by (auto simp: upath_def)
  have j: "path ?ns (unat best) ! (?k - 1) < length ?ns" "hgt ?ns (path ?ns (unat best) ! (?k - 1)) = ?k - 1"
    using path_nth [OF D(1) assms(2) b(2)] by auto
  have c: "unat ?c = path ?ns (unat best) ! (?k - 1)"
    using unat_index [OF D(1) j(1)] b path_length [OF D(1) assms(2)] by (simp add: upath_def)
  have n: "node ix ?c = Some (?ns ! unat ?c)" "unat (nd_height (?ns ! unat ?c)) = ?k - 1"
    by (rule node_Some) (simp_all only: c j)
  have "length (take ?k (upath ?ns (unat best))) = ?k" using b(3) by simp
  then have le: "?k \<le> length (hx_canonical ix)" unfolding common_prefix [OF assms(1,2)] by simp
  have "?k - 1 < 2 ^ 32" using path_height_le [OF D(1) assms(2)] assms(2) b(2) D(1) by (simp add: nodes_ok_def)
  then have s: "unat (nd_height (?ns ! unat ?c) + 1) = ?k" using n(2) b(1) by (simp add: unat_word_ariths)
  have "plan_reorg ix best = Some (Some \<lparr>pl_fork_height = nd_height (?ns ! unat ?c),
      pl_rollback = map word_of_nat (rev [?k..<length (hx_canonical ix)]),
      pl_apply = drop ?k (upath ?ns (unat best)),
      pl_depth = saturating_sub (nd_height (?ns ! unat t)) (nd_height (?ns ! unat ?c))\<rparr>)"
    using assms(3,4) plan_loop_path [OF assms(1,2), of "[]"] n(1) T(3) s T(1) [symmetric, simplified]
    by (simp add: plan_reorg_def Let_def del: upt_Suc)
  then show thesis using that n(2) le b(1) T(1) by simp
qed

text \<open>A plan is a way from the canonical chain to the chosen head and no longer than needed: the
  canonical chain cut at the fork height and continued with the blocks to apply is the ancestry of
  the head, the blocks to roll back are the canonical heights above the fork, highest first, as many
  as the depth says, and no block to apply is canonical.\<close>

theorem plan_reaches_head:
  assumes "index_ok ix" "unat best < length (hx_nodes ix)" "tip_index ix = Some t" "best \<noteq> t"
  shows "\<exists>p. plan_reorg ix best = Some (Some p) \<and>
    ancestry ix best = Some (take (unat (pl_fork_height p) + 1) (hx_canonical ix) @ pl_apply p) \<and>
    map unat (pl_rollback p) = rev [unat (pl_fork_height p) + 1..<length (hx_canonical ix)] \<and>
    unat (pl_depth p) = length (pl_rollback p) \<and>
    (\<forall>i\<in>set (pl_apply p). is_canonical ix i = Some False)"
proof -
  let ?ns = "hx_nodes ix" and ?k = "fork_len ix (unat best)"
  note D = index_okD [OF assms(1)]
  obtain p where p: "plan_reorg ix best = Some (Some p)" "unat (pl_fork_height p) = ?k - 1"
    "pl_apply p = drop ?k (upath ?ns (unat best))"
    "pl_rollback p = map word_of_nat (rev [?k..<length (hx_canonical ix)])"
    "unat (pl_depth p) = length (hx_canonical ix) - ?k" "?k \<le> length (hx_canonical ix)"
    by (rule plan_reorg_path [OF assms])
  have k: "unat (pl_fork_height p) + 1 = ?k" using p(2) fork_len_bounds(1) [OF assms(1,2)] by simp
  have "length (hx_canonical ix) < 2 ^ 64"
    using canonical_length(1,2) [OF assms(1,3)] path_height_le [OF D(1)] D(1) by (fastforce simp: nodes_ok_def)
  then have u: "unat (word_of_nat j :: u64) = j" if "j < length (hx_canonical ix)" for j
    using that by (simp add: unat_of_nat)
  have "is_canonical ix i = Some False" if i: "i \<in> set (pl_apply p)" for i
  proof -
    obtain m where "m < length (path ?ns (unat best)) - ?k" "i = word_of_nat (path ?ns (unat best) ! (?k + m))"
      using i by (auto simp: p(3) upath_def in_set_conv_nth)
    then obtain n where n: "?k \<le> n" "n < length (path ?ns (unat best))" "i = word_of_nat (path ?ns (unat best) ! n)"
      using less_diff_conv2 by (metis add.commute le_add1 less_diff_conv)
    let ?j = "path ?ns (unat best) ! n"
    have nb: "n \<le> hgt ?ns (unat best)" using n(2) path_length [OF D(1) assms(2)] by simp
    note j = path_nth [OF D(1) assms(2) nb]
    have ui: "unat i = ?j" using n(3) unat_index [OF D(1) j(1)] by simp
    have "?j \<notin> unat ` set (hx_canonical ix)"
    proof
      assume "?j \<in> unat ` set (hx_canonical ix)"
      then have "set (path ?ns ?j) \<subseteq> unat ` set (hx_canonical ix)" using canonical_closed [OF assms(1) j(1)] by simp
      then have all: "x \<in> set (take (n + 1) (path ?ns (unat best))) \<Longrightarrow> x \<in> unat ` set (hx_canonical ix)" for x
        unfolding j(3) [symmetric] by auto
      have "takeWhile (\<lambda>j. j \<in> unat ` set (hx_canonical ix)) (take (n + 1) (path ?ns (unat best)) @ drop (n + 1) (path ?ns (unat best)))
          = take (n + 1) (path ?ns (unat best)) @ takeWhile (\<lambda>j. j \<in> unat ` set (hx_canonical ix)) (drop (n + 1) (path ?ns (unat best)))"
        by (rule takeWhile_append2) (rule all)
      then have "n + 1 \<le> ?k" unfolding fork_len_def append_take_drop_id using n(2) by simp
      then show False using n(1) by simp
    qed
    then show ?thesis using is_canonical_iff [OF assms(1), of i] j(1) by (simp add: ui)
  qed
  moreover have "ancestry ix best = Some (take (unat (pl_fork_height p) + 1) (hx_canonical ix) @ pl_apply p)"
    unfolding k p(3) common_prefix [OF assms(1,2), symmetric] using ancestry_path [OF D(1) assms(2)] by simp
  moreover have "map unat (pl_rollback p) = rev [?k..<length (hx_canonical ix)]"
    unfolding p(4) map_map by (rule map_idI) (use u in simp)
  ultimately show ?thesis using p(1,5) k by (intro exI [of _ p]) (simp add: p(4))
qed

theorem plan_reaches_head_witness:
  "\<exists>p. plan_reorg sample_index 1 = Some (Some p) \<and> ancestry sample_index 1 = Some (take (unat (pl_fork_height p) + 1) [0] @ pl_apply p)"
  using plan_reaches_head [OF sample_index_ok, of 1 0]
  by (fastforce simp: sample_index_def tip_index_def)

text \<open>The walks over the arena end: from every node the loop of \<open>ancestry\<close> returns the path from
  genesis, one node per height, \<open>ancestor_at\<close> returns the node of that path at the height asked for, or
  nothing above it, and the loop of \<open>plan_reorg\<close> returns a plan unless the node is the tip.\<close>

theorem arena_walks_return:
  assumes "index_ok ix" "unat i < length (hx_nodes ix)"
  shows "\<exists>chain. ancestry ix i = Some chain \<and> length chain = unat (nd_height (hx_nodes ix ! unat i)) + 1 \<and>
    (\<forall>h. ancestor_at ix i h = Some (if unat h < length chain then Some (chain ! unat h) else None)) \<and>
    (\<exists>p. plan_reorg ix i = Some p \<and> (p = None \<longleftrightarrow> tip_index ix = Some i))"
proof -
  note D = index_okD [OF assms(1)]
  obtain t where t: "tip_index ix = Some t" using tip_path [OF assms(1)] by blast
  have "\<exists>p. plan_reorg ix i = Some p \<and> (p = None \<longleftrightarrow> tip_index ix = Some i)"
  proof (cases "i = t")
    case True
    then show ?thesis using t by (simp add: plan_reorg_def)
  next
    case False
    obtain p where "plan_reorg ix i = Some (Some p)" by (rule plan_reorg_path [OF assms t False])
    then show ?thesis using False t by auto
  qed
  then show ?thesis
    using ancestry_path [OF D(1) assms(2)] ancestor_at_path [OF D(1) assms(2)] path_length [OF D(1) assms(2)]
    by (simp add: upath_def less_Suc_eq_le)
qed

theorem arena_walks_return_witness:
  "\<exists>chain. ancestry sample_index 1 = Some chain \<and> (\<exists>p. plan_reorg sample_index 1 = Some p \<and> p \<noteq> None)"
  using arena_walks_return [OF sample_index_ok, of 1] by (auto simp: sample_index_def tip_index_def)

section \<open>The work of an arena\<close>

text \<open>What the callers of \<open>insert\<close> establish: bits that expand under the limit, and cumulative work
  that is the parent's plus the work of the bits.\<close>

definition works_ok :: "Target \<Rightarrow> Node list \<Rightarrow> bool" where
  "works_ok limit ns \<longleftrightarrow> (\<forall>i < length ns. \<exists>t. expand_bits (nd_bits (ns ! i)) limit = Some t \<and>
     work_val (nd_cum_work (ns ! i)) =
       (if i = 0 then 0 else work_val (nd_cum_work (ns ! par ns i))) + 2 ^ 256 div (target_val t + 1))"

definition info_of :: "Target \<Rightarrow> Node \<Rightarrow> HeaderInfo" where
  "info_of limit n = \<lparr>hi_height = nd_height n, hi_hash = nd_hash n, hi_time = nd_time n,
     hi_target = or_default ZERO_HASH (target_of limit (nd_bits n))\<rparr>"

lemma node_info_Some:
  assumes "works_ok limit ns" "i < length ns"
  shows "node_info limit (ns ! i) = Some (info_of limit (ns ! i))"
    and "length (hi_target (info_of limit (ns ! i))) = 32"
    and "work_val (nd_cum_work (ns ! i)) =
      (if i = 0 then 0 else work_val (nd_cum_work (ns ! par ns i))) + header_work (info_of limit (ns ! i))"
proof -
  obtain t where t: "expand_bits (nd_bits (ns ! i)) limit = Some t" "work_val (nd_cum_work (ns ! i)) =
       (if i = 0 then 0 else work_val (nd_cum_work (ns ! par ns i))) + 2 ^ 256 div (target_val t + 1)"
    using assms by (auto simp: works_ok_def)
  then have "target_of limit (nd_bits (ns ! i)) = Some (target_to_be t)" by (simp add: target_of_def)
  then show "node_info limit (ns ! i) = Some (info_of limit (ns ! i))"
    "length (hi_target (info_of limit (ns ! i))) = 32"
    "work_val (nd_cum_work (ns ! i)) =
      (if i = 0 then 0 else work_val (nd_cum_work (ns ! par ns i))) + header_work (info_of limit (ns ! i))"
    using t by (simp_all add: node_info_def info_of_def or_default_def header_work_def be_val_target)
qed

lemma cum_work_path:
  assumes "nodes_ok ns" "works_ok limit ns" "i < length ns"
  shows "work_val (nd_cum_work (ns ! i)) = sum_list (map (\<lambda>j. header_work (info_of limit (ns ! j))) (path ns i))"
  using assms(1,3)
proof (induction i rule: path_induct)
  case genesis
  then show ?case using node_info_Some(3) [OF assms(2), of 0] assms(1) by (simp add: nodes_ok_def)
next
  case (child i)
  then show ?case using node_info_Some(3) [OF assms(2), of i] assms(1) by (simp add: path_step)
qed

lemma works_ok_append:
  assumes "works_ok limit ns" "nodes_ok ns" "unat (nd_prev n) < length ns" "expand_bits (nd_bits n) limit = Some t"
    "work_val (nd_cum_work n) = work_val (nd_cum_work (ns ! unat (nd_prev n))) + 2 ^ 256 div (target_val t + 1)"
  shows "works_ok limit (ns @ [n])"
  unfolding works_ok_def
proof (intro allI impI)
  fix i assume "i < length (ns @ [n])"
  then consider "i < length ns" | "i = length ns" by fastforce
  then show "\<exists>t. expand_bits (nd_bits ((ns @ [n]) ! i)) limit = Some t \<and> work_val (nd_cum_work ((ns @ [n]) ! i)) =
       (if i = 0 then 0 else work_val (nd_cum_work ((ns @ [n]) ! par (ns @ [n]) i))) + 2 ^ 256 div (target_val t + 1)"
  proof cases
    case 1
    then have "0 < i \<Longrightarrow> par ns i < length ns" using nodes_ok_par(2) [OF assms(2)] by simp
    then show ?thesis using assms(1) 1 by (auto simp: works_ok_def nth_append)
  next
    case 2
    then show ?thesis using assms(3-5) by (auto simp: nth_append)
  qed
qed

lemma works_ok_same:
  assumes "works_ok limit ns" "nodes_ok ns" "length ms = length ns"
    and "\<And>j. j < length ns \<Longrightarrow> nd_prev (ms ! j) = nd_prev (ns ! j) \<and> nd_bits (ms ! j) = nd_bits (ns ! j) \<and>
      nd_cum_work (ms ! j) = nd_cum_work (ns ! j)"
  shows "works_ok limit ms"
  unfolding works_ok_def assms(3)
proof (intro allI impI)
  fix i assume i: "i < length ns"
  have "0 < i \<Longrightarrow> par ns i < length ns" using nodes_ok_par(2) [OF assms(2)] i by simp
  then show "\<exists>t. expand_bits (nd_bits (ms ! i)) limit = Some t \<and> work_val (nd_cum_work (ms ! i)) =
       (if i = 0 then 0 else work_val (nd_cum_work (ms ! par ms i))) + 2 ^ 256 div (target_val t + 1)"
    using assms(1,4) i by (auto simp: works_ok_def)
qed

section \<open>The arena keeps the contract of a view\<close>

definition arena_chain :: "HeaderIndex \<Rightarrow> Target \<Rightarrow> HeaderInfo list" where
  "arena_chain ix limit = map (\<lambda>i. info_of limit (hx_nodes ix ! unat i)) (hx_canonical ix)"

definition arena_inv :: "HeaderIndex \<Rightarrow> Target \<Rightarrow> bool" where
  "arena_inv ix limit \<longleftrightarrow> index_ok ix \<and> works_ok limit (hx_nodes ix)"

lemma arena_facts:
  assumes "arena_inv ix limit"
  obtains t where "t < length (hx_nodes ix)" "map unat (hx_canonical ix) = path (hx_nodes ix) t"
    "length (hx_canonical ix) = hgt (hx_nodes ix) t + 1" "length (hx_canonical ix) < 2 ^ 32"
    "index_tip ix = Some (hx_nodes ix ! t)"
    "arena_chain ix limit = map (\<lambda>j. info_of limit (hx_nodes ix ! j)) (path (hx_nodes ix) t)"
proof -
  have ok: "index_ok ix" using assms by (simp add: arena_inv_def)
  note D = index_okD [OF ok]
  obtain t where t: "t < length (hx_nodes ix)" "map unat (hx_canonical ix) = path (hx_nodes ix) t"
    "tip_index ix = Some (word_of_nat t)" "unat (word_of_nat t :: u32) = t"
    by (rule tip_path [OF ok]) blast
  have len: "length (hx_canonical ix) = hgt (hx_nodes ix) t + 1"
    using path_length [OF D(1) t(1)] t(2) by (metis length_map)
  have "length (hx_canonical ix) < 2 ^ 32"
    using len path_height_le [OF D(1) t(1)] t(1) D(1) by (simp add: nodes_ok_def)
  moreover have "arena_chain ix limit = map (\<lambda>j. info_of limit (hx_nodes ix ! j)) (map unat (hx_canonical ix))"
    by (simp add: arena_chain_def)
  ultimately show thesis using that [OF t(1,2) len] t by (simp add: index_tip_def)
qed

lemma find_info:
  "List.find (\<lambda>i. hi_hash i = x) (map (\<lambda>i. info_of limit (ns ! unat i)) cs) =
    map_option (\<lambda>i. info_of limit (ns ! unat i)) (List.find (\<lambda>i. nd_hash (ns ! unat i) = x) cs)"
  by (induction cs) (auto simp: info_of_def)

lemma find_unique: "i \<in> set xs \<Longrightarrow> P i \<Longrightarrow> (\<And>j. j \<in> set xs \<Longrightarrow> P j \<Longrightarrow> j = i) \<Longrightarrow> List.find P xs = Some i"
proof (induction xs)
  case (Cons x xs)
  show ?case
  proof (cases "P x")
    case True
    then have "x = i" using Cons.prems(3) [of x] by simp
    then show ?thesis using True by simp
  next
    case False
    then have "i \<in> set xs" using Cons.prems(1,2) by auto
    then have "List.find P xs = Some i"
      by (rule Cons.IH) (rule Cons.prems(2), rule Cons.prems(3), erule list.set_intros)
    then show ?thesis using False by simp
  qed
qed simp

lemma arena_no_panic:
  assumes "arena_inv ix limit"
  shows "arena_len ix = Some (word_of_nat (length (arena_chain ix limit)))"
    and "arena_header_at ix limit h =
      Some (if unat h < length (arena_chain ix limit) then Some (arena_chain ix limit ! unat h) else None)"
    and "arena_header_by_hash ix limit x = Some (List.find (\<lambda>i. hi_hash i = x) (arena_chain ix limit))"
    and "\<exists>w. arena_cumulative_work ix = Some w \<and> work_val w = sum_list (map header_work (arena_chain ix limit))"
proof -
  let ?ns = "hx_nodes ix"
  have ok: "index_ok ix" and wok: "works_ok limit ?ns" using assms by (simp_all add: arena_inv_def)
  note D = index_okD [OF ok]
  obtain t where t: "t < length ?ns" "map unat (hx_canonical ix) = path ?ns t"
    "length (hx_canonical ix) = hgt ?ns t + 1" "length (hx_canonical ix) < 2 ^ 32"
    "index_tip ix = Some (?ns ! t)" "arena_chain ix limit = map (\<lambda>j. info_of limit (?ns ! j)) (path ?ns t)"
    by (rule arena_facts [OF assms])
  have len: "length (arena_chain ix limit) = hgt ?ns t + 1" using path_length [OF D(1) t(1)] by (simp add: t(6))
  have clen: "length (hx_canonical ix) = length (arena_chain ix limit)" by (simp add: arena_chain_def)
  have "nd_height (?ns ! t) + 1 = word_of_nat (hgt ?ns t + 1)" by simp
  then show "arena_len ix = Some (word_of_nat (length (arena_chain ix limit)))"
    unfolding len by (simp add: arena_len_def index_tip_height_def t(5))
  have mem: "unat c < length ?ns" if "c \<in> set (hx_canonical ix)" for c
  proof -
    have "unat c \<in> set (path ?ns t)" using that unfolding canonical_set [OF t(2), symmetric] by simp
    then show ?thesis using path_bound [OF D(1) t(1)] t(1) by fastforce
  qed
  show "arena_header_at ix limit h =
      Some (if unat h < length (arena_chain ix limit) then Some (arena_chain ix limit ! unat h) else None)"
    using node_info_Some(1) [OF wok] mem clen
    by (auto simp: arena_header_at_def canonical_at_def arena_chain_def)
  show "\<exists>w. arena_cumulative_work ix = Some w \<and> work_val w = sum_list (map header_work (arena_chain ix limit))"
    using cum_work_path [OF D(1) wok t(1)] by (simp add: arena_cumulative_work_def t(5,6) comp_def)
  show "arena_header_by_hash ix limit x = Some (List.find (\<lambda>i. hi_hash i = x) (arena_chain ix limit))"
  proof -
    have by_hash: "index_of ix y = Some i \<longleftrightarrow> unat i < length ?ns \<and> nd_hash (?ns ! unat i) = y" for y i
      using D(2) by (simp add: by_hash_ok_def index_of_def)
    have find: "List.find (\<lambda>i. hi_hash i = x) (arena_chain ix limit) =
        map_option (\<lambda>i. info_of limit (?ns ! unat i)) (List.find (\<lambda>i. nd_hash (?ns ! unat i) = x) (hx_canonical ix))"
      unfolding arena_chain_def by (rule find_info)
    show ?thesis
    proof (cases "index_of ix x")
      case None
      have "nd_hash (?ns ! unat i) \<noteq> x" if "i \<in> set (hx_canonical ix)" for i
        using by_hash [of x i] mem [OF that] None by simp
      then have "List.find (\<lambda>i. nd_hash (?ns ! unat i) = x) (hx_canonical ix) = None" by (simp add: find_None_iff)
      then show ?thesis using None find by (simp add: arena_header_by_hash_def)
    next
      case (Some i)
      then have i: "unat i < length ?ns" "nd_hash (?ns ! unat i) = x" using by_hash by auto
      have uniq: "j = i" if "j \<in> set (hx_canonical ix)" "nd_hash (?ns ! unat j) = x" for j
        using by_hash [of x j] mem [OF that(1)] that(2) Some by simp
      have canon: "is_canonical ix i = Some (i \<in> set (hx_canonical ix))"
        using is_canonical_iff [OF ok i(1)] by (auto simp: image_iff dest: word_unat_eq_iff [THEN iffD2])
      have "List.find (\<lambda>i. nd_hash (?ns ! unat i) = x) (hx_canonical ix) = (if i \<in> set (hx_canonical ix) then Some i else None)"
      proof (cases "i \<in> set (hx_canonical ix)")
        case True
        then show ?thesis
          by (simp add: find_unique [of i "hx_canonical ix" "\<lambda>j. nd_hash (?ns ! unat j) = x", OF True i(2) uniq])
      next
        case False
        then show ?thesis using uniq by (auto simp: find_None_iff)
      qed
      then show ?thesis
        using Some i canon find node_info_Some(1) [OF wok i(1)] by (simp add: arena_header_by_hash_def)
    qed
  qed
qed

interpretation arena: chain_view
  "\<lambda>(ix, limit). arena_view ix limit" "\<lambda>(ix, limit). arena_chain ix limit" "\<lambda>(ix, limit). arena_inv ix limit"
proof unfold_locales
  fix s :: "HeaderIndex \<times> Target" and h :: u64 and x :: Hash32 and i :: nat
  assume inv: "case s of (ix, limit) \<Rightarrow> arena_inv ix limit"
  obtain ix limit where s: "s = (ix, limit)" by (cases s)
  then have a: "arena_inv ix limit" using inv by simp
  let ?ns = "hx_nodes ix"
  have D: "nodes_ok ?ns" "works_ok limit ?ns" using a by (simp_all add: arena_inv_def index_ok_def)
  obtain t where t: "t < length ?ns" "map unat (hx_canonical ix) = path ?ns t"
    "length (hx_canonical ix) = hgt ?ns t + 1" "length (hx_canonical ix) < 2 ^ 32"
    "index_tip ix = Some (?ns ! t)" "arena_chain ix limit = map (\<lambda>j. info_of limit (?ns ! j)) (path ?ns t)"
    by (rule arena_facts [OF a])
  have len: "length (arena_chain ix limit) = hgt ?ns t + 1" using path_length [OF D(1) t(1)] by (simp add: t(6))
  have short: "length (arena_chain ix limit) < 2 ^ 32" using t(3,4) len by simp
  note np = arena_no_panic [OF a]
  show "(case s of (ix, limit) \<Rightarrow> arena_chain ix limit) \<noteq> []" using len by (auto simp: s)
  show "length (case s of (ix, limit) \<Rightarrow> arena_chain ix limit) < 2 ^ 63" using short by (simp add: s)
  show "unat (cv_len (case s of (ix, limit) \<Rightarrow> arena_view ix limit)) = length (case s of (ix, limit) \<Rightarrow> arena_chain ix limit)"
    using np(1) short by (simp add: s arena_view_def or_default_def unat_of_nat)
  show "cv_header_at (case s of (ix, limit) \<Rightarrow> arena_view ix limit) h =
      (if unat h < length (case s of (ix, limit) \<Rightarrow> arena_chain ix limit)
       then Some ((case s of (ix, limit) \<Rightarrow> arena_chain ix limit) ! unat h) else None)"
    using np(2) by (simp add: s arena_view_def or_default_def)
  show "cv_header_by_hash (case s of (ix, limit) \<Rightarrow> arena_view ix limit) x =
      List.find (\<lambda>i. hi_hash i = x) (case s of (ix, limit) \<Rightarrow> arena_chain ix limit)"
    using np(3) by (simp add: s arena_view_def or_default_def)
  show "\<forall>x\<in>set (case s of (ix, limit) \<Rightarrow> arena_chain ix limit). length (hi_target x) = 32"
    using node_info_Some(2) [OF D(2)] path_bound [OF D(1) t(1)] t(1) by (fastforce simp: s t(6))
  show "work_val (cv_cumulative_work (case s of (ix, limit) \<Rightarrow> arena_view ix limit)) =
      sum_list (map header_work (case s of (ix, limit) \<Rightarrow> arena_chain ix limit))"
    using np(4) by (auto simp: s arena_view_def or_default_def)
  show "unat (hi_height ((case s of (ix, limit) \<Rightarrow> arena_chain ix limit) ! i)) = i"
    if "i < length (case s of (ix, limit) \<Rightarrow> arena_chain ix limit)"
  proof -
    have "i \<le> hgt ?ns t" using that len by (simp add: s)
    then show ?thesis
      using path_nth(2) [OF D(1) t(1)] path_length [OF D(1) t(1)] by (simp add: s t(6) info_of_def)
  qed
qed

end
