(* ===== verification/Errors.thy ===== *)
theory Errors imports TxRules ChainTypes begin

text \<open>
  \<open>lib/chain/src/error.rs\<close> and the interfaces of \<open>lib/chain/src/traits.rs\<close>. The constructors
  several of these types share are written with the name of their type. The store is what the
  chain crate reads of the database, as the record of the values and functions its trait
  declares; the sink is what it writes, and proof-of-work verification and the clock are values.
  Static strings are kept, \<open>usize\<close> is a natural number.
\<close>

section \<open>The store\<close>

record Store =
  st_tip :: TipRef
  st_header_at :: "u64 \<Rightarrow> HeaderRec option"
  st_header_by_hash :: "Hash32 \<Rightarrow> HeaderRec option"
  st_hash_at :: "u64 \<Rightarrow> Hash32 option"
  st_body_at :: "u64 \<Rightarrow> bytes option"
  st_body_by_hash :: "Hash32 \<Rightarrow> bytes option"
  st_account :: "Address \<Rightarrow> Account"
  st_undo_at :: "u64 \<Rightarrow> UndoRec list option"
  st_undo_floor :: u64
  st_replay_floor :: u64
  st_checkpoint_at_or_below :: "u64 \<Rightarrow> u64 option"
  st_state_snapshot :: "u64 \<Rightarrow> (Address \<times> Account) list option"
  st_issued :: u128
  st_is_invalid :: "Hash32 \<Rightarrow> bool"
  st_headers_range :: "u64 \<Rightarrow> nat \<Rightarrow> bytes list"
  st_side_headers_from :: "u64 \<Rightarrow> nat \<Rightarrow> HeaderRec list"

definition store_accounts :: "Store \<Rightarrow> Address list \<Rightarrow> Account list" where
  "store_accounts st addrs = map (st_account st) addrs"

section \<open>Errors and conditions\<close>

datatype SinkError = Full | Invalid string | Fatal string

datatype EvictReason =
    Expired
  | QueuedLowFee
  | ExecutableTail
  | Confirmed
  | ReorgInvalid
  | ReorgOverflow

datatype BudgetClass =
    Interpreter
  | Duplicates
  | Staging
  | TxIngress
  | ChildQuota
  | HeaderClass

datatype Condition =
    ReorgTooDeepRefused u64 u64 u64 u64
  | ReorgOverlayExhausted nat
  | ResyncRequired u64 u64
  | AnchorContradiction u64 Hash32
  | AnchorNotPersisted u64 SinkError
  | BranchInvalidAt u64 Hash32
  | DeepReplay u64 u64 u64
  | MempoolEvicted nat EvictReason
  | BudgetExhausted SourceId BudgetClass
  | DuplicateFlood SourceId u32
  | StorageFatal string
  | ImmatureSpendDropped Address

datatype Permanence = Permanent | Transient

datatype (plugins only: code size) Reject =
    BadHeaderLength nat
  | ExtRootNotZero
  | AuthorNoteLen u32
  | BadVersion u32
  | BadBits u32
  | CheckpointMismatch u64
  | UnknownParent Hash32
  | HeightNotParentPlusOne u64 u64
  | BitsNotAsert u32 u32
  | AsertAnchorUnavailable u64
  | TimestampTooOld u64 u64
  | TimestampTooFarInFuture u64 u64
  | ForkTooDeep u64 u64
  | InsufficientClaimedWork
  | PowInvalid Hash32
  | BudgetExhausted SourceId
  | DuplicateFlood SourceId u32
  | StagingFull SourceId
  | BatchTooLong nat nat
  | TooManySources SourceId nat
  | BodyNotAdmissible Hash32
  | BodyAlreadyHeld Hash32
  | BodyStructure string
  | TxRootMismatch
  | Tx nat TxError
  | BadTransferSignature nat
  | FeeBelowFloor nat
  | BadNonce nat u64 u64
  | InsufficientBalance nat u128 u128
  | ArithmeticOverflow
  | Rule RuleError
  | BranchInvalid u64 Hash32 Reject
  | ResyncRequired u64 u64
  | Busy
  | SinkRefused string
  | Halted string
  | BootInvariant string
  | TxKnown
  | TxStale u64 u64
  | NonceGapTooLarge u64 u64
  | TxTypeNotRelayable u8
  | BelowRelayFloor u128 u128
  | ReplacementUnderpriced u128 u128
  | PoolFull
  | SenderCap nat
  | TxDecode
  | TxTooLarge nat

datatype SubmitTag =
    Malformed
  | TooLarge
  | FeeBelowFloor
  | BadSignature
  | NotAuthorKey
  | NonceOutOfRange
  | InsufficientFunds
  | Duplicate
  | ReplacementUnderpriced
  | PoolFull
  | NotReady

primrec tx_error_tag :: "TxError \<Rightarrow> SubmitTag" where
  "tx_error_tag TxError.NotAuthorKey = SubmitTag.NotAuthorKey"
| "tx_error_tag TxError.BadSignature = SubmitTag.BadSignature"
| "tx_error_tag (TxError.AnnouncementLength x0) = SubmitTag.Malformed"
| "tx_error_tag (TxError.FeeBelowFloor x0) = SubmitTag.FeeBelowFloor"
| "tx_error_tag (TxError.BadNonce x0 x1) = SubmitTag.NonceOutOfRange"
| "tx_error_tag (TxError.InsufficientBalance x0 x1) = SubmitTag.InsufficientFunds"
| "tx_error_tag TxError.AmountOverflow = SubmitTag.Malformed"
| "tx_error_tag TxError.FeeSumOverflow = SubmitTag.Malformed"
| "tx_error_tag (TxError.RecordDoesNotDecode x0 x1) = SubmitTag.Malformed"
| "tx_error_tag TxError.MissingCoinbase = SubmitTag.Malformed"
| "tx_error_tag (TxError.MisplacedCoinbase x0) = SubmitTag.Malformed"
| "tx_error_tag (TxError.CoinbaseHeightMismatch x0 x1) = SubmitTag.Malformed"
| "tx_error_tag (TxError.CoinbaseRewardMismatch x0 x1) = SubmitTag.Malformed"
| "tx_error_tag (TxError.CoinbaseFeesMismatch x0 x1) = SubmitTag.Malformed"
| "tx_error_tag (TxError.AuthorNoteLenMismatch x0 x1) = SubmitTag.Malformed"
| "tx_error_tag (TxError.AuthorNoteTooLong x0) = SubmitTag.Malformed"

primrec submit_tag :: "Reject \<Rightarrow> SubmitTag" where
  "submit_tag (Reject.BadHeaderLength x0) = SubmitTag.Malformed"
| "submit_tag Reject.ExtRootNotZero = SubmitTag.Malformed"
| "submit_tag (Reject.AuthorNoteLen x0) = SubmitTag.Malformed"
| "submit_tag (Reject.BadVersion x0) = SubmitTag.Malformed"
| "submit_tag (Reject.BadBits x0) = SubmitTag.Malformed"
| "submit_tag (Reject.CheckpointMismatch x0) = SubmitTag.NotReady"
| "submit_tag (Reject.UnknownParent x0) = SubmitTag.NotReady"
| "submit_tag (Reject.HeightNotParentPlusOne x0 x1) = SubmitTag.NotReady"
| "submit_tag (Reject.BitsNotAsert x0 x1) = SubmitTag.NotReady"
| "submit_tag (Reject.AsertAnchorUnavailable x0) = SubmitTag.NotReady"
| "submit_tag (Reject.TimestampTooOld x0 x1) = SubmitTag.NotReady"
| "submit_tag (Reject.TimestampTooFarInFuture x0 x1) = SubmitTag.NotReady"
| "submit_tag (Reject.ForkTooDeep x0 x1) = SubmitTag.NotReady"
| "submit_tag Reject.InsufficientClaimedWork = SubmitTag.NotReady"
| "submit_tag (Reject.PowInvalid x0) = SubmitTag.NotReady"
| "submit_tag (Reject.BudgetExhausted x0) = SubmitTag.NotReady"
| "submit_tag (Reject.DuplicateFlood x0 x1) = SubmitTag.NotReady"
| "submit_tag (Reject.StagingFull x0) = SubmitTag.PoolFull"
| "submit_tag (Reject.BatchTooLong x0 x1) = SubmitTag.NotReady"
| "submit_tag (Reject.TooManySources x0 x1) = SubmitTag.NotReady"
| "submit_tag (Reject.BodyNotAdmissible x0) = SubmitTag.Malformed"
| "submit_tag (Reject.BodyAlreadyHeld x0) = SubmitTag.Malformed"
| "submit_tag (Reject.BodyStructure x0) = SubmitTag.Malformed"
| "submit_tag Reject.TxRootMismatch = SubmitTag.Malformed"
| "submit_tag (Reject.Tx x0 x1) = tx_error_tag x1"
| "submit_tag (Reject.BadTransferSignature x0) = SubmitTag.BadSignature"
| "submit_tag (Reject.FeeBelowFloor x0) = SubmitTag.FeeBelowFloor"
| "submit_tag (Reject.BadNonce x0 x1 x2) = SubmitTag.NonceOutOfRange"
| "submit_tag (Reject.InsufficientBalance x0 x1 x2) = SubmitTag.InsufficientFunds"
| "submit_tag Reject.ArithmeticOverflow = SubmitTag.Malformed"
| "submit_tag (Reject.Rule x0) = SubmitTag.NotReady"
| "submit_tag (Reject.BranchInvalid x0 x1 x2) = SubmitTag.NotReady"
| "submit_tag (Reject.ResyncRequired x0 x1) = SubmitTag.NotReady"
| "submit_tag Reject.Busy = SubmitTag.NotReady"
| "submit_tag (Reject.SinkRefused x0) = SubmitTag.NotReady"
| "submit_tag (Reject.Halted x0) = SubmitTag.NotReady"
| "submit_tag (Reject.BootInvariant x0) = SubmitTag.NotReady"
| "submit_tag Reject.TxKnown = SubmitTag.Duplicate"
| "submit_tag (Reject.TxStale x0 x1) = SubmitTag.NonceOutOfRange"
| "submit_tag (Reject.NonceGapTooLarge x0 x1) = SubmitTag.NonceOutOfRange"
| "submit_tag (Reject.TxTypeNotRelayable x0) = SubmitTag.Malformed"
| "submit_tag (Reject.BelowRelayFloor x0 x1) = SubmitTag.FeeBelowFloor"
| "submit_tag (Reject.ReplacementUnderpriced x0 x1) = SubmitTag.ReplacementUnderpriced"
| "submit_tag Reject.PoolFull = SubmitTag.PoolFull"
| "submit_tag (Reject.SenderCap x0) = SubmitTag.PoolFull"
| "submit_tag Reject.TxDecode = SubmitTag.Malformed"
| "submit_tag (Reject.TxTooLarge x0) = SubmitTag.TooLarge"

primrec why :: "Reject \<Rightarrow> string" where
  "why (Reject.BadHeaderLength x0) = ''header is not 132 bytes''"
| "why Reject.ExtRootNotZero = ''ext_root is not zero''"
| "why (Reject.AuthorNoteLen x0) = ''author_note_len out of range''"
| "why (Reject.BadVersion x0) = ''version bits are not 001''"
| "why (Reject.BadBits x0) = ''bits do not expand to a legal target''"
| "why (Reject.CheckpointMismatch x0) = ''checkpoint mismatch at this height''"
| "why (Reject.UnknownParent x0) = ''the chain does not hold the parent''"
| "why (Reject.HeightNotParentPlusOne x0 x1) = ''height is not parent + 1''"
| "why (Reject.BitsNotAsert x0 x1) = ''bits are not ASERT(parent)''"
| "why (Reject.AsertAnchorUnavailable x0) = ''the ASERT anchor is unreachable''"
| "why (Reject.TimestampTooOld x0 x1) = ''timestamp at or below the median time past''"
| "why (Reject.TimestampTooFarInFuture x0 x1) = ''timestamp too far in the future''"
| "why (Reject.ForkTooDeep x0 x1) = ''the branch forks deeper than the reorg cap''"
| "why Reject.InsufficientClaimedWork = ''the branch claims no more work than our tip''"
| "why (Reject.PowInvalid x0) = ''proof of work is invalid''"
| "why (Reject.BudgetExhausted x0) = ''this source has spent its ingest budget''"
| "why (Reject.DuplicateFlood x0 x1) = ''this source is replaying known headers''"
| "why (Reject.StagingFull x0) = ''this source's staging buffer is full''"
| "why (Reject.BatchTooLong x0 x1) = ''the batch is longer than MAX_HEADERS_PER_MSG''"
| "why (Reject.TooManySources x0 x1) = ''the per-source table is full''"
| "why (Reject.BodyNotAdmissible x0) = ''no PoW-verified header for this body''"
| "why (Reject.BodyAlreadyHeld x0) = ''this body is already held''"
| "why (Reject.BodyStructure x0) = ''the body does not parse''"
| "why Reject.TxRootMismatch = ''the body's merkle root is not the header's tx_root''"
| "why (Reject.Tx x0 x1) = ''a transaction rule failed''"
| "why (Reject.BadTransferSignature x0) = ''a transfer signature failed''"
| "why (Reject.FeeBelowFloor x0) = ''a fee is below the consensus floor''"
| "why (Reject.BadNonce x0 x1 x2) = ''a transaction nonce is wrong''"
| "why (Reject.InsufficientBalance x0 x1 x2) = ''a sender cannot cover the outlay''"
| "why Reject.ArithmeticOverflow = ''arithmetic overflow''"
| "why (Reject.Rule x0) = ''the authoritative predicate refused the branch''"
| "why (Reject.BranchInvalid x0 x1 x2) = ''a candidate block failed body validation''"
| "why (Reject.ResyncRequired x0 x1) = ''the fork point is below the replay floor''"
| "why Reject.Busy = ''storage is busy''"
| "why (Reject.SinkRefused x0) = ''storage refused the write''"
| "why (Reject.Halted x0) = ''the manager is halted''"
| "why (Reject.BootInvariant x0) = ''a boot invariant failed''"
| "why Reject.TxKnown = ''already in the pool''"
| "why (Reject.TxStale x0 x1) = ''nonce below the sender's next''"
| "why (Reject.NonceGapTooLarge x0 x1) = ''nonce gap too large''"
| "why (Reject.TxTypeNotRelayable x0) = ''this transaction type is never relayed''"
| "why (Reject.BelowRelayFloor x0 x1) = ''below the operator relay floor''"
| "why (Reject.ReplacementUnderpriced x0 x1) = ''replacement underpriced''"
| "why Reject.PoolFull = ''the mempool is full''"
| "why (Reject.SenderCap x0) = ''this sender holds the per-sender cap''"
| "why Reject.TxDecode = ''the transaction does not decode''"
| "why (Reject.TxTooLarge x0) = ''the transaction is too large''"

definition permanence :: "Reject \<Rightarrow> Permanence" where
  "permanence r =
     (case r of
        Reject.BadHeaderLength _ \<Rightarrow> Permanent
      | Reject.ExtRootNotZero \<Rightarrow> Permanent
      | Reject.AuthorNoteLen _ \<Rightarrow> Permanent
      | Reject.BadVersion _ \<Rightarrow> Permanent
      | Reject.BadBits _ \<Rightarrow> Permanent
      | Reject.CheckpointMismatch _ \<Rightarrow> Permanent
      | Reject.HeightNotParentPlusOne _ _ \<Rightarrow> Permanent
      | Reject.BitsNotAsert _ _ \<Rightarrow> Permanent
      | Reject.TimestampTooOld _ _ \<Rightarrow> Permanent
      | Reject.PowInvalid _ \<Rightarrow> Permanent
      | _ \<Rightarrow> Transient)"

end
