(* ===== verification/State.thy ===== *)
theory State imports Errors begin

text \<open>
  \<open>lib/chain/src/state.rs\<close>: the account overlay a block is executed on, with its undo journal, and
  the ledger of coinbase rewards that cannot be spent yet. A hash map is a map; \<open>get\<close> and
  \<open>deltas\<close> take \<open>&mut self\<close> in the code because a read fills the cache, so they return the new
  overlay. The overlay implements a table of accounts with a journal (\<open>journaled_accounts\<close>),
  which is what block execution relies on.
\<close>

record Overlay =
  ov_store :: Store
  ov_accounts :: "Address \<rightharpoonup> Account"
  ov_undo :: "Address \<rightharpoonup> UndoRec"
  ov_order :: "Address list"
  ov_max_accounts :: nat

definition overlay_new :: "Store \<Rightarrow> nat \<Rightarrow> Overlay" where
  "overlay_new store max_accounts = \<lparr>ov_store = store, ov_accounts = Map.empty, ov_undo = Map.empty,
     ov_order = [], ov_max_accounts = max_accounts\<rparr>"

definition overlay_seed :: "(Address \<times> Account) list \<Rightarrow> Overlay \<Rightarrow> Overlay" where
  "overlay_seed rows ov = ov\<lparr>ov_accounts := map_of (rev rows)\<rparr>"

definition overlay_len :: "Overlay \<Rightarrow> nat" where
  "overlay_len ov = card (dom (ov_accounts ov))"

definition overlay_is_empty :: "Overlay \<Rightarrow> bool" where
  "overlay_is_empty ov \<longleftrightarrow> overlay_len ov = 0"

definition overlay_exhausted :: "Overlay \<Rightarrow> bool" where
  "overlay_exhausted ov \<longleftrightarrow> ov_max_accounts ov < overlay_len ov"

definition overlay_get :: "Address \<Rightarrow> Overlay \<Rightarrow> Account \<times> Overlay" where
  "overlay_get addr ov =
     (case ov_accounts ov addr of
        Some a \<Rightarrow> (a, ov)
      | None \<Rightarrow> let a = st_account (ov_store ov) addr in (a, ov\<lparr>ov_accounts := (ov_accounts ov)(addr \<mapsto> a)\<rparr>))"

definition overlay_begin_block :: "Overlay \<Rightarrow> Overlay" where
  "overlay_begin_block ov = ov\<lparr>ov_undo := Map.empty, ov_order := []\<rparr>"

definition overlay_capture :: "Address \<Rightarrow> Overlay \<Rightarrow> Overlay" where
  "overlay_capture addr ov =
     (if ov_undo ov addr \<noteq> None then ov
      else let (prev, ov) = overlay_get addr ov in
        ov\<lparr>ov_undo := (ov_undo ov)(addr \<mapsto> \<lparr>un_addr = addr, un_prev_balance = ac_balance prev,
             un_prev_nonce = ac_nonce prev, un_existed = (\<not> is_absent prev)\<rparr>),
           ov_order := ov_order ov @ [addr]\<rparr>)"

definition overlay_set :: "Address \<Rightarrow> Account \<Rightarrow> Overlay \<Rightarrow> Overlay" where
  "overlay_set addr acct ov =
     (let ov = overlay_capture addr ov in ov\<lparr>ov_accounts := (ov_accounts ov)(addr \<mapsto> acct)\<rparr>)"

definition overlay_credit :: "Address \<Rightarrow> u128 \<Rightarrow> Overlay \<Rightarrow> Reject + Overlay" where
  "overlay_credit addr amount ov =
     (let (a, ov) = overlay_get addr ov in
      and_then (ok_or Reject.ArithmeticOverflow (checked_add (ac_balance a) amount)) (\<lambda>balance.
      Inr (overlay_set addr (a\<lparr>ac_balance := balance\<rparr>) ov)))"

text \<open>\<open>self.undo[a]\<close> panics on an address that is not in the map: \<open>None\<close>.\<close>

definition overlay_undo_records :: "Overlay \<Rightarrow> UndoRec list option" where
  "overlay_undo_records ov = those (map (ov_undo ov) (ov_order ov))"

fun deltas_over :: "Address list \<Rightarrow> Overlay \<Rightarrow> StateDelta list \<times> Overlay" where
  "deltas_over [] ov = ([], ov)"
| "deltas_over (a # as) ov =
     (let (acct, ov) = overlay_get a ov; (ds, ov) = deltas_over as ov
      in (\<lparr>sd_addr = a, sd_balance = ac_balance acct, sd_nonce = ac_nonce acct\<rparr> # ds, ov))"

definition overlay_deltas :: "Overlay \<Rightarrow> StateDelta list \<times> Overlay" where
  "overlay_deltas ov = deltas_over (ov_order ov) ov"

definition overlay_apply_undo :: "UndoRec list \<Rightarrow> Overlay \<Rightarrow> Overlay" where
  "overlay_apply_undo recs ov = fold (\<lambda>r ov. ov\<lparr>ov_accounts := (ov_accounts ov)(un_addr r \<mapsto>
     \<lparr>ac_balance = un_prev_balance r, ac_nonce = un_prev_nonce r\<rparr>)\<rparr>) recs ov"

section \<open>The ledger of coinbase rewards\<close>

record CoinbaseLedger =
  le_entries :: "(u64 \<times> Address \<times> u128) list"

definition ledger_new :: CoinbaseLedger where
  "ledger_new = \<lparr>le_entries = []\<rparr>"

definition ledger_push :: "u64 \<Rightarrow> Address \<Rightarrow> u128 \<Rightarrow> CoinbaseLedger \<Rightarrow> CoinbaseLedger" where
  "ledger_push height addr credit l = l\<lparr>le_entries := le_entries l @ [(height, addr, credit)]\<rparr>"

definition ledger_truncate_from :: "u64 \<Rightarrow> CoinbaseLedger \<Rightarrow> CoinbaseLedger" where
  "ledger_truncate_from height l = l\<lparr>le_entries := filter (\<lambda>(h, _, _). h < height) (le_entries l)\<rparr>"

definition ledger_len :: "CoinbaseLedger \<Rightarrow> nat" where
  "ledger_len l = length (le_entries l)"

definition ledger_is_empty :: "CoinbaseLedger \<Rightarrow> bool" where
  "ledger_is_empty l \<longleftrightarrow> le_entries l = []"

definition mature :: "u64 \<Rightarrow> u64 \<Rightarrow> bool" where
  "mature coinbase_height spend_height = coinbase_is_mature coinbase_height spend_height"

definition immature_at :: "Address \<Rightarrow> u64 \<Rightarrow> CoinbaseLedger \<Rightarrow> u128" where
  "immature_at addr spend_height l =
     fold (\<lambda>c acc. saturating_add acc c)
       (map (\<lambda>(_, _, c). c) (filter (\<lambda>(h, a, _). a = addr \<and> \<not> mature h spend_height) (le_entries l))) 0"

definition ledger_spendable :: "Address \<Rightarrow> u128 \<Rightarrow> u64 \<Rightarrow> CoinbaseLedger \<Rightarrow> u128" where
  "ledger_spendable addr balance spend_height l = spendable_balance balance (immature_at addr spend_height l)"

definition immature_window_start :: "u64 \<Rightarrow> u64" where
  "immature_window_start spend_height = saturating_sub spend_height (COINBASE_MATURITY - 1)"

section \<open>What block execution relies on\<close>

text \<open>
  A table of accounts with a journal: \<open>view\<close> is what reads return, \<open>base\<close> the table as it was
  when the block began. Reads change neither; a write changes one account of the view and keeps the
  base.
\<close>

locale journaled_accounts =
  fixes get :: "'a \<Rightarrow> 's \<Rightarrow> 'v \<times> 's"
    and put :: "'a \<Rightarrow> 'v \<Rightarrow> 's \<Rightarrow> 's"
    and begin_block :: "'s \<Rightarrow> 's"
    and view :: "'s \<Rightarrow> 'a \<Rightarrow> 'v"
    and base :: "'s \<Rightarrow> 'a \<Rightarrow> 'v"
    and inv :: "'s \<Rightarrow> bool"
  assumes get_val: "fst (get a s) = view s a"
    and get_view: "view (snd (get a s)) = view s"
    and get_base: "base (snd (get a s)) = base s"
    and get_inv: "inv s \<Longrightarrow> inv (snd (get a s))"
    and put_view: "view (put a v s) = (view s)(a := v)"
    and put_base: "base (put a v s) = base s"
    and put_inv: "inv s \<Longrightarrow> inv (put a v s)"
    and begin_view: "view (begin_block s) = view s"
    and begin_base: "base (begin_block s) = view s"
    and begin_inv: "inv (begin_block s)"
begin

text \<open>\<open>s'\<close> is reached from \<open>s\<close> by reads and writes, with the view changed to \<open>f\<close>.\<close>

definition reaches :: "'s \<Rightarrow> ('a \<Rightarrow> 'v) \<Rightarrow> 's \<Rightarrow> bool" where
  "reaches s f s' \<longleftrightarrow> view s' = f \<and> base s' = base s \<and> (inv s \<longrightarrow> inv s')"

lemma reaches_get: "get a s = (x, s') \<Longrightarrow> x = view s a \<and> reaches s (view s) s'"
  using get_val [of a s] get_view [of a s] get_base [of a s] get_inv [of s a] by (simp add: reaches_def)

lemma reaches_put: "reaches s ((view s)(a := v)) (put a v s)"
  by (simp add: reaches_def put_view put_base put_inv)

lemma reaches_refl: "reaches s (view s) s"
  by (simp add: reaches_def)

lemma reaches_trans: "reaches s f s' \<Longrightarrow> reaches s' g s'' \<Longrightarrow> reaches s g s''"
  by (simp add: reaches_def)

lemma reaches_view: "reaches s f s' \<Longrightarrow> view s' = f"
  by (simp add: reaches_def)

end

definition ov_view :: "Overlay \<Rightarrow> Address \<Rightarrow> Account" where
  "ov_view ov a = (case ov_accounts ov a of Some x \<Rightarrow> x | None \<Rightarrow> st_account (ov_store ov) a)"

definition undo_account :: "UndoRec \<Rightarrow> Account" where
  "undo_account r = \<lparr>ac_balance = un_prev_balance r, ac_nonce = un_prev_nonce r\<rparr>"

definition ov_base :: "Overlay \<Rightarrow> Address \<Rightarrow> Account" where
  "ov_base ov a = (case ov_undo ov a of Some r \<Rightarrow> undo_account r | None \<Rightarrow> ov_view ov a)"

definition journal_ok :: "Overlay \<Rightarrow> bool" where
  "journal_ok ov \<longleftrightarrow> distinct (ov_order ov) \<and> set (ov_order ov) = dom (ov_undo ov) \<and>
     (\<forall>a r. ov_undo ov a = Some r \<longrightarrow> un_addr r = a \<and> un_existed r = (\<not> is_absent (undo_account r)))"

lemma account_eta [simp]: "\<lparr>ac_balance = ac_balance a, ac_nonce = ac_nonce a\<rparr> = (a :: Account)"
  by simp

lemma ov_view_cong: "ov_accounts o1 = ov_accounts o2 \<Longrightarrow> ov_store o1 = ov_store o2 \<Longrightarrow> ov_view o1 = ov_view o2"
  by (simp add: ov_view_def fun_eq_iff split: option.splits)

lemma ov_base_cong: "ov_undo o1 = ov_undo o2 \<Longrightarrow> ov_view o1 = ov_view o2 \<Longrightarrow> ov_base o1 = ov_base o2"
  by (simp add: ov_base_def fun_eq_iff split: option.splits)

lemma overlay_get_facts:
  "fst (overlay_get a ov) = ov_view ov a" "ov_view (snd (overlay_get a ov)) = ov_view ov"
  "ov_base (snd (overlay_get a ov)) = ov_base ov" "journal_ok ov \<Longrightarrow> journal_ok (snd (overlay_get a ov))"
proof -
  show v: "ov_view (snd (overlay_get a ov)) = ov_view ov" "fst (overlay_get a ov) = ov_view ov a"
    by (auto simp: overlay_get_def ov_view_def Let_def split: option.splits)
  have u: "ov_undo (snd (overlay_get a ov)) = ov_undo ov" "ov_order (snd (overlay_get a ov)) = ov_order ov"
    by (auto simp: overlay_get_def Let_def split: option.splits)
  show "ov_base (snd (overlay_get a ov)) = ov_base ov" by (rule ov_base_cong) (simp_all add: u v)
  show "journal_ok ov \<Longrightarrow> journal_ok (snd (overlay_get a ov))" by (simp add: journal_ok_def u)
qed

lemma overlay_capture_facts:
  "ov_view (overlay_capture a ov) = ov_view ov" "ov_base (overlay_capture a ov) = ov_base ov"
  "journal_ok ov \<Longrightarrow> journal_ok (overlay_capture a ov)" "ov_undo (overlay_capture a ov) a \<noteq> None"
proof -
  let ?prev = "ov_view ov a"
  let ?o = "snd (overlay_get a ov)"
  have u: "ov_undo ?o = ov_undo ov" "ov_order ?o = ov_order ov" "ov_store ?o = ov_store ov"
    by (auto simp: overlay_get_def Let_def split: option.splits)
  have c: "overlay_capture a ov = (if ov_undo ov a \<noteq> None then ov else
      ?o\<lparr>ov_undo := (ov_undo ov)(a \<mapsto> \<lparr>un_addr = a, un_prev_balance = ac_balance ?prev,
             un_prev_nonce = ac_nonce ?prev, un_existed = (\<not> is_absent ?prev)\<rparr>), ov_order := ov_order ov @ [a]\<rparr>)"
    using overlay_get_facts(1) [of a ov] by (simp add: overlay_capture_def case_prod_beta u Let_def)
  have w: "ov_view (o2\<lparr>ov_undo := m, ov_order := l\<rparr>) = ov_view o2" for o2 m l
    by (rule ov_view_cong) simp_all
  show view: "ov_view (overlay_capture a ov) = ov_view ov"
    by (simp add: c w overlay_get_facts(2))
  show "ov_base (overlay_capture a ov) = ov_base ov"
    unfolding ov_base_def view by (rule ext) (auto simp: c undo_account_def)
  show "journal_ok ov \<Longrightarrow> journal_ok (overlay_capture a ov)"
    by (auto simp: c journal_ok_def undo_account_def)
  show "ov_undo (overlay_capture a ov) a \<noteq> None" by (simp add: c)
qed

lemma overlay_set_facts:
  "ov_view (overlay_set a v ov) = (ov_view ov)(a := v)" "ov_base (overlay_set a v ov) = ov_base ov"
  "journal_ok ov \<Longrightarrow> journal_ok (overlay_set a v ov)"
proof -
  note C = overlay_capture_facts [where a = a and ov = ov]
  let ?o = "overlay_capture a ov"
  have s: "overlay_set a v ov = ?o\<lparr>ov_accounts := (ov_accounts ?o)(a \<mapsto> v)\<rparr>"
    by (simp add: overlay_set_def Let_def)
  have "ov_view (overlay_set a v ov) = (ov_view ?o)(a := v)"
    unfolding s by (simp add: ov_view_def fun_eq_iff split: option.splits)
  then show view: "ov_view (overlay_set a v ov) = (ov_view ov)(a := v)" by (simp add: C(1))
  show "ov_base (overlay_set a v ov) = ov_base ov"
  proof (rule ext)
    fix b
    have "ov_undo (overlay_set a v ov) = ov_undo ?o" by (simp add: s)
    then have "ov_base (overlay_set a v ov) b = ov_base ?o b"
      using C(4) by (cases "b = a") (auto simp: ov_base_def view C(1) split: option.splits)
    then show "ov_base (overlay_set a v ov) b = ov_base ov b" by (simp add: C(2))
  qed
  show "journal_ok ov \<Longrightarrow> journal_ok (overlay_set a v ov)"
    using C(3) by (simp add: s journal_ok_def)
qed

lemma overlay_begin_facts:
  "ov_view (overlay_begin_block ov) = ov_view ov" "ov_base (overlay_begin_block ov) = ov_view ov"
  "journal_ok (overlay_begin_block ov)"
proof -
  show v: "ov_view (overlay_begin_block ov) = ov_view ov"
    by (rule ov_view_cong) (simp_all add: overlay_begin_block_def)
  show "ov_base (overlay_begin_block ov) = ov_view ov"
    using v by (simp add: ov_base_def fun_eq_iff overlay_begin_block_def)
  show "journal_ok (overlay_begin_block ov)" by (simp add: journal_ok_def overlay_begin_block_def)
qed

interpretation overlay: journaled_accounts overlay_get overlay_set overlay_begin_block ov_view ov_base journal_ok
  by unfold_locales (simp_all add: overlay_get_facts overlay_set_facts overlay_begin_facts)

lemma overlay_credit_Ok:
  assumes "overlay_credit a n ov = Inr ov'"
  shows "unat (ac_balance (ov_view ov' a)) = unat (ac_balance (ov_view ov a)) + unat n"
    and "overlay.reaches ov ((ov_view ov)(a := (ov_view ov a)\<lparr>ac_balance := ac_balance (ov_view ov a) + n\<rparr>)) ov'"
proof -
  obtain x o2 where g: "overlay_get a ov = (x, o2)" by (cases "overlay_get a ov")
  note r = overlay.reaches_get [OF g]
  obtain b where b: "checked_add (ac_balance (ov_view ov a)) n = Some b"
    "ov' = overlay_set a ((ov_view ov a)\<lparr>ac_balance := b\<rparr>) o2"
    using assms r by (auto simp: overlay_credit_def g res_simps)
  have bb: "b = ac_balance (ov_view ov a) + n" using b(1) by (simp add: res_simps)
  have "overlay.reaches o2 ((ov_view o2)(a := (ov_view ov a)\<lparr>ac_balance := b\<rparr>)) ov'"
    unfolding b(2) by (rule overlay.reaches_put)
  then show R: "overlay.reaches ov ((ov_view ov)(a := (ov_view ov a)\<lparr>ac_balance := ac_balance (ov_view ov a) + n\<rparr>)) ov'"
    using r overlay.reaches_trans overlay.reaches_view unfolding bb by metis
  show "unat (ac_balance (ov_view ov' a)) = unat (ac_balance (ov_view ov a)) + unat n"
    using checked_add_unat [OF b(1)] overlay.reaches_view [OF R] by (simp add: bb)
qed

section \<open>The journal\<close>

definition delta_account :: "StateDelta \<Rightarrow> Account" where
  "delta_account d = \<lparr>ac_balance = sd_balance d, ac_nonce = sd_nonce d\<rparr>"

definition write_undo :: "UndoRec list \<Rightarrow> (Address \<Rightarrow> Account) \<Rightarrow> Address \<Rightarrow> Account" where
  "write_undo recs f = fold (\<lambda>r f. f(un_addr r := undo_account r)) recs f"

definition write_deltas :: "StateDelta list \<Rightarrow> (Address \<Rightarrow> Account) \<Rightarrow> Address \<Rightarrow> Account" where
  "write_deltas ds f = fold (\<lambda>d f. f(sd_addr d := delta_account d)) ds f"

lemma fold_writes:
  "distinct (map k xs) \<Longrightarrow> fold (\<lambda>x f. f(k x := v x)) xs f a =
    (case List.find (\<lambda>x. k x = a) xs of None \<Rightarrow> f a | Some x \<Rightarrow> v x)"
proof (induction xs arbitrary: f)
  case (Cons x xs)
  have "List.find (\<lambda>y. k y = a) xs = None" if "k x = a"
    using Cons.prems that by (force simp: find_None_iff image_iff)
  then show ?case using Cons by (auto split: option.splits)
qed simp

lemma find_key:
  assumes "distinct (map k xs)" "x \<in> set xs"
  shows "List.find (\<lambda>y. k y = k x) xs = Some x"
  using assms by (induction xs) force+

lemma fold_writes_at:
  assumes "distinct (map k xs)"
  shows "x \<in> set xs \<Longrightarrow> fold (\<lambda>x f. f(k x := v x)) xs f (k x) = v x"
    and "a \<notin> k ` set xs \<Longrightarrow> fold (\<lambda>x f. f(k x := v x)) xs f a = f a"
proof -
  show "x \<in> set xs \<Longrightarrow> fold (\<lambda>x f. f(k x := v x)) xs f (k x) = v x"
    by (simp add: fold_writes [OF assms] find_key [OF assms])
  assume "a \<notin> k ` set xs"
  then have "List.find (\<lambda>x. k x = a) xs = None" by (auto simp: find_None_iff)
  then show "fold (\<lambda>x f. f(k x := v x)) xs f a = f a" by (simp add: fold_writes [OF assms])
qed

lemma those_map: "(\<forall>x \<in> set xs. f x \<noteq> None) \<Longrightarrow> those (map f xs) = Some (map (\<lambda>x. the (f x)) xs)"
  by (induction xs) (auto split: option.splits)

lemma undo_records_Some:
  assumes "journal_ok ov"
  obtains recs where "overlay_undo_records ov = Some recs" "map un_addr recs = ov_order ov"
    "\<forall>r \<in> set recs. ov_undo ov (un_addr r) = Some r"
proof -
  have all: "\<forall>a \<in> set (ov_order ov). ov_undo ov a \<noteq> None" using assms by (auto simp: journal_ok_def)
  have addr: "un_addr (the (ov_undo ov a)) = a" if "a \<in> set (ov_order ov)" for a
    using assms that all by (fastforce simp: journal_ok_def)
  show thesis
    by (rule that [of "map (\<lambda>a. the (ov_undo ov a)) (ov_order ov)"])
      (use all addr in \<open>auto simp: overlay_undo_records_def those_map intro!: map_idI\<close>)
qed

lemma deltas_over_eq:
  "\<exists>ov'. deltas_over as ov =
    (map (\<lambda>a. \<lparr>sd_addr = a, sd_balance = ac_balance (ov_view ov a), sd_nonce = ac_nonce (ov_view ov a)\<rparr>) as, ov') \<and>
    overlay.reaches ov (ov_view ov) ov'"
proof (induction as arbitrary: ov)
  case Nil
  show ?case by (simp add: overlay.reaches_refl)
next
  case (Cons a as)
  obtain x o2 where g: "overlay_get a ov = (x, o2)" by (cases "overlay_get a ov")
  note r = overlay.reaches_get [OF g]
  have v: "ov_view o2 = ov_view ov" using r overlay.reaches_view by blast
  show ?case using Cons.IH [of o2] r by (auto simp: g v intro: overlay.reaches_trans)
qed

lemma apply_undo_view: "ov_view (overlay_apply_undo recs ov) = write_undo recs (ov_view ov)"
  unfolding overlay_apply_undo_def write_undo_def
proof (induction recs arbitrary: ov)
  case (Cons r recs)
  have "ov_view (ov\<lparr>ov_accounts := (ov_accounts ov)(un_addr r \<mapsto> undo_account r)\<rparr>) =
      (ov_view ov)(un_addr r := undo_account r)"
    by (simp add: ov_view_def fun_eq_iff split: option.splits)
  then show ?case using Cons by (simp add: undo_account_def del: fun_upd_apply)
qed simp

text \<open>The undo records take the view back to the base, the deltas take the base to the view.\<close>

lemma journal_inverse:
  assumes "journal_ok ov" "overlay_undo_records ov = Some recs"
  shows "write_undo recs (ov_view ov) = ov_base ov"
    and "write_deltas (fst (overlay_deltas ov)) (ov_base ov) = ov_view ov"
    and "map un_addr recs = map sd_addr (fst (overlay_deltas ov))" "distinct (map un_addr recs)"
proof -
  obtain rs where rs: "overlay_undo_records ov = Some rs" "map un_addr rs = ov_order ov"
    "\<forall>r \<in> set rs. ov_undo ov (un_addr r) = Some r"
    by (rule undo_records_Some [OF assms(1)])
  have recs: "recs = rs" using assms(2) rs(1) by simp
  have d: "distinct (map un_addr rs)" using assms(1) rs(2) by (simp add: journal_ok_def)
  have dom: "un_addr ` set rs = dom (ov_undo ov)"
    using assms(1) rs(2) by (metis journal_ok_def list.set_map)
  show "distinct (map un_addr recs)" by (simp add: recs d)
  show "write_undo recs (ov_view ov) = ov_base ov"
  proof (rule ext)
    fix a show "write_undo recs (ov_view ov) a = ov_base ov a"
    proof (cases "ov_undo ov a")
      case None
      then show ?thesis
        using fold_writes_at(2) [OF d, of a] dom by (auto simp: write_undo_def recs ov_base_def)
    next
      case (Some r)
      then obtain r' where "r' \<in> set rs" "a = un_addr r'" using dom by (metis domI imageE)
      then show ?thesis
        using fold_writes_at(1) [OF d] rs(3) by (simp add: write_undo_def recs ov_base_def)
    qed
  qed
  let ?ds = "map (\<lambda>a. \<lparr>sd_addr = a, sd_balance = ac_balance (ov_view ov a), sd_nonce = ac_nonce (ov_view ov a)\<rparr>) (ov_order ov)"
  have ds: "fst (overlay_deltas ov) = ?ds"
    using deltas_over_eq [of "ov_order ov" ov] by (auto simp: overlay_deltas_def)
  show "map un_addr recs = map sd_addr (fst (overlay_deltas ov))" by (simp add: ds recs rs(2) comp_def)
  have dd: "distinct (map sd_addr ?ds)" using assms(1) by (simp add: comp_def journal_ok_def)
  show "write_deltas (fst (overlay_deltas ov)) (ov_base ov) = ov_view ov"
  proof (rule ext)
    fix a
    show "write_deltas (fst (overlay_deltas ov)) (ov_base ov) a = ov_view ov a"
    proof (cases "a \<in> set (ov_order ov)")
      case True
      let ?d = "\<lparr>sd_addr = a, sd_balance = ac_balance (ov_view ov a), sd_nonce = ac_nonce (ov_view ov a)\<rparr>"
      have "write_deltas ?ds (ov_base ov) (sd_addr ?d) = delta_account ?d"
        unfolding write_deltas_def by (rule fold_writes_at(1) [OF dd]) (use True in simp)
      then show ?thesis by (simp add: ds delta_account_def)
    next
      case False
      then have "ov_base ov a = ov_view ov a"
        using assms(1) by (auto simp: journal_ok_def ov_base_def split: option.splits)
      moreover have "write_deltas ?ds (ov_base ov) a = ov_base ov a"
        unfolding write_deltas_def by (rule fold_writes_at(2) [OF dd]) (use False in \<open>simp add: image_image\<close>)
      ultimately show ?thesis by (simp add: ds)
    qed
  qed
qed

section \<open>Immature rewards\<close>

lemma fold_saturating_le:
  "unat (fold (\<lambda>c acc. saturating_add acc c) cs acc) \<le> unat acc + sum_list (map unat cs)"
proof (induction cs arbitrary: acc)
  case (Cons c cs)
  have "unat (fold (\<lambda>c acc. saturating_add acc c) cs (saturating_add acc c)) \<le>
      unat (saturating_add acc c) + sum_list (map unat cs)" by (rule Cons.IH)
  also have "\<dots> \<le> unat acc + unat c + sum_list (map unat cs)" by (simp add: unat_saturating_add)
  finally show ?case by (simp add: add.assoc)
qed simp

lemma immature_push:
  "immature_at a h (ledger_push h' b c l) =
    (if a = b \<and> \<not> mature h' h then saturating_add (immature_at a h l) c else immature_at a h l)"
  by (simp add: immature_at_def ledger_push_def)

lemma not_mature_same [simp]: "\<not> mature h h"
  by (simp add: mature_def mature_iff)

lemma mature_mono: "mature c h \<Longrightarrow> h \<le> h' \<Longrightarrow> mature c h'"
  by (simp add: mature_def mature_iff word_le_nat_alt)

lemma unat_spendable: "unat (ledger_spendable a bal h l) = unat bal - unat (immature_at a h l)"
  by (simp add: ledger_spendable_def spendable_balance_def)

end
