(* ===== verification/Body.thy ===== *)
theory Body imports State begin

text \<open>
  \<open>lib/chain/src/body.rs\<close>: validation and execution of a block body on the overlay. Signature
  verification is the pair of parameters of \<open>Crypto\<close>. The result is \<open>None\<close> where the code panics
  (an \<open>unreachable!\<close>, an \<open>expect\<close>, an index), which \<open>validate_block_body_total\<close> excludes. On an
  error the overlay and the ledger are dropped by every caller, so that they are returned with a
  success only.
\<close>

record ValidatedBlock =
  vb_deltas :: "StateDelta list"
  vb_undo :: "UndoRec list"
  vb_issued_delta :: u128
  vb_coinbase_to :: Address
  vb_coinbase_credit :: u128
  vb_txids :: "Hash32 list"
  vb_spent_nonces :: "(Address \<times> u64) list"
  vb_non_coinbase_bytes :: "bytes list"

text \<open>The two loops over the transactions before any of them is executed.\<close>

fun check_signatures ::
  "(bytes \<Rightarrow> 'vk option) \<Rightarrow> ('vk \<Rightarrow> bytes \<Rightarrow> bytes \<Rightarrow> bool) \<Rightarrow> ChainParams \<Rightarrow> nat \<Rightarrow> Tx list \<Rightarrow> Reject + unit" where
  "check_signatures vk verify params i [] = Inr ()"
| "check_signatures vk verify params i (tx # txs) =
     and_then
       (case tx of
          Coinbase _ \<Rightarrow> Inr ()
        | Transfer t \<Rightarrow>
            map_err (\<lambda>_. Reject.BadTransferSignature i) (verify_transfer_signature vk verify (pm_network params) t)
        | Announcement a \<Rightarrow>
            map_err (\<lambda>err. Reject.Tx i err)
              (check_announcement_stateless vk verify (pm_network params) a (pm_author_pubkey params)))
       (\<lambda>_. check_signatures vk verify params (i + 1) txs)"

fun check_author_keys :: "ChainParams \<Rightarrow> nat \<Rightarrow> Tx list \<Rightarrow> Reject + unit" where
  "check_author_keys params i [] = Inr ()"
| "check_author_keys params i (tx # txs) =
     (case tx of
        Announcement a \<Rightarrow>
          if an_from_pub a \<noteq> pm_author_pubkey params then Inl (Reject.Tx i TxError.NotAuthorKey)
          else check_author_keys params (i + 1) txs
      | _ \<Rightarrow> check_author_keys params (i + 1) txs)"

text \<open>The variables of the loop that executes the transactions.\<close>

record BlockRun =
  br_overlay :: Overlay
  br_txids :: "Hash32 list"
  br_spent_nonces :: "(Address \<times> u64) list"
  br_non_coinbase_bytes :: "bytes list"

definition execute_transfer ::
  "CoinbaseLedger \<Rightarrow> u64 \<Rightarrow> nat \<Rightarrow> TransferTx \<Rightarrow> bytes \<Rightarrow> BlockRun \<Rightarrow> Reject + BlockRun" where
  "execute_transfer ledger height i t raw s =
     (if tr_fee t < FEE_FLOOR_MILE then Inl (Reject.FeeBelowFloor i)
      else let from = address_payload (tr_from_pub t);
               (acct, ov) = overlay_get from (br_overlay s) in
      if ac_nonce acct \<noteq> tr_nonce t then Inl (Reject.BadNonce i (ac_nonce acct) (tr_nonce t))
      else and_then (ok_or Reject.ArithmeticOverflow (checked_add (tr_amount t) (tr_fee t))) (\<lambda>outlay.
      let spendable = ledger_spendable from (ac_balance acct) height ledger in
      if spendable < outlay then Inl (Reject.InsufficientBalance i outlay spendable)
      else and_then (ok_or Reject.ArithmeticOverflow (checked_sub (ac_balance acct) outlay)) (\<lambda>balance.
      and_then (ok_or Reject.ArithmeticOverflow (checked_add (ac_nonce acct) 1)) (\<lambda>nonce.
      and_then (overlay_credit (tr_to t) (tr_amount t)
          (overlay_set from \<lparr>ac_balance = balance, ac_nonce = nonce\<rparr> ov)) (\<lambda>ov.
      Inr \<lparr>br_overlay = ov, br_txids = br_txids s @ [transfer_txid t],
        br_spent_nonces = br_spent_nonces s @ [(from, tr_nonce t)],
        br_non_coinbase_bytes = br_non_coinbase_bytes s @ [raw]\<rparr>)))))"

definition execute_announcement ::
  "CoinbaseLedger \<Rightarrow> u64 \<Rightarrow> nat \<Rightarrow> AnnouncementTx \<Rightarrow> bytes \<Rightarrow> BlockRun \<Rightarrow> Reject + BlockRun" where
  "execute_announcement ledger height i a raw s =
     (let from = address_payload (an_from_pub a);
          (acct, ov) = overlay_get from (br_overlay s);
          spendable = ledger_spendable from (ac_balance acct) height ledger;
          cs = \<lparr>as_balance = ac_balance acct, as_nonce = ac_nonce acct\<rparr> in
      and_then (map_err (\<lambda>err. Reject.Tx i err) (check_announcement_stateful a cs spendable)) (\<lambda>_.
      and_then (map_err (\<lambda>err. Reject.Tx i err) (apply_announcement cs a)) (\<lambda>next_state.
      let ov = overlay_set from \<lparr>ac_balance = as_balance next_state, ac_nonce = as_nonce next_state\<rparr> ov in
      and_then (map_err (\<lambda>_. Reject.BodyStructure ''ann txid'') (announcement_txid a)) (\<lambda>id.
      Inr \<lparr>br_overlay = ov, br_txids = br_txids s @ [id],
        br_spent_nonces = br_spent_nonces s @ [(from, an_nonce a)],
        br_non_coinbase_bytes = br_non_coinbase_bytes s @ [raw]\<rparr>))))"

fun execute_txs ::
  "CoinbaseLedger \<Rightarrow> u64 \<Rightarrow> BlockBody \<Rightarrow> nat \<Rightarrow> Tx list \<Rightarrow> BlockRun \<Rightarrow> (Reject + BlockRun) option" where
  "execute_txs ledger height body i [] s = Some (Inr s)"
| "execute_txs ledger height body i (tx # txs) s =
     (case tx_bytes body i of
        None \<Rightarrow> None
      | Some raw \<Rightarrow>
          and_thenp
            (case tx of
               Coinbase _ \<Rightarrow> None
             | Transfer t \<Rightarrow> Some (execute_transfer ledger height i t raw s)
             | Announcement a \<Rightarrow> Some (execute_announcement ledger height i a raw s))
            (execute_txs ledger height body (i + 1) txs))"

definition decode_index :: "TxError \<Rightarrow> nat" where
  "decode_index e = (case e of RecordDoesNotDecode index _ \<Rightarrow> index | _ \<Rightarrow> 0)"

text \<open>What is checked before the overlay is touched: the transactions, the coinbase and its credit.\<close>

definition check_block ::
  "(bytes \<Rightarrow> 'vk option) \<Rightarrow> ('vk \<Rightarrow> bytes \<Rightarrow> bytes \<Rightarrow> bool) \<Rightarrow> Header \<Rightarrow> bytes \<Rightarrow> ChainParams \<Rightarrow> Trust \<Rightarrow>
   Reject + BlockBody \<times> Tx list \<times> CoinbaseTx \<times> u128" where
  "check_block vk verify header raw_body params trust =
     and_then (map_err (\<lambda>_. Reject.BodyStructure ''body envelope'') (body_parse raw_body)) (\<lambda>body.
     and_then (map_err (\<lambda>e. Reject.Tx (decode_index e) e) (decode_body body)) (\<lambda>txs.
     and_then (map_err (\<lambda>e. Reject.Tx 0 e) (check_body_structure txs)) (\<lambda>cb.
     if body_tx_root body \<noteq> hd_tx_root header then Inl Reject.TxRootMismatch
     else and_then (if trust = Untrusted then check_signatures vk verify params 0 txs
                    else check_author_keys params 0 txs) (\<lambda>_.
     and_then (map_err (\<lambda>e. Reject.Tx 0 e) (block_fee_total txs)) (\<lambda>fee_total.
     and_then (map_err (\<lambda>e. Reject.Tx 0 e)
         (check_coinbase cb (hd_height header) (hd_author_note_len header) fee_total)) (\<lambda>_.
     and_then (map_err (\<lambda>e. Reject.Tx 0 e) (coinbase_credit cb)) (\<lambda>credit.
     Inr (body, txs, cb, credit))))))))"

definition validate_block_body ::
  "(bytes \<Rightarrow> 'vk option) \<Rightarrow> ('vk \<Rightarrow> bytes \<Rightarrow> bytes \<Rightarrow> bool) \<Rightarrow> Overlay \<Rightarrow> CoinbaseLedger \<Rightarrow> Header \<Rightarrow> bytes \<Rightarrow>
   ChainParams \<Rightarrow> Trust \<Rightarrow> (Reject + ValidatedBlock \<times> Overlay \<times> CoinbaseLedger) option" where
  "validate_block_body vk verify overlay ledger header raw_body params trust =
     and_thenp (Some (check_block vk verify header raw_body params trust)) (\<lambda>(body, txs, cb, credit).
     and_thenp (Some (overlay_credit (cb_to cb) credit (overlay_begin_block overlay))) (\<lambda>overlay.
     let ledger = ledger_push (hd_height header) (cb_to cb) credit ledger in
     and_thenp (Some (map_err (\<lambda>_. Reject.BodyStructure ''coinbase txid'') (coinbase_txid cb))) (\<lambda>id.
     and_thenp (execute_txs ledger (hd_height header) body 1 (drop 1 txs)
         \<lparr>br_overlay = overlay, br_txids = [id], br_spent_nonces = [], br_non_coinbase_bytes = []\<rparr>) (\<lambda>s.
     (case overlay_undo_records (br_overlay s) of
        None \<Rightarrow> None
      | Some undo \<Rightarrow>
          let (deltas, overlay) = overlay_deltas (br_overlay s) in
          Some (Inr (\<lparr>vb_deltas = deltas, vb_undo = undo, vb_issued_delta = cb_reward cb,
            vb_coinbase_to = cb_to cb, vb_coinbase_credit = credit, vb_txids = br_txids s,
            vb_spent_nonces = br_spent_nonces s, vb_non_coinbase_bytes = br_non_coinbase_bytes s\<rparr>,
            overlay, ledger)))))))"

section \<open>The ledger a block implements\<close>

text \<open>
  Balances and nonces as numbers. \<open>locked\<close> is what an address may not spend. A transaction is
  allowed when the sender pays the fee floor, uses its next nonce, keeps the locked amount, and no
  number leaves its width.
\<close>

record Balances =
  bal :: "Address \<Rightarrow> nat"
  nonce :: "Address \<Rightarrow> nat"

definition balances_of :: "(Address \<Rightarrow> Account) \<Rightarrow> Balances" where
  "balances_of f = \<lparr>bal = (\<lambda>a. unat (ac_balance (f a))), nonce = (\<lambda>a. unat (ac_nonce (f a)))\<rparr>"

definition receive :: "Address \<Rightarrow> nat \<Rightarrow> Balances \<Rightarrow> Balances" where
  "receive a n s = s\<lparr>bal := (bal s)(a := bal s a + n)\<rparr>"

definition spend :: "Address \<Rightarrow> nat \<Rightarrow> Balances \<Rightarrow> Balances" where
  "spend a n s = s\<lparr>bal := (bal s)(a := bal s a - n), nonce := (nonce s)(a := nonce s a + 1)\<rparr>"

fun sender :: "Tx \<Rightarrow> Address" where
  "sender (Transfer t) = address_payload (tr_from_pub t)"
| "sender (Announcement a) = address_payload (an_from_pub a)"
| "sender (Coinbase c) = cb_to c"

fun outlay :: "Tx \<Rightarrow> nat" where
  "outlay (Transfer t) = unat (tr_amount t) + unat (tr_fee t)"
| "outlay (Announcement a) = unat (an_fee a)"
| "outlay (Coinbase c) = 0"

fun tx_nonce :: "Tx \<Rightarrow> u64" where
  "tx_nonce (Transfer t) = tr_nonce t"
| "tx_nonce (Announcement a) = an_nonce a"
| "tx_nonce (Coinbase c) = 0"

fun tx_effect :: "Tx \<Rightarrow> Balances \<Rightarrow> Balances" where
  "tx_effect (Transfer t) s = receive (tr_to t) (unat (tr_amount t)) (spend (sender (Transfer t)) (outlay (Transfer t)) s)"
| "tx_effect (Announcement a) s = spend (sender (Announcement a)) (outlay (Announcement a)) s"
| "tx_effect (Coinbase c) s = s"

definition tx_allowed :: "(Address \<Rightarrow> nat) \<Rightarrow> Tx \<Rightarrow> Balances \<Rightarrow> bool" where
  "tx_allowed locked tx s \<longleftrightarrow> FEE_FLOOR_MILE \<le> tx_fee tx \<and> nonce s (sender tx) = unat (tx_nonce tx) \<and>
     nonce s (sender tx) + 1 < 2 ^ 64 \<and> outlay tx + locked (sender tx) \<le> bal s (sender tx) \<and>
     (case tx of Transfer t \<Rightarrow> bal (tx_effect tx s) (tr_to t) < 2 ^ 128 | _ \<Rightarrow> True)"

fun ledger_run :: "(Address \<Rightarrow> nat) \<Rightarrow> Tx list \<Rightarrow> Balances \<Rightarrow> Balances option" where
  "ledger_run locked [] s = Some s"
| "ledger_run locked (tx # txs) s =
     (if tx_allowed locked tx s then ledger_run locked txs (tx_effect tx s) else None)"

text \<open>A transaction other than a coinbase, as it comes out of the decoder.\<close>

definition executable :: "Tx \<Rightarrow> bool" where
  "executable tx \<longleftrightarrow> (case tx of
     Coinbase _ \<Rightarrow> False
   | Transfer t \<Rightarrow> length (tr_to t) = 20
   | Announcement a \<Rightarrow> (\<exists>id. announcement_txid a = Inr id))"

lemma decoded_executable:
  assumes "decode_tx b = Inr tx" "\<forall>c. tx \<noteq> Coinbase c"
  shows "executable tx"
  using tx.enc_dec [OF assms(1)] assms(2)
  by (cases tx) (auto simp: executable_def transfer_ok_def announcement_txid_def announcement_encode_def res_simps)

lemma unat_balance_bounds:
  "unat (b :: u128) < 340282366920938463463374607431768211456" "unat (n :: u64) < 18446744073709551616"
  using unsigned_less [of b] unsigned_less [of n] by simp_all

lemma balances_of_upd:
  "balances_of (f(a := x)) = \<lparr>bal = (bal (balances_of f))(a := unat (ac_balance x)),
     nonce = (nonce (balances_of f))(a := unat (ac_nonce x))\<rparr>"
  by (simp add: balances_of_def fun_eq_iff)

lemma overlay_credit_spec:
  "case overlay_credit a n ov of
     Inl _ \<Rightarrow> 2 ^ 128 \<le> bal (balances_of (ov_view ov)) a + unat n
   | Inr ov' \<Rightarrow> bal (balances_of (ov_view ov)) a + unat n < 2 ^ 128 \<and>
       balances_of (ov_view ov') = receive a (unat n) (balances_of (ov_view ov)) \<and>
       overlay.reaches ov (ov_view ov') ov'"
proof (cases "overlay_credit a n ov")
  case (Inl e)
  obtain x o2 where g: "overlay_get a ov = (x, o2)" by (cases "overlay_get a ov")
  have "checked_add (ac_balance (ov_view ov a)) n = None"
    using Inl overlay.reaches_get [OF g] by (auto simp: overlay_credit_def g and_then_Err ok_or_Err)
  then show ?thesis using Inl by (simp add: checked_add_None balances_of_def)
next
  case (Inr ov')
  note C = overlay_credit_Ok [OF Inr]
  let ?n = "ac_balance (ov_view ov a) + n"
  have v: "ov_view ov' = (ov_view ov)(a := (ov_view ov a)\<lparr>ac_balance := ?n\<rparr>)"
    using overlay.reaches_view [OF C(2)] .
  have "unat ?n = unat (ac_balance (ov_view ov a)) + unat n" using C(1) by (simp add: v)
  moreover have "unat ?n < 2 ^ 128" using unat_balance_bounds(1) [of ?n] by simp
  ultimately show ?thesis
    using Inr C(2) by (simp add: v balances_of_upd receive_def) (simp add: balances_of_def fun_eq_iff)
qed

lemma balances_spend:
  assumes "unat (ac_balance x) + n = bal (balances_of f) a" "unat (ac_nonce x) = nonce (balances_of f) a + 1"
  shows "balances_of (f(a := x)) = spend a n (balances_of f)"
proof -
  have "unat (ac_balance x) = bal (balances_of f) a - n" using assms(1) by simp
  then show ?thesis using assms(2) by (simp add: balances_of_upd spend_def)
qed

lemma execute_transfer_spec:
  fixes ledger height
  defines "locked \<equiv> \<lambda>a. unat (immature_at a height ledger)"
  shows "case execute_transfer ledger height i t raw s of
     Inl _ \<Rightarrow> \<not> tx_allowed locked (Transfer t) (balances_of (ov_view (br_overlay s)))
   | Inr s' \<Rightarrow> tx_allowed locked (Transfer t) (balances_of (ov_view (br_overlay s))) \<and>
       balances_of (ov_view (br_overlay s')) = tx_effect (Transfer t) (balances_of (ov_view (br_overlay s))) \<and>
       overlay.reaches (br_overlay s) (ov_view (br_overlay s')) (br_overlay s') \<and>
       br_spent_nonces s' = br_spent_nonces s @ [(sender (Transfer t), tx_nonce (Transfer t))]"
proof -
  let ?from = "address_payload (tr_from_pub t)"
  obtain acct ov where g: "overlay_get ?from (br_overlay s) = (acct, ov)" by (cases "overlay_get ?from (br_overlay s)")
  define f where "f = ov_view (br_overlay s)"
  have acct: "acct = f ?from" and r: "overlay.reaches (br_overlay s) f ov"
    using overlay.reaches_get [OF g] by (simp_all add: f_def)
  have v: "ov_view ov = f" using overlay.reaches_view [OF r] .
  let ?b = "balances_of f"
  have b: "bal ?b ?from = unat (ac_balance acct)" "nonce ?b ?from = unat (ac_nonce acct)"
    by (simp_all add: balances_of_def acct)
  note bounds = unat_balance_bounds(1) [of "ac_balance acct"] unat_balance_bounds(2) [of "ac_nonce acct"]
  have fee0: "FEE_FLOOR_MILE \<le> tr_fee t \<longleftrightarrow> 0 < unat (tr_fee t)"
    by (simp add: word_le_nat_alt Suc_le_eq)
  have nonce_eq: "ac_nonce acct = tr_nonce t \<longleftrightarrow> unat (ac_nonce acct) = unat (tr_nonce t)"
    by (simp add: word_unat_eq_iff)
  show ?thesis
  proof (cases "0 < unat (tr_fee t) \<and> unat (ac_nonce acct) = unat (tr_nonce t) \<and> unat (ac_nonce acct) + 1 < 2 ^ 64 \<and>
      unat (tr_amount t) + unat (tr_fee t) + locked ?from \<le> unat (ac_balance acct)")
    case False
    have "\<exists>e. execute_transfer ledger height i t raw s = Inl e"
    proof (rule ccontr)
      assume "\<not> ?thesis"
      then obtain s' where "execute_transfer ledger height i t raw s = Inr s'" by (cases "execute_transfer ledger height i t raw s") auto
      then obtain out n where "FEE_FLOOR_MILE \<le> tr_fee t" "ac_nonce acct = tr_nonce t"
        "checked_add (tr_amount t) (tr_fee t) = Some out" "checked_add (ac_nonce acct) 1 = Some n"
        "out \<le> ledger_spendable ?from (ac_balance acct) height ledger"
        by (auto simp: execute_transfer_def g Let_def and_then_Ok ok_or_Ok not_less split: if_splits
            simp del: FEE_FLOOR_MILE_def)
      then show False
        using False fee0 nonce_eq bounds(1) unat_balance_bounds(2) [of n]
        by (simp add: checked_add_unat_iff word_le_nat_alt unat_spendable locked_def del: FEE_FLOOR_MILE_def)
    qed
    moreover have "\<not> tx_allowed locked (Transfer t) ?b"
      using False by (auto simp: tx_allowed_def b fee0 nonce_eq simp del: FEE_FLOOR_MILE_def)
    ultimately show ?thesis by (auto simp: f_def)
  next
    case True
    let ?x = "\<lparr>ac_balance = ac_balance acct - (tr_amount t + tr_fee t), ac_nonce = ac_nonce acct + 1\<rparr>"
    let ?o2 = "overlay_set ?from ?x ov"
    have out: "checked_add (tr_amount t) (tr_fee t) = Some (tr_amount t + tr_fee t)"
      "unat (tr_amount t + tr_fee t) = unat (tr_amount t) + unat (tr_fee t)"
      using True bounds by (simp_all add: checked_add_Some unat_word_ariths)
    have sub: "checked_sub (ac_balance acct) (tr_amount t + tr_fee t) = Some (ac_balance ?x)"
      "unat (ac_balance ?x) + outlay (Transfer t) = bal ?b ?from"
      using True out(2) by (simp_all add: checked_sub_Some word_le_nat_alt unat_sub b)
    have non: "checked_add (ac_nonce acct) 1 = Some (ac_nonce ?x)" "unat (ac_nonce ?x) = nonce ?b ?from + 1"
      using True by (simp_all add: checked_add_Some unat_word_ariths b)
    have sp: "\<not> ledger_spendable ?from (ac_balance acct) height ledger < tr_amount t + tr_fee t"
      using True out(2) by (auto simp: word_less_nat_alt unat_spendable locked_def)
    have fl: "\<not> tr_fee t < FEE_FLOOR_MILE" unfolding not_less fee0 using True by simp
    have v2: "ov_view ?o2 = f(?from := ?x)" by (simp add: overlay_set_facts v)
    have b2: "balances_of (ov_view ?o2) = spend ?from (outlay (Transfer t)) ?b"
      unfolding v2 using sub(2) non(2) by (rule balances_spend)
    have r2: "overlay.reaches (br_overlay s) (ov_view ?o2) ?o2"
      using r overlay.reaches_put [of ov ?from ?x] overlay.reaches_trans unfolding v2 v by blast
    have e: "execute_transfer ledger height i t raw s = and_then (overlay_credit (tr_to t) (tr_amount t) ?o2) (\<lambda>ov.
        Inr \<lparr>br_overlay = ov, br_txids = br_txids s @ [transfer_txid t],
          br_spent_nonces = br_spent_nonces s @ [(?from, tr_nonce t)],
          br_non_coinbase_bytes = br_non_coinbase_bytes s @ [raw]\<rparr>)"
      using fl True nonce_eq out(1) sub(1) non(1) sp
      by (simp add: execute_transfer_def g Let_def del: FEE_FLOOR_MILE_def)
    have allowed: "tx_allowed locked (Transfer t) ?b \<longleftrightarrow> bal (spend ?from (outlay (Transfer t)) ?b) (tr_to t) + unat (tr_amount t) < 2 ^ 128"
      using True by (simp add: tx_allowed_def b fee0 receive_def del: FEE_FLOOR_MILE_def)
    show ?thesis
      using overlay_credit_spec [where a = "tr_to t" and n = "tr_amount t" and ov = ?o2] r2
      unfolding e b2 f_def [symmetric] allowed
      by (cases "overlay_credit (tr_to t) (tr_amount t) ?o2") (auto intro: overlay.reaches_trans)
  qed
qed

lemma execute_announcement_spec:
  fixes ledger height
  defines "locked \<equiv> \<lambda>a. unat (immature_at a height ledger)"
  assumes "executable (Announcement t)"
  shows "case execute_announcement ledger height i t raw s of
     Inl _ \<Rightarrow> \<not> tx_allowed locked (Announcement t) (balances_of (ov_view (br_overlay s)))
   | Inr s' \<Rightarrow> tx_allowed locked (Announcement t) (balances_of (ov_view (br_overlay s))) \<and>
       balances_of (ov_view (br_overlay s')) = tx_effect (Announcement t) (balances_of (ov_view (br_overlay s))) \<and>
       overlay.reaches (br_overlay s) (ov_view (br_overlay s')) (br_overlay s') \<and>
       br_spent_nonces s' = br_spent_nonces s @ [(sender (Announcement t), tx_nonce (Announcement t))]"
proof -
  let ?from = "address_payload (an_from_pub t)"
  obtain acct ov where g: "overlay_get ?from (br_overlay s) = (acct, ov)" by (cases "overlay_get ?from (br_overlay s)")
  define f where "f = ov_view (br_overlay s)"
  have acct: "acct = f ?from" and r: "overlay.reaches (br_overlay s) f ov"
    using overlay.reaches_get [OF g] by (simp_all add: f_def)
  have v: "ov_view ov = f" using overlay.reaches_view [OF r] .
  let ?b = "balances_of f"
  have b: "bal ?b ?from = unat (ac_balance acct)" "nonce ?b ?from = unat (ac_nonce acct)"
    by (simp_all add: balances_of_def acct)
  obtain id where id: "announcement_txid t = Inr id" using assms(2) by (auto simp: executable_def)
  let ?cs = "\<lparr>as_balance = ac_balance acct, as_nonce = ac_nonce acct\<rparr>"
  let ?sp = "ledger_spendable ?from (ac_balance acct) height ledger"
  have e: "execute_announcement ledger height i t raw s =
      and_then (map_err (\<lambda>err. Reject.Tx i err) (check_announcement_stateful t ?cs ?sp)) (\<lambda>_.
      and_then (map_err (\<lambda>err. Reject.Tx i err) (apply_announcement ?cs t)) (\<lambda>n.
      Inr \<lparr>br_overlay = overlay_set ?from \<lparr>ac_balance = as_balance n, ac_nonce = as_nonce n\<rparr> ov,
        br_txids = br_txids s @ [id], br_spent_nonces = br_spent_nonces s @ [(?from, an_nonce t)],
        br_non_coinbase_bytes = br_non_coinbase_bytes s @ [raw]\<rparr>))"
    by (simp add: execute_announcement_def g Let_def id)
  have fee0: "FEE_FLOOR_MILE \<le> an_fee t \<longleftrightarrow> 0 < unat (an_fee t)"
    by (simp add: word_le_nat_alt Suc_le_eq)
  have allowed: "tx_allowed locked (Announcement t) ?b \<longleftrightarrow>
      check_announcement_stateful t ?cs ?sp = Inr () \<and> (\<exists>n. apply_announcement ?cs t = Inr n)"
    (is "_ \<longleftrightarrow> ?R")
  proof
    assume A: "tx_allowed locked (Announcement t) ?b"
    then have A': "0 < unat (an_fee t)" "unat (ac_nonce acct) = unat (an_nonce t)" "unat (ac_nonce acct) + 1 < 2 ^ 64"
      "unat (an_fee t) + locked ?from \<le> unat (ac_balance acct)"
      by (simp_all add: tx_allowed_def b fee0 del: FEE_FLOOR_MILE_def)
    have "check_announcement_stateful t ?cs ?sp = Inr ()"
      using A' by (simp add: check_announcement_stateful_Ok fee0 word_unat_eq_iff word_le_nat_alt [of "an_fee t"]
          unat_spendable locked_def del: FEE_FLOOR_MILE_def)
    moreover have "apply_announcement ?cs t = Inr \<lparr>as_balance = ac_balance acct - an_fee t, as_nonce = ac_nonce acct + 1\<rparr>"
      using A' by (simp add: apply_announcement_Ok unat_sub word_le_nat_alt unat_word_ariths)
    ultimately show ?R by blast
  next
    assume ?R
    then obtain n where n: "apply_announcement ?cs t = Inr n" and c: "check_announcement_stateful t ?cs ?sp = Inr ()" by blast
    show "tx_allowed locked (Announcement t) ?b"
      using n c unat_balance_bounds(2) [of "as_nonce n"]
      by (auto simp: tx_allowed_def b check_announcement_stateful_Ok apply_announcement_Ok fee0
          word_le_nat_alt [of "an_fee t"] unat_spendable locked_def simp del: FEE_FLOOR_MILE_def)
  qed
  show ?thesis
  proof (cases "check_announcement_stateful t ?cs ?sp = Inr () \<and> (\<exists>n. apply_announcement ?cs t = Inr n)")
    case True
    then obtain n where c: "check_announcement_stateful t ?cs ?sp = Inr ()" and n: "apply_announcement ?cs t = Inr n" by blast
    let ?x = "\<lparr>ac_balance = as_balance n, ac_nonce = as_nonce n\<rparr>"
    have v2: "ov_view (overlay_set ?from ?x ov) = f(?from := ?x)" by (simp add: overlay_set_facts v)
    have "balances_of (f(?from := ?x)) = spend ?from (outlay (Announcement t)) ?b"
      using n by (intro balances_spend) (simp_all add: apply_announcement_Ok b)
    moreover have "overlay.reaches (br_overlay s) (f(?from := ?x)) (overlay_set ?from ?x ov)"
      using r overlay.reaches_put [of ov ?from ?x] overlay.reaches_trans unfolding v by blast
    ultimately show ?thesis
      unfolding e f_def [symmetric] using allowed True by (simp add: c n v2)
  next
    case False
    then have "\<exists>err. execute_announcement ledger height i t raw s = Inl err"
      unfolding e by (cases "check_announcement_stateful t ?cs ?sp"; cases "apply_announcement ?cs t") auto
    then show ?thesis using allowed False by (auto simp: f_def)
  qed
qed

lemma execute_txs_spec:
  fixes ledger height
  defines "locked \<equiv> \<lambda>a. unat (immature_at a height ledger)"
  assumes "i + length txs \<le> body_len body" "\<forall>tx \<in> set txs. executable tx"
  shows "\<exists>r. execute_txs ledger height body i txs s = Some r \<and>
    (case r of
       Inl _ \<Rightarrow> ledger_run locked txs (balances_of (ov_view (br_overlay s))) = None
     | Inr s' \<Rightarrow> ledger_run locked txs (balances_of (ov_view (br_overlay s))) = Some (balances_of (ov_view (br_overlay s'))) \<and>
         overlay.reaches (br_overlay s) (ov_view (br_overlay s')) (br_overlay s') \<and>
         br_spent_nonces s' = br_spent_nonces s @ map (\<lambda>tx. (sender tx, tx_nonce tx)) txs)"
  using assms(2,3)
proof (induction txs arbitrary: i s)
  case Nil
  then show ?case by (simp add: overlay.reaches_refl)
next
  case (Cons tx txs)
  obtain raw where raw: "tx_bytes body i = Some raw"
    using Cons.prems(1) by (auto simp: tx_bytes_def body_len_def)
  obtain step where step: "(case tx of
        Coinbase _ \<Rightarrow> None
      | Transfer t \<Rightarrow> Some (execute_transfer ledger height i t raw s)
      | Announcement a \<Rightarrow> Some (execute_announcement ledger height i a raw s)) = Some step"
    and spec: "case step of
       Inl _ \<Rightarrow> \<not> tx_allowed locked tx (balances_of (ov_view (br_overlay s)))
     | Inr s' \<Rightarrow> tx_allowed locked tx (balances_of (ov_view (br_overlay s))) \<and>
         balances_of (ov_view (br_overlay s')) = tx_effect tx (balances_of (ov_view (br_overlay s))) \<and>
         overlay.reaches (br_overlay s) (ov_view (br_overlay s')) (br_overlay s') \<and>
         br_spent_nonces s' = br_spent_nonces s @ [(sender tx, tx_nonce tx)]"
    using execute_transfer_spec [where ledger = ledger and height = height and i = i and raw = raw and s = s]
      execute_announcement_spec [where ledger = ledger and height = height and i = i and raw = raw and s = s] Cons.prems(2)
    unfolding locked_def by (cases tx) (auto simp: executable_def)
  show ?case
  proof (cases step)
    case (Inl e)
    then show ?thesis using spec by (simp add: raw step)
  next
    case (Inr s1)
    then have S: "tx_allowed locked tx (balances_of (ov_view (br_overlay s)))"
      "balances_of (ov_view (br_overlay s1)) = tx_effect tx (balances_of (ov_view (br_overlay s)))"
      "overlay.reaches (br_overlay s) (ov_view (br_overlay s1)) (br_overlay s1)"
      "br_spent_nonces s1 = br_spent_nonces s @ [(sender tx, tx_nonce tx)]"
      using spec by simp_all
    from Cons.IH [of "i + 1" s1] Cons.prems obtain r where
      r: "execute_txs ledger height body (i + 1) txs s1 = Some r"
      "case r of
         Inl _ \<Rightarrow> ledger_run locked txs (balances_of (ov_view (br_overlay s1))) = None
       | Inr s' \<Rightarrow> ledger_run locked txs (balances_of (ov_view (br_overlay s1))) = Some (balances_of (ov_view (br_overlay s'))) \<and>
           overlay.reaches (br_overlay s1) (ov_view (br_overlay s')) (br_overlay s') \<and>
           br_spent_nonces s' = br_spent_nonces s1 @ map (\<lambda>tx. (sender tx, tx_nonce tx)) txs"
      by auto
    show ?thesis
      using r S Inr by (cases r) (auto simp: raw step intro: overlay.reaches_trans)
  qed
qed

section \<open>Whole blocks\<close>

text \<open>The transactions of a checked block.\<close>

lemma check_block_Ok:
  assumes "check_block vk verify header raw params trust = Inr (body, txs, cb, credit)"
  obtains rest where "txs = Coinbase cb # rest" "\<forall>tx \<in> set rest. executable tx" "length txs = body_len body"
    "length (cb_to cb) = 20" "unat credit = unat (block_reward (hd_height header)) + sum_list (map (\<lambda>x. unat (tx_fee x)) rest)"
    "cb_reward cb = block_reward (hd_height header)" "\<exists>id. coinbase_txid cb = Inr id" "body_tx_root body = hd_tx_root header"
    "body_parse raw = Inr body" "list_all2 (\<lambda>b t. decode_tx b = Inr t) (body_txs body) txs"
proof -
  obtain fees where C: "body_parse raw = Inr body" "decode_body body = Inr txs" "check_body_structure txs = Inr cb"
    "body_tx_root body = hd_tx_root header" "block_fee_total txs = Inr fees"
    "check_coinbase cb (hd_height header) (hd_author_note_len header) fees = Inr ()" "coinbase_credit cb = Inr credit"
    using assms by (auto simp: check_block_def and_then_Ok map_err_Ok split: if_splits)
  obtain rest where rest: "txs = Coinbase cb # rest" "\<forall>t \<in> set rest. \<forall>c. t \<noteq> Coinbase c"
    using C(3) by (auto simp: check_body_structure_Ok)
  have dec: "list_all2 (\<lambda>b t. decode_tx b = Inr t) (body_txs body) txs" using C(2) by (simp add: decode_body_Ok)
  then have len: "length txs = body_len body" by (simp add: list_all2_lengthD [symmetric] body_txs_def)
  obtain b bs where b: "body_txs body = b # bs" "decode_tx b = Inr (Coinbase cb)" "list_all2 (\<lambda>b t. decode_tx b = Inr t) bs rest"
    using dec by (auto simp: rest(1) list_all2_Cons2)
  have ex: "executable tx" if tx: "tx \<in> set rest" for tx
  proof -
    obtain i where i: "i < length rest" "tx = rest ! i" using tx by (auto simp: in_set_conv_nth)
    then have "decode_tx (bs ! i) = Inr tx" using b(3) by (auto simp: list_all2_conv_all_nth)
    then show ?thesis by (rule decoded_executable) (use rest(2) tx in blast)
  qed
  have cb: "tx_ok (Coinbase cb)" "tx_encode (Coinbase cb) = Inr b" using tx.enc_dec [OF b(2)] by simp_all
  note D = C(5-7) [unfolded block_fee_total_Ok check_coinbase_Ok coinbase_credit_Ok rest(1)]
  show thesis
    by (rule that [OF rest(1) _ len])
      (use ex cb C(1,4) D dec in \<open>auto simp: coinbase_ok_def coinbase_txid_def\<close>)
qed

text \<open>The block on balances: the coinbase is paid, then every other transaction is executed under
  the rewards locked at this height, the new one among them.\<close>

definition ledger_block :: "CoinbaseLedger \<Rightarrow> u64 \<Rightarrow> CoinbaseTx \<Rightarrow> u128 \<Rightarrow> Tx list \<Rightarrow> Balances \<Rightarrow> Balances option" where
  "ledger_block ledger height cb credit txs s =
     (if bal s (cb_to cb) + unat credit < 2 ^ 128
      then ledger_run (\<lambda>a. unat (immature_at a height (ledger_push height (cb_to cb) credit ledger))) (drop 1 txs)
        (receive (cb_to cb) (unat credit) s)
      else None)"

lemma validate_checked:
  assumes "check_block vk verify header raw params trust = Inr (body, txs, cb, credit)"
  shows "\<exists>r. validate_block_body vk verify ov ledger header raw params trust = Some r \<and>
    (case r of
       Inl _ \<Rightarrow> ledger_block ledger (hd_height header) cb credit txs (balances_of (ov_view ov)) = None
     | Inr (v, ov', ledger') \<Rightarrow>
         ledger_block ledger (hd_height header) cb credit txs (balances_of (ov_view ov)) = Some (balances_of (ov_view ov')) \<and>
         ledger' = ledger_push (hd_height header) (cb_to cb) credit ledger \<and>
         write_undo (vb_undo v) (ov_view ov') = ov_view ov \<and> write_deltas (vb_deltas v) (ov_view ov) = ov_view ov' \<and>
         map un_addr (vb_undo v) = map sd_addr (vb_deltas v) \<and> distinct (map un_addr (vb_undo v)) \<and>
         vb_spent_nonces v = map (\<lambda>tx. (sender tx, tx_nonce tx)) (drop 1 txs) \<and>
         vb_issued_delta v = block_reward (hd_height header) \<and> vb_coinbase_to v = cb_to cb \<and> vb_coinbase_credit v = credit)"
proof -
  obtain rest where R: "txs = Coinbase cb # rest" "\<forall>tx \<in> set rest. executable tx" "length txs = body_len body"
    "cb_reward cb = block_reward (hd_height header)" "\<exists>id. coinbase_txid cb = Inr id"
    by (rule check_block_Ok [OF assms]) blast
  obtain id where id: "coinbase_txid cb = Inr id" using R(5) by blast
  let ?h = "hd_height header"
  let ?l = "ledger_push ?h (cb_to cb) credit ledger"
  let ?o0 = "overlay_begin_block ov"
  note B = overlay_begin_facts [of ov]
  show ?thesis
  proof (cases "overlay_credit (cb_to cb) credit ?o0")
    case (Inl e)
    then show ?thesis
      using overlay_credit_spec [where a = "cb_to cb" and n = credit and ov = ?o0]
      by (simp add: validate_block_body_def assms B ledger_block_def)
  next
    case (Inr o1)
    then have O: "bal (balances_of (ov_view ov)) (cb_to cb) + unat credit < 2 ^ 128"
      "balances_of (ov_view o1) = receive (cb_to cb) (unat credit) (balances_of (ov_view ov))"
      "overlay.reaches ?o0 (ov_view o1) o1"
      using overlay_credit_spec [where a = "cb_to cb" and n = credit and ov = ?o0] by (simp_all add: B)
    let ?s = "\<lparr>br_overlay = o1, br_txids = [id], br_spent_nonces = [], br_non_coinbase_bytes = []\<rparr>"
    obtain r where r: "execute_txs ?l ?h body 1 rest ?s = Some r"
      "case r of
         Inl _ \<Rightarrow> ledger_run (\<lambda>a. unat (immature_at a ?h ?l)) rest (balances_of (ov_view o1)) = None
       | Inr s' \<Rightarrow> ledger_run (\<lambda>a. unat (immature_at a ?h ?l)) rest (balances_of (ov_view o1)) = Some (balances_of (ov_view (br_overlay s'))) \<and>
           overlay.reaches o1 (ov_view (br_overlay s')) (br_overlay s') \<and>
           br_spent_nonces s' = map (\<lambda>tx. (sender tx, tx_nonce tx)) rest"
      using execute_txs_spec [where i = 1 and txs = rest and body = body and ledger = ?l and height = ?h and s = ?s,
        unfolded BlockRun.select_convs append_Nil] R by auto
    have lb: "ledger_block ledger ?h cb credit txs (balances_of (ov_view ov)) =
        ledger_run (\<lambda>a. unat (immature_at a ?h ?l)) rest (balances_of (ov_view o1))"
      using O(1,2) by (simp add: ledger_block_def R(1))
    show ?thesis
    proof (cases r)
      case (Inl e)
      then show ?thesis using r lb by (simp add: validate_block_body_def assms Inr id R(1))
    next
      case (Inr s')
      have "overlay.reaches ?o0 (ov_view (br_overlay s')) (br_overlay s')"
        using O(3) r(2) Inr by (auto intro: overlay.reaches_trans)
      then have J: "journal_ok (br_overlay s')" "ov_base (br_overlay s') = ov_view ov"
        using B by (simp_all add: overlay.reaches_def)
      obtain recs where recs: "overlay_undo_records (br_overlay s') = Some recs"
        by (rule undo_records_Some [OF J(1)])
      obtain ds o2 where ds: "overlay_deltas (br_overlay s') = (ds, o2)" "ov_view o2 = ov_view (br_overlay s')"
        using deltas_over_eq [of "ov_order (br_overlay s')" "br_overlay s'"] overlay.reaches_view
        by (auto simp: overlay_deltas_def)
      note ji = journal_inverse [OF J(1) recs, unfolded J(2) ds(1) fst_conv]
      show ?thesis
        using r lb Inr ji R(4) by (simp add: validate_block_body_def assms \<open>overlay_credit _ _ _ = Inr o1\<close> id R(1) recs ds)
    qed
  qed
qed

lemma validate_unchecked:
  "check_block vk verify header raw params trust = Inl e \<Longrightarrow>
    validate_block_body vk verify ov ledger header raw params trust = Some (Inl e)"
  by (simp add: validate_block_body_def)

section \<open>What every run of the ledger keeps\<close>

lemma length_address_payload [simp]: "length (address_payload k) = 20"
  by (simp add: address_payload_def)

lemma executable_not_coinbase [simp]: "\<not> executable (Coinbase c)"
  by (simp add: executable_def)

lemma length_sender: "executable tx \<Longrightarrow> length (sender tx) = 20"
  by (cases tx) simp_all

lemma tx_effect_nonce:
  "executable tx \<Longrightarrow> nonce (tx_effect tx s) = (nonce s)(sender tx := nonce s (sender tx) + 1)"
  by (cases tx) (simp_all add: spend_def receive_def)

lemma tx_effect_bal:
  assumes "executable tx" "tx_allowed locked tx s"
  shows "locked a \<le> bal s a \<Longrightarrow> locked a \<le> bal (tx_effect tx s) a"
  using assms by (cases tx) (auto simp: tx_allowed_def spend_def receive_def)

lemma sum_upd:
  "finite A \<Longrightarrow> a \<in> A \<Longrightarrow> sum (f(a := v)) A + f a = sum f A + (v :: nat)"
  by (simp add: sum.remove [of A a] sum.cong [of "A - {a}" "A - {a}" "f(a := v)" f])

definition addresses :: "Address set" where
  "addresses = {a. length a = 20}"

lemma finite_addresses [simp]: "finite addresses"
  using finite_lists_length_eq [of "UNIV :: u8 set" 20] by (simp add: addresses_def)

lemma mem_addresses [simp]: "a \<in> addresses \<longleftrightarrow> length a = 20"
  by (simp add: addresses_def)

definition total_balance :: "Balances \<Rightarrow> nat" where
  "total_balance s = sum (bal s) addresses"

lemma total_receive: "length a = 20 \<Longrightarrow> total_balance (receive a n s) = total_balance s + n"
  using sum_upd [OF finite_addresses, of a "bal s" "bal s a + n"] by (simp add: total_balance_def receive_def)

lemma total_spend: "length a = 20 \<Longrightarrow> n \<le> bal s a \<Longrightarrow> total_balance (spend a n s) + n = total_balance s"
  using sum_upd [OF finite_addresses, of a "bal s" "bal s a - n"] by (simp add: total_balance_def spend_def)

lemma total_tx:
  assumes "executable tx" "tx_allowed locked tx s"
  shows "total_balance (tx_effect tx s) + unat (tx_fee tx) = total_balance s"
proof -
  have le: "outlay tx \<le> bal s (sender tx)" using assms(2) by (simp add: tx_allowed_def)
  show ?thesis
    using assms(1) total_spend [OF length_sender [OF assms(1)] le]
    by (cases tx) (simp_all add: total_receive executable_def)
qed

lemma ledger_run_facts:
  assumes "ledger_run locked txs s = Some s'" "\<forall>tx \<in> set txs. executable tx"
  shows "total_balance s' + sum_list (map (\<lambda>tx. unat (tx_fee tx)) txs) = total_balance s"
    and "(\<forall>a. locked a \<le> bal s a) \<Longrightarrow> locked a \<le> bal s' a"
    and "nonce s a \<le> nonce s' a \<and>
      map (\<lambda>tx. unat (tx_nonce tx)) (filter (\<lambda>tx. sender tx = a) txs) = [nonce s a..<nonce s' a]"
proof -
  have "total_balance s' + sum_list (map (\<lambda>tx. unat (tx_fee tx)) txs) = total_balance s \<and>
    ((\<forall>a. locked a \<le> bal s a) \<longrightarrow> locked a \<le> bal s' a) \<and> nonce s a \<le> nonce s' a \<and>
      map (\<lambda>tx. unat (tx_nonce tx)) (filter (\<lambda>tx. sender tx = a) txs) = [nonce s a..<nonce s' a]"
    using assms
  proof (induction txs arbitrary: s)
    case Nil
    then show ?case by simp
  next
    case (Cons tx txs)
    then have tx: "tx_allowed locked tx s" "executable tx" "ledger_run locked txs (tx_effect tx s) = Some s'"
      by (simp_all split: if_splits)
    note IH = Cons.IH [OF tx(3)]
    have n: "nonce (tx_effect tx s) a = (if sender tx = a then nonce s a + 1 else nonce s a)"
      by (simp add: tx_effect_nonce [OF tx(2)])
    have "map (\<lambda>tx. unat (tx_nonce tx)) (filter (\<lambda>tx. sender tx = a) (tx # txs)) = [nonce s a..<nonce s' a]"
      using IH Cons.prems(2) tx(1) n upt_conv_Cons [of "nonce s a" "nonce s' a"]
      by (auto simp: tx_allowed_def)
    then show ?case
      using IH Cons.prems(2) tx_effect_bal [OF tx(2,1)] total_tx [OF tx(2,1)] n
      by (auto split: if_splits)
  qed
  then show "total_balance s' + sum_list (map (\<lambda>tx. unat (tx_fee tx)) txs) = total_balance s"
    "(\<forall>a. locked a \<le> bal s a) \<Longrightarrow> locked a \<le> bal s' a"
    "nonce s a \<le> nonce s' a \<and>
      map (\<lambda>tx. unat (tx_nonce tx)) (filter (\<lambda>tx. sender tx = a) txs) = [nonce s a..<nonce s' a]"
    by blast+
qed

text \<open>A successful validation, in terms of the ledger.\<close>

lemma validate_Ok:
  assumes "validate_block_body vk verify ov ledger header raw params trust = Some (Inr (v, ov', ledger'))"
  obtains body txs cb credit where "check_block vk verify header raw params trust = Inr (body, txs, cb, credit)"
    "\<forall>tx \<in> set (drop 1 txs). executable tx" "length (cb_to cb) = 20"
    "unat credit = unat (block_reward (hd_height header)) + sum_list (map (\<lambda>x. unat (tx_fee x)) (drop 1 txs))"
    "ledger' = ledger_push (hd_height header) (cb_to cb) credit ledger"
    "ledger_run (\<lambda>a. unat (immature_at a (hd_height header) ledger')) (drop 1 txs)
      (receive (cb_to cb) (unat credit) (balances_of (ov_view ov))) = Some (balances_of (ov_view ov'))"
    "write_undo (vb_undo v) (ov_view ov') = ov_view ov" "write_deltas (vb_deltas v) (ov_view ov) = ov_view ov'"
    "vb_spent_nonces v = map (\<lambda>tx. (sender tx, tx_nonce tx)) (drop 1 txs)"
proof (cases "check_block vk verify header raw params trust")
  case (Inl e)
  then show thesis using assms by (simp add: validate_unchecked)
next
  case (Inr r)
  obtain body txs cb credit where r: "r = (body, txs, cb, credit)" by (metis prod_cases4)
  note C = Inr [unfolded r]
  show thesis
    by (rule check_block_Ok [OF C], rule that [OF C])
      (use validate_checked [OF C, of ov ledger] assms in \<open>auto simp: ledger_block_def split: if_splits\<close>)
qed

section \<open>A block of one coinbase\<close>

definition coinbase_for :: "u64 \<Rightarrow> Address \<Rightarrow> AuthorNote \<Rightarrow> CoinbaseTx" where
  "coinbase_for height to note =
     \<lparr>cb_height = height, cb_to = to, cb_reward = block_reward height, cb_fees = 0, cb_note = note\<rparr>"

lemma coinbase_for_encodes:
  assumes "length (note_payload note) \<le> 256"
  obtains rec where "coinbase_encode (coinbase_for height to note) = Inr rec"
  using assms by (auto simp: coinbase_encode_def coinbase_for_def note_encode_def)

lemma coinbase_for_length:
  "coinbase_encode (coinbase_for height to note) = Inr rec \<Longrightarrow> length to = 20 \<Longrightarrow> length rec = 65 + length (note_payload note)"
  by (auto simp: coinbase_encode_def coinbase_for_def and_then_Ok dest!: note_encode_length)

lemma coinbase_block_valid:
  assumes "length to = 20" "length (note_payload note) \<le> 256"
    and "unat (hd_author_note_len header) = length (note_payload note)"
    and "coinbase_encode (coinbase_for (hd_height header) to note) = Inr rec" "hd_tx_root header = tx_root [rec]"
    and "unat (ac_balance (ov_view ov to)) + unat (block_reward (hd_height header)) < 2 ^ 128"
  shows "\<exists>raw v ov' ledger'. body_encode [rec] = Inr raw \<and>
    validate_block_body vk verify ov ledger header raw params trust = Some (Inr (v, ov', ledger')) \<and>
    balances_of (ov_view ov') = receive to (unat (block_reward (hd_height header))) (balances_of (ov_view ov))"
proof -
  let ?cb = "coinbase_for (hd_height header) to note"
  have ok: "coinbase_ok ?cb" using assms(1) by (simp add: coinbase_ok_def coinbase_for_def)
  have dec: "decode_tx rec = Inr (Coinbase ?cb)"
    by (rule tx.dec_enc) (use ok assms(4) in simp_all)
  have len: "length rec = 65 + length (note_payload note)" using assms(1,4) by (rule coinbase_for_length [rotated])
  have rec0: "rec \<noteq> []" using len by auto
  obtain raw where raw: "body_encode [rec] = Inr raw"
    using assms(2) len rec0 by (simp add: body_encode_def)
  then have "map_sum id body_txs (body_parse raw) = Inr [rec]" by (intro body.dec_enc) simp_all
  then obtain body where body: "body_parse raw = Inr body" "body_txs body = [rec]" by (cases "body_parse raw") auto
  have txs: "decode_body body = Inr [Coinbase ?cb]" by (simp add: decode_body_def body(2) dec)
  have credit: "coinbase_credit ?cb = Inr (block_reward (hd_height header))"
    by (simp add: coinbase_credit_Ok coinbase_for_def)
  have "check_coinbase ?cb (hd_height header) (hd_author_note_len header) 0 = Inr ()"
    using assms(2,3) by (simp add: check_coinbase_Ok coinbase_for_def)
  moreover have "check_signatures vk verify params 0 [Coinbase ?cb] = Inr ()" "check_author_keys params 0 [Coinbase ?cb] = Inr ()"
    by simp_all
  moreover have "body_tx_root body = hd_tx_root header" by (simp add: body_tx_root_txs body(2) assms(5))
  moreover have "block_fee_total [Coinbase ?cb] = Inr 0" by (simp add: block_fee_total_Ok)
  ultimately have C: "check_block vk verify header raw params trust =
      Inr (body, [Coinbase ?cb], ?cb, block_reward (hd_height header))"
    by (simp add: check_block_def body(1) txs credit check_body_structure_def)
  have L: "ledger_block ledger (hd_height header) ?cb (block_reward (hd_height header)) [Coinbase ?cb] (balances_of (ov_view ov)) =
      Some (receive to (unat (block_reward (hd_height header))) (balances_of (ov_view ov)))"
    using assms(6) by (simp add: ledger_block_def coinbase_for_def) (simp add: balances_of_def)
  show ?thesis
    using validate_checked [OF C, of ov ledger] raw unfolding L by (fastforce split: sum.splits)
qed

definition sample_store :: Store where
  "sample_store = \<lparr>st_tip = \<lparr>tip_height = 0, tip_hash = replicate 32 0, tip_time = 0, tip_chainwork = work_ZERO\<rparr>,
     st_header_at = (\<lambda>_. None), st_header_by_hash = (\<lambda>_. None), st_hash_at = (\<lambda>_. None), st_body_at = (\<lambda>_. None),
     st_body_by_hash = (\<lambda>_. None), st_account = (\<lambda>_. \<lparr>ac_balance = 0, ac_nonce = 0\<rparr>), st_undo_at = (\<lambda>_. None),
     st_undo_floor = 0, st_replay_floor = 0, st_checkpoint_at_or_below = (\<lambda>_. None), st_state_snapshot = (\<lambda>_. None),
     st_issued = 0, st_is_invalid = (\<lambda>_. False), st_headers_range = (\<lambda>_ _. []), st_side_headers_from = (\<lambda>_ _. [])\<rparr>"

definition sample_to :: Address where "sample_to = replicate 20 7"

definition sample_note :: AuthorNote where "sample_note = \<lparr>note_encoding = 0, note_payload = []\<rparr>"

definition sample_rec :: bytes where
  "sample_rec = (case coinbase_encode (coinbase_for 1 sample_to sample_note) of Inl _ \<Rightarrow> [] | Inr r \<Rightarrow> r)"

definition sample_header :: Header where
  "sample_header = \<lparr>hd_version = 0x20000000, hd_height = 1, hd_prev_hash = replicate 32 0, hd_tx_root = tx_root [sample_rec],
     hd_ext_root = replicate 32 0, hd_time = 60, hd_bits = 0x1F00FFFF, hd_author_note_len = 0, hd_nonce = 0\<rparr>"

definition sample_overlay :: Overlay where "sample_overlay = overlay_new sample_store 10"

definition sample_raw :: bytes where
  "sample_raw = (case body_encode [sample_rec] of Inl _ \<Rightarrow> [] | Inr r \<Rightarrow> r)"

definition sample_validation :: "(Reject + ValidatedBlock \<times> Overlay \<times> CoinbaseLedger) option" where
  "sample_validation = validate_block_body (\<lambda>_. None :: unit option) (\<lambda>_ _ _. False) sample_overlay ledger_new
     sample_header sample_raw default_params Untrusted"

lemma sample_rec: "coinbase_encode (coinbase_for 1 sample_to sample_note) = Inr sample_rec"
  by (rule coinbase_for_encodes [of sample_note 1 sample_to]) (simp_all add: sample_note_def sample_rec_def)

lemma sample_view: "ov_view sample_overlay = (\<lambda>_. \<lparr>ac_balance = 0, ac_nonce = 0\<rparr>)"
  by (rule ext) (simp add: sample_overlay_def ov_view_def overlay_new_def sample_store_def)

lemma sample_paid:
  obtains v ov' ledger' where "sample_validation = Some (Inr (v, ov', ledger'))"
    "balances_of (ov_view ov') = receive sample_to (unat (block_reward (hd_height sample_header))) (balances_of (ov_view sample_overlay))"
proof -
  have "\<exists>raw v ov' ledger'. body_encode [sample_rec] = Inr raw \<and>
    validate_block_body (\<lambda>_. None :: unit option) (\<lambda>_ _ _. False) sample_overlay ledger_new
     sample_header raw default_params Untrusted = Some (Inr (v, ov', ledger')) \<and>
    balances_of (ov_view ov') = receive sample_to (unat (block_reward (hd_height sample_header))) (balances_of (ov_view sample_overlay))"
    by (rule coinbase_block_valid [of sample_to sample_note])
      (simp_all add: sample_to_def [THEN arg_cong [where f = length]] sample_note_def sample_header_def sample_view
        sample_rec [unfolded sample_note_def] block_reward_def subsidy_def)
  then show thesis using that by (auto simp: sample_validation_def sample_raw_def)
qed

lemma sample_valid:
  obtains v ov' ledger' where "sample_validation = Some (Inr (v, ov', ledger'))"
  by (rule sample_paid)

section \<open>What an accepted block guarantees\<close>

text \<open>C7: Block validation implements the ledger: once the checks that need no account have passed, it
  accepts exactly the blocks the ledger on numbers allows, leaves exactly its balances and nonces, and
  never panics.\<close>

theorem block_refines_ledger:
  "case check_block vk verify header raw params trust of
     Inl e \<Rightarrow> validate_block_body vk verify ov ledger header raw params trust = Some (Inl e)
   | Inr (body, txs, cb, credit) \<Rightarrow>
       (case validate_block_body vk verify ov ledger header raw params trust of
          None \<Rightarrow> False
        | Some (Inl _) \<Rightarrow> ledger_block ledger (hd_height header) cb credit txs (balances_of (ov_view ov)) = None
        | Some (Inr (v, ov', ledger')) \<Rightarrow>
            ledger_block ledger (hd_height header) cb credit txs (balances_of (ov_view ov)) = Some (balances_of (ov_view ov')))"
proof (cases "check_block vk verify header raw params trust")
  case (Inr c)
  obtain body txs cb credit where c: "c = (body, txs, cb, credit)" by (metis prod_cases4)
  obtain r where "validate_block_body vk verify ov ledger header raw params trust = Some r"
    "case r of
       Inl _ \<Rightarrow> ledger_block ledger (hd_height header) cb credit txs (balances_of (ov_view ov)) = None
     | Inr (v, ov', ledger') \<Rightarrow>
         ledger_block ledger (hd_height header) cb credit txs (balances_of (ov_view ov)) = Some (balances_of (ov_view ov'))"
    using validate_checked [OF Inr [unfolded c], of ov ledger] by (fastforce split: sum.splits)
  then show ?thesis using Inr by (cases r) (auto simp: c)
qed (simp add: validate_unchecked)

text \<open>C8: An accepted block creates exactly the subsidy of its height: the sum of all balances grows by
  it and by nothing else, whatever the transactions.\<close>

theorem block_creates_subsidy:
  assumes "validate_block_body vk verify ov ledger header raw params trust = Some (Inr (v, ov', ledger'))"
  shows "total_balance (balances_of (ov_view ov')) =
    total_balance (balances_of (ov_view ov)) + unat (block_reward (hd_height header))"
  by (rule validate_Ok [OF assms], frule (1) ledger_run_facts(1)) (simp add: total_receive)

theorem block_creates_subsidy_witness:
  "\<exists>v ov' ledger'. sample_validation = Some (Inr (v, ov', ledger')) \<and>
    total_balance (balances_of (ov_view ov')) = total_balance (balances_of (ov_view sample_overlay)) + 200000"
  by (rule sample_valid, frule block_creates_subsidy [OF sample_validation_def [symmetric, THEN trans]])
    (auto simp: sample_header_def block_reward_def subsidy_def)

text \<open>C10: The undo records of an accepted block take the accounts back to where they were, on the
  overlay itself, and its deltas describe the same change forwards, address by address.\<close>

theorem block_undo_restores:
  assumes "validate_block_body vk verify ov ledger header raw params trust = Some (Inr (v, ov', ledger'))"
  shows "ov_view (overlay_apply_undo (vb_undo v) ov') = ov_view ov \<and>
    write_deltas (vb_deltas v) (ov_view ov) = ov_view ov'"
  by (rule validate_Ok [OF assms]) (simp add: apply_undo_view)

theorem block_undo_restores_witness:
  "\<exists>v ov' ledger'. sample_validation = Some (Inr (v, ov', ledger')) \<and>
    ov_view (overlay_apply_undo (vb_undo v) ov') = ov_view sample_overlay"
  by (rule sample_valid, frule block_undo_restores [OF sample_validation_def [symmetric, THEN trans]]) blast

text \<open>Within a block every sender uses its nonces one after the other, from the one its account
  held to the one it holds afterwards: no transaction can be executed twice.\<close>

theorem block_nonces_consecutive:
  assumes "validate_block_body vk verify ov ledger header raw params trust = Some (Inr (v, ov', ledger'))"
  shows "map (\<lambda>(_, n). unat n) (filter (\<lambda>(a, _). a = addr) (vb_spent_nonces v)) =
    [unat (ac_nonce (ov_view ov addr))..<unat (ac_nonce (ov_view ov' addr))]"
proof (rule validate_Ok [OF assms])
  fix txs :: "Tx list" and cb :: CoinbaseTx and credit :: u128
  assume run: "ledger_run (\<lambda>a. unat (immature_at a (hd_height header) ledger')) (drop 1 txs)
      (receive (cb_to cb) (unat credit) (balances_of (ov_view ov))) = Some (balances_of (ov_view ov'))"
    and ex: "\<forall>tx \<in> set (drop 1 txs). executable tx"
    and sp: "vb_spent_nonces v = map (\<lambda>tx. (sender tx, tx_nonce tx)) (drop 1 txs)"
  show ?thesis
    using ledger_run_facts(3) [OF run ex, of addr] by (simp add: sp receive_def balances_of_def filter_map comp_def)
qed

theorem block_nonces_consecutive_witness:
  "\<exists>v ov' ledger'. sample_validation = Some (Inr (v, ov', ledger')) \<and>
    map (\<lambda>(_, n). unat n) (filter (\<lambda>(a, _). a = sample_to) (vb_spent_nonces v)) = [0..<unat (ac_nonce (ov_view ov' sample_to))]"
  by (rule sample_valid, frule block_nonces_consecutive [OF sample_validation_def [symmetric, THEN trans], of _ _ _ sample_to])
    (auto simp: sample_view)

text \<open>Every immature reward is still in the balance of its address.\<close>

definition rewards_covered :: "CoinbaseLedger \<Rightarrow> u64 \<Rightarrow> (Address \<Rightarrow> Account) \<Rightarrow> bool" where
  "rewards_covered ledger height f \<longleftrightarrow> (\<forall>a. unat (immature_at a height ledger) \<le> unat (ac_balance (f a)))"

text \<open>Rewards are not spent before they mature: if every immature reward is covered by the balance
  of its address when a block is validated, the same holds after it, the reward of the block included.\<close>

theorem immature_rewards_covered:
  assumes "validate_block_body vk verify ov ledger header raw params trust = Some (Inr (v, ov', ledger'))"
    and "rewards_covered ledger (hd_height header) (ov_view ov)"
  shows "rewards_covered ledger' (hd_height header) (ov_view ov')"
proof (rule validate_Ok [OF assms(1)])
  fix txs :: "Tx list" and cb :: CoinbaseTx and credit :: u128
  let ?locked = "\<lambda>a. unat (immature_at a (hd_height header) ledger')"
  let ?b = "receive (cb_to cb) (unat credit) (balances_of (ov_view ov))"
  assume l: "ledger' = ledger_push (hd_height header) (cb_to cb) credit ledger"
    and run: "ledger_run ?locked (drop 1 txs) ?b = Some (balances_of (ov_view ov'))"
    and ex: "\<forall>tx \<in> set (drop 1 txs). executable tx"
  have "\<forall>a. ?locked a \<le> bal ?b a"
    using assms(2) by (simp add: l immature_push rewards_covered_def receive_def balances_of_def unat_saturating_add
        min.coboundedI1 trans_le_add1)
  from ledger_run_facts(2) [OF run ex this] show ?thesis
    by (simp add: rewards_covered_def balances_of_def)
qed

theorem immature_rewards_covered_witness:
  "\<exists>v ov' ledger'. sample_validation = Some (Inr (v, ov', ledger')) \<and> rewards_covered ledger' 1 (ov_view ov')"
  by (rule sample_valid, frule immature_rewards_covered [OF sample_validation_def [symmetric, THEN trans]])
    (auto simp: rewards_covered_def immature_at_def ledger_new_def sample_header_def)

text \<open>A block whose only transaction is a correct coinbase is always accepted, for any payout
  address, note and signature scheme, as long as the payout does not overflow the account.\<close>

theorem coinbase_block_accepted:
  assumes "length to = 20" "length (note_payload note) \<le> 256"
    and "unat (hd_author_note_len header) = length (note_payload note)"
    and "coinbase_encode (coinbase_for (hd_height header) to note) = Inr rec" "hd_tx_root header = tx_root [rec]"
    and "unat (ac_balance (ov_view ov to)) + unat (block_reward (hd_height header)) < 2 ^ 128"
  shows "\<exists>raw v ov' ledger'. body_encode [rec] = Inr raw \<and>
    validate_block_body vk verify ov ledger header raw params trust = Some (Inr (v, ov', ledger')) \<and>
    balances_of (ov_view ov') = receive to (unat (block_reward (hd_height header))) (balances_of (ov_view ov))"
  using assms by (rule coinbase_block_valid)

theorem coinbase_block_accepted_witness:
  "\<exists>raw v ov' ledger'. body_encode [sample_rec] = Inr raw \<and>
    validate_block_body (\<lambda>_. None :: unit option) (\<lambda>_ _ _. False) sample_overlay ledger_new sample_header raw
      default_params Untrusted = Some (Inr (v, ov', ledger')) \<and>
    balances_of (ov_view ov') = receive sample_to 200000 (balances_of (ov_view sample_overlay))"
  using coinbase_block_accepted [of sample_to sample_note sample_header sample_rec sample_overlay
      "\<lambda>_. None :: unit option" "\<lambda>_ _ _. False" ledger_new default_params Untrusted]
    sample_rec by (simp add: sample_to_def sample_note_def sample_header_def sample_view block_reward_def subsidy_def)

end
