(* ===== verification/Reorg.thy ===== *)
theory Reorg imports Body begin

text \<open>
  \<open>lib/chain/src/reorg.rs\<close>: rewinding the accounts to the fork of a reorganisation, rebuilding the
  ledger of immature rewards, and validating the branch. The conditions handed to the observer are
  returned beside the result, also on an error, because the manager emits them first; \<open>None\<close> is a
  panic. On an error the overlay and the ledger are dropped by the manager.
\<close>

datatype Base = UndoWindow | DeepReplay u64

text \<open>The range \<open>a..=b\<close>.\<close>

definition heights :: "u64 \<Rightarrow> u64 \<Rightarrow> u64 list" where
  "heights a b = map word_of_nat [unat a..<unat b + 1]"

fun ledger_from :: "Store \<Rightarrow> u64 list \<Rightarrow> CoinbaseLedger \<Rightarrow> Reject + CoinbaseLedger" where
  "ledger_from store [] ledger = Inr ledger"
| "ledger_from store (h # hs) ledger =
     (case st_body_at store h of
        None \<Rightarrow> ledger_from store hs ledger
      | Some raw \<Rightarrow>
         (case body_parse raw of
            Inl _ \<Rightarrow> ledger_from store hs ledger
          | Inr body \<Rightarrow>
             (case body_decode_tx body 0 of
                Some (Inr (Coinbase cb)) \<Rightarrow>
                  and_then (map_err (\<lambda>_. Reject.ArithmeticOverflow) (coinbase_credit cb)) (\<lambda>credit.
                  ledger_from store hs (ledger_push h (cb_to cb) credit ledger))
              | _ \<Rightarrow> ledger_from store hs ledger)))"

definition build_ledger :: "Store \<Rightarrow> u64 \<Rightarrow> Reject + CoinbaseLedger" where
  "build_ledger store at =
     (let from = saturating_sub at (COINBASE_MATURITY - 1)
      in ledger_from store (heights from at) ledger_new)"

text \<open>What both loops put into the commit of a block.\<close>

definition commit_of :: "HeaderRec \<Rightarrow> u64 \<Rightarrow> bytes \<Rightarrow> ValidatedBlock \<Rightarrow> Work \<Rightarrow> CommitBlock" where
  "commit_of rec height raw v chainwork = \<lparr>cbk_header_raw = hr_raw rec, cbk_hash = hr_hash rec, cbk_height = height,
     cbk_body = raw, cbk_deltas = vb_deltas v, cbk_undo = vb_undo v, cbk_issued_delta = vb_issued_delta v,
     cbk_chainwork = chainwork, cbk_txids = vb_txids v\<rparr>"

text \<open>The replay above a snapshot; its ledger is thrown away at every block.\<close>

fun replay_blocks ::
  "(bytes \<Rightarrow> 'vk option) \<Rightarrow> ('vk \<Rightarrow> bytes \<Rightarrow> bytes \<Rightarrow> bool) \<Rightarrow> Store \<Rightarrow> ChainParams \<Rightarrow> (u64 \<Rightarrow> Work) \<Rightarrow> u64 \<Rightarrow>
   u64 list \<Rightarrow> Overlay \<Rightarrow> (Reject + CommitBlock list \<times> Overlay) option" where
  "replay_blocks vk verify store params chainwork_at fork_height [] ov = Some (Inr ([], ov))"
| "replay_blocks vk verify store params chainwork_at fork_height (h # hs) ov =
     (let resync = Reject.ResyncRequired fork_height (st_replay_floor store) in
     and_thenp (Some (ok_or resync (st_body_at store h))) (\<lambda>raw.
     and_thenp (Some (ok_or resync (st_header_at store h))) (\<lambda>rec.
     (case rec_header rec of
        None \<Rightarrow> None
      | Some hdr \<Rightarrow>
          and_thenp (map_option (map_err (\<lambda>e. BranchInvalid h (hr_hash rec) e))
              (validate_block_body vk verify ov ledger_new hdr raw params OurStore)) (\<lambda>(v, ov, _).
          and_thenp (replay_blocks vk verify store params chainwork_at fork_height hs ov) (\<lambda>(out, ov).
          Some (Inr (commit_of rec h raw v (chainwork_at h) # out, ov))))))))"

definition rewind_to_fork ::
  "(bytes \<Rightarrow> 'vk option) \<Rightarrow> ('vk \<Rightarrow> bytes \<Rightarrow> bytes \<Rightarrow> bool) \<Rightarrow> Store \<Rightarrow> Overlay \<Rightarrow> u64 \<Rightarrow> u64 \<Rightarrow> ChainParams \<Rightarrow> (u64 \<Rightarrow> Work) \<Rightarrow>
   (Condition list \<times> (Reject + Base \<times> Overlay \<times> CoinbaseLedger \<times> CommitBlock list)) option" where
  "rewind_to_fork vk verify store ov our_tip fork_height params chainwork_at =
     (let undone = rev (heights (fork_height + 1) our_tip);
          resync = Reject.ResyncRequired fork_height (st_replay_floor store);
          finish = (\<lambda>base ov out. and_then (build_ledger store fork_height) (\<lambda>ledger. Inr (base, ov, ledger, out)))
      in if list_all (\<lambda>h. st_undo_at store h \<noteq> None) undone
         then map_option (\<lambda>ov. ([], finish UndoWindow ov []))
           (for_each (\<lambda>h ov. map_option (\<lambda>recs. overlay_apply_undo recs ov) (st_undo_at store h)) undone ov)
         else (case st_checkpoint_at_or_below store fork_height of
            None \<Rightarrow> Some ([], Inl resync)
          | Some rewind_to \<Rightarrow>
             if rewind_to < st_replay_floor store
             then Some ([Condition.ResyncRequired fork_height (st_replay_floor store)], Inl resync)
             else (case st_state_snapshot store rewind_to of
                None \<Rightarrow> Some ([], Inl resync)
              | Some snapshot \<Rightarrow>
                  map_option (\<lambda>r. case r of
                      Inl e \<Rightarrow> ([], Inl e)
                    | Inr (out, ov) \<Rightarrow> ([Condition.DeepReplay rewind_to fork_height (word_of_nat (length out))],
                        finish (Base.DeepReplay rewind_to) ov out))
                    (replay_blocks vk verify store params chainwork_at fork_height
                      (heights (rewind_to + 1) fork_height) (overlay_seed snapshot ov)))))"

fun branch_loop ::
  "(bytes \<Rightarrow> 'vk option) \<Rightarrow> ('vk \<Rightarrow> bytes \<Rightarrow> bytes \<Rightarrow> bool) \<Rightarrow> ChainParams \<Rightarrow> (nat \<Rightarrow> Work) \<Rightarrow> nat \<Rightarrow> bool \<Rightarrow>
   (HeaderRec \<times> bytes) list \<Rightarrow> Overlay \<Rightarrow> CoinbaseLedger \<Rightarrow>
   (Condition list \<times> (Reject + CommitBlock list \<times> (Address \<times> u64) list \<times> Overlay \<times> CoinbaseLedger)) option" where
  "branch_loop vk verify params chainwork_of i reported [] ov ledger = Some ([], Inr ([], [], ov, ledger))"
| "branch_loop vk verify params chainwork_of i reported ((rec, raw) # branch) ov ledger =
     (case rec_header rec of
        None \<Rightarrow> None
      | Some hdr \<Rightarrow>
         (case validate_block_body vk verify ov ledger hdr raw params Untrusted of
            None \<Rightarrow> None
          | Some (Inl cause) \<Rightarrow> Some ([BranchInvalidAt (hr_height rec) (hr_hash rec)],
              Inl (BranchInvalid (hr_height rec) (hr_hash rec) cause))
          | Some (Inr (v, ov, ledger)) \<Rightarrow>
              let report = overlay_exhausted ov \<and> \<not> reported in
              map_option (\<lambda>(conds, r). ((if report then [ReorgOverlayExhausted (overlay_len ov)] else []) @ conds,
                  and_then r (\<lambda>(out, spent, ov, ledger).
                    Inr (commit_of rec (hr_height rec) raw v (chainwork_of i) # out, vb_spent_nonces v @ spent, ov, ledger))))
                (branch_loop vk verify params chainwork_of (i + 1) (reported \<or> report) branch ov ledger)))"

definition validate_branch ::
  "(bytes \<Rightarrow> 'vk option) \<Rightarrow> ('vk \<Rightarrow> bytes \<Rightarrow> bytes \<Rightarrow> bool) \<Rightarrow> Overlay \<Rightarrow> CoinbaseLedger \<Rightarrow> (HeaderRec \<times> bytes) list \<Rightarrow>
   (nat \<Rightarrow> Work) \<Rightarrow> ChainParams \<Rightarrow>
   (Condition list \<times> (Reject + CommitBlock list \<times> (Address \<times> u64) list \<times> Overlay \<times> CoinbaseLedger)) option" where
  "validate_branch vk verify ov ledger branch chainwork_of params =
     branch_loop vk verify params chainwork_of 0 False branch ov ledger"

section \<open>The ledger of the last rewards\<close>

lemma set_heights: "h \<in> set (heights a b) \<longleftrightarrow> a \<le> h \<and> h \<le> b"
proof -
  have "h \<in> set (heights a b) \<longleftrightarrow> (\<exists>n. unat a \<le> n \<and> n \<le> unat b \<and> h = word_of_nat n)"
    by (auto simp: heights_def)
  also have "\<dots> \<longleftrightarrow> unat a \<le> unat h \<and> unat h \<le> unat b"
  proof
    assume "\<exists>n. unat a \<le> n \<and> n \<le> unat b \<and> h = word_of_nat n"
    then obtain n where n: "unat a \<le> n" "n \<le> unat b" "h = word_of_nat n" by blast
    have "n < 2 ^ 64" using n(2) unsigned_less [of b, where ?'a = nat] by simp
    then show "unat a \<le> unat h \<and> unat h \<le> unat b" using n by (simp add: unat_of_nat)
  next
    assume "unat a \<le> unat h \<and> unat h \<le> unat b"
    then show "\<exists>n. unat a \<le> n \<and> n \<le> unat b \<and> h = word_of_nat n" by (intro exI [of _ "unat h"]) simp
  qed
  finally show ?thesis by (simp add: word_le_nat_alt)
qed

lemma heights_split:
  assumes "a \<le> b"
  shows "heights 0 b = map word_of_nat [0..<unat a] @ heights a b"
proof -
  have "[0..<unat b + 1] = [0..<unat a] @ [unat a..<unat b + 1]"
    using assms upt_add_eq_append [of 0 "unat a" "unat b + 1 - unat a"] by (simp add: word_le_nat_alt)
  then show ?thesis by (simp add: heights_def)
qed

lemma and_then_assoc: "and_then (and_then r f) g = and_then r (\<lambda>x. and_then (f x) g)"
  by (cases r) simp_all

lemma ledger_from_append:
  "ledger_from store (hs @ hs') l = and_then (ledger_from store hs l) (ledger_from store hs')"
  by (induction hs arbitrary: l) (auto simp: and_then_assoc split: option.splits sum.splits Tx.splits)

text \<open>The rewards of a range do not depend on the ledger they are added to, and lie in the range.\<close>

lemma ledger_from_entries:
  "\<exists>r. (\<forall>l. ledger_from store hs l = map_sum id (\<lambda>es. l\<lparr>le_entries := le_entries l @ es\<rparr>) r) \<and>
     (\<forall>es. r = Inr es \<longrightarrow> fst ` set es \<subseteq> set hs)"
proof (induction hs)
  case Nil
  show ?case by (intro exI [of _ "Inr []"]) simp
next
  case (Cons h hs)
  then obtain r where r: "\<forall>l. ledger_from store hs l = map_sum id (\<lambda>es. l\<lparr>le_entries := le_entries l @ es\<rparr>) r"
    "\<forall>es. r = Inr es \<longrightarrow> fst ` set es \<subseteq> set hs" by blast
  have skip: ?case if "\<forall>l. ledger_from store (h # hs) l = ledger_from store hs l"
    unfolding that [rule_format] using r by (meson set_subset_Cons subset_trans)
  show ?case
  proof (cases "\<exists>raw body cb. st_body_at store h = Some raw \<and> body_parse raw = Inr body \<and> body_decode_tx body 0 = Some (Inr (Coinbase cb))")
    case True
    then obtain raw body cb where b: "st_body_at store h = Some raw" "body_parse raw = Inr body"
      "body_decode_tx body 0 = Some (Inr (Coinbase cb))" by blast
    let ?r = "and_then (map_err (\<lambda>_. Reject.ArithmeticOverflow) (coinbase_credit cb)) (\<lambda>credit.
      map_sum id (\<lambda>es. (h, cb_to cb, credit) # es) r)"
    show ?thesis
    proof (intro exI [of _ ?r] conjI allI impI)
      show "ledger_from store (h # hs) l = map_sum id (\<lambda>es. l\<lparr>le_entries := le_entries l @ es\<rparr>) ?r" for l
        using r(1) by (cases "coinbase_credit cb"; cases r) (simp_all add: b ledger_push_def)
      show "?r = Inr es \<Longrightarrow> fst ` set es \<subseteq> set (h # hs)" for es
        using r(2) by (cases "coinbase_credit cb"; cases r) (auto dest: subsetD [OF _ imageI])
    qed
  next
    case False
    then show ?thesis by (intro skip) (auto split: option.splits sum.splits Tx.splits)
  qed
qed

lemma immature_drop:
  assumes "\<forall>e \<in> set es. mature (fst e) h" "le_entries l = es @ le_entries l'"
  shows "immature_at a h l = immature_at a h l'"
proof -
  have "filter (\<lambda>(k, b, _). b = a \<and> \<not> mature k h) es = []" using assms(1) by (auto simp: filter_empty_conv)
  then show ?thesis by (simp add: immature_at_def assms(2))
qed

lemma ledger_window_ok:
  assumes "ledger_from store (heights 0 at) ledger_new = Inr full"
  shows "\<exists>l. build_ledger store at = Inr l \<and> (\<forall>h \<ge> at. \<forall>a. immature_at a h l = immature_at a h full)"
proof -
  define start where "start = saturating_sub at (COINBASE_MATURITY - 1)"
  let ?old = "map word_of_nat [0..<unat start]"
  have le: "start \<le> at" by (simp add: start_def saturating_sub_def word_le_nat_alt unat_sub)
  obtain r where r: "\<And>l. ledger_from store ?old l = map_sum id (\<lambda>es. l\<lparr>le_entries := le_entries l @ es\<rparr>) r"
    "\<And>es. r = Inr es \<Longrightarrow> fst ` set es \<subseteq> set ?old" using ledger_from_entries [of store ?old] by blast
  obtain r' where r': "\<And>l. ledger_from store (heights start at) l = map_sum id (\<lambda>es. l\<lparr>le_entries := le_entries l @ es\<rparr>) r'"
    using ledger_from_entries [of store "heights start at"] by blast
  obtain es es' where e: "r = Inr es" "r' = Inr es'" "full = \<lparr>le_entries = es @ es'\<rparr>"
    using assms unfolding heights_split [OF le] ledger_from_append
    by (cases r; cases r') (auto simp: r r' ledger_new_def)
  have "mature (fst e) h" if "e \<in> set es" "at \<le> h" for e h
  proof -
    have "fst e \<in> set ?old" using r(2) [OF e(1)] that(1) by auto
    then obtain n where n: "n < unat start" "fst e = word_of_nat n" by auto
    have "unat (fst e) \<le> n" by (simp add: n(2) unat_of_nat)
    moreover have "n + 60 \<le> unat at" using n(1) by (simp add: start_def COINBASE_MATURITY_def)
    ultimately show ?thesis using that(2) by (simp add: mature_def mature_iff word_le_nat_alt)
  qed
  then have "immature_at a h full = immature_at a h \<lparr>le_entries = es'\<rparr>" if "at \<le> h" for a h
    by (intro immature_drop [of es]) (use that in \<open>simp_all add: e\<close>)
  then show ?thesis by (simp add: build_ledger_def start_def [symmetric] r' e(2) ledger_new_def)
qed

section \<open>A valid branch\<close>

lemma validate_issued:
  assumes "validate_block_body vk verify ov ledger header raw params trust = Some (Inr (v, ov', ledger'))"
  shows "vb_issued_delta v = block_reward (hd_height header)" "map un_addr (vb_undo v) = map sd_addr (vb_deltas v)"
proof -
  obtain body txs cb credit where C: "check_block vk verify header raw params trust = Inr (body, txs, cb, credit)"
    by (rule validate_Ok [OF assms])
  show "vb_issued_delta v = block_reward (hd_height header)" "map un_addr (vb_undo v) = map sd_addr (vb_deltas v)"
    using validate_checked [OF C, of ov ledger] assms by simp_all
qed

text \<open>One block of the loop.\<close>

lemma branch_loop_Ok:
  assumes "branch_loop vk verify params cw i reported ((rec, raw) # branch) ov ledger = Some (conds, Inr (commits, spent, ov', ledger'))"
  obtains hdr v ov1 l1 b conds1 commits1 spent1 where "rec_header rec = Some hdr"
    "validate_block_body vk verify ov ledger hdr raw params Untrusted = Some (Inr (v, ov1, l1))"
    "branch_loop vk verify params cw (i + 1) b branch ov1 l1 = Some (conds1, Inr (commits1, spent1, ov', ledger'))"
    "commits = commit_of rec (hr_height rec) raw v (cw i) # commits1" "spent = vb_spent_nonces v @ spent1"
proof -
  obtain hdr where h: "rec_header rec = Some hdr" using assms by (simp split: option.splits)
  obtain v ov1 l1 where v: "validate_block_body vk verify ov ledger hdr raw params Untrusted = Some (Inr (v, ov1, l1))"
    using assms by (simp add: h split: option.splits sum.splits prod.splits)
  show thesis
    using assms that [OF h v] by (auto simp: h v Let_def and_then_Ok)
qed

lemma branch_facts:
  assumes "branch_loop vk verify params cw i reported branch ov ledger = Some (conds, Inr (commits, spent, ov', ledger'))"
  shows "map (\<lambda>c. (cbk_header_raw c, cbk_height c, cbk_hash c, cbk_body c)) commits =
      map (\<lambda>(r, raw). (hr_raw r, hr_height r, hr_hash r, raw)) branch"
    "fold (\<lambda>c. write_deltas (cbk_deltas c)) commits (ov_view ov) = ov_view ov'"
    "fold (\<lambda>c. write_undo (cbk_undo c)) (rev commits) (ov_view ov') = ov_view ov"
    "total_balance (balances_of (ov_view ov')) =
      total_balance (balances_of (ov_view ov)) + sum_list (map (\<lambda>c. unat (cbk_issued_delta c)) commits)"
proof -
  have "map (\<lambda>c. (cbk_header_raw c, cbk_height c, cbk_hash c, cbk_body c)) commits =
      map (\<lambda>(r, raw). (hr_raw r, hr_height r, hr_hash r, raw)) branch \<and>
    fold (\<lambda>c. write_deltas (cbk_deltas c)) commits (ov_view ov) = ov_view ov' \<and>
    fold (\<lambda>c. write_undo (cbk_undo c)) (rev commits) (ov_view ov') = ov_view ov \<and>
    total_balance (balances_of (ov_view ov')) =
      total_balance (balances_of (ov_view ov)) + sum_list (map (\<lambda>c. unat (cbk_issued_delta c)) commits)"
    using assms
  proof (induction branch arbitrary: i reported ov ledger conds commits spent)
    case (Cons b branch)
    obtain rec raw where b: "b = (rec, raw)" by (cases b)
    obtain hdr v ov1 l1 rp conds1 commits1 spent1 where B: "rec_header rec = Some hdr"
      "validate_block_body vk verify ov ledger hdr raw params Untrusted = Some (Inr (v, ov1, l1))"
      "branch_loop vk verify params cw (i + 1) rp branch ov1 l1 = Some (conds1, Inr (commits1, spent1, ov', ledger'))"
      "commits = commit_of rec (hr_height rec) raw v (cw i) # commits1"
      by (rule branch_loop_Ok [OF Cons.prems [unfolded b]])
    have total: "total_balance (balances_of (ov_view ov1)) =
        total_balance (balances_of (ov_view ov)) + unat (vb_issued_delta v)"
      unfolding validate_issued(1) [OF B(2)]
      by (rule validate_Ok [OF B(2)], frule (1) ledger_run_facts(1)) (simp add: total_receive)
    have bk: "write_undo (vb_undo v) (ov_view ov1) = ov_view ov" "write_deltas (vb_deltas v) (ov_view ov) = ov_view ov1"
      by (rule validate_Ok [OF B(2)], assumption)+
    show ?case using Cons.IH [OF B(3)] bk total by (simp add: b B(4) commit_of_def)
  qed simp
  then show "map (\<lambda>c. (cbk_header_raw c, cbk_height c, cbk_hash c, cbk_body c)) commits =
      map (\<lambda>(r, raw). (hr_raw r, hr_height r, hr_hash r, raw)) branch"
    "fold (\<lambda>c. write_deltas (cbk_deltas c)) commits (ov_view ov) = ov_view ov'"
    "fold (\<lambda>c. write_undo (cbk_undo c)) (rev commits) (ov_view ov') = ov_view ov"
    "total_balance (balances_of (ov_view ov')) =
      total_balance (balances_of (ov_view ov)) + sum_list (map (\<lambda>c. unat (cbk_issued_delta c)) commits)"
    by simp_all
qed

lemma fold_map_id: "fold f xs s = fold id (map f xs) s"
  by (simp add: fold_map)

text \<open>Going back over undo records.\<close>

lemma undo_loop:
  assumes "\<forall>h \<in> set hs. st_undo_at store h \<noteq> None"
  shows "\<exists>ov'. for_each (\<lambda>h ov. map_option (\<lambda>recs. overlay_apply_undo recs ov) (st_undo_at store h)) hs ov = Some ov' \<and>
    ov_view ov' = fold (\<lambda>h. write_undo (the (st_undo_at store h))) hs (ov_view ov)"
  using assms
proof (induction hs arbitrary: ov)
  case (Cons h hs)
  then obtain recs where "st_undo_at store h = Some recs" by auto
  then show ?case using Cons.IH [of "overlay_apply_undo recs ov"] Cons.prems by (simp add: apply_undo_view)
qed simp

lemma rewind_window:
  assumes "\<forall>h \<in> set (heights (fork_height + 1) our_tip). st_undo_at store h \<noteq> None"
  shows "\<exists>ov'. rewind_to_fork vk verify store ov our_tip fork_height params cw =
      Some ([], map_sum id (\<lambda>l. (UndoWindow, ov', l, [])) (build_ledger store fork_height)) \<and>
    ov_view ov' = fold (\<lambda>h. write_undo (the (st_undo_at store h))) (rev (heights (fork_height + 1) our_tip)) (ov_view ov)"
proof -
  let ?hs = "rev (heights (fork_height + 1) our_tip)"
  obtain ov' where "for_each (\<lambda>h ov. map_option (\<lambda>recs. overlay_apply_undo recs ov) (st_undo_at store h)) ?hs ov = Some ov'"
    "ov_view ov' = fold (\<lambda>h. write_undo (the (st_undo_at store h))) ?hs (ov_view ov)"
    using undo_loop [of ?hs store ov] assms by auto
  moreover have "and_then r (\<lambda>l. Inr (f l)) = map_sum id f r" for r :: "Reject + CoinbaseLedger" and f :: "_ \<Rightarrow> Base \<times> Overlay \<times> CoinbaseLedger \<times> CommitBlock list"
    by (cases r) simp_all
  ultimately show ?thesis using assms by (auto simp: rewind_to_fork_def list_all_iff)
qed

lemma branch_error:
  assumes "branch_loop vk verify params cw i reported branch ov ledger = Some (conds, Inl e)"
  obtains k hdr cause c0 commits spent ov1 l1 where "k < length branch"
    "branch_loop vk verify params cw i reported (take k branch) ov ledger = Some (c0, Inr (commits, spent, ov1, l1))"
    "rec_header (fst (branch ! k)) = Some hdr"
    "validate_block_body vk verify ov1 l1 hdr (snd (branch ! k)) params Untrusted = Some (Inl cause)"
    "e = BranchInvalid (hr_height (fst (branch ! k))) (hr_hash (fst (branch ! k))) cause"
    "conds = c0 @ [BranchInvalidAt (hr_height (fst (branch ! k))) (hr_hash (fst (branch ! k)))]"
proof -
  have "\<exists>k hdr cause c0 commits spent ov1 l1. k < length branch \<and>
    branch_loop vk verify params cw i reported (take k branch) ov ledger = Some (c0, Inr (commits, spent, ov1, l1)) \<and>
    rec_header (fst (branch ! k)) = Some hdr \<and>
    validate_block_body vk verify ov1 l1 hdr (snd (branch ! k)) params Untrusted = Some (Inl cause) \<and>
    e = BranchInvalid (hr_height (fst (branch ! k))) (hr_hash (fst (branch ! k))) cause \<and>
    conds = c0 @ [BranchInvalidAt (hr_height (fst (branch ! k))) (hr_hash (fst (branch ! k)))]"
    using assms
  proof (induction branch arbitrary: i reported ov ledger conds)
    case (Cons b branch)
    obtain rec raw where b: "b = (rec, raw)" by (cases b)
    obtain hdr where h: "rec_header rec = Some hdr" using Cons.prems by (simp add: b split: option.splits)
    obtain r where r: "validate_block_body vk verify ov ledger hdr raw params Untrusted = Some r"
      using Cons.prems by (simp add: b h split: option.splits)
    show ?case
    proof (cases r)
      case (Inl cause)
      then show ?thesis using Cons.prems by (intro exI [of _ 0]) (simp add: b h r)
    next
      case (Inr y)
      obtain v ov2 l2 where y: "y = (v, ov2, l2)" by (cases y)
      let ?report = "overlay_exhausted ov2 \<and> \<not> reported"
      let ?c = "if ?report then [ReorgOverlayExhausted (overlay_len ov2)] else []"
      obtain conds1 where R: "branch_loop vk verify params cw (i + 1) (reported \<or> ?report) branch ov2 l2 = Some (conds1, Inl e)"
        "conds = ?c @ conds1"
        using Cons.prems by (auto simp: b h r Inr y Let_def and_then_Err)
      obtain k hdr' cause c0 commits spent ov1 l1 where K: "k < length branch"
        "branch_loop vk verify params cw (i + 1) (reported \<or> ?report) (take k branch) ov2 l2 = Some (c0, Inr (commits, spent, ov1, l1))"
        "rec_header (fst (branch ! k)) = Some hdr'"
        "validate_block_body vk verify ov1 l1 hdr' (snd (branch ! k)) params Untrusted = Some (Inl cause)"
        "e = BranchInvalid (hr_height (fst (branch ! k))) (hr_hash (fst (branch ! k))) cause"
        "conds1 = c0 @ [BranchInvalidAt (hr_height (fst (branch ! k))) (hr_hash (fst (branch ! k)))]"
        using Cons.IH [OF R(1)] by blast
      have "branch_loop vk verify params cw i reported (take (Suc k) (b # branch)) ov ledger =
          Some (?c @ c0, Inr (commit_of rec (hr_height rec) raw v (cw i) # commits, vb_spent_nonces v @ spent, ov1, l1))"
        using K(2) by (simp add: b h r Inr y Let_def)
      then show ?thesis using K R(2) by (intro exI [of _ "Suc k"]) auto
    qed
  qed simp
  then show thesis using that by blast
qed

section \<open>A branch of one block\<close>

definition sample_hr :: HeaderRec where
  "sample_hr = \<lparr>hr_height = 1, hr_hash = header_hash (header_encode sample_header), hr_prev_hash = replicate 32 0,
     hr_time = 60, hr_bits = 0x1F00FFFF, hr_raw = header_encode sample_header\<rparr>"

abbreviation sample_branch_run where
  "sample_branch_run \<equiv> validate_branch (\<lambda>_. None :: unit option) (\<lambda>_ _ _. False) sample_overlay ledger_new
     [(sample_hr, sample_raw)] (\<lambda>_. work_ONE) default_params"

lemma sample_hr_header: "rec_header sample_hr = Some sample_header"
proof -
  have "length (tx_root [sample_rec]) = 32" by (simp add: tx_root_def merkle_root_def root_loop.simps)
  then have "header_ok sample_header" by (simp add: header_ok_def sample_header_def)
  then have "header_decode (header_encode sample_header) = Inr sample_header" by (intro header.dec_enc [OF _ refl])
  then show ?thesis by (simp add: rec_header_def sample_hr_def)
qed

lemma sample_branch_valid:
  obtains conds c spent ov' ledger' where "sample_branch_run = Some (conds, Inr ([c], spent, ov', ledger'))"
    "ac_balance (ov_view ov' sample_to) = 200000" "cbk_issued_delta c = 200000" "cbk_height c = 1"
proof -
  obtain v ov' ledger' where V: "sample_validation = Some (Inr (v, ov', ledger'))"
    "balances_of (ov_view ov') = receive sample_to (unat (block_reward (hd_height sample_header))) (balances_of (ov_view sample_overlay))"
    by (rule sample_paid)
  have r: "block_reward (hd_height sample_header) = 200000" by (simp add: sample_header_def block_reward_def subsidy_def BLOCK_SUBSIDY_def)
  have "unat (ac_balance (ov_view ov' sample_to)) = 200000"
    using arg_cong [OF V(2), of "\<lambda>s. bal s sample_to"] by (simp add: r receive_def balances_of_def sample_view)
  then have "ac_balance (ov_view ov' sample_to) = 200000" by (simp add: word_unat_eq_iff)
  moreover have "vb_issued_delta v = 200000" using validate_issued(1) V(1) r by (metis sample_validation_def)
  moreover note V(1)
  ultimately show thesis
    using that by (simp add: validate_branch_def sample_hr_header sample_validation_def Let_def commit_of_def sample_hr_def [THEN arg_cong [where f = hr_height]])
qed

lemma sample_body:
  obtains body where "body_parse sample_raw = Inr body"
    "body_decode_tx body 0 = Some (Inr (Coinbase (coinbase_for 1 sample_to sample_note)))"
proof -
  have "coinbase_ok (coinbase_for 1 sample_to sample_note)"
    by (simp add: coinbase_ok_def coinbase_for_def sample_to_def sample_note_def)
  then have dec: "decode_tx sample_rec = Inr (Coinbase (coinbase_for 1 sample_to sample_note))"
    by (intro tx.dec_enc) (simp_all add: sample_rec)
  then have "sample_rec \<noteq> []" by (auto simp: decode_tx_def)
  moreover have "length sample_rec = 65"
    using coinbase_for_length [OF sample_rec] by (simp add: sample_to_def sample_note_def)
  ultimately have "body_encode [sample_rec] = Inr sample_raw"
    by (auto simp: sample_raw_def body_encode_def)
  then have "map_sum id body_txs (body_parse sample_raw) = Inr [sample_rec]" by (intro body.dec_enc) simp_all
  then obtain body where b: "body_parse sample_raw = Inr body" "body_txs body = [sample_rec]"
    by (cases "body_parse sample_raw") auto
  have "body_len body = 1" using arg_cong [OF b(2), of length] by (simp add: body_txs_def)
  then have "tx_bytes body 0 = Some sample_rec" using b(2) by (simp add: body_txs_def tx_bytes_def body_len_def split: prod.splits)
  then show thesis using that b(1) dec by (simp add: body_decode_tx_def)
qed

lemma sample_credit: "coinbase_credit (coinbase_for 1 sample_to sample_note) = Inr 200000"
  by (simp add: coinbase_credit_Ok coinbase_for_def block_reward_def subsidy_def BLOCK_SUBSIDY_def)

section \<open>What a reorganisation does to the accounts\<close>

text \<open>C9: Rewinding is exact: when the store holds the undo records that the validation of a branch
  produced, a rewind from its tip to its base, on any overlay that shows the accounts at the tip, brings
  back every account as it was at the base, without a snapshot and without a condition.\<close>

theorem rewind_restores_base:
  assumes "validate_branch vk verify ov ledger branch cw params = Some (conds, Inr (commits, spent, ov', ledger'))"
    and "map (st_undo_at store) (heights (fork_height + 1) our_tip) = map (\<lambda>c. Some (cbk_undo c)) commits"
    and "ov_view ov2 = ov_view ov'"
  shows "\<exists>ov3. rewind_to_fork vk verify store ov2 our_tip fork_height params cw' =
      Some ([], map_sum id (\<lambda>l. (UndoWindow, ov3, l, [])) (build_ledger store fork_height)) \<and> ov_view ov3 = ov_view ov"
proof -
  let ?hs = "heights (fork_height + 1) our_tip"
  have "Some ` cbk_undo ` set commits = st_undo_at store ` set ?hs"
    using arg_cong [OF assms(2), of set] by (simp add: image_image)
  then have "\<forall>h \<in> set ?hs. st_undo_at store h \<noteq> None" by (metis imageE imageI option.distinct(1))
  then obtain ov3 where "rewind_to_fork vk verify store ov2 our_tip fork_height params cw' =
      Some ([], map_sum id (\<lambda>l. (UndoWindow, ov3, l, [])) (build_ledger store fork_height))"
    "ov_view ov3 = fold (\<lambda>h. write_undo (the (st_undo_at store h))) (rev ?hs) (ov_view ov2)"
    using rewind_window by blast
  moreover have "fold (\<lambda>h. write_undo (the (st_undo_at store h))) (rev ?hs) f =
      fold (\<lambda>c. write_undo (cbk_undo c)) (rev commits) f" for f
  proof -
    have "map (\<lambda>h. write_undo (the (st_undo_at store h))) ?hs = map (\<lambda>c. write_undo (cbk_undo c)) commits"
      using arg_cong [OF assms(2), of "map (\<lambda>x. write_undo (the x))"] by (simp add: comp_def)
    then show ?thesis by (metis (no_types, lifting) fold_map_id rev_map)
  qed
  moreover have "fold (\<lambda>c. write_undo (cbk_undo c)) (rev commits) (ov_view ov') = ov_view ov"
    using branch_facts(3) assms(1) unfolding validate_branch_def by blast
  ultimately show ?thesis using assms(3) by auto
qed

theorem rewind_restores_base_witness:
  "\<exists>store ov2 ov3. rewind_to_fork (\<lambda>_. None :: unit option) (\<lambda>_ _ _. False) store ov2 1 0 default_params (\<lambda>_. work_ONE) =
      Some ([], Inr (UndoWindow, ov3, ledger_new, [])) \<and>
    ac_balance (ov_view ov2 sample_to) = 200000 \<and> ac_balance (ov_view ov3 sample_to) = 0"
proof -
  obtain conds c spent ov' ledger' where B: "sample_branch_run = Some (conds, Inr ([c], spent, ov', ledger'))"
    "ac_balance (ov_view ov' sample_to) = 200000" by (rule sample_branch_valid)
  let ?store = "sample_store\<lparr>st_undo_at := \<lambda>h. if h = 1 then Some (cbk_undo c) else None\<rparr>"
  have "map (st_undo_at ?store) (heights (0 + 1) 1) = map (\<lambda>c. Some (cbk_undo c)) [c]" by (simp add: heights_def)
  then obtain ov3 where "rewind_to_fork (\<lambda>_. None :: unit option) (\<lambda>_ _ _. False) ?store ov' 1 0 default_params (\<lambda>_. work_ONE) =
      Some ([], map_sum id (\<lambda>l. (UndoWindow, ov3, l, [])) (build_ledger ?store 0))" "ov_view ov3 = ov_view sample_overlay"
    using rewind_restores_base [OF B(1) _ refl] by blast
  moreover have "build_ledger ?store 0 = Inr ledger_new"
    by (simp add: build_ledger_def heights_def saturating_sub_def sample_store_def)
  ultimately show ?thesis
    using B(2) by (intro exI [of _ ?store] exI [of _ ov'] exI [of _ ov3]) (simp add: sample_view)
qed

text \<open>C11: Storage can follow: writing the deltas of a validated branch one block after the other turns
  the accounts at its base into those at its tip, the blocks committed are those of the branch in their
  order, and the sum of all balances grows by the issue the commits report, which is the subsidy.\<close>

theorem branch_commits_replay:
  assumes "validate_branch vk verify ov ledger branch cw params = Some (conds, Inr (commits, spent, ov', ledger'))"
  shows "map (\<lambda>c. (cbk_header_raw c, cbk_height c, cbk_hash c, cbk_body c)) commits =
      map (\<lambda>(r, raw). (hr_raw r, hr_height r, hr_hash r, raw)) branch \<and>
    fold (\<lambda>c. write_deltas (cbk_deltas c)) commits (ov_view ov) = ov_view ov' \<and>
    total_balance (balances_of (ov_view ov')) =
      total_balance (balances_of (ov_view ov)) + sum_list (map (\<lambda>c. unat (cbk_issued_delta c)) commits)"
  using branch_facts [OF assms [unfolded validate_branch_def]] by blast

theorem branch_commits_replay_witness:
  "\<exists>conds c spent ov' ledger'. sample_branch_run = Some (conds, Inr ([c], spent, ov', ledger')) \<and>
    write_deltas (cbk_deltas c) (ov_view sample_overlay) = ov_view ov' \<and> cbk_height c = 1 \<and>
    total_balance (balances_of (ov_view ov')) = total_balance (balances_of (ov_view sample_overlay)) + 200000"
proof -
  obtain conds c spent ov' ledger' where B: "sample_branch_run = Some (conds, Inr ([c], spent, ov', ledger'))"
    "cbk_issued_delta c = 200000" "cbk_height c = 1" by (rule sample_branch_valid)
  from branch_commits_replay [OF B(1)] B show ?thesis by auto
qed

text \<open>C13: A refused branch is refused at its first bad block: the error names its height and its hash,
  the observer is told of the same block last, every block before it validates, and the block itself
  fails on the accounts these leave.\<close>

theorem branch_error_located:
  assumes "validate_branch vk verify ov ledger branch cw params = Some (conds, Inl e)"
  shows "\<exists>k hdr cause c0 commits spent ov1 l1. k < length branch \<and>
    validate_branch vk verify ov ledger (take k branch) cw params = Some (c0, Inr (commits, spent, ov1, l1)) \<and>
    rec_header (fst (branch ! k)) = Some hdr \<and>
    validate_block_body vk verify ov1 l1 hdr (snd (branch ! k)) params Untrusted = Some (Inl cause) \<and>
    e = BranchInvalid (hr_height (fst (branch ! k))) (hr_hash (fst (branch ! k))) cause \<and>
    conds = c0 @ [BranchInvalidAt (hr_height (fst (branch ! k))) (hr_hash (fst (branch ! k)))]"
  unfolding validate_branch_def by (rule branch_error [OF assms [unfolded validate_branch_def]]) blast

theorem branch_error_located_witness:
  "\<exists>conds cause. validate_branch (\<lambda>_. None :: unit option) (\<lambda>_ _ _. False) sample_overlay ledger_new
      [(sample_hr, [])] (\<lambda>_. work_ONE) default_params = Some (conds, Inl (BranchInvalid 1 (hr_hash sample_hr) cause)) \<and>
    conds = [BranchInvalidAt 1 (hr_hash sample_hr)]"
proof -
  have "body_parse [] = Inl (Truncated 4 0)" by (simp add: body_parse_def)
  then have "validate_branch (\<lambda>_. None :: unit option) (\<lambda>_ _ _. False) sample_overlay ledger_new
      [(sample_hr, [])] (\<lambda>_. work_ONE) default_params = Some ([BranchInvalidAt 1 (hr_hash sample_hr)],
        Inl (BranchInvalid 1 (hr_hash sample_hr) (Reject.BodyStructure ''body envelope'')))"
    by (simp add: validate_branch_def sample_hr_header validate_block_body_def check_block_def
        sample_hr_def [THEN arg_cong [where f = hr_height]])
  note e = this
  from branch_error_located [OF e] show ?thesis using e by auto
qed

text \<open>C12: The window of the last sixty blocks is enough: the ledger rebuilt at a height locks, for every
  address and at every later height, exactly what the ledger of all rewards since genesis locks.\<close>

theorem ledger_window:
  assumes "ledger_from store (heights 0 at) ledger_new = Inr full"
  shows "\<exists>l. build_ledger store at = Inr l \<and> (\<forall>h \<ge> at. \<forall>a. immature_at a h l = immature_at a h full)"
  using assms by (rule ledger_window_ok)

theorem ledger_window_witness:
  "\<exists>store full l. ledger_from store (heights 0 1) ledger_new = Inr full \<and> build_ledger store 1 = Inr l \<and>
    le_entries full = [(1, sample_to, 200000)] \<and> immature_at sample_to 60 l = immature_at sample_to 60 full"
proof -
  let ?store = "sample_store\<lparr>st_body_at := \<lambda>h. if h = 1 then Some sample_raw else None\<rparr>"
  obtain body where b: "body_parse sample_raw = Inr body"
    "body_decode_tx body 0 = Some (Inr (Coinbase (coinbase_for 1 sample_to sample_note)))" by (rule sample_body)
  have f: "ledger_from ?store (heights 0 1) ledger_new = Inr \<lparr>le_entries = [(1, sample_to, 200000)]\<rparr>"
    using b sample_credit by (simp add: heights_def upt_rec sample_store_def ledger_push_def ledger_new_def coinbase_for_def)
  obtain l where "build_ledger ?store 1 = Inr l"
    "\<forall>h \<ge> 1. \<forall>a. immature_at a h l = immature_at a h \<lparr>le_entries = [(1, sample_to, 200000)]\<rparr>"
    using ledger_window [OF f] by blast
  moreover have "(1 :: u64) \<le> 60" by (simp add: word_le_nat_alt)
  ultimately show ?thesis using f by fastforce
qed

section \<open>Replay above a sparse snapshot\<close>

text \<open>
  \<open>seed\<close> replaces the cache, but an address that is not among the rows of the snapshot is still read
  from the store, that is from the old tip. Here the only block pays \<open>sample_to\<close>, the snapshot of
  genesis has no rows, and the replay pays the address a second time. A store that lists every address
  in its snapshot, or offers none as the node's does, is not affected.
\<close>

lemma deep_replay_pays_twice:
  obtains store conds ov' ledger out where "st_account store sample_to = \<lparr>ac_balance = 200000, ac_nonce = 0\<rparr>"
    "rewind_to_fork (\<lambda>_. None :: unit option) (\<lambda>_ _ _. False) store (overlay_new store 10) 2 1 default_params
      (\<lambda>_. work_ONE) = Some (conds, Inr (Base.DeepReplay 0, ov', ledger, out))"
    "ac_balance (ov_view ov' sample_to) = 400000"
proof -
  let ?paid = "\<lambda>a. if a = sample_to then \<lparr>ac_balance = 200000, ac_nonce = 0\<rparr> else \<lparr>ac_balance = 0, ac_nonce = 0\<rparr>"
  let ?store = "sample_store\<lparr>st_account := ?paid, st_body_at := \<lambda>h. if h = 1 then Some sample_raw else None,
    st_header_at := \<lambda>h. if h = 1 then Some sample_hr else None, st_checkpoint_at_or_below := \<lambda>_. Some 0,
    st_state_snapshot := \<lambda>_. Some []\<rparr>"
  let ?ov = "overlay_seed [] (overlay_new ?store 10)"
  have view: "ov_view ?ov = ?paid" by (simp add: fun_eq_iff ov_view_def overlay_seed_def overlay_new_def)
  have r: "block_reward (hd_height sample_header) = 200000"
    by (simp add: sample_header_def block_reward_def subsidy_def BLOCK_SUBSIDY_def)
  have h: "length sample_to = 20" "length (note_payload sample_note) \<le> 256"
    "unat (hd_author_note_len sample_header) = length (note_payload sample_note)"
    "coinbase_encode (coinbase_for (hd_height sample_header) sample_to sample_note) = Inr sample_rec"
    "hd_tx_root sample_header = tx_root [sample_rec]"
    using sample_rec by (simp_all add: sample_to_def sample_note_def sample_header_def)
  have "unat (ac_balance (ov_view ?ov sample_to)) + unat (block_reward (hd_height sample_header)) < 2 ^ 128"
    unfolding view r by simp
  from coinbase_block_valid [OF h this] obtain raw v ov' ledger' where V: "body_encode [sample_rec] = Inr raw"
    "validate_block_body (\<lambda>_. None :: unit option) (\<lambda>_ _ _. False) ?ov ledger_new sample_header raw default_params OurStore =
      Some (Inr (v, ov', ledger'))"
    "balances_of (ov_view ov') = receive sample_to (unat (block_reward (hd_height sample_header))) (balances_of (ov_view ?ov))"
    by blast
  have raw: "raw = sample_raw" using V(1) by (simp add: sample_raw_def)
  have "unat (ac_balance (ov_view ov' sample_to)) = 400000"
    using arg_cong [OF V(3), of "\<lambda>s. bal s sample_to"] by (simp add: r receive_def balances_of_def view)
  then have bal: "ac_balance (ov_view ov' sample_to) = 400000" by (simp add: word_unat_eq_iff)
  have hs: "heights 2 2 = [2]" "heights 1 1 = [1]" by (simp_all add: heights_def)
  obtain body where b: "body_parse sample_raw = Inr body"
    "body_decode_tx body 0 = Some (Inr (Coinbase (coinbase_for 1 sample_to sample_note)))" by (rule sample_body)
  obtain l where l: "build_ledger ?store 1 = Inr l"
    using b by (auto simp: build_ledger_def saturating_sub_def heights_def upt_rec sample_store_def COINBASE_MATURITY_def word_le_nat_alt
        sample_credit)
  have "rewind_to_fork (\<lambda>_. None :: unit option) (\<lambda>_ _ _. False) ?store (overlay_new ?store 10) 2 1 default_params (\<lambda>_. work_ONE) =
      Some ([Condition.DeepReplay 0 1 1], Inr (Base.DeepReplay 0, ov', l, [commit_of sample_hr 1 sample_raw v work_ONE]))"
    using V(2) l by (simp add: rewind_to_fork_def hs sample_store_def sample_hr_header raw)
  then show thesis using bal by (intro that [of ?store]) simp_all
qed

end
