(* ===== verification/Gates.thy ===== *)
theory Gates imports Errors begin

text \<open>
  \<open>lib/chain/src/gates.rs\<close>: the gates a header passes before any proof of work is computed. The
  panic of \<open>median_time_past\<close> on an empty window is \<open>None\<close>; the \<open>debug_assert!\<close> is not modelled.
\<close>

definition s1_fixed_fields :: "bytes \<Rightarrow> Target \<Rightarrow> Reject + Header" where
  "s1_fixed_fields raw pow_limit =
     (if length raw \<noteq> HEADER_BYTES then Inl (Reject.BadHeaderLength (length raw))
      else and_then (map_err (\<lambda>_. Reject.BadHeaderLength (length raw)) (header_decode raw)) (\<lambda>h.
      if hd_ext_root h \<noteq> replicate 32 0 then Inl Reject.ExtRootNotZero
      else if unat (hd_author_note_len h) > AUTHOR_NOTE_MAX_BYTES then Inl (Reject.AuthorNoteLen (hd_author_note_len h))
      else if hd_version h AND 0xE0000000 \<noteq> VERSION_BASE then Inl (Reject.BadVersion (hd_version h))
      else if expand_bits (hd_bits h) pow_limit = None then Inl (Reject.BadBits (hd_bits h))
      else Inr h))"

definition s1b_checkpoint :: "(u64 \<times> Hash32) list \<Rightarrow> u64 \<Rightarrow> Hash32 \<Rightarrow> Reject + unit" where
  "s1b_checkpoint checkpoints height hash =
     map_err (\<lambda>_. Reject.CheckpointMismatch height) (check_block_checkpoint checkpoints height hash)"

definition s2_height :: "u64 \<Rightarrow> u64 \<Rightarrow> Reject + unit" where
  "s2_height child_height parent_height =
     (let expected = saturating_add parent_height 1 in
      if child_height \<noteq> expected then Inl (Reject.HeightNotParentPlusOne child_height expected) else Inr ())"

definition s3_bits :: "u32 \<Rightarrow> u32 \<Rightarrow> Reject + unit" where
  "s3_bits got expected = (if got \<noteq> expected then Inl (Reject.BitsNotAsert got expected) else Inr ())"

definition s4_time :: "u64 list \<Rightarrow> u64 \<Rightarrow> u64 \<Rightarrow> (Reject + unit) option" where
  "s4_time ancestor_times time now = do {
     mtp \<leftarrow> median_time_past ancestor_times;
     Some (map_err (\<lambda>e. case e of
         RuleError.TimestampTooOld mtp time \<Rightarrow> Reject.TimestampTooOld mtp time
       | _ \<Rightarrow> Reject.TimestampTooFarInFuture time (saturating_add now MAX_FUTURE_DRIFT_SECS))
       (check_block_time mtp time now))
   }"

datatype AnchorReach = NotReached | Matches | Contradicts

definition s5_fork_depth :: "TipRef \<Rightarrow> u64 \<Rightarrow> Anchor option \<Rightarrow> AnchorReach \<Rightarrow> ChainParams \<Rightarrow> Reject + unit" where
  "s5_fork_depth tip branch_base_height anchor reach params =
     (let cap = pm_max_reorg_depth params in
      if cap = 0 then Inr ()
      else let depth = saturating_sub (tip_height tip) branch_base_height in
      if depth \<le> cap then Inr ()
      else let exempt = anchor \<noteq> None \<and> reach \<noteq> Contradicts in
      if exempt then Inr () else Inl (Reject.ForkTooDeep depth cap))"

definition s6_claimed_work :: "Work \<Rightarrow> Hash32 \<Rightarrow> u64 \<Rightarrow> u64 \<Rightarrow> TipRef \<Rightarrow> Reject + unit" where
  "s6_claimed_work cand_work cand_tip_hash cand_tip_height depth tip =
     (if tip_chainwork tip < cand_work then Inr ()
      else if cand_work = tip_chainwork tip \<and> depth = 1 \<and> cand_tip_height = tip_height tip \<and> cand_tip_hash < tip_hash tip
      then Inr ()
      else Inl Reject.InsufficientClaimedWork)"

section \<open>What passes a gate\<close>

lemma s1_Ok:
  "s1_fixed_fields raw pow_limit = Inr h \<longleftrightarrow> header_decode raw = Inr h \<and> hd_ext_root h = replicate 32 0 \<and>
     unat (hd_author_note_len h) \<le> 256 \<and> hd_version h AND 0xE0000000 = VERSION_BASE \<and>
     (\<exists>t. expand_bits (hd_bits h) pow_limit = Some t)"
proof -
  have "header_decode raw = Inr h \<Longrightarrow> length raw = HEADER_BYTES"
    by (auto simp: header_decode_def require_exact_def and_then_Ok split: if_splits)
  then show ?thesis
    by (cases "header_decode raw") (auto simp: s1_fixed_fields_def not_less split: if_splits)
qed

lemma s2_Ok:
  "s2_height c p = Inr () \<longleftrightarrow> unat c = min (unat p + 1) (2 ^ 64 - 1)"
  by (simp add: s2_height_def Let_def word_unat_eq_iff unat_saturating_add del: word_unat_eq_iff [symmetric])

lemma s3_Ok: "s3_bits got expected = Inr () \<longleftrightarrow> got = expected"
  by (simp add: s3_bits_def)

lemma s4_Ok:
  "s4_time ts time now = Some (Inr ()) \<longleftrightarrow> (\<exists>mtp. median_time_past ts = Some mtp \<and> check_block_time mtp time now = Inr ())"
  by (cases "median_time_past ts") (simp_all add: s4_time_def map_err_Ok)

lemma s5_Ok:
  "s5_fork_depth tip base anchor reach params = Inr () \<longleftrightarrow>
     pm_max_reorg_depth params = 0 \<or> unat (tip_height tip) \<le> unat base + unat (pm_max_reorg_depth params) \<or>
     anchor \<noteq> None \<and> reach \<noteq> Contradicts"
  by (auto simp: s5_fork_depth_def Let_def word_le_nat_alt)

text \<open>The claimed-work gate asks of a claimed branch what the reorganisation rule asks of the tips.\<close>

lemma s6_Ok:
  "s6_claimed_work w x h depth tip = Inr () \<longleftrightarrow> tip_chainwork tip < w \<or>
     tie_break_prefers_candidate depth w (tip_chainwork tip)
       \<lparr>hi_height = h, hi_hash = x, hi_time = t, hi_target = g\<rparr>
       \<lparr>hi_height = tip_height tip, hi_hash = tip_hash tip, hi_time = t', hi_target = g'\<rparr>"
  by (auto simp: s6_claimed_work_def tie_break_prefers_candidate_def)

text \<open>Permanent verdicts are those no clock, tip or neighbour can change.\<close>

lemma gate_permanence:
  "s1_fixed_fields raw l = Inl e \<Longrightarrow> permanence e = Permanent"
  "s1b_checkpoint cps h x = Inl e \<Longrightarrow> permanence e = Permanent"
  "s2_height c p = Inl e \<Longrightarrow> permanence e = Permanent"
  "s3_bits g b = Inl e \<Longrightarrow> permanence e = Permanent"
  "s5_fork_depth tip base a r ps = Inl e \<Longrightarrow> permanence e = Transient"
  "s6_claimed_work w x h d tip = Inl e \<Longrightarrow> permanence e = Transient"
  by (auto simp: s1_fixed_fields_def s1b_checkpoint_def s2_height_def s3_bits_def s5_fork_depth_def s6_claimed_work_def
      permanence_def Let_def and_then_Err map_err_Err split: if_splits)

end
