(* ===== verification/Checkpoints.thy ===== *)
theory Checkpoints imports Errors ForkChoice "HOL-Library.Product_Lexorder" begin

text \<open>
  \<open>lib/chain/src/checkpoints.rs\<close>: the checkpoints a node enforces and the recovery anchor, a signed
  checkpoint that only moves forward. Conditions handed to the observer are returned as a list.
  \<open>sort_unstable\<close> on pairs of a height and a hash sorts lexicographically.
\<close>

datatype CheckpointOutcome = Unverified | GenesisImmutable | NotHeldYet | Admitted | StoredAsAnchor | AnchorNotSuperseded

record CheckpointReport =
  cr_outcome :: CheckpointOutcome
  cr_anchor_advanced :: bool

record Checkpoints =
  ck_enforced :: "(u64 \<times> Hash32) list"
  ck_anchor :: "Anchor option"
  ck_anchor_record :: "SignedCheckpoint option"

definition checkpoints_new :: Checkpoints where
  "checkpoints_new = \<lparr>ck_enforced = [], ck_anchor = None, ck_anchor_record = None\<rparr>"

definition install_anchor :: "SignedCheckpoint \<Rightarrow> Checkpoints \<Rightarrow> bool \<times> Checkpoints" where
  "install_anchor cp c =
     (let cand = \<lparr>an_height = cp_height cp, an_hash = cp_hash cp\<rparr> in
      if anchor_supersedes (ck_anchor c) cand
      then (True, c\<lparr>ck_anchor := Some cand, ck_anchor_record := Some cp\<rparr>)
      else (False, c))"

definition load_anchor ::
  "(bytes \<Rightarrow> 'vk option) \<Rightarrow> ('vk \<Rightarrow> bytes \<Rightarrow> bytes \<Rightarrow> bool) \<Rightarrow> SignedCheckpoint \<Rightarrow> ChainParams \<Rightarrow> Checkpoints \<Rightarrow>
   bool \<times> Checkpoints" where
  "load_anchor vk verify cp params c =
     (if \<not> verify_checkpoint vk verify cp (pm_authority_keys params) (pm_checkpoint_threshold params) then (False, c)
      else install_anchor cp c)"

definition submit_checkpoint ::
  "(bytes \<Rightarrow> 'vk option) \<Rightarrow> ('vk \<Rightarrow> bytes \<Rightarrow> bytes \<Rightarrow> bool) \<Rightarrow> SignedCheckpoint \<Rightarrow> ChainView \<Rightarrow> ChainParams \<Rightarrow>
   Checkpoints \<Rightarrow> (CheckpointReport \<times> Condition list \<times> Checkpoints) option" where
  "submit_checkpoint vk verify cp view params c =
     (let report = (\<lambda>outcome advanced. \<lparr>cr_outcome = outcome, cr_anchor_advanced = advanced\<rparr>) in
      if \<not> verify_checkpoint vk verify cp (pm_authority_keys params) (pm_checkpoint_threshold params)
      then Some (report Unverified False, [], c)
      else (case checkpoint_admission view (cp_height cp) (cp_hash cp) of
          None \<Rightarrow> None
        | Some CheckpointAdmission.GenesisImmutable \<Rightarrow> Some (report CheckpointOutcome.GenesisImmutable False, [], c)
        | Some CheckpointAdmission.NotHeldYet \<Rightarrow>
            let (advanced, c) = install_anchor cp c
            in Some (if advanced then report CheckpointOutcome.NotHeldYet True else report AnchorNotSuperseded False, [], c)
        | Some Admit \<Rightarrow>
            let c = (if \<not> list_ex (\<lambda>(h, _). h = cp_height cp) (ck_enforced c)
                     then c\<lparr>ck_enforced := sort (ck_enforced c @ [(cp_height cp, cp_hash cp)])\<rparr> else c);
                (advanced, c) = install_anchor cp c
            in Some (report Admitted advanced, [], c)
        | Some HashConflict \<Rightarrow>
            let (advanced, c) = install_anchor cp c
            in Some (if advanced then report StoredAsAnchor True else report AnchorNotSuperseded False,
                     [AnchorContradiction (cp_height cp) (cp_hash cp)], c)))"

section \<open>The anchor moves forward\<close>

text \<open>The anchor never goes back and never changes at a height; an anchor is stored with the record
  that carries it.\<close>

definition anchor_le :: "Anchor option \<Rightarrow> Anchor option \<Rightarrow> bool" where
  "anchor_le a b \<longleftrightarrow> a = b \<or> (\<exists>y. b = Some y \<and> an_height y \<noteq> 0 \<and> an_hash y \<noteq> ZERO_HASH \<and>
     (\<forall>x. a = Some x \<longrightarrow> an_height x < an_height y))"

lemma anchor_le_refl [simp]: "anchor_le a a"
  by (simp add: anchor_le_def)

lemma anchor_le_trans: "anchor_le a b \<Longrightarrow> anchor_le b c \<Longrightarrow> anchor_le a c"
  by (auto simp: anchor_le_def)

definition enforced_ok :: "(u64 \<times> Hash32) list \<Rightarrow> bool" where
  "enforced_ok cps \<longleftrightarrow> distinct (map fst cps) \<and> sorted (map fst cps)"

lemma sorted_fst: "sorted xs \<Longrightarrow> sorted (map fst xs)"
  by (induction xs) (auto simp: less_eq_prod_def less_le)

lemma sort_enforced_ok: "distinct (map fst xs) \<Longrightarrow> enforced_ok (sort xs)"
  by (simp add: enforced_ok_def sorted_fst distinct_map inj_on_def)

lemma install_anchor_facts:
  assumes "install_anchor cp c = (b, c')"
  shows "anchor_le (ck_anchor c) (ck_anchor c')" "ck_enforced c' = ck_enforced c"
    "b \<longleftrightarrow> ck_anchor c' \<noteq> ck_anchor c"
  using assms
  by (auto simp: install_anchor_def Let_def anchor_supersedes_def anchor_le_def split: if_splits option.splits)

end
