(* ===== verification/Manager.thy ===== *)
theory Manager imports Gates Checkpoints begin

text \<open>
  The part of \<open>lib/chain/src/manager.rs\<close> that decides which chain is canonical: the candidate of a
  plan, the verdict of the consensus rules on it with the enforced checkpoints and the anchor, and the
  move of the arena to it; and the life of an arena with its checkpoints as a step relation.
  Conditions for the observer are returned as a list.
\<close>

text \<open>\<open>map\<close> and \<open>collect\<close> over the indices: the first error stops it, an index out of range panics.\<close>

fun candidate_infos :: "HeaderIndex \<Rightarrow> Target \<Rightarrow> u32 list \<Rightarrow> (Reject + HeaderInfo list) option" where
  "candidate_infos ix pow_limit [] = Some (Inr [])"
| "candidate_infos ix pow_limit (i # is) =
     (case node ix i of
        None \<Rightarrow> None
      | Some n \<Rightarrow>
          and_thenp (Some (ok_or (Reject.BadBits (nd_bits n)) (expand_bits (nd_bits n) pow_limit))) (\<lambda>t.
          and_thenp (candidate_infos ix pow_limit is) (\<lambda>infos.
          Some (Inr (\<lparr>hi_height = nd_height n, hi_hash = nd_hash n, hi_time = nd_time n,
            hi_target = target_to_be t\<rparr> # infos)))))"

definition judge_plan ::
  "HeaderIndex \<Rightarrow> Checkpoints \<Rightarrow> ChainParams \<Rightarrow> u64 \<Rightarrow> Plan \<Rightarrow> ((Reject + ReorgVerdict) \<times> Condition list) option" where
  "judge_plan ix cps params now plan =
     (case index_tip_height ix of
        None \<Rightarrow> None
      | Some our_tip \<Rightarrow>
        (case candidate_infos ix (pm_pow_limit params) (pl_apply plan) of
           None \<Rightarrow> None
         | Some (Inl e) \<Rightarrow> Some (Inl e, [])
         | Some (Inr candidate) \<Rightarrow>
             map_option (\<lambda>verdict. case verdict of
                 Inl e \<Rightarrow> (Inl (Rule e),
                   case e of
                     ReorgTooDeep depth _ \<Rightarrow> [ReorgTooDeepRefused our_tip
                       (if candidate = [] then 0 else hi_height (last candidate)) depth (pl_fork_height plan)]
                   | _ \<Rightarrow> [])
               | Inr v \<Rightarrow> (Inr v, []))
               (evaluate_reorg_with_cap (arena_view ix (pm_pow_limit params)) (pl_fork_height plan + 1) candidate
                  \<lparr>rp_anchor = ck_anchor cps, rp_checkpoints = ck_enforced cps, rp_local_time = now\<rparr>
                  (pm_max_reorg_depth params))))"

definition adopt_chain :: "HeaderIndex \<Rightarrow> u32 \<Rightarrow> HeaderIndex option" where
  "adopt_chain ix best = do {
     chain \<leftarrow> ancestry ix best;
     set_canonical ix chain
   }"

text \<open>\<open>skip\<close> is sorted; \<open>binary_search\<close> finds the index or the place to insert it.\<close>

fun skip_insert :: "u32 \<Rightarrow> u32 list \<Rightarrow> u32 list" where
  "skip_insert i [] = [i]"
| "skip_insert i (j # js) = (if i = j then j # js else if i < j then i # j # js else j # skip_insert i js)"

lemma skip_insert_sorted: "sorted_wrt (<) js \<Longrightarrow> sorted_wrt (<) (skip_insert i js) \<and> set (skip_insert i js) = insert i (set js)"
  by (induction js) (auto dest: less_trans)

section \<open>The candidate of a plan\<close>

lemma candidate_infos_Ok:
  assumes "works_ok limit (hx_nodes ix)" "\<forall>i \<in> set is. unat i < length (hx_nodes ix)"
  shows "candidate_infos ix limit is = Some (Inr (map (\<lambda>i. info_of limit (hx_nodes ix ! unat i)) is))"
  using assms(2)
proof (induction "is")
  case (Cons i "is")
  then have i: "unat i < length (hx_nodes ix)" by simp
  obtain t where "expand_bits (nd_bits (hx_nodes ix ! unat i)) limit = Some t"
    using assms(1) i by (auto simp: works_ok_def)
  then show ?case using Cons i by (simp add: info_of_def target_of_def or_default_def)
qed simp

text \<open>
  A plan towards a head: the candidate, the arena \<open>ix'\<close> after its adoption, whose chain is the old one
  cut at the fork and continued with the candidate, and the numbers the rules compute of it.
\<close>

definition planned :: "HeaderIndex \<Rightarrow> Target \<Rightarrow> u32 \<Rightarrow> Plan \<Rightarrow> HeaderInfo list \<Rightarrow> HeaderIndex \<Rightarrow> bool" where
  "planned ix limit best p cand ix' \<longleftrightarrow> arena_inv ix limit \<and>
     candidate_infos ix limit (pl_apply p) = Some (Inr cand) \<and>
     adopt_chain ix best = Some ix' \<and> arena_inv ix' limit \<and>
     arena_chain ix' limit = take (unat (pl_fork_height p + 1)) (arena_chain ix limit) @ cand \<and>
     (cand \<noteq> [] \<longrightarrow> placed (arena_chain ix limit) (pl_fork_height p + 1) cand) \<and>
     (\<forall>x \<in> set cand. length (hi_target x) = 32) \<and> length cand < 2 ^ 63 \<and>
     unat (pl_depth p) = length (arena_chain ix limit) - unat (pl_fork_height p + 1) \<and>
     length (hx_nodes ix') = length (hx_nodes ix) \<and> tip_index ix' = Some best \<and>
     unat (pl_fork_height p + 1) \<le> length (arena_chain ix limit) \<and> index_tip_height ix \<noteq> None \<and>
     map nd_cum_work (hx_nodes ix') = map nd_cum_work (hx_nodes ix) \<and>
     map unat (pl_rollback p) = rev [unat (pl_fork_height p + 1)..<length (arena_chain ix limit)]"

lemma plan_candidate:
  assumes "arena_inv ix limit" "unat best < length (hx_nodes ix)" "plan_reorg ix best = Some (Some p)"
  obtains cand ix' where "planned ix limit best p cand ix'"
proof -
  let ?ns = "hx_nodes ix"
  have ok: "index_ok ix" and wok: "works_ok limit ?ns" using assms(1) by (simp_all add: arena_inv_def)
  note D = index_okD [OF ok]
  obtain t where t: "tip_index ix = Some t" using tip_path [OF ok] by blast
  have ne: "best \<noteq> t" using assms(3) t by (auto simp: plan_reorg_def)
  let ?k = "fork_len ix (unat best)"
  let ?up = "upath ?ns (unat best)"
  obtain p' where "plan_reorg ix best = Some (Some p')" and p: "unat (pl_fork_height p') = ?k - 1"
    "pl_apply p' = drop ?k ?up" "pl_rollback p' = map word_of_nat (rev [?k..<length (hx_canonical ix)])"
    "unat (pl_depth p') = length (hx_canonical ix) - ?k" "?k \<le> length (hx_canonical ix)"
    by (rule plan_reorg_path [OF ok assms(2) t ne])
  then have pp: "p' = p" using assms(3) by simp
  note p = p [unfolded pp]
  have kb: "1 \<le> ?k" using fork_len_bounds [OF ok assms(2)] by simp
  have clen: "length (hx_canonical ix) < 2 ^ 32" "length (arena_chain ix limit) = length (hx_canonical ix)"
    by (rule arena_facts [OF assms(1)], assumption) (simp add: arena_chain_def)
  have k: "unat (pl_fork_height p + 1) = ?k" using p(1,5) kb clen(1) by (simp add: unat_word_ariths)
  have uplen: "length ?up = hgt ?ns (unat best) + 1" using path_length [OF D(1) assms(2)] by (simp add: upath_def)
  have up_nth: "unat (?up ! i) = path ?ns (unat best) ! i" "path ?ns (unat best) ! i < length ?ns" "hgt ?ns (path ?ns (unat best) ! i) = i"
    if "i < length ?up" for i
  proof -
    have i: "i \<le> hgt ?ns (unat best)" using that uplen by simp
    note pn = path_nth [OF D(1) assms(2) i]
    show "path ?ns (unat best) ! i < length ?ns" "hgt ?ns (path ?ns (unat best) ! i) = i" using pn by simp_all
    show "unat (?up ! i) = path ?ns (unat best) ! i"
      using that unat_index [OF D(1) pn(1)] by (simp add: upath_def)
  qed
  have mem: "unat i < length ?ns" if "i \<in> set ?up" for i
    using that up_nth by (metis in_set_conv_nth)
  define cand where "cand = map (\<lambda>i. info_of limit (?ns ! unat i)) (drop ?k ?up)"
  have c1: "candidate_infos ix limit (pl_apply p) = Some (Inr cand)"
    unfolding p(2) cand_def by (rule candidate_infos_Ok [OF wok]) (use mem in \<open>auto dest: in_set_dropD\<close>)
  have anc: "ancestry ix best = Some ?up" by (rule ancestry_path [OF D(1) assms(2)])
  have canon: "canon_ok ?ns ?up"
    unfolding canon_ok_def
  proof (intro exI [of _ "unat best"] conjI)
    show "map unat ?up = path ?ns (unat best)"
      using up_nth(1) by (intro nth_equalityI) (simp_all add: upath_def)
  qed (rule assms(2))
  obtain ix' where ix': "set_canonical ix ?up = Some ix'" "index_ok ix'" "hx_canonical ix' = ?up"
    "length (hx_nodes ix') = length ?ns"
    "\<forall>j < length ?ns. hx_nodes ix' ! j = (?ns ! j)\<lparr>nd_branch_base_height := nd_branch_base_height (hx_nodes ix' ! j)\<rparr>"
    by (rule set_canonical_ok [OF ok canon])
  have same: "nd_prev (hx_nodes ix' ! j) = nd_prev (?ns ! j)" "nd_bits (hx_nodes ix' ! j) = nd_bits (?ns ! j)"
    "nd_cum_work (hx_nodes ix' ! j) = nd_cum_work (?ns ! j)" "info_of limit (hx_nodes ix' ! j) = info_of limit (?ns ! j)"
    if "j < length ?ns" for j
    by (subst ix'(5) [rule_format, OF that], simp add: info_of_def)+
  have inv': "arena_inv ix' limit"
    unfolding arena_inv_def using ix'(2) works_ok_same [OF wok D(1) ix'(4)] same by blast
  have ch': "arena_chain ix' limit = map (\<lambda>i. info_of limit (?ns ! unat i)) ?up"
    unfolding arena_chain_def ix'(3) using same(4) mem by simp
  have "take ?k (arena_chain ix limit) = map (\<lambda>i. info_of limit (?ns ! unat i)) (take ?k ?up)"
    unfolding common_prefix [OF ok assms(2)] by (simp add: arena_chain_def take_map)
  then have split: "arena_chain ix' limit = take ?k (arena_chain ix limit) @ cand"
    unfolding ch' cand_def map_append [symmetric] by (simp flip: map_append)
  have up32: "length ?up < 2 ^ 32"
    using uplen path_height_le [OF D(1) assms(2)] assms(2) D(1) by (simp add: nodes_ok_def)
  have h: "hi_height (cand ! i) = pl_fork_height p + 1 + word_of_nat i" if "i < length cand" for i
  proof -
    have b: "?k + i < length ?up" using that by (simp add: cand_def)
    have "unat (hi_height (cand ! i)) = ?k + i"
      using that up_nth [OF b] by (simp add: cand_def info_of_def)
    moreover have "unat (pl_fork_height p + 1 + word_of_nat i) = ?k + i"
      using b up32 by (subst unat_word_ariths(1)) (simp add: k unat_of_nat)
    ultimately show ?thesis by (simp only: word_unat_eq_iff)
  qed
  have contig: "contiguous (pl_fork_height p + 1) cand"
    using h by (simp add: contiguous_def list_all_length nth_enumerate_eq)
  have "length cand < 2 ^ 63" using up32 by (simp add: cand_def)
  moreover have "cand \<noteq> [] \<longrightarrow> placed (arena_chain ix limit) (pl_fork_height p + 1) cand"
    using k kb p(5) clen(2) contig by (simp add: placed_def word_less_nat_alt)
  moreover have "\<forall>x \<in> set cand. length (hi_target x) = 32"
    using node_info_Some(2) [OF wok] mem by (auto simp: cand_def dest: in_set_dropD)
  moreover have "tip_index ix' = Some best"
    using ix'(3) uplen unat_index [OF D(1) assms(2)] by (simp add: tip_index_def upath_def last_map)
  moreover have "index_tip_height ix \<noteq> None" using canonical_length(3) [OF ok t] by simp
  moreover have "map nd_cum_work (hx_nodes ix') = map nd_cum_work ?ns"
    by (rule nth_equalityI) (simp_all add: ix'(4) same(3))
  moreover have "map unat (pl_rollback p) = rev [?k..<length (hx_canonical ix)]"
    unfolding p(3) map_map by (rule map_idI) (use clen(1) in \<open>auto simp: unat_of_nat\<close>)
  ultimately show thesis
    using that [of cand ix'] assms(1) c1 anc ix' inv' split k p(4,5) clen(2) by (simp add: planned_def adopt_chain_def)
qed

section \<open>An accepted plan\<close>

lemma find_pair_None:
  "List.find (\<lambda>(h, x). P h x) ps = None \<longleftrightarrow> (\<forall>(h, x) \<in> set ps. \<not> P h x)"
  by (auto simp: find_None_iff)

definition chain_work :: "HeaderIndex \<Rightarrow> Target \<Rightarrow> nat" where
  "chain_work ix limit = sum_list (map header_work (arena_chain ix limit))"

text \<open>The checkpoint \<open>(h, x)\<close> is on the canonical chain.\<close>

definition holds_block :: "HeaderIndex \<Rightarrow> Target \<Rightarrow> u64 \<times> Hash32 \<Rightarrow> bool" where
  "holds_block ix limit c \<longleftrightarrow> unat (fst c) < length (arena_chain ix limit) \<and>
     hi_hash (arena_chain ix limit ! unat (fst c)) = snd c"

text \<open>The numbers of the rules, without words.\<close>

lemma planned_numbers:
  assumes "planned ix limit best p cand ix'" "cand \<noteq> []"
  shows "unat (cv_len (arena_view ix limit)) = length (arena_chain ix limit)"
    "cv_len (arena_view ix limit) - (pl_fork_height p + 1) = pl_depth p"
    "unat (cv_len (arena_view ix limit) - 1) = length (arena_chain ix limit) - 1" "0 < unat (pl_fork_height p + 1)"
    "unat (pl_fork_height p + 1 + word_of_nat (length cand) - 1) = length (arena_chain ix' limit) - 1"
    "length (arena_chain ix' limit) = unat (pl_fork_height p + 1) + length cand" "arena_chain ix limit \<noteq> []"
proof -
  let ?chain = "arena_chain ix limit" and ?v = "arena_view ix limit" and ?start = "pl_fork_height p + 1"
  have P: "arena_inv ix limit" "placed ?chain ?start cand" "length cand < 2 ^ 63" "unat (pl_depth p) = length ?chain - unat ?start"
    "unat ?start \<le> length ?chain" "arena_chain ix' limit = take (unat ?start) ?chain @ cand"
    using assms by (simp_all add: planned_def)
  show vl: "unat (cv_len ?v) = length ?chain" and chne: "?chain \<noteq> []"
    using arena.view_len [of "(ix, limit)"] arena.chain_nonempty [of "(ix, limit)"] P(1) by simp_all
  have short: "length ?chain < 2 ^ 63" using arena.chain_short [of "(ix, limit)"] P(1) by simp
  show "cv_len ?v - ?start = pl_depth p"
    using P(4,5) vl by (simp add: word_unat_eq_iff unat_sub word_le_nat_alt)
  show "unat (cv_len ?v - 1) = length ?chain - 1"
    using vl chne by (subst unat_sub) (simp_all add: word_le_nat_alt Suc_le_eq)
  show st: "0 < unat ?start" using P(2) by (simp add: placed_def word_less_nat_alt)
  show len': "length (arena_chain ix' limit) = unat ?start + length cand" using P(5,6) by simp
  have "unat (?start + word_of_nat (length cand)) = unat ?start + length cand"
    using P(3,5) short by (simp add: unat_word_ariths(1) unat_of_nat)
  then show "unat (?start + word_of_nat (length cand) - 1) = length (arena_chain ix' limit) - 1"
    using st by (subst unat_sub) (simp_all add: word_le_nat_alt len')
qed

lemma planned_nth:
  assumes "planned ix limit best p cand ix'" "n < unat (pl_fork_height p + 1) + length cand"
  shows "arena_chain ix' limit ! n =
    (if n < unat (pl_fork_height p + 1) then arena_chain ix limit ! n else cand ! (n - unat (pl_fork_height p + 1)))"
  using assms by (simp add: planned_def nth_append)

text \<open>A checkpoint at or above the fork that either chain reaches is on the new one.\<close>

definition checkpoints_kept :: "HeaderIndex \<Rightarrow> HeaderIndex \<Rightarrow> Target \<Rightarrow> u64 \<Rightarrow> (u64 \<times> Hash32) list \<Rightarrow> bool" where
  "checkpoints_kept ix ix' limit start cps \<longleftrightarrow> (\<forall>c \<in> set cps. start \<le> fst c \<longrightarrow>
     unat (fst c) < max (length (arena_chain ix limit)) (length (arena_chain ix' limit)) \<longrightarrow> holds_block ix' limit c)"

lemma checkpoint_scans:
  assumes "planned ix limit best p cand ix'" "cand \<noteq> []"
  defines "start \<equiv> pl_fork_height p + 1"
  shows "List.find (\<lambda>(h, _). start \<le> h \<and> h \<le> cv_len (arena_view ix limit) - 1 \<and> start + word_of_nat (length cand) - 1 < h) cps = None \<and>
    List.find (\<lambda>(h, x). start \<le> h \<and> h \<le> start + word_of_nat (length cand) - 1 \<and> hi_hash (cand ! unat (h - start)) \<noteq> x) cps = None
    \<longleftrightarrow> checkpoints_kept ix ix' limit start cps"
proof -
  note N = planned_numbers [OF assms(1,2), folded start_def]
  have pos: "0 < length (arena_chain ix limit)" "0 < length (arena_chain ix' limit)" using N(4,6,7) by simp_all
  have eq: "(\<not> (start \<le> h \<and> h \<le> cv_len (arena_view ix limit) - 1 \<and> start + word_of_nat (length cand) - 1 < h) \<and>
      \<not> (start \<le> h \<and> h \<le> start + word_of_nat (length cand) - 1 \<and> hi_hash (cand ! unat (h - start)) \<noteq> x))
    \<longleftrightarrow> (start \<le> h \<longrightarrow> unat h < max (length (arena_chain ix limit)) (length (arena_chain ix' limit)) \<longrightarrow> holds_block ix' limit (h, x))"
    (is "?L \<longleftrightarrow> ?R") for h x
  proof (cases "start \<le> h")
    case True
    have tips: "h \<le> cv_len (arena_view ix limit) - 1 \<longleftrightarrow> unat h < length (arena_chain ix limit)"
      "h \<le> start + word_of_nat (length cand) - 1 \<longleftrightarrow> unat h < length (arena_chain ix' limit)"
      unfolding word_le_nat_alt N(3,5) using pos by arith+
    have off: "unat (h - start) = unat h - unat start" "unat start \<le> unat h"
      using True by (simp_all add: unat_sub word_le_nat_alt)
    have "hi_hash (cand ! unat (h - start)) = x \<longleftrightarrow> holds_block ix' limit (h, x)" if "unat h < length (arena_chain ix' limit)"
      using planned_nth [OF assms(1), of "unat h"] that N(6) off by (simp add: holds_block_def start_def)
    then show ?thesis using True tips by (auto simp: not_le [symmetric] holds_block_def)
  qed simp
  show ?thesis
    unfolding find_pair_None checkpoints_kept_def case_prod_beta ball_conj_distrib [symmetric] eq prod.collapse ..
qed

definition beats :: "HeaderIndex \<Rightarrow> HeaderIndex \<Rightarrow> Target \<Rightarrow> ReorgVerdict \<Rightarrow> Plan \<Rightarrow> bool" where
  "beats ix ix' limit v p \<longleftrightarrow> (case v of
     StrictlyMoreWork \<Rightarrow> chain_work ix limit < chain_work ix' limit
   | TieBreak \<Rightarrow> chain_work ix limit = chain_work ix' limit \<and> pl_depth p = 1 \<and>
       length (arena_chain ix' limit) = length (arena_chain ix limit) \<and>
       hi_hash (last (arena_chain ix' limit)) < hi_hash (last (arena_chain ix limit)))"

lemma planned_work:
  assumes "planned ix limit best p cand ix'"
  shows "chain_work ix limit = sum_list (map header_work (take (unat (pl_fork_height p + 1)) (arena_chain ix limit))) +
      sum_list (map header_work (drop (unat (pl_fork_height p + 1)) (arena_chain ix limit)))"
    "chain_work ix' limit = sum_list (map header_work (take (unat (pl_fork_height p + 1)) (arena_chain ix limit))) +
      sum_list (map header_work cand)"
proof -
  show "chain_work ix limit = sum_list (map header_work (take (unat (pl_fork_height p + 1)) (arena_chain ix limit))) +
      sum_list (map header_work (drop (unat (pl_fork_height p + 1)) (arena_chain ix limit)))"
    unfolding chain_work_def by (metis append_take_drop_id map_append sum_list_append)
  show "chain_work ix' limit = sum_list (map header_work (take (unat (pl_fork_height p + 1)) (arena_chain ix limit))) +
      sum_list (map header_work cand)"
    using assms by (simp add: chain_work_def planned_def)
qed

lemma planned_tip_heights:
  assumes "planned ix limit best p cand ix'" "cand \<noteq> []"
  shows "hi_height (last cand) = hi_height (last (arena_chain ix limit)) \<longleftrightarrow>
      length (arena_chain ix' limit) = length (arena_chain ix limit)"
    "last (arena_chain ix' limit) = last cand"
proof -
  show l: "last (arena_chain ix' limit) = last cand" using assms by (simp add: planned_def)
  have "arena_inv ix limit" "arena_inv ix' limit" using assms(1) by (simp_all add: planned_def)
  then have "unat (hi_height (last (arena_chain ix limit))) = length (arena_chain ix limit) - 1"
    "unat (hi_height (last cand)) = length (arena_chain ix' limit) - 1"
    using arena.tip_height [of "(ix, limit)"] arena.tip_height [of "(ix', limit)"] l by simp_all
  moreover have "0 < length (arena_chain ix limit)" "0 < length (arena_chain ix' limit)"
    using planned_numbers(4,6,7) [OF assms] by simp_all
  ultimately show "hi_height (last cand) = hi_height (last (arena_chain ix limit)) \<longleftrightarrow>
      length (arena_chain ix' limit) = length (arena_chain ix limit)"
    unfolding word_unat_eq_iff by arith
qed

text \<open>The rules accept a plan exactly when it is shallow enough or carries the anchor, keeps the
  checkpoints and beats the chain it replaces.\<close>

lemma judge_iff:
  assumes "planned ix (pm_pow_limit params) best p cand ix'"
  shows "\<exists>r. judge_plan ix cps params now p = Some r \<and> (fst r = Inr v \<longleftrightarrow> cand \<noteq> [] \<and>
    (pm_max_reorg_depth params = 0 \<or> pl_depth p \<le> pm_max_reorg_depth params \<or>
     (\<exists>a. ck_anchor cps = Some a \<and> candidate_meets_anchor a (pl_fork_height p + 1) cand)) \<and>
    checkpoints_kept ix ix' (pm_pow_limit params) (pl_fork_height p + 1) (ck_enforced cps) \<and>
    beats ix ix' (pm_pow_limit params) v p)"
proof -
  let ?l = "pm_pow_limit params" and ?cap = "pm_max_reorg_depth params" and ?start = "pl_fork_height p + 1"
  let ?ps = "\<lparr>rp_anchor = ck_anchor cps, rp_checkpoints = ck_enforced cps, rp_local_time = now\<rparr>"
  let ?e = "evaluate_reorg_with_cap (arena_view ix ?l) ?start cand ?ps ?cap"
  have P: "arena_inv ix ?l" "candidate_infos ix ?l (pl_apply p) = Some (Inr cand)"
    "\<forall>x \<in> set cand. length (hi_target x) = 32" "length cand < 2 ^ 63" "index_tip_height ix \<noteq> None"
    using assms by (simp_all add: planned_def)
  have "\<exists>r. ?e = Some r \<and> (r = Inr v \<longleftrightarrow> cand \<noteq> [] \<and> (?cap = 0 \<or> pl_depth p \<le> ?cap \<or>
     (\<exists>a. ck_anchor cps = Some a \<and> candidate_meets_anchor a ?start cand)) \<and>
    checkpoints_kept ix ix' ?l ?start (ck_enforced cps) \<and> beats ix ix' ?l v p)"
  proof (cases "cand = []")
    case False
    then have pl: "placed (arena_chain ix ?l) ?start cand" using assms by (simp add: planned_def)
    note V = arena.evaluate_verdict [of "(ix, ?l)", unfolded split_conv, OF P(1) pl P(3,4), of ?ps ?cap,
        unfolded planned_numbers(2) [OF assms False]]
    note K = checkpoint_scans [OF assms False, of "ck_enforced cps"]
    have cap: "0 < ?cap \<and> ?cap < pl_depth p \<and> \<not> (case ck_anchor cps of None \<Rightarrow> False | Some a \<Rightarrow> candidate_meets_anchor a ?start cand)
      \<longleftrightarrow> \<not> (?cap = 0 \<or> pl_depth p \<le> ?cap \<or> (\<exists>a. ck_anchor cps = Some a \<and> candidate_meets_anchor a ?start cand))"
      by (auto simp: not_le word_neq_0_conv split: option.splits)
    have beat: "beats ix ix' ?l v p \<longleftrightarrow>
      (if sum_list (map header_work (drop (unat ?start) (arena_chain ix ?l))) < sum_list (map header_work cand) then v = StrictlyMoreWork
       else v = TieBreak \<and> pl_depth p = 1 \<and>
         sum_list (map header_work (drop (unat ?start) (arena_chain ix ?l))) = sum_list (map header_work cand) \<and>
         hi_height (last cand) = hi_height (last (arena_chain ix ?l)) \<and> hi_hash (last cand) < hi_hash (last (arena_chain ix ?l)))"
      unfolding planned_tip_heights(1) [OF assms False] unfolding planned_tip_heights(2) [OF assms False, symmetric]
      by (cases v) (auto simp: beats_def planned_work [OF assms])
    show ?thesis
      unfolding V ReorgParams.select_convs cap beat K [symmetric] using False
      by (auto split: option.splits)
  qed (simp add: evaluate_reorg_with_cap_def)
  then obtain r where "?e = Some r" "r = Inr v \<longleftrightarrow> cand \<noteq> [] \<and> (?cap = 0 \<or> pl_depth p \<le> ?cap \<or>
     (\<exists>a. ck_anchor cps = Some a \<and> candidate_meets_anchor a ?start cand)) \<and>
    checkpoints_kept ix ix' ?l ?start (ck_enforced cps) \<and> beats ix ix' ?l v p" by blast
  then show ?thesis using P(2,5) by (cases r) (auto simp: judge_plan_def)
qed

lemma kept_holds:
  assumes "planned ix limit best p cand ix'" "checkpoints_kept ix ix' limit (pl_fork_height p + 1) cps"
    and "c \<in> set cps" "holds_block ix limit c"
  shows "holds_block ix' limit c"
proof (cases "pl_fork_height p + 1 \<le> fst c")
  case True
  have "unat (fst c) < max (length (arena_chain ix limit)) (length (arena_chain ix' limit))"
    using assms(4) by (auto simp: holds_block_def)
  then show ?thesis using True assms(2,3) by (simp add: checkpoints_kept_def)
next
  case False
  then have "unat (fst c) < unat (pl_fork_height p + 1)" by (simp add: word_le_nat_alt)
  then show ?thesis
    using assms(1,4) planned_nth [OF assms(1), of "unat (fst c)"] by (simp add: planned_def holds_block_def)
qed

lemma anchor_holds:
  assumes "planned ix limit best p cand ix'" "cand \<noteq> []" "candidate_meets_anchor a (pl_fork_height p + 1) cand"
  shows "holds_block ix' limit (an_height a, an_hash a)"
proof -
  let ?start = "pl_fork_height p + 1"
  have s: "?start \<le> an_height a" and i: "unat (an_height a - ?start) < length cand"
    "hi_hash (cand ! unat (an_height a - ?start)) = an_hash a"
    using assms(3) by (auto simp: candidate_meets_anchor_def Let_def not_le not_less split: if_splits)
  have u: "unat (an_height a - ?start) = unat (an_height a) - unat ?start" "unat ?start \<le> unat (an_height a)"
    using s by (simp_all add: unat_sub word_le_nat_alt)
  then have "unat (an_height a) < unat ?start + length cand" using i(1) by simp
  then show ?thesis
    using planned_nth [OF assms(1)] planned_numbers(6) [OF assms(1,2)] i(2) u by (simp add: holds_block_def)
qed

lemma accepted_plan:
  assumes "arena_inv ix (pm_pow_limit params)" "unat best < length (hx_nodes ix)" "plan_reorg ix best = Some (Some p)"
    and "judge_plan ix cps params now p = Some (Inr v, conds)"
  obtains ix' where "adopt_chain ix best = Some ix'" "arena_inv ix' (pm_pow_limit params)" "tip_index ix' = Some best"
    "\<forall>c \<in> set (ck_enforced cps). holds_block ix (pm_pow_limit params) c \<longrightarrow> holds_block ix' (pm_pow_limit params) c"
    "beats ix ix' (pm_pow_limit params) v p"
    "pm_max_reorg_depth params = 0 \<or> pl_depth p \<le> pm_max_reorg_depth params \<or>
     (\<exists>a. ck_anchor cps = Some a \<and> holds_block ix' (pm_pow_limit params) (an_height a, an_hash a))"
proof -
  obtain cand ix' where P: "planned ix (pm_pow_limit params) best p cand ix'" by (rule plan_candidate [OF assms(1-3)])
  note J = judge_iff [OF P, of cps now v, unfolded assms(4)]
  show thesis
    by (rule that [of ix']) (use P J kept_holds [OF P] anchor_holds [OF P] in \<open>auto simp: planned_def\<close>)
qed

end
