(* ===== verification/Lifecycle.thy ===== *)
theory Lifecycle imports Manager begin

text \<open>
  The life of a node's arena and checkpoints, as the steps the manager takes on them in
  \<open>lib/chain/src/manager.rs\<close>: headers enter behind the checks of their callers, bodies arrive,
  branches are marked invalid, signed checkpoints are submitted or loaded, and a plan the rules accept
  is adopted. What holds of every reachable state is proved by rule induction.
\<close>

record Core =
  co_index :: HeaderIndex
  co_checkpoints :: Checkpoints

text \<open>\<open>direct_work\<close> is what \<open>WorkCache::work\<close> returns of the bits of a header.\<close>

inductive core_start :: "ChainParams \<Rightarrow> Core \<Rightarrow> bool" for params where
  "hr_height r = 0 \<Longrightarrow> direct_work (hr_bits r) (pm_pow_limit params) = Some w \<Longrightarrow>
   insert_genesis index_new r w = Some (i, ix) \<Longrightarrow>
   core_start params \<lparr>co_index = ix, co_checkpoints = checkpoints_new\<rparr>"

text \<open>
  Headers are inserted by \<open>promote\<close>, \<open>load_from_store\<close>, \<open>rebuild_side_arena\<close> and
  \<open>readmit_persisted_header\<close>, all with the height and the cumulative work of the parent plus one;
  the room in the arena is the 32-bit width of its indices.
\<close>

inductive core_step ::
  "(bytes \<Rightarrow> 'vk option) \<Rightarrow> ('vk \<Rightarrow> bytes \<Rightarrow> bytes \<Rightarrow> bool) \<Rightarrow> ChainParams \<Rightarrow> Core \<Rightarrow> Core \<Rightarrow> bool"
  for vk verify params where
  insert: "index_of ix (hr_hash r) = None \<Longrightarrow> index_of ix (hr_prev_hash r) = Some parent \<Longrightarrow>
     node ix parent = Some pn \<Longrightarrow> hr_height r = nd_height pn + 1 \<Longrightarrow>
     direct_work (hr_bits r) (pm_pow_limit params) = Some w \<Longrightarrow> work_checked_add (nd_cum_work pn) w = Some cum \<Longrightarrow>
     length (hx_nodes ix) + 1 < 2 ^ 32 - 1 \<Longrightarrow> index_insert ix r parent cum pow = Some (i, ix') \<Longrightarrow>
     core_step vk verify params \<lparr>co_index = ix, co_checkpoints = cps\<rparr> \<lparr>co_index = ix', co_checkpoints = cps\<rparr>"
| body: "index_of ix h = Some i \<Longrightarrow> set_have_body ix i = Some ix' \<Longrightarrow>
     core_step vk verify params \<lparr>co_index = ix, co_checkpoints = cps\<rparr> \<lparr>co_index = ix', co_checkpoints = cps\<rparr>"
| invalidate: "index_of ix h = Some i \<Longrightarrow> mark_invalid ix i = Some (n, ix') \<Longrightarrow>
     core_step vk verify params \<lparr>co_index = ix, co_checkpoints = cps\<rparr> \<lparr>co_index = ix', co_checkpoints = cps\<rparr>"
| checkpoint: "submit_checkpoint vk verify cp (arena_view ix (pm_pow_limit params)) params cps = Some (report, conds, cps') \<Longrightarrow>
     core_step vk verify params \<lparr>co_index = ix, co_checkpoints = cps\<rparr> \<lparr>co_index = ix, co_checkpoints = cps'\<rparr>"
| load: "load_anchor vk verify cp params cps = (b, cps') \<Longrightarrow>
     core_step vk verify params \<lparr>co_index = ix, co_checkpoints = cps\<rparr> \<lparr>co_index = ix, co_checkpoints = cps'\<rparr>"
| adopt: "select_best_excluding ix skip = Some best \<Longrightarrow> plan_reorg ix best = Some (Some p) \<Longrightarrow>
     judge_plan ix cps params now p = Some (Inr v, conds) \<Longrightarrow> adopt_chain ix best = Some ix' \<Longrightarrow>
     core_step vk verify params \<lparr>co_index = ix, co_checkpoints = cps\<rparr> \<lparr>co_index = ix', co_checkpoints = cps\<rparr>"

inductive_cases core_startE: "core_start params s"
inductive_cases core_stepE: "core_step vk verify params s s'"

inductive core_steps ::
  "(bytes \<Rightarrow> 'vk option) \<Rightarrow> ('vk \<Rightarrow> bytes \<Rightarrow> bytes \<Rightarrow> bool) \<Rightarrow> ChainParams \<Rightarrow> Core \<Rightarrow> Core \<Rightarrow> bool"
  for vk verify params where
  refl: "core_steps vk verify params s s"
| step: "core_steps vk verify params s s' \<Longrightarrow> core_step vk verify params s' s'' \<Longrightarrow> core_steps vk verify params s s''"

lemma core_steps_trans: "core_steps vk verify params s' s'' \<Longrightarrow> core_steps vk verify params s s' \<Longrightarrow> core_steps vk verify params s s''"
  by (induction rule: core_steps.induct) (blast intro: core_steps.step)+

section \<open>The invariant\<close>

definition core_ok :: "ChainParams \<Rightarrow> Core \<Rightarrow> bool" where
  "core_ok params s \<longleftrightarrow> arena_inv (co_index s) (pm_pow_limit params) \<and> enforced_ok (ck_enforced (co_checkpoints s)) \<and>
     (\<forall>c \<in> set (ck_enforced (co_checkpoints s)). holds_block (co_index s) (pm_pow_limit params) c)"

text \<open>What one step does to the parts the theorems speak of.\<close>

definition core_grows :: "ChainParams \<Rightarrow> Core \<Rightarrow> Core \<Rightarrow> bool" where
  "core_grows params s s' \<longleftrightarrow> set (ck_enforced (co_checkpoints s)) \<subseteq> set (ck_enforced (co_checkpoints s')) \<and>
     anchor_le (ck_anchor (co_checkpoints s)) (ck_anchor (co_checkpoints s')) \<and>
     chain_work (co_index s) (pm_pow_limit params) \<le> chain_work (co_index s') (pm_pow_limit params)"

lemma core_grows_refl [simp]: "core_grows params s s"
  by (simp add: core_grows_def)

lemma core_grows_trans: "core_grows params s s' \<Longrightarrow> core_grows params s' s'' \<Longrightarrow> core_grows params s s''"
  by (auto simp: core_grows_def intro: anchor_le_trans)

lemma direct_work_Some:
  assumes "direct_work bits limit = Some w"
  obtains t where "expand_bits bits limit = Some t" "work_val w = 2 ^ 256 div (target_val t + 1)"
proof -
  obtain t where t: "expand_bits bits limit = Some t" "work_from_target (target_to_be t) = Some w"
    using assms by (auto simp: direct_work_def split: option.splits)
  obtain w' where "work_from_target (target_to_be t) = Some w'" "work_val w' = 2 ^ 256 div (target_val t + 1)"
    by (rule target_work)
  then show thesis using that t by simp
qed

lemma same_info_inv:
  assumes "arena_inv ix limit" "index_ok ix'" "hx_canonical ix' = hx_canonical ix" "length (hx_nodes ix) \<le> length (hx_nodes ix')"
    and "works_ok limit (hx_nodes ix')" "\<forall>j < length (hx_nodes ix). info_of limit (hx_nodes ix' ! j) = info_of limit (hx_nodes ix ! j)"
  shows "arena_inv ix' limit" "arena_chain ix' limit = arena_chain ix limit"
proof -
  show "arena_inv ix' limit" using assms(2,5) by (simp add: arena_inv_def)
  have ok: "index_ok ix" using assms(1) by (simp add: arena_inv_def)
  note D = index_okD [OF ok]
  obtain t where t: "t < length (hx_nodes ix)" "map unat (hx_canonical ix) = path (hx_nodes ix) t" by (rule tip_path [OF ok]) blast
  have "unat c < length (hx_nodes ix)" if "c \<in> set (hx_canonical ix)" for c
  proof -
    have "unat c \<in> set (path (hx_nodes ix) t)" using that unfolding canonical_set [OF t(2), symmetric] by simp
    then show ?thesis using path_bound [OF D(1) t(1)] t(1) by fastforce
  qed
  then show "arena_chain ix' limit = arena_chain ix limit" using assms(3,6) by (simp add: arena_chain_def)
qed

lemma insert_core:
  assumes "arena_inv ix limit" "index_of ix (hr_hash r) = None" "index_of ix (hr_prev_hash r) = Some parent"
    "node ix parent = Some pn" "hr_height r = nd_height pn + 1" "direct_work (hr_bits r) limit = Some w"
    "work_checked_add (nd_cum_work pn) w = Some cum" "length (hx_nodes ix) + 1 < 2 ^ 32 - 1"
    "index_insert ix r parent cum pow = Some (i, ix')"
  shows "arena_inv ix' limit" "arena_chain ix' limit = arena_chain ix limit"
proof -
  have ok: "index_ok ix" and wok: "works_ok limit (hx_nodes ix)" using assms(1) by (simp_all add: arena_inv_def)
  note D = index_okD [OF ok]
  have p: "unat parent < length (hx_nodes ix)" using assms(3) D(2) by (simp add: by_hash_ok_def index_of_def)
  have pn: "pn = hx_nodes ix ! unat parent" using assms(4) p by simp
  have h: "unat (hr_height r) = hgt (hx_nodes ix) (unat parent) + 1"
    using path_height_le [OF D(1) p] p D(1) by (simp add: assms(5) pn nodes_ok_def unat_word_ariths)
  obtain idx n ix2 where ins: "index_insert ix r parent cum pow = Some (idx, ix2)" "index_ok ix2"
    "hx_nodes ix2 = hx_nodes ix @ [n]" "hx_canonical ix2 = hx_canonical ix"
    and n: "n = \<lparr>nd_hash = hr_hash r, nd_prev = parent, nd_height = hr_height r, nd_time = hr_time r, nd_bits = hr_bits r,
       nd_cum_work = cum, nd_branch_base_height = nd_branch_base_height n, nd_flags = nd_flags n\<rparr>"
    by (rule insert_index_ok [OF ok assms(2) p h assms(8)])
  have e: "ix2 = ix'" using ins(1) assms(9) by simp
  obtain t where t: "expand_bits (hr_bits r) limit = Some t" "work_val w = 2 ^ 256 div (target_val t + 1)"
    by (rule direct_work_Some [OF assms(6)])
  have "work_val cum = work_val (nd_cum_work pn) + work_val w" using assms(7) by (simp add: work_checked_add_Some)
  then have "works_ok limit (hx_nodes ix @ [n])"
    using t p by (intro works_ok_append [OF wok D(1), of n t]) (subst n, simp add: pn)+
  then show "arena_inv ix' limit" "arena_chain ix' limit = arena_chain ix limit"
    using same_info_inv [OF assms(1) ins(2,4)] unfolding ins(3) e [symmetric] by (simp_all add: nth_append)
qed

lemma flags_core:
  assumes "arena_inv ix limit" "index_ok ix'" "hx_canonical ix' = hx_canonical ix" "length (hx_nodes ix') = length (hx_nodes ix)"
    and "\<forall>j < length (hx_nodes ix). hx_nodes ix' ! j = (hx_nodes ix ! j)\<lparr>nd_flags := nd_flags (hx_nodes ix' ! j)\<rparr>"
  shows "arena_inv ix' limit" "arena_chain ix' limit = arena_chain ix limit"
proof -
  have same: "nd_prev (hx_nodes ix' ! j) = nd_prev (hx_nodes ix ! j)" "nd_bits (hx_nodes ix' ! j) = nd_bits (hx_nodes ix ! j)"
    "nd_cum_work (hx_nodes ix' ! j) = nd_cum_work (hx_nodes ix ! j)" "info_of limit (hx_nodes ix' ! j) = info_of limit (hx_nodes ix ! j)"
    if "j < length (hx_nodes ix)" for j
    by (subst assms(5) [rule_format, OF that], simp add: info_of_def)+
  have "works_ok limit (hx_nodes ix')"
    using works_ok_same [OF _ _ assms(4)] same assms(1) by (simp add: arena_inv_def index_ok_def)
  then show "arena_inv ix' limit" "arena_chain ix' limit = arena_chain ix limit"
    using same_info_inv [OF assms(1-3)] assms(4) same(4) by simp_all
qed

lemma install_anchor_grows:
  "anchor_le (ck_anchor c) (ck_anchor (snd (install_anchor cp c)))"
  "ck_enforced (snd (install_anchor cp c)) = ck_enforced c"
  using install_anchor_facts [of cp c "fst (install_anchor cp c)" "snd (install_anchor cp c)"] by simp_all

lemma submit_core:
  assumes "arena_inv ix (pm_pow_limit params)" "enforced_ok (ck_enforced cps)"
    and "\<forall>c \<in> set (ck_enforced cps). holds_block ix (pm_pow_limit params) c"
    and "submit_checkpoint vk verify cp (arena_view ix (pm_pow_limit params)) params cps = Some (report, conds, cps')"
  shows "enforced_ok (ck_enforced cps')" "\<forall>c \<in> set (ck_enforced cps'). holds_block ix (pm_pow_limit params) c"
    "set (ck_enforced cps) \<subseteq> set (ck_enforced cps')" "anchor_le (ck_anchor cps) (ck_anchor cps')"
proof -
  let ?l = "pm_pow_limit params"
  let ?new = "ck_enforced cps @ [(cp_height cp, cp_hash cp)]"
  have adm: "checkpoint_admission (arena_view ix ?l) (cp_height cp) (cp_hash cp) =
    Some (if cp_height cp = 0 then CheckpointAdmission.GenesisImmutable
          else if length (arena_chain ix ?l) \<le> unat (cp_height cp) then CheckpointAdmission.NotHeldYet
          else if hi_hash (arena_chain ix ?l ! unat (cp_height cp)) = cp_hash cp then Admit else HashConflict)"
    using arena.admission [of "(ix, ?l)" "cp_height cp" "cp_hash cp"] assms(1) by simp
  consider "cps' = cps" | "cps' = snd (install_anchor cp cps)"
    | "holds_block ix ?l (cp_height cp, cp_hash cp)" "\<not> list_ex (\<lambda>(h, _). h = cp_height cp) (ck_enforced cps)"
      "cps' = snd (install_anchor cp (cps\<lparr>ck_enforced := sort ?new\<rparr>))"
  proof (cases "verify_checkpoint vk verify cp (pm_authority_keys params) (pm_checkpoint_threshold params) \<and> cp_height cp \<noteq> 0")
    case False
    then show thesis
      using that(1) assms(4) unfolding submit_checkpoint_def adm
      by (cases "verify_checkpoint vk verify cp (pm_authority_keys params) (pm_checkpoint_threshold params)") simp_all
  next
    case True
    note S = assms(4) [unfolded submit_checkpoint_def adm Let_def case_prod_beta]
    show thesis
    proof (cases "holds_block ix ?l (cp_height cp, cp_hash cp)")
      case False
      then have "cps' = snd (install_anchor cp cps)"
        using S True by (cases "length (arena_chain ix ?l) \<le> unat (cp_height cp)") (simp_all add: holds_block_def)
      then show thesis by (rule that(2))
    next
      case hb: True
      then have n: "\<not> length (arena_chain ix ?l) \<le> unat (cp_height cp)" "hi_hash (arena_chain ix ?l ! unat (cp_height cp)) = cp_hash cp"
        by (simp_all add: holds_block_def)
      show thesis
      proof (cases "list_ex (\<lambda>(h, _). h = cp_height cp) (ck_enforced cps)")
        case True
        then have "cps' = snd (install_anchor cp cps)"
          using S n \<open>_ \<and> cp_height cp \<noteq> 0\<close> by (simp add: case_prod_unfold)
        then show thesis by (rule that(2))
      next
        case False
        then have "cps' = snd (install_anchor cp (cps\<lparr>ck_enforced := sort ?new\<rparr>))"
          using S n \<open>_ \<and> cp_height cp \<noteq> 0\<close> by (simp add: case_prod_unfold)
        then show thesis using hb False by (rule that(3) [rotated 2])
      qed
    qed
  qed
  then have "enforced_ok (ck_enforced cps') \<and> (\<forall>c \<in> set (ck_enforced cps'). holds_block ix ?l c) \<and>
      set (ck_enforced cps) \<subseteq> set (ck_enforced cps') \<and> anchor_le (ck_anchor cps) (ck_anchor cps')"
  proof cases
    case 1
    then show ?thesis
      using assms(2,3) by simp
  next
    case 2
    then show ?thesis
      using assms(2,3) by (simp add: install_anchor_grows)
  next
    case 3
    have "distinct (map fst ?new)"
      using assms(2) 3(2) by (auto simp: enforced_ok_def list_ex_iff)
    then have "enforced_ok (sort ?new)" by (rule sort_enforced_ok)
    then show ?thesis
      using assms(3) 3(1) install_anchor_grows(1) [of "cps\<lparr>ck_enforced := sort ?new\<rparr>" cp]
      by (auto simp: 3(3) install_anchor_grows(2))
  qed
  then show "enforced_ok (ck_enforced cps')" "\<forall>c \<in> set (ck_enforced cps'). holds_block ix ?l c"
    "set (ck_enforced cps) \<subseteq> set (ck_enforced cps')" "anchor_le (ck_anchor cps) (ck_anchor cps')"
    by simp_all
qed

lemma core_step_ok:
  assumes "core_step vk verify params s s'" "core_ok params s"
  shows "core_ok params s' \<and> core_grows params s s'"
  using assms
proof (induction rule: core_step.induct)
  case (insert ix r parent pn w cum pow i ix' cps)
  then show ?case
    using insert_core [OF _ insert.hyps(1-8)] by (simp add: core_ok_def core_grows_def chain_work_def holds_block_def)
next
  case (body ix h i ix' cps)
  then have ok: "arena_inv ix (pm_pow_limit params)" "index_ok ix" by (simp_all add: core_ok_def arena_inv_def)
  then have i: "unat i < length (hx_nodes ix)"
    using body.hyps(1) index_okD(2) [OF ok(2)] by (simp add: by_hash_ok_def index_of_def)
  obtain ix2 where b: "set_have_body ix i = Some ix2" "index_ok ix2" "hx_canonical ix2 = hx_canonical ix"
    "hx_nodes ix2 = (hx_nodes ix)[unat i := (hx_nodes ix ! unat i)\<lparr>nd_flags := nd_flags (hx_nodes ix ! unat i) OR FLAG_HAVE_BODY\<rparr>]"
    by (rule set_have_body_ok [OF ok(2) i])
  have "hx_nodes ix2 ! j = (hx_nodes ix ! j)\<lparr>nd_flags := nd_flags (hx_nodes ix2 ! j)\<rparr>" if "j < length (hx_nodes ix)" for j
    using that by (cases "j = unat i") (simp_all add: b(4))
  then have "arena_inv ix2 (pm_pow_limit params)" "arena_chain ix2 (pm_pow_limit params) = arena_chain ix (pm_pow_limit params)"
    using flags_core [OF ok(1) b(2,3)] by (simp_all add: b(4))
  then show ?case
    using b(1) body by (simp add: core_ok_def core_grows_def chain_work_def holds_block_def)
next
  case (invalidate ix h i n ix' cps)
  then have ok: "arena_inv ix (pm_pow_limit params)" "index_ok ix" by (simp_all add: core_ok_def arena_inv_def)
  then have i: "unat i < length (hx_nodes ix)"
    using invalidate.hyps(1) index_okD(2) [OF ok(2)] by (simp add: by_hash_ok_def index_of_def)
  obtain c ix2 where b: "mark_invalid ix i = Some (c, ix2)" "index_ok ix2" "hx_canonical ix2 = hx_canonical ix"
    "length (hx_nodes ix2) = length (hx_nodes ix)"
    "\<forall>j < length (hx_nodes ix). hx_nodes ix2 ! j = (hx_nodes ix ! j)\<lparr>nd_flags := nd_flags (hx_nodes ix2 ! j)\<rparr>"
    using mark_invalid_ok [OF ok(2) i] by blast
  show ?case
    using flags_core [OF ok(1) b(2-5)] b(1) invalidate by (simp add: core_ok_def core_grows_def chain_work_def holds_block_def)
next
  case (checkpoint cp ix cps report conds cps')
  then show ?case using submit_core [OF _ _ _ checkpoint.hyps] by (simp add: core_ok_def core_grows_def)
next
  case (load cp cps b cps' ix)
  then have "cps' = cps \<or> cps' = snd (install_anchor cp cps)" by (auto simp: load_anchor_def split: if_splits)
  then show ?case
    using load.prems install_anchor_grows by (auto simp: core_ok_def core_grows_def)
next
  case (adopt ix skip best p cps now v conds ix')
  then have ok: "arena_inv ix (pm_pow_limit params)" "index_ok ix" by (simp_all add: core_ok_def arena_inv_def)
  have b: "unat best < length (hx_nodes ix)" using select_best_ok [OF ok(2), of skip] adopt.hyps(1) by auto
  obtain ix2 where a: "adopt_chain ix best = Some ix2" "arena_inv ix2 (pm_pow_limit params)"
    "\<forall>c \<in> set (ck_enforced cps). holds_block ix (pm_pow_limit params) c \<longrightarrow> holds_block ix2 (pm_pow_limit params) c"
    "beats ix ix2 (pm_pow_limit params) v p"
    by (rule accepted_plan [OF ok(1) b adopt.hyps(2,3)])
  have e: "ix2 = ix'" using a(1) adopt.hyps(4) by simp
  have "chain_work ix (pm_pow_limit params) \<le> chain_work ix2 (pm_pow_limit params)" using a(4) by (cases v) (simp_all add: beats_def)
  then show ?case using a(2,3) adopt.prems by (simp add: e core_ok_def core_grows_def)
qed

lemma core_start_ok:
  assumes "core_start params s"
  shows "core_ok params s"
  using assms
proof (cases rule: core_start.cases)
  case (1 r w i ix)
  obtain t where t: "expand_bits (hr_bits r) (pm_pow_limit params) = Some t" "work_val w = 2 ^ 256 div (target_val t + 1)"
    by (rule direct_work_Some [OF 1(3)])
  obtain ix2 where g: "insert_genesis index_new r w = Some (0, ix2)" "index_ok ix2" "length (hx_nodes ix2) = 1"
    "nd_cum_work (hx_nodes ix2 ! 0) = w" "nd_bits (hx_nodes ix2 ! 0) = hr_bits r"
    by (rule genesis_index_ok [OF 1(2), of w])
  then have "arena_inv ix (pm_pow_limit params)"
    using t 1(4) by (simp add: arena_inv_def works_ok_def)
  then show ?thesis by (simp add: 1(1) core_ok_def checkpoints_new_def enforced_ok_def)
qed

lemma core_steps_ok:
  assumes "core_steps vk verify params s s'" "core_ok params s"
  shows "core_ok params s' \<and> core_grows params s s'"
  using assms by (induction rule: core_steps.induct) (auto dest: core_step_ok intro: core_grows_trans)

section \<open>Progress\<close>

lemma chain_work_tip:
  assumes "arena_inv ix limit" "tip_index ix = Some t"
  shows "chain_work ix limit = work_val (nd_cum_work (hx_nodes ix ! unat t))" "unat t < length (hx_nodes ix)"
proof -
  have ok: "index_ok ix" using assms(1) by (simp add: arena_inv_def)
  show t: "unat t < length (hx_nodes ix)" using canonical_length(2) [OF ok assms(2)] .
  have "arena_cumulative_work ix = Some (nd_cum_work (hx_nodes ix ! unat t))"
    using assms(2) t by (simp add: arena_cumulative_work_def index_tip_def)
  then show "chain_work ix limit = work_val (nd_cum_work (hx_nodes ix ! unat t))"
    using arena_no_panic(4) [OF assms(1)] by (simp add: chain_work_def)
qed

lemma heavier_accepted:
  assumes "arena_inv ix (pm_pow_limit params)" "unat best < length (hx_nodes ix)" "tip_index ix = Some t"
    and "nd_cum_work (hx_nodes ix ! unat t) < nd_cum_work (hx_nodes ix ! unat best)"
    and "plan_reorg ix best = Some (Some p)"
    and "pm_max_reorg_depth params = 0 \<or> pl_depth p \<le> pm_max_reorg_depth params"
    and "\<forall>c \<in> set (ck_enforced cps). fst c < pl_fork_height p + 1"
  obtains ix' r where "judge_plan ix cps params now p = Some r" "fst r = Inr StrictlyMoreWork"
    "adopt_chain ix best = Some ix'" "tip_index ix' = Some best"
proof -
  let ?l = "pm_pow_limit params"
  obtain cand ix' where P: "planned ix ?l best p cand ix'" by (rule plan_candidate [OF assms(1,2,5)])
  then have ix': "adopt_chain ix best = Some ix'" "tip_index ix' = Some best" "arena_inv ix' ?l"
    "length (hx_nodes ix') = length (hx_nodes ix)" "map nd_cum_work (hx_nodes ix') = map nd_cum_work (hx_nodes ix)"
    by (simp_all add: planned_def)
  have "nd_cum_work (hx_nodes ix' ! unat best) = nd_cum_work (hx_nodes ix ! unat best)"
    using ix'(4) assms(2) arg_cong [OF ix'(5), of "\<lambda>xs. xs ! unat best"] by simp
  then have more: "chain_work ix ?l < chain_work ix' ?l"
    using assms(4) chain_work_tip(1) [OF assms(1,3)] chain_work_tip(1) [OF ix'(3,2)] by (simp add: work_less_iff)
  then have ne: "cand \<noteq> []" using planned_work [OF P] by auto
  have "checkpoints_kept ix ix' ?l (pl_fork_height p + 1) (ck_enforced cps)"
    using assms(7) by (auto simp: checkpoints_kept_def not_le)
  then show thesis
    using judge_iff [OF P, of cps now StrictlyMoreWork] ne more assms(6) ix'(1,2) that by (auto simp: beats_def)
qed

section \<open>A run\<close>

definition sample_params :: ChainParams where
  "sample_params = default_params\<lparr>pm_authority_keys := [replicate 32 1]\<rparr>"

definition sample_hdr :: "u8 \<Rightarrow> u8 \<Rightarrow> u64 \<Rightarrow> HeaderRec" where
  "sample_hdr h prev height = \<lparr>hr_height = height, hr_hash = replicate 32 h, hr_prev_hash = replicate 32 prev,
     hr_time = height, hr_bits = 0x1f00ffff, hr_raw = []\<rparr>"

definition sample_cp :: SignedCheckpoint where
  "sample_cp = \<lparr>cp_height = 1, cp_hash = replicate 32 2, cp_sigs = [\<lparr>cs_pubkey = replicate 32 1, cs_sig = []\<rparr>]\<rparr>"

abbreviation sample_steps :: "Core \<Rightarrow> Core \<Rightarrow> bool" where
  "sample_steps \<equiv> core_steps (\<lambda>_. Some ()) (\<lambda>_ _ _. True) sample_params"

lemma sample_work: "\<exists>w. direct_work 0x1f00ffff (pm_pow_limit sample_params) = Some w \<and> 0 < work_val w \<and> work_val w < 2 ^ 256"
proof -
  have "from_compact 0x1f00ffff = Inr (Target 0 0 0 0xffff00000000)" by code_simp
  moreover have "Target 0 0 0 0xffff00000000 \<le> POW_LIMIT"
    unfolding target_le_iff target_val_POW_LIMIT by (simp add: target_val_def)
  ultimately have t: "expand_bits 0x1f00ffff (pm_pow_limit sample_params) = Some (Target 0 0 0 0xffff00000000)"
    by (simp add: expand_bits_Some sample_params_def default_params_def default_pow_limit_eq target_val_def)
  obtain w where "work_from_target (target_to_be (Target 0 0 0 0xffff00000000)) = Some w"
    "work_val w = 2 ^ 256 div (target_val (Target 0 0 0 0xffff00000000) + 1)" by (rule target_work)
  then show ?thesis using t by (auto simp: direct_work_def target_val_def)
qed

text \<open>Genesis, a header on it, its adoption, and a signed checkpoint at its height.\<close>

lemma sample_run:
  obtains s0 s1 s2 s3 where "core_start sample_params s0" "sample_steps s0 s1" "sample_steps s1 s2" "sample_steps s2 s3"
    "ck_enforced (co_checkpoints s3) = [(1, replicate 32 2)]" "co_checkpoints s1 = checkpoints_new"
    "select_best_excluding (co_index s1) [] = Some 1" "tip_index (co_index s1) = Some 0"
    "nd_cum_work (hx_nodes (co_index s1) ! 0) < nd_cum_work (hx_nodes (co_index s1) ! 1)"
    "\<exists>p. plan_reorg (co_index s1) 1 = Some (Some p) \<and> pl_depth p = 0"
proof -
  let ?l = "pm_pow_limit sample_params"
  obtain w where w: "direct_work 0x1f00ffff ?l = Some w" "0 < work_val w" "work_val w < 2 ^ 256" using sample_work by blast
  have gh: "hr_height (sample_hdr 1 0 0) = 0" by (simp add: sample_hdr_def)
  obtain ix0 where g: "insert_genesis index_new (sample_hdr 1 0 0) w = Some (0, ix0)" "index_ok ix0" "length (hx_nodes ix0) = 1"
    "hx_canonical ix0 = [0]" "nd_hash (hx_nodes ix0 ! 0) = hr_hash (sample_hdr 1 0 0)" "nd_cum_work (hx_nodes ix0 ! 0) = w"
    "nd_bits (hx_nodes ix0 ! 0) = hr_bits (sample_hdr 1 0 0)" "pow_ok (hx_nodes ix0 ! 0)" "\<not> invalid (hx_nodes ix0 ! 0)"
    by (rule genesis_index_ok [OF gh, of w])
  let ?s0 = "\<lparr>co_index = ix0, co_checkpoints = checkpoints_new\<rparr>"
  have start: "core_start sample_params ?s0"
    by (rule core_start.intros [OF gh _ g(1)]) (simp add: sample_hdr_def w(1))
  then have inv0: "arena_inv ix0 ?l" using core_start_ok [OF start] by (simp add: core_ok_def)
  have n0: "nd_height (hx_nodes ix0 ! 0) = 0" using index_okD(1) [OF g(2)] by (simp add: nodes_ok_def)
  have idx: "index_of ix0 h = Some i \<longleftrightarrow> unat i = 0 \<and> replicate 32 1 = h" for h i
    using index_okD(2) [OF g(2)] g(3,5) by (auto simp: by_hash_ok_def index_of_def sample_hdr_def)
  obtain cum where cum: "work_checked_add w w = Some cum"
    using work_checked_add_None [of w w] w(3) by fastforce
  then have cv: "work_val cum = work_val w + work_val w" by (simp add: work_checked_add_Some)
  have "index_of ix0 (replicate 32 2) \<noteq> Some i" for i using idx [of "replicate 32 2" i] by simp
  then have "index_of ix0 (replicate 32 2) = None" by (meson not_Some_eq)
  then have fresh: "index_of ix0 (hr_hash (sample_hdr 2 1 1)) = None"
    unfolding sample_hdr_def HeaderRec.select_convs .
  have parent: "index_of ix0 (hr_prev_hash (sample_hdr 2 1 1)) = Some 0" using idx [of "replicate 32 1" 0] by (simp add: sample_hdr_def)
  have z: "unat (0 :: u32) < length (hx_nodes ix0)" "unat (hr_height (sample_hdr 2 1 1)) = hgt (hx_nodes ix0) (unat (0 :: u32)) + 1"
    "length (hx_nodes ix0) + 1 < 2 ^ 32 - 1" using g(3) n0 by (simp_all add: sample_hdr_def)
  obtain i1 n1 ix1 where i: "index_insert ix0 (sample_hdr 2 1 1) 0 cum True = Some (i1, ix1)" "index_ok ix1"
    "hx_nodes ix1 = hx_nodes ix0 @ [n1]" "hx_canonical ix1 = hx_canonical ix0" "pow_ok n1 = True"
    "invalid n1 \<longleftrightarrow> invalid (hx_nodes ix0 ! unat (0 :: u32))"
    and n1: "n1 = \<lparr>nd_hash = hr_hash (sample_hdr 2 1 1), nd_prev = 0, nd_height = hr_height (sample_hdr 2 1 1),
       nd_time = hr_time (sample_hdr 2 1 1), nd_bits = hr_bits (sample_hdr 2 1 1), nd_cum_work = cum,
       nd_branch_base_height = nd_branch_base_height n1, nd_flags = nd_flags n1\<rparr>"
    by (rule insert_index_ok [OF g(2) fresh z, of cum True])
  let ?s1 = "\<lparr>co_index = ix1, co_checkpoints = checkpoints_new\<rparr>"
  have "node ix0 0 = Some (hx_nodes ix0 ! 0)" "hr_height (sample_hdr 2 1 1) = nd_height (hx_nodes ix0 ! 0) + 1"
    "direct_work (hr_bits (sample_hdr 2 1 1)) ?l = Some w" using n0 g(3) w(1) by (simp_all add: node_def sample_hdr_def)
  then have "core_step (\<lambda>_. Some ()) (\<lambda>_ _ _. True) sample_params ?s0 ?s1"
    using cum unfolding g(6) [symmetric] by (intro core_step.insert [OF fresh parent _ _ _ _ z(3) i(1)])
  then have steps1: "sample_steps ?s0 ?s1" by (intro core_steps.step [OF core_steps.refl])
  have nodes1: "hx_nodes ix1 ! 0 = hx_nodes ix0 ! 0" "hx_nodes ix1 ! 1 = n1" "length (hx_nodes ix1) = 2"
    using g(3) by (simp_all add: i(3) nth_append)
  have cn1: "nd_cum_work n1 = cum" by (subst n1) simp
  have less: "nd_cum_work (hx_nodes ix1 ! 0) < nd_cum_work (hx_nodes ix1 ! 1)"
    unfolding nodes1(1,2) cn1 g(6) work_less_iff using w(2) cv by simp
  have tip1: "tip_index ix1 = Some 0" by (simp add: tip_index_def i(4) g(4))
  have best: "select_best_excluding ix1 [] = Some 1"
  proof -
    obtain b where b: "select_best_excluding ix1 [] = Some b" "unat b < 2"
      "\<forall>j. eligible ix1 [] j \<longrightarrow> no_better (hx_nodes ix1 ! j) (hx_nodes ix1 ! unat b)"
      using select_best_ok [OF i(2), of "[]"] nodes1(3) by auto
    have "eligible ix1 [] 1" unfolding eligible_def nodes1(2,3) using i(5,6) g(9) by simp
    then have "no_better (hx_nodes ix1 ! 1) (hx_nodes ix1 ! unat b)" using b(3) by blast
    then have "unat b \<noteq> 0" using less by (intro notI) (auto simp: no_better_def)
    then have "unat b = 1" using b(2) by simp
    then show ?thesis using b(1) by (simp add: word_unat_eq_iff)
  qed
  have inv1: "arena_inv ix1 ?l" using core_steps_ok [OF steps1 core_start_ok [OF start]] by (simp add: core_ok_def)
  have b1: "unat (1 :: u32) < length (hx_nodes ix1)" by (simp add: nodes1(3))
  obtain p where p: "plan_reorg ix1 1 = Some (Some p)" "unat (pl_fork_height p) = fork_len ix1 (unat (1 :: u32)) - 1"
    "pl_apply p = drop (fork_len ix1 (unat (1 :: u32))) (upath (hx_nodes ix1) (unat (1 :: u32)))"
    "fork_len ix1 (unat (1 :: u32)) \<le> length (hx_canonical ix1)"
    by (rule plan_reorg_path [OF i(2) b1 tip1]) simp_all
  have fork: "fork_len ix1 (Suc 0) = Suc 0" using fork_len_bounds(1) [OF i(2), of 1] p(4) nodes1(3) by (simp add: i(4) g(4))
  have "par (hx_nodes ix1) 1 = 0" unfolding nodes1(2) by (subst n1) simp
  then have ap: "pl_apply p = [1]"
    using path_step [OF index_okD(1) [OF i(2)], of 1] nodes1(3) by (simp add: p(3) fork upath_def)
  obtain cand ixp where P: "planned ix1 ?l 1 p cand ixp" by (rule plan_candidate [OF inv1 b1 p(1)])
  have len1: "length (arena_chain ix1 ?l) = 1" by (simp add: arena_chain_def i(4) g(4))
  have "unat (pl_fork_height p) = 0" using p(2) by (simp add: fork)
  then have st: "unat (pl_fork_height p + 1) = 1" by (simp add: unat_word_ariths)
  then have d0: "pl_depth p = 0" using P len1 by (simp add: planned_def word_unat_eq_iff)
  obtain ix2 r where a: "judge_plan ix1 checkpoints_new sample_params 0 p = Some r" "fst r = Inr StrictlyMoreWork"
    "adopt_chain ix1 1 = Some ix2" "tip_index ix2 = Some 1"
    by (rule heavier_accepted [OF inv1 b1 tip1 _ p(1), of checkpoints_new 0]) (use less d0 in \<open>simp_all add: checkpoints_new_def\<close>)
  let ?s2 = "\<lparr>co_index = ix2, co_checkpoints = checkpoints_new\<rparr>"
  have "core_step (\<lambda>_. Some ()) (\<lambda>_ _ _. True) sample_params ?s1 ?s2"
    using a(1,2) by (intro core_step.adopt [OF best p(1) _ a(3), of _ _ 0 StrictlyMoreWork "snd r"]) (cases r, simp)
  then have steps2: "sample_steps ?s1 ?s2" by (intro core_steps.step [OF core_steps.refl])
  have inv2: "arena_inv ix2 ?l" using P a(3) by (simp add: planned_def)
  let ?cps = "\<lparr>ck_enforced = [(1, replicate 32 2)], ck_anchor = Some \<lparr>an_height = 1, an_hash = replicate 32 2\<rparr>, ck_anchor_record = Some sample_cp\<rparr>"
  have ch: "arena_chain ix2 ?l = take 1 (arena_chain ix1 ?l) @ cand" "candidate_infos ix1 ?l [1] = Some (Inr cand)"
    using P a(3) st by (simp_all add: planned_def ap)
  have "nd_hash n1 = replicate 32 2" by (subst n1) (simp add: sample_hdr_def)
  then have "holds_block ix2 ?l (1, replicate 32 2)"
    using ch(2) len1 nodes1(2,3) by (auto simp: holds_block_def ch(1) node_def res_simps nth_append)
  then have "checkpoint_admission (arena_view ix2 ?l) 1 (replicate 32 2) = Some Admit"
    using arena.admission [of "(ix2, ?l)" 1 "replicate 32 2"] inv2 by (simp add: holds_block_def)
  then have "submit_checkpoint (\<lambda>_. Some ()) (\<lambda>_ _ _. True) sample_cp (arena_view ix2 ?l) sample_params checkpoints_new =
      Some (\<lparr>cr_outcome = Admitted, cr_anchor_advanced = True\<rparr>, [], ?cps)"
    by (simp add: submit_checkpoint_def sample_cp_def verify_checkpoint_def checkpoints_new_def install_anchor_def
        anchor_supersedes_def sample_params_def default_params_def CHECKPOINT_SUNSET_HEIGHT_def ZERO_HASH_def word_le_nat_alt)
  then have "core_step (\<lambda>_. Some ()) (\<lambda>_ _ _. True) sample_params ?s2 \<lparr>co_index = ix2, co_checkpoints = ?cps\<rparr>"
    by (rule core_step.checkpoint)
  then have steps3: "sample_steps ?s2 \<lparr>co_index = ix2, co_checkpoints = ?cps\<rparr>" by (intro core_steps.step [OF core_steps.refl])
  show thesis
    by (rule that [OF start steps1 steps2 steps3]) (use best tip1 less p(1) d0 in simp_all)
qed

lemma sample_reached:
  obtains s0 s3 where "core_start sample_params s0" "sample_steps s0 s3" "ck_enforced (co_checkpoints s3) = [(1, replicate 32 2)]"
proof -
  obtain s0 s1 s2 s3 where "core_start sample_params s0" "sample_steps s0 s1" "sample_steps s1 s2" "sample_steps s2 s3"
    "ck_enforced (co_checkpoints s3) = [(1, replicate 32 2)]" by (rule sample_run)
  then show thesis by (intro that [OF _ core_steps_trans [OF _ core_steps_trans]])
qed

section \<open>What holds of every run\<close>

text \<open>C40: A heavier branch wins: when fork choice finds a head with more work than the tip, forking
  above every enforced checkpoint and no deeper than the cap, the manager has a step that makes it
  the tip.\<close>

theorem heavier_branch_adopted:
  assumes "arena_inv ix (pm_pow_limit params)" "select_best_excluding ix skip = Some best" "tip_index ix = Some t"
    and "nd_cum_work (hx_nodes ix ! unat t) < nd_cum_work (hx_nodes ix ! unat best)"
    and "plan_reorg ix best = Some (Some p)"
    and "pm_max_reorg_depth params = 0 \<or> pl_depth p \<le> pm_max_reorg_depth params"
    and "\<forall>c \<in> set (ck_enforced cps). fst c < pl_fork_height p + 1"
  shows "\<exists>ix'. core_step vk verify params \<lparr>co_index = ix, co_checkpoints = cps\<rparr> \<lparr>co_index = ix', co_checkpoints = cps\<rparr> \<and>
    tip_index ix' = Some best"
proof -
  have "unat best < length (hx_nodes ix)"
    using select_best_ok [of ix skip] assms(1,2) by (auto simp: arena_inv_def)
  from heavier_accepted [OF assms(1) this assms(3-7)] obtain ix' r where
    "judge_plan ix cps params 0 p = Some r" "fst r = Inr StrictlyMoreWork" "adopt_chain ix best = Some ix'" "tip_index ix' = Some best" .
  moreover obtain v conds where "r = (v, conds)" by (cases r)
  ultimately show ?thesis using core_step.adopt [OF assms(2,5), of cps params 0 StrictlyMoreWork conds] by auto
qed

theorem heavier_branch_adopted_witness:
  "\<exists>s p. (\<exists>s'. core_step (\<lambda>_. Some ()) (\<lambda>_ _ _. True) sample_params s s' \<and> tip_index (co_index s') = Some 1) \<and>
    tip_index (co_index s) = Some 0 \<and> plan_reorg (co_index s) 1 = Some (Some p)"
proof -
  obtain s0 s1 s2 s3 where r: "core_start sample_params s0" "sample_steps s0 s1" "sample_steps s1 s2" "sample_steps s2 s3"
    "ck_enforced (co_checkpoints s3) = [(1, replicate 32 2)]" "co_checkpoints s1 = checkpoints_new"
    "select_best_excluding (co_index s1) [] = Some 1" "tip_index (co_index s1) = Some 0"
    "nd_cum_work (hx_nodes (co_index s1) ! 0) < nd_cum_work (hx_nodes (co_index s1) ! 1)"
    "\<exists>p. plan_reorg (co_index s1) 1 = Some (Some p) \<and> pl_depth p = 0" by (rule sample_run)
  obtain p where p: "plan_reorg (co_index s1) 1 = Some (Some p)" "pl_depth p = 0" using r(10) by blast
  have inv: "arena_inv (co_index s1) (pm_pow_limit sample_params)"
    using core_steps_ok [OF r(2) core_start_ok [OF r(1)]] by (simp add: core_ok_def)
  have "s1 = \<lparr>co_index = co_index s1, co_checkpoints = checkpoints_new\<rparr>" using r(6) by simp
  moreover obtain ix' where "core_step (\<lambda>_. Some ()) (\<lambda>_ _ _. True) sample_params
      \<lparr>co_index = co_index s1, co_checkpoints = checkpoints_new\<rparr> \<lparr>co_index = ix', co_checkpoints = checkpoints_new\<rparr>"
    "tip_index ix' = Some 1"
    using heavier_branch_adopted [OF inv r(7,8) _ p(1), of checkpoints_new "\<lambda>_. Some ()" "\<lambda>_ _ _. True"] r(9) p(2)
    by (auto simp: checkpoints_new_def)
  ultimately show ?thesis using r(8) p(1) by (metis Core.select_convs(1))
qed

text \<open>C6: The state the manager keeps is sound in every reachable state: the arena is a tree of valid
  ancestry whose canonical list is the path from genesis to the tip, the work of a node is that of its
  header plus its parent's, and the enforced checkpoints are sorted, one per height, and on the
  canonical chain.\<close>

theorem core_invariant:
  assumes "core_start params s0" "core_steps vk verify params s0 s"
  shows "arena_inv (co_index s) (pm_pow_limit params) \<and> enforced_ok (ck_enforced (co_checkpoints s)) \<and>
    (\<forall>c \<in> set (ck_enforced (co_checkpoints s)). holds_block (co_index s) (pm_pow_limit params) c)"
  using core_steps_ok [OF assms(2) core_start_ok [OF assms(1)]] by (simp add: core_ok_def)

theorem core_invariant_witness:
  "\<exists>s :: Core. ck_enforced (co_checkpoints s) = [(1, replicate 32 2)] \<and>
    holds_block (co_index s) (pm_pow_limit sample_params) (1, replicate 32 2)"
proof -
  obtain s0 s3 where "core_start sample_params s0" "sample_steps s0 s3" "ck_enforced (co_checkpoints s3) = [(1, replicate 32 2)]"
    by (rule sample_reached)
  moreover from core_invariant [OF this(1,2)] this(3)
  have "holds_block (co_index s3) (pm_pow_limit sample_params) (1, replicate 32 2)" by simp
  ultimately show ?thesis by blast
qed

text \<open>C4: Checkpoints are final: once a checkpoint is enforced, its block is on the canonical chain in
  every later state, whatever headers arrive and whichever branches are adopted or marked invalid.\<close>

theorem enforced_checkpoints_final:
  assumes "core_start params s0" "core_steps vk verify params s0 s" "core_steps vk verify params s s'"
    and "c \<in> set (ck_enforced (co_checkpoints s))"
  shows "c \<in> set (ck_enforced (co_checkpoints s')) \<and> holds_block (co_index s') (pm_pow_limit params) c"
proof -
  have "core_ok params s" using core_steps_ok [OF assms(2) core_start_ok [OF assms(1)]] by simp
  then show ?thesis using core_steps_ok [OF assms(3)] assms(4) by (auto simp: core_ok_def core_grows_def)
qed

theorem enforced_checkpoints_final_witness:
  "\<exists>s. ck_enforced (co_checkpoints s) = [(1, replicate 32 2)] \<and>
    (\<forall>s'. sample_steps s s' = (sample_steps s s' \<and> holds_block (co_index s') (pm_pow_limit sample_params) (1, replicate 32 2)))"
proof -
  obtain s0 s3 where "core_start sample_params s0" "sample_steps s0 s3" "ck_enforced (co_checkpoints s3) = [(1, replicate 32 2)]"
    by (rule sample_reached)
  note r = this
  have "holds_block (co_index s') (pm_pow_limit sample_params) (1, replicate 32 2)" if "sample_steps s3 s'" for s'
    using enforced_checkpoints_final [OF r(1,2) that, of "(1, replicate 32 2)"] by (simp add: r(3))
  then show ?thesis using r(3) by blast
qed

text \<open>C5: Work and anchor only grow: along every run the work of the canonical chain never drops and
  the signed anchor only moves up.\<close>

theorem chain_work_never_drops:
  assumes "core_start params s0" "core_steps vk verify params s0 s" "core_steps vk verify params s s'"
  shows "chain_work (co_index s) (pm_pow_limit params) \<le> chain_work (co_index s') (pm_pow_limit params) \<and>
    anchor_le (ck_anchor (co_checkpoints s)) (ck_anchor (co_checkpoints s'))"
  using core_steps_ok [OF assms(3)] core_steps_ok [OF assms(2) core_start_ok [OF assms(1)]] by (simp add: core_grows_def)

theorem chain_work_never_drops_witness:
  "\<exists>s s'. s \<noteq> s' \<and> sample_steps s s' \<and> chain_work (co_index s) (pm_pow_limit sample_params) \<le>
    chain_work (co_index s') (pm_pow_limit sample_params)"
proof -
  obtain s0 s3 where r: "core_start sample_params s0" "sample_steps s0 s3" "ck_enforced (co_checkpoints s3) = [(1, replicate 32 2)]"
    by (rule sample_reached)
  have "s0 \<noteq> s3" using r(1,3) by (auto elim!: core_startE simp: checkpoints_new_def)
  then show ?thesis
    using chain_work_never_drops [OF r(1) core_steps.refl r(2)] r(2) by blast
qed

text \<open>Reorganisations stop short of matured rewards: under a depth cap below the maturity, and with
  no signed anchor, an accepted plan forks so close to the tip that no block above the fork, and so no
  block it rolls back, has a reward the next block could spend.\<close>

theorem reorg_spares_mature:
  assumes "arena_inv ix (pm_pow_limit params)" "select_best_excluding ix skip = Some best"
    and "plan_reorg ix best = Some (Some p)" "judge_plan ix cps params now p = Some (Inr v, conds)"
    and "ck_anchor cps = None" "0 < pm_max_reorg_depth params" "pm_max_reorg_depth params < COINBASE_MATURITY"
    and "index_tip_height ix = Some tip"
  shows "set (pl_rollback p) \<subseteq> {h. pl_fork_height p < h} \<and>
    {h. pl_fork_height p < h} \<subseteq> {h. \<not> coinbase_is_mature h (tip + 1)}"
proof -
  let ?l = "pm_pow_limit params"
  have b: "unat best < length (hx_nodes ix)"
    using select_best_ok [of ix skip] assms(1,2) by (auto simp: arena_inv_def)
  obtain cand ix' where P: "planned ix ?l best p cand ix'" by (rule plan_candidate [OF assms(1) b assms(3)])
  have d: "pl_depth p < COINBASE_MATURITY" and ne: "cand \<noteq> []"
    using judge_iff [OF P, of cps now v] assms(4-7) by auto
  have "unat (pl_fork_height p + 1) = unat (pl_fork_height p) + 1"
    using planned_numbers(4) [OF P ne] unsigned_less [of "pl_fork_height p", where ?'a = nat]
    by (auto simp: unat_word_ariths mod_Suc split: if_splits)
  then have above: "pl_fork_height p < h \<longleftrightarrow> unat (pl_fork_height p + 1) \<le> unat h" for h
    by (simp add: word_less_nat_alt Suc_le_eq)
  have roll: "map unat (pl_rollback p) = rev [unat (pl_fork_height p + 1)..<length (arena_chain ix ?l)]"
    and len: "unat (pl_depth p) = length (arena_chain ix ?l) - unat (pl_fork_height p + 1)"
    "length (arena_chain ix ?l) = length (hx_canonical ix)"
    using P by (simp_all add: planned_def arena_chain_def)
  have "unat h \<in> set (map unat (pl_rollback p))" if "h \<in> set (pl_rollback p)" for h using that by simp
  then have low: "unat (pl_fork_height p + 1) \<le> unat h" if "h \<in> set (pl_rollback p)" for h
    using that unfolding roll by simp
  have ok: "index_ok ix" using assms(1) by (simp add: arena_inv_def)
  obtain t where t: "tip_index ix = Some t" using tip_path [OF ok] by blast
  have "length (hx_canonical ix) < 2 ^ 32" by (rule arena_facts [OF assms(1)])
  then have "unat (tip + 1) = length (hx_canonical ix)"
    using canonical_length(1,3) [OF ok t] assms(8) by (simp add: unat_word_ariths)
  then have "\<not> coinbase_is_mature h (tip + 1)" if "pl_fork_height p < h" for h
    using d that [unfolded above] len by (simp add: mature_iff COINBASE_MATURITY_def word_less_nat_alt)
  then show ?thesis using low above by blast
qed

theorem reorg_spares_mature_witness:
  "\<exists>ix p tip. plan_reorg ix 1 = Some (Some p) \<and> index_tip_height ix = Some tip \<and>
    {h. pl_fork_height p < h} \<subseteq> {h. \<not> coinbase_is_mature h (tip + 1)}"
proof -
  obtain s0 s1 s2 s3 where r: "core_start sample_params s0" "sample_steps s0 s1" "sample_steps s1 s2" "sample_steps s2 s3"
    "ck_enforced (co_checkpoints s3) = [(1, replicate 32 2)]" "co_checkpoints s1 = checkpoints_new"
    "select_best_excluding (co_index s1) [] = Some 1" "tip_index (co_index s1) = Some 0"
    "nd_cum_work (hx_nodes (co_index s1) ! 0) < nd_cum_work (hx_nodes (co_index s1) ! 1)"
    "\<exists>p. plan_reorg (co_index s1) 1 = Some (Some p) \<and> pl_depth p = 0" by (rule sample_run)
  let ?ix = "co_index s1"
  obtain p where p: "plan_reorg ?ix 1 = Some (Some p)" "pl_depth p = 0" using r(10) by blast
  have inv: "arena_inv ?ix (pm_pow_limit sample_params)"
    using core_steps_ok [OF r(2) core_start_ok [OF r(1)]] by (simp add: core_ok_def)
  then have ok: "index_ok ?ix" by (simp add: arena_inv_def)
  have b: "unat (1 :: u32) < length (hx_nodes ?ix)" using select_best_ok [OF ok, of "[]"] r(7) by auto
  obtain ix' x where j: "judge_plan ?ix checkpoints_new sample_params 0 p = Some x" "fst x = Inr StrictlyMoreWork"
    by (rule heavier_accepted [OF inv b r(8) _ p(1), of checkpoints_new 0]) (use r(9) p(2) in \<open>simp_all add: checkpoints_new_def\<close>)
  obtain conds where "judge_plan ?ix checkpoints_new sample_params 0 p = Some (Inr StrictlyMoreWork, conds)"
    using j by (cases x) auto
  moreover have "ck_anchor checkpoints_new = None" "0 < pm_max_reorg_depth sample_params"
    "pm_max_reorg_depth sample_params < COINBASE_MATURITY"
    by (simp_all add: checkpoints_new_def sample_params_def default_params_def MAX_REORG_DEPTH_def COINBASE_MATURITY_def)
  ultimately show ?thesis
    using reorg_spares_mature [OF inv r(7) p(1)] canonical_length(3) [OF ok r(8)] p(1) by blast
qed

end
