(* ===== verification/Mempool.thy ===== *)
theory Mempool imports Body "HOL-Library.AList" begin

text \<open>
  \<open>lib/chain/src/mempool.rs\<close>: the pool of pending transactions. A hash map that the code iterates over
  is an association list with distinct keys, whose order stands for the order of iteration; a
  \<open>BTreeMap\<close> is an association list sorted by key; the observer's conditions are returned. \<open>None\<close>
  is a panic: an index that is missing, or an overflow (the release profile checks them).
\<close>

section \<open>Ordered maps and sorting\<close>

text \<open>\<open>BTreeMap::insert\<close> and \<open>remove\<close>.\<close>

fun bt_insert :: "'k::linorder \<Rightarrow> 'v \<Rightarrow> ('k \<times> 'v) list \<Rightarrow> ('k \<times> 'v) list" where
  "bt_insert k v [] = [(k, v)]"
| "bt_insert k v ((k', v') # m) =
     (if k < k' then (k, v) # (k', v') # m else if k = k' then (k, v) # m else (k', v') # bt_insert k v m)"

definition bt_remove :: "'k \<Rightarrow> ('k \<times> 'v) list \<Rightarrow> ('k \<times> 'v) list" where
  "bt_remove k m = filter (\<lambda>(k', _). k' \<noteq> k) m"

text \<open>\<open>sort_by\<close> is stable; \<open>min_by\<close> returns the first of the least elements.\<close>

fun insert_by :: "('a \<Rightarrow> 'a \<Rightarrow> bool) \<Rightarrow> 'a \<Rightarrow> 'a list \<Rightarrow> 'a list" where
  "insert_by lt x [] = [x]"
| "insert_by lt x (y # ys) = (if lt y x then y # insert_by lt x ys else x # y # ys)"

definition sort_by :: "('a \<Rightarrow> 'a \<Rightarrow> bool) \<Rightarrow> 'a list \<Rightarrow> 'a list" where
  "sort_by lt xs = foldr (insert_by lt) xs []"

fun min_by :: "('a \<Rightarrow> 'a \<Rightarrow> bool) \<Rightarrow> 'a list \<Rightarrow> 'a option" where
  "min_by lt [] = None"
| "min_by lt (x # xs) = Some (fold (\<lambda>y m. if lt y m then y else m) xs x)"

section \<open>The pool\<close>

datatype Provenance = Verified | ValidatedBlock

datatype SigProof = SigProof Provenance

definition proof_verify ::
  "(bytes \<Rightarrow> 'vk option) \<Rightarrow> ('vk \<Rightarrow> bytes \<Rightarrow> bytes \<Rightarrow> bool) \<Rightarrow> Network \<Rightarrow> Tx \<Rightarrow> bytes \<Rightarrow> Reject + SigProof" where
  "proof_verify vk verify network tx author_pubkey =
     and_then
       (case tx of
          Transfer t \<Rightarrow> map_err (\<lambda>_. Reject.BadTransferSignature 0) (verify_transfer_signature vk verify network t)
        | Announcement a \<Rightarrow>
            map_err (\<lambda>err. Reject.Tx 0 err) (check_announcement_stateless vk verify network a author_pubkey)
        | Coinbase _ \<Rightarrow> Inl (TxTypeNotRelayable 0))
       (\<lambda>_. Inr (SigProof Verified))"

definition from_validated_block :: SigProof where
  "from_validated_block = SigProof ValidatedBlock"

definition is_freshly_verified :: "SigProof \<Rightarrow> bool" where
  "is_freshly_verified p \<longleftrightarrow> p = SigProof Verified"

datatype AuthorRule = Enforce bytes | AlreadyHeld

record Prepared =
  pr_raw :: bytes
  pr_tx :: Tx
  pr_txid :: Hash32
  pr_sender :: Address
  pr_nonce :: u64
  pr_fee :: u128
  pr_amount :: u128
  pr_next :: u64
  pr_replaces :: "Hash32 option"

record PoolTx =
  pt_txid :: Hash32
  pt_sender :: Address
  pt_nonce :: u64
  pt_fee :: u128
  pt_amount :: u128
  pt_bytes :: bytes
  pt_arrived :: u64
  pt_sig_verified :: bool
  pt_executable :: bool

definition fee_per_byte :: "PoolTx \<Rightarrow> u128" where
  "fee_per_byte t = pt_fee t div word_of_nat (max (length (pt_bytes t)) 1)"

record Mempool =
  mp_params :: MempoolParams
  mp_txs :: "(Hash32 \<times> PoolTx) list"
  mp_by_sender :: "(Address \<times> (u64 \<times> Hash32) list) list"
  mp_next_nonce :: "Address \<rightharpoonup> u64"
  mp_arrival :: "Hash32 list"
  mp_total_bytes :: nat

record Admitted =
  ad_txid :: Hash32
  ad_executable :: bool
  ad_promoted :: "Hash32 list"
  ad_removed :: "Hash32 list"

definition mempool_new :: "MempoolParams \<Rightarrow> Mempool" where
  "mempool_new params = \<lparr>mp_params = params, mp_txs = [], mp_by_sender = [], mp_next_nonce = Map.empty,
     mp_arrival = [], mp_total_bytes = 0\<rparr>"

definition mempool_len :: "Mempool \<Rightarrow> nat" where
  "mempool_len p = length (mp_txs p)"

definition mempool_is_empty :: "Mempool \<Rightarrow> bool" where
  "mempool_is_empty p \<longleftrightarrow> mp_txs p = []"

definition mempool_get :: "Mempool \<Rightarrow> Hash32 \<Rightarrow> PoolTx option" where
  "mempool_get p h = map_of (mp_txs p) h"

definition sender_len :: "Mempool \<Rightarrow> Address \<Rightarrow> nat" where
  "sender_len p s = (case map_of (mp_by_sender p) s of None \<Rightarrow> 0 | Some m \<Rightarrow> length m)"

definition sender_txs :: "Mempool \<Rightarrow> Address \<Rightarrow> PoolTx list" where
  "sender_txs p s =
     (case map_of (mp_by_sender p) s of
        None \<Rightarrow> []
      | Some m \<Rightarrow> List.map_filter (\<lambda>h. map_of (mp_txs p) h) (map snd m))"

definition executable_len :: "Mempool \<Rightarrow> nat" where
  "executable_len p = length (filter pt_executable (map snd (mp_txs p)))"

definition executable_ids :: "Mempool \<Rightarrow> Hash32 list" where
  "executable_ids p =
     map pt_txid (sort_by (\<lambda>a b. fee_per_byte b < fee_per_byte a \<or> fee_per_byte b = fee_per_byte a \<and>
         (pt_sender a < pt_sender b \<or> pt_sender a = pt_sender b \<and> pt_nonce a < pt_nonce b))
       (filter pt_executable (map snd (mp_txs p))))"

definition pool_per_sender :: "Mempool \<Rightarrow> nat" where
  "pool_per_sender p = effective_per_sender (mp_params p)"

definition tracked_senders :: "Mempool \<Rightarrow> nat" where
  "tracked_senders p = card (dom (mp_next_nonce p))"

section \<open>The index behind it\<close>

definition pool_insert :: "PoolTx \<Rightarrow> Mempool \<Rightarrow> Mempool" where
  "pool_insert t p =
     (let m = (case map_of (mp_by_sender p) (pt_sender t) of None \<Rightarrow> [] | Some m \<Rightarrow> m) in
      p\<lparr>mp_total_bytes := mp_total_bytes p + length (pt_bytes t), mp_arrival := mp_arrival p @ [pt_txid t],
        mp_by_sender := AList.update (pt_sender t) (bt_insert (pt_nonce t) (pt_txid t) m) (mp_by_sender p),
        mp_txs := AList.update (pt_txid t) t (mp_txs p)\<rparr>)"

definition pool_remove :: "Hash32 \<Rightarrow> Mempool \<Rightarrow> (PoolTx option \<times> Mempool) option" where
  "pool_remove h p =
     (case map_of (mp_txs p) h of
        None \<Rightarrow> Some (None, p)
      | Some t \<Rightarrow>
          if mp_total_bytes p < length (pt_bytes t) then None
          else
            let p = p\<lparr>mp_txs := AList.delete h (mp_txs p), mp_total_bytes := mp_total_bytes p - length (pt_bytes t)\<rparr>;
                p = (case map_of (mp_by_sender p) (pt_sender t) of
                       None \<Rightarrow> p
                     | Some m \<Rightarrow>
                         let m = bt_remove (pt_nonce t) m in
                         if m = []
                         then p\<lparr>mp_by_sender := AList.delete (pt_sender t) (mp_by_sender p),
                                mp_next_nonce := (mp_next_nonce p)(pt_sender t := None)\<rparr>
                         else p\<lparr>mp_by_sender := AList.update (pt_sender t) m (mp_by_sender p)\<rparr>)
            in Some (Some t, p\<lparr>mp_arrival := filter (\<lambda>x. x \<noteq> h) (mp_arrival p)\<rparr>))"

definition drop_below_nonce :: "Address \<Rightarrow> u64 \<Rightarrow> Mempool \<Rightarrow> Mempool option" where
  "drop_below_nonce who next p =
     (let stale = (case map_of (mp_by_sender p) who of
                     None \<Rightarrow> []
                   | Some m \<Rightarrow> map snd (takeWhile (\<lambda>(n, _). n < next) m))
      in for_each (\<lambda>h p. map_option snd (pool_remove h p)) stale p)"

fun resplit_loop ::
  "(u64 \<times> Hash32) list \<Rightarrow> u64 \<Rightarrow> (Hash32 \<times> PoolTx) list \<Rightarrow> (Hash32 list \<times> (Hash32 \<times> PoolTx) list) option" where
  "resplit_loop [] want txs = Some ([], txs)"
| "resplit_loop ((n, h) # ids) want txs =
     (let exec = n = want in do {
        want \<leftarrow> (if exec then checked_add want 1 else Some want);
        t \<leftarrow> map_of txs h;
        (promoted, txs) \<leftarrow> resplit_loop ids want (AList.update h (t\<lparr>pt_executable := exec\<rparr>) txs);
        Some ((if exec \<and> \<not> pt_executable t then [h] else []) @ promoted, txs)
      })"

definition pool_resplit :: "Address \<Rightarrow> u64 \<Rightarrow> Mempool \<Rightarrow> (Hash32 list \<times> Mempool) option" where
  "pool_resplit who next p =
     (case map_of (mp_by_sender p) who of
        None \<Rightarrow> Some ([], p)
      | Some m \<Rightarrow> map_option (\<lambda>(promoted, txs). (promoted, p\<lparr>mp_txs := txs\<rparr>)) (resplit_loop m next (mp_txs p)))"

definition pending_outlay :: "Mempool \<Rightarrow> Address \<Rightarrow> u128" where
  "pending_outlay p who =
     fold (\<lambda>b a. saturating_add a b) (map (\<lambda>t. saturating_add (pt_amount t) (pt_fee t)) (sender_txs p who)) 0"

definition eviction_candidate :: "Mempool \<Rightarrow> (Hash32 \<times> EvictReason) option" where
  "eviction_candidate p =
     (case min_by (\<lambda>a b. fee_per_byte a < fee_per_byte b \<or> fee_per_byte a = fee_per_byte b \<and>
             (pt_arrived b < pt_arrived a \<or> pt_arrived b = pt_arrived a \<and> pt_txid b < pt_txid a))
           (filter (\<lambda>t. \<not> pt_executable t) (map snd (mp_txs p))) of
        Some t \<Rightarrow> Some (pt_txid t, QueuedLowFee)
      | None \<Rightarrow> do {
          head \<leftarrow> min_by (\<lambda>a b. fee_per_byte a < fee_per_byte b \<or>
              fee_per_byte a = fee_per_byte b \<and> pt_sender a < pt_sender b)
            (filter pt_executable (map snd (mp_txs p)));
          m \<leftarrow> map_of (mp_by_sender p) (pt_sender head);
          (if m = [] then None else Some (snd (last m), ExecutableTail))
        })"

section \<open>Admission\<close>

definition tx_parts :: "u8 \<Rightarrow> Tx \<Rightarrow> Reject + (bytes \<times> u64 \<times> u128 \<times> u128 \<times> Hash32)" where
  "tx_parts type_byte tx =
     (case tx of
        Transfer t \<Rightarrow> Inr (tr_from_pub t, tr_nonce t, tr_fee t, tr_amount t, transfer_txid t)
      | Announcement a \<Rightarrow>
          and_then (map_err (\<lambda>_. Reject.TxDecode) (announcement_txid a)) (\<lambda>h.
          Inr (an_from_pub a, an_nonce a, an_fee a, 0, h))
      | Coinbase _ \<Rightarrow> Inl (TxTypeNotRelayable type_byte))"

text \<open>What a replacement displaces: its outlay, after the fee bump is paid.\<close>

definition replaced_outlay :: "Mempool \<Rightarrow> Hash32 option \<Rightarrow> u128 \<Rightarrow> (Reject + u128) option" where
  "replaced_outlay p replaces fee =
     (case replaces of
        None \<Rightarrow> Some (Inr 0)
      | Some old_id \<Rightarrow>
         (case map_of (mp_txs p) old_id of
            None \<Rightarrow> None
          | Some old \<Rightarrow>
              let bump = max (pt_fee old div 4) 1 in
              and_thenp (Some (ok_or Reject.ArithmeticOverflow (checked_add (pt_fee old) bump))) (\<lambda>need.
              if fee < need then Some (Inl (Reject.ReplacementUnderpriced need fee))
              else Some (Inr (saturating_add (pt_amount old) (pt_fee old))))))"

definition mempool_check ::
  "bytes \<Rightarrow> AuthorRule \<Rightarrow> (Address \<Rightarrow> Account \<times> u128) \<Rightarrow> Mempool \<Rightarrow> (Reject + Prepared) option" where
  "mempool_check raw author lookup p =
     (if MAX_TX_BYTES < length raw then Some (Inl (Reject.TxTooLarge (length raw)))
      else case raw of
        [] \<Rightarrow> Some (Inl Reject.TxDecode)
      | type_byte # _ \<Rightarrow>
      if type_byte = TX_TYPE_COINBASE then Some (Inl (TxTypeNotRelayable type_byte))
      else
      and_thenp (Some (map_err (\<lambda>_. Reject.TxDecode) (decode_tx raw))) (\<lambda>tx.
      and_thenp (Some (tx_parts type_byte tx)) (\<lambda>(sender_pub, n, fee, amount, h).
      let who = address_payload sender_pub in
      if (case (tx, author) of (Announcement a, Enforce key) \<Rightarrow> an_from_pub a \<noteq> key | _ \<Rightarrow> False)
      then Some (Inl (Reject.Tx 0 TxError.NotAuthorKey))
      else if fee < FEE_FLOOR_MILE then Some (Inl (BelowRelayFloor fee FEE_FLOOR_MILE))
      else if fee < mpp_relay_fee_floor (mp_params p) then Some (Inl (BelowRelayFloor fee (mpp_relay_fee_floor (mp_params p))))
      else if map_of (mp_txs p) h \<noteq> None then Some (Inl TxKnown)
      else let (acct, spendable) = lookup who; next = ac_nonce acct in
      if n < next then Some (Inl (TxStale next n))
      else if saturating_add next (mpp_max_nonce_gap (mp_params p)) < n then Some (Inl (NonceGapTooLarge next n))
      else let replaces = Option.bind (map_of (mp_by_sender p) who) (\<lambda>m. map_of m n) in
      and_thenp (replaced_outlay p replaces fee) (\<lambda>displaced_outlay.
      and_thenp (Some (ok_or Reject.ArithmeticOverflow (checked_add amount fee))) (\<lambda>outlay.
      let pending = saturating_sub (pending_outlay p who) displaced_outlay in
      and_thenp (Some (ok_or Reject.ArithmeticOverflow (checked_add pending outlay))) (\<lambda>total.
      if spendable < total then Some (Inl (Reject.InsufficientBalance 0 total spendable))
      else let held = sender_len p who - (if replaces \<noteq> None then 1 else 0) in
      if pool_per_sender p \<le> held then Some (Inl (Reject.SenderCap (pool_per_sender p)))
      else Some (Inr \<lparr>pr_raw = raw, pr_tx = tx, pr_txid = h, pr_sender = who, pr_nonce = n, pr_fee = fee,
        pr_amount = amount, pr_next = next, pr_replaces = replaces\<rparr>)))))))"

text \<open>\<open>sort_unstable\<close> and \<open>dedup\<close> of addresses.\<close>

definition distinct_senders :: "Address list \<Rightarrow> Address list" where
  "distinct_senders xs = remdups_adj (sort xs)"

definition sweep_expired :: "u64 \<Rightarrow> Mempool \<Rightarrow> (Hash32 list \<times> Mempool) option" where
  "sweep_expired now p = do {
     let ttl = mpp_ttl_secs (mp_params p);
     let dead = map pt_txid (filter (\<lambda>t. ttl < saturating_sub now (pt_arrived t)) (map snd (mp_txs p)));
     (senders, p) \<leftarrow> for_each (\<lambda>h (senders, p).
         map_option (\<lambda>(_, p'). (case map_of (mp_txs p) h of None \<Rightarrow> senders | Some t \<Rightarrow> senders @ [pt_sender t], p'))
           (pool_remove h p)) dead ([], p);
     p \<leftarrow> for_each (\<lambda>s p. let next = (case mp_next_nonce p s of None \<Rightarrow> 0 | Some n \<Rightarrow> n)
         in map_option snd (pool_resplit s next p)) (distinct_senders senders) p;
     Some (dead, p)
   }"

lemma pool_remove_length:
  assumes "pool_remove h p = Some (r, p')" "map_of (mp_txs p) h \<noteq> None"
  shows "length (mp_txs p') < length (mp_txs p)"
proof -
  have "mp_txs p' = AList.delete h (mp_txs p)"
    using assms by (auto simp: pool_remove_def Let_def split: option.splits if_splits)
  moreover have "length (AList.delete h xs) < length xs" if "h \<in> fst ` set xs" for xs :: "(Hash32 \<times> PoolTx) list"
    using that unfolding AList.delete_eq by (auto intro!: length_filter_less)
  ultimately show ?thesis using assms(2) by (auto simp: map_of_eq_None_iff)
qed

text \<open>
  The eviction loop: whether it refuses the newcomer, what it removed, what the observer hears, and the
  pool it leaves.
\<close>

function evict_loop ::
  "nat \<Rightarrow> u128 \<Rightarrow> Mempool \<Rightarrow> (bool \<times> Hash32 list \<times> Condition list \<times> Mempool) option" where
  "evict_loop raw_len incoming_fpb p =
     (if mpp_max_txs (mp_params p) \<le> length (mp_txs p) \<or> mpp_max_bytes (mp_params p) < mp_total_bytes p + raw_len
      then (case eviction_candidate p of
          None \<Rightarrow> Some (True, [], [], p)
        | Some (victim, reason) \<Rightarrow>
           (case map_of (mp_txs p) victim of
              None \<Rightarrow> None
            | Some t \<Rightarrow>
                if incoming_fpb < fee_per_byte t then Some (True, [], [], p)
                else (case pool_remove victim p of
                    None \<Rightarrow> None
                  | Some (_, p) \<Rightarrow> map_option (\<lambda>(refuse, removed, conds, p).
                      (refuse, victim # removed, MempoolEvicted 1 reason # conds, p)) (evict_loop raw_len incoming_fpb p))))
      else Some (False, [], [], p))"
  by pat_completeness auto

termination
  by (relation "measure (\<lambda>(n, f, p). length (mp_txs p))") (auto dest: pool_remove_length)

declare evict_loop.simps [simp del]

definition mempool_commit ::
  "Prepared \<Rightarrow> SigProof \<Rightarrow> u64 \<Rightarrow> Mempool \<Rightarrow> (Condition list \<times> Mempool \<times> (Reject + Admitted)) option" where
  "mempool_commit pr proof now p = do {
     (expired, p) \<leftarrow> sweep_expired now p;
     let swept = (if expired = [] then [] else [MempoolEvicted (length expired) Expired]);
     (displaced, p) \<leftarrow> (case pr_replaces pr of None \<Rightarrow> Some (None, p) | Some old_id \<Rightarrow> pool_remove old_id p);
     let incoming_fpb = pr_fee pr div word_of_nat (max (length (pr_raw pr)) 1);
     (refuse, removed, conds, p) \<leftarrow> evict_loop (length (pr_raw pr)) incoming_fpb p;
     if refuse
     then (case displaced of
         None \<Rightarrow> Some (swept @ conds, p, Inl Reject.PoolFull)
       | Some old \<Rightarrow> do {
           (_, p) \<leftarrow> pool_resplit (pr_sender pr) (pr_next pr) (pool_insert old p);
           Some (swept @ conds, p, Inl Reject.PoolFull)
         })
     else do {
       let removed = (case pr_replaces pr of None \<Rightarrow> removed | Some old_id \<Rightarrow> old_id # removed);
       let pt = \<lparr>pt_txid = pr_txid pr, pt_sender = pr_sender pr, pt_nonce = pr_nonce pr, pt_fee = pr_fee pr,
         pt_amount = pr_amount pr, pt_bytes = pr_raw pr, pt_arrived = now, pt_sig_verified = True, pt_executable = False\<rparr>;
       let p = pool_insert pt (p\<lparr>mp_next_nonce := (mp_next_nonce p)(pr_sender pr \<mapsto> pr_next pr)\<rparr>);
       (promoted, p) \<leftarrow> pool_resplit (pr_sender pr) (pr_next pr) p;
       t \<leftarrow> map_of (mp_txs p) (pr_txid pr);
       Some (swept @ conds, p, Inr \<lparr>ad_txid = pr_txid pr, ad_executable = pt_executable t,
         ad_promoted = filter (\<lambda>h. h \<noteq> pr_txid pr) promoted, ad_removed = removed\<rparr>)
     }
   }"

text \<open>\<open>submit\<close> and \<open>submit_verified\<close>; a check that fails leaves the pool alone.\<close>

definition mempool_submit ::
  "bytes \<Rightarrow> Account \<Rightarrow> u128 \<Rightarrow> u64 \<Rightarrow> SigProof \<Rightarrow> Mempool \<Rightarrow> (Condition list \<times> Mempool \<times> (Reject + Admitted)) option" where
  "mempool_submit raw acct spendable now proof p =
     (case mempool_check raw AlreadyHeld (\<lambda>_. (acct, spendable)) p of
        None \<Rightarrow> None
      | Some (Inl e) \<Rightarrow> Some ([], p, Inl e)
      | Some (Inr prepared) \<Rightarrow> mempool_commit prepared proof now p)"

definition submit_verified ::
  "(bytes \<Rightarrow> 'vk option) \<Rightarrow> ('vk \<Rightarrow> bytes \<Rightarrow> bytes \<Rightarrow> bool) \<Rightarrow> Network \<Rightarrow> bytes \<Rightarrow> (Address \<Rightarrow> Account \<times> u128) \<Rightarrow> u64 \<Rightarrow> bytes \<Rightarrow>
   Mempool \<Rightarrow> (Condition list \<times> Mempool \<times> (Reject + Admitted)) option" where
  "submit_verified vk verify network raw lookup now author_pubkey p =
     (case mempool_check raw (Enforce author_pubkey) lookup p of
        None \<Rightarrow> None
      | Some (Inl e) \<Rightarrow> Some ([], p, Inl e)
      | Some (Inr prepared) \<Rightarrow>
         (case proof_verify vk verify network (pr_tx prepared) author_pubkey of
            Inl e \<Rightarrow> Some ([], p, Inl e)
          | Inr proof \<Rightarrow> mempool_commit prepared proof now p))"

section \<open>The chain moves\<close>

text \<open>A sender's account has a new nonce: the loops over senders do the same for each.\<close>

definition renew_sender :: "(Address \<Rightarrow> Account) \<Rightarrow> Address \<Rightarrow> Mempool \<Rightarrow> Mempool option" where
  "renew_sender account s p = do {
     let next = ac_nonce (account s);
     p \<leftarrow> drop_below_nonce s next (p\<lparr>mp_next_nonce := (mp_next_nonce p)(s \<mapsto> next)\<rparr>);
     map_option snd (pool_resplit s next p)
   }"

fun remove_spent :: "(Address \<times> u64) list \<Rightarrow> nat \<Rightarrow> Mempool \<Rightarrow> (nat \<times> Mempool) option" where
  "remove_spent [] n p = Some (n, p)"
| "remove_spent ((who, k) # spent) n p =
     (case Option.bind (map_of (mp_by_sender p) who) (\<lambda>m. map_of m k) of
        None \<Rightarrow> remove_spent spent n p
      | Some h \<Rightarrow> (case pool_remove h p of None \<Rightarrow> None | Some (_, p) \<Rightarrow> remove_spent spent (n + 1) p))"

definition on_block_connected :: "(Address \<times> u64) list \<Rightarrow> (Address \<Rightarrow> Account) \<Rightarrow> Mempool \<Rightarrow> (nat \<times> Mempool) option" where
  "on_block_connected spent account_nonce p = do {
     (n, p) \<leftarrow> remove_spent spent 0 p;
     p \<leftarrow> for_each (renew_sender account_nonce) (distinct_senders (map fst spent)) p;
     Some (n, p)
   }"

text \<open>The senders are listed in the order of the hash map; each is renewed on its own.\<close>

definition resplit_all :: "(Address \<Rightarrow> Account) \<Rightarrow> Mempool \<Rightarrow> Mempool option" where
  "resplit_all account p = for_each (renew_sender account) (map fst (mp_by_sender p)) p"

fun reinject_loop ::
  "nat \<Rightarrow> (Address \<Rightarrow> Account \<times> u128) \<Rightarrow> u64 \<Rightarrow> bytes list \<Rightarrow> nat \<Rightarrow> nat \<Rightarrow> Mempool \<Rightarrow>
   (nat \<times> nat \<times> Condition list \<times> Mempool) option" where
  "reinject_loop cap lookup now [] taken dropped p = Some (taken, dropped, [], p)"
| "reinject_loop cap lookup now (raw # raws) taken dropped p =
     (if cap \<le> taken then reinject_loop cap lookup now raws taken (dropped + 1) p
      else case decode_tx raw of
          Inl _ \<Rightarrow> reinject_loop cap lookup now raws taken (dropped + 1) p
        | Inr (Coinbase _) \<Rightarrow> reinject_loop cap lookup now raws taken dropped p
        | Inr tx \<Rightarrow>
            let (acct, spendable) = lookup (sender tx)
            in (case mempool_submit raw acct spendable now from_validated_block p of
                  None \<Rightarrow> None
                | Some (conds, p, r) \<Rightarrow>
                    map_option (\<lambda>(taken, dropped, conds', p). (taken, dropped, conds @ conds', p))
                      (case r of
                         Inl _ \<Rightarrow> reinject_loop cap lookup now raws taken (dropped + 1) p
                       | Inr _ \<Rightarrow> reinject_loop cap lookup now raws (taken + 1) dropped p)))"

definition on_reorg_reinject ::
  "(u64 \<times> bytes list) list \<Rightarrow> u64 \<Rightarrow> (Address \<Rightarrow> Account \<times> u128) \<Rightarrow> Mempool \<Rightarrow>
   (Condition list \<times> Mempool \<times> nat \<times> nat) option" where
  "on_reorg_reinject disconnected now lookup p =
     (let ordered = sort_by (\<lambda>a b. fst b < fst a) disconnected
      in map_option (\<lambda>(taken, dropped, conds, p).
          (conds @ (if 0 < dropped then [MempoolEvicted dropped ReorgOverflow] else []), p, taken, dropped))
        (reinject_loop (mpp_reorg_reinject_cap (mp_params p)) lookup now (concat (map snd ordered)) 0 0 p))"

section \<open>The template of a block\<close>

definition sender_chains :: "PoolTx list \<Rightarrow> (Address \<times> PoolTx list) list" where
  "sender_chains ts = fold (\<lambda>t cs. AList.update (pt_sender t)
     ((case map_of cs (pt_sender t) of None \<Rightarrow> [] | Some c \<Rightarrow> c) @ [t]) cs) ts []"

text \<open>The two loops with their \<open>return\<close>; \<open>count\<close> and \<open>bytes\<close> are what has been taken.\<close>

fun template_loop :: "nat \<Rightarrow> nat \<Rightarrow> nat \<Rightarrow> nat \<Rightarrow> PoolTx list \<Rightarrow> bytes list" where
  "template_loop max_txs max_bytes count used [] = []"
| "template_loop max_txs max_bytes count used (t # ts) =
     (if max_txs \<le> count \<or> max_bytes < used + length (pt_bytes t) then []
      else pt_bytes t # template_loop max_txs max_bytes (count + 1) (used + length (pt_bytes t)) ts)"

definition template_order :: "Mempool \<Rightarrow> PoolTx list" where
  "template_order p =
     (let chains = map (\<lambda>(_, c). sort_by (\<lambda>a b. pt_nonce a < pt_nonce b) c)
            (sender_chains (filter pt_executable (map snd (mp_txs p))))
      in concat (sort_by (\<lambda>a b. fee_per_byte (hd b) < fee_per_byte (hd a) \<or>
           fee_per_byte (hd b) = fee_per_byte (hd a) \<and> pt_sender (hd a) < pt_sender (hd b)) chains))"

definition mempool_template :: "nat \<Rightarrow> nat \<Rightarrow> Mempool \<Rightarrow> bytes list" where
  "mempool_template max_txs max_bytes p = template_loop max_txs max_bytes 0 0 (template_order p)"

end
