(* ===== verification/MempoolFacts.thy ===== *)
theory MempoolFacts imports Mempool begin

text \<open>
  The invariant of the mempool and what its operations do to the pool seen as a map from transaction
  identifiers to transactions. Every operation keeps the invariant, so that no index is missing and no
  counter overflows (\<open>None\<close> never appears).
\<close>

section \<open>Ordered maps\<close>

lemma map_of_bt_insert: "sorted_wrt (<) (map fst m) \<Longrightarrow> map_of (bt_insert k v m) = (map_of m)(k \<mapsto> v)"
proof (induction m)
  case (Cons x m)
  obtain k' v' where x: "x = (k', v')" by (cases x)
  have "map_of m k = None" if "k < k'"
    using Cons.prems that by (force simp: x map_of_eq_None_iff)
  then show ?case using Cons by (auto simp: x fun_eq_iff)
qed simp

lemma fst_bt_insert: "fst ` set (bt_insert k v m) = insert k (fst ` set m)"
  by (induction k v m rule: bt_insert.induct) (simp_all add: insert_commute)

lemma sorted_bt_insert: "sorted_wrt (<) (map fst m) \<Longrightarrow> sorted_wrt (<) (map fst (bt_insert k v m))"
proof (induction k v m rule: bt_insert.induct)
  case (2 k v k' v' m)
  have "\<forall>x \<in> set (map fst (bt_insert k v m)). k' < x" if "k' < k"
    using 2 that unfolding list.set_map fst_bt_insert by simp
  then show ?case using 2 by (auto simp: image_iff)
qed simp

lemma bt_insert_ne [simp]: "bt_insert k v m \<noteq> []"
  by (cases "(k, v, m)" rule: bt_insert.cases) simp_all

lemma map_of_bt_remove: "map_of (bt_remove k m) = (map_of m)(k := None)"
  by (induction m) (auto simp: bt_remove_def fun_eq_iff)

lemma sorted_bt_remove: "sorted_wrt (<) (map fst m) \<Longrightarrow> sorted_wrt (<) (map fst (bt_remove k m))"
  unfolding bt_remove_def by (induction m) auto

lemma sorted_keys: "sorted_wrt (<) (map fst m) \<Longrightarrow> distinct (map fst (m :: ('k::linorder \<times> 'v) list))"
  by (simp add: strict_sorted_iff)

section \<open>The invariant\<close>

abbreviation pool_tx :: "Mempool \<Rightarrow> Hash32 \<Rightarrow> PoolTx option" where
  "pool_tx p \<equiv> map_of (mp_txs p)"

definition pool_slot :: "Mempool \<Rightarrow> Address \<Rightarrow> u64 \<Rightarrow> Hash32 option" where
  "pool_slot p s n = Option.bind (map_of (mp_by_sender p) s) (\<lambda>m. map_of m n)"

definition pool_ok :: "Mempool \<Rightarrow> bool" where
  "pool_ok p \<longleftrightarrow> distinct (map fst (mp_txs p)) \<and> (\<forall>h t. pool_tx p h = Some t \<longrightarrow> pt_txid t = h) \<and>
     distinct (map fst (mp_by_sender p)) \<and>
     (\<forall>s m. map_of (mp_by_sender p) s = Some m \<longrightarrow> m \<noteq> [] \<and> sorted_wrt (<) (map fst m)) \<and>
     (\<forall>s n h. pool_slot p s n = Some h \<longleftrightarrow> (\<exists>t. pool_tx p h = Some t \<and> pt_sender t = s \<and> pt_nonce t = n)) \<and>
     mp_total_bytes p = sum_list (map (\<lambda>(h, t). length (pt_bytes t)) (mp_txs p)) \<and>
     distinct (mp_arrival p) \<and> set (mp_arrival p) = dom (pool_tx p)"

lemma pool_okD:
  assumes "pool_ok p"
  shows "distinct (map fst (mp_txs p))" "pool_tx p h = Some t \<Longrightarrow> pt_txid t = h" "distinct (map fst (mp_by_sender p))"
    "map_of (mp_by_sender p) s = Some m \<Longrightarrow> m \<noteq> []" "map_of (mp_by_sender p) s = Some m \<Longrightarrow> sorted_wrt (<) (map fst m)"
    "pool_slot p s n = Some h \<longleftrightarrow> (\<exists>t. pool_tx p h = Some t \<and> pt_sender t = s \<and> pt_nonce t = n)"
    "mp_total_bytes p = sum_list (map (\<lambda>(h, t). length (pt_bytes t)) (mp_txs p))"
    "distinct (mp_arrival p)" "set (mp_arrival p) = dom (pool_tx p)"
  using assms by (simp_all add: pool_ok_def)

lemma sum_update_new:
  "map_of al k = None \<Longrightarrow> sum_list (map f (AList.update k v al)) = sum_list (map f al) + f (k, v :: 'v)" for f :: "_ \<Rightarrow> nat"
  by (induction al) (auto split: if_splits)

lemma sum_delete:
  "distinct (map fst al) \<Longrightarrow> map_of al k = Some v \<Longrightarrow>
    sum_list (map f (AList.delete k al)) + f (k, v :: 'v) = sum_list (map f al)" for f :: "_ \<Rightarrow> nat"
  by (induction al) (auto simp: AList.delete_id)

lemma update_existing:
  "map_of al k \<noteq> None \<Longrightarrow> map fst (AList.update k v al) = map fst al"
  by (auto simp: AList.update_keys map_of_eq_None_iff)

lemma new_pool_ok: "pool_ok (mempool_new params)"
  by (simp add: pool_ok_def mempool_new_def pool_slot_def)

text \<open>Two transactions of one sender never share a nonce.\<close>

lemma slot_unique:
  assumes "pool_ok p" "pool_tx p h = Some t" "pool_tx p h' = Some t'" "pt_sender t = pt_sender t'" "pt_nonce t = pt_nonce t'"
  shows "h = h'"
  using pool_okD(6) [OF assms(1)] assms(2-5) by (metis option.inject)

lemma insert_ok:
  assumes "pool_ok p" "pool_tx p (pt_txid t) = None" "pool_slot p (pt_sender t) (pt_nonce t) = None"
  shows "pool_ok (pool_insert t p)" "pool_tx (pool_insert t p) = (pool_tx p)(pt_txid t \<mapsto> t)"
    "mp_next_nonce (pool_insert t p) = mp_next_nonce p" "mp_params (pool_insert t p) = mp_params p"
    "length (mp_txs (pool_insert t p)) = length (mp_txs p) + 1"
    "mp_total_bytes (pool_insert t p) = mp_total_bytes p + length (pt_bytes t)"
proof -
  note D = pool_okD [OF assms(1)]
  let ?m = "case map_of (mp_by_sender p) (pt_sender t) of None \<Rightarrow> [] | Some m \<Rightarrow> m"
  let ?q = "pool_insert t p"
  have q: "mp_txs ?q = AList.update (pt_txid t) t (mp_txs p)"
    "mp_by_sender ?q = AList.update (pt_sender t) (bt_insert (pt_nonce t) (pt_txid t) ?m) (mp_by_sender p)"
    by (simp_all add: pool_insert_def Let_def)
  show tx: "pool_tx ?q = (pool_tx p)(pt_txid t \<mapsto> t)" by (simp add: q AList.update_conv')
  show "mp_next_nonce ?q = mp_next_nonce p" "mp_params ?q = mp_params p"
    "mp_total_bytes ?q = mp_total_bytes p + length (pt_bytes t)" by (simp_all add: pool_insert_def Let_def)
  have m: "sorted_wrt (<) (map fst ?m)" using D(5) by (simp split: option.splits)
  have new: "pt_txid t \<notin> fst ` set (mp_txs p)" using assms(2) by (simp add: map_of_eq_None_iff)
  then have "length (AList.update (pt_txid t) t al) = length al + 1" if "pt_txid t \<notin> fst ` set al" for al :: "(Hash32 \<times> PoolTx) list"
    using that by (induction al) auto
  then show "length (mp_txs ?q) = length (mp_txs p) + 1" using new by (simp add: q)
  have slot: "pool_slot ?q s n = (if s = pt_sender t \<and> n = pt_nonce t then Some (pt_txid t) else pool_slot p s n)" for s n
    using m by (auto simp: pool_slot_def q AList.update_conv' map_of_bt_insert split: option.splits)
  have "pool_slot ?q s n = Some h \<longleftrightarrow> (\<exists>t'. pool_tx ?q h = Some t' \<and> pt_sender t' = s \<and> pt_nonce t' = n)" for s n h
    using D(6) [of s n h] assms(2,3) D(6) [of s n "pt_txid t"] by (auto simp: slot tx)
  then show "pool_ok ?q"
    using D assms(2) sum_update_new [OF assms(2), of "\<lambda>(h, t). length (pt_bytes t)" t] m
    by (auto simp: pool_ok_def tx q AList.update_conv' sorted_bt_insert AList.distinct_update
        pool_insert_def Let_def split: if_splits)
qed

lemma remove_absent [simp]: "pool_tx p h = None \<Longrightarrow> pool_remove h p = Some (None, p)"
  by (simp add: pool_remove_def)

text \<open>What a removal does, in terms of the maps; \<open>removes\<close> is also what a sequence of removals does.\<close>

definition removes :: "Hash32 set \<Rightarrow> Mempool \<Rightarrow> Mempool \<Rightarrow> bool" where
  "removes hs p p' \<longleftrightarrow> pool_ok p' \<and> pool_tx p' = (pool_tx p) |` (- hs) \<and> mp_params p' = mp_params p \<and>
     length (mp_txs p') \<le> length (mp_txs p) \<and> mp_total_bytes p' \<le> mp_total_bytes p \<and>
     (\<forall>s. mp_next_nonce p' s = mp_next_nonce p s \<or> mp_next_nonce p' s = None \<and> map_of (mp_by_sender p') s = None)"

lemma removes_refl: "pool_ok p \<Longrightarrow> removes {} p p"
  by (simp add: removes_def restrict_map_def fun_eq_iff)

lemma slot_None_sender:
  assumes "pool_ok p"
  shows "map_of (mp_by_sender p) s = None \<longleftrightarrow> (\<forall>h t. pool_tx p h = Some t \<longrightarrow> pt_sender t \<noteq> s)"
proof
  assume n: "map_of (mp_by_sender p) s = None"
  then have "pool_slot p s k = None" for k by (simp add: pool_slot_def)
  then show "\<forall>h t. pool_tx p h = Some t \<longrightarrow> pt_sender t \<noteq> s"
    using pool_okD(6) [OF assms] by (metis option.distinct(1))
next
  assume a: "\<forall>h t. pool_tx p h = Some t \<longrightarrow> pt_sender t \<noteq> s"
  show "map_of (mp_by_sender p) s = None"
  proof (rule ccontr)
    assume "map_of (mp_by_sender p) s \<noteq> None"
    then obtain m where m: "map_of (mp_by_sender p) s = Some m" by blast
    have "m \<noteq> []" "distinct (map fst m)" using pool_okD(4,5) [OF assms m] by (simp_all add: sorted_keys)
    then obtain n h m' where "m = (n, h) # m'" by (metis neq_Nil_conv prod.collapse)
    then have "pool_slot p s n = Some h" by (simp add: pool_slot_def m)
    then show False using pool_okD(6) [OF assms] a by blast
  qed
qed

lemma removes_trans:
  assumes "removes hs p p'" "removes hs' p' p''"
  shows "removes (hs \<union> hs') p p''"
proof -
  have ok: "pool_ok p'" "pool_ok p''" using assms by (simp_all add: removes_def)
  have gone: "map_of (mp_by_sender p'') s = None" if "map_of (mp_by_sender p') s = None" for s
    using that assms(2) unfolding slot_None_sender [OF ok(1)] slot_None_sender [OF ok(2)]
    by (auto simp: removes_def restrict_map_def split: if_splits)
  have "mp_next_nonce p'' s = mp_next_nonce p s \<or> mp_next_nonce p'' s = None \<and> map_of (mp_by_sender p'') s = None" for s
    using assms gone [of s] unfolding removes_def by metis
  moreover have "pool_tx p'' = (pool_tx p) |` (- (hs \<union> hs'))"
    using assms by (simp add: removes_def)
  ultimately show ?thesis using assms by (simp add: removes_def)
qed

lemma remove_ok:
  assumes "pool_ok p"
  obtains p' where "pool_remove h p = Some (pool_tx p h, p')" "removes {h} p p'"
    "pool_tx p h \<noteq> None \<Longrightarrow> length (mp_txs p') + 1 = length (mp_txs p)"
    "\<forall>t. pool_tx p h = Some t \<longrightarrow> mp_total_bytes p' + length (pt_bytes t) = mp_total_bytes p"
proof (cases "pool_tx p h")
  case None
  then have "removes {h} p p"
    using assms by (auto simp: removes_def restrict_map_def fun_eq_iff)
  then show thesis using None that [of p] by simp
next
  case (Some t)
  note D = pool_okD [OF assms]
  have sum: "sum_list (map (\<lambda>(h, t). length (pt_bytes t)) (AList.delete h (mp_txs p))) + length (pt_bytes t) = mp_total_bytes p"
    using sum_delete [OF D(1) Some, of "\<lambda>(h, t). length (pt_bytes t)"] D(7) by simp
  have "pool_slot p (pt_sender t) (pt_nonce t) = Some h" using D(6) Some by blast
  then obtain m where m: "map_of (mp_by_sender p) (pt_sender t) = Some m" "map_of m (pt_nonce t) = Some h"
    by (auto simp: pool_slot_def bind_eq_Some_conv)
  let ?m = "bt_remove (pt_nonce t) m"
  let ?next = "if ?m = [] then (mp_next_nonce p)(pt_sender t := None) else mp_next_nonce p"
  let ?by = "if ?m = [] then AList.delete (pt_sender t) (mp_by_sender p) else AList.update (pt_sender t) ?m (mp_by_sender p)"
  define q where "q = p\<lparr>mp_txs := AList.delete h (mp_txs p), mp_total_bytes := mp_total_bytes p - length (pt_bytes t),
    mp_by_sender := ?by, mp_next_nonce := ?next, mp_arrival := filter (\<lambda>x. x \<noteq> h) (mp_arrival p)\<rparr>"
  have r: "pool_remove h p = Some (Some t, q)"
    using Some sum m(1) by (auto simp: pool_remove_def Let_def q_def)
  have tx: "pool_tx q = (pool_tx p)(h := None)" by (simp add: q_def AList.delete_conv')
  have by_s: "map_of (mp_by_sender q) s = (if s = pt_sender t then if ?m = [] then None else Some ?m else map_of (mp_by_sender p) s)" for s
    by (simp add: q_def AList.delete_conv' AList.update_conv')
  have slot: "pool_slot q s n = (if s = pt_sender t \<and> n = pt_nonce t then None else pool_slot p s n)" for s n
  proof (cases "s = pt_sender t")
    case True
    have "?m = [] \<Longrightarrow> map_of m n = None \<or> n = pt_nonce t"
      using map_of_bt_remove [of "pt_nonce t" m] by (metis fun_upd_other map_of.simps(1))
    then show ?thesis by (auto simp: pool_slot_def by_s True m(1) map_of_bt_remove)
  qed (simp add: pool_slot_def by_s)
  have ok: "pool_ok q"
    unfolding pool_ok_def
  proof (intro conjI allI impI)
    show "distinct (map fst (mp_txs q))" "distinct (map fst (mp_by_sender q))"
      using D(1,3) by (simp_all add: q_def AList.distinct_delete AList.distinct_update)
    show "pt_txid t' = k" if "pool_tx q k = Some t'" for k t' using D(2) that by (simp add: tx split: if_splits)
    show "m' \<noteq> []" "sorted_wrt (<) (map fst m')" if "map_of (mp_by_sender q) s = Some m'" for s m'
      using that D(4,5) sorted_bt_remove [OF D(5) [OF m(1)], of "pt_nonce t"] by (simp_all add: by_s split: if_splits)
    show "pool_slot q s n = Some k \<longleftrightarrow> (\<exists>t'. pool_tx q k = Some t' \<and> pt_sender t' = s \<and> pt_nonce t' = n)" for s n k
    proof (cases "k = h")
      case True
      have "pool_slot p s n = Some h \<Longrightarrow> s = pt_sender t \<and> n = pt_nonce t" using D(6) [of s n h] Some by simp
      then show ?thesis by (auto simp: slot tx True)
    next
      case False
      have "pool_slot p (pt_sender t) (pt_nonce t) = Some h" using D(6) Some by blast
      then have "pool_slot q s n = Some k \<longleftrightarrow> pool_slot p s n = Some k" using False by (simp add: slot)
      then show ?thesis using D(6) [of s n k] False by (simp add: tx)
    qed
    show "mp_total_bytes q = sum_list (map (\<lambda>(h, t). length (pt_bytes t)) (mp_txs q))"
      using sum by (simp add: q_def)
    show "distinct (mp_arrival q)" "set (mp_arrival q) = dom (pool_tx q)"
      unfolding tx using D(8,9) by (auto simp: q_def)
  qed
  have len: "length (AList.delete h xs) + 1 = length xs" if "distinct (map fst xs)" "map_of xs h = Some t" for xs
    using that by (induction xs) (auto simp: AList.delete_id)
  have "removes {h} p q"
    using ok tx by_s len [OF D(1) Some] by (auto simp: removes_def restrict_map_def fun_eq_iff q_def)
  then show thesis
    using that [of q] r Some len [OF D(1) Some] sum by (simp add: q_def)
qed

lemma remove_ok':
  assumes "pool_ok p"
  shows "\<exists>p'. pool_remove h p = Some (pool_tx p h, p') \<and> removes {h} p p'"
  by (rule remove_ok [OF assms, of h]) blast

section \<open>Executable transactions\<close>

text \<open>A nonce is reached when every nonce from \<open>next\<close> to it has a transaction in the pool.\<close>

definition run_in :: "u64 set \<Rightarrow> u64 \<Rightarrow> u64 \<Rightarrow> bool" where
  "run_in keys next n \<longleftrightarrow> next \<le> n \<and> {next..n} \<subseteq> keys"

lemma not_max: "want \<noteq> - 1 \<longleftrightarrow> unat (want :: u64) + 1 < 2 ^ 64"
proof -
  have "unat (- 1 :: u64) = 2 ^ 64 - 1" by (simp add: unsigned_minus_1_eq_mask mask_eq_exp_minus_1)
  then show ?thesis using unsigned_less [of want, where ?'a = nat] by (auto simp: word_unat_eq_iff)
qed

lemma succ_le: "want \<noteq> - 1 \<Longrightarrow> want + 1 \<le> k \<longleftrightarrow> want < (k :: u64)"
  by (simp add: not_max word_le_nat_alt word_less_nat_alt unat_word_ariths Suc_le_eq)

lemma run_in_step:
  assumes "\<forall>k \<in> keys. want < k" "want \<noteq> - 1" "n \<in> keys"
  shows "run_in (insert want keys) want n \<longleftrightarrow> run_in keys (want + 1) n"
proof -
  have "{want + 1..n} = {want<..n}" by (auto simp: succ_le [OF assms(2)])
  moreover have "{want..n} \<subseteq> insert want keys \<longleftrightarrow> {want<..n} \<subseteq> keys" by (auto simp: subset_iff order_le_less)
  moreover have "want < n" using assms(1,3) by blast
  ultimately show ?thesis by (simp add: run_in_def succ_le [OF assms(2)] less_imp_le)
qed

lemma run_in_skip:
  assumes "\<forall>k \<in> keys. n0 < k" "n0 \<noteq> want" "n \<in> keys"
  shows "run_in (insert n0 keys) want n \<longleftrightarrow> run_in keys want n"
proof (cases "want < n0")
  case True
  then have "want \<notin> insert n0 keys" using assms(1) by force
  then show ?thesis by (auto simp: run_in_def subset_iff)
next
  case False
  then show ?thesis using assms(2) by (auto simp: run_in_def subset_iff)
qed

lemma run_in_first:
  assumes "\<forall>k \<in> keys. n0 < k"
  shows "run_in (insert n0 keys) want n0 \<longleftrightarrow> n0 = want"
proof (cases "want < n0")
  case True
  then have "want \<notin> insert n0 keys" using assms(1) by force
  then show ?thesis using True by (auto simp: run_in_def subset_iff)
next
  case False
  then show ?thesis by (auto simp: run_in_def)
qed

lemma resplit_loop_ok:
  assumes "sorted_wrt (<) (map fst m)" "distinct (map snd m)" "\<forall>(n, h) \<in> set m. map_of txs h \<noteq> None \<and> n \<noteq> - 1"
  shows "\<exists>pr txs'. resplit_loop m want txs = Some (pr, txs') \<and> map fst txs' = map fst txs \<and>
    (\<forall>(n, h) \<in> set m. map_of txs' h = Some ((the (map_of txs h))\<lparr>pt_executable := run_in (fst ` set m) want n\<rparr>)) \<and>
    (\<forall>h. h \<notin> snd ` set m \<longrightarrow> map_of txs' h = map_of txs h)"
  using assms
proof (induction m want txs rule: resplit_loop.induct)
  case (2 n h m want txs)
  let ?want = "if n = want then want + 1 else want"
  obtain t where t: "map_of txs h = Some t" using 2(4) by auto
  let ?txs = "AList.update h (t\<lparr>pt_executable := (n = want)\<rparr>) txs"
  have later: "\<forall>k \<in> fst ` set m. n < k" using 2(2) by auto
  have h: "h \<notin> snd ` set m" using 2(3) by auto
  have c: "(if n = want then checked_add want 1 else Some want) = Some ?want"
    using 2(4) by (auto simp: checked_add_def not_max)
  have "\<forall>(n', h') \<in> set m. map_of ?txs h' \<noteq> None \<and> n' \<noteq> - 1"
    using 2(4) by (auto simp: AList.update_conv')
  then obtain pr txs' where IH: "resplit_loop m ?want ?txs = Some (pr, txs')" "map fst txs' = map fst ?txs"
    "\<forall>(n', h') \<in> set m. map_of txs' h' = Some ((the (map_of ?txs h'))\<lparr>pt_executable := run_in (fst ` set m) ?want n'\<rparr>)"
    "\<forall>h'. h' \<notin> snd ` set m \<longrightarrow> map_of txs' h' = map_of ?txs h'"
    using "2.IH" [OF refl c t] 2(2,3) by auto
  have run: "run_in (fst ` set ((n, h) # m)) want n' \<longleftrightarrow> run_in (fst ` set m) ?want n'" if "n' \<in> fst ` set m" for n'
    using run_in_step [OF later _ that] run_in_skip [OF later _ that, of want] 2(4) by auto
  have first: "run_in (fst ` set ((n, h) # m)) want n \<longleftrightarrow> n = want" using run_in_first [OF later] by simp
  have "map_of txs' h' = Some ((the (map_of txs h'))\<lparr>pt_executable := run_in (fst ` set ((n, h) # m)) want n'\<rparr>)"
    if "(n', h') \<in> set ((n, h) # m)" for n' h'
  proof (cases "(n', h') = (n, h)")
    case True
    then show ?thesis using IH(4) h t first by (simp add: AList.update_conv')
  next
    case False
    then have m: "(n', h') \<in> set m" "h' \<noteq> h" using that h by (auto, force)
    then have "n' \<in> fst ` set m" by force
    then show ?thesis using IH(3) m run [of n'] by (auto simp: AList.update_conv')
  qed
  moreover have "map fst txs' = map fst txs" using IH(2) update_existing [of txs h] t by simp
  moreover have "map_of txs' h' = map_of txs h'" if "h' \<notin> snd ` set ((n, h) # m)" for h'
    using IH(4) that by (simp add: AList.update_conv')
  moreover have "resplit_loop ((n, h) # m) want txs =
      Some ((if n = want \<and> \<not> pt_executable t then [h] else []) @ pr, txs')"
    using c t IH(1) by (simp add: Let_def)
  ultimately show ?case by blast
qed simp

definition sender_nonces :: "Mempool \<Rightarrow> Address \<Rightarrow> u64 set" where
  "sender_nonces p s = {n. \<exists>h t. pool_tx p h = Some t \<and> pt_sender t = s \<and> pt_nonce t = n}"

definition marked :: "Mempool \<Rightarrow> Address \<Rightarrow> u64 \<Rightarrow> PoolTx \<Rightarrow> PoolTx" where
  "marked p s next t = (if pt_sender t = s then t\<lparr>pt_executable := run_in (sender_nonces p s) next (pt_nonce t)\<rparr> else t)"

lemma marked_simps [simp]:
  "pt_txid (marked p s next t) = pt_txid t" "pt_sender (marked p s next t) = pt_sender t"
  "pt_nonce (marked p s next t) = pt_nonce t" "pt_bytes (marked p s next t) = pt_bytes t"
  "pt_amount (marked p s next t) = pt_amount t" "pt_fee (marked p s next t) = pt_fee t"
  "pt_executable (marked p s next t) =
    (if pt_sender t = s then run_in (sender_nonces p s) next (pt_nonce t) else pt_executable t)"
  by (simp_all add: marked_def)

lemma sender_index:
  assumes "pool_ok p" "map_of (mp_by_sender p) s = Some m"
  shows "(n, h) \<in> set m \<longleftrightarrow> (\<exists>t. pool_tx p h = Some t \<and> pt_sender t = s \<and> pt_nonce t = n)"
    "fst ` set m = sender_nonces p s" "distinct (map snd m)" "distinct (map fst m)"
proof -
  show d: "distinct (map fst m)" using pool_okD(5) [OF assms] by (rule sorted_keys)
  have mem: "(n, h) \<in> set m \<longleftrightarrow> (\<exists>t. pool_tx p h = Some t \<and> pt_sender t = s \<and> pt_nonce t = n)" for n h
    using pool_okD(6) [OF assms(1), of s n h] d by (simp add: pool_slot_def assms(2))
  then show "(n, h) \<in> set m \<longleftrightarrow> (\<exists>t. pool_tx p h = Some t \<and> pt_sender t = s \<and> pt_nonce t = n)" .
  show "fst ` set m = sender_nonces p s" using mem by (force simp: sender_nonces_def)
  have "inj_on snd (set m)"
  proof (rule inj_onI)
    fix x y assume xy: "x \<in> set m" "y \<in> set m" "snd x = snd y"
    obtain t where "pool_tx p (snd x) = Some t" "pt_nonce t = fst x" using mem [of "fst x" "snd x"] xy(1) by auto
    moreover obtain t' where "pool_tx p (snd y) = Some t'" "pt_nonce t' = fst y" using mem [of "fst y" "snd y"] xy(2) by auto
    ultimately show "x = y" using xy(3) by (simp add: prod_eq_iff)
  qed
  then show "distinct (map snd m)" using d by (simp add: distinct_map)
qed

lemma alist_by_keys: "distinct (map fst al) \<Longrightarrow> map (\<lambda>k. (k, the (map_of al k))) (map fst al) = al"
  unfolding map_map by (rule map_idI) (auto dest: map_of_is_SomeI)

lemma resplit_ok:
  assumes "pool_ok p" "\<forall>n \<in> sender_nonces p s. n \<noteq> - 1"
  obtains pr p' where "pool_resplit s next p = Some (pr, p')" "pool_ok p'"
    "pool_tx p' = (\<lambda>h. map_option (marked p s next) (pool_tx p h))" "map fst (mp_txs p') = map fst (mp_txs p)"
    "mp_params p' = mp_params p" "mp_by_sender p' = mp_by_sender p" "mp_next_nonce p' = mp_next_nonce p"
    "mp_total_bytes p' = mp_total_bytes p"
proof -
  note D = pool_okD [OF assms(1)]
  show thesis
  proof (cases "map_of (mp_by_sender p) s")
    case None
    then have "map_option (marked p s next) (pool_tx p h) = pool_tx p h" for h
      using slot_None_sender [OF assms(1), of s] by (cases "pool_tx p h") (auto simp: marked_def)
    then show thesis using that [of "[]" p] None assms(1) by (simp add: pool_resplit_def)
  next
    case (Some m)
    note S = sender_index [OF assms(1) Some]
    have pre: "\<forall>(n, h) \<in> set m. map_of (mp_txs p) h \<noteq> None \<and> n \<noteq> - 1"
    proof -
      have "pool_tx p h \<noteq> None \<and> n \<noteq> - 1" if nh: "(n, h) \<in> set m" for n h
      proof -
        obtain t where "pool_tx p h = Some t" "pt_sender t = s" "pt_nonce t = n" using S(1) [THEN iffD1, OF nh] by blast
        then have "n \<in> sender_nonces p s" by (auto simp: sender_nonces_def)
        then show ?thesis using assms(2) \<open>pool_tx p h = Some t\<close> by simp
      qed
      then show ?thesis by blast
    qed
    obtain pr txs where R: "resplit_loop m next (mp_txs p) = Some (pr, txs)" "map fst txs = map fst (mp_txs p)"
      "\<forall>(n, h) \<in> set m. map_of txs h = Some ((the (pool_tx p h))\<lparr>pt_executable := run_in (fst ` set m) next n\<rparr>)"
      "\<forall>h. h \<notin> snd ` set m \<longrightarrow> map_of txs h = pool_tx p h"
      using resplit_loop_ok [OF D(5) [OF Some] S(3) pre, of "next"] by blast
    have tx: "map_of txs h = map_option (marked p s next) (pool_tx p h)" for h
    proof (cases "h \<in> snd ` set m")
      case True
      then obtain n where n: "(n, h) \<in> set m" by force
      then obtain t where "pool_tx p h = Some t" "pt_sender t = s" "pt_nonce t = n" using S(1) by blast
      then show ?thesis using R(3) n S(2) by (auto simp: marked_def)
    next
      case False
      then have "pool_tx p h = Some t \<Longrightarrow> pt_sender t \<noteq> s" for t using S(1) by force
      then show ?thesis using R(4) False by (cases "pool_tx p h") (auto simp: marked_def)
    qed
    let ?p = "p\<lparr>mp_txs := txs\<rparr>"
    let ?b = "\<lambda>(h, t). length (pt_bytes t)"
    have "map ?b txs = map ?b (mp_txs p)"
    proof -
      have "map ?b txs = map (\<lambda>h. length (pt_bytes (the (map_of txs h)))) (map fst txs)"
        using arg_cong [OF alist_by_keys [of txs], of "map ?b"] D(1) R(2) by (simp add: comp_def)
      also have "\<dots> = map (\<lambda>h. length (pt_bytes (the (pool_tx p h)))) (map fst (mp_txs p))"
        unfolding R(2) by (rule map_cong [OF refl]) (use D(1) in \<open>auto simp: tx\<close>)
      also have "\<dots> = map ?b (mp_txs p)"
        using arg_cong [OF alist_by_keys [OF D(1)], of "map ?b"] by (simp add: comp_def)
      finally show ?thesis .
    qed
    moreover have "pool_slot ?p = pool_slot p" by (simp add: pool_slot_def fun_eq_iff)
    ultimately have "pool_ok ?p"
      using D R(2) by (auto simp: pool_ok_def tx dom_def)
    then show thesis
      using that [of pr ?p] R(1,2) tx Some by (simp add: pool_resplit_def fun_eq_iff)
  qed
qed

section \<open>The pool without its flags\<close>

text \<open>
  \<open>bare\<close> is the pool without the executable flags. \<open>shrinks\<close>: nothing is added or changed but flags.
  \<open>flags_ok S\<close>: for every sender outside \<open>S\<close> the executable transactions are those reached from one
  nonce without a gap.
\<close>

definition bare_tx :: "PoolTx \<Rightarrow> PoolTx" where
  "bare_tx t = t\<lparr>pt_executable := False\<rparr>"

lemma bare_tx_simps [simp]:
  "pt_txid (bare_tx t) = pt_txid t" "pt_sender (bare_tx t) = pt_sender t" "pt_nonce (bare_tx t) = pt_nonce t"
  "pt_bytes (bare_tx t) = pt_bytes t" "pt_amount (bare_tx t) = pt_amount t" "pt_fee (bare_tx t) = pt_fee t"
  "bare_tx (marked p s n t) = bare_tx t" "bare_tx (bare_tx t) = bare_tx t"
  by (simp_all add: bare_tx_def marked_def)

definition bare :: "Mempool \<Rightarrow> Hash32 \<Rightarrow> PoolTx option" where
  "bare p h = map_option bare_tx (pool_tx p h)"

definition shrinks :: "Mempool \<Rightarrow> Mempool \<Rightarrow> bool" where
  "shrinks p p' \<longleftrightarrow> bare p' \<subseteq>\<^sub>m bare p \<and> mp_params p' = mp_params p \<and>
     length (mp_txs p') \<le> length (mp_txs p) \<and> mp_total_bytes p' \<le> mp_total_bytes p"

definition flags_ok :: "Address set \<Rightarrow> Mempool \<Rightarrow> bool" where
  "flags_ok S p \<longleftrightarrow> (\<forall>s. s \<notin> S \<longrightarrow> (\<exists>next. \<forall>h t. pool_tx p h = Some t \<longrightarrow> pt_sender t = s \<longrightarrow>
     pt_executable t = run_in (sender_nonces p s) next (pt_nonce t)))"

definition nonce_room :: "Mempool \<Rightarrow> bool" where
  "nonce_room p \<longleftrightarrow> (\<forall>s. \<forall>n \<in> sender_nonces p s. n \<noteq> - 1)"

definition pool_inv :: "Address set \<Rightarrow> Mempool \<Rightarrow> bool" where
  "pool_inv S p \<longleftrightarrow> pool_ok p \<and> nonce_room p \<and> flags_ok S p"

lemma shrinks_refl [simp]: "shrinks p p"
  by (simp add: shrinks_def)

lemma shrinks_trans: "shrinks p p' \<Longrightarrow> shrinks p' p'' \<Longrightarrow> shrinks p p''"
  unfolding shrinks_def by (metis map_le_trans order_trans)

lemma sender_nonces_bare: "sender_nonces p s = {n. \<exists>h t. bare p h = Some t \<and> pt_sender t = s \<and> pt_nonce t = n}"
  unfolding sender_nonces_def bare_def map_option_eq_Some by (rule Collect_cong) (metis bare_tx_simps(2,3))

lemma shrinks_bare: "shrinks p p' \<Longrightarrow> bare p' h = Some t \<Longrightarrow> bare p h = Some t"
  by (auto simp: shrinks_def map_le_def dom_def)

lemma shrinks_None: "shrinks p p' \<Longrightarrow> pool_tx p h = None \<Longrightarrow> pool_tx p' h = None"
  using shrinks_bare [of p p' h] by (cases "pool_tx p' h") (auto simp: bare_def)

lemma shrinks_nonces: "shrinks p p' \<Longrightarrow> sender_nonces p' s \<subseteq> sender_nonces p s"
  unfolding sender_nonces_bare by (auto dest: shrinks_bare)

lemma shrinks_room: "shrinks p p' \<Longrightarrow> nonce_room p \<Longrightarrow> nonce_room p'"
  using shrinks_nonces by (fastforce simp: nonce_room_def)

lemma removes_shrinks: "removes hs p p' \<Longrightarrow> shrinks p p'"
  by (auto simp: removes_def shrinks_def map_le_def bare_def restrict_map_def split: if_splits)

lemma flags_removes:
  assumes "flags_ok S p" "removes hs p p'" "\<forall>h \<in> hs. \<forall>t. pool_tx p h = Some t \<longrightarrow> pt_sender t \<in> S"
  shows "flags_ok S p'"
  unfolding flags_ok_def
proof (intro allI impI)
  fix s assume s: "s \<notin> S"
  have tx: "pool_tx p' h = Some t \<and> pt_sender t = s \<longleftrightarrow> pool_tx p h = Some t \<and> pt_sender t = s" for h t
    using assms(2,3) s by (auto simp: removes_def restrict_map_def)
  then have "sender_nonces p' s = sender_nonces p s" unfolding sender_nonces_def by blast
  then show "\<exists>next. \<forall>h t. pool_tx p' h = Some t \<longrightarrow> pt_sender t = s \<longrightarrow>
      pt_executable t = run_in (sender_nonces p' s) next (pt_nonce t)"
    using assms(1) s tx unfolding flags_ok_def by metis
qed

lemma removes_inv:
  assumes "pool_inv S p" "removes hs p p'" "\<forall>h \<in> hs. \<forall>t. pool_tx p h = Some t \<longrightarrow> pt_sender t \<in> S"
  shows "pool_inv S p'"
  using assms flags_removes [OF _ assms(2,3)] shrinks_room [OF removes_shrinks [OF assms(2)]]
  by (simp add: pool_inv_def removes_def)

lemma flags_mono: "flags_ok S p \<Longrightarrow> S \<subseteq> S' \<Longrightarrow> flags_ok S' p"
  by (auto simp: flags_ok_def)

lemma resplit_inv:
  assumes "pool_inv S p"
  shows "\<exists>pr p'. pool_resplit s next p = Some (pr, p') \<and> pool_inv (S - {s}) p' \<and> shrinks p p' \<and> bare p' = bare p \<and>
    length (mp_txs p') = length (mp_txs p) \<and> mp_total_bytes p' = mp_total_bytes p \<and>
    pool_tx p' = (\<lambda>h. map_option (marked p s next) (pool_tx p h))"
proof -
  have ok: "pool_ok p" "\<forall>n \<in> sender_nonces p s. n \<noteq> - 1" "nonce_room p" "flags_ok S p"
    using assms by (simp_all add: pool_inv_def nonce_room_def)
  obtain pr p' where R: "pool_resplit s next p = Some (pr, p')" "pool_ok p'"
    "pool_tx p' = (\<lambda>h. map_option (marked p s next) (pool_tx p h))" "map fst (mp_txs p') = map fst (mp_txs p)"
    "mp_params p' = mp_params p" "mp_total_bytes p' = mp_total_bytes p"
    by (rule resplit_ok [OF ok(1,2)])
  have b: "bare p' = bare p" by (rule ext) (simp add: bare_def R(3) option.map_comp comp_def)
  have keys: "sender_nonces p' = sender_nonces p" unfolding sender_nonces_bare b ..
  have "flags_ok (S - {s}) p'"
    unfolding flags_ok_def keys
  proof (intro allI impI)
    fix s' assume s': "s' \<notin> S - {s}"
    show "\<exists>next. \<forall>h t. pool_tx p' h = Some t \<longrightarrow> pt_sender t = s' \<longrightarrow>
        pt_executable t = run_in (sender_nonces p s') next (pt_nonce t)"
    proof (cases "s' = s")
      case True
      then show ?thesis by (intro exI [of _ "next"]) (auto simp: R(3))
    next
      case False
      then have "s' \<notin> S" using s' by simp
      then obtain nx where "\<forall>h t. pool_tx p h = Some t \<longrightarrow> pt_sender t = s' \<longrightarrow>
          pt_executable t = run_in (sender_nonces p s') nx (pt_nonce t)" using ok(4) unfolding flags_ok_def by blast
      then show ?thesis using False by (intro exI [of _ nx]) (auto simp: R(3))
    qed
  qed
  moreover have "length (mp_txs p') = length (mp_txs p)" using R(4) by (metis length_map)
  moreover have "nonce_room p'" using ok(3) by (simp add: nonce_room_def keys)
  ultimately show ?thesis using R b by (auto simp: pool_inv_def shrinks_def)
qed

section \<open>Loops over the pool\<close>

text \<open>A loop over senders that each settles the flags of its sender.\<close>

lemma for_senders:
  assumes "\<And>s S p. pool_inv S p \<Longrightarrow> \<exists>p'. f s p = Some p' \<and> pool_inv (S - {s}) p' \<and> shrinks p p'" "pool_inv S p"
  shows "\<exists>p'. for_each f xs p = Some p' \<and> pool_inv (S - set xs) p' \<and> shrinks p p'"
  using assms(2)
proof (induction xs arbitrary: S p)
  case (Cons x xs)
  obtain p1 where 1: "f x p = Some p1" "pool_inv (S - {x}) p1" "shrinks p p1" using assms(1) [OF Cons.prems] by blast
  obtain p2 where 2: "for_each f xs p1 = Some p2" "pool_inv (S - {x} - set xs) p2" "shrinks p1 p2"
    using Cons.IH [OF 1(2)] by blast
  have "S - {x} - set xs = S - set (x # xs)" by auto
  then show ?case using 1 2 shrinks_trans [of p p1 p2] by simp
qed simp

lemma for_removes:
  assumes "pool_ok p"
  shows "\<exists>p'. for_each (\<lambda>h p. map_option snd (pool_remove h p)) hs p = Some p' \<and> removes (set hs) p p'"
  using assms
proof (induction hs arbitrary: p)
  case Nil
  then show ?case by (simp add: removes_refl)
next
  case (Cons h hs)
  obtain p1 where 1: "pool_remove h p = Some (pool_tx p h, p1)" "removes {h} p p1" using remove_ok' [OF Cons.prems] by blast
  then have "pool_ok p1" by (simp add: removes_def)
  then obtain p2 where "for_each (\<lambda>h p. map_option snd (pool_remove h p)) hs p1 = Some p2" "removes (set hs) p1 p2"
    using Cons.IH by blast
  then show ?case using 1 removes_trans [OF 1(2), of "set hs" p2] by simp
qed

lemma flags_room_next: "pool_inv S (p\<lparr>mp_next_nonce := f\<rparr>) \<longleftrightarrow> pool_inv S p"
  "bare (p\<lparr>mp_next_nonce := f\<rparr>) = bare p" "sender_nonces (p\<lparr>mp_next_nonce := f\<rparr>) = sender_nonces p"
proof -
  show b: "bare (p\<lparr>mp_next_nonce := f\<rparr>) = bare p" by (simp add: bare_def fun_eq_iff)
  show k: "sender_nonces (p\<lparr>mp_next_nonce := f\<rparr>) = sender_nonces p" unfolding sender_nonces_bare b ..
  have "pool_slot (p\<lparr>mp_next_nonce := f\<rparr>) = pool_slot p" by (simp add: pool_slot_def fun_eq_iff)
  then show "pool_inv S (p\<lparr>mp_next_nonce := f\<rparr>) \<longleftrightarrow> pool_inv S p"
    by (simp add: pool_inv_def pool_ok_def nonce_room_def flags_ok_def k)
qed

lemma drop_below_ok:
  assumes "pool_ok p"
  shows "\<exists>p' hs. drop_below_nonce s n p = Some p' \<and> removes hs p p' \<and>
    (\<forall>h \<in> hs. \<forall>t. pool_tx p h = Some t \<longrightarrow> pt_sender t = s)"
proof -
  let ?hs = "case map_of (mp_by_sender p) s of None \<Rightarrow> [] | Some m \<Rightarrow> map snd (takeWhile (\<lambda>(k, _). k < n) m)"
  obtain p' where "for_each (\<lambda>h p. map_option snd (pool_remove h p)) ?hs p = Some p'" "removes (set ?hs) p p'"
    using for_removes [OF assms] by blast
  moreover have "pt_sender t = s" if h: "h \<in> set ?hs" and t: "pool_tx p h = Some t" for h t
  proof -
    obtain m where m: "map_of (mp_by_sender p) s = Some m" "h \<in> snd ` set (takeWhile (\<lambda>(k, _). k < n) m)"
      using h by (cases "map_of (mp_by_sender p) s") auto
    then obtain k where "(k, h) \<in> set m" using set_takeWhileD by fastforce
    then show ?thesis using sender_index(1) [OF assms m(1), THEN iffD1] t by fastforce
  qed
  ultimately show ?thesis unfolding drop_below_nonce_def Let_def by blast
qed

lemma renew_inv:
  assumes "pool_inv S p"
  shows "\<exists>p'. renew_sender account s p = Some p' \<and> pool_inv (S - {s}) p' \<and> shrinks p p'"
proof -
  let ?n = "ac_nonce (account s)"
  let ?p = "p\<lparr>mp_next_nonce := (mp_next_nonce p)(s \<mapsto> ?n)\<rparr>"
  have "pool_inv (insert s S) p"
    using assms flags_mono [of S p "insert s S"] by (simp add: pool_inv_def subset_insertI)
  then have inv: "pool_inv (insert s S) ?p" unfolding flags_room_next(1) .
  have sh: "shrinks p ?p" unfolding shrinks_def flags_room_next(2) by simp
  obtain p1 hs where 1: "drop_below_nonce s ?n ?p = Some p1" "removes hs ?p p1"
    "\<forall>h \<in> hs. \<forall>t. pool_tx ?p h = Some t \<longrightarrow> pt_sender t = s"
    using drop_below_ok [of ?p s ?n] inv unfolding pool_inv_def by blast
  have "pool_inv (insert s S) p1" using removes_inv [OF inv 1(2)] 1(3) by blast
  then obtain pr p2 where 2: "pool_resplit s ?n p1 = Some (pr, p2)" "pool_inv (insert s S - {s}) p2" "shrinks p1 p2"
    using resplit_inv by blast
  have "pool_inv (S - {s}) p2" using 2(2) by simp
  then show ?thesis
    using 1(1) 2(1) shrinks_trans [OF shrinks_trans [OF sh removes_shrinks [OF 1(2)]] 2(3)]
    by (simp add: renew_sender_def)
qed

lemma distinct_senders_set [simp]: "set (distinct_senders xs) = set xs"
  by (simp add: distinct_senders_def)

lemma sweep_inv:
  assumes "pool_inv {} p"
  shows "\<exists>dead p'. sweep_expired now p = Some (dead, p') \<and> pool_inv {} p' \<and> shrinks p p'"
proof -
  let ?dead = "map pt_txid (filter (\<lambda>t. mpp_ttl_secs (mp_params p) < saturating_sub now (pt_arrived t)) (map snd (mp_txs p)))"
  let ?f = "\<lambda>h (senders, p). map_option (\<lambda>(_, p'). (case pool_tx p h of None \<Rightarrow> senders | Some t \<Rightarrow> senders @ [pt_sender t], p'))
      (pool_remove h p)"
  have loop: "\<exists>senders' p'. for_each ?f hs (senders, p) = Some (senders', p') \<and> removes (set hs) p p' \<and>
      set senders \<subseteq> set senders' \<and> (\<forall>h \<in> set hs. \<forall>t. pool_tx p h = Some t \<longrightarrow> pt_sender t \<in> set senders')"
    if "pool_ok p" for hs senders p
    using that
  proof (induction hs arbitrary: senders p)
    case Nil
    then show ?case by (simp add: removes_refl)
  next
    case (Cons h hs)
    obtain p1 where 1: "pool_remove h p = Some (pool_tx p h, p1)" "removes {h} p p1" using remove_ok' [OF Cons.prems] by blast
    then have ok: "pool_ok p1" and tx: "pool_tx p1 = (pool_tx p) |` (- {h})" by (simp_all add: removes_def)
    let ?senders = "case pool_tx p h of None \<Rightarrow> senders | Some t \<Rightarrow> senders @ [pt_sender t]"
    obtain ss p2 where 2: "for_each ?f hs (?senders, p1) = Some (ss, p2)" "removes (set hs) p1 p2" "set ?senders \<subseteq> set ss"
      "\<forall>h \<in> set hs. \<forall>t. pool_tx p1 h = Some t \<longrightarrow> pt_sender t \<in> set ss" using Cons.IH [OF ok, of ?senders] by blast
    have "removes (set (h # hs)) p p2" using removes_trans [OF 1(2) 2(2)] by simp
    moreover have "pt_sender t \<in> set ss" if k: "k \<in> set (h # hs)" "pool_tx p k = Some t" for k t
    proof (cases "k = h")
      case True
      then show ?thesis using k(2) 2(3) by auto
    next
      case False
      then show ?thesis using k 2(4) by (auto simp: tx)
    qed
    moreover have "set senders \<subseteq> set ss" using 2(3) by (cases "pool_tx p h") auto
    ultimately show ?case using 1(1) 2(1) by auto
  qed
  have ok: "pool_ok p" using assms by (simp add: pool_inv_def)
  obtain ss p1 where 1: "for_each ?f ?dead ([], p) = Some (ss, p1)" "removes (set ?dead) p p1"
    "\<forall>h \<in> set ?dead. \<forall>t. pool_tx p h = Some t \<longrightarrow> pt_sender t \<in> set ss" using loop [OF ok, of ?dead "[]"] by blast
  have "pool_inv (set ss) p" using assms flags_mono [of "{}" p "set ss"] by (simp add: pool_inv_def)
  then have i1: "pool_inv (set ss) p1" using removes_inv [OF _ 1(2,3)] by blast
  let ?g = "\<lambda>s p. let n = (case mp_next_nonce p s of None \<Rightarrow> 0 | Some n \<Rightarrow> n) in map_option snd (pool_resplit s n p)"
  have step: "\<exists>p'. ?g s p = Some p' \<and> pool_inv (S - {s}) p' \<and> shrinks p p'" if i: "pool_inv S p" for s S p
    using resplit_inv [OF i, of s "case mp_next_nonce p s of None \<Rightarrow> 0 | Some n \<Rightarrow> n"] unfolding Let_def by force
  obtain p2 where 2: "for_each ?g (distinct_senders ss) p1 = Some p2" "pool_inv (set ss - set (distinct_senders ss)) p2" "shrinks p1 p2"
    using for_senders [of ?g, OF step i1] by blast
  have "sweep_expired now p = Some (?dead, p2)"
    using 1(1) 2(1) by (simp add: sweep_expired_def)
  then show ?thesis using 2(2,3) shrinks_trans [OF removes_shrinks [OF 1(2)]] by auto
qed

end
