(* ===== verification/MempoolAdmit.thy ===== *)
theory MempoolAdmit imports MempoolFacts begin

text \<open>
  Admission to the mempool: what the eviction loop throws out, what \<open>check\<close> guarantees of a prepared
  transaction and what \<open>commit\<close> does with it; the caps and the solvency of each sender.
\<close>

section \<open>Eviction\<close>

lemma min_by_in: "min_by lt xs = Some x \<Longrightarrow> x \<in> set xs"
proof (cases xs)
  case (Cons y ys)
  have "fold (\<lambda>y m. if lt y m then y else m) ys y \<in> insert y (set ys)" by (induction ys arbitrary: y) (simp, force)
  then show "min_by lt xs = Some x \<Longrightarrow> x \<in> set xs" by (simp add: Cons)
qed simp

lemma min_by_None [simp]: "min_by lt xs = None \<longleftrightarrow> xs = []"
  by (cases xs) simp_all

lemma pool_values:
  assumes "pool_ok p"
  shows "t \<in> snd ` set (mp_txs p) \<longleftrightarrow> pool_tx p (pt_txid t) = Some t"
proof
  assume "t \<in> snd ` set (mp_txs p)"
  then obtain h where "(h, t) \<in> set (mp_txs p)" by force
  then have "pool_tx p h = Some t" using pool_okD(1) [OF assms] by simp
  then show "pool_tx p (pt_txid t) = Some t" using pool_okD(2) [OF assms] by simp
qed (force dest: map_of_SomeD)

lemma last_key: "sorted_wrt (<) (map fst m) \<Longrightarrow> x \<in> set m \<Longrightarrow> fst x \<le> fst (last (m :: ('k::linorder \<times> 'v) list))"
  by (cases m rule: rev_cases) (auto simp: sorted_wrt_append less_imp_le)

lemma last_nonce:
  assumes "pool_ok p" "map_of (mp_by_sender p) s = Some m"
  shows "\<exists>t. pool_tx p (snd (last m)) = Some t \<and> pt_sender t = s \<and> (\<forall>n \<in> sender_nonces p s. n \<le> pt_nonce t)"
proof -
  note S = sender_index [OF assms] and D = pool_okD(4,5) [OF assms]
  have "(fst (last m), snd (last m)) \<in> set m" using D(1) by simp
  then obtain t where t: "pool_tx p (snd (last m)) = Some t" "pt_sender t = s" "pt_nonce t = fst (last m)"
    using S(1) [THEN iffD1] by blast
  have "n \<le> pt_nonce t" if n: "n \<in> sender_nonces p s" for n
    using n last_key [OF D(2)] unfolding S(2) [symmetric] t(3) by blast
  then show ?thesis using t by blast
qed

text \<open>The victim is a queued transaction or the last one of its sender, so that no run is broken.\<close>

lemma eviction_candidate_ok:
  assumes "pool_ok p" "eviction_candidate p = Some (v, reason)"
  shows "\<exists>t. pool_tx p v = Some t \<and> (\<not> pt_executable t \<or> (\<forall>n \<in> sender_nonces p (pt_sender t). n \<le> pt_nonce t))"
proof -
  let ?lt = "\<lambda>a b. fee_per_byte a < fee_per_byte b \<or> fee_per_byte a = fee_per_byte b \<and>
    (pt_arrived b < pt_arrived a \<or> pt_arrived b = pt_arrived a \<and> pt_txid b < pt_txid a)"
  show ?thesis
  proof (cases "min_by ?lt (filter (\<lambda>t. \<not> pt_executable t) (map snd (mp_txs p)))")
    case (Some t)
    then have "\<not> pt_executable t \<and> t \<in> snd ` set (mp_txs p)" by (auto dest!: min_by_in)
    moreover have "v = pt_txid t" using assms(2) Some by (simp add: eviction_candidate_def)
    ultimately show ?thesis using pool_values [OF assms(1)] by auto
  next
    case None
    have "\<exists>s m. map_of (mp_by_sender p) s = Some m \<and> v = snd (last m)"
      using assms(2) None
      by (simp add: eviction_candidate_def bind_eq_Some_conv del: min_by_None split: if_splits) blast
    then show ?thesis using last_nonce [OF assms(1)] by blast
  qed
qed

lemma eviction_candidate_None:
  assumes "pool_ok p" "eviction_candidate p = None"
  shows "mp_txs p = []"
proof (rule ccontr)
  assume "mp_txs p \<noteq> []"
  then obtain h t where "(h, t) \<in> set (mp_txs p)" by (cases "mp_txs p") auto
  then have t: "t \<in> set (map snd (mp_txs p))" by force
  have q: "filter (\<lambda>t. \<not> pt_executable t) (map snd (mp_txs p)) = []"
    using assms(2) unfolding eviction_candidate_def by (cases "filter (\<lambda>t. \<not> pt_executable t) (map snd (mp_txs p))") auto
  then have "filter pt_executable (map snd (mp_txs p)) \<noteq> []" using t by (auto simp: filter_empty_conv)
  then obtain head where "min_by (\<lambda>a b. fee_per_byte a < fee_per_byte b \<or>
      fee_per_byte a = fee_per_byte b \<and> pt_sender a < pt_sender b) (filter pt_executable (map snd (mp_txs p))) = Some head"
    using min_by_None by blast
  note head = this min_by_in [OF this]
  have "pool_tx p (pt_txid head) = Some head" using head(2) pool_values [OF assms(1)] by auto
  then have "map_of (mp_by_sender p) (pt_sender head) \<noteq> None" using slot_None_sender [OF assms(1)] by blast
  then obtain m where "map_of (mp_by_sender p) (pt_sender head) = Some m" "m \<noteq> []" using pool_okD(4) [OF assms(1)] by blast
  then show False using assms(2) q head(1) by (simp add: eviction_candidate_def)
qed

lemma run_in_remove:
  assumes "k \<notin> {next..n} \<or> \<not> run_in keys next k" "n \<noteq> k"
  shows "run_in (keys - {k}) next n \<longleftrightarrow> run_in keys next n"
  using assms by (auto simp: run_in_def subset_iff)

lemma removes_nonce:
  assumes "pool_ok p" "pool_tx p h = Some t" "removes {h} p p'"
  shows "sender_nonces p' s = (if s = pt_sender t then sender_nonces p s - {pt_nonce t} else sender_nonces p s)"
proof -
  have "pool_tx p' k = Some u \<longleftrightarrow> pool_tx p k = Some u \<and> k \<noteq> h" for k u
    using assms(3) by (auto simp: removes_def restrict_map_def)
  then have mem: "n \<in> sender_nonces p' s \<longleftrightarrow> (\<exists>k u. pool_tx p k = Some u \<and> k \<noteq> h \<and> pt_sender u = s \<and> pt_nonce u = n)" for n
    by (auto simp: sender_nonces_def)
  show ?thesis
  proof (rule set_eqI)
    fix n
    show "n \<in> sender_nonces p' s \<longleftrightarrow> n \<in> (if s = pt_sender t then sender_nonces p s - {pt_nonce t} else sender_nonces p s)"
    proof (cases "s = pt_sender t")
      case True
      have "k \<noteq> h \<longleftrightarrow> pt_nonce u \<noteq> pt_nonce t" if "pool_tx p k = Some u" "pt_sender u = s" for k u
        using slot_unique [OF assms(1,2) that(1)] that assms(2) True by auto
      then show ?thesis using True unfolding mem by (auto simp: sender_nonces_def)
    next
      case False
      have "k \<noteq> h" if "pool_tx p k = Some u" "pt_sender u = s" for k u using that assms(2) False by auto
      then show ?thesis using False unfolding mem by (auto simp: sender_nonces_def)
    qed
  qed
qed

lemma removes_one_inv:
  assumes "pool_inv S p" "pool_tx p h = Some t" "removes {h} p p'"
    and last: "\<not> pt_executable t \<or> (\<forall>n \<in> sender_nonces p (pt_sender t). n \<le> pt_nonce t)"
  shows "pool_inv S p'"
proof -
  have ok: "pool_ok p" using assms(1) by (simp add: pool_inv_def)
  have tx: "pool_tx p' k = Some u \<longleftrightarrow> pool_tx p k = Some u \<and> k \<noteq> h" for k u
    using assms(3) by (auto simp: removes_def restrict_map_def)
  note keys = removes_nonce [OF ok assms(2,3)]
  have "flags_ok S p'"
    unfolding flags_ok_def keys
  proof (intro allI impI)
    fix s assume "s \<notin> S"
    then obtain nx where nx: "pt_executable u = run_in (sender_nonces p s) nx (pt_nonce u)"
      if "pool_tx p k = Some u" "pt_sender u = s" for k u using assms(1) unfolding pool_inv_def flags_ok_def by blast
    have "pt_executable u = run_in (if s = pt_sender t then sender_nonces p s - {pt_nonce t} else sender_nonces p s) nx (pt_nonce u)"
      if u: "pool_tx p' k = Some u" "pt_sender u = s" for k u
    proof (cases "s = pt_sender t")
      case True
      have k: "pool_tx p k = Some u" "k \<noteq> h" using u(1) tx by auto
      then have "pt_nonce u \<noteq> pt_nonce t" using slot_unique [OF ok assms(2) k(1)] u(2) True by auto
      moreover have "pt_nonce u \<in> sender_nonces p (pt_sender t)" using k(1) u(2) True by (auto simp: sender_nonces_def)
      ultimately have "run_in (sender_nonces p s - {pt_nonce t}) nx (pt_nonce u) \<longleftrightarrow> run_in (sender_nonces p s) nx (pt_nonce u)"
        using last nx [OF assms(2) True [symmetric]] by (intro run_in_remove) force+
      then show ?thesis using nx [OF k(1) u(2)] True by simp
    next
      case False
      then show ?thesis using nx u tx by auto
    qed
    then show "\<exists>nx. \<forall>k u. pool_tx p' k = Some u \<longrightarrow> pt_sender u = s \<longrightarrow> pt_executable u =
        run_in (if s = pt_sender t then sender_nonces p s - {pt_nonce t} else sender_nonces p s) nx (pt_nonce u)" by blast
  qed
  moreover have "nonce_room p'" using assms(1) shrinks_room [OF removes_shrinks [OF assms(3)]] by (simp add: pool_inv_def)
  ultimately show ?thesis using assms(3) by (simp add: pool_inv_def removes_def)
qed

lemma evict_loop_ok:
  assumes "pool_inv S p"
  shows "\<exists>r vs cs p'. evict_loop raw_len fpb p = Some (r, vs, cs, p') \<and> pool_inv S p' \<and> removes (set vs) p p' \<and>
    (r \<or> length (mp_txs p') < mpp_max_txs (mp_params p) \<and> mp_total_bytes p' + raw_len \<le> mpp_max_bytes (mp_params p)) \<and>
    (\<forall>v \<in> set vs. \<exists>t. pool_tx p v = Some t \<and> fee_per_byte t \<le> fpb)"
  using assms
proof (induction "length (mp_txs p)" arbitrary: p rule: less_induct)
  case less
  have ok: "pool_ok p" using less.prems by (simp add: pool_inv_def)
  note step = evict_loop.simps [of raw_len fpb p]
  show ?case
  proof (cases "mpp_max_txs (mp_params p) \<le> length (mp_txs p) \<or> mpp_max_bytes (mp_params p) < mp_total_bytes p + raw_len")
    case False
    then show ?thesis using less.prems removes_refl [OF ok] by (subst step) auto
  next
    case full: True
    show ?thesis
    proof (cases "eviction_candidate p")
      case None
      then show ?thesis using full less.prems removes_refl [OF ok] by (subst step) auto
    next
      case (Some c)
      obtain v reason where c: "c = (v, reason)" by (cases c)
      obtain t where t: "pool_tx p v = Some t" "\<not> pt_executable t \<or> (\<forall>n \<in> sender_nonces p (pt_sender t). n \<le> pt_nonce t)"
        using eviction_candidate_ok [OF ok] Some c by blast
      show ?thesis
      proof (cases "fpb < fee_per_byte t")
        case True
        then show ?thesis using full Some c t less.prems removes_refl [OF ok] by (subst step) auto
      next
        case False
        obtain p1 where 1: "pool_remove v p = Some (pool_tx p v, p1)" "removes {v} p p1"
          "length (mp_txs p1) + 1 = length (mp_txs p)" using remove_ok [OF ok, of v] t(1) by force
        have i1: "pool_inv S p1" by (rule removes_one_inv [OF less.prems t(1) 1(2) t(2)])
        obtain r vs cs p2 where 2: "evict_loop raw_len fpb p1 = Some (r, vs, cs, p2)" "pool_inv S p2" "removes (set vs) p1 p2"
          "r \<or> length (mp_txs p2) < mpp_max_txs (mp_params p1) \<and> mp_total_bytes p2 + raw_len \<le> mpp_max_bytes (mp_params p1)"
          "\<forall>v \<in> set vs. \<exists>t. pool_tx p1 v = Some t \<and> fee_per_byte t \<le> fpb"
          using less.hyps [OF _ i1] 1(3) by auto
        have "evict_loop raw_len fpb p = Some (r, v # vs, MempoolEvicted 1 reason # cs, p2)"
          using full Some c t(1) False 1(1) 2(1) by (subst step) simp
        moreover have "removes (set (v # vs)) p p2" using removes_trans [OF 1(2) 2(3)] by simp
        moreover have "\<exists>t. pool_tx p w = Some t \<and> fee_per_byte t \<le> fpb" if "w \<in> set (v # vs)" for w
          using that 2(5) 1(2) t(1) False by (auto simp: removes_def restrict_map_def split: if_splits)
        moreover have "mp_params p1 = mp_params p" using 1(2) by (simp add: removes_def)
        ultimately show ?thesis using 2(2,4) by auto
      qed
    qed
  qed
qed

end
