(* ===== verification/MempoolCheck.thy ===== *)
theory MempoolCheck imports MempoolAdmit begin

text \<open>
  The books of each sender in the mempool: what its transactions spend, how many there are, and what a
  transaction that passes \<open>check\<close> is known to satisfy.
\<close>

section \<open>What a sender has pending\<close>

definition outlay_of :: "PoolTx \<Rightarrow> nat" where
  "outlay_of t = unat (pt_amount t) + unat (pt_fee t)"

definition sender_outlay :: "Mempool \<Rightarrow> Address \<Rightarrow> nat" where
  "sender_outlay p s = sum_list (map outlay_of (filter (\<lambda>t. pt_sender t = s) (map snd (mp_txs p))))"

definition sender_ids :: "Mempool \<Rightarrow> Address \<Rightarrow> Hash32 set" where
  "sender_ids p s = {h. \<exists>t. pool_tx p h = Some t \<and> pt_sender t = s}"

lemma outlay_of_bare [simp]: "outlay_of (bare_tx t) = outlay_of t"
  by (simp add: outlay_of_def)

lemma finite_sender_ids [simp]: "finite (sender_ids p s)"
proof (rule finite_subset)
  show "sender_ids p s \<subseteq> fst ` set (mp_txs p)" by (force simp: sender_ids_def dest: map_of_SomeD)
qed simp

lemma sender_outlay_sum:
  assumes "pool_ok p"
  shows "sender_outlay p s = (\<Sum>h \<in> sender_ids p s. outlay_of (the (pool_tx p h)))"
proof -
  note D = pool_okD(1) [OF assms]
  let ?xs = "filter (\<lambda>x. pt_sender (snd x) = s) (mp_txs p)"
  have "sender_outlay p s = sum_list (map (\<lambda>x. outlay_of (snd x)) ?xs)"
    by (simp add: sender_outlay_def filter_map comp_def)
  also have "\<dots> = (\<Sum>x \<in> set ?xs. outlay_of (snd x))"
    using D by (intro sum_list_distinct_conv_sum_set) (simp add: distinct_map)
  also have "\<dots> = (\<Sum>h \<in> sender_ids p s. outlay_of (the (pool_tx p h)))"
    by (rule sum.reindex_bij_witness [of _ "\<lambda>h. (h, the (pool_tx p h))" fst])
      (use D in \<open>auto simp: sender_ids_def dest: map_of_SomeD\<close>)
  finally show ?thesis .
qed

lemma bare_le_tx:
  assumes "bare p' \<subseteq>\<^sub>m bare p" "pool_tx p' h = Some t'"
  shows "\<exists>t. pool_tx p h = Some t \<and> bare_tx t = bare_tx t'"
proof -
  have "bare p' h = Some (bare_tx t')" using assms(2) by (simp add: bare_def)
  then have "bare p h = Some (bare_tx t')" using assms(1) by (metis domI map_le_def)
  then show ?thesis by (auto simp: bare_def)
qed

lemma bare_tx_eq: "bare_tx t = bare_tx t' \<Longrightarrow> pt_sender t = pt_sender t' \<and> pt_nonce t = pt_nonce t' \<and> outlay_of t = outlay_of t' \<and>
    pt_txid t = pt_txid t' \<and> pt_bytes t = pt_bytes t'"
  by (cases t; cases t') (simp add: bare_tx_def outlay_of_def)

lemma bare_le_outlay:
  assumes "bare p' \<subseteq>\<^sub>m bare p" "pool_ok p" "pool_ok p'"
  shows "sender_outlay p' s \<le> sender_outlay p s"
    "pool_tx p h = Some t \<Longrightarrow> pool_tx p' h = None \<Longrightarrow> pt_sender t = s \<Longrightarrow> sender_outlay p' s + outlay_of t \<le> sender_outlay p s"
proof -
  have same: "outlay_of (the (pool_tx p' k)) = outlay_of (the (pool_tx p k)) \<and> k \<in> sender_ids p s" if k: "k \<in> sender_ids p' s" for k
  proof -
    obtain t' where t': "pool_tx p' k = Some t'" "pt_sender t' = s" using k by (auto simp: sender_ids_def)
    then obtain t where "pool_tx p k = Some t" "bare_tx t = bare_tx t'" using bare_le_tx [OF assms(1)] by blast
    then show ?thesis using t' bare_tx_eq [of t t'] by (simp add: sender_ids_def)
  qed
  then have eq: "sender_outlay p' s = (\<Sum>k \<in> sender_ids p' s. outlay_of (the (pool_tx p k)))"
    unfolding sender_outlay_sum [OF assms(3)] by (intro sum.cong) simp_all
  have sub: "sender_ids p' s \<subseteq> sender_ids p s" using same by blast
  then show "sender_outlay p' s \<le> sender_outlay p s"
    unfolding eq sender_outlay_sum [OF assms(2)] by (intro sum_mono2) simp_all
  assume t: "pool_tx p h = Some t" "pool_tx p' h = None" "pt_sender t = s"
  then have h: "h \<in> sender_ids p s" "h \<notin> sender_ids p' s" by (simp_all add: sender_ids_def)
  have "(\<Sum>k \<in> sender_ids p' s. outlay_of (the (pool_tx p k))) + outlay_of t = (\<Sum>k \<in> insert h (sender_ids p' s). outlay_of (the (pool_tx p k)))"
    using h(2) t(1) by simp
  also have "\<dots> \<le> (\<Sum>k \<in> sender_ids p s. outlay_of (the (pool_tx p k)))"
    using sub h(1) by (intro sum_mono2) simp_all
  finally show "sender_outlay p' s + outlay_of t \<le> sender_outlay p s"
    unfolding eq sender_outlay_sum [OF assms(2)] .
qed

lemma same_outlay:
  assumes "bare p' = bare p" "pool_ok p" "pool_ok p'"
  shows "sender_outlay p' s = sender_outlay p s"
  using bare_le_outlay(1) [of p' p s] bare_le_outlay(1) [of p p' s] assms by simp

lemmas shrinks_outlay = bare_le_outlay [OF shrinks_def [THEN iffD1, THEN conjunct1]]

lemma update_new: "map_of al k = None \<Longrightarrow> AList.update k v al = al @ [(k, v)]"
  by (induction al) (auto split: if_splits)

lemma insert_outlay:
  assumes "pool_tx p (pt_txid t) = None"
  shows "sender_outlay (pool_insert t p) s = sender_outlay p s + (if pt_sender t = s then outlay_of t else 0)"
  using assms by (simp add: sender_outlay_def pool_insert_def Let_def update_new)

lemma fold_saturating:
  "unat (fold (\<lambda>b a. saturating_add a b) xs a) = min (unat (a :: u128) + sum_list (map unat xs)) (2 ^ 128 - 1)"
proof (induction xs arbitrary: a)
  case Nil
  then show ?case using unsigned_less [of a, where ?'a = nat] by simp
qed (simp add: unat_saturating_add min_def)

lemma sender_hashes:
  assumes "pool_ok p" "map_of (mp_by_sender p) s = Some m"
  shows "set (map snd m) = sender_ids p s"
  using sender_index(1) [OF assms] by (force simp: sender_ids_def)

lemma pending_outlay_eq:
  assumes "pool_ok p" "sender_outlay p s < 2 ^ 128"
  shows "unat (pending_outlay p s) = sender_outlay p s"
proof (cases "map_of (mp_by_sender p) s")
  case None
  then have "sender_ids p s = {}" using slot_None_sender [OF assms(1)] by (auto simp: sender_ids_def)
  then show ?thesis using None by (simp add: pending_outlay_def sender_txs_def sender_outlay_sum [OF assms(1)])
next
  case (Some m)
  let ?hs = "map snd m"
  have mf: "List.map_filter (pool_tx p) hs = map (\<lambda>h. the (pool_tx p h)) hs" if "\<forall>h \<in> set hs. pool_tx p h \<noteq> None" for hs
    using that by (induction hs) (auto simp: List.map_filter_def)
  have all: "\<forall>h \<in> set ?hs. pool_tx p h \<noteq> None"
    unfolding sender_hashes [OF assms(1) Some] by (auto simp: sender_ids_def)
  have sum: "(\<Sum>h \<leftarrow> ?hs. outlay_of (the (pool_tx p h))) = sender_outlay p s"
    unfolding sender_outlay_sum [OF assms(1)] sum_list_distinct_conv_sum_set [OF sender_index(3) [OF assms(1) Some]]
      sender_hashes [OF assms(1) Some] ..
  have each: "unat (saturating_add (pt_amount t) (pt_fee t)) = outlay_of t" if "outlay_of t < 2 ^ 128" for t
    using that by (simp add: unat_saturating_add outlay_of_def)
  have "outlay_of (the (pool_tx p h)) < 2 ^ 128" if "h \<in> set ?hs" for h
    using member_le_sum_list [of "outlay_of (the (pool_tx p h))" "map (\<lambda>h. outlay_of (the (pool_tx p h))) ?hs"] that sum assms(2)
    by force
  then have "(\<Sum>h \<leftarrow> ?hs. unat (saturating_add (pt_amount (the (pool_tx p h))) (pt_fee (the (pool_tx p h))))) =
      (\<Sum>h \<leftarrow> ?hs. outlay_of (the (pool_tx p h)))" using each by (intro arg_cong [of _ _ sum_list] map_cong) simp_all
  then have "unat (pending_outlay p s) = min (\<Sum>h \<leftarrow> ?hs. outlay_of (the (pool_tx p h))) (2 ^ 128 - 1)"
    unfolding pending_outlay_def sender_txs_def Some option.case mf [OF all] fold_saturating by (simp add: comp_def)
  then show ?thesis unfolding sum using assms(2) by simp
qed

lemma sender_len_card:
  assumes "pool_ok p"
  shows "sender_len p s = card (sender_nonces p s)"
proof (cases "map_of (mp_by_sender p) s")
  case None
  then have "sender_nonces p s = {}" using slot_None_sender [OF assms] by (auto simp: sender_nonces_def)
  then show ?thesis using None by (simp add: sender_len_def)
next
  case (Some m)
  note S = sender_index [OF assms Some]
  have "card (fst ` set m) = length m" using distinct_card [OF S(4)] by simp
  then show ?thesis using Some S(2) by (simp add: sender_len_def)
qed

lemma finite_nonces [simp]: "finite (sender_nonces p s)"
proof -
  have "sender_nonces p s \<subseteq> pt_nonce ` snd ` set (mp_txs p)" unfolding sender_nonces_def by (force dest: map_of_SomeD)
  then show ?thesis by (rule finite_subset) simp
qed

section \<open>What a checked transaction satisfies\<close>

text \<open>
  \<open>solvent\<close>: the transaction, what the sender has pending and what is replaced, against what it may spend.
\<close>

definition prepared_ok :: "Mempool \<Rightarrow> (Address \<Rightarrow> Account \<times> u128) \<Rightarrow> Prepared \<Rightarrow> bool" where
  "prepared_ok p lookup pr \<longleftrightarrow>
     pool_tx p (pr_txid pr) = None \<and> pr_replaces pr = pool_slot p (pr_sender pr) (pr_nonce pr) \<and>
     pr_next pr = ac_nonce (fst (lookup (pr_sender pr))) \<and> pr_next pr \<le> pr_nonce pr \<and>
     pr_nonce pr \<le> saturating_add (pr_next pr) (mpp_max_nonce_gap (mp_params p)) \<and>
     sender_len p (pr_sender pr) - (if pr_replaces pr \<noteq> None then 1 else 0) < pool_per_sender p \<and>
     mpp_relay_fee_floor (mp_params p) \<le> pr_fee pr \<and> length (pr_raw pr) \<le> MAX_TX_BYTES \<and>
     (\<exists>d. replaced_outlay p (pr_replaces pr) (pr_fee pr) = Some (Inr d) \<and>
        unat (pending_outlay p (pr_sender pr)) - unat d + unat (pr_amount pr) + unat (pr_fee pr) \<le>
          unat (snd (lookup (pr_sender pr))))"

lemma mempool_check_Ok:
  assumes "mempool_check raw author lookup p = Some (Inr pr)"
  shows "prepared_ok p lookup pr" "pr_raw pr = raw" "decode_tx raw = Inr (pr_tx pr)"
proof -
  obtain b bs where raw: "raw = b # bs" using assms by (cases raw) (simp_all add: mempool_check_def split: if_splits)
  obtain tx where tx: "decode_tx raw = Inr tx"
    using assms unfolding raw mempool_check_def by (cases "decode_tx (b # bs)") (simp_all split: if_splits)
  obtain pub n fee amount h where parts: "tx_parts b tx = Inr (pub, n, fee, amount, h)"
    using assms tx unfolding raw mempool_check_def
    by (cases "tx_parts b tx") (auto split: if_splits)
  let ?who = "address_payload pub"
  let ?rep = "pool_slot p ?who n"
  obtain acct spendable where look: "lookup ?who = (acct, spendable)" by (cases "lookup ?who")
  have all: "pool_tx p h = None \<and> ac_nonce acct \<le> n \<and> n \<le> saturating_add (ac_nonce acct) (mpp_max_nonce_gap (mp_params p)) \<and>
      mpp_relay_fee_floor (mp_params p) \<le> fee \<and> length raw \<le> MAX_TX_BYTES \<and>
      sender_len p ?who - (if ?rep \<noteq> None then 1 else 0) < pool_per_sender p \<and>
      (\<exists>d. replaced_outlay p ?rep fee = Some (Inr d) \<and>
        unat (pending_outlay p ?who) - unat d + unat amount + unat fee \<le> unat spendable) \<and>
      pr = \<lparr>pr_raw = raw, pr_tx = tx, pr_txid = h, pr_sender = ?who, pr_nonce = n, pr_fee = fee,
        pr_amount = amount, pr_next = ac_nonce acct, pr_replaces = ?rep\<rparr>"
    using assms tx parts look unfolding mempool_check_def Let_def raw pool_slot_def [symmetric]
    by (simp add: Let_def res_simps pool_slot_def [symmetric] not_less not_le split: if_splits)
      (simp_all add: word_le_nat_alt unat_word_ariths)
  then show "prepared_ok p lookup pr" "pr_raw pr = raw" "decode_tx raw = Inr (pr_tx pr)"
    using tx look by (simp_all add: prepared_ok_def)
qed

lemma mempool_check_some:
  assumes "pool_ok p"
  shows "mempool_check raw author lookup p \<noteq> None"
proof -
  have rep: "replaced_outlay p (pool_slot p s n) fee \<noteq> None" for s n fee
  proof (cases "pool_slot p s n")
    case (Some h)
    then obtain t where "pool_tx p h = Some t" using pool_okD(6) [OF assms] by blast
    then show ?thesis using Some by (simp add: replaced_outlay_def res_simps Let_def)
  qed (simp add: replaced_outlay_def)
  show ?thesis
  proof
    assume "mempool_check raw author lookup p = None"
    then show False using rep unfolding mempool_check_def Let_def pool_slot_def [symmetric]
      by (simp add: res_simps case_prod_beta split: list.splits if_splits del: not_None_eq)
  qed
qed

lemma replaced_outlay_Some:
  assumes "replaced_outlay p (Some h) fee = Some (Inr d)" "pool_tx p h = Some t"
  shows "unat d = min (outlay_of t) (2 ^ 128 - 1)" "unat (pt_fee t) < unat fee"
proof -
  have "d = saturating_add (pt_amount t) (pt_fee t)" "\<exists>need. checked_add (pt_fee t) (max (pt_fee t div 4) 1) = Some need \<and> need \<le> fee"
    using assms by (auto simp: replaced_outlay_def Let_def res_simps not_less split: if_splits)
  then show "unat d = min (outlay_of t) (2 ^ 128 - 1)" by (simp add: unat_saturating_add outlay_of_def)
  obtain need where need: "checked_add (pt_fee t) (max (pt_fee t div 4) 1) = Some need" "need \<le> fee"
    using \<open>\<exists>need. _\<close> by blast
  have "(0 :: u128) < max (pt_fee t div 4) 1" by (simp add: less_max_iff_disj)
  then have "0 < unat (max (pt_fee t div 4) 1)" by (simp add: word_less_nat_alt)
  then show "unat (pt_fee t) < unat fee"
    using checked_add_unat [OF need(1)] need(2) by (simp add: word_le_nat_alt)
qed

text \<open>What a pool keeps to at all times.\<close>

definition caps_ok :: "Mempool \<Rightarrow> bool" where
  "caps_ok p \<longleftrightarrow> length (mp_txs p) \<le> mpp_max_txs (mp_params p) \<and> mp_total_bytes p \<le> mpp_max_bytes (mp_params p) \<and>
     (\<forall>s. sender_len p s \<le> pool_per_sender p)"

definition outlays_fit :: "Mempool \<Rightarrow> bool" where
  "outlays_fit p \<longleftrightarrow> (\<forall>s. sender_outlay p s < 2 ^ 128)"

definition mempool_valid :: "Mempool \<Rightarrow> bool" where
  "mempool_valid p \<longleftrightarrow> pool_inv {} p \<and> caps_ok p \<and> outlays_fit p"

lemma pool_inv_ok [intro]: "pool_inv S p \<Longrightarrow> pool_ok p"
  by (simp add: pool_inv_def)

lemma shrinks_sender_len:
  assumes "shrinks p p'" "pool_ok p" "pool_ok p'"
  shows "sender_len p' s \<le> sender_len p s"
  unfolding sender_len_card [OF assms(2)] sender_len_card [OF assms(3)]
  using shrinks_nonces [OF assms(1)] by (intro card_mono) simp_all

lemma shrinks_valid:
  assumes "mempool_valid p" "shrinks p p'" "pool_inv {} p'"
  shows "mempool_valid p'"
proof -
  have ok: "pool_ok p" "pool_ok p'" using assms by (auto simp: mempool_valid_def)
  have "caps_ok p'" using assms(1,2) shrinks_sender_len [OF assms(2) ok]
    unfolding mempool_valid_def caps_ok_def shrinks_def pool_per_sender_def by (metis order_trans)
  moreover have "outlays_fit p'"
    using assms(1) shrinks_outlay(1) [OF assms(2) ok] unfolding mempool_valid_def outlays_fit_def by (meson le_less_trans)
  ultimately show ?thesis using assms(3) by (simp add: mempool_valid_def)
qed

end
