(* ===== verification/MempoolCommit.thy ===== *)
theory MempoolCommit imports MempoolCheck begin

text \<open>
  What \<open>commit\<close> does with a checked transaction, and that no operation of the mempool panics or leaves
  its invariant, on every branch of every operation.
\<close>

section \<open>Inserting\<close>

lemma insert_nonces:
  assumes "pool_tx p (pt_txid t) = None" "pool_tx q = (pool_tx p)(pt_txid t \<mapsto> t)"
  shows "sender_nonces q s = (if s = pt_sender t then insert (pt_nonce t) (sender_nonces p s) else sender_nonces p s)"
proof -
  have "pool_tx q h = Some u \<longleftrightarrow> pool_tx p h = Some u \<or> h = pt_txid t \<and> u = t" for h u using assms by auto
  then have "n \<in> sender_nonces q s \<longleftrightarrow> n \<in> sender_nonces p s \<or> s = pt_sender t \<and> n = pt_nonce t" for n
    unfolding sender_nonces_def by auto
  then show ?thesis by auto
qed

lemma insert_inv:
  assumes "pool_inv S p" "pool_tx p (pt_txid t) = None" "pool_slot p (pt_sender t) (pt_nonce t) = None"
    "pt_nonce t \<noteq> - 1" "pt_sender t \<in> S"
  shows "pool_inv S (pool_insert t p)"
proof -
  let ?q = "pool_insert t p"
  note Q = insert_ok [OF pool_inv_ok [OF assms(1)] assms(2,3)] and N = insert_nonces [OF assms(2) insert_ok(2) [OF pool_inv_ok [OF assms(1)] assms(2,3)]]
  have "flags_ok S ?q"
    unfolding flags_ok_def
  proof (intro allI impI)
    fix s assume s: "s \<notin> S"
    then have "s \<noteq> pt_sender t" using assms(5) by blast
    then have same: "sender_nonces ?q s = sender_nonces p s" "\<And>h u. pool_tx ?q h = Some u \<and> pt_sender u = s \<Longrightarrow> pool_tx p h = Some u"
      by (auto simp: N Q(2) split: if_splits)
    obtain nx where "\<forall>h u. pool_tx p h = Some u \<longrightarrow> pt_sender u = s \<longrightarrow> pt_executable u = run_in (sender_nonces p s) nx (pt_nonce u)"
      using assms(1) s unfolding pool_inv_def flags_ok_def by blast
    then show "\<exists>nx. \<forall>h u. pool_tx ?q h = Some u \<longrightarrow> pt_sender u = s \<longrightarrow> pt_executable u = run_in (sender_nonces ?q s) nx (pt_nonce u)"
      using same(2) unfolding same(1) by blast
  qed
  moreover have "nonce_room ?q" using assms(1,4) by (auto simp: pool_inv_def nonce_room_def N)
  ultimately show ?thesis using Q(1) by (simp add: pool_inv_def)
qed

lemma slot_shrinks:
  assumes "shrinks p p'" "pool_ok p" "pool_ok p'" "pool_slot p' s n = Some h"
  shows "pool_slot p s n = Some h"
proof -
  obtain t' where "pool_tx p' h = Some t'" "pt_sender t' = s" "pt_nonce t' = n" using pool_okD(6) [OF assms(3)] assms(4) by blast
  moreover obtain t where "pool_tx p h = Some t" "bare_tx t = bare_tx t'"
    using bare_le_tx [of p' p h t'] assms(1) calculation(1) by (auto simp: shrinks_def)
  ultimately show ?thesis using pool_okD(6) [OF assms(2)] bare_tx_eq by metis
qed

section \<open>Displacing\<close>

text \<open>The transaction that is replaced leaves its slot; it may have expired already.\<close>

definition displace :: "Hash32 option \<Rightarrow> Mempool \<Rightarrow> (PoolTx option \<times> Mempool) option" where
  "displace replaces p = (case replaces of None \<Rightarrow> Some (None, p) | Some old \<Rightarrow> pool_remove old p)"

lemma displace_ok:
  assumes "pool_inv {} p" "\<forall>old. replaces = Some old \<longrightarrow> (\<forall>t. pool_tx p old = Some t \<longrightarrow> pt_sender t = s \<and> pt_nonce t = n)"
    "\<forall>h. pool_slot p s n = Some h \<longrightarrow> replaces = Some h"
  shows "\<exists>d p'. displace replaces p = Some (d, p') \<and> shrinks p p' \<and> pool_slot p' s n = None \<and>
    pool_inv (if d = None then {} else {s}) p' \<and>
    (\<forall>t. d = Some t \<longrightarrow> pool_tx p (pt_txid t) = Some t \<and> pool_tx p' (pt_txid t) = None \<and> pt_sender t = s \<and> pt_nonce t = n \<and>
      length (mp_txs p') + 1 = length (mp_txs p) \<and> mp_total_bytes p' + length (pt_bytes t) = mp_total_bytes p)"
proof -
  have ok: "pool_ok p" using assms(1) by blast
  show ?thesis
  proof (cases "Option.bind replaces (pool_tx p)")
    case None
    have "displace replaces p = Some (None, p)" using None by (cases replaces) (simp_all add: displace_def)
    moreover have "pool_slot p s n = None"
    proof (cases "pool_slot p s n")
      case (Some h)
      then have "replaces = Some h" "pool_tx p h \<noteq> None" using assms(3) pool_okD(6) [OF ok] by auto
      then show ?thesis using None by simp
    qed
    ultimately show ?thesis using assms(1) by simp
  next
    case (Some t)
    then obtain old where old: "replaces = Some old" "pool_tx p old = Some t" by (auto simp: bind_eq_Some_conv)
    then have t: "pt_txid t = old" "pt_sender t = s" "pt_nonce t = n" using assms(2) pool_okD(2) [OF ok] by auto
    obtain p' where p': "pool_remove old p = Some (pool_tx p old, p')" "removes {old} p p'"
      "length (mp_txs p') + 1 = length (mp_txs p)" "mp_total_bytes p' + length (pt_bytes t) = mp_total_bytes p"
      using remove_ok [OF ok, of old] old(2) by force
    have ok': "pool_ok p'" and tx: "pool_tx p' old = None" using p'(2) by (simp_all add: removes_def)
    have sh: "shrinks p p'" by (rule removes_shrinks [OF p'(2)])
    have "pool_slot p' s n = None"
    proof (cases "pool_slot p' s n")
      case (Some h)
      then have "replaces = Some h" using slot_shrinks [OF sh ok ok'] assms(3) by blast
      then show ?thesis using Some pool_okD(6) [OF ok', of s n h] old(1) tx by simp
    qed
    moreover have "pool_inv {s} p"
      using assms(1) flags_mono [of "{}" p "{s}"] by (simp add: pool_inv_def)
    then have "pool_inv {s} p'" using removes_inv [OF _ p'(2)] old(2) t(2) by simp
    ultimately show ?thesis using old p' t tx sh by (simp add: displace_def)
  qed
qed

section \<open>Refusing and accepting\<close>

lemma put_back_ok:
  assumes "pool_inv {s} p" "pool_tx p (pt_txid t) = None" "pool_slot p s (pt_nonce t) = None" "pt_sender t = s"
    "pt_nonce t \<noteq> - 1"
  shows "\<exists>pr q. pool_resplit s next (pool_insert t p) = Some (pr, q) \<and> pool_inv {} q \<and> bare q = (bare p)(pt_txid t \<mapsto> bare_tx t) \<and>
    mp_params q = mp_params p \<and> length (mp_txs q) = length (mp_txs p) + 1 \<and>
    mp_total_bytes q = mp_total_bytes p + length (pt_bytes t) \<and>
    pool_tx q (pt_txid t) = Some (marked (pool_insert t p) s next t) \<and>
    (\<forall>s'. sender_nonces q s' = (if s' = s then insert (pt_nonce t) (sender_nonces p s') else sender_nonces p s')) \<and>
    (\<forall>s'. sender_outlay q s' = sender_outlay p s' + (if s' = s then outlay_of t else 0))"
proof -
  let ?i = "pool_insert t p"
  note Q = insert_ok [OF pool_inv_ok [OF assms(1)] assms(2) assms(3) [folded assms(4)]]
  have "pool_inv {s} ?i" using insert_inv [OF assms(1,2)] assms(3-5) by simp
  then obtain pr q where q: "pool_resplit s next ?i = Some (pr, q)" "pool_inv ({s} - {s}) q" "shrinks ?i q" "bare q = bare ?i"
    "length (mp_txs q) = length (mp_txs ?i)" "mp_total_bytes q = mp_total_bytes ?i"
    "pool_tx q = (\<lambda>h. map_option (marked ?i s next) (pool_tx ?i h))"
    using resplit_inv by blast
  have "bare q = (bare p)(pt_txid t \<mapsto> bare_tx t)" unfolding q(4) by (rule ext) (simp add: bare_def Q(2))
  moreover have "sender_nonces q s' = sender_nonces ?i s'" for s' unfolding sender_nonces_bare q(4) ..
  then have "sender_nonces q s' = (if s' = s then insert (pt_nonce t) (sender_nonces p s') else sender_nonces p s')" for s'
    using insert_nonces [OF assms(2) Q(2)] assms(4) by simp
  moreover have "sender_outlay q s' = sender_outlay p s' + (if s' = s then outlay_of t else 0)" for s'
    using same_outlay [OF q(4) Q(1)] q(2) insert_outlay [OF assms(2)] assms(4) by (auto simp: pool_inv_def)
  moreover have "mp_params q = mp_params p" using q(3) Q(4) by (simp add: shrinks_def)
  ultimately show ?thesis using q(1,2,5,6,7) Q(2,5,6) by simp
qed

lemma run_room:
  assumes "n \<le> saturating_add next gap" "unat (next :: u64) + unat gap < 2 ^ 64 - 1"
  shows "n \<noteq> - 1"
proof -
  have "unat n < 2 ^ 64 - 1" using assms by (simp add: word_le_nat_alt unat_saturating_add)
  moreover have "unat (- 1 :: u64) = 2 ^ 64 - 1" by (simp add: unsigned_minus_1_eq_mask mask_eq_exp_minus_1)
  ultimately show ?thesis by auto
qed

text \<open>Whatever the pool has shrunk to, the newcomer fits the caps and the means of its sender.\<close>

lemma room_for_prepared:
  assumes "mempool_valid p" "prepared_ok p lookup pr" "shrinks p p'" "pool_ok p'"
    "pool_slot p' (pr_sender pr) (pr_nonce pr) = None"
  shows "card (insert (pr_nonce pr) (sender_nonces p' (pr_sender pr))) \<le> pool_per_sender p"
    "sender_outlay p' (pr_sender pr) + unat (pr_amount pr) + unat (pr_fee pr) \<le> unat (snd (lookup (pr_sender pr)))"
proof -
  let ?s = "pr_sender pr" and ?n = "pr_nonce pr"
  have ok: "pool_ok p" and fit: "sender_outlay p ?s < 2 ^ 128" using assms(1) by (auto simp: mempool_valid_def outlays_fit_def)
  have gone: "?n \<notin> sender_nonces p' ?s"
  proof
    assume "?n \<in> sender_nonces p' ?s"
    then obtain h t where "pool_tx p' h = Some t" "pt_sender t = ?s" "pt_nonce t = ?n" by (auto simp: sender_nonces_def)
    then show False using pool_okD(6) [OF assms(4), of ?s ?n h] assms(5) by simp
  qed
  then have sub: "sender_nonces p' ?s \<subseteq> sender_nonces p ?s - {?n}" using shrinks_nonces [OF assms(3)] by blast
  obtain d where d: "replaced_outlay p (pr_replaces pr) (pr_fee pr) = Some (Inr d)"
    "unat (pending_outlay p ?s) - unat d + unat (pr_amount pr) + unat (pr_fee pr) \<le> unat (snd (lookup ?s))"
    using assms(2) unfolding prepared_ok_def by blast
  have cap: "sender_len p ?s - (if pr_replaces pr \<noteq> None then 1 else 0) < pool_per_sender p"
    and rep: "pr_replaces pr = pool_slot p ?s ?n" using assms(2) unfolding prepared_ok_def by blast+
  have pend: "unat (pending_outlay p ?s) = sender_outlay p ?s" by (rule pending_outlay_eq [OF ok fit])
  have card: "card (sender_nonces p' ?s) \<le> card (sender_nonces p ?s - {?n})" using sub by (intro card_mono) simp_all
  have "card (sender_nonces p' ?s) < pool_per_sender p \<and> sender_outlay p' ?s \<le> sender_outlay p ?s - unat d"
  proof (cases "pool_slot p ?s ?n")
    case None
    then have "unat d = 0" using d(1) rep by (simp add: replaced_outlay_def)
    then show ?thesis using None cap rep card shrinks_outlay(1) [OF assms(3) ok assms(4)] sender_len_card [OF ok, of ?s]
      card_mono [of "sender_nonces p ?s" "sender_nonces p ?s - {?n}"] by simp
  next
    case (Some old)
    then obtain t where t: "pool_tx p old = Some t" "pt_sender t = ?s" "pt_nonce t = ?n" using pool_okD(6) [OF ok] by blast
    have "?n \<in> sender_nonces p ?s" using t by (auto simp: sender_nonces_def)
    then have "card (sender_nonces p ?s - {?n}) = sender_len p ?s - 1" by (simp add: sender_len_card [OF ok])
    moreover have "pool_tx p' old = None"
    proof (cases "pool_tx p' old")
      case (Some t')
      obtain u where "pool_tx p old = Some u" "bare_tx u = bare_tx t'"
        using bare_le_tx [of p' p old t'] assms(3) Some by (auto simp: shrinks_def)
      then have "pt_sender t' = ?s" "pt_nonce t' = ?n" using t bare_tx_eq [of u t'] by simp_all
      then have "pool_slot p' ?s ?n = Some old" using Some pool_okD(6) [OF assms(4)] by blast
      then show ?thesis using assms(5) by simp
    qed
    then have "sender_outlay p' ?s + outlay_of t \<le> sender_outlay p ?s" using shrinks_outlay(2) [OF assms(3) ok assms(4) t(1)] t(2) by simp
    moreover have "unat d = outlay_of t"
      using replaced_outlay_Some(1) [of p old "pr_fee pr" d t] d(1) rep Some t(1) calculation fit by simp
    ultimately show ?thesis using cap rep Some card by simp
  qed
  then show "card (insert ?n (sender_nonces p' ?s)) \<le> pool_per_sender p"
    "sender_outlay p' ?s + unat (pr_amount pr) + unat (pr_fee pr) \<le> unat (snd (lookup ?s))"
    using gone d(2) pend by simp_all
qed

text \<open>
  The outcome of a commit: a refusal takes nothing in, an acceptance pools the transaction within its
  sender's means and marks it executable exactly when every nonce from the account's on is pooled.
\<close>

definition admitted_ok :: "(Address \<Rightarrow> Account \<times> u128) \<Rightarrow> Prepared \<Rightarrow> Mempool \<Rightarrow> Admitted \<Rightarrow> bool" where
  "admitted_ok lookup pr p a \<longleftrightarrow> ad_txid a = pr_txid pr \<and>
     (\<exists>t. pool_tx p (pr_txid pr) = Some t \<and> pt_sender t = pr_sender pr \<and> pt_nonce t = pr_nonce pr \<and> pt_fee t = pr_fee pr \<and>
        pt_amount t = pr_amount pr \<and> pt_bytes t = pr_raw pr \<and> pt_executable t = ad_executable a) \<and>
     (ad_executable a \<longleftrightarrow> run_in (sender_nonces p (pr_sender pr)) (pr_next pr) (pr_nonce pr)) \<and>
     sender_outlay p (pr_sender pr) \<le> unat (snd (lookup (pr_sender pr)))"

definition commit_outcome :: "(Address \<Rightarrow> Account \<times> u128) \<Rightarrow> Prepared \<Rightarrow> Mempool \<Rightarrow> Mempool \<Rightarrow> Reject + Admitted \<Rightarrow> bool" where
  "commit_outcome lookup pr p p' r \<longleftrightarrow> mempool_valid p' \<and> mp_params p' = mp_params p \<and>
     (case r of Inl e \<Rightarrow> e = Reject.PoolFull \<and> shrinks p p' | Inr a \<Rightarrow> admitted_ok lookup pr p' a)"

lemma accept_ok:
  assumes "mempool_valid p" "prepared_ok p lookup pr" "shrinks p p3" "pool_inv {pr_sender pr} p3"
    "pool_slot p3 (pr_sender pr) (pr_nonce pr) = None" "pr_nonce pr \<noteq> - 1"
    "length (mp_txs p3) < mpp_max_txs (mp_params p)" "mp_total_bytes p3 + length (pr_raw pr) \<le> mpp_max_bytes (mp_params p)"
    and pt: "pt = \<lparr>pt_txid = pr_txid pr, pt_sender = pr_sender pr, pt_nonce = pr_nonce pr, pt_fee = pr_fee pr,
      pt_amount = pr_amount pr, pt_bytes = pr_raw pr, pt_arrived = now, pt_sig_verified = True, pt_executable = False\<rparr>"
    and p4: "p4 = p3\<lparr>mp_next_nonce := (mp_next_nonce p3)(pr_sender pr \<mapsto> pr_next pr)\<rparr>"
  shows "\<exists>promoted q t. pool_resplit (pr_sender pr) (pr_next pr) (pool_insert pt p4) = Some (promoted, q) \<and>
    pool_tx q (pr_txid pr) = Some t \<and>
    (\<forall>pm rm. commit_outcome lookup pr p q (Inr \<lparr>ad_txid = pr_txid pr, ad_executable = pt_executable t, ad_promoted = pm, ad_removed = rm\<rparr>))"
proof -
  let ?s = "pr_sender pr" and ?n = "pr_nonce pr"
  have f: "pt_txid pt = pr_txid pr" "pt_sender pt = ?s" "pt_nonce pt = ?n" "pt_bytes pt = pr_raw pr"
    "outlay_of pt = unat (pr_amount pr) + unat (pr_fee pr)" by (simp_all add: pt outlay_of_def)
  have i4: "pool_inv {?s} p4" unfolding p4 flags_room_next(1) by (rule assms(4))
  have same: "pool_tx p4 = pool_tx p3" "pool_slot p4 = pool_slot p3" "mp_params p4 = mp_params p3" "length (mp_txs p4) = length (mp_txs p3)"
    "mp_total_bytes p4 = mp_total_bytes p3" "sender_nonces p4 = sender_nonces p3" "sender_outlay p4 = sender_outlay p3"
    by (simp_all add: p4 pool_slot_def fun_eq_iff flags_room_next(3) sender_outlay_def)
  have params: "mp_params p3 = mp_params p" using assms(3) by (simp add: shrinks_def)
  have "pool_tx p4 (pt_txid pt) = None"
    using assms(2) shrinks_None [OF assms(3)] unfolding same(1) f by (simp add: prepared_ok_def)
  then obtain pr' q where q: "pool_resplit ?s (pr_next pr) (pool_insert pt p4) = Some (pr', q)" "pool_inv {} q"
    "mp_params q = mp_params p4" "length (mp_txs q) = length (mp_txs p4) + 1"
    "mp_total_bytes q = mp_total_bytes p4 + length (pt_bytes pt)"
    "pool_tx q (pt_txid pt) = Some (marked (pool_insert pt p4) ?s (pr_next pr) pt)"
    "\<And>s'. sender_nonces q s' = (if s' = ?s then insert (pt_nonce pt) (sender_nonces p4 s') else sender_nonces p4 s')"
    "\<And>s'. sender_outlay q s' = sender_outlay p4 s' + (if s' = ?s then outlay_of pt else 0)"
    using put_back_ok [OF i4, of pt "pr_next pr"] assms(5,6) f same(2) by auto
  have ok: "pool_ok p" "pool_ok p3" "pool_ok q" using assms(1,4) q(2) by (auto simp: mempool_valid_def)
  note room = room_for_prepared [OF assms(1,2,3) ok(2) assms(5)]
  have caps: "sender_len q s' \<le> pool_per_sender q" for s'
  proof (cases "s' = ?s")
    case True
    then show ?thesis unfolding sender_len_card [OF ok(3)] q(7) using room(1) q(3) same(3,6) params f
      by (simp add: pool_per_sender_def)
  next
    case False
    then have "sender_len q s' \<le> sender_len p s'"
      unfolding sender_len_card [OF ok(3)] sender_len_card [OF ok(1)] q(7) same(6)
      using shrinks_nonces [OF assms(3)] by (simp add: card_mono)
    also have "\<dots> \<le> pool_per_sender p" using assms(1) by (simp add: mempool_valid_def caps_ok_def)
    finally show ?thesis using q(3) same(3) params by (simp add: pool_per_sender_def)
  qed
  have outlay: "sender_outlay q ?s \<le> unat (snd (lookup ?s))" using room(2) q(8) same(7) f by simp
  have "sender_outlay q s' < 2 ^ 128" for s'
  proof (cases "s' = ?s")
    case True
    then show ?thesis using outlay unsigned_less [of "snd (lookup ?s)", where ?'a = nat] by simp
  next
    case False
    then have "sender_outlay q s' \<le> sender_outlay p s'" using q(8) same(7) shrinks_outlay(1) [OF assms(3) ok(1,2)] by simp
    also have "\<dots> < 2 ^ 128" using assms(1) by (simp add: mempool_valid_def outlays_fit_def)
    finally show ?thesis .
  qed
  then have valid: "mempool_valid q"
    using q(2,3,4,5) same f params caps assms(7,8) by (simp add: mempool_valid_def caps_ok_def outlays_fit_def)
  let ?t = "marked (pool_insert pt p4) ?s (pr_next pr) pt"
  have keys: "sender_nonces (pool_insert pt p4) ?s = sender_nonces q ?s"
    using q(7) insert_nonces [OF \<open>pool_tx p4 (pt_txid pt) = None\<close>, of "pool_insert pt p4" ?s] f
      insert_ok(2) [OF pool_inv_ok [OF i4] \<open>pool_tx p4 (pt_txid pt) = None\<close>] assms(5) same(2) by simp
  have "admitted_ok lookup pr q \<lparr>ad_txid = pr_txid pr, ad_executable = pt_executable ?t, ad_promoted = pm, ad_removed = rm\<rparr>" for pm rm
    using q(6) f outlay keys by (simp add: admitted_ok_def) (simp add: marked_def pt)
  then show ?thesis using q(1,3,6) valid f same(3) params by (auto simp: commit_outcome_def)
qed

lemma refuse_ok:
  assumes "mempool_valid p" "shrinks p p1" "shrinks p1 p3" "pool_inv {s} p3" "pool_ok p1"
    "pool_tx p1 (pt_txid t) = Some t" "pool_tx p3 (pt_txid t) = None" "pool_slot p3 s (pt_nonce t) = None" "pt_sender t = s"
    "length (mp_txs p3) + 1 \<le> length (mp_txs p1)" "mp_total_bytes p3 + length (pt_bytes t) \<le> mp_total_bytes p1"
  shows "\<exists>promoted q. pool_resplit s next (pool_insert t p3) = Some (promoted, q) \<and>
    commit_outcome lookup pr p q (Inl Reject.PoolFull)"
proof -
  have room: "nonce_room p1" using assms(1,2) shrinks_room by (auto simp: mempool_valid_def pool_inv_def)
  have "pt_nonce t \<in> sender_nonces p1 s" using assms(6,9) by (auto simp: sender_nonces_def)
  then have "pt_nonce t \<noteq> - 1" using room by (auto simp: nonce_room_def)
  then obtain pr' q where q: "pool_resplit s next (pool_insert t p3) = Some (pr', q)" "pool_inv {} q"
    "bare q = (bare p3)(pt_txid t \<mapsto> bare_tx t)" "mp_params q = mp_params p3" "length (mp_txs q) = length (mp_txs p3) + 1"
    "mp_total_bytes q = mp_total_bytes p3 + length (pt_bytes t)"
    using put_back_ok [OF assms(4,7,8,9), of "next"] by blast
  have "bare p1 (pt_txid t) = Some (bare_tx t)" using assms(6) by (simp add: bare_def)
  then have "bare q \<subseteq>\<^sub>m bare p1" using assms(3) unfolding q(3) shrinks_def map_le_def by auto
  then have "shrinks p1 q" using q(4-6) assms(3,10,11) by (simp add: shrinks_def)
  then have sh: "shrinks p q" by (rule shrinks_trans [OF assms(2)])
  then show ?thesis using q(1) shrinks_valid [OF assms(1) sh q(2)] by (auto simp: commit_outcome_def shrinks_def)
qed

theorem commit_ok:
  assumes "mempool_valid p" "prepared_ok p lookup pr" "unat (pr_next pr) + unat (mpp_max_nonce_gap (mp_params p)) < 2 ^ 64 - 1"
  shows "\<exists>cs p' r. mempool_commit pr proof now p = Some (cs, p', r) \<and> commit_outcome lookup pr p p' r"
proof -
  let ?s = "pr_sender pr" and ?n = "pr_nonce pr"
  have inv: "pool_inv {} p" and okp: "pool_ok p" using assms(1) by (auto simp: mempool_valid_def)
  have nn: "?n \<noteq> - 1" using run_room [OF _ assms(3)] assms(2) unfolding prepared_ok_def by blast
  obtain dead p1 where 1: "sweep_expired now p = Some (dead, p1)" "pool_inv {} p1" "shrinks p p1" using sweep_inv [OF inv] by blast
  have ok1: "pool_ok p1" using 1(2) by blast
  have rep: "pr_replaces pr = pool_slot p ?s ?n" using assms(2) unfolding prepared_ok_def by blast
  have "\<forall>old. pr_replaces pr = Some old \<longrightarrow> (\<forall>t. pool_tx p1 old = Some t \<longrightarrow> pt_sender t = ?s \<and> pt_nonce t = ?n)"
  proof (intro allI impI)
    fix old t assume "pr_replaces pr = Some old" and t: "pool_tx p1 old = Some t"
    then obtain t' where t': "pool_tx p old = Some t'" "pt_sender t' = ?s" "pt_nonce t' = ?n"
      using rep pool_okD(6) [OF okp, of ?s ?n old] by auto
    obtain u where "pool_tx p old = Some u" "bare_tx u = bare_tx t" using bare_le_tx [of p1 p old t] 1(3) t by (auto simp: shrinks_def)
    then show "pt_sender t = ?s \<and> pt_nonce t = ?n" using t' bare_tx_eq [of u t] by simp
  qed
  moreover have "\<forall>h. pool_slot p1 ?s ?n = Some h \<longrightarrow> pr_replaces pr = Some h"
    using slot_shrinks [OF 1(3) okp ok1] rep by simp
  ultimately obtain d p2 where 2: "displace (pr_replaces pr) p1 = Some (d, p2)" "shrinks p1 p2" "pool_slot p2 ?s ?n = None"
    "pool_inv (if d = None then {} else {?s}) p2"
    "\<forall>t. d = Some t \<longrightarrow> pool_tx p1 (pt_txid t) = Some t \<and> pool_tx p2 (pt_txid t) = None \<and> pt_sender t = ?s \<and> pt_nonce t = ?n \<and>
      length (mp_txs p2) + 1 = length (mp_txs p1) \<and> mp_total_bytes p2 + length (pt_bytes t) = mp_total_bytes p1"
    using displace_ok [OF 1(2), of "pr_replaces pr" ?s ?n] by blast
  have ok2: "pool_ok p2" using 2(4) by blast
  obtain refuse vs cs p3 where 3: "evict_loop (length (pr_raw pr)) (pr_fee pr div word_of_nat (max (length (pr_raw pr)) 1)) p2 =
      Some (refuse, vs, cs, p3)" "pool_inv (if d = None then {} else {?s}) p3" "removes (set vs) p2 p3"
    "refuse \<or> length (mp_txs p3) < mpp_max_txs (mp_params p2) \<and> mp_total_bytes p3 + length (pr_raw pr) \<le> mpp_max_bytes (mp_params p2)"
    using evict_loop_ok [OF 2(4)] by blast
  have ok3: "pool_ok p3" using 3(2) by blast
  have sh23: "shrinks p2 p3" by (rule removes_shrinks [OF 3(3)])
  have sh13: "shrinks p1 p3" by (rule shrinks_trans [OF 2(2) sh23])
  have sh3: "shrinks p p3" by (rule shrinks_trans [OF 1(3) sh13])
  have slot3: "pool_slot p3 ?s ?n = None" using slot_shrinks [OF sh23 ok2 ok3] 2(3) by (cases "pool_slot p3 ?s ?n") auto
  have i3: "pool_inv {?s} p3" using 3(2) flags_mono [of "if d = None then {} else {?s}" p3 "{?s}"] by (auto simp: pool_inv_def split: if_splits)
  note commit = mempool_commit_def [of pr "proof" now p] displace_def [symmetric]
  show ?thesis
  proof (cases refuse)
    case False
    have "mp_params p2 = mp_params p" using 1(3) 2(2) by (simp add: shrinks_def)
    then have "length (mp_txs p3) < mpp_max_txs (mp_params p)" "mp_total_bytes p3 + length (pr_raw pr) \<le> mpp_max_bytes (mp_params p)"
      using 3(4) False by simp_all
    from accept_ok [OF assms(1,2) sh3 i3 slot3 nn this refl refl, of now] obtain promoted q t where
      "pool_resplit ?s (pr_next pr) (pool_insert \<lparr>pt_txid = pr_txid pr, pt_sender = ?s, pt_nonce = ?n, pt_fee = pr_fee pr,
        pt_amount = pr_amount pr, pt_bytes = pr_raw pr, pt_arrived = now, pt_sig_verified = True, pt_executable = False\<rparr>
        (p3\<lparr>mp_next_nonce := (mp_next_nonce p3)(?s \<mapsto> pr_next pr)\<rparr>)) = Some (promoted, q)"
      "pool_tx q (pr_txid pr) = Some t"
      "\<forall>pm rm. commit_outcome lookup pr p q (Inr \<lparr>ad_txid = pr_txid pr, ad_executable = pt_executable t, ad_promoted = pm, ad_removed = rm\<rparr>)"
      by blast
    then show ?thesis using 1(1) 2(1) 3(1) False unfolding commit by simp
  next
    case True
    show ?thesis
    proof (cases d)
      case None
      then have "pool_inv {} p3" using 3(2) by simp
      then have "commit_outcome lookup pr p p3 (Inl Reject.PoolFull)"
        using shrinks_valid [OF assms(1) sh3] sh3 by (simp add: commit_outcome_def shrinks_def)
      then show ?thesis using 1(1) 2(1) 3(1) True None unfolding commit by simp
    next
      case (Some t)
      note t = 2(5) [rule_format, OF Some]
      have "pool_tx p3 (pt_txid t) = None" using shrinks_None [OF sh23] t by simp
      then obtain promoted q where "pool_resplit ?s (pr_next pr) (pool_insert t p3) = Some (promoted, q)"
        "commit_outcome lookup pr p q (Inl Reject.PoolFull)"
        using refuse_ok [OF assms(1) 1(3) sh13 i3 ok1, of t "pr_next pr" lookup pr] t slot3 sh23 by (auto simp: shrinks_def)
      then show ?thesis using 1(1) 2(1) 3(1) True Some unfolding commit by simp
    qed
  qed
qed

end
