(* ===== verification/MempoolLife.thy ===== *)
theory MempoolLife imports MempoolCommit begin

text \<open>
  The life of the mempool: submissions, connected blocks, reorganisations and sweeps in any order. None
  panics, and the invariant of the pool holds after each.
\<close>

section \<open>Submissions\<close>

text \<open>
  An account leaves room when its nonce and the allowed gap stay below the greatest \<open>u64\<close>: only then can
  \<open>resplit\<close> count past every pooled nonce.
\<close>

definition leaves_room :: "MempoolParams \<Rightarrow> Account \<Rightarrow> bool" where
  "leaves_room params a \<longleftrightarrow> unat (ac_nonce a) + unat (mpp_max_nonce_gap params) < 2 ^ 64 - 1"

lemma prepared_next: "prepared_ok p lookup pr \<Longrightarrow> pr_next pr = ac_nonce (fst (lookup (pr_sender pr)))"
  by (simp add: prepared_ok_def)

lemma submit_verified_ok:
  assumes "mempool_valid p" "\<And>s. leaves_room (mp_params p) (fst (lookup s))"
  obtains cs p' r where "submit_verified vk verify network raw lookup now key p = Some (cs, p', r)"
    "mempool_valid p'" "mp_params p' = mp_params p" "\<And>e. r = Inl e \<Longrightarrow> shrinks p p'"
    "\<And>a. r = Inr a \<Longrightarrow> \<exists>pr pf. prepared_ok p lookup pr \<and> pr_raw pr = raw \<and> decode_tx raw = Inr (pr_tx pr) \<and>
      proof_verify vk verify network (pr_tx pr) key = Inr pf \<and> admitted_ok lookup pr p' a"
proof -
  have ok: "pool_ok p" using assms(1) by (auto simp: mempool_valid_def)
  obtain r where r: "mempool_check raw (Enforce key) lookup p = Some r" using mempool_check_some [OF ok] by fastforce
  show thesis
  proof (cases r)
    case (Inl e)
    then show thesis using that [of "[]" p "Inl e"] r assms(1) by (simp add: submit_verified_def)
  next
    case (Inr pr)
    note check = mempool_check_Ok [OF r [unfolded Inr]]
    show thesis
    proof (cases "proof_verify vk verify network (pr_tx pr) key")
      case (Inl e)
      then show thesis using that [of "[]" p "Inl e"] r Inr assms(1) by (simp add: submit_verified_def)
    next
      case pf: (Inr pf)
      have "unat (pr_next pr) + unat (mpp_max_nonce_gap (mp_params p)) < 2 ^ 64 - 1"
        using assms(2) [of "pr_sender pr"] prepared_next [OF check(1)] by (simp add: leaves_room_def)
      then obtain cs p' r' where c: "mempool_commit pr pf now p = Some (cs, p', r')" "commit_outcome lookup pr p p' r'"
        using commit_ok [OF assms(1) check(1)] by blast
      have run: "submit_verified vk verify network raw lookup now key p = Some (cs, p', r')"
        using r Inr pf c(1) by (simp add: submit_verified_def)
      show thesis
        by (rule that [OF run]) (use c(2) check pf in \<open>auto simp: commit_outcome_def\<close>)
    qed
  qed
qed

lemma submit_ok:
  assumes "mempool_valid p" "leaves_room (mp_params p) acct"
  shows "\<exists>cs p' r. mempool_submit raw acct spendable now pf p = Some (cs, p', r) \<and> mempool_valid p' \<and> mp_params p' = mp_params p"
proof -
  have ok: "pool_ok p" using assms(1) by (auto simp: mempool_valid_def)
  obtain r where r: "mempool_check raw AlreadyHeld (\<lambda>_. (acct, spendable)) p = Some r" using mempool_check_some [OF ok] by fastforce
  show ?thesis
  proof (cases r)
    case (Inl e)
    then show ?thesis using r assms(1) by (simp add: mempool_submit_def)
  next
    case (Inr pr)
    note check = mempool_check_Ok [OF r [unfolded Inr]]
    have "unat (pr_next pr) + unat (mpp_max_nonce_gap (mp_params p)) < 2 ^ 64 - 1"
      using assms(2) prepared_next [OF check(1)] by (simp add: leaves_room_def)
    then obtain cs p' r' where "mempool_commit pr pf now p = Some (cs, p', r')" "commit_outcome (\<lambda>_. (acct, spendable)) pr p p' r'"
      using commit_ok [OF assms(1) check(1)] by blast
    then show ?thesis using r Inr by (simp add: mempool_submit_def commit_outcome_def)
  qed
qed

lemma reinject_ok:
  assumes "mempool_valid p" "\<And>s. leaves_room (mp_params p) (fst (lookup s))"
  shows "\<exists>t' d' cs p'. reinject_loop cap lookup now raws t d p = Some (t', d', cs, p') \<and> mempool_valid p' \<and>
    mp_params p' = mp_params p \<and> t' \<le> max t cap"
  using assms
proof (induction raws arbitrary: t d p)
  case (Cons raw raws)
  show ?case
  proof (cases "cap \<le> t")
    case True
    then show ?thesis using Cons.IH [OF Cons.prems, of t "d + 1"] by simp
  next
    case False
    show ?thesis
    proof (cases "decode_tx raw")
      case (Inl e)
      then show ?thesis using False Cons.IH [OF Cons.prems, of t "d + 1"] by simp
    next
      case (Inr tx)
      obtain acct spendable where look: "lookup (sender tx) = (acct, spendable)" by (cases "lookup (sender tx)")
      have "leaves_room (mp_params p) acct" using Cons.prems(2) [of "sender tx"] look by simp
      then obtain cs p1 r where 1: "mempool_submit raw acct spendable now from_validated_block p = Some (cs, p1, r)"
        "mempool_valid p1" "mp_params p1 = mp_params p" using submit_ok [OF Cons.prems(1)] by blast
      have IH: "\<exists>t' d' cs p'. reinject_loop cap lookup now raws t d p1 = Some (t', d', cs, p') \<and> mempool_valid p' \<and>
          mp_params p' = mp_params p \<and> t' \<le> max t cap" for t d using Cons.IH [OF 1(2)] Cons.prems(2) 1(3) by simp
      show ?thesis
      proof (cases tx)
        case (Coinbase c)
        then show ?thesis using False Inr Cons.IH [OF Cons.prems, of t d] by simp
      next
        case (Transfer x)
        then show ?thesis using False Inr look 1(1) IH [of t "d + 1"] IH [of "t + 1" d] by (cases r) auto
      next
        case (Announcement x)
        then show ?thesis using False Inr look 1(1) IH [of t "d + 1"] IH [of "t + 1" d] by (cases r) auto
      qed
    qed
  qed
qed simp

section \<open>Blocks\<close>

text \<open>A sender is renewed when nothing of it lies below the account's nonce and its flags start there.\<close>

definition renewed :: "(Address \<Rightarrow> Account) \<Rightarrow> Mempool \<Rightarrow> Address \<Rightarrow> bool" where
  "renewed account p s \<longleftrightarrow> (\<forall>h t. pool_tx p h = Some t \<longrightarrow> pt_sender t = s \<longrightarrow> ac_nonce (account s) \<le> pt_nonce t \<and>
     pt_executable t = run_in (sender_nonces p s) (ac_nonce (account s)) (pt_nonce t))"

lemma takeWhile_sorted:
  "sorted_wrt (<) (map fst m) \<Longrightarrow> takeWhile (\<lambda>(k, _). k < n) m = filter (\<lambda>(k, _). k < (n :: 'k::linorder)) m"
  by (induction m) (auto simp: filter_empty_conv intro!: filter_False [symmetric] dest: less_trans)

lemma drop_below_exact:
  assumes "pool_ok p"
  shows "\<exists>p'. drop_below_nonce s n p = Some p' \<and> removes {h. \<exists>t. pool_tx p h = Some t \<and> pt_sender t = s \<and> pt_nonce t < n} p p'"
proof -
  let ?hs = "case map_of (mp_by_sender p) s of None \<Rightarrow> [] | Some m \<Rightarrow> map snd (takeWhile (\<lambda>(k, _). k < n) m)"
  have "set ?hs = {h. \<exists>t. pool_tx p h = Some t \<and> pt_sender t = s \<and> pt_nonce t < n}"
  proof (cases "map_of (mp_by_sender p) s")
    case None
    then show ?thesis using slot_None_sender [OF assms, of s] by auto
  next
    case (Some m)
    have "set ?hs = {h. \<exists>k. (k, h) \<in> set m \<and> k < n}"
      using Some takeWhile_sorted [OF pool_okD(5) [OF assms Some]] by force
    then show ?thesis unfolding sender_index(1) [OF assms Some] by blast
  qed
  moreover obtain p' where "for_each (\<lambda>h p. map_option snd (pool_remove h p)) ?hs p = Some p'" "removes (set ?hs) p p'"
    using for_removes [OF assms] by blast
  ultimately show ?thesis unfolding drop_below_nonce_def Let_def by auto
qed

text \<open>Renewing a sender leaves what the others have.\<close>

definition untouched :: "Address \<Rightarrow> Mempool \<Rightarrow> Mempool \<Rightarrow> bool" where
  "untouched s p p' \<longleftrightarrow> (\<forall>h t. pt_sender t \<noteq> s \<longrightarrow> (pool_tx p' h = Some t \<longleftrightarrow> pool_tx p h = Some t))"

lemma untouched_renewed:
  assumes "untouched s p p'" "s' \<noteq> s"
  shows "renewed account p' s' \<longleftrightarrow> renewed account p s'"
proof -
  have tx: "pool_tx p' h = Some t \<and> pt_sender t = s' \<longleftrightarrow> pool_tx p h = Some t \<and> pt_sender t = s'" for h t
    using assms by (auto simp: untouched_def)
  have "sender_nonces p' s' = sender_nonces p s'" unfolding sender_nonces_def using tx by blast
  then show ?thesis unfolding renewed_def using tx by metis
qed

lemma renew_exact:
  assumes "pool_inv S p"
  shows "\<exists>p'. renew_sender account s p = Some p' \<and> pool_inv (S - {s}) p' \<and> shrinks p p' \<and> untouched s p p' \<and> renewed account p' s"
proof -
  let ?n = "ac_nonce (account s)"
  let ?p = "p\<lparr>mp_next_nonce := (mp_next_nonce p)(s \<mapsto> ?n)\<rparr>"
  have "pool_inv (insert s S) p" using assms flags_mono [of S p "insert s S"] by (simp add: pool_inv_def subset_insertI)
  then have inv: "pool_inv (insert s S) ?p" unfolding flags_room_next(1) .
  have sh: "shrinks p ?p" unfolding shrinks_def flags_room_next(2) by simp
  let ?hs = "{h. \<exists>t. pool_tx p h = Some t \<and> pt_sender t = s \<and> pt_nonce t < ?n}"
  obtain p1 where 1: "drop_below_nonce s ?n ?p = Some p1" "removes ?hs ?p p1"
    using drop_below_exact [OF pool_inv_ok [OF inv], of s ?n] by auto
  have i1: "pool_inv (insert s S) p1" by (rule removes_inv [OF inv 1(2)]) auto
  have tx1: "pool_tx p1 = (pool_tx p) |` (- ?hs)" using 1(2) by (simp add: removes_def)
  obtain pr p2 where 2: "pool_resplit s ?n p1 = Some (pr, p2)" "pool_inv (insert s S - {s}) p2" "shrinks p1 p2" "bare p2 = bare p1"
    "pool_tx p2 = (\<lambda>h. map_option (marked p1 s ?n) (pool_tx p1 h))"
    using resplit_inv [OF i1] by blast
  have "untouched s p p2"
    unfolding untouched_def
  proof (intro allI impI)
    fix h and t :: PoolTx assume t: "pt_sender t \<noteq> s"
    have "pool_tx p2 h = Some t \<longleftrightarrow> pool_tx p1 h = Some t"
      using t unfolding 2(5) by (cases "pool_tx p1 h") (auto simp: marked_def)
    also have "\<dots> \<longleftrightarrow> pool_tx p h = Some t" using t unfolding tx1 by (auto simp: restrict_map_def)
    finally show "pool_tx p2 h = Some t \<longleftrightarrow> pool_tx p h = Some t" .
  qed
  moreover have "renewed account p2 s"
    unfolding renewed_def
  proof (intro allI impI)
    fix h t assume t: "pool_tx p2 h = Some t" "pt_sender t = s"
    then obtain u where u: "pool_tx p1 h = Some u" "t = marked p1 s ?n u" by (auto simp: 2(5))
    have "?n \<le> pt_nonce u" using u t(2) unfolding tx1 by (auto simp: restrict_map_def split: if_splits)
    moreover have "sender_nonces p2 s = sender_nonces p1 s" unfolding sender_nonces_bare 2(4) ..
    ultimately show "?n \<le> pt_nonce t \<and> pt_executable t = run_in (sender_nonces p2 s) ?n (pt_nonce t)"
      using u(2) t(2) by simp
  qed
  moreover have "pool_inv (S - {s}) p2" using 2(2) by simp
  moreover have "shrinks p p2" by (rule shrinks_trans [OF shrinks_trans [OF sh removes_shrinks [OF 1(2)]] 2(3)])
  moreover have "renew_sender account s p = Some p2" using 1(1) 2(1) by (simp add: renew_sender_def)
  ultimately show ?thesis by blast
qed

lemma renew_all:
  assumes "pool_inv S p"
  shows "\<exists>p'. for_each (renew_sender account) xs p = Some p' \<and> pool_inv (S - set xs) p' \<and> shrinks p p' \<and>
    (\<forall>s. s \<in> set xs \<or> renewed account p s \<longrightarrow> renewed account p' s)"
  using assms
proof (induction xs arbitrary: S p)
  case (Cons x xs)
  obtain p1 where 1: "renew_sender account x p = Some p1" "pool_inv (S - {x}) p1" "shrinks p p1" "untouched x p p1" "renewed account p1 x"
    using renew_exact [OF Cons.prems] by blast
  obtain p2 where 2: "for_each (renew_sender account) xs p1 = Some p2" "pool_inv (S - {x} - set xs) p2" "shrinks p1 p2"
    "\<forall>s. s \<in> set xs \<or> renewed account p1 s \<longrightarrow> renewed account p2 s" using Cons.IH [OF 1(2)] by blast
  have "S - {x} - set xs = S - set (x # xs)" by auto
  moreover have "renewed account p2 s" if "s \<in> set (x # xs) \<or> renewed account p s" for s
    using that 2(4) 1(5) untouched_renewed [OF 1(4), of s] by (cases "s = x") auto
  ultimately show ?case using 1(1) 2(1,2) shrinks_trans [OF 1(3) 2(3)] by simp
qed simp

lemma remove_spent_ok:
  assumes "pool_ok p"
  shows "\<exists>n' p' hs. remove_spent spent n p = Some (n', p') \<and> removes hs p p' \<and>
    (\<forall>h \<in> hs. \<forall>t. pool_tx p h = Some t \<longrightarrow> (pt_sender t, pt_nonce t) \<in> set spent) \<and>
    (\<forall>(s, k) \<in> set spent. pool_slot p' s k = None)"
  using assms
proof (induction spent n p rule: remove_spent.induct)
  case (1 n p)
  then show ?case using removes_refl by fastforce
next
  case (2 s k spent n p)
  have keep: "pool_slot p' s k = None" if "removes hs p1 p'" "pool_slot p1 s k = None" "pool_ok p1" for hs p1 p'
    using slot_shrinks [OF removes_shrinks [OF that(1)] that(3), of s k] that(1,2)
    by (cases "pool_slot p' s k") (auto simp: removes_def)
  show ?case
  proof (cases "pool_slot p s k")
    case None
    then have none: "Option.bind (map_of (mp_by_sender p) s) (\<lambda>m. map_of m k) = None" by (simp add: pool_slot_def)
    obtain n' p' hs where r: "remove_spent spent n p = Some (n', p')" "removes hs p p'"
      "\<forall>h \<in> hs. \<forall>t. pool_tx p h = Some t \<longrightarrow> (pt_sender t, pt_nonce t) \<in> set spent"
      "\<forall>(s, k) \<in> set spent. pool_slot p' s k = None" using "2.IH"(1) [OF none 2(3)] by blast
    then have "remove_spent ((s, k) # spent) n p = Some (n', p')" using none by simp
    moreover have "\<forall>h \<in> hs. \<forall>t. pool_tx p h = Some t \<longrightarrow> (pt_sender t, pt_nonce t) \<in> set ((s, k) # spent)" using r(3) by auto
    moreover have "\<forall>(s, k) \<in> set ((s, k) # spent). pool_slot p' s k = None" using r(4) keep [OF r(2) None 2(3)] by simp
    ultimately show ?thesis using r(2) by blast
  next
    case (Some h)
    then have some: "Option.bind (map_of (mp_by_sender p) s) (\<lambda>m. map_of m k) = Some h" by (simp add: pool_slot_def)
    obtain t where t: "pool_tx p h = Some t" "pt_sender t = s" "pt_nonce t = k" using Some pool_okD(6) [OF 2(3)] by blast
    obtain p1 where 1: "pool_remove h p = Some (pool_tx p h, p1)" "removes {h} p p1" using remove_ok' [OF 2(3)] by blast
    have ok1: "pool_ok p1" and tx1: "pool_tx p1 = (pool_tx p) |` (- {h})" using 1(2) by (simp_all add: removes_def)
    have gone: "pool_slot p1 s k = None"
    proof (cases "pool_slot p1 s k")
      case (Some h')
      then have "h' = h" using slot_shrinks [OF removes_shrinks [OF 1(2)] 2(3) ok1] \<open>pool_slot p s k = Some h\<close> by fastforce
      then show ?thesis using Some pool_okD(6) [OF ok1, of s k h'] by (simp add: tx1)
    qed
    obtain n' p' hs where r: "remove_spent spent (n + 1) p1 = Some (n', p')" "removes hs p1 p'"
      "\<forall>h \<in> hs. \<forall>t. pool_tx p1 h = Some t \<longrightarrow> (pt_sender t, pt_nonce t) \<in> set spent"
      "\<forall>(s, k) \<in> set spent. pool_slot p' s k = None" using "2.IH"(2) [OF some 1(1) refl ok1] by blast
    have "remove_spent ((s, k) # spent) n p = Some (n', p')" using some 1(1) r(1) by simp
    moreover have "removes ({h} \<union> hs) p p'" by (rule removes_trans [OF 1(2) r(2)])
    moreover have "(pt_sender u, pt_nonce u) \<in> set ((s, k) # spent)" if "h' \<in> {h} \<union> hs" "pool_tx p h' = Some u" for h' u
      using that r(3) t by (cases "h' = h") (auto simp: tx1)
    moreover have "\<forall>(s, k) \<in> set ((s, k) # spent). pool_slot p' s k = None" using r(4) keep [OF r(2) gone ok1] by simp
    ultimately show ?thesis by blast
  qed
qed

lemma connected_ok:
  assumes "mempool_valid p"
  shows "\<exists>n p'. on_block_connected spent account p = Some (n, p') \<and> mempool_valid p' \<and> shrinks p p' \<and>
    (\<forall>(s, k) \<in> set spent. pool_slot p' s k = None) \<and> (\<forall>s \<in> fst ` set spent. renewed account p' s)"
proof -
  have inv: "pool_inv {} p" using assms by (simp add: mempool_valid_def)
  obtain n p1 hs where 1: "remove_spent spent 0 p = Some (n, p1)" "removes hs p p1"
    "\<forall>h \<in> hs. \<forall>t. pool_tx p h = Some t \<longrightarrow> (pt_sender t, pt_nonce t) \<in> set spent"
    "\<forall>(s, k) \<in> set spent. pool_slot p1 s k = None" using remove_spent_ok [OF pool_inv_ok [OF inv]] by blast
  have "pool_inv (fst ` set spent) p" using inv flags_mono [of "{}" p "fst ` set spent"] by (simp add: pool_inv_def)
  then have i1: "pool_inv (fst ` set spent) p1" using removes_inv [OF _ 1(2)] 1(3) by force
  obtain p2 where 2: "for_each (renew_sender account) (distinct_senders (map fst spent)) p1 = Some p2"
    "pool_inv (fst ` set spent - fst ` set spent) p2" "shrinks p1 p2" "\<forall>s. s \<in> fst ` set spent \<or> renewed account p1 s \<longrightarrow> renewed account p2 s"
    using renew_all [OF i1, of account "distinct_senders (map fst spent)"] by auto
  have i2: "pool_inv {} p2" using 2(2) by simp
  have sh: "shrinks p p2" by (rule shrinks_trans [OF removes_shrinks [OF 1(2)] 2(3)])
  have "pool_slot p2 s k = None" if "(s, k) \<in> set spent" for s k
    using slot_shrinks [OF 2(3) pool_inv_ok [OF i1] pool_inv_ok [OF i2], of s k] 1(4) that by (cases "pool_slot p2 s k") auto
  moreover have "on_block_connected spent account p = Some (n, p2)" using 1(1) 2(1) by (simp add: on_block_connected_def)
  ultimately show ?thesis using shrinks_valid [OF assms sh i2] sh 2(4) by blast
qed

lemma resplit_all_ok:
  assumes "mempool_valid p"
  shows "\<exists>p'. resplit_all account p = Some p' \<and> mempool_valid p' \<and> shrinks p p' \<and> (\<forall>s. renewed account p' s)"
proof -
  have inv: "pool_inv {} p" using assms by (simp add: mempool_valid_def)
  obtain p1 where 1: "for_each (renew_sender account) (map fst (mp_by_sender p)) p = Some p1" "pool_inv {} p1" "shrinks p p1"
    "\<forall>s. s \<in> fst ` set (mp_by_sender p) \<or> renewed account p s \<longrightarrow> renewed account p1 s"
    using renew_all [OF inv, of account "map fst (mp_by_sender p)"] by auto
  have "renewed account p s" if "s \<notin> fst ` set (mp_by_sender p)" for s
  proof -
    have "map_of (mp_by_sender p) s = None" using that by (simp add: map_of_eq_None_iff)
    then show ?thesis using slot_None_sender [OF pool_inv_ok [OF inv]] by (auto simp: renewed_def)
  qed
  then show ?thesis using 1 shrinks_valid [OF assms 1(3,2)] unfolding resplit_all_def by blast
qed

lemma new_pool_valid: "mempool_valid (mempool_new params)"
proof -
  have "sender_len (mempool_new params) s = 0" "sender_outlay (mempool_new params) s = 0" for s
    by (simp_all add: sender_len_def sender_outlay_def mempool_new_def)
  moreover have "pool_inv {} (mempool_new params)"
    using new_pool_ok by (simp add: pool_inv_def nonce_room_def flags_ok_def sender_nonces_def mempool_new_def)
  ultimately show ?thesis by (simp add: mempool_valid_def caps_ok_def outlays_fit_def mempool_new_def)
qed

lemma sweep_ok:
  assumes "mempool_valid p"
  shows "\<exists>dead p'. sweep_expired now p = Some (dead, p') \<and> mempool_valid p' \<and> shrinks p p'"
  using sweep_inv [of p now] shrinks_valid [OF assms] assms unfolding mempool_valid_def by blast

section \<open>Every sequence of operations\<close>

text \<open>What the chain manager asks of its pool.\<close>

datatype PoolOp =
    OpSubmit bytes "Address \<Rightarrow> Account \<times> u128" u64 bytes
  | OpConnect "(Address \<times> u64) list" "Address \<Rightarrow> Account"
  | OpReorg "(u64 \<times> bytes list) list" u64 "Address \<Rightarrow> Account \<times> u128"
  | OpResplit "Address \<Rightarrow> Account"
  | OpSweep u64

fun pool_op ::
  "(bytes \<Rightarrow> 'vk option) \<Rightarrow> ('vk \<Rightarrow> bytes \<Rightarrow> bytes \<Rightarrow> bool) \<Rightarrow> Network \<Rightarrow> PoolOp \<Rightarrow> Mempool \<Rightarrow> Mempool option" where
  "pool_op vk verify network (OpSubmit raw lookup now key) p =
     map_option (\<lambda>(_, p, _). p) (submit_verified vk verify network raw lookup now key p)"
| "pool_op vk verify network (OpConnect spent account) p = map_option snd (on_block_connected spent account p)"
| "pool_op vk verify network (OpReorg disconnected now lookup) p =
     map_option (\<lambda>(_, p, _). p) (on_reorg_reinject disconnected now lookup p)"
| "pool_op vk verify network (OpResplit account) p = resplit_all account p"
| "pool_op vk verify network (OpSweep now) p = map_option snd (sweep_expired now p)"

fun op_leaves_room :: "MempoolParams \<Rightarrow> PoolOp \<Rightarrow> bool" where
  "op_leaves_room params (OpSubmit raw lookup now key) \<longleftrightarrow> (\<forall>s. leaves_room params (fst (lookup s)))"
| "op_leaves_room params (OpReorg disconnected now lookup) \<longleftrightarrow> (\<forall>s. leaves_room params (fst (lookup s)))"
| "op_leaves_room params _ \<longleftrightarrow> True"

lemma pool_op_ok:
  assumes "mempool_valid p" "op_leaves_room (mp_params p) op"
  shows "\<exists>p'. pool_op vk verify network op p = Some p' \<and> mempool_valid p' \<and> mp_params p' = mp_params p"
proof (cases op)
  case (OpSubmit raw lookup now key)
  then have room: "leaves_room (mp_params p) (fst (lookup s))" for s using assms(2) by simp
  obtain cs p' r where "submit_verified vk verify network raw lookup now key p = Some (cs, p', r)" "mempool_valid p'" "mp_params p' = mp_params p"
    by (rule submit_verified_ok [OF assms(1) room]) (rule that; assumption)
  then show ?thesis by (simp add: OpSubmit)
next
  case (OpConnect spent account)
  obtain n p' where "on_block_connected spent account p = Some (n, p')" "mempool_valid p'" "shrinks p p'" using connected_ok [OF assms(1)] by blast
  then show ?thesis by (simp add: OpConnect shrinks_def)
next
  case (OpReorg disconnected now lookup)
  then have room: "leaves_room (mp_params p) (fst (lookup s))" for s using assms(2) by simp
  obtain t d cs p' where "reinject_loop (mpp_reorg_reinject_cap (mp_params p)) lookup now
      (concat (map snd (sort_by (\<lambda>a b. fst b < fst a) disconnected))) 0 0 p = Some (t, d, cs, p')" "mempool_valid p'" "mp_params p' = mp_params p"
    using reinject_ok [where ?lookup = lookup, OF assms(1) room] by blast
  then show ?thesis by (simp add: OpReorg on_reorg_reinject_def Let_def)
next
  case (OpResplit account)
  obtain p' where "resplit_all account p = Some p'" "mempool_valid p'" "shrinks p p'" using resplit_all_ok [OF assms(1)] by blast
  then show ?thesis by (simp add: OpResplit shrinks_def)
next
  case (OpSweep now)
  obtain dead p' where "sweep_expired now p = Some (dead, p')" "mempool_valid p'" "shrinks p p'" using sweep_ok [OF assms(1)] by blast
  then show ?thesis by (simp add: OpSweep shrinks_def)
qed


lemma default_leaves_room: "leaves_room default_mempool_params \<lparr>ac_balance = b, ac_nonce = 7\<rparr>"
  by (simp add: leaves_room_def default_mempool_params_def MAX_MEMPOOL_NONCE_GAP_def)


section \<open>Admission, eviction, blocks\<close>

text \<open>C15: Admission in one step: on a valid pool \<open>submit_verified\<close> returns and the pool stays valid. A
  refusal takes nothing in. An acceptance means that the bytes decode, that the signature verified, that the
  fee is at least the relay floor and the nonce not below the account's, that the transaction is pooled,
  marked executable exactly when every nonce from the account's up to its own is pooled, and that everything
  its sender now has pooled, amounts and fees, fits what the sender may spend.
\<close>

theorem submission_solvent:
  assumes "mempool_valid p" "\<forall>s. leaves_room (mp_params p) (fst (lookup s))"
  shows "case submit_verified vk verify network raw lookup now key p of
      None \<Rightarrow> False
    | Some (cs, p', Inl e) \<Rightarrow> mempool_valid p' \<and> shrinks p p'
    | Some (cs, p', Inr a) \<Rightarrow> mempool_valid p' \<and> (\<exists>tx t. decode_tx raw = Inr tx \<and> proof_verify vk verify network tx key = Inr (SigProof Verified) \<and>
        mempool_get p' (ad_txid a) = Some t \<and> pt_bytes t = raw \<and> mpp_relay_fee_floor (mp_params p) \<le> pt_fee t \<and>
        ac_nonce (fst (lookup (pt_sender t))) \<le> pt_nonce t \<and> pt_executable t = ad_executable a \<and>
        (ad_executable a \<longleftrightarrow> {ac_nonce (fst (lookup (pt_sender t)))..pt_nonce t} \<subseteq> sender_nonces p' (pt_sender t)) \<and>
        sender_outlay p' (pt_sender t) \<le> unat (snd (lookup (pt_sender t))))"
proof -
  have room: "leaves_room (mp_params p) (fst (lookup s))" for s using assms(2) by blast
  obtain cs p' r where r: "submit_verified vk verify network raw lookup now key p = Some (cs, p', r)" "mempool_valid p'"
    "\<And>e. r = Inl e \<Longrightarrow> shrinks p p'" "\<And>a. r = Inr a \<Longrightarrow> \<exists>pr pf. prepared_ok p lookup pr \<and> pr_raw pr = raw \<and> decode_tx raw = Inr (pr_tx pr) \<and>
      proof_verify vk verify network (pr_tx pr) key = Inr pf \<and> admitted_ok lookup pr p' a"
    by (rule submit_verified_ok [where ?lookup = lookup, OF assms(1) room]) (rule that; assumption)
  show ?thesis
  proof (cases r)
    case (Inl e)
    then show ?thesis using r(1,2,3) by simp
  next
    case (Inr a)
    obtain pr pf where P: "prepared_ok p lookup pr" "pr_raw pr = raw" "decode_tx raw = Inr (pr_tx pr)"
      "proof_verify vk verify network (pr_tx pr) key = Inr pf" "admitted_ok lookup pr p' a" using r(4) [OF Inr] by blast
    have "pf = SigProof Verified" using P(4) by (simp add: proof_verify_def res_simps)
    moreover have "pr_next pr = ac_nonce (fst (lookup (pr_sender pr)))" "pr_next pr \<le> pr_nonce pr" "mpp_relay_fee_floor (mp_params p) \<le> pr_fee pr"
      using P(1) unfolding prepared_ok_def by blast+
    moreover obtain t where "pool_tx p' (pr_txid pr) = Some t" "pt_sender t = pr_sender pr" "pt_nonce t = pr_nonce pr" "pt_fee t = pr_fee pr"
      "pt_bytes t = pr_raw pr" "pt_executable t = ad_executable a" "ad_txid a = pr_txid pr"
      "ad_executable a \<longleftrightarrow> run_in (sender_nonces p' (pr_sender pr)) (pr_next pr) (pr_nonce pr)"
      "sender_outlay p' (pr_sender pr) \<le> unat (snd (lookup (pr_sender pr)))" using P(5) unfolding admitted_ok_def by blast
    ultimately show ?thesis using r(1,2) Inr P(2,3,4) by (simp add: mempool_get_def run_in_def)
  qed
qed

text \<open>Eviction on a valid pool: every victim was pooled and pays no more per byte than the newcomer, nothing
  else leaves, the loop ends with room for the newcomer or refuses it, and the pool stays valid: no victim
  leaves a gap in a run of executable transactions.
\<close>

theorem eviction_fair:
  assumes "mempool_valid p"
  shows "\<exists>refuse vs cs p'. evict_loop raw_len fpb p = Some (refuse, vs, cs, p') \<and>
    (\<forall>v \<in> set vs. \<exists>t. mempool_get p v = Some t \<and> fee_per_byte t \<le> fpb) \<and>
    (\<forall>h. mempool_get p' h = (if h \<in> set vs then None else mempool_get p h)) \<and> mempool_valid p' \<and>
    (refuse \<or> mempool_len p' < mpp_max_txs (mp_params p) \<and> mp_total_bytes p' + raw_len \<le> mpp_max_bytes (mp_params p))"
proof -
  have inv: "pool_inv {} p" using assms by (simp add: mempool_valid_def)
  from evict_loop_ok [OF inv, of raw_len fpb] obtain r vs cs p' where E: "evict_loop raw_len fpb p = Some (r, vs, cs, p')" "pool_inv {} p'" "removes (set vs) p p'"
    "r \<or> length (mp_txs p') < mpp_max_txs (mp_params p) \<and> mp_total_bytes p' + raw_len \<le> mpp_max_bytes (mp_params p)"
    "\<forall>v \<in> set vs. \<exists>t. pool_tx p v = Some t \<and> fee_per_byte t \<le> fpb"
    by blast
  have "mempool_valid p'" by (rule shrinks_valid [OF assms removes_shrinks [OF E(3)] E(2)])
  moreover have "\<forall>h. mempool_get p' h = (if h \<in> set vs then None else mempool_get p h)"
    using E(3) by (simp add: removes_def mempool_get_def restrict_map_def)
  ultimately show ?thesis using E(1,4,5) unfolding mempool_get_def mempool_len_def by blast
qed

text \<open>C17: A connected block settles its senders: none of the slots it spent is left, nothing of a sender in the
  block lies below the sender's new nonce, what is left of it is executable exactly as far as its nonces run
  without a gap from there, nothing is added and the pool stays valid.
\<close>

theorem connected_block_settles:
  assumes "mempool_valid p"
  shows "\<exists>n p'. on_block_connected spent account p = Some (n, p') \<and> mempool_valid p' \<and> shrinks p p' \<and>
    (\<forall>(s, k) \<in> set spent. k \<notin> sender_nonces p' s) \<and>
    (\<forall>(s, k) \<in> set spent. \<forall>h t. mempool_get p' h = Some t \<and> pt_sender t = s \<longrightarrow> ac_nonce (account s) \<le> pt_nonce t \<and>
       (pt_executable t \<longleftrightarrow> {ac_nonce (account s)..pt_nonce t} \<subseteq> sender_nonces p' s))"
proof -
  obtain n p' where C: "on_block_connected spent account p = Some (n, p')" "mempool_valid p'" "shrinks p p'"
    "\<forall>(s, k) \<in> set spent. pool_slot p' s k = None" "\<forall>s \<in> fst ` set spent. renewed account p' s" using connected_ok [OF assms] by blast
  have ok: "pool_ok p'" using C(2) by (auto simp: mempool_valid_def)
  have "k \<notin> sender_nonces p' s" if "pool_slot p' s k = None" for s k
  proof
    assume "k \<in> sender_nonces p' s"
    then obtain h t where "pool_tx p' h = Some t" "pt_sender t = s" "pt_nonce t = k" by (auto simp: sender_nonces_def)
    then show False using pool_okD(6) [OF ok, of s k h] that by simp
  qed
  moreover have "ac_nonce (account s) \<le> pt_nonce t \<and> (pt_executable t \<longleftrightarrow> {ac_nonce (account s)..pt_nonce t} \<subseteq> sender_nonces p' s)"
    if "(s, k) \<in> set spent" "pool_tx p' h = Some t" "pt_sender t = s" for s k h t
    using that C(5) by (force simp: renewed_def run_in_def)
  ultimately show ?thesis using C by (fastforce simp: mempool_get_def)
qed

section \<open>A pool with one transaction\<close>

definition sample_prepared :: Prepared where
  "sample_prepared = \<lparr>pr_raw = [1], pr_tx = Transfer \<lparr>tr_from_pub = [], tr_to = [], tr_amount = 3, tr_fee = 2, tr_nonce = 7, tr_sig = []\<rparr>,
     pr_txid = [9], pr_sender = [5], pr_nonce = 7, pr_fee = 2, pr_amount = 3, pr_next = 7, pr_replaces = None\<rparr>"

lemma evict_none:
  "length (mp_txs p) < mpp_max_txs (mp_params p) \<Longrightarrow> mp_total_bytes p + n \<le> mpp_max_bytes (mp_params p) \<Longrightarrow>
    evict_loop n f p = Some (False, [], [], p)"
  by (subst evict_loop.simps) simp

lemma sample_admitted:
  "case mempool_commit sample_prepared (SigProof Verified) 100 (mempool_new default_mempool_params) of
     Some (_, p, Inr a) \<Rightarrow> ad_executable a \<and> map fst (mp_txs p) = [[9]] | _ \<Rightarrow> False"
  by (simp add: mempool_commit_def sample_prepared_def mempool_new_def sweep_expired_def distinct_senders_def evict_none
      default_mempool_params_def MAX_MEMPOOL_TXS_def pool_insert_def pool_resplit_def checked_add_def Let_def)

lemma sample_pool:
  obtains p t where "mempool_valid p" "mempool_get p [9] = Some t" "pt_sender t = [5]" "pt_nonce t = 7" "pt_executable t" "pt_bytes t = [1]"
    "mp_params p = default_mempool_params" "\<forall>h u. mempool_get p h = Some u \<longrightarrow> h = [9]"
proof -
  let ?lookup = "\<lambda>_. (\<lparr>ac_balance = 9, ac_nonce = 7\<rparr>, 9)"
  let ?p = "mempool_new default_mempool_params"
  have "prepared_ok ?p ?lookup sample_prepared"
    by (simp add: prepared_ok_def sample_prepared_def mempool_new_def pool_slot_def sender_len_def pool_per_sender_def
        effective_per_sender_def default_mempool_params_def MAX_MEMPOOL_NONCE_GAP_def MAX_MEMPOOL_TXS_PER_SENDER_def MAX_TX_BYTES_def
        replaced_outlay_def pending_outlay_def sender_txs_def saturating_add_def)
  then obtain cs p' r where c: "mempool_commit sample_prepared (SigProof Verified) 100 ?p = Some (cs, p', r)"
    "commit_outcome ?lookup sample_prepared ?p p' r"
    using commit_ok [OF new_pool_valid, of default_mempool_params ?lookup sample_prepared "SigProof Verified" 100]
    by (auto simp: sample_prepared_def mempool_new_def default_mempool_params_def MAX_MEMPOOL_NONCE_GAP_def)
  obtain a where "r = Inr a" "ad_executable a" and only: "map fst (mp_txs p') = [[9]]" using sample_admitted c(1) by (cases r) auto
  then have "mempool_valid p'" "admitted_ok ?lookup sample_prepared p' a" "ad_executable a" "mp_params p' = mp_params ?p"
    using c(2) by (simp_all add: commit_outcome_def)
  moreover have "\<forall>h u. mempool_get p' h = Some u \<longrightarrow> h = [9]"
  proof (intro allI impI)
    fix h u assume "mempool_get p' h = Some u"
    then have "h \<in> set (map fst (mp_txs p'))" by (force simp: mempool_get_def dest: map_of_SomeD)
    then show "h = [9]" unfolding only by simp
  qed
  ultimately show thesis using that by (auto simp: admitted_ok_def sample_prepared_def mempool_get_def mempool_new_def)
qed

theorem submission_solvent_witness:
  "\<exists>p t. mempool_get p [9] = Some t \<and>
     (case submit_verified (\<lambda>_. Some ()) (\<lambda>_ _ _. True) Main [2, 0] (\<lambda>_. (\<lparr>ac_balance = 9, ac_nonce = 7\<rparr>, 9)) 100 [] p of
        None \<Rightarrow> False
      | Some (cs, p', Inl e) \<Rightarrow> mempool_valid p' \<and> shrinks p p'
      | Some (cs, p', Inr a) \<Rightarrow> mempool_valid p')"
proof -
  obtain p t where p: "mempool_valid p" "mempool_get p [9] = Some t" "mp_params p = default_mempool_params" using sample_pool by metis
  have "\<forall>s. leaves_room (mp_params p) (fst ((\<lambda>_. (\<lparr>ac_balance = 9, ac_nonce = 7\<rparr>, 9 :: u128)) s))"
    unfolding p(3) by (simp add: default_leaves_room)
  from submission_solvent [OF p(1) this, where ?vk = "\<lambda>_. Some ()" and ?verify = "\<lambda>_ _ _. True" and ?network = Main
      and ?raw = "[2, 0]" and ?now = 100 and ?key = "[]"] show ?thesis
    using p(2) by (intro exI [of _ p] exI [of _ t]) (auto split: option.splits sum.splits)
qed

theorem eviction_fair_witness:
  "\<exists>p refuse vs cs p'. mempool_get p [9] \<noteq> None \<and> evict_loop 20000000 5 p = Some (refuse, vs, cs, p') \<and> mempool_valid p' \<and>
    (\<forall>h. mempool_get p' h = (if h \<in> set vs then None else mempool_get p h))"
proof -
  obtain p t where p: "mempool_valid p" "mempool_get p [9] = Some t" using sample_pool by metis
  from eviction_fair [OF p(1), of 20000000 5] show ?thesis using p(2) by (metis option.distinct(1))
qed

theorem connected_block_settles_witness:
  "\<exists>p n p'. mempool_get p [9] \<noteq> None \<and> on_block_connected [([5], 7)] (\<lambda>_. \<lparr>ac_balance = 4, ac_nonce = 8\<rparr>) p = Some (n, p') \<and>
    mempool_valid p' \<and> 7 \<notin> sender_nonces p' [5]"
proof -
  obtain p t where p: "mempool_valid p" "mempool_get p [9] = Some t" using sample_pool by metis
  from connected_block_settles [OF p(1), of "[([5], 7)]" "\<lambda>_. \<lparr>ac_balance = 4, ac_nonce = 8\<rparr>"] show ?thesis
    using p(2) by (intro exI [of _ p]) auto
qed

end
