(* ===== verification/Template.thy ===== *)
theory Template imports MempoolLife "HOL-Library.Multiset" begin

text \<open>
  The template of a block: the executable transactions, one sender after another in the order of the fee of
  its first transaction, each sender's in the order of its nonces, cut off where the next does not fit.
\<close>

section \<open>Sorting\<close>

lemma mset_insert_by [simp]: "mset (insert_by lt x xs) = add_mset x (mset xs)"
  by (induction lt x xs rule: insert_by.induct) simp_all

lemma mset_sort_by [simp]: "mset (sort_by lt xs) = mset xs"
  by (induction xs) (simp_all add: sort_by_def)

lemma set_sort_by [simp]: "set (sort_by lt xs) = set xs"
  by (rule mset_eq_setD) simp

lemma set_insert_by [simp]: "set (insert_by lt x xs) = insert x (set xs)"
  by (induction lt x xs rule: insert_by.induct) auto

definition weak_order :: "('a \<Rightarrow> 'a \<Rightarrow> bool) \<Rightarrow> bool" where
  "weak_order lt \<longleftrightarrow> (\<forall>x y. lt x y \<longrightarrow> \<not> lt y x) \<and> (\<forall>x y z. \<not> lt x y \<longrightarrow> \<not> lt y z \<longrightarrow> \<not> lt x z)"

lemma sorted_insert_by:
  assumes "weak_order lt" "sorted_wrt (\<lambda>x y. \<not> lt y x) xs"
  shows "sorted_wrt (\<lambda>x y. \<not> lt y x) (insert_by lt x xs)"
  using assms(2)
proof (induction xs)
  case (Cons y ys)
  have asym: "\<not> lt x y" if "lt y x" using assms(1) that unfolding weak_order_def by blast
  have neg: "\<not> lt z x" if "\<not> lt z y" "\<not> lt y x" for z using assms(1) that unfolding weak_order_def by blast
  show ?case using Cons asym neg by simp
qed simp

lemma sorted_sort_by:
  assumes "weak_order lt"
  shows "sorted_wrt (\<lambda>x y. \<not> lt y x) (sort_by lt xs)"
  unfolding sort_by_def by (induction xs) (simp_all add: sorted_insert_by [OF assms])

section \<open>Chains\<close>

lemma sender_chains_snoc:
  "sender_chains (ts @ [t]) = AList.update (pt_sender t)
     ((case map_of (sender_chains ts) (pt_sender t) of None \<Rightarrow> [] | Some c \<Rightarrow> c) @ [t]) (sender_chains ts)"
  by (simp add: sender_chains_def)

lemma sender_chains_distinct: "distinct (map fst (sender_chains ts))"
  by (induction ts rule: rev_induct) (simp_all add: sender_chains_snoc AList.distinct_update, simp add: sender_chains_def)

lemma sender_chains_lookup:
  "map_of (sender_chains ts) s = (let c = filter (\<lambda>t. pt_sender t = s) ts in if c = [] then None else Some c)"
proof (induction ts rule: rev_induct)
  case Nil
  then show ?case by (simp add: sender_chains_def)
next
  case (snoc t ts)
  show ?case
  proof (cases "pt_sender t = s")
    case True
    then show ?thesis using snoc by (simp add: sender_chains_snoc AList.update_conv' Let_def)
  next
    case False
    then show ?thesis using snoc by (simp add: sender_chains_snoc AList.update_conv')
  qed
qed

lemma sender_chains_in: "(s, c) \<in> set (sender_chains ts) \<Longrightarrow> c = filter (\<lambda>t. pt_sender t = s) ts \<and> c \<noteq> []"
  using map_of_is_SomeI [OF sender_chains_distinct, of s c ts] sender_chains_lookup [of ts s] by (auto simp: Let_def split: if_splits)

lemma mset_update:
  assumes "distinct (map fst al)"
  shows "(\<Sum>x \<leftarrow> AList.update k ((case map_of al k of None \<Rightarrow> [] | Some c \<Rightarrow> c) @ [t]) al. mset (snd x)) =
    add_mset t (\<Sum>x \<leftarrow> al. mset (snd x))"
  using assms by (induction al) (auto split: option.splits)

lemma mset_chains: "(\<Sum>x \<leftarrow> sender_chains ts. mset (snd x)) = mset ts"
proof (induction ts rule: rev_induct)
  case Nil
  then show ?case by (simp add: sender_chains_def)
next
  case (snoc t ts)
  then show ?case unfolding sender_chains_snoc mset_update [OF sender_chains_distinct] by simp
qed

lemma mset_concat_sum: "mset (concat xss) = (\<Sum>xs \<leftarrow> xss. mset xs)"
  by (induction xss) simp_all

lemma sum_list_perm: "mset xs = mset ys \<Longrightarrow> (\<Sum>x \<leftarrow> xs. f x) = ((\<Sum>x \<leftarrow> ys. f x) :: 'b::comm_monoid_add)"
  by (metis mset_map sum_mset_sum_list)

lemma sorted_concat:
  assumes "\<forall>xs \<in> set xss. sorted_wrt R xs" "sorted_wrt (\<lambda>xs ys. \<forall>x \<in> set xs. \<forall>y \<in> set ys. R x y) xss"
  shows "sorted_wrt R (concat xss)"
  using assms by (induction xss) (auto simp: sorted_wrt_append)

section \<open>The order\<close>

definition after :: "PoolTx \<Rightarrow> PoolTx \<Rightarrow> bool" where
  "after t u \<longleftrightarrow> (pt_sender t = pt_sender u \<longrightarrow> pt_nonce t < pt_nonce u)"

lemma distinct_sorted_wrt: "distinct xs \<Longrightarrow> (\<And>x y. x \<in> set xs \<Longrightarrow> y \<in> set xs \<Longrightarrow> x \<noteq> y \<Longrightarrow> R x y) \<Longrightarrow> sorted_wrt R xs"
  by (induction xs) auto

lemma sort_nonces:
  assumes "distinct (map pt_nonce c)"
  shows "sorted_wrt (\<lambda>a b. pt_nonce a < pt_nonce b) (sort_by (\<lambda>a b. pt_nonce a < pt_nonce b) c)"
proof -
  let ?xs = "sort_by (\<lambda>a b. pt_nonce a < pt_nonce b) c"
  have s: "sorted_wrt (\<lambda>a b. \<not> pt_nonce b < pt_nonce a) ?xs"
    by (rule sorted_sort_by) (auto simp: weak_order_def)
  have "mset (map pt_nonce ?xs) = mset (map pt_nonce c)" by simp
  then have "distinct (map pt_nonce ?xs)" using assms by (metis mset_eq_imp_distinct_iff)
  with s have "sorted_wrt (<) (map pt_nonce ?xs)" unfolding strict_sorted_iff sorted_map by (simp add: not_less)
  then show ?thesis by (simp add: sorted_wrt_map)
qed

lemma template_order_ok:
  assumes "pool_ok p"
  shows "mset (template_order p) = mset (filter pt_executable (map snd (mp_txs p)))" "sorted_wrt after (template_order p)"
proof -
  let ?ts = "filter pt_executable (map snd (mp_txs p))"
  let ?sort = "sort_by (\<lambda>a b. pt_nonce a < pt_nonce b)"
  let ?chains = "map (\<lambda>(_, c). ?sort c) (sender_chains ?ts)"
  let ?lt = "\<lambda>a b. fee_per_byte (hd b) < fee_per_byte (hd a) \<or> fee_per_byte (hd b) = fee_per_byte (hd a) \<and> pt_sender (hd a) < pt_sender (hd b)"
  have order: "template_order p = concat (sort_by ?lt ?chains)" by (simp add: template_order_def Let_def)
  have "mset (template_order p) = (\<Sum>c \<leftarrow> ?chains. mset c)"
    unfolding order mset_concat_sum by (rule sum_list_perm) simp
  also have "\<dots> = (\<Sum>x \<leftarrow> sender_chains ?ts. mset (snd x))" by (simp add: case_prod_beta comp_def)
  finally show "mset (template_order p) = mset ?ts" unfolding mset_chains .
  have d: "distinct ?ts"
  proof -
    have "distinct (map fst (mp_txs p))" by (rule pool_okD(1) [OF assms])
    moreover have "map fst (mp_txs p) = map (pt_txid \<circ> snd) (mp_txs p)"
      using pool_okD(1,2) [OF assms] by (auto dest: map_of_is_SomeI)
    ultimately have "distinct (map pt_txid (map snd (mp_txs p)))" by simp
    then show ?thesis using distinct_map distinct_filter by blast
  qed
  have nonces: "distinct (map pt_nonce c)" if "(s, c) \<in> set (sender_chains ?ts)" for s c
  proof -
    have c: "c = filter (\<lambda>t. pt_sender t = s) ?ts" using sender_chains_in [OF that] by blast
    have "inj_on pt_nonce (set c)"
    proof (rule inj_onI)
      fix t u assume "t \<in> set c" "u \<in> set c" and n: "pt_nonce t = pt_nonce u"
      then have "t \<in> snd ` set (mp_txs p)" "u \<in> snd ` set (mp_txs p)" "pt_sender t = pt_sender u" by (auto simp: c)
      then have tu: "pool_tx p (pt_txid t) = Some t" "pool_tx p (pt_txid u) = Some u" "pt_sender t = pt_sender u"
        using pool_values [OF assms] by blast+
      then have "pt_txid t = pt_txid u" using slot_unique [OF assms tu(1,2)] n by blast
      then show "t = u" using tu(1,2) by (metis option.inject)
    qed
    moreover have "distinct c" unfolding c by (rule distinct_filter [OF d])
    ultimately show ?thesis by (simp add: distinct_map)
  qed
  have sender: "pt_sender t = s" if "(s, c) \<in> set (sender_chains ?ts)" "t \<in> set c" for s c t
    using sender_chains_in [OF that(1)] that(2) by auto
  have ne: "c \<noteq> []" if "(s, c) \<in> set (sender_chains ?ts)" for s c using sender_chains_in [OF that] by blast
  have "distinct ?chains"
  proof -
    have i: "inj_on (\<lambda>(_, c). ?sort c) (set (sender_chains ?ts))"
    proof (rule inj_onI)
      fix x y assume x: "x \<in> set (sender_chains ?ts)" and y: "y \<in> set (sender_chains ?ts)"
        and e: "(case x of (_, c) \<Rightarrow> ?sort c) = (case y of (_, c) \<Rightarrow> ?sort c)"
      obtain s c s' c' where xy: "x = (s, c)" "y = (s', c')" by (cases x, cases y)
      have "set c = set c'" using e xy set_sort_by by (metis case_prod_conv)
      then have "hd c \<in> set c" "hd c \<in> set c'" using ne x xy by auto
      then have "s = s'" using sender x y xy by blast
      then show "x = y" using xy x y sender_chains_in by blast
    qed
    have "distinct (sender_chains ?ts)" using sender_chains_distinct distinct_map by blast
    then show ?thesis using i unfolding distinct_map by (rule conjI)
  qed
  then have "distinct (sort_by ?lt ?chains)" by (rule mset_eq_imp_distinct_iff [OF mset_sort_by, THEN iffD2])
  then have "sorted_wrt (\<lambda>xs ys. \<forall>x \<in> set xs. \<forall>y \<in> set ys. after x y) (sort_by ?lt ?chains)"
  proof (rule distinct_sorted_wrt)
    fix xs ys assume xs: "xs \<in> set (sort_by ?lt ?chains)" and ys: "ys \<in> set (sort_by ?lt ?chains)" and neq: "xs \<noteq> ys"
    obtain s c where c: "(s, c) \<in> set (sender_chains ?ts)" "xs = ?sort c" using xs by auto
    obtain s' c' where c': "(s', c') \<in> set (sender_chains ?ts)" "ys = ?sort c'" using ys by auto
    have "s \<noteq> s'" using neq c c' sender_chains_in by blast
    then show "\<forall>x \<in> set xs. \<forall>y \<in> set ys. after x y" using sender [OF c(1)] sender [OF c'(1)] by (simp add: c c' after_def)
  qed
  moreover have "sorted_wrt after xs" if xs: "xs \<in> set (sort_by ?lt ?chains)" for xs
  proof -
    obtain s c where c: "(s, c) \<in> set (sender_chains ?ts)" "xs = ?sort c" using xs by auto
    show ?thesis unfolding c(2) by (rule sorted_wrt_mono_rel [OF _ sort_nonces [OF nonces [OF c(1)]]]) (simp add: after_def)
  qed
  ultimately show "sorted_wrt after (template_order p)" unfolding order by (intro sorted_concat) blast+
qed

lemma template_loop_ok:
  assumes "got \<le> max_txs" "used \<le> max_bytes"
  shows "\<exists>k \<le> length ts. template_loop max_txs max_bytes got used ts = map pt_bytes (take k ts) \<and>
    got + k \<le> max_txs \<and> used + (\<Sum>t \<leftarrow> take k ts. length (pt_bytes t)) \<le> max_bytes \<and>
    (k < length ts \<longrightarrow> got + k = max_txs \<or> max_bytes < used + (\<Sum>t \<leftarrow> take (k + 1) ts. length (pt_bytes t)))"
  using assms
proof (induction ts arbitrary: got used)
  case (Cons t ts)
  show ?case
  proof (cases "max_txs \<le> got \<or> max_bytes < used + length (pt_bytes t)")
    case True
    then show ?thesis using Cons.prems by (intro exI [of _ 0]) auto
  next
    case False
    then obtain k where "k \<le> length ts" "template_loop max_txs max_bytes (got + 1) (used + length (pt_bytes t)) ts = map pt_bytes (take k ts)"
      "got + 1 + k \<le> max_txs" "used + length (pt_bytes t) + (\<Sum>t \<leftarrow> take k ts. length (pt_bytes t)) \<le> max_bytes"
      "k < length ts \<longrightarrow> got + 1 + k = max_txs \<or>
        max_bytes < used + length (pt_bytes t) + (\<Sum>t \<leftarrow> take (k + 1) ts. length (pt_bytes t))"
      using Cons.IH [of "got + 1" "used + length (pt_bytes t)"] by auto
    then show ?thesis using False by (intro exI [of _ "k + 1"]) (auto simp: add.assoc)
  qed
qed simp

section \<open>The template\<close>

lemma run_list:
  assumes "sorted_wrt (<) ns" "\<forall>n \<in> set ns. a \<le> n" "\<forall>n \<in> set ns. \<forall>m. a \<le> m \<and> m \<le> n \<longrightarrow> m \<in> set ns"
  shows "ns = [a..<a + length (ns :: nat list)]"
  using assms
proof (induction ns arbitrary: a)
  case (Cons n ns)
  have "a \<in> set (n # ns)" using Cons.prems(2,3) by fastforce
  then have n: "n = a" using Cons.prems(1,2) by auto
  have "\<forall>k \<in> set ns. Suc a \<le> k" using Cons.prems(1) n by (simp add: Suc_le_eq)
  moreover have "\<forall>k \<in> set ns. \<forall>m. Suc a \<le> m \<and> m \<le> k \<longrightarrow> m \<in> set ns"
  proof (intro ballI allI impI)
    fix k m assume k: "k \<in> set ns" and m: "Suc a \<le> m \<and> m \<le> k"
    then have "m \<in> set (n # ns)" using Cons.prems(3) by simp
    then show "m \<in> set ns" using m n by auto
  qed
  moreover have "sorted_wrt (<) ns" using Cons.prems(1) by simp
  ultimately have eq: "[Suc a..<Suc a + length ns] = ns" using Cons.IH [of "Suc a", symmetric] by blast
  have "[a..<a + length (n # ns)] = a # [Suc a..<Suc a + length ns]" by (subst upt_conv_Cons) simp_all
  then show ?case unfolding eq n by (rule sym)
qed simp

lemma order_consecutive:
  assumes "pool_ok p" "renewed account p s"
  shows "\<exists>j. map (\<lambda>t. unat (pt_nonce t)) (filter (\<lambda>t. pt_sender t = s) (take k (template_order p))) =
    [unat (ac_nonce (account s))..<unat (ac_nonce (account s)) + j]"
proof -
  let ?a = "ac_nonce (account s)" and ?P = "\<lambda>t. pt_sender t = s"
  let ?ns = "\<lambda>ts. map (\<lambda>t. unat (pt_nonce t)) (filter ?P ts)"
  let ?o = "template_order p"
  have "set ?o = set (filter pt_executable (map snd (mp_txs p)))" using template_order_ok(1) [OF assms(1)] by (rule mset_eq_setD)
  then have mem: "t \<in> set ?o \<longleftrightarrow> pool_tx p (pt_txid t) = Some t \<and> pt_executable t" for t
    using pool_values [OF assms(1), of t] by auto
  have "sorted_wrt after (filter ?P ?o)" using template_order_ok(2) [OF assms(1)] by (rule sorted_wrt_filter)
  then have "sorted_wrt (\<lambda>t u. pt_nonce t < pt_nonce u) (filter ?P ?o)"
    by (rule sorted_wrt_mono_rel [rotated]) (simp add: after_def)
  then have sorted: "sorted_wrt (<) (?ns ?o)" by (simp add: sorted_wrt_map word_less_nat_alt)
  have run: "?a \<le> pt_nonce t \<and> {?a..pt_nonce t} \<subseteq> sender_nonces p s" if "t \<in> set (filter ?P ?o)" for t
    using that assms(2) by (auto simp: mem renewed_def run_in_def)
  have full: "?ns ?o = [unat ?a..<unat ?a + length (?ns ?o)]"
  proof (rule run_list [OF sorted])
    show "\<forall>n \<in> set (?ns ?o). unat ?a \<le> n" using run by (auto simp: word_le_nat_alt)
    show "\<forall>n \<in> set (?ns ?o). \<forall>m. unat ?a \<le> m \<and> m \<le> n \<longrightarrow> m \<in> set (?ns ?o)"
    proof (intro ballI allI impI)
      fix n m assume "n \<in> set (?ns ?o)" and m: "unat ?a \<le> m \<and> m \<le> n"
      then obtain t where t: "t \<in> set (filter ?P ?o)" "n = unat (pt_nonce t)" by auto
      have "m < 2 ^ 64" using m t(2) unsigned_less [of "pt_nonce t", where ?'a = nat] by simp
      then have w: "unat (word_of_nat m :: u64) = m" by (simp add: unat_of_nat take_bit_nat_eq_self)
      then have in_run: "?a \<le> word_of_nat m" "word_of_nat m \<le> pt_nonce t" using m t(2) by (simp_all add: word_le_nat_alt)
      then have "word_of_nat m \<in> sender_nonces p s" using run [OF t(1)] by auto
      then obtain h u where u: "pool_tx p h = Some u" "pt_sender u = s" "pt_nonce u = word_of_nat m" by (auto simp: sender_nonces_def)
      have "{?a..word_of_nat m} \<subseteq> sender_nonces p s" using run [OF t(1)] in_run(2) by fastforce
      then have "pt_executable u" using assms(2) u in_run(1) by (auto simp: renewed_def run_in_def)
      then have "u \<in> set (filter ?P ?o)" using u pool_okD(2) [OF assms(1) u(1)] by (simp add: mem)
      then show "m \<in> set (?ns ?o)" using u(3) w by force
    qed
  qed
  have split: "?ns ?o = ?ns (take k ?o) @ ?ns (drop k ?o)" by (metis append_take_drop_id filter_append map_append)
  have app: "?ns (take k ?o) @ ?ns (drop k ?o) = [unat ?a..<unat ?a + length (?ns ?o)]" by (rule trans [OF split [symmetric] full])
  have le: "unat ?a + length (?ns (take k ?o)) \<le> unat ?a + length (?ns ?o)"
    using arg_cong [OF app, of length] by simp
  have "?ns (take k ?o) = take (length (?ns (take k ?o))) (?ns (take k ?o) @ ?ns (drop k ?o))" by simp
  also have "\<dots> = [unat ?a..<unat ?a + length (?ns (take k ?o))]" unfolding app by (rule take_upt [OF le])
  finally have "?ns (take k ?o) = [unat ?a..<unat ?a + length (?ns (take k ?o))]" .
  then show ?thesis by blast
qed

text \<open>
  The template of a block from a valid pool is a prefix of the executable transactions, each once,
  within the limits on number and bytes, and it ends only where the next one does not fit. When the pool has
  been renewed against the accounts the block builds on, the transactions of every sender stand in it with
  consecutive nonces from the account's nonce on: no gap, no repetition.
\<close>

lemma template_consecutive:
  assumes "mempool_valid p" "\<forall>s. renewed account p s"
  shows "\<exists>k. mempool_template max_txs max_bytes p = map pt_bytes (take k (template_order p)) \<and>
    mset (template_order p) = mset (filter pt_executable (map snd (mp_txs p))) \<and>
    k \<le> max_txs \<and> (\<Sum>t \<leftarrow> take k (template_order p). length (pt_bytes t)) \<le> max_bytes \<and>
    (k < length (template_order p) \<longrightarrow> k = max_txs \<or> max_bytes < (\<Sum>t \<leftarrow> take (k + 1) (template_order p). length (pt_bytes t))) \<and>
    (\<forall>s. \<exists>j. map (\<lambda>t. unat (pt_nonce t)) (filter (\<lambda>t. pt_sender t = s) (take k (template_order p))) =
       [unat (ac_nonce (account s))..<unat (ac_nonce (account s)) + j])"
proof -
  have ok: "pool_ok p" using assms(1) by (auto simp: mempool_valid_def)
  obtain k where k: "template_loop max_txs max_bytes 0 0 (template_order p) = map pt_bytes (take k (template_order p))"
    "k \<le> max_txs" "(\<Sum>t \<leftarrow> take k (template_order p). length (pt_bytes t)) \<le> max_bytes"
    "k < length (template_order p) \<longrightarrow> k = max_txs \<or> max_bytes < (\<Sum>t \<leftarrow> take (k + 1) (template_order p). length (pt_bytes t))"
    using template_loop_ok [of 0 max_txs 0 max_bytes "template_order p"] by auto
  then show ?thesis
    using template_order_ok(1) [OF ok] order_consecutive [OF ok] assms(2) unfolding mempool_template_def by blast
qed

end
