(* ===== verification/Ingress.thy ===== *)
theory Ingress imports Errors "HOL-Library.AList" begin

text \<open>
  \<open>lib/chain/src/mempool.rs\<close>, \<open>Ingress\<close>: the token buckets in front of the pool. Every source has a
  bucket of its own and a reserve, all share one more; a transaction costs one token of its source and one
  of the shared bucket or, when that is empty, of the reserve. The table of sources is an association list
  in the order of the hash map.
\<close>

section \<open>The buckets\<close>

record IngressSource =
  is_own :: u64
  is_own_last_ms :: u64
  is_reserve :: u64
  is_reserve_last_ms :: u64
  is_primed :: bool

record Ingress =
  ig_sources :: "(SourceId \<times> IngressSource) list"
  ig_shared :: u64
  ig_shared_last_ms :: u64
  ig_primed :: bool

definition ingress_new :: Ingress where
  "ingress_new = \<lparr>ig_sources = [], ig_shared = 0, ig_shared_last_ms = 0, ig_primed = False\<rparr>"

definition source_count :: "Ingress \<Rightarrow> nat" where
  "source_count g = length (ig_sources g)"

definition ingress_forget :: "SourceId \<Rightarrow> Ingress \<Rightarrow> Ingress" where
  "ingress_forget source g = g\<lparr>ig_sources := AList.delete source (ig_sources g)\<rparr>"

text \<open>The refill of one bucket, the same at its three places: level and time of the last refill.\<close>

definition bucket_refill :: "u64 \<Rightarrow> u64 \<Rightarrow> u64 \<Rightarrow> u64 \<Rightarrow> u64 \<Rightarrow> u64 \<times> u64" where
  "bucket_refill rate burst now level since =
     (let refill = saturating_mul (saturating_sub now since) rate div 1000
      in if 0 < refill then (min (saturating_add level refill) burst, now) else (level, since))"

definition source_default :: IngressSource where
  "source_default = \<lparr>is_own = 0, is_own_last_ms = 0, is_reserve = 0, is_reserve_last_ms = 0, is_primed = False\<rparr>"

definition source_refill :: "ChainParams \<Rightarrow> u64 \<Rightarrow> IngressSource \<Rightarrow> IngressSource" where
  "source_refill params mono_ms s =
     (let mp = pm_mempool params
      in if \<not> is_primed s
         then \<lparr>is_own = ingress_source_burst_milli mp, is_own_last_ms = mono_ms,
           is_reserve = ingress_reserve_burst_milli mp, is_reserve_last_ms = mono_ms, is_primed = True\<rparr>
         else let (own, own_last) = bucket_refill (ingress_source_rate_milli mp) (ingress_source_burst_milli mp) mono_ms
                (is_own s) (is_own_last_ms s);
              (reserve, reserve_last) = bucket_refill (ingress_reserve_rate_milli mp (pm_max_peers params))
                (ingress_reserve_burst_milli mp) mono_ms (is_reserve s) (is_reserve_last_ms s)
              in s\<lparr>is_own := own, is_own_last_ms := own_last, is_reserve := reserve, is_reserve_last_ms := reserve_last\<rparr>)"

definition shared_refill :: "ChainParams \<Rightarrow> u64 \<Rightarrow> Ingress \<Rightarrow> Ingress" where
  "shared_refill params mono_ms g =
     (let mp = pm_mempool params
      in if \<not> ig_primed g
         then g\<lparr>ig_primed := True, ig_shared := ingress_shared_burst_milli mp, ig_shared_last_ms := mono_ms\<rparr>
         else let (level, since) = bucket_refill (ingress_shared_rate_milli mp) (ingress_shared_burst_milli mp) mono_ms
                (ig_shared g) (ig_shared_last_ms g)
              in g\<lparr>ig_shared := level, ig_shared_last_ms := since\<rparr>)"

text \<open>Room for a new source: the first source whose buckets are full again makes way.\<close>

definition make_room :: "SourceId \<Rightarrow> ChainParams \<Rightarrow> u64 \<Rightarrow> Ingress \<Rightarrow> Ingress \<times> (Reject + unit)" where
  "make_room source params mono_ms g =
     (if map_of (ig_sources g) source = None \<and> pm_max_sources params \<le> length (ig_sources g)
      then let g = g\<lparr>ig_sources := map (\<lambda>(i, s). (i, source_refill params mono_ms s)) (ig_sources g)\<rparr>;
             mp = pm_mempool params
           in (case List.find (\<lambda>(_, s). ingress_source_burst_milli mp \<le> is_own s \<and> ingress_reserve_burst_milli mp \<le> is_reserve s)
                 (ig_sources g) of
               Some (i, _) \<Rightarrow> (g\<lparr>ig_sources := AList.delete i (ig_sources g)\<rparr>, Inr ())
             | None \<Rightarrow> (g, Inl (Reject.TooManySources source (pm_max_sources params))))
      else (g, Inr ()))"

definition admit :: "SourceId \<Rightarrow> ChainParams \<Rightarrow> u64 \<Rightarrow> Ingress \<Rightarrow> Ingress \<times> (Reject + unit)" where
  "admit source params mono_ms g =
     (case make_room source params mono_ms (shared_refill params mono_ms g) of
        (g, Inl e) \<Rightarrow> (g, Inl e)
      | (g, Inr _) \<Rightarrow>
          let st = source_refill params mono_ms (case map_of (ig_sources g) source of None \<Rightarrow> source_default | Some st \<Rightarrow> st);
            keep = (\<lambda>st. AList.update source st (ig_sources g))
          in if is_own st < TX_COST_MILLI
             then (g\<lparr>ig_sources := keep st\<rparr>, Inl (Reject.BudgetExhausted source))
             else if TX_COST_MILLI \<le> ig_shared g
             then (g\<lparr>ig_shared := ig_shared g - TX_COST_MILLI, ig_sources := keep (st\<lparr>is_own := is_own st - TX_COST_MILLI\<rparr>)\<rparr>, Inr ())
             else if TX_COST_MILLI \<le> is_reserve st
             then (g\<lparr>ig_sources := keep (st\<lparr>is_reserve := is_reserve st - TX_COST_MILLI, is_own := is_own st - TX_COST_MILLI\<rparr>)\<rparr>, Inr ())
             else (g\<lparr>ig_sources := keep st\<rparr>, Inl (Reject.BudgetExhausted source)))"

definition tx_ingress_exhausted :: "SourceId \<Rightarrow> Condition" where
  "tx_ingress_exhausted source = Condition.BudgetExhausted source TxIngress"

section \<open>What a source gets through\<close>

text \<open>A run of admissions at the times of a monotonic clock; how many of one source went through.\<close>

fun admit_all :: "ChainParams \<Rightarrow> (SourceId \<times> u64) list \<Rightarrow> Ingress \<Rightarrow> Ingress \<times> (SourceId \<times> bool) list" where
  "admit_all params [] g = (g, [])"
| "admit_all params ((source, now) # calls) g =
     (let (g, r) = admit source params now g; (g, rs) = admit_all params calls g in (g, (source, r = Inr ()) # rs))"

abbreviation own_rate :: "ChainParams \<Rightarrow> nat" where
  "own_rate params \<equiv> unat (ingress_source_rate_milli (pm_mempool params))"

abbreviation own_burst :: "ChainParams \<Rightarrow> nat" where
  "own_burst params \<equiv> unat (ingress_source_burst_milli (pm_mempool params))"

text \<open>
  The account of a source that has had \<open>n\<close> transactions admitted since the time \<open>t0\<close>: what its bucket
  holds and what it has spent never exceed the burst and the refill of the time that has passed. A source
  that is not in the table counts as one with a full bucket.
\<close>

definition in_budget :: "ChainParams \<Rightarrow> nat \<Rightarrow> nat \<Rightarrow> nat \<Rightarrow> IngressSource option \<Rightarrow> bool" where
  "in_budget params t0 now n st \<longleftrightarrow> t0 \<le> now \<and>
     (case st of
        None \<Rightarrow> 1000 * (1000 * n) \<le> (now - t0) * own_rate params
      | Some s \<Rightarrow> is_primed s \<and> unat (is_own s) \<le> own_burst params \<and> t0 \<le> unat (is_own_last_ms s) \<and> unat (is_own_last_ms s) \<le> now \<and>
          1000 * (unat (is_own s) + 1000 * n) \<le> 1000 * own_burst params + (unat (is_own_last_ms s) - t0) * own_rate params)"

lemma in_budget_later: "in_budget params t0 now n st \<Longrightarrow> now \<le> now' \<Longrightarrow> in_budget params t0 now' n st"
  by (auto simp: in_budget_def split: option.splits intro: order_trans mult_le_mono1 diff_le_mono)

lemma bucket_refill_bound:
  assumes "bucket_refill rate burst now level since = (level', since')" "unat since \<le> unat now"
  shows "unat since \<le> unat since' \<and> unat since' \<le> unat now" "unat level \<le> unat burst \<Longrightarrow> unat level' \<le> unat burst"
    "1000 * unat level' \<le> 1000 * unat level + (unat since' - unat since) * unat rate"
proof -
  let ?refill = "saturating_mul (saturating_sub now since) rate div 1000"
  have r: "1000 * unat ?refill \<le> (unat now - unat since) * unat rate"
  proof -
    have "1000 * (x div 1000) \<le> x" for x :: nat by simp
    then have "1000 * unat ?refill \<le> unat (saturating_mul (saturating_sub now since) rate)" by (simp add: unat_div)
    also have "\<dots> \<le> (unat now - unat since) * unat rate" by (simp add: unat_saturating_mul)
    finally show ?thesis .
  qed
  show "unat since \<le> unat since' \<and> unat since' \<le> unat now" "unat level \<le> unat burst \<Longrightarrow> unat level' \<le> unat burst"
    using assms by (auto simp: bucket_refill_def Let_def min_def word_le_nat_alt split: if_splits)
  show "1000 * unat level' \<le> 1000 * unat level + (unat since' - unat since) * unat rate"
  proof (cases "0 < ?refill")
    case True
    then have "unat level' \<le> unat level + unat ?refill" "since' = now"
      using assms(1) unat_saturating_add [of level ?refill]
      by (auto simp: bucket_refill_def Let_def min_def word_le_nat_alt split: if_splits)
    then show ?thesis using r by simp
  next
    case False
    then show ?thesis using assms(1) by (simp add: bucket_refill_def Let_def)
  qed
qed

lemma waited_mono: "a \<le> b \<Longrightarrow> (a - t) * r \<le> (b - t) * (r :: nat)"
  by (intro mult_le_mono1 diff_le_mono)

lemma refill_in_budget:
  assumes "in_budget params t0 now n st" "now \<le> unat mono_ms"
  shows "in_budget params t0 (unat mono_ms) n
    (Some (source_refill params mono_ms (case st of None \<Rightarrow> source_default | Some s \<Rightarrow> s)))"
proof (cases st)
  case None
  then have "1000 * (1000 * n) \<le> (now - t0) * own_rate params" using assms(1) by (simp add: in_budget_def)
  also have "\<dots> \<le> (unat mono_ms - t0) * own_rate params" by (rule waited_mono [OF assms(2)])
  finally show ?thesis using assms None by (simp add: in_budget_def source_refill_def Let_def source_default_def)
next
  case (Some s)
  let ?mp = "pm_mempool params"
  obtain own own_since where own: "bucket_refill (ingress_source_rate_milli ?mp) (ingress_source_burst_milli ?mp) mono_ms (is_own s) (is_own_last_ms s) =
      (own, own_since)" by (cases "bucket_refill (ingress_source_rate_milli ?mp) (ingress_source_burst_milli ?mp) mono_ms (is_own s) (is_own_last_ms s)")
  obtain reserve reserve_since where reserve: "bucket_refill (ingress_reserve_rate_milli ?mp (pm_max_peers params)) (ingress_reserve_burst_milli ?mp) mono_ms
      (is_reserve s) (is_reserve_last_ms s) = (reserve, reserve_since)"
    by (cases "bucket_refill (ingress_reserve_rate_milli ?mp (pm_max_peers params)) (ingress_reserve_burst_milli ?mp) mono_ms
      (is_reserve s) (is_reserve_last_ms s)")
  have S: "is_primed s" "unat (is_own s) \<le> own_burst params" "t0 \<le> unat (is_own_last_ms s)" "unat (is_own_last_ms s) \<le> now" "t0 \<le> now"
    "1000 * (unat (is_own s) + 1000 * n) \<le> 1000 * own_burst params + (unat (is_own_last_ms s) - t0) * own_rate params"
    using assms(1) Some by (simp_all add: in_budget_def)
  note B = bucket_refill_bound [OF own] 
  have le: "unat (is_own_last_ms s) \<le> unat mono_ms" using S(4) assms(2) by simp
  have "(unat (is_own_last_ms s) - t0) * own_rate params + (unat own_since - unat (is_own_last_ms s)) * own_rate params =
      (unat own_since - t0) * own_rate params"
  proof -
    have "(unat (is_own_last_ms s) - t0) + (unat own_since - unat (is_own_last_ms s)) = unat own_since - t0"
      using B(1) [OF le] S(3) by simp
    then show ?thesis unfolding add_mult_distrib [symmetric] by simp
  qed
  then have "1000 * (unat own + 1000 * n) \<le> 1000 * own_burst params + (unat own_since - t0) * own_rate params"
    using B(3) [OF le] S(6) by simp
  then show ?thesis
    using Some S B(1,2) [OF le] le own reserve assms(2) by (simp add: in_budget_def source_refill_def Let_def)
qed

lemma spend_in_budget:
  assumes "in_budget params t0 now n (Some st)" "\<not> is_own st < TX_COST_MILLI" "is_own st' = is_own st - TX_COST_MILLI"
    "is_primed st' = is_primed st" "is_own_last_ms st' = is_own_last_ms st"
  shows "in_budget params t0 now (n + 1) (Some st')"
proof -
  have c: "1000 \<le> unat (is_own st)" using assms(2) by (simp add: word_less_nat_alt TX_COST_MILLI_def)
  then have "unat (is_own st') = unat (is_own st) - 1000" unfolding assms(3) by (simp add: TX_COST_MILLI_def unat_sub word_le_nat_alt)
  then show ?thesis using assms(1) c assms(4,5) by (auto simp: in_budget_def)
qed

lemma find_in: "List.find P xs = Some x \<Longrightarrow> x \<in> set xs \<and> P x"
  by (induction xs) (auto split: if_splits)

lemma full_in_budget:
  assumes "in_budget params t0 now n (Some s)" "ingress_source_burst_milli (pm_mempool params) \<le> is_own s"
  shows "in_budget params t0 now n None"
proof -
  have "own_burst params \<le> unat (is_own s)" using assms(2) by (simp add: word_le_nat_alt)
  then have "1000 * (1000 * n) \<le> (unat (is_own_last_ms s) - t0) * own_rate params" using assms(1) by (simp add: in_budget_def)
  also have "\<dots> \<le> (now - t0) * own_rate params" using assms(1) by (intro waited_mono) (simp add: in_budget_def)
  finally show ?thesis using assms(1) by (simp add: in_budget_def)
qed

definition ingress_ok :: "ChainParams \<Rightarrow> nat \<Rightarrow> nat \<Rightarrow> (SourceId \<Rightarrow> nat) \<Rightarrow> Ingress \<Rightarrow> bool" where
  "ingress_ok params t0 now n g \<longleftrightarrow> distinct (map fst (ig_sources g)) \<and> length (ig_sources g) \<le> pm_max_sources params \<and>
     (\<forall>x. in_budget params t0 now (n x) (map_of (ig_sources g) x))"

lemma map_of_refilled: "map_of (map (\<lambda>(i, s). (i, f s)) xs) x = map_option f (map_of xs x)"
  by (induction xs) auto

lemma make_room_ok:
  assumes "ingress_ok params t0 now n g" "now \<le> unat mono_ms" "make_room source params mono_ms g = (g', r)"
  shows "ingress_ok params t0 (unat mono_ms) n g'"
    "r = Inr () \<Longrightarrow> map_of (ig_sources g') source \<noteq> None \<or> length (ig_sources g') < pm_max_sources params"
proof -
  let ?xs = "map (\<lambda>(i, s). (i, source_refill params mono_ms s)) (ig_sources g)"
  note G = assms(1) [unfolded ingress_ok_def]
  have later: "in_budget params t0 (unat mono_ms) (n x) (map_of (ig_sources g) x)" for x
    using G assms(2) in_budget_later by blast
  have refilled: "in_budget params t0 (unat mono_ms) (n x) (map_of ?xs x)" for x
  proof (cases "map_of (ig_sources g) x")
    case None
    then show ?thesis using later [of x] by (simp add: map_of_refilled)
  next
    case (Some s)
    have "in_budget params t0 now (n x) (Some s)" using G Some by metis
    then show ?thesis using refill_in_budget [OF _ assms(2), of params t0 "n x" "Some s"] Some by (simp add: map_of_refilled)
  qed
  have d: "distinct (map fst ?xs)" using G by (simp add: comp_def case_prod_beta)
  have "ingress_ok params t0 (unat mono_ms) n g' \<and>
      (r = Inr () \<longrightarrow> map_of (ig_sources g') source \<noteq> None \<or> length (ig_sources g') < pm_max_sources params)"
  proof (cases "map_of (ig_sources g) source = None \<and> pm_max_sources params \<le> length (ig_sources g)")
    case False
    then show ?thesis using assms(3) G later by (auto simp: make_room_def ingress_ok_def)
  next
    case True
    let ?full = "\<lambda>(_, s). ingress_source_burst_milli (pm_mempool params) \<le> is_own s \<and> ingress_reserve_burst_milli (pm_mempool params) \<le> is_reserve s"
    show ?thesis
    proof (cases "List.find ?full ?xs")
      case None
      then have "g' = g\<lparr>ig_sources := ?xs\<rparr>" "r \<noteq> Inr ()" using assms(3) True by (auto simp: make_room_def Let_def)
      then show ?thesis using d refilled G by (simp add: ingress_ok_def)
    next
      case (Some y)
      obtain i s where y: "y = (i, s)" by (cases y)
      have g': "g' = g\<lparr>ig_sources := AList.delete i ?xs\<rparr>" using assms(3) True Some y by (simp add: make_room_def Let_def)
      have found: "(i, s) \<in> set ?xs" "ingress_source_burst_milli (pm_mempool params) \<le> is_own s"
        using find_in [OF Some] unfolding y by simp_all
      then have i: "map_of ?xs i = Some s" using d by simp
      have "in_budget params t0 (unat mono_ms) (n i) None"
        using full_in_budget [OF _ found(2)] refilled [of i] unfolding i by blast
      then have "in_budget params t0 (unat mono_ms) (n x) (map_of (AList.delete i ?xs) x)" for x
        using refilled [of x] by (simp add: AList.delete_conv')
      moreover have "length (AList.delete i ?xs) < length ?xs"
        using found(1) unfolding AList.delete_eq by (intro length_filter_less) auto
      ultimately show ?thesis using d G unfolding g' by (simp add: ingress_ok_def AList.distinct_delete)
    qed
  qed
  then show "ingress_ok params t0 (unat mono_ms) n g'"
    "r = Inr () \<Longrightarrow> map_of (ig_sources g') source \<noteq> None \<or> length (ig_sources g') < pm_max_sources params" by blast+
qed

lemma length_update: "length (AList.update k v al) = (if map_of al k = None then length al + 1 else length al)"
  by (induction al) auto

lemma admit_ok:
  assumes "ingress_ok params t0 now n g" "now \<le> unat mono_ms" "admit source params mono_ms g = (g', r)"
  shows "ingress_ok params t0 (unat mono_ms) (\<lambda>x. n x + (if x = source \<and> r = Inr () then 1 else 0)) g'"
proof -
  let ?g = "shared_refill params mono_ms g"
  have same: "ig_sources ?g = ig_sources g" by (simp add: shared_refill_def Let_def split: prod.split)
  then have ok: "ingress_ok params t0 now n ?g" using assms(1) by (simp add: ingress_ok_def)
  obtain g1 r1 where room: "make_room source params mono_ms ?g = (g1, r1)" by (cases "make_room source params mono_ms ?g")
  note M = make_room_ok [OF ok assms(2) room]
  show ?thesis
  proof (cases r1)
    case (Inl e)
    then show ?thesis using assms(3) M(1) room by (auto simp: admit_def)
  next
    case (Inr u)
    let ?st = "source_refill params mono_ms (case map_of (ig_sources g1) source of None \<Rightarrow> source_default | Some st \<Rightarrow> st)"
    have b: "in_budget params t0 (unat mono_ms) (n source) (Some ?st)"
      using refill_in_budget [of params t0 "unat mono_ms" "n source" "map_of (ig_sources g1) source" mono_ms] M(1)
      by (simp add: ingress_ok_def)
    obtain st' k where g': "ig_sources g' = AList.update source st' (ig_sources g1)" "k = (if r = Inr () then 1 else 0)"
      "in_budget params t0 (unat mono_ms) (n source + k) (Some st')"
    proof (cases "r = Inr ()")
      case True
      then obtain st' where "ig_sources g' = AList.update source st' (ig_sources g1)" "\<not> is_own ?st < TX_COST_MILLI"
        "is_own st' = is_own ?st - TX_COST_MILLI" "is_primed st' = is_primed ?st" "is_own_last_ms st' = is_own_last_ms ?st"
        using assms(3) room Inr by (auto simp: admit_def Let_def split: if_splits)
      then show thesis using that [of st' 1] spend_in_budget [OF b, of st'] True by simp
    next
      case False
      then have "ig_sources g' = AList.update source ?st (ig_sources g1)"
        using assms(3) room Inr by (auto simp: admit_def Let_def split: if_splits)
      then show thesis using that [of ?st 0] b False by simp
    qed
    have "in_budget params t0 (unat mono_ms) (n x + (if x = source \<and> r = Inr () then 1 else 0)) (map_of (ig_sources g') x)" for x
      using M(1) g' by (cases "x = source") (auto simp: ingress_ok_def AList.update_conv')
    moreover have "length (ig_sources g') \<le> pm_max_sources params"
      using M Inr by (auto simp: g'(1) length_update ingress_ok_def)
    ultimately show ?thesis using M(1) by (simp add: ingress_ok_def g'(1) AList.distinct_update)
  qed
qed



end
