(* ===== verification/ManagerPool.thy ===== *)
theory ManagerPool imports Template Ingress begin

text \<open>
  \<open>lib/chain/src/manager.rs\<close>: what the chain manager does with the mempool: submissions from peers and
  from the node itself, the update after the canonical chain has moved, and the template of the next block.
  The store's accounts and the two clocks are arguments.
\<close>

record PoolSide =
  ps_params :: ChainParams
  ps_halted :: "string option"
  ps_ingress :: Ingress
  ps_pool :: Mempool

definition spendable_lookup ::
  "(Address \<Rightarrow> Account) \<Rightarrow> CoinbaseLedger \<Rightarrow> u64 \<Rightarrow> Address \<Rightarrow> Account \<times> u128" where
  "spendable_lookup account ledger height a = (account a, ledger_spendable a (ac_balance (account a)) height ledger)"

definition submit_tx ::
  "(bytes \<Rightarrow> 'vk option) \<Rightarrow> ('vk \<Rightarrow> bytes \<Rightarrow> bytes \<Rightarrow> bool) \<Rightarrow> (Address \<Rightarrow> Account) \<Rightarrow> CoinbaseLedger \<Rightarrow> u64 \<Rightarrow> u64 \<Rightarrow> u64 \<Rightarrow>
   TxOrigin \<Rightarrow> bytes \<Rightarrow> PoolSide \<Rightarrow> (Condition list \<times> PoolSide \<times> (Reject + Admitted)) option" where
  "submit_tx vk verify account ledger tip_h mono_ms now origin raw s =
     (case ps_halted s of
        Some d \<Rightarrow> Some ([], s, Inl (Halted d))
      | None \<Rightarrow>
         (case (case origin of
              Peer source \<Rightarrow> let (g, r) = admit source (ps_params s) mono_ms (ps_ingress s)
                in (s\<lparr>ps_ingress := g\<rparr>, map_err (\<lambda>e. ([tx_ingress_exhausted source], e)) r)
            | Local \<Rightarrow> (s, Inr ())) of
            (s, Inl (conds, e)) \<Rightarrow> Some (conds, s, Inl e)
          | (s, Inr _) \<Rightarrow> do {
              height \<leftarrow> checked_add tip_h 1;
              (conds, pool, out) \<leftarrow> submit_verified vk verify (pm_network (ps_params s)) raw (spendable_lookup account ledger height) now
                (pm_author_pubkey (ps_params s)) (ps_pool s);
              Some (conds, s\<lparr>ps_pool := pool\<rparr>, out)
            }))"

definition update_mempool ::
  "(Address \<Rightarrow> Account) \<Rightarrow> CoinbaseLedger \<Rightarrow> u64 \<Rightarrow> u64 \<Rightarrow> (Address \<times> u64) list \<Rightarrow> (u64 \<times> bytes list) list \<Rightarrow> PoolSide \<Rightarrow>
   (Condition list \<times> PoolSide) option" where
  "update_mempool account ledger tip_h now spent disconnected s = do {
     (_, p) \<leftarrow> on_block_connected spent account (ps_pool s);
     (conds, p) \<leftarrow> (if disconnected = [] then Some ([], p)
       else do {
         height \<leftarrow> checked_add tip_h 1;
         (conds, p, _, _) \<leftarrow> on_reorg_reinject disconnected now (spendable_lookup account ledger height) p;
         Some (conds, p)
       });
     p \<leftarrow> resplit_all account p;
     Some (conds, s\<lparr>ps_pool := p\<rparr>)
   }"

definition block_template :: "PoolSide \<Rightarrow> bytes list" where
  "block_template s = mempool_template (MAX_TXS_PER_BLOCK - 1) (MAX_BLOCK_BYTES - HEADER_BYTES - 4096) (ps_pool s)"

lemma reorg_ok:
  assumes "mempool_valid p" "\<And>s. leaves_room (mp_params p) (fst (lookup s))"
  shows "\<exists>cs p' t d. on_reorg_reinject disconnected now lookup p = Some (cs, p', t, d) \<and> mempool_valid p' \<and> mp_params p' = mp_params p \<and>
    t \<le> mpp_reorg_reinject_cap (mp_params p)"
proof -
  obtain t d cs p' where "reinject_loop (mpp_reorg_reinject_cap (mp_params p)) lookup now
      (concat (map snd (sort_by (\<lambda>a b. fst b < fst a) disconnected))) 0 0 p = Some (t, d, cs, p')" "mempool_valid p'" "mp_params p' = mp_params p"
    "t \<le> max 0 (mpp_reorg_reinject_cap (mp_params p))"
    using reinject_ok [where ?lookup = lookup, OF assms] by blast
  then show ?thesis by (simp add: on_reorg_reinject_def Let_def)
qed

lemma submit_tx_ok:
  assumes "mempool_valid (ps_pool s)" "\<And>a. leaves_room (mp_params (ps_pool s)) (account a)" "tip_h \<noteq> - 1"
  shows "\<exists>conds s' r. submit_tx vk verify account ledger tip_h mono_ms now origin raw s = Some (conds, s', r) \<and>
    mempool_valid (ps_pool s') \<and> mp_params (ps_pool s') = mp_params (ps_pool s)"
proof -
  have add: "checked_add tip_h 1 = Some (tip_h + 1)" using assms(3) by (simp add: checked_add_def not_max)
  have go: "\<exists>conds s' r. Option.bind (submit_verified vk verify (pm_network (ps_params q)) raw (spendable_lookup account ledger (tip_h + 1)) now
        (pm_author_pubkey (ps_params q)) (ps_pool s)) (\<lambda>(conds, pool, out). Some (conds, q\<lparr>ps_pool := pool\<rparr>, out)) = Some (conds, s', r) \<and>
      mempool_valid (ps_pool s') \<and> mp_params (ps_pool s') = mp_params (ps_pool s)" for q
  proof -
    have room: "leaves_room (mp_params (ps_pool s)) (fst (spendable_lookup account ledger (tip_h + 1) a))" for a
      using assms(2) by (simp add: spendable_lookup_def)
    obtain cs p' r where "submit_verified vk verify (pm_network (ps_params q)) raw (spendable_lookup account ledger (tip_h + 1)) now
        (pm_author_pubkey (ps_params q)) (ps_pool s) = Some (cs, p', r)" "mempool_valid p'" "mp_params p' = mp_params (ps_pool s)"
      by (rule submit_verified_ok [where ?lookup = "spendable_lookup account ledger (tip_h + 1)", OF assms(1) room]) (rule that; assumption)
    then show ?thesis by simp
  qed
  show ?thesis
  proof (cases "ps_halted s")
    case (Some d)
    then show ?thesis using assms(1) by (simp add: submit_tx_def)
  next
    case None
    show ?thesis
    proof (cases origin)
      case Local
      then show ?thesis using None go [of s] add by (simp add: submit_tx_def)
    next
      case (Peer source)
      obtain g r where "admit source (ps_params s) mono_ms (ps_ingress s) = (g, r)" by (cases "admit source (ps_params s) mono_ms (ps_ingress s)")
      then show ?thesis using None Peer go [of "s\<lparr>ps_ingress := g\<rparr>"] add assms(1) by (cases r) (simp_all add: submit_tx_def)
    qed
  qed
qed

lemma update_mempool_ok:
  assumes "mempool_valid (ps_pool s)" "\<And>a. leaves_room (mp_params (ps_pool s)) (account a)" "tip_h \<noteq> - 1"
  shows "\<exists>conds s'. update_mempool account ledger tip_h now spent disconnected s = Some (conds, s') \<and> mempool_valid (ps_pool s') \<and>
    mp_params (ps_pool s') = mp_params (ps_pool s) \<and> (\<forall>a. renewed account (ps_pool s') a)"
proof -
  let ?lookup = "spendable_lookup account ledger (tip_h + 1)"
  have add: "checked_add tip_h 1 = Some (tip_h + 1)" using assms(3) by (simp add: checked_add_def not_max)
  obtain n p1 where 1: "on_block_connected spent account (ps_pool s) = Some (n, p1)" "mempool_valid p1" "shrinks (ps_pool s) p1"
    using connected_ok [OF assms(1)] by blast
  have params: "mp_params p1 = mp_params (ps_pool s)" using 1(3) by (simp add: shrinks_def)
  have room: "leaves_room (mp_params p1) (fst (?lookup a))" for a unfolding params using assms(2) by (simp add: spendable_lookup_def)
  obtain cs p2 t d where 2: "on_reorg_reinject disconnected now ?lookup p1 = Some (cs, p2, t, d)" "mempool_valid p2" "mp_params p2 = mp_params p1"
    using reorg_ok [where ?lookup = ?lookup, OF 1(2) room] by blast
  have settle: "\<exists>p3. resplit_all account p = Some p3 \<and> mempool_valid p3 \<and> mp_params p3 = mp_params p \<and> (\<forall>a. renewed account p3 a)"
    if "mempool_valid p" for p using resplit_all_ok [OF that, of account] by (auto simp: shrinks_def)
  show ?thesis
  proof (cases "disconnected = []")
    case True
    then show ?thesis using 1(1) params settle [OF 1(2)] by (auto simp: update_mempool_def)
  next
    case False
    then show ?thesis using 1(1) params add 2(1,3) settle [OF 2(2)] by (auto simp: update_mempool_def)
  qed
qed

text \<open>C16: After the canonical chain has moved, by blocks that extend it or by a reorganisation, the update of
  the mempool does not panic and the template of the next block is a list of pooled executable transactions,
  each at most once, with at most 4095 entries and within the bytes of a block, where the transactions of
  every sender have consecutive nonces from the sender's account on: the order in which they execute.
\<close>

theorem template_after_update:
  assumes "mempool_valid (ps_pool s)" "\<forall>a. leaves_room (mp_params (ps_pool s)) (account a)" "tip_h \<noteq> - 1"
  shows "\<exists>conds s' ts rest. update_mempool account ledger tip_h now spent disconnected s = Some (conds, s') \<and>
    block_template s' = map pt_bytes ts \<and> mset (ts @ rest) = mset (filter pt_executable (map snd (mp_txs (ps_pool s')))) \<and>
    length ts < MAX_TXS_PER_BLOCK \<and> HEADER_BYTES + (\<Sum>t \<leftarrow> ts. length (pt_bytes t)) < MAX_BLOCK_BYTES \<and>
    (\<forall>a. \<exists>j. map (\<lambda>t. unat (pt_nonce t)) (filter (\<lambda>t. pt_sender t = a) ts) =
       [unat (ac_nonce (account a))..<unat (ac_nonce (account a)) + j])"
proof -
  have room: "leaves_room (mp_params (ps_pool s)) (account a)" for a using assms(2) by blast
  obtain conds s' where u: "update_mempool account ledger tip_h now spent disconnected s = Some (conds, s')" "mempool_valid (ps_pool s')"
    "\<forall>a. renewed account (ps_pool s') a" using update_mempool_ok [where ?account = account, OF assms(1) room assms(3)] by blast
  obtain k where k: "block_template s' = map pt_bytes (take k (template_order (ps_pool s')))"
    "mset (template_order (ps_pool s')) = mset (filter pt_executable (map snd (mp_txs (ps_pool s'))))" "k \<le> MAX_TXS_PER_BLOCK - 1"
    "(\<Sum>t \<leftarrow> take k (template_order (ps_pool s')). length (pt_bytes t)) \<le> MAX_BLOCK_BYTES - HEADER_BYTES - 4096"
    "\<forall>a. \<exists>j. map (\<lambda>t. unat (pt_nonce t)) (filter (\<lambda>t. pt_sender t = a) (take k (template_order (ps_pool s')))) =
       [unat (ac_nonce (account a))..<unat (ac_nonce (account a)) + j]"
    using template_consecutive [OF u(2,3), of "MAX_TXS_PER_BLOCK - 1" "MAX_BLOCK_BYTES - HEADER_BYTES - 4096"] unfolding block_template_def by blast
  let ?ts = "take k (template_order (ps_pool s'))" and ?rest = "drop k (template_order (ps_pool s'))"
  have "length ?ts < MAX_TXS_PER_BLOCK" using k(3) by simp
  moreover have "HEADER_BYTES + (\<Sum>t \<leftarrow> ?ts. length (pt_bytes t)) < MAX_BLOCK_BYTES" using k(4) by simp
  moreover have "mset (?ts @ ?rest) = mset (filter pt_executable (map snd (mp_txs (ps_pool s'))))" unfolding append_take_drop_id by (rule k(2))
  ultimately show ?thesis using u(1) k(1,5) by blast
qed

theorem template_after_update_witness:
  "\<exists>s conds s'. mempool_get (ps_pool s) [9] \<noteq> None \<and>
     update_mempool (\<lambda>_. \<lparr>ac_balance = 9, ac_nonce = 7\<rparr>) \<lparr>le_entries = []\<rparr> 12 100 [([4], 6)] [(12, [[1, 2]])] s = Some (conds, s') \<and>
     length (block_template s') < MAX_TXS_PER_BLOCK"
proof -
  obtain p t where p: "mempool_valid p" "mempool_get p [9] = Some t" "mp_params p = default_mempool_params" using sample_pool by metis
  let ?s = "\<lparr>ps_params = default_params, ps_halted = None, ps_ingress = ingress_new, ps_pool = p\<rparr>"
  have "mempool_valid (ps_pool ?s)" "\<forall>a :: Address. leaves_room (mp_params (ps_pool ?s)) \<lparr>ac_balance = 9, ac_nonce = 7\<rparr>"
    using p by (simp_all add: default_leaves_room)
  from template_after_update [OF this, of 12 "\<lparr>le_entries = []\<rparr>" 100 "[([4], 6)]" "[(12, [[1, 2]])]"] show ?thesis using p(2)
    by (intro exI [of _ ?s]) (auto simp del: MAX_TXS_PER_BLOCK_def)
qed

end
