(* ===== verification/PowProgram.thy ===== *)
theory PowProgram imports Prelude "HOL-Library.Monad_Syntax" begin

text \<open>
  \<open>lib/pow/src\<close>, \<open>consts.rs\<close>, \<open>rng.rs\<close>, \<open>op.rs\<close> and \<open>program.rs\<close>: the generator of the random program
  of the proof of work. An index out of range is a panic, \<open>None\<close>.
\<close>

section \<open>Arrays\<close>

definition get_at :: "'a list \<Rightarrow> nat \<Rightarrow> 'a option" where
  "get_at xs i = (if i < length xs then Some (xs ! i) else None)"

definition put_at :: "'a list \<Rightarrow> nat \<Rightarrow> 'a \<Rightarrow> 'a list option" where
  "put_at xs i x = (if i < length xs then Some (xs[i := x]) else None)"

definition swap :: "'a list \<Rightarrow> nat \<Rightarrow> nat \<Rightarrow> 'a list option" where
  "swap xs i j = do { a \<leftarrow> get_at xs i; b \<leftarrow> get_at xs j; Some (xs[i := b, j := a]) }"

lemma get_at_Some [simp]: "i < length xs \<Longrightarrow> get_at xs i = Some (xs ! i)"
  by (simp add: get_at_def)

lemma put_at_Some [simp]: "i < length xs \<Longrightarrow> put_at xs i x = Some (xs[i := x])"
  by (simp add: put_at_def)

section \<open>Constants\<close>

definition SCRATCH_BYTES :: u32 where "SCRATCH_BYTES = 65536"
definition SCRATCH_WORDS :: nat where "SCRATCH_WORDS = unat SCRATCH_BYTES div 8"
definition SCRATCH_MASK :: u64 where "SCRATCH_MASK = ucast (SCRATCH_BYTES - 8)"
definition LINE_MASK :: u64 where "LINE_MASK = ucast (SCRATCH_BYTES - 16)"
definition LOOPS :: u32 where "LOOPS = 1024"
definition BLOCKS :: nat where "BLOCKS = 32"
definition BLOCK_INSTR :: nat where "BLOCK_INSTR = 16"
definition PROG_INSTR :: nat where "PROG_INSTR = BLOCKS * BLOCK_INSTR"
definition NREG :: nat where "NREG = 8"
definition MULT :: u64 where "MULT = 0x9E3779B97F4A7C15"
definition C1 :: u32 where "C1 = 0x6A09E667"
definition C2 :: u32 where "C2 = 0xBB67AE85"
definition FILL_DOM :: u64 where "FILL_DOM = 0x1F83D9AB5BE0CD19"
definition AESKEY :: bytes where
  "AESKEY = [0x3C, 0x6E, 0xF3, 0x72, 0xA5, 0x4F, 0xF5, 0x3A, 0x51, 0x0E, 0x52, 0x7F, 0x9B, 0x05, 0x68, 0x8C]"
definition PER_BLOCK :: "u8 list" where "PER_BLOCK = [0, 0, 0, 0, 0, 0, 1, 2, 3, 3, 3, 3, 3, 4, 5, 5]"
definition ROLE_OFFS :: "u8 list" where "ROLE_OFFS = [3, 5, 1, 7, 2, 6, 4, 5]"
definition RNG_DOM_PROGRAM :: u64 where "RNG_DOM_PROGRAM = 2"
definition RNG_DOM_SINGLE :: u64 where "RNG_DOM_SINGLE = 7"
definition HIST :: "u32 list" where
  "HIST = [32, 32, 32, 32, 32, 32, 8, 8, 8, 8, 16, 16, 27, 27, 27, 27, 26, 26, 16, 16, 64]"

definition sum_u32 :: "u32 list \<Rightarrow> u32 option" where
  "sum_u32 xs = for_each (\<lambda>x acc. checked_add acc x) xs 0"

text \<open>The assertions of the compiler.\<close>

definition pow_static_asserts :: bool where
  "pow_static_asserts \<longleftrightarrow> unat SCRATCH_BYTES = 2 ^ 16 \<and> PROG_INSTR = 512 \<and>
     map_option unat (sum_u32 HIST) = Some PROG_INSTR"

lemma pow_static_asserts_hold: "pow_static_asserts"
  by (simp add: pow_static_asserts_def SCRATCH_BYTES_def PROG_INSTR_def BLOCKS_def BLOCK_INSTR_def sum_u32_def HIST_def checked_add_def)

section \<open>Random numbers\<close>

record Rng =
  rng_s0 :: u64

definition GAMMA :: u64 where "GAMMA = 0x9E3779B97F4A7C15"
definition MIX1 :: u64 where "MIX1 = 0xBF58476D1CE4E5B9"
definition MIX2 :: u64 where "MIX2 = 0x94D049BB133111EB"
definition DOM_MULT :: u64 where "DOM_MULT = 0xD6E8FEB86659FD93"

definition rng_next :: "Rng \<Rightarrow> u64 \<times> Rng" where
  "rng_next r =
     (let x = rng_s0 r + GAMMA;
          r = r\<lparr>rng_s0 := x\<rparr>;
          x = x XOR drop_bit 30 x;
          x = x * MIX1;
          x = x XOR drop_bit 27 x;
          x = x * MIX2
      in (x XOR drop_bit 31 x, r))"

definition rng_new :: "u64 \<Rightarrow> u64 \<Rightarrow> Rng" where
  "rng_new seed domain = ((\<lambda>r. snd (rng_next r)) ^^ 4) \<lparr>rng_s0 = seed XOR domain * DOM_MULT\<rparr>"

section \<open>Operations\<close>

datatype Class = Alu | RotImm | RotReg | Mem | Mul | Aes

datatype Op = Add | Sub | Xor | Or | And | Andn | Rolx | Rola | Rorx | Rora | Vrol | Vror
  | Load | Store | Rmw | Loadb | Storeb | Rmwb | Mullo | Mulhi | Aesr

definition OP_COUNT :: nat where "OP_COUNT = 21"

definition ALL_OPS :: "Op list" where
  "ALL_OPS = [Add, Sub, Xor, Or, And, Andn, Rolx, Rola, Rorx, Rora, Vrol, Vror,
     Load, Store, Rmw, Loadb, Storeb, Rmwb, Mullo, Mulhi, Aesr]"

definition ALU_POOL :: "Op list" where "ALU_POOL = [Add, Sub, Xor, Or, And, Andn]"
definition ROT_POOL :: "Op list" where "ROT_POOL = [Rolx, Rola, Rorx, Rora]"
definition MEM_POOL :: "Op list" where "MEM_POOL = [Load, Store, Rmw, Loadb, Storeb, Rmwb]"
definition MUL_POOL :: "Op list" where "MUL_POOL = [Mullo, Mulhi]"
definition ROTREG_POOL :: "Op list" where "ROTREG_POOL = [Vrol, Vror]"

definition op_name :: "Op \<Rightarrow> string" where
  "op_name op = (case op of
     Add \<Rightarrow> ''ADD'' | Sub \<Rightarrow> ''SUB'' | Xor \<Rightarrow> ''XOR'' | Or \<Rightarrow> ''OR'' | And \<Rightarrow> ''AND'' | Andn \<Rightarrow> ''ANDN''
   | Rolx \<Rightarrow> ''ROLX'' | Rola \<Rightarrow> ''ROLA'' | Rorx \<Rightarrow> ''RORX'' | Rora \<Rightarrow> ''RORA'' | Vrol \<Rightarrow> ''VROL'' | Vror \<Rightarrow> ''VROR''
   | Load \<Rightarrow> ''LOAD'' | Store \<Rightarrow> ''STORE'' | Rmw \<Rightarrow> ''RMW'' | Loadb \<Rightarrow> ''LOADB'' | Storeb \<Rightarrow> ''STOREB'' | Rmwb \<Rightarrow> ''RMWB''
   | Mullo \<Rightarrow> ''MULLO'' | Mulhi \<Rightarrow> ''MULHI'' | Aesr \<Rightarrow> ''AESR'')"

definition op_class :: "Op \<Rightarrow> Class" where
  "op_class op =
     (if op \<in> {Add, Sub, Xor, Or, And, Andn} then Alu
      else if op \<in> {Rolx, Rola, Rorx, Rora} then RotImm
      else if op \<in> {Vrol, Vror} then RotReg
      else if op \<in> {Load, Store, Rmw, Loadb, Storeb, Rmwb} then Mem
      else if op \<in> {Mullo, Mulhi} then Mul
      else Aes)"

fun op_index :: "Op \<Rightarrow> u8" where
  "op_index Add = 0" | "op_index Sub = 1" | "op_index Xor = 2" | "op_index Or = 3" | "op_index And = 4"
| "op_index Andn = 5" | "op_index Rolx = 6" | "op_index Rola = 7" | "op_index Rorx = 8" | "op_index Rora = 9"
| "op_index Vrol = 10" | "op_index Vror = 11" | "op_index Load = 12" | "op_index Store = 13" | "op_index Rmw = 14"
| "op_index Loadb = 15" | "op_index Storeb = 16" | "op_index Rmwb = 17" | "op_index Mullo = 18"
| "op_index Mulhi = 19" | "op_index Aesr = 20"

definition op_from_u8 :: "u8 \<Rightarrow> Op option" where
  "op_from_u8 v = (if unat v < OP_COUNT then get_at ALL_OPS (unat v) else None)"

lemma op_round_trip: "op_from_u8 (op_index op) = Some op" "op_from_u8 v = Some op \<Longrightarrow> op_index op = v"
proof -
  show "op_from_u8 (op_index op) = Some op" by (cases op) (simp_all add: op_from_u8_def OP_COUNT_def ALL_OPS_def get_at_def)
  have "\<forall>i < OP_COUNT. unat (op_index (ALL_OPS ! i)) = i" by code_simp
  then show "op_index op = v" if "op_from_u8 v = Some op"
    using that by (auto simp: op_from_u8_def get_at_def word_unat_eq_iff split: if_splits)
qed

section \<open>Programs\<close>

record Instr =
  in_op :: Op
  in_d :: u8
  in_s :: u8
  in_imm :: u32

definition instr_new :: "Op \<Rightarrow> u8 \<Rightarrow> u8 \<Rightarrow> u32 \<Rightarrow> Instr" where
  "instr_new op d s imm = \<lparr>in_op = op, in_d = d AND 7, in_s = s AND 7, in_imm = imm\<rparr>"

type_synonym Program = "Instr list"

definition shuffle_step :: "nat \<Rightarrow> Rng \<times> u8 list \<Rightarrow> (Rng \<times> u8 list) option" where
  "shuffle_step i = (\<lambda>(n, idx).
     let (v, n) = rng_next n; j = unat (v mod (word_of_nat i + 1))
     in map_option (Pair n) (swap idx i j))"

definition shuffle :: "Rng \<Rightarrow> (Rng \<times> u8 list) option" where
  "shuffle n = for_each shuffle_step (rev [1..<BLOCK_INSTR]) (n, map word_of_nat [0..<BLOCK_INSTR])"

definition pick_op :: "u8 \<Rightarrow> u32 list \<Rightarrow> Op option" where
  "pick_op k ctr =
     (if k = 0 then do { c \<leftarrow> get_at ctr 0; get_at ALU_POOL (unat (c mod 6)) }
      else if k = 1 then do { c \<leftarrow> get_at ctr 1; get_at ROT_POOL (unat (c mod 4)) }
      else if k = 2 then do { c \<leftarrow> get_at ctr 2; get_at ROTREG_POOL (unat (c AND 1)) }
      else if k = 3 then do { c \<leftarrow> get_at ctr 3; get_at MEM_POOL (unat (c mod 6)) }
      else if k = 4 then do { c \<leftarrow> get_at ctr 4; get_at MUL_POOL (unat (c AND 1)) }
      else Some Aesr)"

text \<open>One slot of block \<open>b\<close>; the state is the generator, the counters of the classes and the program.\<close>

definition slot_step :: "nat \<Rightarrow> u8 list \<Rightarrow> nat \<Rightarrow> Rng \<times> u32 list \<times> Program \<Rightarrow> (Rng \<times> u32 list \<times> Program) option" where
  "slot_step b idx i = (\<lambda>(n, ctr, prog). do {
     t \<leftarrow> map_option unat (get_at idx i);
     k \<leftarrow> get_at PER_BLOCK t;
     let dr = t mod NREG;
     off \<leftarrow> get_at ROLE_OFFS (t mod 8);
     let sr = (dr + unat off) mod NREG;
     op \<leftarrow> pick_op k ctr;
     c \<leftarrow> get_at ctr (unat k);
     ctr \<leftarrow> put_at ctr (unat k) (c + 1);
     let (v, n) = rng_next n;
     prog \<leftarrow> put_at prog (b * BLOCK_INSTR + i) (instr_new op (word_of_nat dr) (word_of_nat sr) (ucast v));
     Some (n, ctr, prog)
   })"

definition block_step :: "nat \<Rightarrow> Rng \<times> u32 list \<times> Program \<Rightarrow> (Rng \<times> u32 list \<times> Program) option" where
  "block_step b = (\<lambda>(n, ctr, prog). do {
     (n, idx) \<leftarrow> shuffle n;
     for_each (slot_step b idx) [0..<BLOCK_INSTR] (n, ctr, prog)
   })"

definition build_program :: "u64 \<Rightarrow> Program option" where
  "build_program prog_seed = do {
     let n = rng_new prog_seed RNG_DOM_PROGRAM;
     (_, _, prog) \<leftarrow> for_each block_step [0..<BLOCKS] (n, replicate 6 0, replicate PROG_INSTR (instr_new Add 0 0 0));
     Some prog
   }"

end
