(* ===== verification/PowFacts.thy ===== *)
theory PowFacts imports PowProgram "HOL-Library.Multiset" begin

text \<open>
  Every seed gives a program of 512 well-formed slots, whose operations occur with the frequencies of
  \<open>HIST\<close> whatever the shuffle does.
\<close>

section \<open>The shuffle\<close>

lemma shuffle_ok:
  "\<exists>n' idx. shuffle n = Some (n', idx) \<and> mset idx = mset (map word_of_nat [0..<BLOCK_INSTR])"
proof -
  let ?start = "map word_of_nat [0..<BLOCK_INSTR] :: u8 list"
  have step: "\<exists>n' idx'. shuffle_step i (n, idx) = Some (n', idx') \<and> mset idx' = mset idx"
    if "i < BLOCK_INSTR" "length idx = BLOCK_INSTR" for i n idx
  proof -
    obtain v n' where v: "rng_next n = (v, n')" by (cases "rng_next n")
    have i: "unat (word_of_nat i + 1 :: u64) = i + 1" using that(1) by (simp add: BLOCK_INSTR_def unat_word_ariths unat_of_nat take_bit_nat_eq_self)
    have "unat (v mod (word_of_nat i + 1)) < i + 1" unfolding unat_mod i by simp
    then have "unat (v mod (word_of_nat i + 1)) < length idx" using that by simp
    then show ?thesis using that v by (simp add: shuffle_step_def swap_def mset_swap Let_def)
  qed
  have "\<exists>n' idx'. for_each shuffle_step is (n, idx) = Some (n', idx') \<and> mset idx' = mset idx"
    if "set is \<subseteq> {..<BLOCK_INSTR}" "length idx = BLOCK_INSTR" for "is" idx
    using that
  proof (induction "is" arbitrary: n idx)
    case (Cons i js)
    obtain n1 idx1 where 1: "shuffle_step i (n, idx) = Some (n1, idx1)" "mset idx1 = mset idx"
      using step [of i idx n] Cons.prems by auto
    have "length idx1 = BLOCK_INSTR" using Cons.prems(2) mset_eq_length [OF 1(2)] by simp
    then show ?case using Cons.IH [of idx1 n1] Cons.prems(1) 1 by auto
  qed simp
  moreover have "set (rev [1..<BLOCK_INSTR]) \<subseteq> {..<BLOCK_INSTR}" "length ?start = BLOCK_INSTR" by auto
  ultimately show ?thesis unfolding shuffle_def by blast
qed

section \<open>One slot\<close>

text \<open>The class of entry \<open>t\<close> of a block and the operation that class \<open>k\<close> emits when its counter is \<open>c\<close>.\<close>

definition slot_class :: "u8 \<Rightarrow> nat" where
  "slot_class t = unat (PER_BLOCK ! unat t)"

definition op_at :: "nat \<Rightarrow> nat \<Rightarrow> Op" where
  "op_at k c = (if k = 0 then ALU_POOL ! (c mod 6) else if k = 1 then ROT_POOL ! (c mod 4) else if k = 2 then ROTREG_POOL ! (c mod 2)
     else if k = 3 then MEM_POOL ! (c mod 6) else if k = 4 then MUL_POOL ! (c mod 2) else Aesr)"

definition slot_ok :: "Instr \<Rightarrow> bool" where
  "slot_ok x \<longleftrightarrow> unat (in_d x) < NREG \<and> unat (in_s x) < NREG \<and> in_d x \<noteq> in_s x"

lemma unat_and_1: "unat (c AND 1 :: u32) = unat c mod 2"
  by (simp add: and_one_eq unat_mod)

lemma pick_op_ok:
  assumes "unat k < 6" "length ctr = 6"
  shows "pick_op k ctr = Some (op_at (unat k) (unat (ctr ! unat k)))"
proof -
  have "k \<in> {0, 1, 2, 3, 4, 5}" using assms(1) by (auto simp: word_unat_eq_iff)
  then show ?thesis using assms(2)
    by (auto simp: pick_op_def op_at_def ALU_POOL_def ROT_POOL_def ROTREG_POOL_def MEM_POOL_def MUL_POOL_def unat_mod unat_and_1)
qed

lemma entry_facts:
  assumes "t < 16"
  shows "PER_BLOCK ! t \<in> {0, 1, 2, 3, 4, 5}"
    "slot_ok (instr_new op (word_of_nat (t mod NREG)) (word_of_nat ((t mod NREG + unat (ROLE_OFFS ! (t mod 8))) mod NREG)) imm)"
proof -
  have "t \<in> {0, 1, 2, 3, 4, 5, 6, 7, 8, 9, 10, 11, 12, 13, 14, 15}" using assms by (simp add: numeral_eq_Suc less_Suc_eq) 
  then show "PER_BLOCK ! t \<in> {0, 1, 2, 3, 4, 5}"
    "slot_ok (instr_new op (word_of_nat (t mod NREG)) (word_of_nat ((t mod NREG + unat (ROLE_OFFS ! (t mod 8))) mod NREG)) imm)"
    by (auto simp: PER_BLOCK_def NREG_def ROLE_OFFS_def slot_ok_def instr_new_def)
qed

lemma slot_step_ok:
  assumes "i < length idx" "unat (idx ! i) < 16" "length ctr = 6" "b * BLOCK_INSTR + i < length prog"
  shows "\<exists>n' x. slot_step b idx i (n, ctr, prog) =
      Some (n', ctr[slot_class (idx ! i) := ctr ! slot_class (idx ! i) + 1], prog[b * BLOCK_INSTR + i := x]) \<and>
    slot_ok x \<and> in_op x = op_at (slot_class (idx ! i)) (unat (ctr ! slot_class (idx ! i)))"
    "slot_class (idx ! i) < 6"
proof -
  let ?t = "unat (idx ! i)" and ?k = "PER_BLOCK ! unat (idx ! i)"
  have len: "?t < length PER_BLOCK" "?t mod 8 < length ROLE_OFFS" using assms(2) by (simp_all add: PER_BLOCK_def ROLE_OFFS_def)
  have k: "unat ?k < 6" using entry_facts(1) [OF assms(2)] by auto
  then show "slot_class (idx ! i) < 6" by (simp add: slot_class_def)
  obtain v n' where v: "rng_next n = (v, n')" by (cases "rng_next n")
  show "\<exists>n' x. slot_step b idx i (n, ctr, prog) =
      Some (n', ctr[slot_class (idx ! i) := ctr ! slot_class (idx ! i) + 1], prog[b * BLOCK_INSTR + i := x]) \<and>
    slot_ok x \<and> in_op x = op_at (slot_class (idx ! i)) (unat (ctr ! slot_class (idx ! i)))"
    using assms len k pick_op_ok [OF k assms(3)] v entry_facts(2) [OF assms(2)]
    by (auto simp: slot_step_def slot_class_def instr_new_def Let_def)
qed


section \<open>Whole programs\<close>

text \<open>What class \<open>k\<close> has emitted when its counter is \<open>c\<close>, and how often it occurs in a block.\<close>

definition emitted :: "nat \<Rightarrow> nat \<Rightarrow> Op list" where
  "emitted k c = map (op_at k) [0..<c]"

definition per_block :: "nat \<Rightarrow> nat" where
  "per_block k = length (filter (\<lambda>t. slot_class t = k) (map word_of_nat [0..<BLOCK_INSTR]))"

definition building :: "nat \<Rightarrow> Rng \<times> u32 list \<times> Program \<Rightarrow> bool" where
  "building j s = (case s of (n, ctr, prog) \<Rightarrow> length ctr = 6 \<and> length prog = PROG_INSTR \<and> j \<le> PROG_INSTR \<and>
     (\<forall>x \<in> set (take j prog). slot_ok x) \<and> (\<forall>k < 6. unat (ctr ! k) \<le> j) \<and>
     mset (map in_op (take j prog)) = (\<Sum>k < 6. mset (emitted k (unat (ctr ! k)))))"

lemma emitted_Suc: "mset (emitted k (Suc c)) = add_mset (op_at k c) (mset (emitted k c))"
  by (simp add: emitted_def)

lemma building_step:
  assumes "building (b * BLOCK_INSTR + i) (n, ctr, prog)" "i < length idx" "unat (idx ! i) < 16" "b * BLOCK_INSTR + i < PROG_INSTR"
  shows "\<exists>n' ctr' prog'. slot_step b idx i (n, ctr, prog) = Some (n', ctr', prog') \<and> building (b * BLOCK_INSTR + Suc i) (n', ctr', prog') \<and>
    (\<forall>k < 6. unat (ctr' ! k) = unat (ctr ! k) + (if slot_class (idx ! i) = k then 1 else 0))"
proof -
  let ?j = "b * BLOCK_INSTR + i" and ?k = "slot_class (idx ! i)"
  have B: "length ctr = 6" "length prog = PROG_INSTR" "\<forall>x \<in> set (take ?j prog). slot_ok x" "\<forall>k < 6. unat (ctr ! k) \<le> ?j"
    "mset (map in_op (take ?j prog)) = (\<Sum>k < 6. mset (emitted k (unat (ctr ! k))))" using assms(1) by (simp_all add: building_def)
  obtain n' x where x: "slot_step b idx i (n, ctr, prog) = Some (n', ctr[?k := ctr ! ?k + 1], prog[?j := x])" "slot_ok x"
    "in_op x = op_at ?k (unat (ctr ! ?k))" using slot_step_ok(1) [of i idx ctr b prog n] assms(2-4) B(1,2) by auto
  have k: "?k < 6" using slot_step_ok(2) [of i idx ctr b prog] assms(2-4) B(1,2) by simp
  have "unat (ctr ! ?k) < 512" using B(4) k assms(4) by (auto simp: PROG_INSTR_def BLOCKS_def BLOCK_INSTR_def)
  then have u: "unat (ctr ! ?k + 1) = unat (ctr ! ?k) + 1" by (simp add: unat_word_ariths)
  have ctr: "unat (ctr[?k := ctr ! ?k + 1] ! k) = unat (ctr ! k) + (if ?k = k then 1 else 0)" if "k < 6" for k
    using that u B(1) by (auto simp: nth_list_update)
  have take: "take (Suc ?j) (prog[?j := x]) = take ?j prog @ [x]" using assms(4) B(2) by (simp add: take_Suc_conv_app_nth)
  have "(\<Sum>k < 6. mset (emitted k (unat (ctr[?k := ctr ! ?k + 1] ! k)))) =
      (\<Sum>k < 6. mset (emitted k (unat (ctr ! k))) + (if k = ?k then {#in_op x#} else {#}))"
    by (rule sum.cong [OF refl]) (auto simp: ctr emitted_Suc x(3))
  also have "\<dots> = (\<Sum>k < 6. mset (emitted k (unat (ctr ! k)))) + {#in_op x#}" using k by (simp add: sum.distrib)
  finally have "building (Suc ?j) (n', ctr[?k := ctr ! ?k + 1], prog[?j := x])"
    using B x(2) assms(4) ctr take by (auto simp: building_def le_Suc_eq)
  then show ?thesis using x(1) ctr by simp
qed

lemma block_ok:
  assumes "building (b * BLOCK_INSTR) (n, ctr, prog)" "b < BLOCKS"
  shows "\<exists>n' ctr' prog'. block_step b (n, ctr, prog) = Some (n', ctr', prog') \<and> building (Suc b * BLOCK_INSTR) (n', ctr', prog') \<and>
    (\<forall>k < 6. unat (ctr' ! k) = unat (ctr ! k) + per_block k)"
proof -
  obtain n1 idx where s: "shuffle n = Some (n1, idx)" "mset idx = mset (map word_of_nat [0..<BLOCK_INSTR])" using shuffle_ok by blast
  have len: "length idx = BLOCK_INSTR" using mset_eq_length [OF s(2)] by simp
  have "set idx = set (map word_of_nat [0..<BLOCK_INSTR])" using s(2) by (rule mset_eq_setD)
  then have small: "unat (idx ! i) < 16" if "i < BLOCK_INSTR" for i
    using nth_mem [of i idx] that len by (auto simp: BLOCK_INSTR_def unat_of_nat take_bit_nat_eq_self)
  define P where "P i st \<longleftrightarrow> (case st of (n', ctr', prog') \<Rightarrow> building (b * BLOCK_INSTR + i) (n', ctr', prog') \<and>
      (\<forall>k < 6. unat (ctr' ! k) = unat (ctr ! k) + length (filter (\<lambda>t. slot_class t = k) (take i idx))))" for i and st :: "Rng \<times> u32 list \<times> Program"
  have "\<exists>s'. for_each (slot_step b idx) [0..<BLOCK_INSTR] (n1, ctr, prog) = Some s' \<and> P BLOCK_INSTR s'"
  proof (rule for_each_range)
    show "P 0 (n1, ctr, prog)" using assms(1) by (simp add: P_def building_def)
    show "0 \<le> BLOCK_INSTR" by simp
    fix i st assume i: "i < BLOCK_INSTR" and st: "P i st"
    obtain n2 ctr2 prog2 where 2: "st = (n2, ctr2, prog2)" by (cases st)
    have "b * BLOCK_INSTR + i < PROG_INSTR" using i assms(2) by (simp add: PROG_INSTR_def BLOCKS_def BLOCK_INSTR_def)
    then obtain n3 ctr3 prog3 where 3: "slot_step b idx i st = Some (n3, ctr3, prog3)" "building (b * BLOCK_INSTR + Suc i) (n3, ctr3, prog3)"
      "\<forall>k < 6. unat (ctr3 ! k) = unat (ctr2 ! k) + (if slot_class (idx ! i) = k then 1 else 0)"
      using building_step [of b i n2 ctr2 prog2 idx] st small [OF i] i len 2 by (auto simp: P_def)
    have "take (Suc i) idx = take i idx @ [idx ! i]" using i len by (simp add: take_Suc_conv_app_nth)
    then have "P (Suc i) (n3, ctr3, prog3)" using 3(2,3) st 2 by (simp add: P_def)
    then show "\<exists>s'. slot_step b idx i st = Some s' \<and> P (Suc i) s'" using 3(1) by blast
  qed
  then obtain n' ctr' prog' where r: "for_each (slot_step b idx) [0..<BLOCK_INSTR] (n1, ctr, prog) = Some (n', ctr', prog')" "P BLOCK_INSTR (n', ctr', prog')"
    by (metis prod_cases3)
  have "length (filter Q idx) = length (filter Q (map word_of_nat [0..<BLOCK_INSTR]))" for Q
    using s(2) by (metis mset_filter size_mset)
  then show ?thesis using r s(1) len by (simp add: block_step_def P_def per_block_def add.commute)
qed

lemma build_program_ok:
  "\<exists>prog. build_program seed = Some prog \<and> length prog = PROG_INSTR \<and> (\<forall>x \<in> set prog. slot_ok x) \<and>
     mset (map in_op prog) = (\<Sum>k < 6. mset (emitted k (BLOCKS * per_block k)))"
proof -
  let ?n = "rng_new seed RNG_DOM_PROGRAM" and ?ctr = "replicate 6 0" and ?prog = "replicate PROG_INSTR (instr_new Add 0 0 0)"
  define P where "P b st \<longleftrightarrow> (case st of (n, ctr, prog) \<Rightarrow> building (b * BLOCK_INSTR) (n, ctr, prog) \<and> (\<forall>k < 6. unat (ctr ! k) = b * per_block k))"
    for b and st :: "Rng \<times> u32 list \<times> Program"
  have "\<exists>s'. for_each block_step [0..<BLOCKS] (?n, ?ctr, ?prog) = Some s' \<and> P BLOCKS s'"
  proof (rule for_each_range)
    show "P 0 (?n, ?ctr, ?prog)" by (simp add: P_def building_def emitted_def)
    show "0 \<le> BLOCKS" by simp
    fix b st assume b: "b < BLOCKS" and st: "P b st"
    obtain n ctr prog where 1: "st = (n, ctr, prog)" by (cases st)
    obtain n' ctr' prog' where "block_step b st = Some (n', ctr', prog')" "building (Suc b * BLOCK_INSTR) (n', ctr', prog')"
      "\<forall>k < 6. unat (ctr' ! k) = unat (ctr ! k) + per_block k" using block_ok [of b n ctr prog] st b 1 by (auto simp: P_def)
    then show "\<exists>s'. block_step b st = Some s' \<and> P (Suc b) s'" using st 1 by (auto simp: P_def)
  qed
  then obtain n ctr prog where r: "for_each block_step [0..<BLOCKS] (?n, ?ctr, ?prog) = Some (n, ctr, prog)" "P BLOCKS (n, ctr, prog)"
    by (metis prod_cases3)
  then have B: "length prog = PROG_INSTR" "\<forall>x \<in> set (take PROG_INSTR prog). slot_ok x"
    "mset (map in_op (take PROG_INSTR prog)) = (\<Sum>k < 6. mset (emitted k (unat (ctr ! k))))" "\<forall>k < 6. unat (ctr ! k) = BLOCKS * per_block k"
    using r(2) unfolding P_def building_def PROG_INSTR_def prod.case by blast+
  have "(\<Sum>k < 6. mset (emitted k (unat (ctr ! k)))) = (\<Sum>k < 6. mset (emitted k (BLOCKS * per_block k)))"
    using B(4) by (intro sum.cong) simp_all
  then show ?thesis using B(1-3) r(1) by (simp add: build_program_def)
qed

text \<open>C34: Every seed yields a program, without an index out of range: 512 slots, each naming two different
  registers below the number of registers.
\<close>

theorem program_well_formed:
  "\<exists>prog. build_program seed = Some prog \<and> length prog = PROG_INSTR \<and>
     list_all (\<lambda>x. unat (in_d x) < NREG \<and> unat (in_s x) < NREG \<and> in_d x \<noteq> in_s x) prog"
  using build_program_ok [of seed] unfolding slot_ok_def list_all_iff by blast

lemma per_block_counts: "map per_block [0..<6] = [6, 1, 1, 5, 1, 2]"
  by code_simp

lemma emitted_counts:
  "\<forall>op \<in> set ALL_OPS. (\<Sum>k \<leftarrow> [0..<6]. length (filter (\<lambda>o'. o' = op) (emitted k (32 * [6, 1, 1, 5, 1, 2] ! k)))) = unat (HIST ! unat (op_index op))"
  by code_simp

lemma length_filter_mset: "length (filter P (map f xs)) = size (filter_mset P (mset (map f xs)))"
  by (metis mset_filter size_mset)

text \<open>C32: The shuffle moves operations but never changes how many there are: for every seed each of the 21
  operations occurs in the program exactly as often as the table \<open>HIST\<close> says.
\<close>

theorem histogram_fixed:
  "\<exists>prog. build_program seed = Some prog \<and> (\<forall>op. length (filter (\<lambda>x. in_op x = op) prog) = unat (HIST ! unat (op_index op)))"
proof -
  obtain prog where p: "build_program seed = Some prog" "mset (map in_op prog) = (\<Sum>k < 6. mset (emitted k (BLOCKS * per_block k)))"
    using build_program_ok by blast
  have counts: "per_block k = [6, 1, 1, 5, 1, 2] ! k" if "k < 6" for k
    using arg_cong [OF per_block_counts, of "\<lambda>xs. xs ! k"] that by simp
  have "length (filter (\<lambda>x. in_op x = op) prog) = unat (HIST ! unat (op_index op))" for op
  proof -
    have "length (filter (\<lambda>x. in_op x = op) prog) = length (filter (\<lambda>o'. o' = op) (map in_op prog))" by (simp add: filter_map comp_def)
    also have "\<dots> = size (filter_mset (\<lambda>o'. o' = op) (\<Sum>k < 6. mset (emitted k (BLOCKS * per_block k))))"
      unfolding length_filter_mset p(2) ..
    also have "\<dots> = (\<Sum>k < 6. size (filter_mset (\<lambda>o'. o' = op) (mset (emitted k (BLOCKS * per_block k)))))"
      by (simp add: eval_nat_numeral)
    also have "\<dots> = (\<Sum>k < 6. length (filter (\<lambda>o'. o' = op) (emitted k (32 * [6, 1, 1, 5, 1, 2] ! k))))"
      by (rule sum.cong [OF refl]) (simp add: counts BLOCKS_def flip: mset_filter)
    also have "\<dots> = (\<Sum>k \<leftarrow> [0..<6]. length (filter (\<lambda>o'. o' = op) (emitted k (32 * [6, 1, 1, 5, 1, 2] ! k))))"
      by (simp add: interv_sum_list_conv_sum_set_nat atLeast0LessThan)
    also have "\<dots> = unat (HIST ! unat (op_index op))"
    proof -
      have "op \<in> set ALL_OPS" by (cases op) (simp_all add: ALL_OPS_def)
      then show ?thesis using emitted_counts by blast
    qed
    finally show ?thesis .
  qed
  then show ?thesis using p(1) by blast
qed

end
