(* ===== verification/PowMachine.thy ===== *)
theory PowMachine imports PowProgram begin

text \<open>
  \<open>lib/pow/src\<close>, \<open>aes.rs\<close>, \<open>interp.rs\<close>, \<open>fill.rs\<close>, \<open>scratch.rs\<close> and \<open>lib.rs\<close>: the machine that runs
  the programs of the proof of work. The AES round of the processor is the parameter \<open>aes\<close>, of a state and
  a key; whether the processor has it is the parameter \<open>detect\<close>.
\<close>

type_synonym line = "u64 \<times> u64"

section \<open>AES\<close>

text \<open>\<open>key_word\<close>: eight bytes of the key, little-endian.\<close>

definition key_word :: "nat \<Rightarrow> u64" where
  "key_word off = from_le (take 8 (drop off AESKEY))"

definition KEY_LO :: u64 where "KEY_LO = key_word 0"
definition KEY_HI :: u64 where "KEY_HI = key_word 8"

definition aesenc :: "(line \<Rightarrow> line \<Rightarrow> line) \<Rightarrow> line \<Rightarrow> line" where
  "aesenc aes st = aes st (KEY_LO, KEY_HI)"

section \<open>The interpreter\<close>

definition addr_of :: "u64 \<Rightarrow> u32 \<Rightarrow> u64" where
  "addr_of v k = drop_bit 40 ((v XOR ucast k) * MULT) AND SCRATCH_MASK"

definition line_of :: "u64 \<Rightarrow> u32 \<Rightarrow> u64" where
  "line_of v k = drop_bit 40 ((v XOR ucast k) * MULT) AND LINE_MASK"

text \<open>One slot on registers and scratch pad.\<close>

definition exec_slot :: "(line \<Rightarrow> line \<Rightarrow> line) \<Rightarrow> Instr \<Rightarrow> u64 list \<times> u64 list \<Rightarrow> (u64 list \<times> u64 list) option" where
  "exec_slot aes x = (\<lambda>(r, sc). do {
     let d = unat (in_d x);
     let imm = in_imm x;
     let immw = (ucast imm :: u64);
     let k = unat ((imm AND 63) OR 1);
     rd \<leftarrow> get_at r d;
     rs \<leftarrow> get_at r (unat (in_s x));
     let set_reg = (\<lambda>v sc. Some (r[d := v], sc));
     let word = (\<lambda>a. unat (drop_bit 3 a));
     (case in_op x of
        Add \<Rightarrow> set_reg ((rd + rs) XOR immw) sc
      | Sub \<Rightarrow> set_reg ((rd - rs) XOR immw) sc
      | Xor \<Rightarrow> set_reg ((rd XOR rs) + immw) sc
      | Or \<Rightarrow> set_reg (word_rotl 17 rd XOR (rs OR immw)) sc
      | And \<Rightarrow> set_reg (word_rotl 23 rd XOR (rs AND immw)) sc
      | Andn \<Rightarrow> set_reg (word_rotl 29 rd XOR (NOT rs AND immw)) sc
      | Rolx \<Rightarrow> set_reg (word_rotl k rd XOR rs) sc
      | Rola \<Rightarrow> set_reg (word_rotl k rd + rs) sc
      | Rorx \<Rightarrow> set_reg (word_rotr k rd XOR rs) sc
      | Rora \<Rightarrow> set_reg (word_rotr k rd + rs) sc
      | Vrol \<Rightarrow> set_reg (word_rotl (unat (rs AND 63)) rd XOR immw) sc
      | Vror \<Rightarrow> set_reg (word_rotr (unat (rs AND 63)) rd + immw) sc
      | Load \<Rightarrow> do { m \<leftarrow> get_at sc (word (addr_of rs (imm XOR C1))); set_reg (rd XOR m) sc }
      | Store \<Rightarrow> do {
          let w = word (addr_of rd (imm XOR C1));
          m \<leftarrow> get_at sc w; sc \<leftarrow> put_at sc w (m + rs); Some (r, sc) }
      | Rmw \<Rightarrow> do {
          let w = word (addr_of rs (imm XOR C1));
          m \<leftarrow> get_at sc w; let v = m + rd; sc \<leftarrow> put_at sc w v;
          m \<leftarrow> get_at sc (word (addr_of v C2)); set_reg (rd XOR m) sc }
      | Loadb \<Rightarrow> do { m \<leftarrow> get_at sc (word (addr_of rs (imm XOR C2))); set_reg (rd XOR m) sc }
      | Storeb \<Rightarrow> do {
          let w = word (addr_of rd (imm XOR C2));
          m \<leftarrow> get_at sc w; sc \<leftarrow> put_at sc w (m + rs); Some (r, sc) }
      | Rmwb \<Rightarrow> do {
          let w = word (addr_of rs (imm XOR C2));
          m \<leftarrow> get_at sc w; let v = m XOR rd; sc \<leftarrow> put_at sc w v;
          m \<leftarrow> get_at sc (word (addr_of v C1)); set_reg (rd + m) sc }
      | Mullo \<Rightarrow> set_reg (rd * (rs OR 1)) sc
      | Mulhi \<Rightarrow> (let t = (ucast rd :: u128) * ucast (rs OR 1) in set_reg (ucast (drop_bit 64 t) XOR immw) sc)
      | Aesr \<Rightarrow> do {
          let a = line_of rs (imm XOR C1);
          let w = word a; let w1 = unat (drop_bit 3 a OR 1);
          m0 \<leftarrow> get_at sc w; m1 \<leftarrow> get_at sc w1;
          let v = aesenc aes (m0, m1);
          sc \<leftarrow> put_at sc w (fst v); sc \<leftarrow> put_at sc w1 (snd v);
          m \<leftarrow> get_at sc w; set_reg (rd XOR m) sc })
   })"

definition loop_step :: "(line \<Rightarrow> line \<Rightarrow> line) \<Rightarrow> Program \<Rightarrow> nat \<Rightarrow> u64 list \<times> u64 list \<Rightarrow> (u64 list \<times> u64 list) option" where
  "loop_step aes prog lp = (\<lambda>s. do {
     (r, sc) \<leftarrow> for_each (exec_slot aes) prog s;
     r0 \<leftarrow> get_at r 0;
     Some (r[0 := r0 XOR word_of_nat lp], sc)
   })"

definition first_registers :: "u64 \<Rightarrow> u64 list" where
  "first_registers seed = map (\<lambda>i. seed * (2 * word_of_nat i + 1) + word_of_nat i) [0..<NREG]"

definition interp :: "(line \<Rightarrow> line \<Rightarrow> line) \<Rightarrow> Program \<Rightarrow> u64 list \<Rightarrow> u64 \<Rightarrow> (u64 \<times> u64 list) option" where
  "interp aes prog sc seed = do {
     (r, sc) \<leftarrow> for_each (loop_step aes prog) [0..<unat LOOPS] (first_registers seed, sc);
     Some (fold (\<lambda>v out. out XOR v) r 0, sc)
   }"

section \<open>Filling the scratch pad\<close>

definition LINES :: nat where "LINES = unat (SCRATCH_BYTES div 16)"
definition CHAINS :: nat where "CHAINS = 4"

definition chain_init :: "u64 \<Rightarrow> line list" where
  "chain_init seed = map (\<lambda>j. (seed XOR FILL_DOM, NOT seed XOR word_of_nat j)) [0..<CHAINS]"

definition fill_step :: "(line \<Rightarrow> line \<Rightarrow> line) \<Rightarrow> u64 \<Rightarrow> nat \<Rightarrow> u64 list \<times> line list \<Rightarrow> (u64 list \<times> line list) option" where
  "fill_step aes seed i = (\<lambda>(sc, a). do {
     let v0 = aesenc aes (aesenc aes (seed, word_of_nat i XOR FILL_DOM));
     let v1 = aesenc aes (aesenc aes (seed, word_of_nat (i + 1) XOR FILL_DOM));
     let v2 = aesenc aes (aesenc aes (seed, word_of_nat (i + 2) XOR FILL_DOM));
     let v3 = aesenc aes (aesenc aes (seed, word_of_nat (i + 3) XOR FILL_DOM));
     sc \<leftarrow> put_at sc (2 * i) (fst v0);
     sc \<leftarrow> put_at sc (2 * i + 1) (snd v0);
     sc \<leftarrow> put_at sc (2 * i + 2) (fst v1);
     sc \<leftarrow> put_at sc (2 * i + 3) (snd v1);
     sc \<leftarrow> put_at sc (2 * i + 4) (fst v2);
     sc \<leftarrow> put_at sc (2 * i + 5) (snd v2);
     sc \<leftarrow> put_at sc (2 * i + 6) (fst v3);
     sc \<leftarrow> put_at sc (2 * i + 7) (snd v3);
     a0 \<leftarrow> get_at a 0; a1 \<leftarrow> get_at a 1; a2 \<leftarrow> get_at a 2; a3 \<leftarrow> get_at a 3;
     Some (sc, [aes a0 v0, aes a1 v1, aes a2 v2, aes a3 v3])
   })"

definition fill :: "(line \<Rightarrow> line \<Rightarrow> line) \<Rightarrow> u64 list \<Rightarrow> u64 \<Rightarrow> (u64 \<times> u64 list) option" where
  "fill aes sc seed = do {
     (sc, a) \<leftarrow> for_each (fill_step aes seed) (map (\<lambda>n. CHAINS * n) [0..<LINES div CHAINS]) (sc, chain_init seed);
     a0 \<leftarrow> get_at a 0; a1 \<leftarrow> get_at a 1; a2 \<leftarrow> get_at a 2; a3 \<leftarrow> get_at a 3;
     let t = aes a0 a1;
     let t = aes t a2;
     let t = aes t a3;
     let t = aesenc aes (aesenc aes t);
     Some (fst t XOR snd t, sc)
   }"

text \<open>The reference: byte strings of sixteen bytes, one line at a time.\<close>

definition put64le :: "nat \<Rightarrow> u64 \<Rightarrow> bytes \<Rightarrow> bytes" where
  "put64le off v p = take off p @ to_le 8 v @ drop (off + 8) p"

definition ld64le :: "nat \<Rightarrow> bytes \<Rightarrow> u64" where
  "ld64le off p = from_le (take 8 (drop off p))"

definition ref_init :: "u64 \<Rightarrow> bytes list" where
  "ref_init seed = map (\<lambda>j. put64le 8 (NOT seed XOR word_of_nat j) (put64le 0 (seed XOR FILL_DOM) (replicate 16 0))) [0..<CHAINS]"

definition ref_step :: "(line \<Rightarrow> line \<Rightarrow> line) \<Rightarrow> u64 \<Rightarrow> nat \<Rightarrow> u64 list \<times> bytes list \<Rightarrow> (u64 list \<times> bytes list) option" where
  "ref_step aes seed i = (\<lambda>(sc, acc). do {
     let line = put64le 8 (word_of_nat i XOR FILL_DOM) (put64le 0 seed (replicate 16 0));
     let w = aesenc aes (aesenc aes (ld64le 0 line, ld64le 8 line));
     let line = put64le 8 (snd w) (put64le 0 (fst w) line);
     sc \<leftarrow> put_at sc (2 * i) (ld64le 0 line);
     sc \<leftarrow> put_at sc (2 * i + 1) (ld64le 8 line);
     a \<leftarrow> get_at acc (i mod CHAINS);
     let r = aes (ld64le 0 a, ld64le 8 a) (ld64le 0 line, ld64le 8 line);
     acc \<leftarrow> put_at acc (i mod CHAINS) (put64le 8 (snd r) (put64le 0 (fst r) a));
     Some (sc, acc)
   })"

definition fill_ref :: "(line \<Rightarrow> line \<Rightarrow> line) \<Rightarrow> u64 list \<Rightarrow> u64 \<Rightarrow> (u64 \<times> u64 list) option" where
  "fill_ref aes sc seed = do {
     (sc, acc) \<leftarrow> for_each (ref_step aes seed) [0..<LINES] (sc, ref_init seed);
     fin \<leftarrow> get_at acc 0;
     let fin = fold (\<lambda>a fin. let r = aes (ld64le 0 fin, ld64le 8 fin) (ld64le 0 a, ld64le 8 a)
        in put64le 8 (snd r) (put64le 0 (fst r) fin)) (tl acc) fin;
     let f = aesenc aes (aesenc aes (ld64le 0 fin, ld64le 8 fin));
     let fin = put64le 8 (snd f) (put64le 0 (fst f) fin);
     Some (ld64le 0 fin XOR ld64le 8 fin, sc)
   }"

section \<open>The scratch pad\<close>

definition ALIGN_BYTES :: nat where "ALIGN_BYTES = 65536"
definition ALIGN_WORDS :: nat where "ALIGN_WORDS = ALIGN_BYTES div 8"

record Scratch =
  sc_buf :: "u64 list"
  sc_off :: nat

text \<open>\<open>base\<close> is the address that the allocator has returned.\<close>

definition scratch_new :: "nat \<Rightarrow> Scratch option" where
  "scratch_new base =
     (let buf = replicate (SCRATCH_WORDS + ALIGN_WORDS) 0;
          pad_start = (base + (ALIGN_BYTES - 1)) div ALIGN_BYTES * ALIGN_BYTES
      in if 2 ^ 64 \<le> pad_start then None else Some \<lparr>sc_buf = buf, sc_off = (pad_start - base) div 8\<rparr>)"

definition scratch_words :: "Scratch \<Rightarrow> u64 list option" where
  "scratch_words s =
     (if sc_off s + SCRATCH_WORDS \<le> length (sc_buf s) then Some (take SCRATCH_WORDS (drop (sc_off s) (sc_buf s))) else None)"

definition scratch_set :: "Scratch \<Rightarrow> u64 list \<Rightarrow> Scratch" where
  "scratch_set s w = s\<lparr>sc_buf := take (sc_off s) (sc_buf s) @ w @ drop (sc_off s + SCRATCH_WORDS) (sc_buf s)\<rparr>"

definition scratch_checksum :: "Scratch \<Rightarrow> u64 option" where
  "scratch_checksum s = map_option (\<lambda>ws. fold (\<lambda>w h. (h XOR w) * MULT) ws 0) (scratch_words s)"

section \<open>The hash\<close>

datatype PowError = NoHardwareAes | PlatformHashMismatch u64 u64 u64

definition isochron_new :: "bool \<Rightarrow> PowError + unit" where
  "isochron_new detect = (if detect then Inr () else Inl NoHardwareAes)"

definition isochron_fill :: "(line \<Rightarrow> line \<Rightarrow> line) \<Rightarrow> Scratch \<Rightarrow> u64 \<Rightarrow> (u64 \<times> Scratch) option" where
  "isochron_fill aes pad seed = do { ws \<leftarrow> scratch_words pad; (h, ws) \<leftarrow> fill aes ws seed; Some (h, scratch_set pad ws) }"

definition isochron_fill_ref :: "(line \<Rightarrow> line \<Rightarrow> line) \<Rightarrow> Scratch \<Rightarrow> u64 \<Rightarrow> (u64 \<times> Scratch) option" where
  "isochron_fill_ref aes pad seed = do { ws \<leftarrow> scratch_words pad; (h, ws) \<leftarrow> fill_ref aes ws seed; Some (h, scratch_set pad ws) }"

definition isochron_interp :: "(line \<Rightarrow> line \<Rightarrow> line) \<Rightarrow> Program \<Rightarrow> Scratch \<Rightarrow> u64 \<Rightarrow> (u64 \<times> Scratch) option" where
  "isochron_interp aes prog pad seed = do { ws \<leftarrow> scratch_words pad; (h, ws) \<leftarrow> interp aes prog ws seed; Some (h, scratch_set pad ws) }"

definition verify_hash :: "(line \<Rightarrow> line \<Rightarrow> line) \<Rightarrow> Scratch \<Rightarrow> u64 \<Rightarrow> (u64 \<times> Scratch) option" where
  "verify_hash aes pad seed = do {
     (ps, pad) \<leftarrow> isochron_fill aes pad seed;
     prog \<leftarrow> build_program ps;
     isochron_interp aes prog pad seed
   }"

definition SELF_CHECK :: "(u64 \<times> u64) list" where
  "SELF_CHECK = [
     (0x243f6a8885a308d3, 0x9f5aa169a464943a), (0xc276e44204ed84e8, 0xf6babd7cf0d39924),
     (0x60ae5dfb843800fd, 0x3199a8a5476c7284), (0xfee5d7b503827d12, 0x26a75c2047c85663),
     (0xa1c4cd8eab96973e, 0xfea278ff5083daf7), (0xbd81aa4e50d4a1be, 0xd07387129035749d),
     (0xd93e870df612ac3e, 0xc3bcc13f9e36bc53), (0xf4fb63cd9b50b6be, 0x57cccb8afb5fb07f)]"

fun self_check_loop :: "(line \<Rightarrow> line \<Rightarrow> line) \<Rightarrow> (u64 \<times> u64) list \<Rightarrow> Scratch \<Rightarrow> (PowError + unit) option" where
  "self_check_loop aes [] pad = Some (Inr ())"
| "self_check_loop aes ((seed, expected) # rows) pad =
     (case verify_hash aes pad seed of
        None \<Rightarrow> None
      | Some (got, pad) \<Rightarrow>
          if got \<noteq> expected then Some (Inl (PlatformHashMismatch seed expected got)) else self_check_loop aes rows pad)"

definition platform_self_check :: "bool \<Rightarrow> (line \<Rightarrow> line \<Rightarrow> line) \<Rightarrow> nat \<Rightarrow> (PowError + unit) option" where
  "platform_self_check detect aes base =
     and_thenp (Some (isochron_new detect)) (\<lambda>_.
       case scratch_new base of None \<Rightarrow> None | Some pad \<Rightarrow> self_check_loop aes SELF_CHECK pad)"

end
