(* ===== verification/PowRuns.thy ===== *)
theory PowRuns imports PowFacts PowMachine begin

text \<open>
  The machine on well-formed programs: no index is out of range, the two ways of filling the scratch pad
  agree, and the hash is a function of the seed alone.
\<close>

section \<open>Addresses\<close>

lemma unat_drop_bit_3: "unat (drop_bit 3 a :: u64) = unat a div 8"
  by (simp add: drop_bit_eq_div unat_div)

lemma addr_in_range: "unat (drop_bit 3 (addr_of v k)) < SCRATCH_WORDS"
proof -
  have "addr_of v k \<le> SCRATCH_MASK" unfolding addr_of_def by (rule word_and_le1)
  then have "unat (addr_of v k) \<le> 65528" by (simp add: word_le_nat_alt SCRATCH_MASK_def SCRATCH_BYTES_def)
  then show ?thesis by (simp add: unat_drop_bit_3 SCRATCH_WORDS_def SCRATCH_BYTES_def)
qed

lemma line_in_range:
  "unat (drop_bit 3 (line_of v k)) < SCRATCH_WORDS" "unat (drop_bit 3 (line_of v k) OR 1) < SCRATCH_WORDS"
proof -
  have "line_of v k \<le> LINE_MASK" unfolding line_of_def by (rule word_and_le1)
  then have l: "unat (line_of v k) \<le> 65520" by (simp add: word_le_nat_alt LINE_MASK_def SCRATCH_BYTES_def)
  then show "unat (drop_bit 3 (line_of v k)) < SCRATCH_WORDS" by (simp add: unat_drop_bit_3 SCRATCH_WORDS_def SCRATCH_BYTES_def)
  have small: "take_bit 13 (unat (drop_bit 3 (line_of v k))) = unat (drop_bit 3 (line_of v k))"
    using l by (simp add: take_bit_nat_eq_self_iff unat_drop_bit_3)
  have "unat (drop_bit 3 (line_of v k) OR 1) = unat (drop_bit 3 (line_of v k)) OR 1" by (simp add: unsigned_or_eq)
  moreover have "take_bit 13 (unat (drop_bit 3 (line_of v k)) OR 1) = unat (drop_bit 3 (line_of v k)) OR 1"
    by (simp only: take_bit_or small) simp
  ultimately have "unat (drop_bit 3 (line_of v k) OR 1) < 2 ^ 13" by (simp only: take_bit_nat_eq_self_iff)
  then show "unat (drop_bit 3 (line_of v k) OR 1) < SCRATCH_WORDS" by (simp add: SCRATCH_WORDS_def SCRATCH_BYTES_def)
qed

section \<open>Running a program\<close>

definition machine_ok :: "u64 list \<times> u64 list \<Rightarrow> bool" where
  "machine_ok s \<longleftrightarrow> length (fst s) = NREG \<and> length (snd s) = SCRATCH_WORDS"

lemma exec_slot_ok:
  assumes "machine_ok s" "slot_ok x"
  shows "\<exists>s'. exec_slot aes x s = Some s' \<and> machine_ok s'"
proof -
  obtain r sc where s: "s = (r, sc)" by (cases s)
  have len: "length r = NREG" "length sc = SCRATCH_WORDS" using assms(1) by (simp_all add: machine_ok_def s)
  have regs: "unat (in_d x) < NREG" "unat (in_s x) < NREG" using assms(2) by (simp_all add: slot_ok_def)
  note simps = s exec_slot_def Let_def regs addr_in_range line_in_range machine_ok_def len
  show ?thesis by (cases "in_op x") (simp_all add: simps)
qed

lemma exec_slots_ok:
  assumes "machine_ok s" "\<forall>x \<in> set prog. slot_ok x"
  shows "\<exists>s'. for_each (exec_slot aes) prog s = Some s' \<and> machine_ok s'"
  using assms
proof (induction prog arbitrary: s)
  case (Cons x prog)
  obtain s1 where "exec_slot aes x s = Some s1" "machine_ok s1" using exec_slot_ok [OF Cons.prems(1), of x aes] Cons.prems(2) by auto
  then show ?case using Cons.IH [of s1] Cons.prems(2) by simp
qed simp

lemma interp_ok:
  assumes "length sc = SCRATCH_WORDS" "\<forall>x \<in> set prog. slot_ok x"
  shows "\<exists>h sc'. interp aes prog sc seed = Some (h, sc') \<and> length sc' = SCRATCH_WORDS"
proof -
  have step: "\<exists>s'. loop_step aes prog lp s = Some s' \<and> machine_ok s'" if ok: "machine_ok s" for lp s
  proof -
    obtain r sc where "for_each (exec_slot aes) prog s = Some (r, sc)" "machine_ok (r, sc)"
      using exec_slots_ok [OF ok assms(2), of aes] by (metis prod.exhaust)
    then show ?thesis by (simp add: loop_step_def machine_ok_def NREG_def)
  qed
  have "\<exists>s'. for_each (loop_step aes prog) [0..<unat LOOPS] (first_registers seed, sc) = Some s' \<and> machine_ok s'"
    by (rule for_each_range [where P = "\<lambda>_. machine_ok"]) (use step assms(1) in \<open>simp_all add: machine_ok_def first_registers_def\<close>)
  then show ?thesis by (auto simp: interp_def machine_ok_def)
qed

section \<open>Filling\<close>

definition line_at :: "(line \<Rightarrow> line \<Rightarrow> line) \<Rightarrow> u64 \<Rightarrow> nat \<Rightarrow> line" where
  "line_at aes seed i = aesenc aes (aesenc aes (seed, word_of_nat i XOR FILL_DOM))"

definition write_line :: "(line \<Rightarrow> line \<Rightarrow> line) \<Rightarrow> u64 \<Rightarrow> nat \<Rightarrow> u64 list \<times> line list \<Rightarrow> u64 list \<times> line list" where
  "write_line aes seed i = (\<lambda>(sc, a). let v = line_at aes seed i in
     (sc[2 * i := fst v, 2 * i + 1 := snd v], a[i mod 4 := aes (a ! (i mod 4)) v]))"

definition pack :: "line \<Rightarrow> bytes" where
  "pack p = to_le 8 (fst p) @ to_le 8 (snd p)"

lemma pack_simps [simp]:
  "ld64le 0 (pack p) = fst p" "ld64le 8 (pack p) = snd p" "length (pack p) = 16"
  "length q = 16 \<Longrightarrow> put64le 8 y (put64le 0 x q) = pack (x, y)"
  by (simp_all add: ld64le_def put64le_def pack_def)

lemma write_line_length [simp]:
  "length (fst (write_line aes seed i s)) = length (fst s)" "length (snd (write_line aes seed i s)) = length (snd s)"
  by (simp_all add: write_line_def Let_def split: prod.split)

lemma write_lines_length [simp]:
  "length (fst (fold (write_line aes seed) is s)) = length (fst s)" "length (snd (fold (write_line aes seed) is s)) = length (snd s)"
  by (induction "is" arbitrary: s) simp_all

lemma ref_step_eq:
  assumes "length a = 4" "2 * i + 1 < length sc"
  shows "ref_step aes seed i (sc, map pack a) = Some (let (sc, a) = write_line aes seed i (sc, a) in (sc, map pack a))"
  using assms by (simp add: ref_step_def write_line_def Let_def line_at_def CHAINS_def map_update)

lemma write_line_at:
  assumes "i mod 4 = 0" "c < 4"
  shows "write_line aes seed (i + c) (sc, a) = (sc[2 * i + 2 * c := fst (line_at aes seed (i + c)),
    2 * i + (2 * c + 1) := snd (line_at aes seed (i + c))], a[c := aes (a ! c) (line_at aes seed (i + c))])"
proof -
  have "(i + c) mod 4 = c" using assms by presburger
  then show ?thesis by (simp add: write_line_def Let_def)
qed

lemma fill_step_eq:
  assumes "length a = 4" "2 * i + 7 < length sc" "i mod 4 = 0"
  shows "fill_step aes seed i (sc, a) = Some (fold (write_line aes seed) [i, i + 1, i + 2, i + 3] (sc, a))"
proof -
  obtain a0 a1 a2 a3 where a: "a = [a0, a1, a2, a3]" using assms(1) by (auto simp: numeral_eq_Suc length_Suc_conv)
  let ?L = "\<lambda>c. line_at aes seed (i + c)"
  have w: "write_line aes seed (i + 0) (sc, b) = (sc[2 * i := fst (?L 0), 2 * i + 1 := snd (?L 0)], b[0 := aes (b ! 0) (?L 0)])"
    "write_line aes seed (i + 1) (sc, b) = (sc[2 * i + 2 := fst (?L 1), 2 * i + 3 := snd (?L 1)], b[1 := aes (b ! 1) (?L 1)])"
    "write_line aes seed (i + 2) (sc, b) = (sc[2 * i + 4 := fst (?L 2), 2 * i + 5 := snd (?L 2)], b[2 := aes (b ! 2) (?L 2)])"
    "write_line aes seed (i + 3) (sc, b) = (sc[2 * i + 6 := fst (?L 3), 2 * i + 7 := snd (?L 3)], b[3 := aes (b ! 3) (?L 3)])"
    for sc b
    using write_line_at [OF assms(3), of 0 aes seed sc b] write_line_at [OF assms(3), of 1 aes seed sc b]
      write_line_at [OF assms(3), of 2 aes seed sc b] write_line_at [OF assms(3), of 3 aes seed sc b] by (simp_all add: eval_nat_numeral)
  have "fold (write_line aes seed) [i, i + 1, i + 2, i + 3] (sc, a) =
      write_line aes seed (i + 3) (write_line aes seed (i + 2) (write_line aes seed (i + 1) (write_line aes seed (i + 0) (sc, a))))"
    by simp
  also have "\<dots> = (sc[2 * i := fst (?L 0), 2 * i + 1 := snd (?L 0), 2 * i + 2 := fst (?L 1), 2 * i + 3 := snd (?L 1),
      2 * i + 4 := fst (?L 2), 2 * i + 5 := snd (?L 2), 2 * i + 6 := fst (?L 3), 2 * i + 7 := snd (?L 3)],
      [aes a0 (?L 0), aes a1 (?L 1), aes a2 (?L 2), aes a3 (?L 3)])"
    by (simp only: w a) simp
  finally have g: "fold (write_line aes seed) [i, i + 1, i + 2, i + 3] (sc, a) = \<dots>" .
  have "fill_step aes seed i (sc, a) = Some (sc[2 * i := fst (?L 0), 2 * i + 1 := snd (?L 0), 2 * i + 2 := fst (?L 1), 2 * i + 3 := snd (?L 1),
      2 * i + 4 := fst (?L 2), 2 * i + 5 := snd (?L 2), 2 * i + 6 := fst (?L 3), 2 * i + 7 := snd (?L 3)],
      [aes a0 (?L 0), aes a1 (?L 1), aes a2 (?L 2), aes a3 (?L 3)])"
    using assms(2) by (simp add: fill_step_def Let_def line_at_def a)
  then show ?thesis unfolding g .
qed

lemma ref_loop_eq:
  assumes "length a = 4" "2 * m \<le> length sc"
  shows "for_each (ref_step aes seed) [0..<m] (sc, map pack a) =
    Some (let (sc, a) = fold (write_line aes seed) [0..<m] (sc, a) in (sc, map pack a))"
  using assms(2)
proof (induction m)
  case (Suc m)
  obtain sc' a' where s: "fold (write_line aes seed) [0..<m] (sc, a) = (sc', a')" by (cases "fold (write_line aes seed) [0..<m] (sc, a)")
  have "length a' = 4" "2 * m + 1 < length sc'"
    using write_lines_length [of aes seed "[0..<m]" "(sc, a)"] s assms(1) Suc.prems by simp_all
  from ref_step_eq [OF this, of aes seed] show ?case using Suc s by (simp add: for_each_append)
qed simp

lemma fill_loop_eq:
  assumes "length a = 4" "8 * m \<le> length sc"
  shows "for_each (fill_step aes seed) (map (\<lambda>n. CHAINS * n) [0..<m]) (sc, a) = Some (fold (write_line aes seed) [0..<4 * m] (sc, a))"
  using assms(2)
proof (induction m)
  case (Suc m)
  obtain sc' a' where s: "fold (write_line aes seed) [0..<4 * m] (sc, a) = (sc', a')" by (cases "fold (write_line aes seed) [0..<4 * m] (sc, a)")
  have "length a' = 4" "2 * (4 * m) + 7 < length sc'"
    using write_lines_length [of aes seed "[0..<4 * m]" "(sc, a)"] s assms(1) Suc.prems by simp_all
  note step = fill_step_eq [OF this, of aes seed]
  have "[0..<4 * Suc m] = [0..<4 * m] @ [4 * m, 4 * m + 1, 4 * m + 2, 4 * m + 3]" by (simp add: numeral_eq_Suc)
  then show ?case using Suc s step by (simp add: for_each_append CHAINS_def)
qed simp

section \<open>The two ways to fill\<close>

lemma length_chain_init: "length (chain_init seed) = 4"
  by (simp add: chain_init_def CHAINS_def)

lemma ref_init_eq: "ref_init seed = map pack (chain_init seed)"
  by (simp add: ref_init_def chain_init_def)

lemma LINES_eq: "LINES = 4096"
  by (simp add: LINES_def SCRATCH_BYTES_def)

lemma WORDS_eq: "SCRATCH_WORDS = 8192"
  by (simp add: SCRATCH_WORDS_def SCRATCH_BYTES_def)

lemma filled:
  assumes "length sc = SCRATCH_WORDS"
  obtains sc' a0 a1 a2 a3 where "fold (write_line aes seed) [0..<LINES] (sc, chain_init seed) = (sc', [a0, a1, a2, a3])"
    "length sc' = SCRATCH_WORDS"
proof -
  obtain sc' a where f: "fold (write_line aes seed) [0..<LINES] (sc, chain_init seed) = (sc', a)"
    by (cases "fold (write_line aes seed) [0..<LINES] (sc, chain_init seed)")
  then have "length sc' = SCRATCH_WORDS" "length a = 4"
    using write_lines_length [of aes seed "[0..<LINES]" "(sc, chain_init seed)"] assms length_chain_init by simp_all
  moreover obtain a0 a1 a2 a3 where "a = [a0, a1, a2, a3]" using calculation(2) by (auto simp: numeral_eq_Suc length_Suc_conv)
  ultimately show thesis using f that by blast
qed

lemma fill_agrees:
  assumes "length sc = SCRATCH_WORDS"
  shows "fill aes sc seed = fill_ref aes sc seed \<and> fill aes sc seed \<noteq> None"
proof -
  obtain sc' a0 a1 a2 a3 where f: "fold (write_line aes seed) [0..<LINES] (sc, chain_init seed) = (sc', [a0, a1, a2, a3])"
    using filled [OF assms] by metis
  have l: "4 * (LINES div CHAINS) = LINES" "8 * (LINES div CHAINS) \<le> length sc" "2 * LINES \<le> length sc"
    using assms by (simp_all add: LINES_eq CHAINS_def WORDS_eq)
  have "for_each (fill_step aes seed) (map (\<lambda>n. CHAINS * n) [0..<LINES div CHAINS]) (sc, chain_init seed) = Some (sc', [a0, a1, a2, a3])"
    unfolding fill_loop_eq [OF length_chain_init l(2)] l(1) f ..
  moreover have "for_each (ref_step aes seed) [0..<LINES] (sc, ref_init seed) = Some (sc', map pack [a0, a1, a2, a3])"
    unfolding ref_init_eq ref_loop_eq [OF length_chain_init l(3)] f by simp
  ultimately show ?thesis by (simp add: fill_def fill_ref_def Let_def)
qed

text \<open>C33: The reference that fills the scratch pad one line at a time through byte strings and the routine
  that keeps four chains of words and writes four lines at once compute the same hash and the same pad, for
  every AES round, seed and pad.
\<close>

theorem fill_matches_reference:
  assumes "length sc = SCRATCH_WORDS"
  shows "fill aes sc seed = fill_ref aes sc seed \<and> fill aes sc seed \<noteq> None"
  by (rule fill_agrees [OF assms])

theorem fill_matches_reference_witness:
  "fill (\<lambda>st k. (fst st XOR snd k, snd st + fst k)) (replicate SCRATCH_WORDS 5) 7 =
     fill_ref (\<lambda>st k. (fst st XOR snd k, snd st + fst k)) (replicate SCRATCH_WORDS 5) 7 \<and>
   fill (\<lambda>st k. (fst st XOR snd k, snd st + fst k)) (replicate SCRATCH_WORDS 5) 7 \<noteq> None"
  by (rule fill_matches_reference) simp

section \<open>The hash of a seed\<close>

text \<open>Every word of the pad is overwritten.\<close>

lemma write_lines_forget:
  assumes "length sc1 = length sc2" "2 * m \<le> length sc1"
  shows "snd (fold (write_line aes seed) [0..<m] (sc1, a)) = snd (fold (write_line aes seed) [0..<m] (sc2, a)) \<and>
    take (2 * m) (fst (fold (write_line aes seed) [0..<m] (sc1, a))) = take (2 * m) (fst (fold (write_line aes seed) [0..<m] (sc2, a)))"
  using assms(2)
proof (induction m)
  case (Suc m)
  obtain s1 b1 where 1: "fold (write_line aes seed) [0..<m] (sc1, a) = (s1, b1)" by (cases "fold (write_line aes seed) [0..<m] (sc1, a)")
  obtain s2 b2 where 2: "fold (write_line aes seed) [0..<m] (sc2, a) = (s2, b2)" by (cases "fold (write_line aes seed) [0..<m] (sc2, a)")
  have len: "length s1 = length sc1" "length s2 = length sc1"
    using write_lines_length(1) [of aes seed "[0..<m]" "(sc1, a)"] write_lines_length(1) [of aes seed "[0..<m]" "(sc2, a)"] 1 2 assms(1) by simp_all
  have IH: "b1 = b2" "take (2 * m) s1 = take (2 * m) s2" using Suc 1 2 by simp_all
  have two: "take (2 * Suc m) (s[2 * m := x, 2 * m + 1 := y]) = take (2 * m) s @ [x, y]" if "2 * Suc m \<le> length s" for s and x y :: u64
  proof -
    have e: "2 * Suc m = Suc (Suc (2 * m))" and l: "length (take (2 * m) s) = 2 * m" using that by simp_all
    have "take (2 * Suc m) s = take (2 * m) s @ [s ! (2 * m), s ! Suc (2 * m)]"
      using that unfolding e by (simp add: take_Suc_conv_app_nth)
    moreover have "take (2 * Suc m) (s[2 * m := x, 2 * m + 1 := y]) = (take (2 * Suc m) s)[2 * m := x, 2 * m + 1 := y]"
      by (simp add: take_update_swap)
    ultimately show ?thesis using l by (simp add: list_update_append)
  qed
  have w: "write_line aes seed m (s, b) = (s[2 * m := fst (line_at aes seed m), 2 * m + 1 := snd (line_at aes seed m)],
      b[m mod 4 := aes (b ! (m mod 4)) (line_at aes seed m)])" for s b by (simp add: write_line_def Let_def)
  have "fold (write_line aes seed) [0..<Suc m] (sc1, a) = write_line aes seed m (s1, b1)"
    "fold (write_line aes seed) [0..<Suc m] (sc2, a) = write_line aes seed m (s2, b1)" using 1 2 IH(1) by simp_all
  then show ?case unfolding w using two [of s1] two [of s2] IH(2) len Suc.prems by simp
qed simp

definition scratch_ok :: "Scratch \<Rightarrow> bool" where
  "scratch_ok s \<longleftrightarrow> sc_off s + SCRATCH_WORDS \<le> length (sc_buf s)"

lemma scratch_set_ok:
  assumes "scratch_ok s" "length w = SCRATCH_WORDS"
  shows "scratch_ok (scratch_set s w)" "scratch_words (scratch_set s w) = Some w"
  using assms by (simp_all add: scratch_ok_def scratch_set_def scratch_words_def)

lemma fill_forgets:
  obtains h ws where "length ws = SCRATCH_WORDS" "\<And>sc. length sc = SCRATCH_WORDS \<Longrightarrow> fill aes sc seed = Some (h, ws)"
proof -
  let ?sc = "replicate SCRATCH_WORDS 0"
  obtain r where r: "fill aes ?sc seed = Some r" using fill_agrees [of ?sc aes seed] by fastforce
  obtain h ws where f: "fill aes ?sc seed = Some (h, ws)" using r by (cases r) simp
  have l: "4 * (LINES div CHAINS) = LINES" "8 * (LINES div CHAINS) \<le> SCRATCH_WORDS" "2 * LINES = SCRATCH_WORDS"
    by (simp_all add: LINES_eq CHAINS_def WORDS_eq)
  have same: "fold (write_line aes seed) [0..<LINES] (sc, chain_init seed) = fold (write_line aes seed) [0..<LINES] (?sc, chain_init seed)"
    if "length sc = SCRATCH_WORDS" for sc
    using write_lines_forget [of sc ?sc LINES aes seed "chain_init seed"] that write_lines_length(1) [of aes seed "[0..<LINES]"]
    by (intro prod_eqI) (simp_all add: l(3))
  have "fill aes sc seed = fill aes ?sc seed" if "length sc = SCRATCH_WORDS" for sc
    using that l same [OF that] unfolding fill_def by (simp add: fill_loop_eq [OF length_chain_init] l(1))
  moreover have "length ws = SCRATCH_WORDS"
  proof -
    obtain sc' a0 a1 a2 a3 where "fold (write_line aes seed) [0..<LINES] (?sc, chain_init seed) = (sc', [a0, a1, a2, a3])" "length sc' = SCRATCH_WORDS"
      using filled [of ?sc aes seed] by (metis length_replicate)
    then show ?thesis using f l by (auto simp: fill_def fill_loop_eq [OF length_chain_init] Let_def)
  qed
  ultimately show thesis using that [of ws h] f by simp
qed

text \<open>C31: The hash is a function of the seed. For every AES round the verification of a seed runs to its end on
  any scratch pad, without an index out of range in the generator, the filling or the 1024 rounds of the
  program, and its result does not depend on what an earlier use has left on the pad.
\<close>

theorem hash_depends_on_seed:
  "\<exists>d. \<forall>pad. scratch_ok pad \<longrightarrow> (\<exists>pad'. verify_hash aes pad seed = Some (d, pad') \<and> scratch_ok pad')"
proof -
  obtain h ws where F: "length ws = SCRATCH_WORDS" "\<And>sc. length sc = SCRATCH_WORDS \<Longrightarrow> fill aes sc seed = Some (h, ws)"
    by (rule fill_forgets [of aes seed]) (rule that)
  obtain prog where P: "build_program h = Some prog" "\<forall>x \<in> set prog. slot_ok x" using build_program_ok by blast
  obtain d ws' where I: "interp aes prog ws seed = Some (d, ws')" "length ws' = SCRATCH_WORDS" using interp_ok [OF F(1) P(2)] by blast
  have "verify_hash aes pad seed = Some (d, scratch_set (scratch_set pad ws) ws')" if pad: "scratch_ok pad" for pad
  proof -
    let ?w = "take SCRATCH_WORDS (drop (sc_off pad) (sc_buf pad))"
    have "scratch_words pad = Some ?w" "length ?w = SCRATCH_WORDS" using pad by (simp_all add: scratch_words_def scratch_ok_def)
    then show ?thesis using F(2) P(1) I(1) scratch_set_ok(2) [OF pad F(1)]
      by (simp add: verify_hash_def isochron_fill_def isochron_interp_def)
  qed
  moreover have "scratch_ok (scratch_set (scratch_set pad ws) ws')" if "scratch_ok pad" for pad
    using scratch_set_ok(1) [OF scratch_set_ok(1) [OF that F(1)] I(2)] .
  ultimately show ?thesis by blast
qed

theorem hash_depends_on_seed_witness:
  "\<exists>d pad'. verify_hash (\<lambda>st k. (fst st XOR snd k, snd st + fst k)) \<lparr>sc_buf = replicate 8200 9, sc_off = 3\<rparr> 7 = Some (d, pad')"
proof -
  have "scratch_ok \<lparr>sc_buf = replicate 8200 9, sc_off = 3\<rparr>" by (simp add: scratch_ok_def WORDS_eq)
  then show ?thesis using hash_depends_on_seed [of "\<lambda>st k. (fst st XOR snd k, snd st + fst k)" 7] by blast
qed

text \<open>A new pad fits its allocation and starts on a multiple of 65536 bytes when the allocation is aligned to a word.\<close>

lemma scratch_new_aligned:
  assumes "scratch_new base = Some s" "base mod 8 = 0"
  shows "scratch_ok s" "(base + 8 * sc_off s) mod ALIGN_BYTES = 0" "scratch_words s = Some (replicate SCRATCH_WORDS 0)"
proof -
  let ?q = "(base + (ALIGN_BYTES - 1)) div ALIGN_BYTES * ALIGN_BYTES"
  have s: "sc_off s = (?q - base) div 8" "sc_buf s = replicate (SCRATCH_WORDS + ALIGN_WORDS) 0"
    using assms(1) by (auto simp: scratch_new_def Let_def split: if_splits)
  let ?b = "base + (ALIGN_BYTES - 1)"
  have q: "base \<le> ?q" "?q < base + ALIGN_BYTES"
    using div_mult_mod_eq [of ?b ALIGN_BYTES] mod_less_divisor [of ALIGN_BYTES ?b] by (simp_all add: ALIGN_BYTES_def)
  obtain y where y: "base = 8 * y" using assms(2) by (metis mult_div_mod_eq add.right_neutral)
  have "?q - base = 8 * (8192 * (?b div ALIGN_BYTES) - y)" unfolding diff_mult_distrib2 by (simp add: y ALIGN_BYTES_def)
  then have e: "8 * sc_off s = ?q - base" unfolding s(1) by simp
  then show "(base + 8 * sc_off s) mod ALIGN_BYTES = 0" using q(1) by simp
  have "sc_off s \<le> ALIGN_WORDS" using e q by (simp add: ALIGN_WORDS_def ALIGN_BYTES_def)
  then show "scratch_ok s" "scratch_words s = Some (replicate SCRATCH_WORDS 0)"
    by (simp_all add: scratch_ok_def scratch_words_def s(2) min_def)
qed

end
