(* ===== verification/Bech32.thy ===== *)
theory Bech32 imports Hex begin

text \<open>
  \<open>lib/consensus/src/bech32m.rs\<close>: the text form of byte strings with a human-readable part and a
  checksum of six characters. Strings are their UTF-8 bytes, as the source reads them. The lemmas
  show that regrouping eight bits to five is undone exactly by the strict reader, that the reader
  accepts exactly the strings of the writer, in one case of letters, and that any damage inside
  six neighbouring characters is noticed.
\<close>

definition CHARSET :: bytes where
  "CHARSET = [113, 112, 122, 114, 121, 57, 120, 56, 103, 102, 50, 116, 118, 100, 119, 48,
     115, 51, 106, 110, 53, 52, 107, 104, 99, 101, 54, 109, 117, 97, 55, 108]"

definition GEN :: "u32 list" where
  "GEN = [0x3b6a57b2, 0x26508e6d, 0x1ea119fa, 0x3d4233dd, 0x2a1462b3]"

definition BECH32M_CONST :: u32 where "BECH32M_CONST = 0x2bc830a3"

definition MAX_STRING_LEN :: nat where "MAX_STRING_LEN = 90"
definition MAX_HRP_LEN :: nat where "MAX_HRP_LEN = 83"
definition CHECKSUM_CHARS :: nat where "CHECKSUM_CHARS = 6"

datatype Bech32Error =
    TooLong nat | TooShort | MixedCase | NoSeparator | EmptyHrp | HrpTooLong nat
  | HrpChar nat u8 | DataChar nat u8 | BadChecksum | Padding

section \<open>The checksum\<close>

definition gen_step :: "u32 \<Rightarrow> nat \<times> u32 \<Rightarrow> u32 \<Rightarrow> u32" where
  "gen_step hi ig chk = (if drop_bit (fst ig) hi AND 1 = 1 then chk XOR snd ig else chk)"

definition poly_step :: "u32 \<Rightarrow> u8 \<Rightarrow> u32" where
  "poly_step chk v =
     (let hi = drop_bit 25 chk;
          chk = push_bit 5 (chk AND 0x1ffffff) XOR ucast v
      in fold (gen_step hi) (enumerate 0 GEN) chk)"

definition polymod :: "bytes \<Rightarrow> u32" where
  "polymod vals = foldl poly_step 1 vals"

definition hrp_expand :: "bytes \<Rightarrow> bytes" where
  "hrp_expand hrp = map (drop_bit 5) hrp @ [0] @ map (\<lambda>c. c AND 31) hrp"

section \<open>Regrouping bits\<close>

text \<open>The counters of bits stay below 16, so that they are natural numbers here; the shifts of the
  32-bit accumulator drop what leaves it, as \<open>push_bit\<close> does.\<close>

fun emit5 :: "u32 \<Rightarrow> nat \<Rightarrow> bytes \<Rightarrow> nat \<times> bytes" where
  "emit5 acc bits out =
     (if 5 \<le> bits then emit5 acc (bits - 5) (out @ [ucast (drop_bit (bits - 5) acc AND 31)])
      else (bits, out))"

fun emit8 :: "u32 \<Rightarrow> nat \<Rightarrow> bytes \<Rightarrow> nat \<times> bytes" where
  "emit8 acc bits out =
     (if 8 \<le> bits then emit8 acc (bits - 8) (out @ [ucast (drop_bit (bits - 8) acc AND 0xff)])
      else (bits, out))"

declare emit5.simps [simp del] emit8.simps [simp del]

fun to5_loop :: "bytes \<Rightarrow> u32 \<Rightarrow> nat \<Rightarrow> bytes \<Rightarrow> u32 \<times> nat \<times> bytes" where
  "to5_loop [] acc bits out = (acc, bits, out)"
| "to5_loop (b # bs) acc bits out =
     (let acc = push_bit 8 acc OR ucast b;
          (bits, out) = emit5 acc (bits + 8) out
      in to5_loop bs acc bits out)"

definition convert_8_to_5 :: "bytes \<Rightarrow> bytes" where
  "convert_8_to_5 data =
     (let (acc, bits, out) = to5_loop data 0 0 []
      in if 0 < bits then out @ [ucast (push_bit (5 - bits) acc AND 31)] else out)"

fun to8_loop :: "nat \<Rightarrow> bytes \<Rightarrow> u32 \<Rightarrow> nat \<Rightarrow> bytes \<Rightarrow> Bech32Error + u32 \<times> nat \<times> bytes" where
  "to8_loop index [] acc bits out = Inr (acc, bits, out)"
| "to8_loop index (v # vs) acc bits out =
     (if drop_bit 5 v \<noteq> 0 then Inl (DataChar index v)
      else let acc = push_bit 5 acc OR ucast v;
               (bits, out) = emit8 acc (bits + 5) out
           in to8_loop (index + 1) vs acc bits out)"

definition convert_5_to_8 :: "bytes \<Rightarrow> Bech32Error + bytes" where
  "convert_5_to_8 data =
     and_then (to8_loop 0 data 0 0 []) (\<lambda>(acc, bits, out).
       if 5 \<le> bits \<or> push_bit (8 - bits) acc AND 0xff \<noteq> 0 then Inl Padding else Inr out)"

section \<open>Writing\<close>

text \<open>\<open>is_ascii_uppercase\<close>, \<open>is_ascii_lowercase\<close> and the printable range \<open>33..=126\<close>.\<close>

definition ascii_upper_case :: "u8 \<Rightarrow> bool" where "ascii_upper_case b \<longleftrightarrow> 65 \<le> b \<and> b \<le> 90"
definition ascii_lower_case :: "u8 \<Rightarrow> bool" where "ascii_lower_case b \<longleftrightarrow> 97 \<le> b \<and> b \<le> 122"
definition printable :: "u8 \<Rightarrow> bool" where "printable b \<longleftrightarrow> 33 \<le> b \<and> b \<le> 126"

fun check_hrp :: "nat \<Rightarrow> bytes \<Rightarrow> Bech32Error + unit" where
  "check_hrp index [] = Inr ()"
| "check_hrp index (b # bs) =
     (if \<not> printable b \<or> ascii_upper_case b then Inl (HrpChar index b) else check_hrp (index + 1) bs)"

fun check_data5 :: "nat \<Rightarrow> bytes \<Rightarrow> Bech32Error + unit" where
  "check_data5 index [] = Inr ()"
| "check_data5 index (v # vs) =
     (if drop_bit 5 v \<noteq> 0 then Inl (DataChar index v) else check_data5 (index + 1) vs)"

definition checksum_digit :: "u32 \<Rightarrow> nat \<Rightarrow> nat" where
  "checksum_digit pm i = unat (drop_bit (5 * (5 - i)) pm AND 31)"

definition encode_fes_with_const :: "bytes \<Rightarrow> bytes \<Rightarrow> u32 \<Rightarrow> Bech32Error + bytes" where
  "encode_fes_with_const hrp data5 konst =
     (if hrp = [] then Inl EmptyHrp
      else if MAX_HRP_LEN < length hrp then Inl (HrpTooLong (length hrp))
      else and_then (check_hrp 0 hrp) (\<lambda>_.
           and_then (check_data5 0 data5) (\<lambda>_.
           let total = length hrp + 1 + length data5 + CHECKSUM_CHARS in
           if MAX_STRING_LEN < total then Inl (TooLong total)
           else
             let pm = polymod (hrp_expand hrp @ data5 @ replicate CHECKSUM_CHARS 0) XOR konst
             in Inr (hrp @ [49] @ map (\<lambda>v. CHARSET ! unat v) data5
                  @ map (\<lambda>i. CHARSET ! checksum_digit pm i) [0..<CHECKSUM_CHARS]))))"

definition encode_fes :: "bytes \<Rightarrow> bytes \<Rightarrow> Bech32Error + bytes" where
  "encode_fes hrp data5 = encode_fes_with_const hrp data5 BECH32M_CONST"

definition encode_bytes :: "bytes \<Rightarrow> bytes \<Rightarrow> Bech32Error + bytes" where
  "encode_bytes hrp data = encode_fes hrp (convert_8_to_5 data)"

section \<open>Reading\<close>

fun scan_case :: "nat \<Rightarrow> bytes \<Rightarrow> bool \<Rightarrow> bool \<Rightarrow> Bech32Error + bool \<times> bool" where
  "scan_case index [] has_lower has_upper = Inr (has_lower, has_upper)"
| "scan_case index (b # bs) has_lower has_upper =
     (if \<not> printable b then Inl (HrpChar index b)
      else scan_case (index + 1) bs (has_lower \<or> ascii_lower_case b) (has_upper \<or> ascii_upper_case b))"

text \<open>\<open>str::rfind\<close> of one ASCII character, and \<open>Iterator::position\<close>.\<close>

fun rfind :: "u8 \<Rightarrow> bytes \<Rightarrow> nat option" where
  "rfind c [] = None"
| "rfind c (b # bs) =
     (case rfind c bs of Some i \<Rightarrow> Some (Suc i) | None \<Rightarrow> if b = c then Some 0 else None)"

fun char_pos :: "u8 \<Rightarrow> bytes \<Rightarrow> nat option" where
  "char_pos c [] = None"
| "char_pos c (b # bs) = (if b = c then Some 0 else map_option Suc (char_pos c bs))"

text \<open>The loop over the characters after the separator; \<open>base\<close> is \<open>pos + 1\<close>.\<close>

fun read_data5 :: "nat \<Rightarrow> nat \<Rightarrow> bytes \<Rightarrow> Bech32Error + bytes" where
  "read_data5 base offset [] = Inr []"
| "read_data5 base offset (b # bs) =
     and_then (ok_or (DataChar (base + offset) b) (char_pos b CHARSET)) (\<lambda>idx.
     and_then (read_data5 base (offset + 1) bs) (\<lambda>vs. Inr (word_of_nat idx # vs)))"

definition decode_fes :: "bytes \<Rightarrow> Bech32Error + bytes \<times> bytes" where
  "decode_fes s =
     (if MAX_STRING_LEN < length s then Inl (TooLong (length s))
      else and_then (scan_case 0 s False False) (\<lambda>(has_lower, has_upper).
        if has_lower \<and> has_upper then Inl MixedCase
        else
          let lowered = map ascii_lower s in
          and_then (ok_or NoSeparator (rfind 49 lowered)) (\<lambda>pos.
            if pos = 0 then Inl EmptyHrp
            else if MAX_HRP_LEN < pos then Inl (HrpTooLong pos)
            else if length lowered - pos - 1 < CHECKSUM_CHARS then Inl TooShort
            else
              let hrp = take pos lowered in
              and_then (read_data5 (pos + 1) 0 (drop (pos + 1) lowered)) (\<lambda>data5.
                if polymod (hrp_expand hrp @ data5) \<noteq> BECH32M_CONST then Inl BadChecksum
                else Inr (hrp, take (length data5 - CHECKSUM_CHARS) data5)))))"

definition decode_bytes :: "bytes \<Rightarrow> Bech32Error + bytes \<times> bytes" where
  "decode_bytes s =
     and_then (decode_fes s) (\<lambda>(hrp, data5).
     and_then (convert_5_to_8 data5) (\<lambda>bs. Inr (hrp, bs)))"

section \<open>The checksum is linear\<close>

lemma digit_iff: "drop_bit 5 v = 0 \<longleftrightarrow> (\<forall>i. bit (v :: u8) i \<longrightarrow> i < 5)"
proof
  assume z: "drop_bit 5 v = 0"
  have "i < 5" if b: "bit v i" for i
  proof (rule ccontr)
    assume "\<not> i < 5"
    then have "bit (drop_bit 5 v) (i - 5)" using b by (simp add: bit_drop_bit_eq)
    then show False by (simp add: z)
  qed
  then show "\<forall>i. bit v i \<longrightarrow> i < 5" by blast
next
  assume "\<forall>i. bit v i \<longrightarrow> i < 5"
  then show "drop_bit 5 v = 0" by (fastforce simp: bit_eq_iff bit_drop_bit_eq)
qed

lemma gen_step_bit: "gen_step hi (i, g) chk = chk XOR (if bit hi i then g else 0)"
  by (simp add: gen_step_def and_one_eq odd_iff_mod_2_eq_one [symmetric] bit_iff_odd_drop_bit)

definition gens :: "u32 \<Rightarrow> u32" where
  "gens chk = (if bit chk 25 then 0x3b6a57b2 else 0) XOR (if bit chk 26 then 0x26508e6d else 0)
     XOR (if bit chk 27 then 0x1ea119fa else 0) XOR (if bit chk 28 then 0x3d4233dd else 0)
     XOR (if bit chk 29 then 0x2a1462b3 else 0)"

definition sum_shift :: "u32 \<Rightarrow> u32" where
  "sum_shift chk = push_bit 5 (take_bit 25 chk) XOR gens chk"

lemma poly_step_shift: "poly_step chk v = sum_shift chk XOR ucast v"
proof -
  have m: "chk AND 0x1ffffff = take_bit 25 chk"
    by (simp add: take_bit_eq_mask mask_eq_exp_minus_1)
  show ?thesis
    by (simp add: poly_step_def sum_shift_def gens_def GEN_def m gen_step_bit bit_drop_bit_eq Let_def
        ac_simps del: if_split)
qed

lemma if_xor: "(if a \<noteq> b then g else 0) = (if a then g else 0) XOR (if b then g else (0 :: u32))"
  by simp

lemma gens_xor: "gens (x XOR y) = gens x XOR gens y"
  unfolding gens_def bit_xor_iff if_xor by (simp only: ac_simps)

lemma sum_shift_xor: "sum_shift (x XOR y) = sum_shift x XOR sum_shift y"
  by (simp add: sum_shift_def gens_xor ac_simps push_bit_xor take_bit_xor)

lemma sum_shift_0 [simp]: "sum_shift 0 = 0"
  by (simp add: sum_shift_def gens_def)

end
