(* ===== verification/BechBits.thy ===== *)
theory BechBits imports Bech32 begin

text \<open>
  Regrouping bits in \<open>bech32m.rs\<close>: both loops move a stream of bits. The writer pads the stream with
  fewer than five zeros; the reader accepts just that padding.
\<close>

section \<open>Streams of bits\<close>

definition pend :: "'a::len word \<Rightarrow> nat \<Rightarrow> bool list" where
  "pend acc n = map (bit acc) (rev [0..<n])"

definition stream :: "nat \<Rightarrow> bytes \<Rightarrow> bool list" where
  "stream w vs = concat (map (\<lambda>v. pend v w) vs)"

lemma length_pend [simp]: "length (pend acc n) = n"
  by (simp add: pend_def)

lemma pend_0 [simp]: "pend acc 0 = []"
  by (simp add: pend_def)

lemma pend_eq: "pend a n = pend b n \<longleftrightarrow> (\<forall>i < n. bit a i = bit b i)"
  by (auto simp: pend_def)

lemma pend_add: "pend acc (m + n) = map (\<lambda>i. bit acc (i + n)) (rev [0..<m]) @ pend acc n"
proof -
  have "[0..<m + n] = [0..<n] @ map (\<lambda>i. i + n) [0..<m]"
    unfolding map_add_upt by (metis add.commute le0 upt_add_eq_append)
  then show ?thesis by (simp add: pend_def rev_map)
qed

lemma pend_feed:
  assumes "n + w \<le> 32" "\<And>i. bit (v :: u8) i \<Longrightarrow> i < w"
  shows "pend (push_bit w acc OR ucast v) (n + w) = pend (acc :: u32) n @ pend v w"
proof -
  have "bit (push_bit w acc OR ucast v) (i + w) = bit acc i" if "i < n" for i
    using that assms by (fastforce simp: bit_or_iff bit_push_bit_iff bit_ucast_iff)
  moreover have "bit (push_bit w acc OR ucast v) i = bit v i" if "i < w" for i
    using that assms by (simp add: bit_or_iff bit_push_bit_iff bit_ucast_iff)
  ultimately show ?thesis unfolding pend_add by (auto simp: pend_def)
qed

lemma pend_take:
  assumes "w \<le> n" "w \<le> 8"
  shows "pend (ucast (take_bit w (drop_bit (n - w) acc)) :: u8) w @ pend acc (n - w) = pend (acc :: u32) n"
proof -
  have "pend acc n = pend acc (w + (n - w))" using assms(1) by simp
  then show ?thesis
    using assms unfolding pend_add
    by (auto simp: pend_def bit_ucast_iff bit_take_bit_iff bit_drop_bit_eq add.commute)
qed

lemma stream_Nil [simp]: "stream w [] = []"
  by (simp add: stream_def)

lemma stream_Cons [simp]: "stream w (v # vs) = pend v w @ stream w vs"
  by (simp add: stream_def)

lemma stream_append [simp]: "stream w (xs @ ys) = stream w xs @ stream w ys"
  by (simp add: stream_def)

lemma length_stream [simp]: "length (stream w vs) = w * length vs"
  by (induction vs) simp_all

lemma stream_inj:
  assumes "\<forall>v\<in>set xs \<union> set ys. \<forall>i. bit v i \<longrightarrow> i < w"
  shows "stream w xs = stream w ys \<Longrightarrow> length xs = length ys \<Longrightarrow> xs = ys"
  using assms
proof (induction xs ys rule: list_induct2')
  case (4 x xs y ys)
  have "pend x w = pend y w" "stream w xs = stream w ys" using "4.prems"(1) by simp_all
  moreover have "x = y"
  proof (rule bit_word_eqI)
    fix n
    show "bit x n = bit y n" using calculation(1) "4.prems"(3) unfolding pend_eq by auto
  qed
  ultimately show ?case using "4.IH" "4.prems" by simp
qed simp_all

lemma and_31: "x AND 31 = take_bit 5 (x :: u32)" and and_255: "x AND 0xff = take_bit 8 (x :: u32)"
  by (simp_all add: take_bit_eq_mask mask_eq_exp_minus_1)

lemma digit_ucast: "drop_bit 5 (ucast (x AND 31 :: u32) :: u8) = 0"
  by (auto simp: digit_iff bit_ucast_iff and_31 bit_take_bit_iff)

lemma byte_bits: "bit (b :: u8) i \<Longrightarrow> i < 8"
  using bit_imp_le_length [of b i] by simp

section \<open>The loops\<close>

lemma emit5_ok:
  "emit5 acc bits out = (bits', out') \<Longrightarrow>
     bits' < 5 \<and> stream 5 out' @ pend acc bits' = stream 5 out @ pend acc bits \<and>
     ((\<forall>v\<in>set out. drop_bit 5 v = 0) \<longrightarrow> (\<forall>v\<in>set out'. drop_bit 5 v = 0))"
proof (induction acc bits out arbitrary: bits' out' rule: emit5.induct)
  case (1 acc bits out)
  show ?case
  proof (cases "5 \<le> bits")
    case True
    let ?d = "ucast (drop_bit (bits - 5) acc AND 31) :: u8"
    have "emit5 acc (bits - 5) (out @ [?d]) = (bits', out')"
      using "1.prems" True by (simp add: emit5.simps [of acc bits])
    note ih = "1.IH" [OF True this]
    have "pend ?d 5 @ pend acc (bits - 5) = pend acc bits"
      using True by (simp add: and_31 pend_take)
    then show ?thesis using ih by (simp add: digit_ucast)
  next
    case False
    then show ?thesis using "1.prems" by (simp add: emit5.simps [of acc bits])
  qed
qed

lemma emit8_ok:
  "emit8 acc bits out = (bits', out') \<Longrightarrow>
     bits' < 8 \<and> stream 8 out' @ pend acc bits' = stream 8 out @ pend acc bits"
proof (induction acc bits out arbitrary: bits' out' rule: emit8.induct)
  case (1 acc bits out)
  show ?case
  proof (cases "8 \<le> bits")
    case True
    let ?d = "ucast (drop_bit (bits - 8) acc AND 0xff) :: u8"
    have "emit8 acc (bits - 8) (out @ [?d]) = (bits', out')"
      using "1.prems" True by (simp add: emit8.simps [of acc bits])
    note ih = "1.IH" [OF True this]
    have "pend ?d 8 @ pend acc (bits - 8) = pend acc bits"
      using True by (simp add: and_255 pend_take)
    then show ?thesis using ih by simp
  next
    case False
    then show ?thesis using "1.prems" by (simp add: emit8.simps [of acc bits])
  qed
qed

lemma to5_loop_ok:
  assumes "to5_loop bs acc bits out = (acc', bits', out')" "bits < 5" "\<forall>v\<in>set out. drop_bit 5 v = 0"
  shows "bits' < 5 \<and> stream 5 out' @ pend acc' bits' = stream 5 out @ pend acc bits @ stream 8 bs \<and>
    (\<forall>v\<in>set out'. drop_bit 5 v = 0)"
  using assms
proof (induction bs arbitrary: acc bits out)
  case (Cons b bs)
  let ?acc = "push_bit 8 acc OR ucast b"
  obtain b1 o1 where e: "emit5 ?acc (bits + 8) out = (b1, o1)" by fastforce
  have f: "pend ?acc (bits + 8) = pend acc bits @ pend b 8"
    using Cons.prems(2) by (intro pend_feed) (auto dest: byte_bits)
  from emit5_ok [OF e] Cons.prems have
    "b1 < 5" "stream 5 o1 @ pend ?acc b1 = stream 5 out @ pend acc bits @ pend b 8"
    "\<forall>v\<in>set o1. drop_bit 5 v = 0" by (auto simp: f)
  then show ?case using Cons.IH [of ?acc b1 o1] Cons.prems(1) e by (auto simp: Let_def)
qed simp

lemma to8_loop_ok:
  assumes "\<forall>v\<in>set vs. drop_bit 5 v = 0" "bits < 8"
  shows "\<exists>acc' bits' out'. to8_loop k vs acc bits out = Inr (acc', bits', out') \<and> bits' < 8 \<and>
     stream 8 out' @ pend acc' bits' = stream 8 out @ pend acc bits @ stream 5 vs"
  using assms
proof (induction vs arbitrary: k acc bits out)
  case (Cons v vs)
  let ?acc = "push_bit 5 acc OR ucast v"
  obtain b1 o1 where e: "emit8 ?acc (bits + 5) out = (b1, o1)" by fastforce
  have f: "pend ?acc (bits + 5) = pend acc bits @ pend v 5"
    using Cons.prems by (intro pend_feed) (auto simp: digit_iff)
  from emit8_ok [OF e] have
    o: "b1 < 8" "stream 8 o1 @ pend ?acc b1 = stream 8 out @ pend acc bits @ pend v 5" by (auto simp: f)
  have "to8_loop k (v # vs) acc bits out = to8_loop (k + 1) vs ?acc b1 o1"
    using e Cons.prems(1) by simp
  moreover obtain acc' bits' out' where
    "to8_loop (k + 1) vs ?acc b1 o1 = Inr (acc', bits', out')" "bits' < 8"
    "stream 8 out' @ pend acc' bits' = stream 8 o1 @ pend ?acc b1 @ stream 5 vs"
    using Cons.IH [of b1 "k + 1" ?acc o1] Cons.prems(1) o(1) by auto
  ultimately show ?case using o(2) by (metis append.assoc stream_Cons)
qed simp

lemma to8_loop_err: "to8_loop k vs acc bits out = Inr r \<Longrightarrow> \<forall>v\<in>set vs. drop_bit 5 v = 0"
proof (induction vs arbitrary: k acc bits out)
  case (Cons v vs)
  obtain b1 o1 where e: "emit8 (push_bit 5 acc OR ucast v) (bits + 5) out = (b1, o1)" by fastforce
  then have "drop_bit 5 v = 0" "to8_loop (k + 1) vs (push_bit 5 acc OR ucast v) b1 o1 = Inr r"
    using Cons.prems by (auto split: if_splits)
  then show ?case using Cons.IH by simp
qed simp

section \<open>Exact meaning of the two conversions\<close>

lemma pend_zeros: "pend (acc :: 'a::len word) n = replicate n False \<longleftrightarrow> (\<forall>i < n. \<not> bit acc i)"
proof -
  have "pend acc n = pend (0 :: 'a word) n \<longleftrightarrow> (\<forall>i < n. \<not> bit acc i)" unfolding pend_eq by simp
  moreover have "pend (0 :: 'a word) n = replicate n False"
    by (auto simp: pend_def list_eq_iff_nth_eq rev_nth)
  ultimately show ?thesis by simp
qed

lemma pend_pad:
  assumes "n < 5"
  shows "pend (ucast (push_bit (5 - n) acc AND 31) :: u8) 5 = pend (acc :: u32) n @ replicate (5 - n) False"
proof -
  let ?d = "ucast (push_bit (5 - n) acc AND 31) :: u8"
  have "bit ?d (i + (5 - n)) = bit acc i" if "i < n" for i
    using that assms by (auto simp: bit_ucast_iff and_31 bit_take_bit_iff bit_push_bit_iff)
  moreover have "pend ?d (5 - n) = replicate (5 - n) False"
    by (auto simp: pend_zeros bit_ucast_iff and_31 bit_take_bit_iff bit_push_bit_iff)
  ultimately have "pend ?d (n + (5 - n)) = pend acc n @ replicate (5 - n) False"
    unfolding pend_add by (auto simp: pend_def)
  then show ?thesis using assms by simp
qed

lemma pad5: "5 * a = c + k \<Longrightarrow> 5 * b = c + k' \<Longrightarrow> k < 5 \<Longrightarrow> k' < 5 \<Longrightarrow> a = b \<and> k = k'"
  for a b c k k' :: nat
  by (cases a b rule: linorder_cases) linarith+

lemma to5_stream:
  "\<exists>k < 5. stream 5 (convert_8_to_5 bs) = stream 8 bs @ replicate k False \<and>
     (\<forall>v\<in>set (convert_8_to_5 bs). drop_bit 5 v = 0)"
proof -
  obtain acc bits out where l: "to5_loop bs 0 0 [] = (acc, bits, out)" by (metis prod_cases3)
  note ok = to5_loop_ok [OF l, simplified]
  show ?thesis
  proof (cases "bits = 0")
    case True
    then show ?thesis using ok l by (intro exI [of _ 0]) (simp add: convert_8_to_5_def)
  next
    case False
    let ?d = "ucast (push_bit (5 - bits) acc AND 31) :: u8"
    have "pend ?d 5 = pend acc bits @ replicate (5 - bits) False"
      using ok by (simp add: pend_pad)
    then have "stream 5 (out @ [?d]) = stream 8 bs @ replicate (5 - bits) False"
      using ok by (metis append.assoc append_Nil2 stream_Cons stream_Nil stream_append)
    then show ?thesis
      using False l ok by (intro exI [of _ "5 - bits"]) (simp add: convert_8_to_5_def digit_ucast)
  qed
qed

lemma pad_zero:
  assumes "bits < 8"
  shows "push_bit (8 - bits) acc AND 0xff = (0 :: u32) \<longleftrightarrow> pend acc bits = replicate bits False"
proof -
  have "push_bit (8 - bits) acc AND 0xff = (0 :: u32) \<longleftrightarrow> (\<forall>i < bits. \<not> bit acc i)"
  proof
    assume z: "push_bit (8 - bits) acc AND 0xff = (0 :: u32)"
    show "\<forall>i < bits. \<not> bit acc i"
    proof (intro allI impI notI)
      fix i assume i: "i < bits" "bit acc i"
      then have "bit (push_bit (8 - bits) acc AND 0xff :: u32) (i + (8 - bits))"
        using assms by (simp add: and_255 bit_take_bit_iff bit_push_bit_iff, linarith)
      then show False using z by simp
    qed
  next
    assume "\<forall>i < bits. \<not> bit acc i"
    then show "push_bit (8 - bits) acc AND 0xff = (0 :: u32)"
      by (auto simp: bit_eq_iff and_255 bit_take_bit_iff bit_push_bit_iff)
  qed
  then show ?thesis by (simp add: pend_zeros)
qed

lemma to8_iff:
  "convert_5_to_8 vs = Inr bs \<longleftrightarrow> (\<forall>v\<in>set vs. drop_bit 5 v = 0) \<and>
     (\<exists>k < 5. stream 5 vs = stream 8 bs @ replicate k False)"
proof (cases "\<forall>v\<in>set vs. drop_bit 5 v = 0")
  case False
  then have "convert_5_to_8 vs \<noteq> Inr bs"
    using to8_loop_err [of 0 vs 0 0 "[]"] by (auto simp: convert_5_to_8_def res_simps)
  then show ?thesis using False by blast
next
  case True
  then obtain acc bits out where
    l: "to8_loop 0 vs 0 0 [] = Inr (acc, bits, out)" "bits < 8" "stream 5 vs = stream 8 out @ pend acc bits"
    using to8_loop_ok [of vs 0 0 0 "[]"] by auto
  have c: "convert_5_to_8 vs = Inr bs \<longleftrightarrow> bits < 5 \<and> pend acc bits = replicate bits False \<and> bs = out"
    using l by (auto simp: convert_5_to_8_def pad_zero)
  have "bits = k \<and> out = bs \<and> pend acc bits = replicate bits False"
    if "stream 5 vs = stream 8 bs @ replicate k False" "k < 5" for k
  proof -
    have e: "stream 8 out @ pend acc bits = stream 8 bs @ replicate k False" using l that by simp
    have "8 * length out + bits = 8 * length bs + k" using arg_cong [OF e, of length] by simp
    then have n: "length out = length bs" "bits = k" using l(2) that(2) by presburger+
    then have "stream 8 out = stream 8 bs" "pend acc bits = replicate k False" using e by simp_all
    then show ?thesis using n stream_inj [of out bs 8] by (auto dest: byte_bits)
  qed
  then show ?thesis using True c l(3) by auto
qed

section \<open>Each byte string has one regrouping\<close>

lemma convert_iff: "convert_5_to_8 vs = Inr bs \<longleftrightarrow> vs = convert_8_to_5 bs"
proof
  obtain k where k: "k < 5" "stream 5 (convert_8_to_5 bs) = stream 8 bs @ replicate k False"
    "\<forall>v\<in>set (convert_8_to_5 bs). drop_bit 5 v = 0"
    using to5_stream by blast
  show "vs = convert_8_to_5 bs \<Longrightarrow> convert_5_to_8 vs = Inr bs" using k by (auto simp: to8_iff)
  assume "convert_5_to_8 vs = Inr bs"
  then obtain k' where k': "k' < 5" "stream 5 vs = stream 8 bs @ replicate k' False"
    "\<forall>v\<in>set vs. drop_bit 5 v = 0"
    by (auto simp: to8_iff)
  have "5 * length vs = 8 * length bs + k'" using arg_cong [OF k'(2), of length] by simp
  moreover have "5 * length (convert_8_to_5 bs) = 8 * length bs + k"
    using arg_cong [OF k(2), of length] by simp
  ultimately have "length vs = length (convert_8_to_5 bs) \<and> k' = k"
    by (rule pad5 [OF _ _ k'(1) k(1)])
  then show "vs = convert_8_to_5 bs"
    using k k' stream_inj [of vs "convert_8_to_5 bs" 5] by (auto simp: digit_iff)
qed

lemma length_convert_8_to_5: "length (convert_8_to_5 bs) = (8 * length bs + 4) div 5"
proof -
  obtain k where k: "k < 5" "stream 5 (convert_8_to_5 bs) = stream 8 bs @ replicate k False"
    using to5_stream by blast
  have "5 * length (convert_8_to_5 bs) = 8 * length bs + k"
    using arg_cong [OF k(2), of length] by simp
  moreover have "a = (c + 4) div 5" if "5 * a = c + k" for a c :: nat
    using that k(1) by simp
  ultimately show ?thesis by blast
qed

lemma convert_8_to_5_digits: "\<forall>v\<in>set (convert_8_to_5 bs). drop_bit 5 v = 0"
  using to5_stream by blast

end
