(* ===== verification/BechSum.thy ===== *)
theory BechSum imports Bech32 begin

text \<open>
  The checksum of \<open>bech32m.rs\<close> as a linear map: the digits of a checksum cancel what the rest of the
  string has left, and a difference inside six neighbouring digits never cancels.
\<close>

section \<open>Digits and states\<close>

lemma digit_bit: "drop_bit 5 v = 0 \<Longrightarrow> bit (v :: u8) n \<Longrightarrow> n < 5"
  by (simp add: digit_iff)

lemma ucast_digit_0: "ucast (v :: u8) = (0 :: u32) \<Longrightarrow> v = 0"
proof (rule bit_word_eqI)
  fix n
  assume "ucast v = (0 :: u32)" "n < LENGTH(8)"
  then have "\<not> bit (ucast v :: u32) n" "n < 8" by simp_all
  then show "bit v n = bit 0 n" by (simp add: bit_ucast_iff)
qed

definition low :: "nat \<Rightarrow> u32 \<Rightarrow> bool" where
  "low n x \<longleftrightarrow> take_bit n x = x"

lemma low_bit: "low n x \<longleftrightarrow> (\<forall>i. bit x i \<longrightarrow> i < n)"
proof
  assume "low n x"
  then have "bit x i \<longleftrightarrow> i < n \<and> bit x i" for i
    by (metis bit_take_bit_iff low_def)
  then show "\<forall>i. bit x i \<longrightarrow> i < n" by blast
next
  assume "\<forall>i. bit x i \<longrightarrow> i < n"
  then show "low n x" by (auto simp: low_def bit_eq_iff bit_take_bit_iff)
qed

lemma low_mono: "low m x \<Longrightarrow> m \<le> n \<Longrightarrow> low n x"
  by (auto simp: low_bit)

lemma low_xor: "low n x \<Longrightarrow> low n y \<Longrightarrow> low n (x XOR y)"
  by (auto simp: low_bit bit_xor_iff)

lemma low_0 [simp]: "low n 0"
  by (simp add: low_def)

lemma low_push: "low n x \<Longrightarrow> low (n + 5) (push_bit 5 x)"
  by (fastforce simp: low_bit bit_push_bit_iff)

lemma low_digit: "drop_bit 5 v = 0 \<Longrightarrow> low 5 (ucast (v :: u8))"
  by (auto simp: low_bit bit_ucast_iff digit_bit)

lemma low_gens: "low 30 (gens x)"
  unfolding gens_def by (intro low_xor; simp add: low_def)

lemma low_shift: "low 30 (sum_shift x)"
  unfolding sum_shift_def
  by (intro low_xor low_gens low_push [where n = 25, simplified]) (simp add: low_def)

lemma low_step: "drop_bit 5 v = 0 \<Longrightarrow> low 30 (poly_step c v)"
  unfolding poly_step_shift by (intro low_xor low_shift low_mono [OF low_digit]) simp_all

lemma low_run: "low 30 c \<Longrightarrow> \<forall>v\<in>set vs. drop_bit 5 v = 0 \<Longrightarrow> low 30 (foldl poly_step c vs)"
  by (induction vs arbitrary: c) (simp_all add: low_step)

lemma low_polymod: "\<forall>v\<in>set vs. drop_bit 5 v = 0 \<Longrightarrow> low 30 (polymod vs)"
  unfolding polymod_def by (rule low_run) (simp_all add: low_def)

section \<open>Linearity\<close>

lemma run_xor:
  "length vs = length ws \<Longrightarrow>
     foldl poly_step (a XOR b) (map2 (XOR) vs ws) = foldl poly_step a vs XOR foldl poly_step b ws"
proof (induction vs ws arbitrary: a b rule: list_induct2)
  case (Cons v vs w ws)
  have "poly_step (a XOR b) (v XOR w) = poly_step a v XOR poly_step b w"
    by (simp add: poly_step_shift sum_shift_xor ac_simps unsigned_xor_eq)
  then show ?case using Cons.IH by simp
qed simp

lemma run_diff:
  assumes "length vs = length ws"
  shows "foldl poly_step a vs XOR foldl poly_step b ws = foldl poly_step (a XOR b) (map2 (XOR) vs ws)"
  by (rule run_xor [OF assms, symmetric])

lemma run_zeros: "foldl poly_step c (replicate n 0) = (sum_shift ^^ n) c"
  by (induction n arbitrary: c) (simp_all add: poly_step_shift funpow_swap1)

lemma map2_self: "map2 (XOR) q q = replicate (length q) (0 :: u8)"
  by (induction q) simp_all

section \<open>Nothing small is lost\<close>

lemma take5_shift: "take_bit 5 (sum_shift x) = take_bit 5 (gens x)"
proof -
  have "take_bit 5 (push_bit 5 (take_bit 25 x)) = (0 :: u32)"
    by (simp add: take_bit_push_bit)
  then show ?thesis by (simp add: sum_shift_def take_bit_xor)
qed

lemma gens_low_digit:
  "take_bit 5 (gens x) = 0 \<Longrightarrow>
     \<not> bit x 25 \<and> \<not> bit x 26 \<and> \<not> bit x 27 \<and> \<not> bit x 28 \<and> \<not> bit x 29"
  unfolding gens_def take_bit_xor
  by (cases "bit x 25"; cases "bit x 26"; cases "bit x 27"; cases "bit x 28"; cases "bit x 29") simp_all

lemma sum_shift_eq_0: assumes "low 30 x" "sum_shift x = 0" shows "x = 0"
proof -
  have g: "\<not> bit x 25 \<and> \<not> bit x 26 \<and> \<not> bit x 27 \<and> \<not> bit x 28 \<and> \<not> bit x 29"
    using gens_low_digit take5_shift assms(2) by (metis take_bit_of_0)
  then have z: "push_bit 5 (take_bit 25 x) = 0"
    using assms(2) by (simp add: sum_shift_def gens_def)
  have lo: "i < 25" if "bit x i" for i
  proof (rule ccontr)
    assume "\<not> i < 25"
    moreover have "i < 30" using assms(1) that by (simp add: low_bit)
    ultimately have "i \<in> {25, 26, 27, 28, 29}" by auto
    then show False using g that by auto
  qed
  have "\<not> bit x n" for n
  proof
    assume "bit x n"
    with lo have "bit (push_bit 5 (take_bit 25 x)) (n + 5)"
      by (fastforce simp: bit_push_bit_iff bit_take_bit_iff)
    then show False using z by simp
  qed
  then show "x = 0" by (simp add: bit_eq_iff)
qed

lemma sum_shift_pow_0: "low 30 x \<Longrightarrow> (sum_shift ^^ n) x = 0 \<Longrightarrow> x = 0"
proof (induction n arbitrary: x)
  case (Suc n)
  then have "(sum_shift ^^ n) (sum_shift x) = 0" by (simp add: funpow_swap1)
  then have "sum_shift x = 0" using Suc.IH low_shift by blast
  then show ?case using sum_shift_eq_0 Suc.prems(1) by blast
qed simp

section \<open>Six digits\<close>

definition pack6 :: "bytes \<Rightarrow> u32" where
  "pack6 cs = foldl (\<lambda>a v. push_bit 5 a XOR ucast v) 0 cs"

lemma sum_shift_small: "low 25 x \<Longrightarrow> sum_shift x = push_bit 5 x"
proof -
  assume "low 25 x"
  then have "gens x = 0" "take_bit 25 x = x"
    by (auto simp: gens_def low_bit low_def [symmetric])
  then show "sum_shift x = push_bit 5 x" by (simp add: sum_shift_def)
qed

lemma pack6_snoc: "pack6 (cs @ [c]) = push_bit 5 (pack6 cs) XOR ucast c"
  by (simp add: pack6_def)

lemma run_pack6:
  "length cs \<le> 6 \<Longrightarrow> \<forall>v\<in>set cs. drop_bit 5 v = 0 \<Longrightarrow>
     foldl poly_step 0 cs = pack6 cs \<and> low (5 * length cs) (pack6 cs)"
proof (induction cs rule: rev_induct)
  case (snoc c cs)
  then have ih: "foldl poly_step 0 cs = pack6 cs" "low (5 * length cs) (pack6 cs)" by simp_all
  have "low 25 (pack6 cs)" using low_mono [OF ih(2)] snoc.prems by simp
  then have "foldl poly_step 0 (cs @ [c]) = pack6 (cs @ [c])"
    using ih by (simp add: poly_step_shift sum_shift_small pack6_snoc)
  moreover have "low (5 * length (cs @ [c])) (pack6 (cs @ [c]))"
    unfolding pack6_snoc
    using low_push [OF ih(2)] low_mono [OF low_digit [of c]] snoc.prems
    by (intro low_xor) (simp_all add: add.commute)
  ultimately show ?case by blast
qed (simp add: pack6_def)

lemma pack6_eq_0: "\<forall>v\<in>set cs. drop_bit 5 v = 0 \<Longrightarrow> length cs \<le> 6 \<Longrightarrow> pack6 cs = 0 \<Longrightarrow> cs = replicate (length cs) 0"
proof (induction cs rule: rev_induct)
  case (snoc c cs)
  have low5: "take_bit 5 (ucast c :: u32) = ucast c"
    using low_digit [of c] snoc.prems(1) by (simp add: low_def)
  have p0: "push_bit 5 (pack6 cs) XOR ucast c = 0" using snoc.prems(3) by (simp add: pack6_snoc)
  then have "take_bit 5 (push_bit 5 (pack6 cs) XOR ucast c) = 0" by simp
  then have c0: "ucast c = (0 :: u32)" using low5 by (simp add: take_bit_xor take_bit_push_bit)
  then have c: "c = 0" by (rule ucast_digit_0)
  have "push_bit 5 (pack6 cs) = 0" using p0 c0 by simp
  moreover have "low 25 (pack6 cs)"
    using run_pack6 [of cs] low_mono [of "5 * length cs" "pack6 cs" 25] snoc.prems by simp
  ultimately have "sum_shift (pack6 cs) = 0" "low 30 (pack6 cs)"
    by (simp_all add: sum_shift_small low_mono [of 25])
  then have "pack6 cs = 0" by (blast intro: sum_shift_eq_0)
  then have "cs = replicate (length cs) 0" using snoc.IH snoc.prems by simp
  then show ?case using c by (metis length_append_singleton replicate_Suc replicate_append_same)
qed simp

end
