(* ===== verification/Addresses.thy ===== *)
theory Addresses imports BechBits BechSum Crypto begin

text \<open>
  Addresses as text: the strings of \<open>lib/consensus/src/bech32m.rs\<close>, the addresses of \<open>crypto.rs\<close> and
  the login names that \<open>lib/stratum/src/login.rs\<close> reads them from. The lemmas show that the reader is
  the exact inverse of the writer up to one case of letters, that the writer of addresses cannot fail,
  and that a typing error within six neighbouring characters is always noticed.
\<close>

section \<open>The addresses of \<open>crypto.rs\<close>\<close>

datatype AddressError = NotBech32m | WrongHrp | WrongPayloadLength nat

text \<open>\<open>"plne"\<close>.\<close>

definition ADDRESS_HRP :: bytes where "ADDRESS_HRP = [112, 108, 110, 101]"

definition encode_address :: "bytes \<Rightarrow> bytes option" where
  "encode_address payload = (case encode_bytes ADDRESS_HRP payload of Inl _ \<Rightarrow> None | Inr s \<Rightarrow> Some s)"

definition address_from_pubkey :: "bytes \<Rightarrow> bytes option" where
  "address_from_pubkey pubkey = encode_address (address_payload pubkey)"

definition decode_address :: "bytes \<Rightarrow> AddressError + bytes" where
  "decode_address s =
     and_then (map_err (\<lambda>_. NotBech32m) (decode_bytes s)) (\<lambda>(hrp, bs).
       if hrp \<noteq> ADDRESS_HRP then Inl WrongHrp
       else if length bs \<noteq> ADDRESS_PAYLOAD_BYTES then Inl (WrongPayloadLength (length bs))
       else Inr bs)"

section \<open>The login of a miner\<close>

definition MAX_RIG_LABEL :: nat where "MAX_RIG_LABEL = 32"

record Login =
  lg_address :: bytes
  lg_address_bytes :: bytes
  lg_rig :: bytes
  lg_pinned_difficulty :: "u64 option"

datatype LoginError = LoginEmpty | BadAddressChecksum | WrongNetwork | BadPayloadLength | BadPinnedDifficulty

definition ascii_digit :: "u8 \<Rightarrow> bool" where "ascii_digit c \<longleftrightarrow> 48 \<le> c \<and> c \<le> 57"

definition ascii_alphanumeric :: "u8 \<Rightarrow> bool" where
  "ascii_alphanumeric c \<longleftrightarrow> ascii_digit c \<or> ascii_upper_case c \<or> ascii_lower_case c"

text \<open>\<open>str::parse::<u64>\<close> on a string that is known to be digits: it fails on overflow.\<close>

fun parse_digits :: "nat \<Rightarrow> bytes \<Rightarrow> nat option" where
  "parse_digits acc [] = Some acc"
| "parse_digits acc (c # cs) =
     (let acc = 10 * acc + unat (c - 48) in if 2 ^ 64 \<le> acc then None else parse_digits acc cs)"

text \<open>The characters of a string that are kept are ASCII, so that bytes stand for characters: no byte
  of a longer character passes the test. The length test is on the bytes pushed so far.\<close>

fun sanitise_from :: "bytes \<Rightarrow> bytes \<Rightarrow> bytes" where
  "sanitise_from [] out = out"
| "sanitise_from (c # cs) out =
     (if MAX_RIG_LABEL \<le> length out then out
      else sanitise_from cs
        (if ascii_alphanumeric c \<or> c = 46 \<or> c = 95 \<or> c = 45 then out @ [c] else out))"

definition sanitise_rig :: "bytes \<Rightarrow> bytes" where
  "sanitise_rig raw = sanitise_from raw []"

text \<open>\<open>str::find\<close> of one ASCII character is \<open>char_pos\<close>.\<close>

definition split_pin :: "bytes \<Rightarrow> LoginError + bytes \<times> u64 option" where
  "split_pin s =
     (case char_pos 43 s of
        None \<Rightarrow> Inr (s, None)
      | Some i \<Rightarrow>
          let suffix = drop (i + 1) s in
          if suffix = [] \<or> \<not> list_all ascii_digit suffix then Inl BadPinnedDifficulty
          else case parse_digits 0 suffix of
            None \<Rightarrow> Inl BadPinnedDifficulty
          | Some v \<Rightarrow> Inr (take i s, Some (word_of_nat v)))"

definition split_rig :: "bytes \<Rightarrow> bytes \<times> bytes" where
  "split_rig head =
     (case char_pos 46 head of Some i \<Rightarrow> (take i head, drop (i + 1) head) | None \<Rightarrow> (head, []))"

definition parse_login :: "bytes \<Rightarrow> bytes \<Rightarrow> LoginError + Login" where
  "parse_login s expected_hrp =
     (if s = [] then Inl LoginEmpty
      else and_then (split_pin s) (\<lambda>(head, pin).
        let (addr, rig_raw) = split_rig head in
        if addr = [] then Inl LoginEmpty
        else and_then (map_err (\<lambda>_. BadAddressChecksum) (decode_bytes addr)) (\<lambda>(hrp, payload).
          if hrp \<noteq> expected_hrp then Inl WrongNetwork
          else if length payload \<noteq> ADDRESS_PAYLOAD_BYTES then Inl BadPayloadLength
          else Inr \<lparr>lg_address = map ascii_lower addr, lg_address_bytes = payload,
                    lg_rig = sanitise_rig rig_raw, lg_pinned_difficulty = pin\<rparr>)))"

definition worker_id :: "Login \<Rightarrow> bytes" where
  "worker_id l = (if lg_rig l = [] then lg_address l else lg_address l @ [46] @ lg_rig l)"

section \<open>Characters and digits\<close>

lemma CHARSET_facts: "length CHARSET = 32" "distinct CHARSET" "49 \<notin> set CHARSET"
  "\<forall>c\<in>set CHARSET. printable c \<and> \<not> ascii_upper_case c"
  by (simp_all add: CHARSET_def printable_def ascii_upper_case_def)

lemma char_pos_iff: "char_pos c xs = Some i \<longleftrightarrow> i < length xs \<and> xs ! i = c \<and> (\<forall>j < i. xs ! j \<noteq> c)"
proof (induction xs arbitrary: i)
  case (Cons x xs)
  then show ?case by (cases i) (auto simp: less_Suc_eq_0_disj)
qed simp

lemma char_pos_CHARSET: "i < 32 \<Longrightarrow> char_pos (CHARSET ! i) CHARSET = Some i"
  using CHARSET_facts(1,2) by (auto simp: char_pos_iff nth_eq_iff_index_eq)

lemma digit_less: "drop_bit 5 (v :: u8) = 0 \<longleftrightarrow> unat v < 32"
proof -
  have "unat (drop_bit 5 v) = unat v div 2 ^ 5"
    by (rule trans [OF unat_drop_bit_eq]) (simp add: drop_bit_eq_div)
  then show ?thesis by (simp add: unat_eq_0 [symmetric] div_eq_0_iff)
qed

lemma read_data5_write:
  "\<forall>v\<in>set vs. drop_bit 5 v = 0 \<Longrightarrow> read_data5 b k (map (\<lambda>v. CHARSET ! unat v) vs) = Inr vs"
  by (induction vs arbitrary: k) (simp_all add: char_pos_CHARSET digit_less)

lemma read_data5_iff:
  "read_data5 b k cs = Inr vs \<longleftrightarrow>
     (\<forall>v\<in>set vs. drop_bit 5 v = 0) \<and> cs = map (\<lambda>v. CHARSET ! unat v) vs"
proof
  show "read_data5 b k cs = Inr vs \<Longrightarrow>
      (\<forall>v\<in>set vs. drop_bit 5 v = 0) \<and> cs = map (\<lambda>v. CHARSET ! unat v) vs"
  proof (induction cs arbitrary: k vs)
    case (Cons c cs)
    then obtain i ws where i: "char_pos c CHARSET = Some i" "read_data5 b (k + 1) cs = Inr ws"
      and vs: "vs = word_of_nat i # ws"
      by (auto simp: res_simps)
    have lt: "i < 32" "CHARSET ! i = c" using i(1) by (auto simp: char_pos_iff CHARSET_facts)
    then have "unat (word_of_nat i :: u8) = i" by (simp add: unat_of_nat)
    then show ?case using Cons.IH [OF i(2)] vs lt by (simp add: digit_less)
  qed simp
next
  show "(\<forall>v\<in>set vs. drop_bit 5 v = 0) \<and> cs = map (\<lambda>v. CHARSET ! unat v) vs \<Longrightarrow>
      read_data5 b k cs = Inr vs"
    using read_data5_write by blast
qed

lemma rfind_None: "rfind c xs = None \<longleftrightarrow> c \<notin> set xs"
  by (induction xs) (auto split: option.splits)

lemma rfind_iff: "rfind c xs = Some i \<longleftrightarrow> i < length xs \<and> xs ! i = c \<and> c \<notin> set (drop (i + 1) xs)"
proof (induction xs arbitrary: i)
  case (Cons x xs)
  show ?case
  proof (cases i)
    case 0
    then show ?thesis by (auto split: option.splits simp: rfind_None dest: sym [of _ "rfind c xs"])
      (metis option.distinct(1) rfind_None)+
  next
    case (Suc k)
    then show ?thesis using Cons.IH [of k] by (auto split: option.splits)
  qed
qed simp

lemma rfind_append: "c \<notin> set ys \<Longrightarrow> rfind c (xs @ [c] @ ys) = Some (length xs)"
  by (simp add: rfind_iff nth_append)

section \<open>Case of letters\<close>

lemma scan_case_iff:
  "scan_case k s lo up = Inr (lo', up') \<longleftrightarrow> (\<forall>b\<in>set s. printable b) \<and>
     (lo' \<longleftrightarrow> lo \<or> (\<exists>b\<in>set s. ascii_lower_case b)) \<and> (up' \<longleftrightarrow> up \<or> (\<exists>b\<in>set s. ascii_upper_case b))"
  by (induction s arbitrary: k lo up) auto

definition mixed_case :: "bytes \<Rightarrow> bool" where
  "mixed_case s \<longleftrightarrow> (\<exists>b\<in>set s. ascii_lower_case b) \<and> (\<exists>b\<in>set s. ascii_upper_case b)"

lemma check_hrp_iff: "check_hrp k s = Inr () \<longleftrightarrow> (\<forall>b\<in>set s. printable b \<and> \<not> ascii_upper_case b)"
  by (induction s arbitrary: k) auto

lemma check_data5_iff: "check_data5 k s = Inr () \<longleftrightarrow> (\<forall>v\<in>set s. drop_bit 5 v = 0)"
  by (induction s arbitrary: k) auto

lemma unat_ascii_lower: "unat (ascii_lower b) = (if 65 \<le> unat b \<and> unat b \<le> 90 then unat b + 32 else unat b)"
  by (simp add: ascii_lower_def word_le_nat_alt unat_word_ariths)

lemmas case_defs = printable_def ascii_upper_case_def ascii_lower_case_def word_le_nat_alt unat_ascii_lower

lemma lower_facts:
  "printable (ascii_lower b) \<longleftrightarrow> printable b" "\<not> ascii_upper_case (ascii_lower b)"
  "ascii_lower_case (ascii_lower b) \<longleftrightarrow> ascii_lower_case b \<or> ascii_upper_case b"
  by (auto simp: case_defs)

lemma ascii_lower_id: "\<not> ascii_upper_case b \<Longrightarrow> ascii_lower b = b"
  by (simp add: ascii_lower_def ascii_upper_case_def)

lemma ascii_lower_idem [simp]: "ascii_lower (ascii_lower b) = ascii_lower b"
  by (rule ascii_lower_id) (rule lower_facts)

lemma lower_id: "\<forall>b\<in>set s. \<not> ascii_upper_case b \<Longrightarrow> map ascii_lower s = s"
  by (induction s) (simp_all add: ascii_lower_id)

section \<open>Reader and writer\<close>

lemma encode_fes_iff:
  "encode_fes_with_const hrp vs k = Inr s \<longleftrightarrow>
     hrp \<noteq> [] \<and> length hrp \<le> MAX_HRP_LEN \<and> (\<forall>b\<in>set hrp. printable b \<and> \<not> ascii_upper_case b) \<and>
     (\<forall>v\<in>set vs. drop_bit 5 v = 0) \<and> length hrp + 1 + length vs + CHECKSUM_CHARS \<le> MAX_STRING_LEN \<and>
     s = hrp @ [49] @ map (\<lambda>v. CHARSET ! unat v) vs
       @ map (\<lambda>i. CHARSET ! checksum_digit (polymod (hrp_expand hrp @ vs @ replicate CHECKSUM_CHARS 0) XOR k) i)
           [0..<CHECKSUM_CHARS]"
  by (auto simp: encode_fes_with_const_def res_simps check_hrp_iff check_data5_iff Let_def)

lemma decode_fes_iff:
  "decode_fes s = Inr (hrp, vs) \<longleftrightarrow>
     length s \<le> MAX_STRING_LEN \<and> (\<forall>b\<in>set s. printable b) \<and> \<not> mixed_case s \<and>
     hrp \<noteq> [] \<and> length hrp \<le> MAX_HRP_LEN \<and>
     (\<exists>cs. length cs = CHECKSUM_CHARS \<and> (\<forall>v\<in>set (vs @ cs). drop_bit 5 v = 0) \<and>
        polymod (hrp_expand hrp @ vs @ cs) = BECH32M_CONST \<and>
        map ascii_lower s = hrp @ [49] @ map (\<lambda>v. CHARSET ! unat v) (vs @ cs))" (is "_ \<longleftrightarrow> ?R")
proof
  let ?l = "map ascii_lower s"
  assume "decode_fes s = Inr (hrp, vs)"
  then obtain lo up pos ds where sc: "length s \<le> MAX_STRING_LEN" "scan_case 0 s False False = Inr (lo, up)" "\<not> (lo \<and> up)"
    and rf: "rfind 49 ?l = Some pos" "pos \<noteq> 0" "pos \<le> MAX_HRP_LEN" "CHECKSUM_CHARS \<le> length s - pos - 1"
    and rd: "read_data5 (pos + 1) 0 (drop (pos + 1) ?l) = Inr ds" "polymod (hrp_expand (take pos ?l) @ ds) = BECH32M_CONST"
    and r: "hrp = take pos ?l" "vs = take (length ds - CHECKSUM_CHARS) ds"
    by (auto simp: decode_fes_def res_simps Let_def split: if_splits)
  let ?cs = "drop (length ds - CHECKSUM_CHARS) ds"
  have d: "\<forall>v\<in>set ds. drop_bit 5 v = 0" "drop (pos + 1) ?l = map (\<lambda>v. CHARSET ! unat v) ds"
    using rd(1) by (simp_all add: read_data5_iff)
  have "pos < length ?l" using rf(1) by (simp add: rfind_iff)
  then have "?l = take pos ?l @ ?l ! pos # drop (Suc pos) ?l" by (rule id_take_nth_drop)
  then have l: "?l = hrp @ [49] @ map (\<lambda>v. CHARSET ! unat v) (vs @ ?cs)" using rf(1) r d(2) by (simp add: rfind_iff)
  have "length ds = length s - pos - 1" using arg_cong [OF d(2), of length] by simp
  then have "length ?cs = CHECKSUM_CHARS" using rf(4) by simp
  moreover have "hrp \<noteq> []" "length hrp \<le> MAX_HRP_LEN" using r(1) rf by (auto simp: rfind_iff)
  moreover have "\<not> mixed_case s" "\<forall>b\<in>set s. printable b" using sc by (auto simp: scan_case_iff mixed_case_def)
  moreover have "\<forall>v\<in>set (vs @ ?cs). drop_bit 5 v = 0" "polymod (hrp_expand hrp @ vs @ ?cs) = BECH32M_CONST"
    using d(1) rd(2) r by simp_all
  ultimately show ?R using sc(1) l by blast
next
  let ?l = "map ascii_lower s"
  assume ?R
  then obtain cs where c: "length cs = CHECKSUM_CHARS" "\<forall>v\<in>set (vs @ cs). drop_bit 5 v = 0"
    "polymod (hrp_expand hrp @ vs @ cs) = BECH32M_CONST"
    "?l = hrp @ [49] @ map (\<lambda>v. CHARSET ! unat v) (vs @ cs)" by blast
  note R = \<open>?R\<close>
  have "49 \<notin> set (map (\<lambda>v. CHARSET ! unat v) (vs @ cs))"
    using c(2) CHARSET_facts by (metis (no_types, lifting) digit_less imageE list.set_map nth_mem)
  then have "rfind 49 ?l = Some (length hrp)" unfolding c(4) by (rule rfind_append)
  moreover have "drop (length hrp + 1) ?l = map (\<lambda>v. CHARSET ! unat v) (vs @ cs)" "take (length hrp) ?l = hrp"
    unfolding c(4) by simp_all
  moreover have "length s = length hrp + 1 + length vs + length cs" using arg_cong [OF c(4), of length] by simp
  moreover have "scan_case 0 s False False = Inr (\<exists>b\<in>set s. ascii_lower_case b, \<exists>b\<in>set s. ascii_upper_case b)"
    using R by (simp add: scan_case_iff)
  ultimately show "decode_fes s = Inr (hrp, vs)"
    using R c(1,2,3) read_data5_write [of "vs @ cs"] by (simp add: decode_fes_def mixed_case_def Let_def)
qed

section \<open>The checksum digits\<close>

definition sum_digits :: "nat \<Rightarrow> u32 \<Rightarrow> bytes" where
  "sum_digits n pm = map (\<lambda>i. ucast (drop_bit (5 * (n - 1 - i)) pm AND 31)) [0..<n]"

lemma sum_digits_Suc: "sum_digits (Suc n) x = sum_digits n (drop_bit 5 x) @ [ucast (x AND 31)]"
proof -
  have "drop_bit (5 * (n - i)) x = drop_bit (5 * (n - 1 - i)) (drop_bit 5 x)" if "i < n" for i
  proof -
    have "5 * (n - i) = 5 * (n - 1 - i) + 5" using that by simp
    then show ?thesis by (simp only: drop_bit_drop_bit)
  qed
  then show ?thesis by (simp add: sum_digits_def)
qed

lemma pack6_sum_digits: "pack6 (sum_digits n x) = take_bit (5 * n) x"
proof (induction n arbitrary: x)
  case (Suc n)
  have "push_bit 5 (take_bit (5 * n) (drop_bit 5 x)) XOR ucast (ucast (x AND 31) :: u8) = take_bit (5 * Suc n) x"
  proof (rule bit_word_eqI)
    fix i assume "i < LENGTH(32)"
    then show "bit (push_bit 5 (take_bit (5 * n) (drop_bit 5 x)) XOR ucast (ucast (x AND 31) :: u8)) i
        = bit (take_bit (5 * Suc n) x) i"
      by (cases "i < 5") (auto simp: bit_xor_iff bit_push_bit_iff bit_take_bit_iff bit_drop_bit_eq bit_ucast_iff and_31)
  qed
  then show ?case by (simp add: sum_digits_Suc pack6_snoc Suc)
qed (simp add: sum_digits_def pack6_def)

lemma sum_digits_facts: "length (sum_digits n x) = n" "\<forall>v\<in>set (sum_digits n x). drop_bit 5 v = 0"
  by (auto simp: sum_digits_def digit_ucast)

lemma checksum_chars:
  "map (\<lambda>i. CHARSET ! checksum_digit pm i) [0..<CHECKSUM_CHARS]
     = map (\<lambda>v. CHARSET ! unat v) (sum_digits CHECKSUM_CHARS pm)"
proof -
  have "unat (ucast (x AND 31) :: u8) = unat (x AND 31)" for x :: u32
  proof -
    have "x AND 31 \<le> 31" by (rule word_and_le1)
    then have "unat (x AND 31) \<le> 31" by (simp add: word_le_nat_alt)
    then show ?thesis by (simp add: unsigned_ucast_eq take_bit_nat_eq_self)
  qed
  then show ?thesis by (simp add: sum_digits_def checksum_digit_def CHECKSUM_CHARS_def)
qed

lemma xor_digit: "drop_bit 5 v = 0 \<Longrightarrow> drop_bit 5 w = 0 \<Longrightarrow> drop_bit 5 (v XOR w) = (0 :: u8)"
  by simp

lemma digits_map2:
  "\<forall>v\<in>set vs. drop_bit 5 v = 0 \<Longrightarrow> \<forall>w\<in>set ws. drop_bit 5 w = 0 \<Longrightarrow> \<forall>x\<in>set (map2 (XOR) vs ws). drop_bit 5 x = (0 :: u8)"
proof
  fix x assume v: "\<forall>v\<in>set vs. drop_bit 5 v = 0" and w: "\<forall>w\<in>set ws. drop_bit 5 w = 0" and "x \<in> set (map2 (XOR) vs ws)"
  then obtain a b where x: "x = a XOR b" and ab: "(a, b) \<in> set (zip vs ws)" by auto
  have "drop_bit 5 a = 0" "drop_bit 5 b = 0"
    using v w set_zip_leftD [OF ab] set_zip_rightD [OF ab] by blast+
  then show "drop_bit 5 x = 0" unfolding x by (rule xor_digit)
qed

lemma map2_zero_left: "map2 (XOR) (replicate (length cs) 0) cs = (cs :: bytes)"
  by (induction cs) simp_all

lemma xor_zero: "x XOR y = 0 \<Longrightarrow> x = (y :: u8)"
proof (rule bit_word_eqI)
  fix n assume "x XOR y = 0"
  then have "\<not> bit (x XOR y) n" by simp
  then show "bit x n = bit y n" by (auto simp: bit_xor_iff)
qed

lemma map2_zero: "length vs = length ws \<Longrightarrow> map2 (XOR) vs ws = replicate (length vs) 0 \<Longrightarrow> vs = (ws :: bytes)"
  by (induction vs ws rule: list_induct2) (auto dest: xor_zero)

lemma run_small_inj:
  assumes "length vs = length ws" "length vs \<le> 6" "\<forall>v\<in>set vs. drop_bit 5 v = 0" "\<forall>w\<in>set ws. drop_bit 5 w = 0"
    and "foldl poly_step a vs = foldl poly_step a ws"
  shows "vs = ws"
proof -
  let ?d = "map2 (XOR) vs ws"
  have "foldl poly_step 0 ?d = 0" using run_xor [OF assms(1), of a a] assms(5) by simp
  moreover have d: "\<forall>x\<in>set ?d. drop_bit 5 x = 0" using digits_map2 assms(3,4) by blast
  ultimately have "pack6 ?d = 0" using run_pack6 [of ?d] assms(1,2) by simp
  then have "?d = replicate (length ?d) 0" using pack6_eq_0 [OF d] assms(1,2) by simp
  then show ?thesis using map2_zero [OF assms(1)] assms(1) by simp
qed

lemma checksum_iff:
  assumes "\<forall>v\<in>set p. drop_bit 5 v = 0" "\<forall>v\<in>set cs. drop_bit 5 v = 0" "length cs = 6" "low 30 k"
  shows "polymod (p @ cs) = k \<longleftrightarrow> cs = sum_digits 6 (polymod (p @ replicate 6 0) XOR k)"
proof -
  let ?pm = "polymod (p @ replicate 6 0) XOR k"
  have run: "polymod (p @ ds) = polymod (p @ replicate 6 0) XOR pack6 ds"
    if "length ds = 6" "\<forall>v\<in>set ds. drop_bit 5 v = 0" for ds
  proof -
    have "foldl poly_step (polymod p XOR 0) (map2 (XOR) (replicate 6 0) ds)
        = foldl poly_step (polymod p) (replicate 6 0) XOR foldl poly_step 0 ds"
      using that(1) by (intro run_xor) simp
    then show ?thesis using run_pack6 [of ds] that map2_zero_left [of ds] by (simp add: polymod_def)
  qed
  have "low 30 (polymod (p @ replicate 6 0))" using assms(1) by (intro low_polymod) auto
  then have "take_bit 30 ?pm = ?pm" using low_xor assms(4) by (simp add: low_def take_bit_xor)
  then have "pack6 (sum_digits 6 ?pm) = ?pm" using pack6_sum_digits [of 6 ?pm] by simp
  then have k: "polymod (p @ sum_digits 6 ?pm) = k" using run [of "sum_digits 6 ?pm"] by (simp add: sum_digits_facts)
  show ?thesis
  proof
    assume "polymod (p @ cs) = k"
    then show "cs = sum_digits 6 ?pm"
      using k run_small_inj [of cs "sum_digits 6 ?pm" "polymod p"] assms(2,3)
      by (simp add: polymod_def sum_digits_facts)
  qed (simp add: k)
qed

lemma hrp_digits: "\<forall>v\<in>set (hrp_expand hrp). drop_bit 5 v = 0"
proof -
  have "drop_bit 5 (drop_bit 5 c) = 0" for c :: u8
    by (rule bit_word_eqI) (simp add: bit_drop_bit_eq)
  moreover have "drop_bit 5 (c AND 31) = 0" for c :: u8
    by (simp add: take_bit_eq_mask [symmetric, where n = 5, unfolded mask_eq_exp_minus_1, simplified] digit_iff bit_take_bit_iff)
  ultimately show ?thesis by (auto simp: hrp_expand_def)
qed

section \<open>The reader inverts the writer\<close>

lemma low_const: "low 30 BECH32M_CONST"
  by (simp add: low_def BECH32M_CONST_def)

lemma lower_case_id: "\<forall>b\<in>set s. \<not> ascii_upper_case b \<Longrightarrow> \<not> mixed_case s \<and> map ascii_lower s = s"
  by (auto simp: mixed_case_def lower_id)

lemma mixed_lower [simp]: "\<not> mixed_case (map ascii_lower s)" "map ascii_lower (map ascii_lower s) = map ascii_lower s"
  using lower_case_id [of "map ascii_lower s"] by (auto simp: lower_facts)

lemma fes_canonical:
  "decode_fes s = Inr (hrp, vs) \<longleftrightarrow> encode_fes hrp vs = Inr (map ascii_lower s) \<and> \<not> mixed_case s"
proof -
  let ?cs = "sum_digits CHECKSUM_CHARS (polymod (hrp_expand hrp @ vs @ replicate CHECKSUM_CHARS 0) XOR BECH32M_CONST)"
  have sum: "polymod (hrp_expand hrp @ vs @ cs) = BECH32M_CONST \<longleftrightarrow> cs = ?cs"
    if "length cs = CHECKSUM_CHARS" "\<forall>v\<in>set (vs @ cs). drop_bit 5 v = 0" for cs
    using checksum_iff [of "hrp_expand hrp @ vs" cs BECH32M_CONST] hrp_digits that low_const
    by (auto simp: CHECKSUM_CHARS_def)
  have cs: "length ?cs = CHECKSUM_CHARS" "\<forall>v\<in>set ?cs. drop_bit 5 v = 0" by (rule sum_digits_facts)+
  have pr: "\<forall>b\<in>set s. printable b"
    if e: "encode_fes hrp vs = Inr (map ascii_lower s)"
  proof -
    have *: "\<forall>v\<in>set (vs @ ?cs). drop_bit 5 v = 0" "\<forall>b\<in>set hrp. printable b"
      and l: "map ascii_lower s = hrp @ [49] @ map (\<lambda>v. CHARSET ! unat v) (vs @ ?cs)"
      using e cs by (auto simp: encode_fes_def encode_fes_iff checksum_chars)
    have "\<forall>v\<in>set (vs @ ?cs). printable (CHARSET ! unat v)"
      using *(1) CHARSET_facts by (metis digit_less nth_mem)
    then have "\<forall>b\<in>set (map ascii_lower s). printable b" unfolding l using *(2) by (auto simp: printable_def)
    then show ?thesis by (simp add: lower_facts)
  qed
  have len: "length s = length hrp + 1 + length vs + CHECKSUM_CHARS"
    if "map ascii_lower s = hrp @ [49] @ map (\<lambda>v. CHARSET ! unat v) (vs @ cs)" "length cs = CHECKSUM_CHARS" for cs
    using arg_cong [OF that(1), of length] that(2) by simp
  have hl: "\<forall>b\<in>set hrp. printable b \<and> \<not> ascii_upper_case b"
    if "map ascii_lower s = hrp @ rest" "\<forall>b\<in>set s. printable b" for rest
  proof -
    have "set hrp \<subseteq> set (map ascii_lower s)" unfolding that(1) by simp
    then show ?thesis using that(2) by (force simp: lower_facts)
  qed
  show ?thesis
  proof
    assume "decode_fes s = Inr (hrp, vs)"
    then obtain cs where d: "length s \<le> MAX_STRING_LEN" "\<forall>b\<in>set s. printable b" "\<not> mixed_case s" "hrp \<noteq> []"
      "length hrp \<le> MAX_HRP_LEN" "length cs = CHECKSUM_CHARS" "\<forall>v\<in>set (vs @ cs). drop_bit 5 v = 0"
      "polymod (hrp_expand hrp @ vs @ cs) = BECH32M_CONST"
      "map ascii_lower s = hrp @ [49] @ map (\<lambda>v. CHARSET ! unat v) (vs @ cs)"
      unfolding decode_fes_iff by blast
    have "cs = ?cs" using sum d by blast
    then show "encode_fes hrp vs = Inr (map ascii_lower s) \<and> \<not> mixed_case s"
      using d hl [OF d(9)] len [OF d(9,6)] by (auto simp: encode_fes_def encode_fes_iff checksum_chars)
  next
    assume e: "encode_fes hrp vs = Inr (map ascii_lower s) \<and> \<not> mixed_case s"
    then have *: "hrp \<noteq> []" "length hrp \<le> MAX_HRP_LEN" "\<forall>v\<in>set (vs @ ?cs). drop_bit 5 v = 0"
      "length hrp + 1 + length vs + CHECKSUM_CHARS \<le> MAX_STRING_LEN"
      and l: "map ascii_lower s = hrp @ [49] @ map (\<lambda>v. CHARSET ! unat v) (vs @ ?cs)"
      using cs by (auto simp: encode_fes_def encode_fes_iff checksum_chars)
    show "decode_fes s = Inr (hrp, vs)"
      unfolding decode_fes_iff using * l e pr len [OF l cs(1)] sum [OF cs(1) *(3)] cs(1) by auto
  qed
qed

lemma bytes_canonical:
  "decode_bytes s = Inr (hrp, bs) \<longleftrightarrow> encode_bytes hrp bs = Inr (map ascii_lower s) \<and> \<not> mixed_case s"
  by (auto simp: decode_bytes_def encode_bytes_def res_simps fes_canonical convert_iff)

text \<open>C29: A string is read exactly when it is what the writer makes of the result, with the letters all in
  one case: no second spelling, no other padding and no other checksum is accepted.
\<close>

theorem bech32_canonical:
  "decode_bytes s = Inr (hrp, bs) \<longleftrightarrow> encode_bytes hrp bs = Inr (map ascii_lower s) \<and> \<not> mixed_case s"
  by (rule bytes_canonical)

section \<open>Typing errors\<close>

lemma burst_digits:
  assumes "\<forall>v\<in>set (p @ w @ q). drop_bit 5 v = 0" "\<forall>v\<in>set w'. drop_bit 5 v = 0" "length w = length w'" "length w \<le> 6"
    and "polymod (p @ w @ q) = polymod (p @ w' @ q)"
  shows "w = w'"
proof -
  let ?a = "polymod (p @ w)" and ?b = "polymod (p @ w')"
  have "foldl poly_step (?a XOR ?b) (map2 (XOR) q q) = foldl poly_step ?a q XOR foldl poly_step ?b q"
    by (rule run_xor) simp
  moreover have "foldl poly_step ?a q = foldl poly_step ?b q" using assms(5) by (simp add: polymod_def)
  ultimately have "(sum_shift ^^ length q) (?a XOR ?b) = 0" by (simp add: map2_self run_zeros)
  moreover have "low 30 (?a XOR ?b)" using assms(1,2) by (intro low_xor low_polymod) auto
  ultimately have "?a XOR ?b = 0" using sum_shift_pow_0 by blast
  then have "foldl poly_step (polymod p XOR polymod p) (map2 (XOR) w w') = 0"
    using run_xor [OF assms(3), of "polymod p" "polymod p"] by (simp add: polymod_def)
  then have z: "foldl poly_step 0 (map2 (XOR) w w') = 0" by simp
  have d: "\<forall>x\<in>set (map2 (XOR) w w'). drop_bit 5 x = 0"
    by (rule digits_map2) (use assms(1,2) in auto)
  then have "pack6 (map2 (XOR) w w') = 0" using z run_pack6 [of "map2 (XOR) w w'"] assms(3,4) by simp
  then have "map2 (XOR) w w' = replicate (length w) 0" using pack6_eq_0 [OF d] assms(3,4) by simp
  then show ?thesis by (rule map2_zero [OF assms(3)])
qed

lemma last_49: "49 \<in> set p \<Longrightarrow> \<exists>p1 p2. p = p1 @ [49] @ p2 \<and> 49 \<notin> set (p2 :: bytes)"
  by (metis append_Cons append_Nil split_list_last)

lemma split_at_49:
  assumes "hrp @ [49] @ xs = p1 @ [49] @ p2 @ ys" "49 \<notin> set xs" "49 \<notin> set (p2 @ ys :: bytes)"
  shows "hrp = p1 \<and> xs = p2 @ ys"
proof -
  have "Some (length hrp) = Some (length p1)"
    using rfind_append [OF assms(2), of hrp] rfind_append [OF assms(3), of p1] assms(1) by simp
  then show ?thesis using assms(1) by simp
qed

lemma digit_char_inj:
  assumes "\<forall>v\<in>set vs. drop_bit 5 v = 0" "\<forall>v\<in>set ws. drop_bit 5 v = 0"
    and "map (\<lambda>v. CHARSET ! unat v) vs = map (\<lambda>v. CHARSET ! unat v) ws"
  shows "vs = (ws :: bytes)"
proof -
  have "Inr vs = (Inr ws :: Bech32Error + bytes)"
    using read_data5_write [OF assms(1), of 0 0] read_data5_write [OF assms(2), of 0 0]
    unfolding assms(3) by (rule trans [OF sym])
  then show ?thesis by (rule sum.inject(2) [THEN iffD1])
qed

lemma no_separator: "\<forall>v\<in>set vs. drop_bit 5 v = 0 \<Longrightarrow> 49 \<notin> set (map (\<lambda>v. CHARSET ! unat v) (vs :: bytes))"
  using CHARSET_facts by (metis (no_types, lifting) digit_less imageE list.set_map nth_mem)

lemma lower_49: "49 \<in> set (map ascii_lower s) \<longleftrightarrow> 49 \<in> set s"
proof -
  have "ascii_lower b = 49 \<longleftrightarrow> b = 49" for b
    using unat_ascii_lower [of b] by (auto simp: ascii_lower_def word_unat_eq_iff split: if_splits)
  then show ?thesis by (force simp: image_iff)
qed

lemma decode_after:
  assumes "decode_fes (p @ s) = Inr (hrp, vs)" "map ascii_lower p = p1 @ [49] @ p2" "49 \<notin> set p2" "49 \<notin> set s"
  shows "\<exists>ds. p2 @ map ascii_lower s = map (\<lambda>v. CHARSET ! unat v) ds \<and> (\<forall>v\<in>set ds. drop_bit 5 v = 0) \<and>
    polymod (hrp_expand p1 @ ds) = BECH32M_CONST"
proof -
  obtain cs where c: "\<forall>v\<in>set (vs @ cs). drop_bit 5 v = 0" "polymod (hrp_expand hrp @ vs @ cs) = BECH32M_CONST"
    "map ascii_lower (p @ s) = hrp @ [49] @ map (\<lambda>v. CHARSET ! unat v) (vs @ cs)"
    using assms(1) unfolding decode_fes_iff by blast
  have "hrp = p1 \<and> map (\<lambda>v. CHARSET ! unat v) (vs @ cs) = p2 @ map ascii_lower s"
    using c(3) assms(2-4) no_separator [OF c(1)] by (intro split_at_49) (simp_all add: lower_49 del: set_map)
  then show ?thesis using c(1,2) by metis
qed

lemma burst_equal:
  assumes "decode_fes (p @ w @ q) = Inr r" "decode_fes (p @ w' @ q) = Inr r'"
    and "49 \<in> set p" "49 \<notin> set (w @ w' @ q)" "length w = length w'" "length w \<le> 6"
  shows "map ascii_lower w = map ascii_lower w'"
proof -
  obtain p1 p2 where p: "map ascii_lower p = p1 @ [49] @ p2" "49 \<notin> set p2"
    using last_49 [of "map ascii_lower p"] assms(3) lower_49 by blast
  obtain ds where d: "p2 @ map ascii_lower (w @ q) = map (\<lambda>v. CHARSET ! unat v) ds" "\<forall>v\<in>set ds. drop_bit 5 v = 0"
    "polymod (hrp_expand p1 @ ds) = BECH32M_CONST"
    using decode_after [OF _ p, of "w @ q"] assms(1,4) by (cases r) auto
  obtain es where e: "p2 @ map ascii_lower (w' @ q) = map (\<lambda>v. CHARSET ! unat v) es" "\<forall>v\<in>set es. drop_bit 5 v = 0"
    "polymod (hrp_expand p1 @ es) = BECH32M_CONST"
    using decode_after [OF _ p, of "w' @ q"] assms(2,4) by (cases r') auto
  from d(1) obtain da dw dq where D: "ds = da @ dw @ dq" "p2 = map (\<lambda>v. CHARSET ! unat v) da"
    "map ascii_lower w = map (\<lambda>v. CHARSET ! unat v) dw" "map ascii_lower q = map (\<lambda>v. CHARSET ! unat v) dq"
    by (auto simp: append_eq_map_conv)
  from e(1) obtain ea ew eq where E: "es = ea @ ew @ eq" "p2 = map (\<lambda>v. CHARSET ! unat v) ea"
    "map ascii_lower w' = map (\<lambda>v. CHARSET ! unat v) ew" "map ascii_lower q = map (\<lambda>v. CHARSET ! unat v) eq"
    by (auto simp: append_eq_map_conv)
  have same: "ea = da" "eq = dq" using digit_char_inj D E d(2) e(2) by (metis Un_iff set_append)+
  have "length dw = length w" "length ew = length w'" using D(3) E(3) map_eq_imp_length_eq length_map by metis+
  then have "dw = ew"
    using burst_digits [of "hrp_expand p1 @ da" dw dq ew] d e D(1) E(1) same assms(5,6) hrp_digits by auto
  then show ?thesis using D(3) E(3) by simp
qed



section \<open>Addresses\<close>

lemma address_fits: "length payload = ADDRESS_PAYLOAD_BYTES \<Longrightarrow> \<exists>s. encode_bytes ADDRESS_HRP payload = Inr s"
  by (simp add: encode_bytes_def encode_fes_def encode_fes_iff length_convert_8_to_5 convert_8_to_5_digits
      ADDRESS_HRP_def MAX_HRP_LEN_def MAX_STRING_LEN_def CHECKSUM_CHARS_def printable_def ascii_upper_case_def)

lemma decode_address_iff:
  "decode_address s = Inr payload \<longleftrightarrow>
     length payload = ADDRESS_PAYLOAD_BYTES \<and> encode_address payload = Some (map ascii_lower s) \<and> \<not> mixed_case s"
  by (auto simp: decode_address_def encode_address_def res_simps bytes_canonical split: if_splits sum.splits)

lemma encode_lower: "encode_bytes hrp bs = Inr s \<Longrightarrow> map ascii_lower s = s \<and> \<not> mixed_case s"
proof -
  assume "encode_bytes hrp bs = Inr s"
  then have "\<forall>b\<in>set s. \<not> ascii_upper_case b"
    using CHARSET_facts
    by (auto simp: encode_bytes_def encode_fes_def encode_fes_iff checksum_chars ascii_upper_case_def digit_less
        dest!: bspec [OF sum_digits_facts(2)])
  then show ?thesis using lower_case_id by blast
qed

lemma address_written:
  assumes "length payload = ADDRESS_PAYLOAD_BYTES"
  shows "\<exists>t. encode_address payload = Some t \<and> decode_address t = Inr payload"
proof -
  obtain t where t: "encode_bytes ADDRESS_HRP payload = Inr t" using address_fits assms by blast
  then show ?thesis using encode_lower [OF t] assms by (auto simp: decode_address_iff encode_address_def)
qed

text \<open>Every public key has an address in text form, which reads back as its payload; and an address is
  read from a string only if it is the one that writing the result makes, in capitals or in small letters.
\<close>

theorem address_text:
  "(\<exists>t. address_from_pubkey pubkey = Some t \<and> decode_address t = Inr (address_payload pubkey)) \<and>
   (decode_address s = Inr payload \<longleftrightarrow>
      length payload = ADDRESS_PAYLOAD_BYTES \<and> encode_address payload = Some (map ascii_lower s) \<and> \<not> mixed_case s)"
  using address_written [of "address_payload pubkey"] decode_address_iff [of s payload]
  by (simp add: address_from_pubkey_def address_payload_def)

section \<open>Logins\<close>

definition rig_char :: "u8 \<Rightarrow> bool" where
  "rig_char c \<longleftrightarrow> ascii_alphanumeric c \<or> c = 46 \<or> c = 95 \<or> c = 45"

lemma rig_char_plus: "\<not> rig_char 43"
  by (simp add: rig_char_def ascii_alphanumeric_def ascii_digit_def ascii_upper_case_def ascii_lower_case_def)

lemma sanitise_from_ok:
  "length out \<le> MAX_RIG_LABEL \<Longrightarrow> list_all rig_char out \<Longrightarrow>
     length (sanitise_from cs out) \<le> MAX_RIG_LABEL \<and> list_all rig_char (sanitise_from cs out)"
  by (induction cs out rule: sanitise_from.induct) (auto simp: rig_char_def)

lemma sanitise_from_id: "length (out @ cs) \<le> MAX_RIG_LABEL \<Longrightarrow> list_all rig_char cs \<Longrightarrow> sanitise_from cs out = out @ cs"
  by (induction cs out rule: sanitise_from.induct) (auto simp: rig_char_def)

lemma sanitise_rig_ok:
  "list_all rig_char (sanitise_rig raw)" "sanitise_rig (sanitise_rig raw) = sanitise_rig raw"
  using sanitise_from_ok [of "[]" raw] sanitise_from_id [of "[]" "sanitise_rig raw"]
  by (simp_all add: sanitise_rig_def)

lemma char_pos_None: "char_pos c xs = None \<longleftrightarrow> c \<notin> set xs"
  by (induction xs) auto

lemma char_pos_app: "c \<notin> set xs \<Longrightarrow> char_pos c (xs @ c # ys) = Some (length xs)"
  by (auto simp: char_pos_iff nth_append)

lemma char_pos_take: "char_pos c s = Some i \<Longrightarrow> c \<notin> set (take i s)"
  by (auto simp: char_pos_iff in_set_conv_nth)

lemma split_pin_head:
  "split_pin s = Inr (head, pin) \<Longrightarrow> 43 \<notin> set head \<and> (pin = None \<longrightarrow> head = s)"
  by (auto simp: split_pin_def Let_def char_pos_None dest: char_pos_take split: option.splits if_splits)

lemma ascii_lower_sign: "43 \<in> set (map ascii_lower s) \<longleftrightarrow> 43 \<in> set s" "46 \<in> set (map ascii_lower s) \<longleftrightarrow> 46 \<in> set s"
proof -
  have "ascii_lower b = 43 \<longleftrightarrow> b = 43" "ascii_lower b = 46 \<longleftrightarrow> b = 46" for b
    using unat_ascii_lower [of b] by (auto simp: ascii_lower_def word_unat_eq_iff split: if_splits)
  then show "43 \<in> set (map ascii_lower s) \<longleftrightarrow> 43 \<in> set s" "46 \<in> set (map ascii_lower s) \<longleftrightarrow> 46 \<in> set s"
    by (force simp: image_iff)+
qed

lemma parse_login_Ok:
  "parse_login s hrp = Inr l \<longleftrightarrow>
     (\<exists>head pin addr rig_raw payload. split_pin s = Inr (head, pin) \<and>
        split_rig head = (addr, rig_raw) \<and>
        addr \<noteq> [] \<and> s \<noteq> [] \<and> decode_bytes addr = Inr (hrp, payload) \<and> length payload = ADDRESS_PAYLOAD_BYTES \<and>
        l = \<lparr>lg_address = map ascii_lower addr, lg_address_bytes = payload, lg_rig = sanitise_rig rig_raw, lg_pinned_difficulty = pin\<rparr>)"
proof (cases "split_pin s")
  case (Inr hp)
  obtain head pin where hp: "hp = (head, pin)" by (cases hp)
  obtain addr rig_raw where ar: "split_rig head = (addr, rig_raw)" by (cases "split_rig head")
  show ?thesis
    by (cases "decode_bytes addr") (auto simp: parse_login_def Inr hp ar split: if_splits)
qed (simp add: parse_login_def)

lemma parse_plain:
  assumes "43 \<notin> set a" "46 \<notin> set a" "a \<noteq> []" "decode_bytes a = Inr (hrp, payload)" "length payload = ADDRESS_PAYLOAD_BYTES"
    and "list_all rig_char r"
  shows "parse_login (if r = [] then a else a @ [46] @ r) hrp =
    Inr \<lparr>lg_address = map ascii_lower a, lg_address_bytes = payload, lg_rig = sanitise_rig r, lg_pinned_difficulty = None\<rparr>"
proof -
  have "43 \<notin> set r" using assms(6) rig_char_plus by (auto simp: list_all_iff)
  then have "split_pin (if r = [] then a else a @ [46] @ r) = Inr (if r = [] then a else a @ [46] @ r, None)"
    using assms(1) by (simp add: split_pin_def char_pos_None [THEN iffD2])
  moreover have "split_rig (if r = [] then a else a @ [46] @ r) = (a, r)"
    using assms(2) by (simp add: split_rig_def char_pos_app char_pos_None [THEN iffD2])
  ultimately show ?thesis unfolding parse_login_Ok using assms(3-5) by (intro exI conjI) auto
qed

lemma char_pos_addr:
  assumes "split_rig head = (a, r)"
  shows "46 \<notin> set a" "set a \<subseteq> set head"
  using assms char_pos_take [of 46 head] by (auto simp: split_rig_def char_pos_None dest: in_set_takeD split: option.splits)

text \<open>The worker name that the server makes of a login is itself a login: it is accepted, and names the same
  address, payload and rig, with the pinned difficulty left out. So one worker has one name.
\<close>

theorem worker_id_stable:
  assumes "parse_login s hrp = Inr l"
  shows "parse_login (worker_id l) hrp = Inr (l\<lparr>lg_pinned_difficulty := None\<rparr>)"
proof -
  obtain head pin addr rig_raw payload where p: "split_pin s = Inr (head, pin)" "addr \<noteq> []"
    "split_rig head = (addr, rig_raw)"
    "decode_bytes addr = Inr (hrp, payload)" "length payload = ADDRESS_PAYLOAD_BYTES"
    and l: "l = \<lparr>lg_address = map ascii_lower addr, lg_address_bytes = payload, lg_rig = sanitise_rig rig_raw, lg_pinned_difficulty = pin\<rparr>"
    using assms unfolding parse_login_Ok by blast
  have "decode_bytes (map ascii_lower addr) = Inr (hrp, payload)" using p(4) by (simp add: bytes_canonical)
  moreover have "43 \<notin> set (map ascii_lower addr)" "46 \<notin> set (map ascii_lower addr)"
    using split_pin_head [OF p(1)] char_pos_addr [OF p(3)] ascii_lower_sign by blast+
  ultimately have "parse_login (if sanitise_rig rig_raw = [] then map ascii_lower addr
        else map ascii_lower addr @ [46] @ sanitise_rig rig_raw) hrp =
      Inr \<lparr>lg_address = map ascii_lower (map ascii_lower addr), lg_address_bytes = payload,
        lg_rig = sanitise_rig (sanitise_rig rig_raw), lg_pinned_difficulty = None\<rparr>"
    using p(2,5) sanitise_rig_ok(1) by (intro parse_plain) simp_all
  then show ?thesis unfolding worker_id_def l by (auto simp: sanitise_rig_ok comp_def split: if_splits)
qed

lemma encode_chars:
  assumes "encode_bytes hrp bs = Inr s"
  shows "set s \<subseteq> set hrp \<union> {49} \<union> set CHARSET"
proof -
  let ?vs = "convert_8_to_5 bs" and ?cs = "sum_digits CHECKSUM_CHARS
    (polymod (hrp_expand hrp @ convert_8_to_5 bs @ replicate CHECKSUM_CHARS 0) XOR BECH32M_CONST)"
  have "s = hrp @ [49] @ map (\<lambda>v. CHARSET ! unat v) (?vs @ ?cs)"
    using assms by (simp add: encode_bytes_def encode_fes_def encode_fes_iff checksum_chars)
  moreover have "\<forall>v\<in>set (?vs @ ?cs). CHARSET ! unat v \<in> set CHARSET"
    using convert_8_to_5_digits sum_digits_facts(2) CHARSET_facts(1) by (auto simp: digit_less)
  ultimately show ?thesis by auto
qed

theorem worker_id_stable_witness:
  "\<exists>s l. encode_address (replicate 20 7) = Some s \<and> parse_login (s @ [46, 114]) ADDRESS_HRP = Inr l \<and>
     parse_login (worker_id l) ADDRESS_HRP = Inr (l\<lparr>lg_pinned_difficulty := None\<rparr>)"
proof -
  obtain s where s: "encode_address (replicate 20 7) = Some s" "decode_address s = Inr (replicate 20 7)"
    using address_written [of "replicate 20 7"] by auto
  then have e: "encode_bytes ADDRESS_HRP (replicate 20 7) = Inr s" "decode_bytes s = Inr (ADDRESS_HRP, replicate 20 7)"
    by (auto simp: encode_address_def decode_address_def res_simps split: sum.splits if_splits)
  have "43 \<notin> set s" "46 \<notin> set s" "s \<noteq> []"
    using encode_chars [OF e(1)] e(1) by (auto simp: ADDRESS_HRP_def CHARSET_def encode_bytes_def encode_fes_def encode_fes_iff)
  then have "parse_login (if [114 :: u8] = [] then s else s @ [46] @ [114]) ADDRESS_HRP = Inr
      \<lparr>lg_address = map ascii_lower s, lg_address_bytes = replicate 20 7, lg_rig = sanitise_rig [114], lg_pinned_difficulty = None\<rparr>"
    using e(2) by (intro parse_plain) (simp_all add: rig_char_def ascii_alphanumeric_def ascii_lower_case_def)
  then obtain l where "parse_login (s @ [46, 114]) ADDRESS_HRP = Inr l" by simp
  then show ?thesis using s(1) worker_id_stable by blast
qed

end
