(* ===== verification/Wire.thy ===== *)
theory Wire imports Constants begin

text \<open>
  The wire format of the peer-to-peer layer: \<open>lib/p2p/src/wire/cmd.rs\<close> (commands and their caps),
  \<open>msg.rs\<close> (messages), \<open>codec.rs\<close> (payloads) and \<open>frame.rs\<close> (frames and the reader of a byte stream).
  A cursor \<open>Cur\<close> over a slice is what is left of the slice, \<open>b[i..]\<close>, since nothing else of it is
  ever read. \<open>Hash32\<close> and the other arrays are byte strings whose length \<open>msg_ok\<close> states.
\<close>

section \<open>Constants\<close>

definition FRAME_HEADER_BYTES :: nat where [simp]: "FRAME_HEADER_BYTES = 10"
definition MAX_P2P_MSG_BYTES :: nat where [simp]: "MAX_P2P_MSG_BYTES = 8388608"
definition MAX_HEADERS_PER_MSG :: nat where [simp]: "MAX_HEADERS_PER_MSG = 2000"
definition LOCATOR_MAX :: nat where [simp]: "LOCATOR_MAX = 64"
definition INV_MAX :: nat where [simp]: "INV_MAX = 4096"
definition INV_ITEM_BYTES :: nat where [simp]: "INV_ITEM_BYTES = 33"
definition ADDR_MSG_MAX :: nat where [simp]: "ADDR_MSG_MAX = 512"
definition ADDR_REC_BYTES :: nat where [simp]: "ADDR_REC_BYTES = 30"
definition UA_MAX :: nat where [simp]: "UA_MAX = 64"
definition CHECKPOINT_SIGS_MAX :: nat where [simp]: "CHECKPOINT_SIGS_MAX = 15"

definition CAP_HELLO :: nat where [simp]: "CAP_HELLO = 103 + UA_MAX"
definition CAP_HELLO_ACK :: nat where [simp]: "CAP_HELLO_ACK = 0"
definition CAP_PING :: nat where [simp]: "CAP_PING = 8"
definition CAP_PONG :: nat where [simp]: "CAP_PONG = 8"
definition CAP_GETADDR :: nat where [simp]: "CAP_GETADDR = 0"
definition CAP_ADDR :: nat where [simp]: "CAP_ADDR = 4 + ADDR_MSG_MAX * ADDR_REC_BYTES"
definition CAP_INV :: nat where [simp]: "CAP_INV = 4 + INV_MAX * INV_ITEM_BYTES"
definition CAP_GETHEADERS :: nat where [simp]: "CAP_GETHEADERS = 4 + LOCATOR_MAX * 32 + 32"
definition CAP_HEADERS :: nat where [simp]: "CAP_HEADERS = 4 + MAX_HEADERS_PER_MSG * HEADER_BYTES"
definition CAP_BLOCK :: nat where [simp]: "CAP_BLOCK = MAX_BLOCK_BYTES"
definition CAP_TX :: nat where [simp]: "CAP_TX = MAX_TX_BYTES"
definition CAP_MEMPOOL :: nat where [simp]: "CAP_MEMPOOL = 16"
definition CAP_FEEFILTER :: nat where [simp]: "CAP_FEEFILTER = 16"
definition CAP_CHECKPOINT :: nat where [simp]: "CAP_CHECKPOINT = 8 + 32 + 1 + CHECKPOINT_SIGS_MAX * 65"
definition CAP_GETCHECKPOINT :: nat where [simp]: "CAP_GETCHECKPOINT = 0"

text \<open>The assertions that \<open>constants.rs\<close> makes about the caps at compile time.\<close>

definition wire_static_asserts :: bool where
  "wire_static_asserts \<longleftrightarrow>
     CAP_HELLO = 167 \<and> CAP_GETHEADERS = 2084 \<and> CAP_HEADERS = 264004 \<and> CAP_CHECKPOINT = 1016 \<and>
     CAP_INV = 135172 \<and> CAP_ADDR = 15364 \<and> CAP_BLOCK \<le> MAX_P2P_MSG_BYTES \<and> CAP_HEADERS \<le> MAX_P2P_MSG_BYTES"

lemma wire_static_asserts_hold: wire_static_asserts
  by (simp add: wire_static_asserts_def)

section \<open>Commands\<close>

datatype Cmd =
    CmdHello | CmdHelloAck | CmdPing | CmdPong | CmdGetAddr | CmdAddr | CmdInv | CmdGetData | CmdNotFound
  | CmdGetHeaders | CmdHeaders | CmdBlock | CmdTx | CmdMempool | CmdFeeFilter | CmdCheckpoint | CmdGetCheckpoint

fun cmd_code :: "Cmd \<Rightarrow> u8" where
  "cmd_code CmdHello = 0x01"
| "cmd_code CmdHelloAck = 0x02"
| "cmd_code CmdPing = 0x03"
| "cmd_code CmdPong = 0x04"
| "cmd_code CmdGetAddr = 0x05"
| "cmd_code CmdAddr = 0x06"
| "cmd_code CmdInv = 0x10"
| "cmd_code CmdGetData = 0x11"
| "cmd_code CmdNotFound = 0x12"
| "cmd_code CmdGetHeaders = 0x13"
| "cmd_code CmdHeaders = 0x14"
| "cmd_code CmdBlock = 0x15"
| "cmd_code CmdTx = 0x16"
| "cmd_code CmdMempool = 0x17"
| "cmd_code CmdFeeFilter = 0x18"
| "cmd_code CmdCheckpoint = 0x1A"
| "cmd_code CmdGetCheckpoint = 0x1B"

definition cmd_from_code :: "u8 \<Rightarrow> Cmd option" where
  "cmd_from_code c =
     (if c = 0x01 then Some CmdHello
      else if c = 0x02 then Some CmdHelloAck
      else if c = 0x03 then Some CmdPing
      else if c = 0x04 then Some CmdPong
      else if c = 0x05 then Some CmdGetAddr
      else if c = 0x06 then Some CmdAddr
      else if c = 0x10 then Some CmdInv
      else if c = 0x11 then Some CmdGetData
      else if c = 0x12 then Some CmdNotFound
      else if c = 0x13 then Some CmdGetHeaders
      else if c = 0x14 then Some CmdHeaders
      else if c = 0x15 then Some CmdBlock
      else if c = 0x16 then Some CmdTx
      else if c = 0x17 then Some CmdMempool
      else if c = 0x18 then Some CmdFeeFilter
      else if c = 0x1A then Some CmdCheckpoint
      else if c = 0x1B then Some CmdGetCheckpoint
      else None)"

fun payload_cap :: "Cmd \<Rightarrow> nat" where
  "payload_cap CmdHello = CAP_HELLO"
| "payload_cap CmdHelloAck = CAP_HELLO_ACK"
| "payload_cap CmdPing = CAP_PING"
| "payload_cap CmdPong = CAP_PONG"
| "payload_cap CmdGetAddr = CAP_GETADDR"
| "payload_cap CmdAddr = CAP_ADDR"
| "payload_cap CmdInv = CAP_INV"
| "payload_cap CmdGetData = CAP_INV"
| "payload_cap CmdNotFound = CAP_INV"
| "payload_cap CmdGetHeaders = CAP_GETHEADERS"
| "payload_cap CmdHeaders = CAP_HEADERS"
| "payload_cap CmdBlock = CAP_BLOCK"
| "payload_cap CmdTx = CAP_TX"
| "payload_cap CmdMempool = CAP_MEMPOOL"
| "payload_cap CmdFeeFilter = CAP_FEEFILTER"
| "payload_cap CmdCheckpoint = CAP_CHECKPOINT"
| "payload_cap CmdGetCheckpoint = CAP_GETCHECKPOINT"

definition cmd_ALL :: "Cmd list" where
  "cmd_ALL = [CmdHello, CmdHelloAck, CmdPing, CmdPong, CmdGetAddr, CmdAddr, CmdInv, CmdGetData, CmdNotFound,
     CmdGetHeaders, CmdHeaders, CmdBlock, CmdTx, CmdMempool, CmdFeeFilter, CmdCheckpoint, CmdGetCheckpoint]"

fun cmd_name :: "Cmd \<Rightarrow> string" where
  "cmd_name CmdHello = ''HELLO''"
| "cmd_name CmdHelloAck = ''HELLO_ACK''"
| "cmd_name CmdPing = ''PING''"
| "cmd_name CmdPong = ''PONG''"
| "cmd_name CmdGetAddr = ''GETADDR''"
| "cmd_name CmdAddr = ''ADDR''"
| "cmd_name CmdInv = ''INV''"
| "cmd_name CmdGetData = ''GETDATA''"
| "cmd_name CmdNotFound = ''NOTFOUND''"
| "cmd_name CmdGetHeaders = ''GETHEADERS''"
| "cmd_name CmdHeaders = ''HEADERS''"
| "cmd_name CmdBlock = ''BLOCK''"
| "cmd_name CmdTx = ''TX''"
| "cmd_name CmdMempool = ''MEMPOOL''"
| "cmd_name CmdFeeFilter = ''FEEFILTER''"
| "cmd_name CmdCheckpoint = ''CHECKPOINT''"
| "cmd_name CmdGetCheckpoint = ''GETCHECKPOINT''"

definition carries_headers :: "Cmd \<Rightarrow> bool" where "carries_headers c \<longleftrightarrow> c = CmdHeaders"

section \<open>Messages\<close>

record Hello =
  he_proto_ver :: u16
  he_min_proto :: u16
  he_chain_id :: bytes
  he_services :: u32
  he_nonce :: u64
  he_time :: u64
  he_height :: u64
  he_tip_hash :: bytes
  he_cum_work :: bytes
  he_listen_port :: u16
  he_user_agent :: bytes

datatype InvKind = InvTx | InvBlock

fun inv_code :: "InvKind \<Rightarrow> u8" where
  "inv_code InvTx = 1"
| "inv_code InvBlock = 2"

definition inv_from_code :: "u8 \<Rightarrow> InvKind option" where
  "inv_from_code c = (if c = 1 then Some InvTx else if c = 2 then Some InvBlock else None)"

record InvItem =
  ii_kind :: InvKind
  ii_hash :: bytes

record AddrRec =
  ar_time :: u64
  ar_services :: u32
  ar_ip :: bytes
  ar_port :: u16

record CheckpointMsg =
  cm_height :: u64
  cm_hash :: bytes
  cm_sigs :: "(u8 \<times> bytes) list"

datatype Msg =
    MHello Hello | MHelloAck | MPing u64 | MPong u64 | MGetAddr | MAddr "AddrRec list"
  | MInv "InvItem list" | MGetData "InvItem list" | MNotFound "InvItem list"
  | MGetHeaders "bytes list" bytes | MHeaders "bytes list" | MBlock bytes | MTx bytes | MMempool
  | MFeeFilter u128 | MCheckpoint CheckpointMsg | MGetCheckpoint

fun msg_cmd :: "Msg \<Rightarrow> Cmd" where
  "msg_cmd (MHello _) = CmdHello"
| "msg_cmd MHelloAck = CmdHelloAck"
| "msg_cmd (MPing _) = CmdPing"
| "msg_cmd (MPong _) = CmdPong"
| "msg_cmd MGetAddr = CmdGetAddr"
| "msg_cmd (MAddr _) = CmdAddr"
| "msg_cmd (MInv _) = CmdInv"
| "msg_cmd (MGetData _) = CmdGetData"
| "msg_cmd (MNotFound _) = CmdNotFound"
| "msg_cmd (MGetHeaders _ _) = CmdGetHeaders"
| "msg_cmd (MHeaders _) = CmdHeaders"
| "msg_cmd (MBlock _) = CmdBlock"
| "msg_cmd (MTx _) = CmdTx"
| "msg_cmd MMempool = CmdMempool"
| "msg_cmd (MFeeFilter _) = CmdFeeFilter"
| "msg_cmd (MCheckpoint _) = CmdCheckpoint"
| "msg_cmd MGetCheckpoint = CmdGetCheckpoint"

datatype WireError =
    BadMagic | UnknownCommand u8 | NonZeroFlags u8 | Oversize Cmd u32 nat | OversizeAbsolute u32
  | Truncated nat nat | Malformed string | TooManyItems nat nat

fun wire_points :: "WireError \<Rightarrow> u32" where
  "wire_points (UnknownCommand _) = 20"
| "wire_points _ = 100"

definition is_silent_drop :: "WireError \<Rightarrow> bool" where "is_silent_drop e \<longleftrightarrow> e = BadMagic"

section \<open>Writing a payload\<close>

definition encode_addr :: "AddrRec \<Rightarrow> bytes" where
  "encode_addr a = to_le 8 (ar_time a) @ to_le 4 (ar_services a) @ ar_ip a @ to_le 2 (ar_port a)"

definition encode_inv :: "InvItem \<Rightarrow> bytes" where
  "encode_inv it = [inv_code (ii_kind it)] @ ii_hash it"

definition encode_items :: "InvItem list \<Rightarrow> bytes" where
  "encode_items v = to_le 4 (word_of_nat (length v) :: u32) @ concat (map encode_inv v)"

definition encode_hello :: "Hello \<Rightarrow> bytes" where
  "encode_hello h =
     (let ua = if UA_MAX < length (he_user_agent h) then take UA_MAX (he_user_agent h) else he_user_agent h
      in to_le 2 (he_proto_ver h) @ to_le 2 (he_min_proto h) @ he_chain_id h @ to_le 4 (he_services h)
         @ to_le 8 (he_nonce h) @ to_le 8 (he_time h) @ to_le 8 (he_height h) @ he_tip_hash h @ he_cum_work h
         @ to_le 2 (he_listen_port h) @ [word_of_nat (length ua)] @ ua)"

definition encode_sig :: "u8 \<times> bytes \<Rightarrow> bytes" where
  "encode_sig s = [fst s] @ snd s"

fun msg_encode :: "Msg \<Rightarrow> bytes" where
  "msg_encode (MHello h) = encode_hello h"
| "msg_encode MHelloAck = []"
| "msg_encode MGetAddr = []"
| "msg_encode MMempool = []"
| "msg_encode MGetCheckpoint = []"
| "msg_encode (MPing n) = to_le 8 n"
| "msg_encode (MPong n) = to_le 8 n"
| "msg_encode (MAddr v) = to_le 4 (word_of_nat (length v) :: u32) @ concat (map encode_addr v)"
| "msg_encode (MInv v) = encode_items v"
| "msg_encode (MGetData v) = encode_items v"
| "msg_encode (MNotFound v) = encode_items v"
| "msg_encode (MGetHeaders loc stop) = to_le 4 (word_of_nat (length loc) :: u32) @ concat loc @ stop"
| "msg_encode (MHeaders v) = to_le 4 (word_of_nat (length v) :: u32) @ concat v"
| "msg_encode (MBlock b) = b"
| "msg_encode (MTx b) = b"
| "msg_encode (MFeeFilter f) = to_le 16 f"
| "msg_encode (MCheckpoint c) =
     to_le 8 (cm_height c) @ cm_hash c @ [word_of_nat (length (cm_sigs c))] @ concat (map encode_sig (cm_sigs c))"

section \<open>Reading a payload\<close>

definition cur_need :: "nat \<Rightarrow> bytes \<Rightarrow> WireError + unit" where
  "cur_need n b = (if length b < n then Inl (Truncated n (length b)) else Inr ())"

definition cur_take :: "nat \<Rightarrow> bytes \<Rightarrow> WireError + bytes \<times> bytes" where
  "cur_take n b = and_then (cur_need n b) (\<lambda>_. Inr (take n b, drop n b))"

definition cur_u8 :: "bytes \<Rightarrow> WireError + u8 \<times> bytes" where
  "cur_u8 b = and_then (cur_take 1 b) (\<lambda>(s, b). Inr (s ! 0, b))"

definition cur_u16 :: "bytes \<Rightarrow> WireError + u16 \<times> bytes" where
  "cur_u16 b = and_then (cur_take 2 b) (\<lambda>(s, b). Inr (from_le s, b))"

definition cur_u32 :: "bytes \<Rightarrow> WireError + u32 \<times> bytes" where
  "cur_u32 b = and_then (cur_take 4 b) (\<lambda>(s, b). Inr (from_le s, b))"

definition cur_u64 :: "bytes \<Rightarrow> WireError + u64 \<times> bytes" where
  "cur_u64 b = and_then (cur_take 8 b) (\<lambda>(s, b). Inr (from_le s, b))"

definition cur_u128 :: "bytes \<Rightarrow> WireError + u128 \<times> bytes" where
  "cur_u128 b = and_then (cur_take 16 b) (\<lambda>(s, b). Inr (from_le s, b))"

text \<open>\<open>arr::<N>\<close>, and \<open>arr32\<close> with \<open>N = 32\<close>.\<close>

definition cur_arr :: "nat \<Rightarrow> bytes \<Rightarrow> WireError + bytes \<times> bytes" where
  "cur_arr n b = cur_take n b"

definition cur_finish :: "bytes \<Rightarrow> WireError + unit" where
  "cur_finish b = (if b = [] then Inr () else Inl (Malformed ''trailing bytes after payload''))"

definition cur_count :: "nat \<Rightarrow> bytes \<Rightarrow> WireError + nat \<times> bytes" where
  "cur_count cap b =
     and_then (cur_u32 b) (\<lambda>(n, b).
       if cap < unat n then Inl (TooManyItems (unat n) cap) else Inr (unat n, b))"

text \<open>The loops \<open>for _ in 0..n\<close> that read \<open>n\<close> items into a vector.\<close>

fun read_items :: "(bytes \<Rightarrow> WireError + 'a \<times> bytes) \<Rightarrow> nat \<Rightarrow> bytes \<Rightarrow> WireError + 'a list \<times> bytes" where
  "read_items f 0 b = Inr ([], b)"
| "read_items f (Suc n) b =
     and_then (f b) (\<lambda>(x, b). and_then (read_items f n b) (\<lambda>(xs, b). Inr (x # xs, b)))"

definition read_addr :: "bytes \<Rightarrow> WireError + AddrRec \<times> bytes" where
  "read_addr b =
     and_then (cur_u64 b) (\<lambda>(time, b).
     and_then (cur_u32 b) (\<lambda>(services, b).
     and_then (cur_arr 16 b) (\<lambda>(ip, b).
     and_then (cur_u16 b) (\<lambda>(port, b).
       Inr (\<lparr>ar_time = time, ar_services = services, ar_ip = ip, ar_port = port\<rparr>, b)))))"

definition read_inv :: "bytes \<Rightarrow> WireError + InvItem \<times> bytes" where
  "read_inv b =
     and_then (cur_u8 b) (\<lambda>(k, b).
     and_then (ok_or (Malformed ''unknown inv type byte'') (inv_from_code k)) (\<lambda>kind.
     and_then (cur_arr 32 b) (\<lambda>(hash, b). Inr (\<lparr>ii_kind = kind, ii_hash = hash\<rparr>, b))))"

definition read_sig :: "bytes \<Rightarrow> WireError + (u8 \<times> bytes) \<times> bytes" where
  "read_sig b =
     and_then (cur_u8 b) (\<lambda>(i, b). and_then (cur_arr 64 b) (\<lambda>(sig, b). Inr ((i, sig), b)))"

definition finished :: "Msg \<Rightarrow> bytes \<Rightarrow> WireError + Msg" where
  "finished m b = and_then (cur_finish b) (\<lambda>_. Inr m)"

definition decode_hello :: "bytes \<Rightarrow> WireError + Msg" where
  "decode_hello b =
     and_then (cur_u16 b) (\<lambda>(proto_ver, b).
     and_then (cur_u16 b) (\<lambda>(min_proto, b).
     and_then (cur_arr 4 b) (\<lambda>(chain_id, b).
     and_then (cur_u32 b) (\<lambda>(services, b).
     and_then (cur_u64 b) (\<lambda>(nonce, b).
     and_then (cur_u64 b) (\<lambda>(time, b).
     and_then (cur_u64 b) (\<lambda>(height, b).
     and_then (cur_arr 32 b) (\<lambda>(tip_hash, b).
     and_then (cur_arr 32 b) (\<lambda>(cum_work, b).
     and_then (cur_u16 b) (\<lambda>(listen_port, b).
     and_then (cur_u8 b) (\<lambda>(ua_len, b).
     if UA_MAX < unat ua_len then Inl (TooManyItems (unat ua_len) UA_MAX)
     else and_then (cur_take (unat ua_len) b) (\<lambda>(user_agent, b).
       finished (MHello \<lparr>he_proto_ver = proto_ver, he_min_proto = min_proto, he_chain_id = chain_id,
         he_services = services, he_nonce = nonce, he_time = time, he_height = height, he_tip_hash = tip_hash,
         he_cum_work = cum_work, he_listen_port = listen_port, he_user_agent = user_agent\<rparr>) b))))))))))))"

definition decode_items :: "(InvItem list \<Rightarrow> Msg) \<Rightarrow> bytes \<Rightarrow> WireError + Msg" where
  "decode_items mk b =
     and_then (cur_count INV_MAX b) (\<lambda>(n, b).
     and_then (cur_need (n * INV_ITEM_BYTES) b) (\<lambda>_.
     and_then (read_items read_inv n b) (\<lambda>(v, b). finished (mk v) b)))"

definition decode_addr :: "bytes \<Rightarrow> WireError + Msg" where
  "decode_addr b =
     and_then (cur_count ADDR_MSG_MAX b) (\<lambda>(n, b).
     and_then (cur_need (n * ADDR_REC_BYTES) b) (\<lambda>_.
     and_then (read_items read_addr n b) (\<lambda>(v, b). finished (MAddr v) b)))"

definition decode_get_headers :: "bytes \<Rightarrow> WireError + Msg" where
  "decode_get_headers b =
     and_then (cur_count LOCATOR_MAX b) (\<lambda>(n, b).
     and_then (cur_need (n * 32 + 32) b) (\<lambda>_.
     and_then (read_items (cur_arr 32) n b) (\<lambda>(locator, b).
     and_then (cur_arr 32 b) (\<lambda>(stop, b). finished (MGetHeaders locator stop) b))))"

definition decode_headers :: "bytes \<Rightarrow> WireError + Msg" where
  "decode_headers b =
     and_then (cur_count MAX_HEADERS_PER_MSG b) (\<lambda>(n, b).
     and_then (cur_need (n * HEADER_BYTES) b) (\<lambda>_.
     and_then (read_items (cur_arr HEADER_BYTES) n b) (\<lambda>(v, b). finished (MHeaders v) b)))"

definition decode_checkpoint :: "bytes \<Rightarrow> WireError + Msg" where
  "decode_checkpoint b =
     and_then (cur_u64 b) (\<lambda>(height, b).
     and_then (cur_arr 32 b) (\<lambda>(hash, b).
     and_then (cur_u8 b) (\<lambda>(n, b).
     if CHECKPOINT_SIGS_MAX < unat n then Inl (TooManyItems (unat n) CHECKPOINT_SIGS_MAX)
     else and_then (cur_need (unat n * 65) b) (\<lambda>_.
       and_then (read_items read_sig (unat n) b) (\<lambda>(sigs, b).
         finished (MCheckpoint \<lparr>cm_height = height, cm_hash = hash, cm_sigs = sigs\<rparr>) b)))))"

definition msg_decode :: "Cmd \<Rightarrow> bytes \<Rightarrow> WireError + Msg" where
  "msg_decode cmd payload =
     (if payload_cap cmd < length payload
      then Inl (Oversize cmd (word_of_nat (length payload)) (payload_cap cmd))
      else case cmd of
        CmdHello \<Rightarrow> decode_hello payload
      | CmdHelloAck \<Rightarrow> finished MHelloAck payload
      | CmdGetAddr \<Rightarrow> finished MGetAddr payload
      | CmdGetCheckpoint \<Rightarrow> finished MGetCheckpoint payload
      | CmdMempool \<Rightarrow> finished MMempool payload
      | CmdPing \<Rightarrow> and_then (cur_u64 payload) (\<lambda>(n, b). finished (MPing n) b)
      | CmdPong \<Rightarrow> and_then (cur_u64 payload) (\<lambda>(n, b). finished (MPong n) b)
      | CmdAddr \<Rightarrow> decode_addr payload
      | CmdInv \<Rightarrow> decode_items MInv payload
      | CmdGetData \<Rightarrow> decode_items MGetData payload
      | CmdNotFound \<Rightarrow> decode_items MNotFound payload
      | CmdGetHeaders \<Rightarrow> decode_get_headers payload
      | CmdHeaders \<Rightarrow> decode_headers payload
      | CmdBlock \<Rightarrow>
          if length payload < HEADER_BYTES + 4 then Inl (Truncated (HEADER_BYTES + 4) (length payload))
          else Inr (MBlock payload)
      | CmdTx \<Rightarrow> if payload = [] then Inl (Truncated 1 0) else Inr (MTx payload)
      | CmdFeeFilter \<Rightarrow> and_then (cur_u128 payload) (\<lambda>(f, b). finished (MFeeFilter f) b)
      | CmdCheckpoint \<Rightarrow> decode_checkpoint payload)"

section \<open>Frames\<close>

record FrameHeader =
  fh_cmd :: Cmd
  fh_length :: u32

text \<open>The buffer has \<open>FRAME_HEADER_BYTES\<close> bytes, so that no index is out of range.\<close>

definition parse_frame_header :: "bytes \<Rightarrow> bytes \<Rightarrow> WireError + FrameHeader" where
  "parse_frame_header buf mg =
     (if slice 0 4 buf \<noteq> mg then Inl BadMagic
      else case cmd_from_code (buf ! 4) of
        None \<Rightarrow> Inl (UnknownCommand (buf ! 4))
      | Some cmd \<Rightarrow>
          if buf ! 5 \<noteq> 0 then Inl (NonZeroFlags (buf ! 5))
          else let len = from_le [buf ! 6, buf ! 7, buf ! 8, buf ! 9] :: u32 in
            if MAX_P2P_MSG_BYTES < unat len then Inl (OversizeAbsolute len)
            else let cap = payload_cap cmd in
              if cap < unat len then Inl (Oversize cmd len cap)
              else Inr \<lparr>fh_cmd = cmd, fh_length = len\<rparr>)"

definition encode_frame :: "bytes \<Rightarrow> Cmd \<Rightarrow> bytes \<Rightarrow> bytes" where
  "encode_frame mg cmd payload =
     mg @ [cmd_code cmd] @ [0] @ to_le 4 (word_of_nat (length payload) :: u32) @ payload"

text \<open>The capacity of the buffer, which \<open>push\<close> trims afterwards, is not part of the model.\<close>

record FrameReader =
  fr_magic :: bytes
  fr_pending :: bytes

definition reader_new :: "bytes \<Rightarrow> FrameReader" where
  "reader_new mg = \<lparr>fr_magic = mg, fr_pending = []\<rparr>"

definition buffered :: "FrameReader \<Rightarrow> nat" where
  "buffered r = length (fr_pending r)"

function frame_loop :: "bytes \<Rightarrow> bytes \<Rightarrow> (Cmd \<times> bytes) list \<Rightarrow> bytes \<times> (WireError + (Cmd \<times> bytes) list)" where
  "frame_loop mg pending out =
     (if length pending < FRAME_HEADER_BYTES then (pending, Inr out)
      else case parse_frame_header (take FRAME_HEADER_BYTES pending) mg of
        Inl e \<Rightarrow> (pending, Inl e)
      | Inr fh \<Rightarrow>
          let total = FRAME_HEADER_BYTES + unat (fh_length fh) in
          if length pending < total then (pending, Inr out)
          else frame_loop mg (drop total pending) (out @ [(fh_cmd fh, slice FRAME_HEADER_BYTES total pending)]))"
  by pat_completeness auto
termination by (relation "measure (\<lambda>(mg, pending, out). length pending)") auto

definition push :: "bytes \<Rightarrow> FrameReader \<Rightarrow> FrameReader \<times> (WireError + (Cmd \<times> bytes) list)" where
  "push bs r =
     (let (pending, res) = frame_loop (fr_magic r) (fr_pending r @ bs) []
      in (r\<lparr>fr_pending := pending\<rparr>, res))"

end
