(* ===== verification/WireFacts.thy ===== *)
theory WireFacts imports Wire begin

text \<open>
  What the wire format promises: a payload is accepted exactly when it is the encoding of a well-formed
  message, and a stream of frames delivers the same messages however it is cut into pieces.
\<close>

section \<open>Readers\<close>

text \<open>A reader of one item inverts its writer: it accepts what starts with the encoding of a well-formed
  item and returns the rest. The loops over items inherit this.\<close>

locale item_codec =
  fixes rd :: "bytes \<Rightarrow> WireError + 'a \<times> bytes" and wr :: "'a \<Rightarrow> bytes" and ok :: "'a \<Rightarrow> bool"
  assumes rd_iff: "rd b = Inr (x, r) \<longleftrightarrow> ok x \<and> b = wr x @ r"
begin

lemma items_iff:
  "read_items rd n b = Inr (xs, r) \<longleftrightarrow> length xs = n \<and> list_all ok xs \<and> b = concat (map wr xs) @ r"
proof (induction n arbitrary: b xs)
  case (Suc n)
  show ?case
  proof
    assume "read_items rd (Suc n) b = Inr (xs, r)"
    then obtain x b' ys where "rd b = Inr (x, b')" "read_items rd n b' = Inr (ys, r)" "xs = x # ys"
      by (auto simp: res_simps)
    then show "length xs = Suc n \<and> list_all ok xs \<and> b = concat (map wr xs) @ r"
      using Suc.IH by (simp add: rd_iff)
  next
    assume a: "length xs = Suc n \<and> list_all ok xs \<and> b = concat (map wr xs) @ r"
    then obtain x ys where xs: "xs = x # ys" by (cases xs) auto
    have "rd b = Inr (x, concat (map wr ys) @ r)" using a xs by (simp add: rd_iff)
    moreover have "read_items rd n (concat (map wr ys) @ r) = Inr (ys, r)" using a xs Suc.IH by simp
    ultimately show "read_items rd (Suc n) b = Inr (xs, r)" by (simp add: xs)
  qed
qed auto

end

lemma cur_take_iff: "cur_take n b = Inr (s, r) \<longleftrightarrow> length s = n \<and> b = s @ r"
  by (auto simp: cur_take_def cur_need_def)

lemma cur_arr_iff: "cur_arr n b = Inr (s, r) \<longleftrightarrow> length s = n \<and> b = s @ r"
  by (simp add: cur_arr_def cur_take_iff)

lemma cur_u8_iff: "cur_u8 b = Inr (x, r) \<longleftrightarrow> b = x # r"
  by (cases b) (auto simp: cur_u8_def cur_take_def cur_need_def res_simps)

lemma split_le:
  "(\<exists>s. length s = n \<and> b = s @ r \<and> x = from_le s) \<longleftrightarrow> b = to_le n x @ r"
  if "\<And>s. length s = n \<Longrightarrow> to_le n (from_le s :: 'a::len word) = s" "from_le (to_le n x) = (x :: 'a word)"
proof
  assume "\<exists>s. length s = n \<and> b = s @ r \<and> x = from_le s"
  then obtain s where s: "length s = n" "b = s @ r" "x = from_le s" by blast
  show "b = to_le n x @ r" unfolding s(2,3) by (simp add: that(1) [OF s(1)])
next
  assume "b = to_le n x @ r"
  then show "\<exists>s. length s = n \<and> b = s @ r \<and> x = from_le s"
    using that(2) by (intro exI [of _ "to_le n x"]) simp
qed

lemma cur_num_iff:
  "cur_u16 b = Inr (x2, r) \<longleftrightarrow> b = to_le 2 x2 @ r" "cur_u32 b = Inr (x4, r) \<longleftrightarrow> b = to_le 4 x4 @ r"
  "cur_u64 b = Inr (x8, r) \<longleftrightarrow> b = to_le 8 x8 @ r" "cur_u128 b = Inr (x16, r) \<longleftrightarrow> b = to_le 16 x16 @ r"
  using split_le [of 2 x2 b r] split_le [of 4 x4 b r] split_le [of 8 x8 b r] split_le [of 16 x16 b r]
  by (auto simp: cur_u16_def cur_u32_def cur_u64_def cur_u128_def res_simps cur_take_iff)

lemma finished_iff: "finished m b = Inr m' \<longleftrightarrow> b = [] \<and> m' = m"
  by (auto simp: finished_def cur_finish_def)

lemma cur_need_iff: "cur_need n b = Inr u \<longleftrightarrow> n \<le> length b"
  by (auto simp: cur_need_def)

lemma cur_count_iff:
  assumes "cap < 2 ^ 32"
  shows "cur_count cap b = Inr (n, r) \<longleftrightarrow> n \<le> cap \<and> b = to_le 4 (word_of_nat n :: u32) @ r"
proof
  assume "cur_count cap b = Inr (n, r)"
  then obtain w :: u32 where "b = to_le 4 w @ r" "n = unat w" "unat w \<le> cap"
    by (auto simp: cur_count_def res_simps cur_num_iff split: if_splits)
  then show "n \<le> cap \<and> b = to_le 4 (word_of_nat n :: u32) @ r" by simp
next
  assume n: "n \<le> cap \<and> b = to_le 4 (word_of_nat n :: u32) @ r"
  then have "unat (word_of_nat n :: u32) = n" using assms by (simp add: unat_of_nat take_bit_nat_eq_self)
  moreover have "cur_u32 b = Inr (word_of_nat n, r)" using n by (simp add: cur_num_iff)
  ultimately show "cur_count cap b = Inr (n, r)" using n by (simp add: cur_count_def)
qed

section \<open>Well-formed items and messages\<close>

definition addr_ok :: "AddrRec \<Rightarrow> bool" where "addr_ok a \<longleftrightarrow> length (ar_ip a) = 16"
definition inv_ok :: "InvItem \<Rightarrow> bool" where "inv_ok i \<longleftrightarrow> length (ii_hash i) = 32"
definition sig_ok :: "u8 \<times> bytes \<Rightarrow> bool" where "sig_ok s \<longleftrightarrow> length (snd s) = 64"
definition arr_ok :: "nat \<Rightarrow> bytes \<Rightarrow> bool" where "arr_ok n b \<longleftrightarrow> length b = n"

lemma inv_code_iff: "inv_from_code c = Some k \<longleftrightarrow> c = inv_code k"
  by (cases k) (auto simp: inv_from_code_def)

lemma read_addr_iff: "read_addr b = Inr (a, r) \<longleftrightarrow> addr_ok a \<and> b = encode_addr a @ r"
  by (cases a) (auto simp: read_addr_def encode_addr_def addr_ok_def res_simps cur_num_iff cur_arr_iff)

lemma read_inv_iff: "read_inv b = Inr (i, r) \<longleftrightarrow> inv_ok i \<and> b = encode_inv i @ r"
  by (cases i) (auto simp: read_inv_def encode_inv_def inv_ok_def res_simps cur_u8_iff cur_arr_iff inv_code_iff)

lemma read_sig_iff: "read_sig b = Inr (s, r) \<longleftrightarrow> sig_ok s \<and> b = encode_sig s @ r"
  by (cases s) (auto simp: read_sig_def encode_sig_def sig_ok_def res_simps cur_u8_iff cur_arr_iff)

interpretation addr_codec: item_codec read_addr encode_addr addr_ok
  by unfold_locales (rule read_addr_iff)

interpretation inv_codec: item_codec read_inv encode_inv inv_ok
  by unfold_locales (rule read_inv_iff)

interpretation sig_codec: item_codec read_sig encode_sig sig_ok
  by unfold_locales (rule read_sig_iff)

interpretation arr_codec: item_codec "cur_arr n" "\<lambda>x. x" "arr_ok n" for n
  by unfold_locales (simp add: arr_ok_def cur_arr_iff)

lemma sum_const: "list_all (\<lambda>x. length (f x) = k) xs \<Longrightarrow> length (concat (map f xs)) = length xs * k"
  by (induction xs) auto

lemma item_lengths:
  "list_all addr_ok v \<Longrightarrow> length (concat (map encode_addr v)) = length v * ADDR_REC_BYTES"
  "list_all inv_ok i \<Longrightarrow> length (concat (map encode_inv i)) = length i * INV_ITEM_BYTES"
  "list_all sig_ok s \<Longrightarrow> length (concat (map encode_sig s)) = length s * 65"
  "list_all (arr_ok n) h \<Longrightarrow> length (concat h) = length h * n"
proof -
  show "length (concat (map encode_addr v)) = length v * ADDR_REC_BYTES" if "list_all addr_ok v"
    using that by (intro sum_const) (auto simp: list_all_iff addr_ok_def encode_addr_def)
  show "length (concat (map encode_inv i)) = length i * INV_ITEM_BYTES" if "list_all inv_ok i"
    using that by (intro sum_const) (auto simp: list_all_iff inv_ok_def encode_inv_def)
  show "length (concat (map encode_sig s)) = length s * 65" if "list_all sig_ok s"
    using that by (intro sum_const) (auto simp: list_all_iff sig_ok_def encode_sig_def)
  show "length (concat h) = length h * n" if "list_all (arr_ok n) h"
    using sum_const [of "\<lambda>x. x" n h] that by (simp add: list_all_iff arr_ok_def)
qed

definition hello_ok :: "Hello \<Rightarrow> bool" where
  "hello_ok h \<longleftrightarrow> length (he_chain_id h) = 4 \<and> length (he_tip_hash h) = 32 \<and> length (he_cum_work h) = 32 \<and>
     length (he_user_agent h) \<le> UA_MAX"

fun msg_ok :: "Msg \<Rightarrow> bool" where
  "msg_ok (MHello h) \<longleftrightarrow> hello_ok h"
| "msg_ok (MAddr v) \<longleftrightarrow> list_all addr_ok v \<and> length v \<le> ADDR_MSG_MAX"
| "msg_ok (MInv v) \<longleftrightarrow> list_all inv_ok v \<and> length v \<le> INV_MAX"
| "msg_ok (MGetData v) \<longleftrightarrow> list_all inv_ok v \<and> length v \<le> INV_MAX"
| "msg_ok (MNotFound v) \<longleftrightarrow> list_all inv_ok v \<and> length v \<le> INV_MAX"
| "msg_ok (MGetHeaders loc stop) \<longleftrightarrow> list_all (arr_ok 32) loc \<and> length loc \<le> LOCATOR_MAX \<and> length stop = 32"
| "msg_ok (MHeaders v) \<longleftrightarrow> list_all (arr_ok HEADER_BYTES) v \<and> length v \<le> MAX_HEADERS_PER_MSG"
| "msg_ok (MBlock b) \<longleftrightarrow> HEADER_BYTES + 4 \<le> length b \<and> length b \<le> CAP_BLOCK"
| "msg_ok (MTx b) \<longleftrightarrow> b \<noteq> [] \<and> length b \<le> CAP_TX"
| "msg_ok (MCheckpoint c) \<longleftrightarrow> length (cm_hash c) = 32 \<and> list_all sig_ok (cm_sigs c) \<and>
     length (cm_sigs c) \<le> CHECKPOINT_SIGS_MAX"
| "msg_ok _ \<longleftrightarrow> True"

lemma msg_fits: "msg_ok m \<Longrightarrow> length (msg_encode m) \<le> payload_cap (msg_cmd m)"
  by (cases m) (auto simp: encode_items_def item_lengths encode_hello_def hello_ok_def Let_def arr_ok_def)

section \<open>Payloads\<close>

lemma cur_forward:
  "cur_u16 (to_le 2 x2 @ r) = Inr (x2, r)" "cur_u32 (to_le 4 x4 @ r) = Inr (x4, r)"
  "cur_u64 (to_le 8 x8 @ r) = Inr (x8, r)" "cur_u128 (to_le 16 x16 @ r) = Inr (x16, r)"
  "cur_u8 (x # r) = Inr (x, r)" "length s = n \<Longrightarrow> cur_arr n (s @ r) = Inr (s, r)"
  "cur_take (length s) s = Inr (s, [])" "finished m [] = Inr m"
  by (simp_all add: cur_num_iff cur_u8_iff cur_arr_iff cur_take_iff finished_iff)

lemma decode_hello_iff: "decode_hello b = Inr m \<longleftrightarrow> (\<exists>h. m = MHello h \<and> hello_ok h \<and> b = encode_hello h)"
proof
  assume "decode_hello b = Inr m"
  then obtain pv mp ci sv no ti he th cw lp ul ua where f: "length ci = 4" "length th = 32" "length cw = 32"
    "length ua = unat ul" "unat ul \<le> UA_MAX"
    and b: "b = to_le 2 pv @ to_le 2 mp @ ci @ to_le 4 sv @ to_le 8 no @ to_le 8 ti @ to_le 8 he @ th @ cw @ to_le 2 lp @ ul # ua"
    and m: "m = MHello \<lparr>he_proto_ver = pv, he_min_proto = mp, he_chain_id = ci, he_services = sv, he_nonce = no,
      he_time = ti, he_height = he, he_tip_hash = th, he_cum_work = cw, he_listen_port = lp, he_user_agent = ua\<rparr>"
    by (auto simp: decode_hello_def res_simps cur_num_iff cur_u8_iff cur_arr_iff cur_take_iff finished_iff split: if_splits)
  then show "\<exists>h. m = MHello h \<and> hello_ok h \<and> b = encode_hello h"
    by (simp add: hello_ok_def encode_hello_def)
next
  assume "\<exists>h. m = MHello h \<and> hello_ok h \<and> b = encode_hello h"
  then obtain h where h: "m = MHello h" "hello_ok h" "b = encode_hello h" by blast
  let ?ua = "he_user_agent h"
  have "unat (word_of_nat (length ?ua) :: u8) = length ?ua"
    using h(2) by (simp add: hello_ok_def unat_of_nat take_bit_nat_eq_self)
  then show "decode_hello b = Inr m"
    using h(2) unfolding h(1,3) by (simp add: decode_hello_def encode_hello_def hello_ok_def Let_def cur_forward)
qed

lemma decode_checkpoint_iff:
  "decode_checkpoint b = Inr m \<longleftrightarrow> (\<exists>c. m = MCheckpoint c \<and> msg_ok m \<and> b = msg_encode m)"
proof
  assume "decode_checkpoint b = Inr m"
  then obtain he ha n ss where f: "length ha = 32" "length ss = unat n" "unat n \<le> CHECKPOINT_SIGS_MAX" "list_all sig_ok ss"
    and b: "b = to_le 8 he @ ha @ n # concat (map encode_sig ss)"
    and m: "m = MCheckpoint \<lparr>cm_height = he, cm_hash = ha, cm_sigs = ss\<rparr>"
    by (auto simp: decode_checkpoint_def res_simps cur_num_iff cur_u8_iff cur_arr_iff finished_iff sig_codec.items_iff
        split: if_splits)
  then show "\<exists>c. m = MCheckpoint c \<and> msg_ok m \<and> b = msg_encode m" by simp
next
  assume "\<exists>c. m = MCheckpoint c \<and> msg_ok m \<and> b = msg_encode m"
  then obtain c where c: "m = MCheckpoint c" "length (cm_hash c) = 32" "list_all sig_ok (cm_sigs c)"
    "length (cm_sigs c) \<le> CHECKPOINT_SIGS_MAX" "b = to_le 8 (cm_height c) @ cm_hash c @ word_of_nat (length (cm_sigs c))
      # concat (map encode_sig (cm_sigs c))" by auto
  have n: "unat (word_of_nat (length (cm_sigs c)) :: u8) = length (cm_sigs c)"
    using c(4) by (simp add: unat_of_nat take_bit_nat_eq_self)
  have "read_items read_sig (length (cm_sigs c)) (concat (map encode_sig (cm_sigs c))) = Inr (cm_sigs c, [])"
    using c(3) by (simp add: sig_codec.items_iff)
  then show "decode_checkpoint b = Inr m"
    using c(2-4) unfolding c(1,5) by (simp add: decode_checkpoint_def cur_forward n cur_need_def item_lengths)
qed

lemma decode_items_iff:
  "decode_items mk b = Inr m \<longleftrightarrow> (\<exists>v. m = mk v \<and> list_all inv_ok v \<and> length v \<le> INV_MAX \<and> b = encode_items v)"
proof -
  have "length v * INV_ITEM_BYTES \<le> length (concat (map encode_inv v))" if "list_all inv_ok v" for v
    using that by (simp add: item_lengths)
  then show ?thesis
    by (auto simp: decode_items_def encode_items_def res_simps cur_count_iff cur_need_iff inv_codec.items_iff finished_iff)
qed

lemma decode_addr_iff:
  "decode_addr b = Inr m \<longleftrightarrow> (\<exists>v. m = MAddr v \<and> msg_ok m \<and> b = msg_encode m)"
proof -
  have "length v * ADDR_REC_BYTES \<le> length (concat (map encode_addr v))" if "list_all addr_ok v" for v
    using that by (simp add: item_lengths)
  then show ?thesis
    by (auto simp: decode_addr_def res_simps cur_count_iff cur_need_iff addr_codec.items_iff finished_iff)
qed

lemma decode_headers_iff:
  "decode_headers b = Inr m \<longleftrightarrow> (\<exists>v. m = MHeaders v \<and> msg_ok m \<and> b = msg_encode m)"
proof -
  have "length v * HEADER_BYTES \<le> length (concat v)" if "list_all (arr_ok HEADER_BYTES) v" for v
    using item_lengths(4) [OF that] by simp
  then show ?thesis
    by (auto simp: decode_headers_def res_simps cur_count_iff cur_need_iff arr_codec.items_iff finished_iff)
qed

lemma decode_get_headers_iff:
  "decode_get_headers b = Inr m \<longleftrightarrow> (\<exists>loc stop. m = MGetHeaders loc stop \<and> msg_ok m \<and> b = msg_encode m)"
proof -
  have "length v * 32 + 32 \<le> length (concat v @ s)" if "list_all (arr_ok 32) v" "length s = 32" for v s
    using item_lengths(4) [OF that(1)] that(2) by simp
  then show ?thesis
    by (auto simp: decode_get_headers_def res_simps cur_count_iff cur_need_iff arr_codec.items_iff finished_iff cur_arr_iff)
qed

lemma msg_decode_iff: "msg_decode c b = Inr m \<longleftrightarrow> msg_ok m \<and> msg_cmd m = c \<and> b = msg_encode m"
proof (cases "payload_cap c < length b")
  case True
  then show ?thesis using msg_fits [of m] by (auto simp: msg_decode_def)
next
  case False
  then show ?thesis
    by (cases c; cases m)
      (auto simp: msg_decode_def finished_iff res_simps cur_num_iff decode_hello_iff decode_checkpoint_iff decode_items_iff
        decode_addr_iff decode_headers_iff decode_get_headers_iff split: if_splits)
qed

text \<open>C27: A payload is accepted under a command exactly when it is the encoding of a message of that command
  within the limits: no two payloads mean the same, nothing trails, and every message that may be sent is read
  back as it was.
\<close>

theorem payload_canonical:
  "msg_decode cmd payload = Inr m \<longleftrightarrow> msg_ok m \<and> msg_cmd m = cmd \<and> payload = msg_encode m"
  by (rule msg_decode_iff)

section \<open>Frames\<close>

definition frame_head :: "bytes \<Rightarrow> Cmd \<Rightarrow> u32 \<Rightarrow> bytes" where
  "frame_head mg cmd len = mg @ [cmd_code cmd, 0] @ to_le 4 len"

lemma cmd_code_iff: "cmd_from_code c = Some k \<longleftrightarrow> c = cmd_code k"
  by (cases k) (auto simp: cmd_from_code_def)

lemma cap_ceiling: "payload_cap c \<le> MAX_P2P_MSG_BYTES"
  by (cases c) simp_all

lemma list10: "length b = 10 \<Longrightarrow> b = slice 0 4 b @ [b ! 4, b ! 5] @ [b ! 6, b ! 7, b ! 8, b ! 9]"
  by (auto simp: slice_def eval_nat_numeral length_Suc_conv)

lemma list4: "length xs = 4 \<Longrightarrow> \<exists>a b c d. xs = [a, b, c, d]"
  by (auto simp: eval_nat_numeral length_Suc_conv)

lemma parse_frame_iff:
  assumes "length b = FRAME_HEADER_BYTES" "length mg = 4"
  shows "parse_frame_header b mg = Inr fh \<longleftrightarrow>
    b = frame_head mg (fh_cmd fh) (fh_length fh) \<and> unat (fh_length fh) \<le> payload_cap (fh_cmd fh)"
proof
  let ?n = "[b ! 6, b ! 7, b ! 8, b ! 9]"
  assume "parse_frame_header b mg = Inr fh"
  then obtain c where c: "slice 0 4 b = mg" "b ! 4 = cmd_code c" "b ! 5 = 0" "unat (from_le ?n :: u32) \<le> payload_cap c"
    "fh = \<lparr>fh_cmd = c, fh_length = from_le ?n\<rparr>"
    by (auto simp: parse_frame_header_def Let_def cmd_code_iff split: if_splits option.splits)
  have "to_le 4 (from_le ?n :: u32) = ?n" by (rule to_le_from_le_32) simp
  then show "b = frame_head mg (fh_cmd fh) (fh_length fh) \<and> unat (fh_length fh) \<le> payload_cap (fh_cmd fh)"
    using list10 [of b] c assms(1) unfolding frame_head_def by (metis FRAME_HEADER_BYTES_def FrameHeader.select_convs append_Cons append_Nil)
next
  let ?n = "to_le 4 (fh_length fh)"
  assume a: "b = frame_head mg (fh_cmd fh) (fh_length fh) \<and> unat (fh_length fh) \<le> payload_cap (fh_cmd fh)"
  have "length ?n = 4" by simp
  then obtain n0 n1 n2 n3 where n: "?n = [n0, n1, n2, n3]" using list4 by blast
  obtain m0 m1 m2 m3 where m: "mg = [m0, m1, m2, m3]" using list4 assms(2) by blast
  have b: "slice 0 4 b = mg" "b ! 4 = cmd_code (fh_cmd fh)" "b ! 5 = 0" "[b ! 6, b ! 7, b ! 8, b ! 9] = ?n"
    using a by (simp_all add: frame_head_def n m slice_def)
  have "cmd_from_code (cmd_code (fh_cmd fh)) = Some (fh_cmd fh)" by (simp add: cmd_code_iff)
  moreover have "unat (fh_length fh) \<le> MAX_P2P_MSG_BYTES" using a cap_ceiling le_trans by blast
  ultimately show "parse_frame_header b mg = Inr fh"
    using a unfolding parse_frame_header_def b by simp
qed

declare frame_loop.simps [simp del]

lemma frame_loop_append:
  "frame_loop mg (p @ ys) out =
     (case frame_loop mg p out of (q, Inl e) \<Rightarrow> (q @ ys, Inl e) | (q, Inr fs) \<Rightarrow> frame_loop mg (q @ ys) fs)"
proof (induction mg p out rule: frame_loop.induct)
  case (1 mg p out)
  show ?case
  proof (cases "length p < FRAME_HEADER_BYTES")
    case True
    then show ?thesis by (simp add: frame_loop.simps [of mg p])
  next
    case long: False
    then have t: "take FRAME_HEADER_BYTES (p @ ys) = take FRAME_HEADER_BYTES p" by simp
    show ?thesis
    proof (cases "parse_frame_header (take FRAME_HEADER_BYTES p) mg")
      case (Inl e)
      then show ?thesis using long t by (simp add: frame_loop.simps [of mg p] frame_loop.simps [of mg "p @ ys"])
    next
      case (Inr fh)
      let ?t = "FRAME_HEADER_BYTES + unat (fh_length fh)"
      show ?thesis
      proof (cases "length p < ?t")
        case True
        then show ?thesis using long Inr by (simp add: frame_loop.simps [of mg p])
      next
        case False
        then have "frame_loop mg (p @ ys) out = frame_loop mg (drop ?t p @ ys) (out @ [(fh_cmd fh, slice FRAME_HEADER_BYTES ?t p)])"
          using long t Inr by (simp add: frame_loop.simps [of mg "p @ ys"] slice_append_left Let_def)
        moreover have "frame_loop mg p out = frame_loop mg (drop ?t p) (out @ [(fh_cmd fh, slice FRAME_HEADER_BYTES ?t p)])"
          using long Inr False by (simp add: frame_loop.simps [of mg p] Let_def)
        ultimately show ?thesis using "1.IH" [OF long Inr refl False] by simp
      qed
    qed
  qed
qed

lemma frame_loop_out:
  "frame_loop mg p out = (case frame_loop mg p [] of (q, Inl e) \<Rightarrow> (q, Inl e) | (q, Inr fs) \<Rightarrow> (q, Inr (out @ fs)))"
proof (induction "length p" arbitrary: p out rule: less_induct)
  case less
  show ?case
  proof (cases "\<exists>fh. \<not> length p < FRAME_HEADER_BYTES \<and> parse_frame_header (take FRAME_HEADER_BYTES p) mg = Inr fh \<and>
      \<not> length p < FRAME_HEADER_BYTES + unat (fh_length fh)")
    case False
    then show ?thesis by (auto simp: frame_loop.simps [of mg p] Let_def split: sum.splits)
  next
    case True
    then obtain fh where fh: "\<not> length p < FRAME_HEADER_BYTES" "parse_frame_header (take FRAME_HEADER_BYTES p) mg = Inr fh"
      "\<not> length p < FRAME_HEADER_BYTES + unat (fh_length fh)" by blast
    let ?t = "FRAME_HEADER_BYTES + unat (fh_length fh)" let ?f = "(fh_cmd fh, slice FRAME_HEADER_BYTES ?t p)"
    have s: "frame_loop mg p o' = frame_loop mg (drop ?t p) (o' @ [?f])" for o'
      using fh by (simp add: frame_loop.simps [of mg p] Let_def)
    have "length (drop ?t p) < length p" using fh(1,3) by simp
    note ih = less [OF this]
    show ?thesis unfolding s [of out] s [of "[]"] ih [of "out @ [?f]"] ih [of "[] @ [?f]"]
      by (auto split: prod.splits sum.splits)
  qed
qed

section \<open>The reader of a stream\<close>

text \<open>A connection pushes what it has read, piece by piece, until an error ends it.\<close>

fun push_all :: "bytes list \<Rightarrow> FrameReader \<Rightarrow> FrameReader \<times> (WireError + (Cmd \<times> bytes) list)" where
  "push_all [] r = (r, Inr [])"
| "push_all (c # cs) r =
     (case push c r of
        (r, Inl e) \<Rightarrow> (r, Inl e)
      | (r, Inr fs) \<Rightarrow>
          (case push_all cs r of (r, Inl e) \<Rightarrow> (r, Inl e) | (r, Inr gs) \<Rightarrow> (r, Inr (fs @ gs))))"

definition settled :: "FrameReader \<Rightarrow> bool" where
  "settled r \<longleftrightarrow> frame_loop (fr_magic r) (fr_pending r) [] = (fr_pending r, Inr [])"

lemma settled_new: "settled (reader_new mg)"
  by (simp add: settled_def reader_new_def frame_loop.simps)

lemma frame_loop_again:
  assumes "frame_loop mg p [] = (q, Inr fs)"
  shows "frame_loop mg q [] = (q, Inr [])"
proof -
  have "frame_loop mg q fs = (q, Inr fs)" using frame_loop_append [of mg p "[]" "[]"] assms by simp
  then show ?thesis using frame_loop_out [of mg q fs] by (auto split: prod.splits sum.splits)
qed

lemma push_settled: "push c r = (r', Inr fs) \<Longrightarrow> settled r' \<and> fr_magic r' = fr_magic r"
  by (auto simp: push_def settled_def split: prod.splits dest: frame_loop_again)

lemma push_push:
  "push (c @ d) r =
     (case push c r of
        (r', Inl e) \<Rightarrow> (r'\<lparr>fr_pending := fr_pending r' @ d\<rparr>, Inl e)
      | (r', Inr fs) \<Rightarrow> (case push d r' of (r'', Inl e) \<Rightarrow> (r'', Inl e) | (r'', Inr gs) \<Rightarrow> (r'', Inr (fs @ gs))))"
proof -
  obtain q res where q: "frame_loop (fr_magic r) (fr_pending r @ c) [] = (q, res)" by fastforce
  show ?thesis
  proof (cases res)
    case (Inl e)
    then show ?thesis using q frame_loop_append [of "fr_magic r" "fr_pending r @ c" d "[]"] by (simp add: push_def)
  next
    case (Inr fs)
    then have "frame_loop (fr_magic r) (fr_pending r @ c @ d) [] = frame_loop (fr_magic r) (q @ d) fs"
      using q frame_loop_append [of "fr_magic r" "fr_pending r @ c" d "[]"] by simp
    then show ?thesis using q Inr frame_loop_out [of "fr_magic r" "q @ d" fs]
      by (auto simp: push_def split: prod.splits sum.splits)
  qed
qed

lemma push_nothing: "settled r \<Longrightarrow> push [] r = (r, Inr [])"
  by (simp add: push_def settled_def)

lemma push_all_concat:
  "settled r \<Longrightarrow> snd (push_all cs r) = snd (push (concat cs) r) \<and>
     (is_ok (snd (push (concat cs) r)) \<longrightarrow> push_all cs r = push (concat cs) r)"
proof (induction cs arbitrary: r)
  case Nil
  then show ?case by (simp add: push_nothing)
next
  case (Cons c cs)
  obtain r' res where p: "push c r = (r', res)" by fastforce
  show ?case
  proof (cases res)
    case (Inl e)
    then show ?thesis using p by (simp add: push_push [of c])
  next
    case (Inr fs)
    then have "settled r'" using p push_settled by blast
    note ih = Cons.IH [OF this]
    obtain r2 res2 where "push (concat cs) r' = (r2, res2)" by fastforce
    then show ?thesis using ih p Inr
      by (cases res2) (auto simp: push_push [of c] split: prod.splits sum.splits)
  qed
qed


section \<open>From messages to messages\<close>

definition frame_of :: "bytes \<Rightarrow> Msg \<Rightarrow> bytes" where
  "frame_of mg m = encode_frame mg (msg_cmd m) (msg_encode m)"

lemma frame_loop_frame:
  assumes "length mg = 4" "msg_ok m"
  shows "frame_loop mg (frame_of mg m @ rest) out = frame_loop mg rest (out @ [(msg_cmd m, msg_encode m)])"
proof -
  let ?n = "word_of_nat (length (msg_encode m)) :: u32" and ?fh = "\<lparr>fh_cmd = msg_cmd m, fh_length = word_of_nat (length (msg_encode m))\<rparr>"
  have fits: "length (msg_encode m) \<le> payload_cap (msg_cmd m)" using msg_fits assms(2) by blast
  then have "length (msg_encode m) \<le> 8388608" using cap_ceiling [of "msg_cmd m"] by simp
  then have n: "unat ?n = length (msg_encode m)" by (simp add: unat_of_nat take_bit_nat_eq_self)
  have f: "frame_of mg m @ rest = frame_head mg (msg_cmd m) ?n @ msg_encode m @ rest"
    by (simp add: frame_of_def encode_frame_def frame_head_def)
  have hl: "length (frame_head mg (msg_cmd m) ?n) = FRAME_HEADER_BYTES" using assms(1) by (simp add: frame_head_def)
  then have "parse_frame_header (take FRAME_HEADER_BYTES (frame_of mg m @ rest)) mg = Inr ?fh"
    using parse_frame_iff [OF hl assms(1), of ?fh] fits n unfolding f by simp
  then show ?thesis
    using hl n unfolding frame_loop.simps [of mg "frame_of mg m @ rest"] unfolding f by (simp add: slice_def)
qed

lemma frame_loop_frames:
  assumes "length mg = 4"
  shows "list_all msg_ok ms \<Longrightarrow>
    frame_loop mg (concat (map (frame_of mg) ms)) out = ([], Inr (out @ map (\<lambda>m. (msg_cmd m, msg_encode m)) ms))"
  by (induction ms arbitrary: out) (simp_all add: frame_loop_frame [OF assms] frame_loop.simps [of mg "[]"])

text \<open>C26: Whatever messages one node sends and however the transport cuts the bytes, the other node reads exactly
  these messages in this order and is left with nothing pending.
\<close>

theorem messages_delivered:
  assumes "length mg = 4" "list_all msg_ok ms" "concat cs = concat (map (frame_of mg) ms)"
  shows "\<exists>fs. push_all cs (reader_new mg) = (reader_new mg, Inr fs) \<and> map (\<lambda>(c, p). msg_decode c p) fs = map Inr ms"
proof -
  let ?fs = "map (\<lambda>m. (msg_cmd m, msg_encode m)) ms"
  have "push (concat cs) (reader_new mg) = (reader_new mg, Inr ?fs)"
    using frame_loop_frames [OF assms(1,2), of "[]"] assms(3) by (simp add: push_def reader_new_def)
  then have "push_all cs (reader_new mg) = (reader_new mg, Inr ?fs)"
    using push_all_concat [OF settled_new, of cs mg] by simp
  moreover have "map (\<lambda>(c, p). msg_decode c p) ?fs = map Inr ms"
    using assms(2) by (auto simp: msg_decode_iff list_all_iff)
  ultimately show ?thesis by blast
qed

theorem messages_delivered_witness:
  "\<exists>fs. push_all [[1, 2, 3, 4, 3], [0, 8, 0, 0, 0, 9, 0, 0, 0, 0, 0, 0, 0, 1, 2], [3, 4, 0x17, 0, 0, 0, 0, 0]] (reader_new [1, 2, 3, 4])
      = (reader_new [1, 2, 3, 4], Inr fs) \<and> map (\<lambda>(c, p). msg_decode c p) fs = map Inr [MPing 9, MMempool]"
  by (rule messages_delivered) (simp_all, code_simp)

end
