(* ===== verification/HeaderIngest.thy ===== *)
theory HeaderIngest imports Gates Index ChainWork "HOL-Library.AList" begin

text \<open>
  \<open>lib/chain/src/header.rs\<close>: how headers of a peer reach the arena. They pass the gates and are staged
  per source; when the best staged head claims more work than the tip, proofs of work are verified, each
  paid from token buckets, and the verified headers are inserted. A panic is \<open>None\<close>; the verifier of the
  proof of work and the store are parameters. The table of sources is an association list in the order of
  the hash map, sets are sets, and the conditions told to the observer are collected in a list.
\<close>

section \<open>Remembered verdicts\<close>

record NegativeCache =
  nc_set :: "Hash32 set"
  nc_ring :: "Hash32 list"
  nc_cap :: nat

definition neg_new :: "nat \<Rightarrow> NegativeCache" where
  "neg_new cap = \<lparr>nc_set = {}, nc_ring = [], nc_cap = max cap 1\<rparr>"

definition neg_contains :: "NegativeCache \<Rightarrow> Hash32 \<Rightarrow> bool" where
  "neg_contains c h \<longleftrightarrow> h \<in> nc_set c"

definition neg_insert :: "Hash32 \<Rightarrow> Permanence \<Rightarrow> NegativeCache \<Rightarrow> NegativeCache" where
  "neg_insert h p c =
     (if p \<noteq> Permanent \<or> h \<in> nc_set c then c
      else let c = (if nc_cap c \<le> length (nc_ring c)
                    then (case nc_ring c of
                            [] \<Rightarrow> c
                          | old # ring \<Rightarrow> c\<lparr>nc_ring := ring, nc_set := nc_set c - {old}\<rparr>)
                    else c)
           in c\<lparr>nc_ring := nc_ring c @ [h], nc_set := insert h (nc_set c)\<rparr>)"

definition neg_len :: "NegativeCache \<Rightarrow> nat" where "neg_len c = card (nc_set c)"

section \<open>Sources\<close>

record Staged =
  sg_rec :: HeaderRec
  sg_cum_work :: Work
  sg_base :: u64

record SourceState =
  ss_staged :: "Staged list"
  ss_staged_hashes :: "Hash32 set"
  ss_tokens :: u64
  ss_last_ms :: u64
  ss_reserve_tokens :: u64
  ss_reserve_last_ms :: u64
  ss_primed :: bool
  ss_pow_failures :: u32
  ss_quota_epoch :: u64
  ss_quota_ms :: u64
  ss_dups :: u32
  ss_dup_window_ms :: u64

definition source_state_default :: SourceState where
  "source_state_default = \<lparr>ss_staged = [], ss_staged_hashes = {}, ss_tokens = 0, ss_last_ms = 0,
     ss_reserve_tokens = 0, ss_reserve_last_ms = 0, ss_primed = False, ss_pow_failures = 0,
     ss_quota_epoch = 0, ss_quota_ms = 0, ss_dups = 0, ss_dup_window_ms = 0\<rparr>"

text \<open>One bucket with the time of its last refill: the code refills three of them this way.\<close>

definition refill_bucket :: "u64 \<Rightarrow> u64 \<Rightarrow> u64 \<Rightarrow> u64 \<Rightarrow> u64 \<Rightarrow> u64 \<Rightarrow> u64 \<times> u64" where
  "refill_bucket rate per burst now level since =
     (let elapsed = saturating_sub now since;
          refill = saturating_mul elapsed rate div per
      in if 0 < elapsed \<and> 0 < refill then (min (saturating_add level refill) burst, now) else (level, since))"

definition state_refill :: "ChainParams \<Rightarrow> u64 \<Rightarrow> u64 \<Rightarrow> SourceState \<Rightarrow> SourceState" where
  "state_refill params cost_micros mono_ms s =
     (if \<not> ss_primed s
      then s\<lparr>ss_primed := True, ss_tokens := pm_pow_budget_burst_micros params,
             ss_reserve_tokens := class_reserve_burst_micros cost_micros, ss_last_ms := mono_ms,
             ss_reserve_last_ms := mono_ms, ss_quota_ms := mono_ms\<rparr>
      else
        let (tokens, last_ms) = refill_bucket (pm_pow_budget_micros params) (max (pm_pow_budget_window_ms params) 1)
              (pm_pow_budget_burst_micros params) mono_ms (ss_tokens s) (ss_last_ms s);
            (reserve, reserve_ms) = refill_bucket (class_reserve_rate_micros_per_sec params) 1000
              (class_reserve_burst_micros cost_micros) mono_ms (ss_reserve_tokens s) (ss_reserve_last_ms s)
        in s\<lparr>ss_tokens := tokens, ss_last_ms := last_ms, ss_reserve_tokens := reserve,
             ss_reserve_last_ms := reserve_ms\<rparr>)"

definition roll_quota_epoch :: "u64 \<Rightarrow> ChainParams \<Rightarrow> u64 \<Rightarrow> SourceState \<Rightarrow> SourceState" where
  "roll_quota_epoch epoch params mono_ms s =
     (let stalled = saturating_mul (pm_child_quota_window_secs params) 1000 \<le> saturating_sub mono_ms (ss_quota_ms s)
      in if ss_quota_epoch s \<noteq> epoch \<or> stalled
         then s\<lparr>ss_quota_epoch := epoch, ss_quota_ms := mono_ms, ss_pow_failures := 0\<rparr> else s)"

definition budgets_full :: "ChainParams \<Rightarrow> u64 \<Rightarrow> SourceState \<Rightarrow> bool" where
  "budgets_full params cost_micros s \<longleftrightarrow>
     ss_pow_failures s = 0 \<and> pm_pow_budget_burst_micros params \<le> ss_tokens s \<and>
     class_reserve_burst_micros cost_micros \<le> ss_reserve_tokens s"

definition owes_nothing :: "ChainParams \<Rightarrow> u64 \<Rightarrow> SourceState \<Rightarrow> bool" where
  "owes_nothing params cost_micros s \<longleftrightarrow> ss_staged s = [] \<and> budgets_full params cost_micros s"

record Ingest =
  in_neg :: NegativeCache
  in_sources :: "(SourceId \<times> SourceState) list"
  in_shared_tokens :: u64
  in_shared_last_ms :: u64
  in_shared_primed :: bool

definition ingest_new :: "ChainParams \<Rightarrow> Ingest" where
  "ingest_new params = \<lparr>in_neg = neg_new (pm_negative_cache_entries params), in_sources = [],
     in_shared_tokens = 0, in_shared_last_ms = 0, in_shared_primed = False\<rparr>"

definition in_source :: "Ingest \<Rightarrow> SourceId \<Rightarrow> SourceState option" where
  "in_source g source = map_of (in_sources g) source"

definition put_source :: "SourceId \<Rightarrow> SourceState \<Rightarrow> Ingest \<Rightarrow> Ingest" where
  "put_source source st g = g\<lparr>in_sources := AList.update source st (in_sources g)\<rparr>"

definition staged_count :: "Ingest \<Rightarrow> SourceId \<Rightarrow> nat" where
  "staged_count g source = (case in_source g source of None \<Rightarrow> 0 | Some s \<Rightarrow> length (ss_staged s))"

definition ingest_tokens :: "Ingest \<Rightarrow> SourceId \<Rightarrow> u64" where
  "ingest_tokens g source = (case in_source g source of None \<Rightarrow> 0 | Some s \<Rightarrow> ss_tokens s)"

definition ingest_reserve_tokens :: "Ingest \<Rightarrow> SourceId \<Rightarrow> u64" where
  "ingest_reserve_tokens g source = (case in_source g source of None \<Rightarrow> 0 | Some s \<Rightarrow> ss_reserve_tokens s)"

definition ingest_source_count :: "Ingest \<Rightarrow> nat" where
  "ingest_source_count g = length (in_sources g)"

definition ingest_forget_source :: "SourceId \<Rightarrow> Ingest \<Rightarrow> Ingest" where
  "ingest_forget_source source g = g\<lparr>in_sources := AList.delete source (in_sources g)\<rparr>"

definition refill_shared :: "ChainParams \<Rightarrow> u64 \<Rightarrow> Ingest \<Rightarrow> Ingest" where
  "refill_shared params mono_ms g =
     (if \<not> in_shared_primed g
      then g\<lparr>in_shared_primed := True, in_shared_tokens := class_shared_burst_micros params, in_shared_last_ms := mono_ms\<rparr>
      else let (level, since) = refill_bucket (class_shared_rate_micros_per_sec params) 1000
                 (class_shared_burst_micros params) mono_ms (in_shared_tokens g) (in_shared_last_ms g)
           in g\<lparr>in_shared_tokens := level, in_shared_last_ms := since\<rparr>)"

text \<open>The pass over the sources at the cap: the smallest idle source, and the parked one with the fewest
  staged headers.\<close>

definition pick_victim ::
  "ChainParams \<Rightarrow> u64 \<Rightarrow> SourceId \<times> SourceState \<Rightarrow> SourceId option \<times> (nat \<times> SourceId) option \<Rightarrow>
     SourceId option \<times> (nat \<times> SourceId) option" where
  "pick_victim params cost_micros = (\<lambda>(i, s) (idle, parked).
     if owes_nothing params cost_micros s
     then ((case idle of None \<Rightarrow> Some i | Some cur \<Rightarrow> if i < cur then Some i else idle), parked)
     else if budgets_full params cost_micros s
     then (idle, let n = length (ss_staged s) in
            case parked of None \<Rightarrow> Some (n, i)
            | Some (m, cur) \<Rightarrow> if n < m \<or> n = m \<and> i < cur then Some (n, i) else parked)
     else (idle, parked))"

definition touch :: "SourceId \<Rightarrow> ChainParams \<Rightarrow> u64 \<Rightarrow> u64 \<Rightarrow> Ingest \<Rightarrow> Ingest \<times> (Reject + unit)" where
  "touch source params cost_micros mono_ms g =
     (let (g, full) =
        (if in_source g source = None \<and> pm_max_sources params \<le> length (in_sources g)
         then let sources = map (\<lambda>(i, s). (i, state_refill params cost_micros mono_ms s)) (in_sources g);
                  (idle, parked) = fold (pick_victim params cost_micros) sources (None, None);
                  g = g\<lparr>in_sources := sources\<rparr>
              in (case (case idle of Some i \<Rightarrow> Some i | None \<Rightarrow> map_option snd parked) of
                    Some i \<Rightarrow> (g\<lparr>in_sources := AList.delete i sources\<rparr>, False)
                  | None \<Rightarrow> (g, True))
         else (g, False))
      in if full then (g, Inl (Reject.TooManySources source (pm_max_sources params)))
         else let st = (case in_source g source of None \<Rightarrow> source_state_default | Some st \<Rightarrow> st)
              in (put_source source (state_refill params cost_micros mono_ms st) g, Inr ()))"

section \<open>Ancestors, staged or in the arena\<close>

record IngestCtx =
  cx_store_invalid :: "Hash32 \<Rightarrow> bool"
  cx_pow_verify :: "bytes \<Rightarrow> bool"
  cx_pow_cost :: u64
  cx_checkpoints :: "(u64 \<times> Hash32) list"
  cx_anchor :: "Anchor option"
  cx_params :: ChainParams
  cx_now :: u64
  cx_mono_ms :: u64
  cx_tip :: TipRef
  cx_genesis_time :: u64
  cx_solicitation :: Solicitation
  cx_tip_epoch :: u64
  cx_side_capacity :: nat

record Lite =
  lt_height :: u64
  lt_hash :: Hash32
  lt_prev_hash :: Hash32
  lt_time :: u64
  lt_bits :: u32
  lt_cum_work :: Work
  lt_base :: u64
  lt_arena :: "u32 option"

definition lite_of :: "Node \<Rightarrow> u32 option \<Rightarrow> Lite" where
  "lite_of n arena = \<lparr>lt_height = nd_height n, lt_hash = nd_hash n, lt_prev_hash = replicate 32 0,
     lt_time = nd_time n, lt_bits = nd_bits n, lt_cum_work = nd_cum_work n,
     lt_base = nd_branch_base_height n, lt_arena = arena\<rparr>"

definition lite_staged :: "Staged \<Rightarrow> Lite" where
  "lite_staged s = \<lparr>lt_height = hr_height (sg_rec s), lt_hash = hr_hash (sg_rec s),
     lt_prev_hash = hr_prev_hash (sg_rec s), lt_time = hr_time (sg_rec s), lt_bits = hr_bits (sg_rec s),
     lt_cum_work = sg_cum_work s, lt_base = sg_base s, lt_arena = None\<rparr>"

definition find_parent :: "HeaderIndex \<Rightarrow> Staged list \<Rightarrow> Hash32 \<Rightarrow> Lite option option" where
  "find_parent ix staged hash =
     (case index_of ix hash of
        Some i \<Rightarrow> map_option (\<lambda>n. Some (lite_of n (Some i))) (node ix i)
      | None \<Rightarrow> Some (map_option lite_staged (List.find (\<lambda>s. hr_hash (sg_rec s) = hash) (rev staged))))"

definition child_branch_base :: "HeaderIndex \<Rightarrow> Lite \<Rightarrow> u64 option" where
  "child_branch_base ix nd =
     (case lt_arena nd of
        Some i \<Rightarrow> do { c \<leftarrow> is_canonical ix i; Some (if c then lt_height nd else lt_base nd) }
      | None \<Rightarrow> Some (lt_base nd))"

definition lite_parent :: "HeaderIndex \<Rightarrow> Staged list \<Rightarrow> Lite \<Rightarrow> Lite option option" where
  "lite_parent ix staged nd =
     (case lt_arena nd of
        Some i \<Rightarrow> do {
          n \<leftarrow> node ix i;
          if nd_prev n = NO_PARENT then Some None
          else do { p \<leftarrow> node ix (nd_prev n); Some (Some (lite_of p (Some (nd_prev n)))) }
        }
      | None \<Rightarrow> find_parent ix staged (lt_prev_hash nd))"

fun times_loop :: "HeaderIndex \<Rightarrow> Staged list \<Rightarrow> nat \<Rightarrow> Lite \<Rightarrow> u64 list \<Rightarrow> u64 list option" where
  "times_loop ix staged 0 cur out = Some out"
| "times_loop ix staged (Suc k) cur out =
     (let out = out @ [lt_time cur] in
      case lite_parent ix staged cur of
        None \<Rightarrow> None
      | Some None \<Rightarrow> Some out
      | Some (Some p) \<Rightarrow> times_loop ix staged k p out)"

definition ancestor_times :: "HeaderIndex \<Rightarrow> Staged list \<Rightarrow> Lite \<Rightarrow> nat \<Rightarrow> u64 list option" where
  "ancestor_times ix staged from span = map_option rev (times_loop ix staged span from [])"

text \<open>The loop of \<open>ancestor_of\<close> has no bound in the source.\<close>

partial_function (option) ancestor_loop ::
  "HeaderIndex \<Rightarrow> Staged list \<Rightarrow> Lite \<Rightarrow> u64 \<Rightarrow> Lite option option" where
  "ancestor_loop ix staged cur height =
     (if height < lt_height cur
      then (case lite_parent ix staged cur of
              None \<Rightarrow> None
            | Some r \<Rightarrow> (case r of None \<Rightarrow> Some None | Some p \<Rightarrow> ancestor_loop ix staged p height))
      else Some (if lt_height cur = height then Some cur else None))"

definition ancestor_of :: "HeaderIndex \<Rightarrow> Staged list \<Rightarrow> Lite \<Rightarrow> u64 \<Rightarrow> Lite option option" where
  "ancestor_of ix staged from height =
     (if lt_height from < height then Some None
      else if height \<le> lt_base from
      then do {
        r \<leftarrow> canonical_at ix height;
        Some (case r of None \<Rightarrow> None | Some n \<Rightarrow> Some (lite_of n (index_of ix (nd_hash n))))
      }
      else ancestor_loop ix staged from height)"

definition anchor_reach :: "HeaderIndex \<Rightarrow> Staged list \<Rightarrow> Lite \<Rightarrow> Anchor \<Rightarrow> AnchorReach option" where
  "anchor_reach ix staged from anchor =
     (if lt_height from < an_height anchor then Some NotReached
      else do {
        r \<leftarrow> ancestor_of ix staged from (an_height anchor);
        Some (case r of None \<Rightarrow> NotReached
              | Some a \<Rightarrow> if lt_hash a = an_hash anchor then Matches else Contradicts)
      })"

definition resolve_anchor ::
  "HeaderIndex \<Rightarrow> Staged list \<Rightarrow> Lite \<Rightarrow> IngestCtx \<Rightarrow> (Reject + u32 \<times> u64 \<times> u64) option" where
  "resolve_anchor ix staged parent cx =
     (let ah = anchor_height_for (lt_height parent) (pm_asert_anchor_interval (cx_params cx));
          lost = Reject.AsertAnchorUnavailable ah
      in and_thenp (map_option (ok_or lost) (ancestor_of ix staged parent ah)) (\<lambda>anchor.
         and_thenp
           (if ah = 0 then Some (Inr (saturating_sub (cx_genesis_time cx) BLOCK_TIME_SECS))
            else map_option (\<lambda>r. ok_or lost (map_option lt_time r)) (ancestor_of ix staged parent (ah - 1)))
           (\<lambda>anchor_parent_time. Some (Inr (lt_bits anchor, lt_height anchor, anchor_parent_time)))))"

section \<open>Staging one header\<close>

text \<open>The gates of \<open>stage_one\<close>, with the parent and the height where the branch leaves the chain.\<close>

definition stage_gates ::
  "HeaderIndex \<Rightarrow> Staged list \<Rightarrow> IngestCtx \<Rightarrow> bytes \<Rightarrow> Hash32 \<Rightarrow> (Reject + Header \<times> Lite \<times> u64) option" where
  "stage_gates ix staged cx raw hash =
     (let params = cx_params cx in
      and_thenp (Some (s1_fixed_fields raw (pm_pow_limit params))) (\<lambda>hdr.
      and_thenp (Some (s1b_checkpoint (cx_checkpoints cx) (hd_height hdr) hash)) (\<lambda>_.
      and_thenp (map_option (ok_or (Reject.UnknownParent (hd_prev_hash hdr))) (find_parent ix staged (hd_prev_hash hdr))) (\<lambda>parent.
      and_thenp (Some (s2_height (hd_height hdr) (lt_height parent))) (\<lambda>_.
      and_thenp (resolve_anchor ix staged parent cx) (\<lambda>(a_bits, a_height, a_parent_time).
      and_thenp (Some (map_err (\<lambda>_. Reject.AsertAnchorUnavailable a_height)
          (expected_child_bits a_bits a_height a_parent_time (lt_height parent) (lt_time parent) (pm_pow_limit params)))) (\<lambda>expected.
      and_thenp (Some (s3_bits (hd_bits hdr) expected)) (\<lambda>_.
      and_thenp (do { times \<leftarrow> ancestor_times ix staged parent MEDIAN_TIME_SPAN; s4_time times (hd_time hdr) (cx_now cx) }) (\<lambda>_.
      and_thenp (do {
          reach \<leftarrow> (case cx_anchor cx of None \<Rightarrow> Some NotReached | Some a \<Rightarrow> anchor_reach ix staged parent a);
          child_base \<leftarrow> child_branch_base ix parent;
          Some (and_then (s5_fork_depth (cx_tip cx) child_base (cx_anchor cx) reach params) (\<lambda>_. Inr child_base))
        }) (\<lambda>child_base. Some (Inr (hdr, parent, child_base))))))))))))"

definition source_staged :: "Ingest \<Rightarrow> SourceId \<Rightarrow> Staged list" where
  "source_staged g source = (case in_source g source of None \<Rightarrow> [] | Some s \<Rightarrow> ss_staged s)"

definition stage_one ::
  "Ingest \<Rightarrow> HeaderIndex \<Rightarrow> WorkCache \<Rightarrow> IngestCtx \<Rightarrow> SourceId \<Rightarrow> bytes \<Rightarrow> Hash32 \<Rightarrow>
     (Ingest \<times> WorkCache \<times> (Reject + unit)) option" where
  "stage_one g ix memo cx source raw hash =
     (case stage_gates ix (source_staged g source) cx raw hash of
        None \<Rightarrow> None
      | Some (Inl e) \<Rightarrow> Some (g, memo, Inl e)
      | Some (Inr (hdr, parent, child_base)) \<Rightarrow> do {
          (w, memo) \<leftarrow> cache_work memo (hd_bits hdr) (pm_pow_limit (cx_params cx));
          Some (case w of
              None \<Rightarrow> (g, memo, Inl (Reject.BadBits (hd_bits hdr)))
            | Some w \<Rightarrow>
                (case work_checked_add (lt_cum_work parent) w of
                   None \<Rightarrow> (g, memo, Inl Reject.ArithmeticOverflow)
                 | Some cum_work \<Rightarrow>
                     let st = (case in_source g source of None \<Rightarrow> source_state_default | Some st \<Rightarrow> st) in
                     if pm_max_staged_headers (cx_params cx) \<le> length (ss_staged st)
                     then (put_source source st g, memo, Inl (Reject.StagingFull source))
                     else
                       let rec = \<lparr>hr_height = hd_height hdr, hr_hash = hash, hr_prev_hash = hd_prev_hash hdr,
                                  hr_time = hd_time hdr, hr_bits = hd_bits hdr, hr_raw = raw\<rparr>;
                           st = st\<lparr>ss_staged := ss_staged st @ [\<lparr>sg_rec = rec, sg_cum_work = cum_work, sg_base = child_base\<rparr>],
                                   ss_staged_hashes := insert hash (ss_staged_hashes st)\<rparr>
                       in (put_source source st g, memo, Inr ())))
        })"

section \<open>Promotion\<close>

definition spend_class_budget :: "SourceId \<Rightarrow> u64 \<Rightarrow> Ingest \<Rightarrow> Ingest \<times> bool" where
  "spend_class_budget source cost g =
     (case in_source g source of
        None \<Rightarrow> (g, False)
      | Some st \<Rightarrow>
          if ss_tokens st < cost then (g, False)
          else let from_shared = cost \<le> in_shared_tokens g in
            if \<not> from_shared \<and> ss_reserve_tokens st < cost then (g, False)
            else
              let g = (if from_shared then g\<lparr>in_shared_tokens := in_shared_tokens g - cost\<rparr> else g);
                  st = (if \<not> from_shared then st\<lparr>ss_reserve_tokens := ss_reserve_tokens st - cost\<rparr> else st)
              in (put_source source (st\<lparr>ss_tokens := ss_tokens st - cost\<rparr>) g, True))"

text \<open>\<open>Iterator::max_by\<close> keeps the later of two equal elements, \<open>min_by_key\<close> the earlier.\<close>

definition heavier_staged :: "Staged \<Rightarrow> Staged \<Rightarrow> Staged" where
  "heavier_staged a b =
     (if sg_cum_work b < sg_cum_work a \<or> sg_cum_work a = sg_cum_work b \<and> hr_hash (sg_rec a) < hr_hash (sg_rec b)
      then a else b)"

definition lower_staged :: "Staged \<Rightarrow> Staged \<Rightarrow> Staged" where
  "lower_staged a b = (if hr_height (sg_rec b) < hr_height (sg_rec a) then b else a)"

definition held_of :: "HeaderRec \<Rightarrow> Held" where
  "held_of r = \<lparr>he_hash = hr_hash r, he_height = hr_height r\<rparr>"

record Promotion =
  pr_ingest :: Ingest
  pr_index :: HeaderIndex
  pr_out :: "HeaderRec list"
  pr_observed :: "Condition list"
  pr_lost :: "Rejection option"
  pr_held :: "Held option"
  pr_connected :: u64
  pr_consumed :: nat
  pr_failed :: bool

definition lose :: "Rejection \<Rightarrow> Promotion \<Rightarrow> Promotion" where
  "lose r p = (if pr_lost p = None then p\<lparr>pr_lost := Some r\<rparr> else p)"

definition pr_observe :: "Condition \<Rightarrow> Promotion \<Rightarrow> Promotion" where
  "pr_observe c p = p\<lparr>pr_observed := pr_observed p @ [c]\<rparr>"

fun promote_loop :: "IngestCtx \<Rightarrow> SourceId \<Rightarrow> Staged list \<Rightarrow> Promotion \<Rightarrow> Promotion option" where
  "promote_loop cx source [] p = Some p"
| "promote_loop cx source (s # rest) p =
     (if cx_side_capacity cx \<le> unat (pr_connected p)
      then Some (pr_observe (Condition.BudgetExhausted source Staging) p)
      else
        let (g, paid) = (if charges_budget (cx_solicitation cx)
                         then spend_class_budget source (cx_pow_cost cx) (pr_ingest p) else (pr_ingest p, True));
            p = p\<lparr>pr_ingest := g\<rparr>
        in if \<not> paid then Some (pr_observe (Condition.BudgetExhausted source Interpreter) p)
        else if \<not> cx_pow_verify cx (hr_raw (sg_rec s))
        then
          (let h = hr_hash (sg_rec s);
               p = lose \<lparr>rj_hash = h, rj_height = hr_height (sg_rec s), rj_repair_from = hr_height (sg_rec s),
                         rj_why = why (Reject.PowInvalid h)\<rparr> p;
               g = (pr_ingest p)\<lparr>in_neg := neg_insert h Permanent (in_neg (pr_ingest p))\<rparr>
           in case in_source g source of
                None \<Rightarrow> None
              | Some st \<Rightarrow> Some (p\<lparr>pr_ingest := put_source source (st\<lparr>ss_pow_failures := saturating_add (ss_pow_failures st) 1\<rparr>) g,
                                 pr_consumed := pr_consumed p + 1, pr_failed := True\<rparr>))
        else case index_of (pr_index p) (hr_prev_hash (sg_rec s)) of
          None \<Rightarrow> promote_loop cx source rest
            ((lose \<lparr>rj_hash = hr_hash (sg_rec s), rj_height = hr_height (sg_rec s),
                     rj_repair_from = saturating_sub (hr_height (sg_rec s)) 1, rj_why = ''parent was not stored''\<rparr> p)
               \<lparr>pr_consumed := pr_consumed p + 1\<rparr>)
        | Some parent \<Rightarrow>
            (case index_insert (pr_index p) (sg_rec s) parent (sg_cum_work s) True of
               None \<Rightarrow> None
             | Some (i, ix) \<Rightarrow>
                 (case checked_add (pr_connected p) 1 of
                    None \<Rightarrow> None
                  | Some n \<Rightarrow> promote_loop cx source rest
                      (p\<lparr>pr_index := ix, pr_out := pr_out p @ [sg_rec s], pr_connected := n,
                         pr_consumed := pr_consumed p + 1\<rparr>))))"

text \<open>What leaves the staging area after the loop: everything after a failure, else what was consumed.\<close>

definition drain_staged :: "bool \<Rightarrow> nat \<Rightarrow> SourceState \<Rightarrow> SourceState" where
  "drain_staged failed consumed st =
     (let n = (if failed then length (ss_staged st) else min consumed (length (ss_staged st)))
      in st\<lparr>ss_staged_hashes := ss_staged_hashes st - (\<lambda>x. hr_hash (sg_rec x)) ` set (take n (ss_staged st)),
            ss_staged := drop n (ss_staged st)\<rparr>)"

definition promote :: "IngestCtx \<Rightarrow> SourceId \<Rightarrow> Promotion \<Rightarrow> Promotion option" where
  "promote cx source p =
     (case in_source (pr_ingest p) source of
        None \<Rightarrow> Some p
      | Some st \<Rightarrow>
          (case ss_staged st of
             [] \<Rightarrow> Some p
           | s # ss \<Rightarrow>
               let terminal = fold (\<lambda>b a. heavier_staged a b) ss s;
                   depth = saturating_sub (tip_height (cx_tip cx)) (sg_base terminal)
               in if \<not> is_ok (s6_claimed_work (sg_cum_work terminal) (hr_hash (sg_rec terminal))
                      (hr_height (sg_rec terminal)) depth (cx_tip cx))
                  then Some (if pr_held p = None
                             then p\<lparr>pr_held := Some (held_of (sg_rec (fold (\<lambda>b a. lower_staged a b) ss s)))\<rparr> else p)
                  else if charges_child_quota (cx_solicitation cx) \<and>
                      pm_child_pow_failures_per_source (cx_params cx) \<le> ss_pow_failures st
                  then Some (pr_observe (Condition.BudgetExhausted source ChildQuota) p)
                  else do {
                    p \<leftarrow> promote_loop cx source (ss_staged st) p;
                    st \<leftarrow> in_source (pr_ingest p) source;
                    Some (p\<lparr>pr_ingest := put_source source (drain_staged (pr_failed p) (pr_consumed p) st) (pr_ingest p)\<rparr>)
                  }))"

section \<open>A batch of headers\<close>

record Submission =
  su_ingest :: Ingest
  su_index :: HeaderIndex
  su_memo :: WorkCache
  su_out :: Accepted
  su_batch_dups :: u32
  su_staged_first :: "(Hash32 \<times> u64) option"
  su_connected :: "HeaderRec list"
  su_observed :: "Condition list"

definition su_promote :: "IngestCtx \<Rightarrow> SourceId \<Rightarrow> Submission \<Rightarrow> Submission option" where
  "su_promote cx source s = do {
     p \<leftarrow> promote cx source \<lparr>pr_ingest = su_ingest s, pr_index = su_index s, pr_out = su_connected s,
       pr_observed = su_observed s, pr_lost = ap_first_rejection (su_out s), pr_held = ap_first_held (su_out s),
       pr_connected = 0, pr_consumed = 0, pr_failed = False\<rparr>;
     connected \<leftarrow> checked_add (ap_connected (su_out s)) (pr_connected p);
     Some (s\<lparr>su_ingest := pr_ingest p, su_index := pr_index p, su_connected := pr_out p, su_observed := pr_observed p,
       su_out := (su_out s)\<lparr>ap_connected := connected, ap_first_rejection := pr_lost p, ap_first_held := pr_held p\<rparr>\<rparr>)
   }"

text \<open>A header that is known already: counted, and the batch ends when there are too many of them. The flag
  says whether the loop breaks.\<close>

definition known_header :: "IngestCtx \<Rightarrow> SourceId \<Rightarrow> Hash32 \<Rightarrow> Submission \<Rightarrow> (Submission \<times> bool) option" where
  "known_header cx source hash s = do {
     st \<leftarrow> in_source (su_ingest s) source;
     let out = su_out s;
     let held = (if hash \<in> ss_staged_hashes st \<and> ap_first_held out = None
                 then map_option (\<lambda>x. held_of (sg_rec x)) (List.find (\<lambda>x. hr_hash (sg_rec x) = hash) (ss_staged st))
                 else ap_first_held out);
     duplicates \<leftarrow> checked_add (ap_duplicates out) 1;
     batch_dups \<leftarrow> checked_add (su_batch_dups s) 1;
     dups \<leftarrow> checked_add (ss_dups st) 1;
     let params = cx_params cx;
     let flood = (if pm_max_duplicates_per_window params < dups then [Condition.DuplicateFlood source dups] else []);
     let stop = pm_max_duplicates_per_batch params < batch_dups;
     let obs = flood @ (if stop then [Condition.BudgetExhausted source Duplicates] else []);
     Some (s\<lparr>su_out := out\<lparr>ap_first_held := held, ap_duplicates := duplicates\<rparr>, su_batch_dups := batch_dups,
        su_ingest := put_source source (st\<lparr>ss_dups := dups\<rparr>) (su_ingest s), su_observed := su_observed s @ obs\<rparr>, stop)
   }"

definition rejection_of :: "bytes \<Rightarrow> Hash32 \<Rightarrow> Reject \<Rightarrow> Rejection" where
  "rejection_of raw hash rej =
     (let height = (case header_decode raw of Inl _ \<Rightarrow> 0 | Inr h \<Rightarrow> hd_height h);
          repair_from = (case rej of Reject.UnknownParent _ \<Rightarrow> saturating_sub height 1 | _ \<Rightarrow> height)
      in \<lparr>rj_hash = hash, rj_height = height, rj_repair_from = repair_from, rj_why = why rej\<rparr>)"

definition fresh_header :: "IngestCtx \<Rightarrow> SourceId \<Rightarrow> bytes \<Rightarrow> Hash32 \<Rightarrow> Submission \<Rightarrow> Submission option" where
  "fresh_header cx source raw hash s = do {
     s \<leftarrow> (if pm_max_staged_headers (cx_params cx) \<le> staged_count (su_ingest s) source then su_promote cx source s else Some s);
     (g, memo, res) \<leftarrow> stage_one (su_ingest s) (su_index s) (su_memo s) cx source raw hash;
     let out = su_out s;
     case res of
       Inr _ \<Rightarrow> do {
         n \<leftarrow> checked_add (ap_staged out) 1;
         let first = (if su_staged_first s = None
                      then (case source_staged g source of [] \<Rightarrow> None
                            | x # xs \<Rightarrow> let r = sg_rec (last (x # xs)) in Some (hr_hash r, hr_height r))
                      else su_staged_first s);
         Some (s\<lparr>su_ingest := g, su_memo := memo, su_out := out\<lparr>ap_staged := n\<rparr>, su_staged_first := first\<rparr>)
       }
     | Inl rej \<Rightarrow> do {
         n \<leftarrow> checked_add (ap_rejected out) 1;
         let rj = (if ap_first_rejection out = None then Some (rejection_of raw hash rej) else ap_first_rejection out);
         Some (s\<lparr>su_ingest := g\<lparr>in_neg := neg_insert hash (permanence rej) (in_neg g)\<rparr>, su_memo := memo,
           su_out := out\<lparr>ap_rejected := n, ap_first_rejection := rj\<rparr>\<rparr>)
       }
   }"

definition header_known :: "IngestCtx \<Rightarrow> SourceId \<Rightarrow> Hash32 \<Rightarrow> Submission \<Rightarrow> bool" where
  "header_known cx source hash s \<longleftrightarrow>
     (case in_source (su_ingest s) source of None \<Rightarrow> False | Some st \<Rightarrow> hash \<in> ss_staged_hashes st) \<or>
     index_contains (su_index s) hash \<or> neg_contains (in_neg (su_ingest s)) hash \<or> cx_store_invalid cx hash"

fun batch_loop :: "IngestCtx \<Rightarrow> SourceId \<Rightarrow> bytes list \<Rightarrow> Submission \<Rightarrow> Submission option" where
  "batch_loop cx source [] s = Some s"
| "batch_loop cx source (raw # raws) s =
     (let hash = header_hash raw in
      if header_known cx source hash s
      then (case known_header cx source hash s of
              None \<Rightarrow> None
            | Some (s, stop) \<Rightarrow> if stop then Some s else batch_loop cx source raws s)
      else (case fresh_header cx source raw hash s of None \<Rightarrow> None | Some s \<Rightarrow> batch_loop cx source raws s))"

text \<open>The start of a batch: buckets, quota epoch and window of duplicates of the source.\<close>

definition open_window :: "IngestCtx \<Rightarrow> SourceState \<Rightarrow> SourceState option" where
  "open_window cx st =
     (let params = cx_params cx; st = roll_quota_epoch (cx_tip_epoch cx) params (cx_mono_ms cx) st in
      if unat (pm_duplicate_window_secs params) * 1000 < 2 ^ 64
      then Some (if pm_duplicate_window_secs params * 1000 \<le> saturating_sub (cx_mono_ms cx) (ss_dup_window_ms st)
                 then st\<lparr>ss_dup_window_ms := cx_mono_ms cx, ss_dups := 0\<rparr> else st)
      else None)"

definition accepted_new :: "u64 \<Rightarrow> Accepted" where
  "accepted_new verified = \<lparr>ap_connected = 0, ap_duplicates = 0, ap_rejected = 0, ap_staged = 0,
     ap_verified_height = verified, ap_first_rejection = None, ap_first_held = None\<rparr>"

definition close_batch :: "SourceId \<Rightarrow> Submission \<Rightarrow> Accepted option" where
  "close_batch source s = do {
     tip \<leftarrow> index_tip_height (su_index s);
     let g = su_ingest s;
     let out = (su_out s)\<lparr>ap_staged := word_of_nat (staged_count g source)\<rparr>;
     let held = (case (ap_first_held out, su_staged_first s) of
           (None, Some (hash, height)) \<Rightarrow>
             if (case in_source g source of None \<Rightarrow> False | Some st \<Rightarrow> hash \<in> ss_staged_hashes st)
             then Some \<lparr>he_hash = hash, he_height = height\<rparr> else None
         | (h, _) \<Rightarrow> h);
     let staged_tip = (case source_staged g source of [] \<Rightarrow> 0 | x # xs \<Rightarrow> hr_height (sg_rec (last (x # xs))));
     Some (out\<lparr>ap_first_held := held, ap_verified_height := max tip staged_tip\<rparr>)
   }"

definition submit_headers ::
  "Ingest \<Rightarrow> HeaderIndex \<Rightarrow> WorkCache \<Rightarrow> IngestCtx \<Rightarrow> SourceId \<Rightarrow> bytes list \<Rightarrow>
     (Ingest \<times> HeaderIndex \<times> WorkCache \<times> HeaderRec list \<times> Condition list \<times> (Reject + Accepted)) option" where
  "submit_headers g ix memo cx source raws =
     (let params = cx_params cx in
      case touch source params (cx_pow_cost cx) (cx_mono_ms cx) (refill_shared params (cx_mono_ms cx) g) of
        (g, Inl e) \<Rightarrow> Some (g, ix, memo, [], [], Inl e)
      | (g, Inr _) \<Rightarrow> do {
          st \<leftarrow> in_source g source;
          st \<leftarrow> open_window cx st;
          tip \<leftarrow> index_tip_height ix;
          s \<leftarrow> batch_loop cx source raws
            \<lparr>su_ingest = put_source source st g, su_index = ix, su_memo = memo, su_out = accepted_new tip,
             su_batch_dups = 0, su_staged_first = None, su_connected = [], su_observed = []\<rparr>;
          s \<leftarrow> su_promote cx source s;
          out \<leftarrow> close_batch source s;
          Some (su_ingest s, su_index s, su_memo s, su_connected s, su_observed s, Inr out)
        })"

end
