(* ===== verification/HeaderFacts.thy ===== *)
theory HeaderFacts imports HeaderIngest Lifecycle begin

text \<open>
  Facts about the ingest of headers: the walks over staged headers and arena return, staging and promotion
  never panic and keep what the arena relies on. The ghost of the proofs is a chronicle of the headers
  seen so far: which bytes a hash stands for, the work claimed up to it and its depth. It is what lets a
  header staged long ago be inserted under a parent that another source has brought in the meantime.
\<close>

section \<open>The table of sources\<close>

lemma in_source_put [simp]:
  "in_source (put_source a st g) b = (if a = b then Some st else in_source g b)"
  "in_neg (put_source a st g) = in_neg g" "in_shared_tokens (put_source a st g) = in_shared_tokens g"
  by (simp_all add: in_source_def put_source_def update_conv')

lemma in_source_neg [simp]: "in_source (g\<lparr>in_neg := c\<rparr>) b = in_source g b"
  "in_source (g\<lparr>in_shared_tokens := t\<rparr>) b = in_source g b" "in_source (g\<lparr>in_shared_last_ms := t\<rparr>) b = in_source g b"
  "in_source (g\<lparr>in_shared_primed := p\<rparr>) b = in_source g b"
  by (simp_all add: in_source_def)

lemma state_refill_keeps [simp]:
  "ss_staged (state_refill params cost now st) = ss_staged st" "ss_dups (state_refill params cost now st) = ss_dups st"
  by (simp_all add: state_refill_def split: prod.splits)

lemma source_default_empty [simp]: "ss_staged source_state_default = []" "ss_dups source_state_default = 0"
  by (simp_all add: source_state_default_def)

section \<open>The chronicle\<close>

type_synonym Chronicle = "Hash32 \<Rightarrow> (bytes \<times> Work \<times> nat) option"

definition derived :: "Target \<Rightarrow> Chronicle \<Rightarrow> Header \<Rightarrow> Work \<Rightarrow> nat \<Rightarrow> bool" where
  "derived limit G hh cum d \<longleftrightarrow> (\<exists>praw pcum pd ph w.
     G (hd_prev_hash hh) = Some (praw, pcum, pd) \<and> header_decode praw = Inr ph \<and>
     hd_height hh = saturating_add (hd_height ph) 1 \<and> direct_work (hd_bits hh) limit = Some w \<and>
     work_checked_add pcum w = Some cum \<and> d = Suc pd)"

definition chronicle_ok :: "Target \<Rightarrow> bytes set \<Rightarrow> Chronicle \<Rightarrow> bool" where
  "chronicle_ok limit R G \<longleftrightarrow> (\<forall>h raw cum d. G h = Some (raw, cum, d) \<longrightarrow> raw \<in> R \<and> header_hash raw = h \<and>
     (\<exists>hh. header_decode raw = Inr hh \<and> (hd_height hh = 0 \<or> derived limit G hh cum d)))"

definition node_in :: "Target \<Rightarrow> (bytes \<Rightarrow> bool) \<Rightarrow> Chronicle \<Rightarrow> Node list \<Rightarrow> nat \<Rightarrow> bool" where
  "node_in limit V G ns i \<longleftrightarrow> (\<exists>raw hh d. G (nd_hash (ns ! i)) = Some (raw, nd_cum_work (ns ! i), d) \<and>
     header_decode raw = Inr hh \<and> hd_height hh = nd_height (ns ! i) \<and>
     (0 < i \<longrightarrow> V raw \<and> hd_prev_hash hh = nd_hash (ns ! par ns i) \<and> derived limit G hh (nd_cum_work (ns ! i)) d))"

definition arena_in :: "Target \<Rightarrow> (bytes \<Rightarrow> bool) \<Rightarrow> Chronicle \<Rightarrow> HeaderIndex \<Rightarrow> bool" where
  "arena_in limit V G ix \<longleftrightarrow> (\<forall>i < length (hx_nodes ix). node_in limit V G (hx_nodes ix) i)"

definition staged_in :: "Target \<Rightarrow> Chronicle \<Rightarrow> Staged \<Rightarrow> bool" where
  "staged_in limit G s \<longleftrightarrow> (\<exists>hh d. G (hr_hash (sg_rec s)) = Some (hr_raw (sg_rec s), sg_cum_work s, d) \<and>
     header_decode (hr_raw (sg_rec s)) = Inr hh \<and> hr_height (sg_rec s) = hd_height hh \<and>
     hr_prev_hash (sg_rec s) = hd_prev_hash hh \<and> hr_bits (sg_rec s) = hd_bits hh \<and> derived limit G hh (sg_cum_work s) d)"

definition depth_of :: "Chronicle \<Rightarrow> Hash32 \<Rightarrow> nat" where
  "depth_of G h = (case G h of None \<Rightarrow> 0 | Some (_, _, d) \<Rightarrow> d)"

definition lite_in :: "Target \<Rightarrow> (bytes \<Rightarrow> bool) \<Rightarrow> Chronicle \<Rightarrow> HeaderIndex \<Rightarrow> Lite \<Rightarrow> bool" where
  "lite_in limit V G ix l \<longleftrightarrow>
     (\<exists>raw hh d. G (lt_hash l) = Some (raw, lt_cum_work l, d) \<and> header_decode raw = Inr hh \<and> lt_height l = hd_height hh \<and>
        (case lt_arena l of
           Some i \<Rightarrow> unat i < length (hx_nodes ix) \<and> nd_hash (hx_nodes ix ! unat i) = lt_hash l
         | None \<Rightarrow> lt_prev_hash l = hd_prev_hash hh \<and> derived limit G hh (lt_cum_work l) d))"

lemma map_leD: "G \<subseteq>\<^sub>m G' \<Longrightarrow> G h = Some x \<Longrightarrow> G' h = Some x"
  by (metis domI map_le_def)

lemma derived_mono: "derived limit G hh cum d \<Longrightarrow> G \<subseteq>\<^sub>m G' \<Longrightarrow> derived limit G' hh cum d"
  unfolding derived_def by (blast dest: map_leD)

lemma chronicle_mono:
  "node_in limit V G ns i \<Longrightarrow> G \<subseteq>\<^sub>m G' \<Longrightarrow> node_in limit V G' ns i"
  "staged_in limit G s \<Longrightarrow> G \<subseteq>\<^sub>m G' \<Longrightarrow> staged_in limit G' s"
  "arena_in limit V G ix \<Longrightarrow> G \<subseteq>\<^sub>m G' \<Longrightarrow> arena_in limit V G' ix"
proof -
  show n: "node_in limit V G' ns i" if "node_in limit V G ns i" "G \<subseteq>\<^sub>m G'" for ns i
    using that(1) map_leD [OF that(2)] derived_mono [OF _ that(2)] unfolding node_in_def by fast
  show "staged_in limit G' s" if "staged_in limit G s" "G \<subseteq>\<^sub>m G'"
    using that(1) map_leD [OF that(2)] derived_mono [OF _ that(2)] unfolding staged_in_def by fast
  show "arena_in limit V G' ix" if "arena_in limit V G ix" "G \<subseteq>\<^sub>m G'"
    using that n unfolding arena_in_def by blast
qed

section \<open>Walks\<close>

lemma lite_of_node:
  assumes "arena_in limit V G ix" "unat i < length (hx_nodes ix)"
  shows "lite_in limit V G ix (lite_of (hx_nodes ix ! unat i) (Some i))"
  using assms unfolding arena_in_def node_in_def lite_in_def lite_of_def by fastforce

lemma lite_of_staged: "staged_in limit G s \<Longrightarrow> lite_in limit V G ix (lite_staged s)"
  unfolding staged_in_def lite_in_def lite_staged_def by auto

lemma find_parent_ok:
  assumes "index_ok ix" "arena_in limit V G ix" "\<forall>s \<in> set staged. staged_in limit G s"
  shows "\<exists>r. find_parent ix staged h = Some r \<and> (\<forall>l. r = Some l \<longrightarrow> lite_in limit V G ix l \<and> lt_hash l = h)"
proof (cases "index_of ix h")
  case (Some i)
  then have i: "unat i < length (hx_nodes ix)" "nd_hash (hx_nodes ix ! unat i) = h"
    using index_okD(2) [OF assms(1)] by (simp_all add: by_hash_ok_def index_of_def)
  then show ?thesis using Some lite_of_node [OF assms(2) i(1)] by (simp add: find_parent_def lite_of_def)
next
  case None
  have "lite_in limit V G ix (lite_staged s) \<and> lt_hash (lite_staged s) = h"
    if "List.find (\<lambda>s. hr_hash (sg_rec s) = h) (rev staged) = Some s" for s
  proof -
    have s: "hr_hash (sg_rec s) = h" "s \<in> set (rev staged)"
      using that by (auto simp: find_Some_iff) (metis length_rev nth_mem set_rev)
    have "lite_in limit V G ix (lite_staged s)" using s(2) assms(3) lite_of_staged by simp
    moreover have "lt_hash (lite_staged s) = h" using s(1) by (simp add: lite_staged_def)
    ultimately show ?thesis by blast
  qed
  then show ?thesis using None by (auto simp: find_parent_def)
qed

lemma derived_depth: "derived limit G hh cum d \<Longrightarrow> depth_of G (hd_prev_hash hh) < d"
  by (auto simp: derived_def depth_of_def)

lemma lite_parent_ok:
  assumes "index_ok ix" "arena_in limit V G ix" "\<forall>s \<in> set staged. staged_in limit G s" "lite_in limit V G ix l"
  shows "\<exists>r. lite_parent ix staged l = Some r \<and>
    (\<forall>p. r = Some p \<longrightarrow> lite_in limit V G ix p \<and> depth_of G (lt_hash p) < depth_of G (lt_hash l))"
proof (cases "lt_arena l")
  case None
  then obtain raw hh d where "G (lt_hash l) = Some (raw, lt_cum_work l, d)" "lt_prev_hash l = hd_prev_hash hh"
    "derived limit G hh (lt_cum_work l) d"
    using assms(4) unfolding lite_in_def by auto
  then have "depth_of G (lt_prev_hash l) < depth_of G (lt_hash l)" using derived_depth by (simp add: depth_of_def)
  then show ?thesis using None find_parent_ok [OF assms(1-3), of "lt_prev_hash l"] by (auto simp: lite_parent_def)
next
  case (Some i)
  let ?ns = "hx_nodes ix"
  have ok: "nodes_ok ?ns" using index_okD(1) [OF assms(1)] .
  have i: "unat i < length ?ns" "nd_hash (?ns ! unat i) = lt_hash l" using assms(4) Some unfolding lite_in_def by auto
  show ?thesis
  proof (cases "unat i = 0")
    case True
    then show ?thesis using Some i prev_none_iff [OF ok i(1)] by (simp add: lite_parent_def)
  next
    case False
    then have p: "par ?ns (unat i) < length ?ns" using nodes_ok_par(2) [OF ok _ i(1)] by simp
    obtain raw hh d where n: "G (nd_hash (?ns ! unat i)) = Some (raw, nd_cum_work (?ns ! unat i), d)"
      "hd_prev_hash hh = nd_hash (?ns ! par ?ns (unat i))" "derived limit G hh (nd_cum_work (?ns ! unat i)) d"
      using assms(2) i(1) False unfolding arena_in_def node_in_def by blast
    then have "depth_of G (nd_hash (?ns ! par ?ns (unat i))) < depth_of G (lt_hash l)"
      using derived_depth [OF n(3)] i(2) by (simp add: depth_of_def)
    then show ?thesis
      using Some i p False prev_none_iff [OF ok i(1)] lite_of_node [OF assms(2) p] by (simp add: lite_parent_def lite_of_def)
  qed
qed

lemma times_loop_ok:
  assumes "index_ok ix" "arena_in limit V G ix" "\<forall>s \<in> set staged. staged_in limit G s"
  shows "lite_in limit V G ix l \<Longrightarrow> \<exists>ts. times_loop ix staged k l out = Some (out @ ts) \<and> (0 < k \<longrightarrow> ts \<noteq> [])"
proof (induction k arbitrary: l out)
  case (Suc k)
  obtain r where r: "lite_parent ix staged l = Some r" "\<forall>p. r = Some p \<longrightarrow> lite_in limit V G ix p"
    using lite_parent_ok [OF assms Suc.prems] by blast
  show ?case
  proof (cases r)
    case (Some p)
    then obtain ts where "times_loop ix staged k p (out @ [lt_time l]) = Some ((out @ [lt_time l]) @ ts)"
      using Suc.IH r(2) by blast
    then show ?thesis using r(1) Some by simp
  qed (use r(1) in simp)
qed simp

lemma ancestor_times_ok:
  assumes "index_ok ix" "arena_in limit V G ix" "\<forall>s \<in> set staged. staged_in limit G s" "lite_in limit V G ix l"
  shows "\<exists>ts. ancestor_times ix staged l MEDIAN_TIME_SPAN = Some ts \<and> ts \<noteq> []"
  using times_loop_ok [OF assms(1-4), of MEDIAN_TIME_SPAN "[]"] by (auto simp: ancestor_times_def)

lemma ancestor_loop_ok:
  assumes "index_ok ix" "arena_in limit V G ix" "\<forall>s \<in> set staged. staged_in limit G s"
  shows "lite_in limit V G ix l \<Longrightarrow> ancestor_loop ix staged l height \<noteq> None"
proof (induction "depth_of G (lt_hash l)" arbitrary: l rule: less_induct)
  case less
  obtain r where r: "lite_parent ix staged l = Some r"
    "\<forall>p. r = Some p \<longrightarrow> lite_in limit V G ix p \<and> depth_of G (lt_hash p) < depth_of G (lt_hash l)"
    using lite_parent_ok [OF assms less.prems] by blast
  then show ?case using less.hyps
    by (cases r) (simp_all add: ancestor_loop.simps [of ix staged l])
qed

lemma canonical_at_ok: "index_ok ix \<Longrightarrow> canonical_at ix h \<noteq> None"
proof -
  assume ok: "index_ok ix"
  note D = index_okD [OF ok]
  obtain t where t: "t < length (hx_nodes ix)" "map unat (hx_canonical ix) = path (hx_nodes ix) t"
    using D(3) by (auto simp: canon_ok_def)
  have "unat (hx_canonical ix ! k) < length (hx_nodes ix)" if "k < length (hx_canonical ix)" for k
  proof -
    have "unat (hx_canonical ix ! k) \<in> set (path (hx_nodes ix) t)"
      using that t(2) by (metis length_map nth_map nth_mem)
    then show ?thesis using path_bound [OF D(1) t(1)] t(1) by fastforce
  qed
  then show ?thesis by (simp add: canonical_at_def)
qed

lemma ancestor_of_ok:
  assumes "index_ok ix" "arena_in limit V G ix" "\<forall>s \<in> set staged. staged_in limit G s" "lite_in limit V G ix l"
  shows "ancestor_of ix staged l height \<noteq> None"
proof -
  obtain r where "canonical_at ix height = Some r" using canonical_at_ok [OF assms(1), of height] by auto
  then show ?thesis using ancestor_loop_ok [OF assms] by (simp add: ancestor_of_def)
qed

lemma child_branch_base_ok:
  assumes "lite_in limit V G ix l"
  shows "child_branch_base ix l \<noteq> None"
  using assms unfolding lite_in_def child_branch_base_def is_canonical_def by (auto split: option.splits)

lemma resolve_anchor_ok:
  assumes "index_ok ix" "arena_in limit V G ix" "\<forall>s \<in> set staged. staged_in limit G s" "lite_in limit V G ix l"
  shows "resolve_anchor ix staged l cx \<noteq> None"
  using ancestor_of_ok [OF assms] by (auto simp: resolve_anchor_def Let_def and_thenp_None)

lemma anchor_reach_ok:
  assumes "index_ok ix" "arena_in limit V G ix" "\<forall>s \<in> set staged. staged_in limit G s" "lite_in limit V G ix l"
  shows "anchor_reach ix staged l a \<noteq> None"
proof -
  obtain r where "ancestor_of ix staged l (an_height a) = Some r" using ancestor_of_ok [OF assms, of "an_height a"] by auto
  then show ?thesis by (simp add: anchor_reach_def)
qed

section \<open>The gates\<close>

lemma and_thenp_total: "x \<noteq> None \<Longrightarrow> (\<And>v. x = Some (Inr v) \<Longrightarrow> f v \<noteq> None) \<Longrightarrow> and_thenp x f \<noteq> None"
  by (auto simp: and_thenp_None)

lemma case_prod_total: "(\<And>a b c. f a b c \<noteq> None) \<Longrightarrow> (case z of (a, b, c) \<Rightarrow> f a b c) \<noteq> None"
  by (cases z) simp

lemma median_nonempty: "ts \<noteq> [] \<Longrightarrow> median_time_past ts \<noteq> None"
  by (simp add: median_time_past_def Let_def)

lemma stage_gates_ok:
  assumes "index_ok ix" "arena_in limit V G ix" "\<forall>s \<in> set staged. staged_in limit G s"
  shows "stage_gates ix staged cx raw hash \<noteq> None"
    "stage_gates ix staged cx raw hash = Some (Inr (hdr, parent, base)) \<Longrightarrow>
      header_decode raw = Inr hdr \<and> lite_in limit V G ix parent \<and> lt_hash parent = hd_prev_hash hdr \<and>
      hd_height hdr = saturating_add (lt_height parent) 1"
proof -
  have s4: "ts \<noteq> [] \<Longrightarrow> s4_time ts t now \<noteq> None" for ts t now
    using median_nonempty [of ts] by (auto simp: s4_time_def)
  have walks: "resolve_anchor ix staged p cx \<noteq> None" "\<exists>ts. ancestor_times ix staged p MEDIAN_TIME_SPAN = Some ts \<and> ts \<noteq> []"
    "child_branch_base ix p \<noteq> None" "\<And>a. anchor_reach ix staged p a \<noteq> None" if "lite_in limit V G ix p" for p
    using that resolve_anchor_ok [OF assms] ancestor_times_ok [OF assms] child_branch_base_ok anchor_reach_ok [OF assms] by blast+
  have fp: "find_parent ix staged h \<noteq> None"
    "find_parent ix staged h = Some (Some l) \<Longrightarrow> lite_in limit V G ix l \<and> lt_hash l = h" for h l
    using find_parent_ok [OF assms, of h] by auto
  let ?time = "\<lambda>p t. do { times \<leftarrow> ancestor_times ix staged p MEDIAN_TIME_SPAN; s4_time times t (cx_now cx) }"
  let ?fork = "\<lambda>p. do {
          reach \<leftarrow> (case cx_anchor cx of None \<Rightarrow> Some NotReached | Some a \<Rightarrow> anchor_reach ix staged p a);
          child_base \<leftarrow> child_branch_base ix p;
          Some (and_then (s5_fork_depth (cx_tip cx) child_base (cx_anchor cx) reach (cx_params cx)) (\<lambda>_. Inr child_base))
        }"
  have t: "?time p u \<noteq> None" if lp: "lite_in limit V G ix p" for p u
    using walks(2) [OF lp] s4 by auto
  have f: "?fork p \<noteq> None" if lp: "lite_in limit V G ix p" for p
  proof -
    obtain b where "child_branch_base ix p = Some b" using walks(3) [OF lp] by auto
    moreover obtain r where "(case cx_anchor cx of None \<Rightarrow> Some NotReached | Some a \<Rightarrow> anchor_reach ix staged p a) = Some r"
      using walks(4) [OF lp] by (cases "cx_anchor cx") auto
    ultimately show ?thesis by simp
  qed
  have par: "lite_in limit V G ix p"
    if "map_option (ok_or e) (find_parent ix staged h) = Some (Inr p)" for p h and e :: Reject
    using that fp(2) by (auto simp: ok_or_Ok)
  show "stage_gates ix staged cx raw hash \<noteq> None"
    unfolding stage_gates_def Let_def
    by (intro and_thenp_total case_prod_total walks(1) t f) (auto simp: fp(1) intro: par)
  show "header_decode raw = Inr hdr \<and> lite_in limit V G ix parent \<and> lt_hash parent = hd_prev_hash hdr \<and>
      hd_height hdr = saturating_add (lt_height parent) 1"
    if "stage_gates ix staged cx raw hash = Some (Inr (hdr, parent, base))"
  proof -
    have "s1_fixed_fields raw (pm_pow_limit (cx_params cx)) = Inr hdr"
      "map_option (ok_or (Reject.UnknownParent (hd_prev_hash hdr))) (find_parent ix staged (hd_prev_hash hdr)) = Some (Inr parent)"
      "s2_height (hd_height hdr) (lt_height parent) = Inr ()"
      using that unfolding stage_gates_def Let_def by (auto simp: and_thenp_Ok split: prod.splits)
    then show ?thesis using fp(2) by (auto simp: s1_Ok ok_or_Ok s2_height_def Let_def split: if_splits)
  qed
qed

end
