(* ===== verification/HeaderPromote.thy ===== *)
theory HeaderPromote imports HeaderFacts begin

text \<open>
  Staging and promotion never panic: a staged header extends the chronicle, and a promoted one enters the
  arena under a parent with the height and the work the chronicle has for it. The loops keep a frame:
  what the tables of sources, the arena and the counters may have become.
\<close>

section \<open>Staging\<close>

definition ingest_in :: "Target \<Rightarrow> Chronicle \<Rightarrow> Ingest \<Rightarrow> bool" where
  "ingest_in limit G g \<longleftrightarrow> (\<forall>a st. in_source g a = Some st \<longrightarrow> (\<forall>s \<in> set (ss_staged st). staged_in limit G s))"

definition run_inv ::
  "Target \<Rightarrow> (bytes \<Rightarrow> bool) \<Rightarrow> bytes set \<Rightarrow> Chronicle \<Rightarrow> HeaderIndex \<Rightarrow> Ingest \<Rightarrow> WorkCache \<Rightarrow> bool" where
  "run_inv limit V R G ix g memo \<longleftrightarrow> chronicle_ok limit R G \<and> arena_in limit V G ix \<and> arena_inv ix limit \<and>
     ingest_in limit G g \<and> cache_ok limit memo"

lemma run_invD:
  assumes "run_inv limit V R G ix g memo"
  shows "chronicle_ok limit R G" "arena_in limit V G ix" "arena_inv ix limit" "index_ok ix" "works_ok limit (hx_nodes ix)"
    "ingest_in limit G g" "cache_ok limit memo"
  using assms by (simp_all add: run_inv_def arena_inv_def)

lemma ingest_in_mono: "ingest_in limit G g \<Longrightarrow> G \<subseteq>\<^sub>m G' \<Longrightarrow> ingest_in limit G' g"
  unfolding ingest_in_def by (blast intro: chronicle_mono(2))

lemma ingest_in_staged: "ingest_in limit G g \<Longrightarrow> \<forall>s \<in> set (source_staged g a). staged_in limit G s"
  by (cases "in_source g a") (auto simp: ingest_in_def source_staged_def)

lemma ingest_in_put:
  "ingest_in limit G g \<Longrightarrow> \<forall>s \<in> set (ss_staged st). staged_in limit G s \<Longrightarrow> ingest_in limit G (put_source a st g)"
  by (auto simp: ingest_in_def)

lemma derived_unique: "derived limit G hh cum d \<Longrightarrow> derived limit G hh cum' d' \<Longrightarrow> cum' = cum \<and> d' = d"
  by (auto simp: derived_def)

lemma saturating_succ_pos: "saturating_add a (1 :: u64) \<noteq> 0"
  by (simp add: saturating_add_def unat_arith_simps unsigned_minus_1_eq_mask mask_eq_exp_minus_1 split: if_splits)

lemma chronicle_extend:
  assumes ok: "chronicle_ok limit R G" and inj: "inj_on header_hash R" "raw \<in> R"
    and hh: "header_decode raw = Inr hh" "hd_height hh \<noteq> 0" and d: "derived limit G hh cum d"
  shows "\<exists>G'. G \<subseteq>\<^sub>m G' \<and> chronicle_ok limit R G' \<and> G' (header_hash raw) = Some (raw, cum, d)"
proof (cases "G (header_hash raw)")
  case None
  let ?G = "G(header_hash raw \<mapsto> (raw, cum, d))"
  have le: "G \<subseteq>\<^sub>m ?G" using None by (auto simp: map_le_def)
  have "chronicle_ok limit R ?G"
    unfolding chronicle_ok_def
  proof (intro allI impI)
    fix h r c e assume "?G h = Some (r, c, e)"
    show "r \<in> R \<and> header_hash r = h \<and> (\<exists>hh. header_decode r = Inr hh \<and> (hd_height hh = 0 \<or> derived limit ?G hh c e))"
    proof (cases "h = header_hash raw")
      case True
      then show ?thesis using \<open>?G h = Some (r, c, e)\<close> hh(1) inj(2) derived_mono [OF d le] by simp
    next
      case False
      then have "G h = Some (r, c, e)" using \<open>?G h = Some (r, c, e)\<close> by simp
      then obtain hh where "r \<in> R" "header_hash r = h" "header_decode r = Inr hh" "hd_height hh = 0 \<or> derived limit G hh c e"
        using ok unfolding chronicle_ok_def by blast
      then show ?thesis using derived_mono [OF _ le] by blast
    qed
  qed
  then show ?thesis using le by auto
next
  case (Some e)
  obtain r c k where e: "G (header_hash raw) = Some (r, c, k)" using Some by (cases e) auto
  then obtain h2 where h2: "r \<in> R" "header_hash r = header_hash raw" "header_decode r = Inr h2"
    "hd_height h2 = 0 \<or> derived limit G h2 c k"
    using ok unfolding chronicle_ok_def by blast
  then have "r = raw" using inj by (auto dest: inj_onD)
  then have "c = cum \<and> k = d" using h2 hh derived_unique [OF d] by auto
  then show ?thesis using ok e \<open>r = raw\<close> by (intro exI [of _ G]) auto
qed

text \<open>What one header may do to the source that sent it.\<close>

definition source_frame :: "SourceId \<Rightarrow> Ingest \<Rightarrow> Ingest \<Rightarrow> nat \<Rightarrow> bool" where
  "source_frame a g g' k \<longleftrightarrow> staged_count g' a \<le> staged_count g a + k \<and>
     (\<forall>st. in_source g a = Some st \<longrightarrow> (\<exists>st'. in_source g' a = Some st' \<and> ss_dups st' = ss_dups st))"

lemma staged_count_put [simp]:
  "staged_count (put_source a st g) b = (if a = b then length (ss_staged st) else staged_count g b)"
  by (simp add: staged_count_def)

lemma source_frame_refl [simp]: "source_frame a g g k"
  by (simp add: source_frame_def)

lemma stage_one_ok:
  assumes inv: "run_inv (pm_pow_limit (cx_params cx)) V R G ix g memo" and inj: "inj_on header_hash R" "raw \<in> R"
  shows "\<exists>g' memo' res G'. stage_one g ix memo cx source raw (header_hash raw) = Some (g', memo', res) \<and> G \<subseteq>\<^sub>m G' \<and>
    run_inv (pm_pow_limit (cx_params cx)) V R G' ix g' memo' \<and> source_frame source g g' 1"
proof -
  let ?l = "pm_pow_limit (cx_params cx)" and ?h = "header_hash raw"
  note I = run_invD [OF inv]
  note gates = stage_gates_ok [OF I(4,2) ingest_in_staged [OF I(6), of source], of cx raw ?h]
  obtain r where r: "stage_gates ix (source_staged g source) cx raw ?h = Some r" using gates(1) by blast
  show ?thesis
  proof (cases r)
    case (Inl e)
    then show ?thesis using r inv by (auto simp: stage_one_def intro: map_le_refl)
  next
    case (Inr z)
    obtain hdr parent base where z: "z = (hdr, parent, base)" by (cases z)
    have p: "header_decode raw = Inr hdr" "lite_in ?l V G ix parent" "lt_hash parent = hd_prev_hash hdr"
      "hd_height hdr = saturating_add (lt_height parent) 1"
      using gates(2) r Inr z by auto
    obtain memo' where m: "cache_work memo (hd_bits hdr) ?l = Some (direct_work (hd_bits hdr) ?l, memo')" "cache_ok ?l memo'"
      using cache_work_ok [OF I(7)] by blast
    have keep: "run_inv ?l V R G ix g' memo'" if "ingest_in ?l G g'" for g'
      using that inv m(2) by (simp add: run_inv_def)
    show ?thesis
    proof (cases "direct_work (hd_bits hdr) ?l")
      case None
      then show ?thesis using r Inr z m keep [OF I(6)] by (auto simp: stage_one_def intro: map_le_refl)
    next
      case (Some w)
      show ?thesis
      proof (cases "work_checked_add (lt_cum_work parent) w")
        case None
        then show ?thesis using r Inr z m Some keep [OF I(6)] by (auto simp: stage_one_def intro: map_le_refl)
      next
        case cum: (Some cum)
        let ?st = "case in_source g source of None \<Rightarrow> source_state_default | Some st \<Rightarrow> st"
        have old: "\<forall>s \<in> set (ss_staged ?st). staged_in ?l G s"
          using I(6) by (auto simp: ingest_in_def split: option.splits)
        have count: "staged_count g source = length (ss_staged ?st)" by (simp add: staged_count_def split: option.splits)
        show ?thesis
        proof (cases "pm_max_staged_headers (cx_params cx) \<le> length (ss_staged ?st)")
          case True
          have "source_frame source g (put_source source ?st g) 1" using count by (auto simp: source_frame_def)
          then show ?thesis using r Inr z m Some cum True keep [OF ingest_in_put [OF I(6) old]]
            by (auto simp: stage_one_def Let_def intro: map_le_refl)
        next
          case False
          let ?s = "\<lparr>sg_rec = \<lparr>hr_height = hd_height hdr, hr_hash = ?h, hr_prev_hash = hd_prev_hash hdr, hr_time = hd_time hdr,
              hr_bits = hd_bits hdr, hr_raw = raw\<rparr>, sg_cum_work = cum, sg_base = base\<rparr>"
          let ?st' = "?st\<lparr>ss_staged := ss_staged ?st @ [?s], ss_staged_hashes := insert ?h (ss_staged_hashes ?st)\<rparr>"
          obtain praw ph pd where "G (hd_prev_hash hdr) = Some (praw, lt_cum_work parent, pd)" "header_decode praw = Inr ph"
            "lt_height parent = hd_height ph"
            using p(2,3) unfolding lite_in_def by auto
          then have d: "derived ?l G hdr cum (Suc pd)" using p(4) Some cum by (auto simp: derived_def)
          have "hd_height hdr \<noteq> 0" using saturating_succ_pos by (simp add: p(4))
          then obtain G' where G': "G \<subseteq>\<^sub>m G'" "chronicle_ok ?l R G'" "G' ?h = Some (raw, cum, Suc pd)"
            using chronicle_extend [OF I(1) inj p(1) _ d] by blast
          have "staged_in ?l G' ?s" using G'(3) p(1) derived_mono [OF d G'(1)] by (simp add: staged_in_def)
          then have "ingest_in ?l G' (put_source source ?st' g)"
            using old chronicle_mono(2) [OF _ G'(1)] by (intro ingest_in_put [OF ingest_in_mono [OF I(6) G'(1)]]) auto
          then have "run_inv ?l V R G' ix (put_source source ?st' g) memo'"
            using G'(2) chronicle_mono(3) [OF I(2) G'(1)] I(3) m(2) by (simp add: run_inv_def)
          moreover have "source_frame source g (put_source source ?st' g) 1" using count by (auto simp: source_frame_def)
          moreover have "stage_one g ix memo cx source raw ?h = Some (put_source source ?st' g, memo', Inr ())"
            using r Inr z m Some cum False by (simp add: stage_one_def Let_def)
          ultimately show ?thesis using G'(1) by blast
        qed
      qed
    qed
  qed
qed

section \<open>Promotion\<close>

definition same_staged :: "Ingest \<Rightarrow> Ingest \<Rightarrow> bool" where
  "same_staged g g' \<longleftrightarrow> (\<forall>a. map_option (\<lambda>st. (ss_staged st, ss_dups st)) (in_source g' a) =
     map_option (\<lambda>st. (ss_staged st, ss_dups st)) (in_source g a))"

lemma same_staged_simps [simp]:
  "same_staged g g" "same_staged g (g'\<lparr>in_neg := c\<rparr>) = same_staged g g'"
  "same_staged g (g'\<lparr>in_shared_tokens := t\<rparr>) = same_staged g g'"
  by (simp_all add: same_staged_def)

lemma same_staged_trans: "same_staged g g' \<Longrightarrow> same_staged g' g'' \<Longrightarrow> same_staged g g''"
  by (simp add: same_staged_def)

lemma same_staged_sym: "same_staged g g' \<Longrightarrow> same_staged g' g"
  by (simp add: same_staged_def)

lemma same_staged_put:
  "same_staged g g' \<Longrightarrow> in_source g' a = Some st \<Longrightarrow> ss_staged st' = ss_staged st \<Longrightarrow> ss_dups st' = ss_dups st \<Longrightarrow>
   same_staged g (put_source a st' g')"
  unfolding same_staged_def by (metis (no_types, lifting) in_source_put(1) option.simps(9))

lemma same_staged_source:
  assumes "same_staged g g'" "in_source g a = Some st"
  obtains st' where "in_source g' a = Some st'" "ss_staged st' = ss_staged st" "ss_dups st' = ss_dups st"
proof -
  have "map_option (\<lambda>st. (ss_staged st, ss_dups st)) (in_source g' a) = Some (ss_staged st, ss_dups st)"
    using assms by (simp add: same_staged_def)
  then show thesis using that by auto
qed

lemma spend_same_staged: "same_staged g (fst (spend_class_budget a cost g))"
  by (cases "in_source g a") (auto simp: spend_class_budget_def Let_def intro!: same_staged_put)

lemma ingest_in_same: "same_staged g g' \<Longrightarrow> ingest_in limit G g \<Longrightarrow> ingest_in limit G g'"
  unfolding ingest_in_def by (metis same_staged_source same_staged_sym)

definition arena_steps ::
  "(bytes \<Rightarrow> 'vk option) \<Rightarrow> ('vk \<Rightarrow> bytes \<Rightarrow> bytes \<Rightarrow> bool) \<Rightarrow> ChainParams \<Rightarrow> HeaderIndex \<Rightarrow> HeaderIndex \<Rightarrow> bool" where
  "arena_steps vk verify params ix ix' \<longleftrightarrow> (\<forall>cps. core_steps vk verify params
     \<lparr>co_index = ix, co_checkpoints = cps\<rparr> \<lparr>co_index = ix', co_checkpoints = cps\<rparr>)"

lemma arena_steps_refl [simp]: "arena_steps vk verify params ix ix"
  by (simp add: arena_steps_def core_steps.refl)

lemma arena_steps_trans:
  "arena_steps vk verify params ix ix' \<Longrightarrow> arena_steps vk verify params ix' ix'' \<Longrightarrow> arena_steps vk verify params ix ix''"
  unfolding arena_steps_def by (blast intro: core_steps_trans)

text \<open>A staged header under a parent of the arena meets what \<open>core_step.insert\<close> asks.\<close>

lemma insert_staged:
  assumes arena: "arena_in limit V G ix" "arena_inv ix limit" and s: "staged_in limit G s" "V (hr_raw (sg_rec s))"
    and parent: "index_of ix (hr_prev_hash (sg_rec s)) = Some parent" and room: "length (hx_nodes ix) + 1 < 2 ^ 32 - 1"
  obtains i ix' where "index_insert ix (sg_rec s) parent (sg_cum_work s) True = Some (i, ix')"
    "arena_in limit V G ix'" "arena_inv ix' limit" "length (hx_nodes ix') \<le> length (hx_nodes ix) + 1"
    "pm_pow_limit params = limit \<Longrightarrow> arena_steps vk verify params ix ix'"
proof (cases "index_of ix (hr_hash (sg_rec s))")
  case (Some i)
  then show thesis
    using that [OF insert_known [OF Some]] arena by auto
next
  case None
  let ?ns = "hx_nodes ix" and ?r = "sg_rec s"
  have ok: "index_ok ix" using arena(2) by (simp add: arena_inv_def)
  note D = index_okD [OF ok]
  have p: "unat parent < length ?ns" "nd_hash (?ns ! unat parent) = hr_prev_hash ?r"
    using parent D(2) by (simp_all add: by_hash_ok_def index_of_def)
  obtain hh d where hh: "G (hr_hash ?r) = Some (hr_raw ?r, sg_cum_work s, d)" "header_decode (hr_raw ?r) = Inr hh"
    "hr_height ?r = hd_height hh" "hr_prev_hash ?r = hd_prev_hash hh" "hr_bits ?r = hd_bits hh" "derived limit G hh (sg_cum_work s) d"
    using s(1) unfolding staged_in_def by blast
  have "node_in limit V G ?ns (unat parent)" using arena(1) p(1) by (simp add: arena_in_def)
  then obtain praw ph pd where ph: "G (hr_prev_hash ?r) = Some (praw, nd_cum_work (?ns ! unat parent), pd)"
    "header_decode praw = Inr ph" "hd_height ph = nd_height (?ns ! unat parent)"
    unfolding node_in_def p(2) by blast
  obtain w where w: "hd_height hh = saturating_add (hd_height ph) 1" "direct_work (hd_bits hh) limit = Some w"
    "work_checked_add (nd_cum_work (?ns ! unat parent)) w = Some (sg_cum_work s)"
    using hh(6) ph(1,2) unfolding derived_def hh(4) [symmetric] by auto
  have low: "unat (nd_height (?ns ! unat parent)) < 2 ^ 32"
    using path_height_le [OF D(1) p(1)] p(1) room by linarith
  then have h: "hr_height ?r = nd_height (?ns ! unat parent) + 1" "unat (hr_height ?r) = hgt ?ns (unat parent) + 1"
    using w(1) by (simp_all add: hh(3) ph(3) saturating_add_def unat_word_ariths)
  obtain i n ix' where ins: "index_insert ix ?r parent (sg_cum_work s) True = Some (i, ix')" "hx_nodes ix' = ?ns @ [n]"
    and n: "n = \<lparr>nd_hash = hr_hash ?r, nd_prev = parent, nd_height = hr_height ?r, nd_time = hr_time ?r, nd_bits = hr_bits ?r,
       nd_cum_work = sg_cum_work s, nd_branch_base_height = nd_branch_base_height n, nd_flags = nd_flags n\<rparr>"
    by (rule insert_index_ok [OF ok None p(1) h(2) room])
  have node: "node ix parent = Some (?ns ! unat parent)" using p(1) by simp
  note step = None parent node h(1) w(2) [folded hh(5)] w(3) room ins(1)
  have inv: "arena_inv ix' limit" by (rule insert_core(1) [OF arena(2) step])
  have "node_in limit V G (hx_nodes ix') j" if j: "j < length (hx_nodes ix')" for j
  proof (cases "j < length ?ns")
    case True
    then have "0 < j \<Longrightarrow> par ?ns j < length ?ns" using nodes_ok_par(2) [OF D(1)] by simp
    then show ?thesis using arena(1) True unfolding arena_in_def node_in_def ins(2) by (auto simp: nth_append)
  next
    case False
    have nn: "hx_nodes ix' ! j = n" using j False by (simp add: ins(2) nth_append)
    have f: "nd_hash n = hr_hash ?r" "nd_cum_work n = sg_cum_work s" "nd_height n = hr_height ?r" "nd_prev n = parent"
      by (subst n, simp)+
    show ?thesis
      unfolding node_in_def nn f using hh s(2) p by (auto simp: ins(2) nth_append)
  qed
  then have "arena_in limit V G ix'" by (simp add: arena_in_def)
  moreover have "arena_steps vk verify params ix ix'" if "pm_pow_limit params = limit"
    unfolding arena_steps_def using core_steps.step [OF core_steps.refl core_step.insert] step that by blast
  ultimately show thesis using that [OF ins(1)] inv by (simp add: ins(2))
qed

text \<open>What the loop may have done to index, sources and counters after \<open>k\<close> staged headers.\<close>

definition arena_good :: "ChainParams \<Rightarrow> (bytes \<Rightarrow> bool) \<Rightarrow> Chronicle \<Rightarrow> HeaderIndex \<Rightarrow> bool" where
  "arena_good params V G ix \<longleftrightarrow> arena_inv ix (pm_pow_limit params) \<and> arena_in (pm_pow_limit params) V G ix"

definition loop_frame ::
  "(bytes \<Rightarrow> 'vk option) \<Rightarrow> ('vk \<Rightarrow> bytes \<Rightarrow> bytes \<Rightarrow> bool) \<Rightarrow> ChainParams \<Rightarrow> (bytes \<Rightarrow> bool) \<Rightarrow> Chronicle \<Rightarrow>
     Promotion \<Rightarrow> Promotion \<Rightarrow> nat \<Rightarrow> bool" where
  "loop_frame vk verify params V G p p' k \<longleftrightarrow> arena_good params V G (pr_index p') \<and>
     same_staged (pr_ingest p) (pr_ingest p') \<and>
     length (hx_nodes (pr_index p')) + pr_consumed p \<le> length (hx_nodes (pr_index p)) + pr_consumed p' \<and>
     unat (pr_connected p') + pr_consumed p \<le> unat (pr_connected p) + pr_consumed p' \<and>
     pr_consumed p \<le> pr_consumed p' \<and> pr_consumed p' \<le> pr_consumed p + k \<and>
     arena_steps vk verify params (pr_index p) (pr_index p')"

lemma loop_frame_trans:
  "loop_frame vk verify params V G p p' k \<Longrightarrow> loop_frame vk verify params V G p' p'' l \<Longrightarrow>
   loop_frame vk verify params V G p p'' (k + l)"
  unfolding loop_frame_def by (auto intro: same_staged_trans arena_steps_trans)

lemma lose_simps [simp]:
  "pr_ingest (lose r p) = pr_ingest p" "pr_index (lose r p) = pr_index p" "pr_connected (lose r p) = pr_connected p"
  "pr_consumed (lose r p) = pr_consumed p" "pr_out (lose r p) = pr_out p" "pr_failed (lose r p) = pr_failed p"
  "pr_observed (lose r p) = pr_observed p" "pr_held (lose r p) = pr_held p"
  by (simp_all add: lose_def)

lemma observe_simps [simp]:
  "pr_ingest (pr_observe c p) = pr_ingest p" "pr_index (pr_observe c p) = pr_index p"
  "pr_connected (pr_observe c p) = pr_connected p" "pr_consumed (pr_observe c p) = pr_consumed p"
  by (simp_all add: pr_observe_def)

lemma promote_loop_ok:
  assumes params: "cx_params cx = params"
  shows "\<forall>s \<in> set ss. staged_in (pm_pow_limit params) G s \<Longrightarrow> arena_good params (cx_pow_verify cx) G (pr_index p) \<Longrightarrow>
    in_source (pr_ingest p) source \<noteq> None \<Longrightarrow> length (hx_nodes (pr_index p)) + length ss < 2 ^ 32 - 1 \<Longrightarrow>
    unat (pr_connected p) + length ss < 2 ^ 64 \<Longrightarrow>
    \<exists>p'. promote_loop cx source ss p = Some p' \<and> loop_frame vk verify params (cx_pow_verify cx) G p p' (length ss)"
proof (induction ss arbitrary: p)
  case Nil
  then show ?case by (simp add: loop_frame_def)
next
  case (Cons s rest)
  let ?V = "cx_pow_verify cx" and ?l = "pm_pow_limit params"
  let ?F = "loop_frame vk verify params ?V G"
  define charge where "charge = (if charges_budget (cx_solicitation cx)
    then spend_class_budget source (cx_pow_cost cx) (pr_ingest p) else (pr_ingest p, True))"
  obtain g paid where c: "charge = (g, paid)" by (cases charge)
  have same: "same_staged (pr_ingest p) g"
    using spend_same_staged [of "pr_ingest p" source "cx_pow_cost cx"] c by (auto simp: charge_def split: if_splits)
  obtain st where st: "in_source g source = Some st" using Cons.prems(3) same by (auto elim: same_staged_source)
  let ?p = "p\<lparr>pr_ingest := g\<rparr>"
  let ?h = "hr_hash (sg_rec s)" and ?prev = "hr_prev_hash (sg_rec s)"
  have next1: ?case
    if step: "promote_loop cx source (s # rest) p = promote_loop cx source rest q" "?F p q 1"
      "length (hx_nodes (pr_index q)) \<le> length (hx_nodes (pr_index p)) + 1" "unat (pr_connected q) \<le> unat (pr_connected p) + 1" for q
  proof -
    have q: "arena_good params ?V G (pr_index q)" "same_staged (pr_ingest p) (pr_ingest q)" using step(2) by (simp_all add: loop_frame_def)
    have "in_source (pr_ingest q) source \<noteq> None" using Cons.prems(3) q(2) by (auto elim: same_staged_source)
    then obtain p' where "promote_loop cx source rest q = Some p'" "?F q p' (length rest)"
      using Cons.IH [of q] Cons.prems q(1) step(3,4) by auto
    then show ?case using step(1) loop_frame_trans [OF step(2)] by fastforce
  qed
  show ?case
  proof (cases "cx_side_capacity cx \<le> unat (pr_connected p)")
    case True
    then show ?thesis using Cons.prems(2) by (simp add: loop_frame_def)
  next
    case cap: False
    note run = promote_loop.simps(2) [of cx source s rest p, folded charge_def, unfolded c] cap
    show ?thesis
    proof (cases "paid \<and> ?V (hr_raw (sg_rec s))")
      case False
      have "same_staged (pr_ingest p) (put_source source (st\<lparr>ss_pow_failures := x\<rparr>) (g\<lparr>in_neg := neg\<rparr>))" for x neg
        by (rule same_staged_put [of _ _ _ st]) (use same st in simp_all)
      then show ?thesis using False run Cons.prems(2) same st by (cases paid) (simp_all add: loop_frame_def Let_def)
    next
      case good: True
      show ?thesis
      proof (cases "index_of (pr_index p) ?prev")
        case None
        let ?q = "(lose \<lparr>rj_hash = ?h, rj_height = hr_height (sg_rec s),
          rj_repair_from = saturating_sub (hr_height (sg_rec s)) 1, rj_why = ''parent was not stored''\<rparr> ?p)\<lparr>pr_consumed := pr_consumed p + 1\<rparr>"
        have "promote_loop cx source (s # rest) p = promote_loop cx source rest ?q"
          using run good None by (simp del: promote_loop.simps)
        then show ?thesis by (rule next1) (use Cons.prems(2) same in \<open>simp_all add: loop_frame_def\<close>)
      next
        case (Some parent)
        obtain i ix' where ins: "index_insert (pr_index p) (sg_rec s) parent (sg_cum_work s) True = Some (i, ix')"
          "arena_in ?l ?V G ix'" "arena_inv ix' ?l" "length (hx_nodes ix') \<le> length (hx_nodes (pr_index p)) + 1"
          "arena_steps vk verify params (pr_index p) ix'"
          by (rule insert_staged [of ?l ?V G "pr_index p" s parent params vk verify])
            (use Cons.prems good Some in \<open>simp_all add: arena_good_def\<close>)
        have n: "checked_add (pr_connected p) 1 = Some (pr_connected p + 1)" "unat (pr_connected p + 1) = unat (pr_connected p) + 1"
          using Cons.prems(5) by (simp_all add: checked_add_def unat_word_ariths)
        let ?q = "?p\<lparr>pr_index := ix', pr_out := pr_out p @ [sg_rec s], pr_connected := pr_connected p + 1,
          pr_consumed := pr_consumed p + 1\<rparr>"
        have "promote_loop cx source (s # rest) p = promote_loop cx source rest ?q"
          using run good Some ins(1) n(1) by (simp del: promote_loop.simps)
        then show ?thesis by (rule next1) (use same ins(2-5) n(2) in \<open>simp_all add: loop_frame_def arena_good_def\<close>)
      qed
    qed
  qed
qed

end
