(* ===== verification/HeaderRuns.thy ===== *)
theory HeaderRuns imports HeaderPromote begin

text \<open>
  Whole batches, and the life of an ingest beside the arena: no batch panics, every change of the arena is
  a sequence of insertions the core allows, and whatever entered it paid a verified proof of work.
\<close>

section \<open>A batch\<close>

definition sub_inv :: "IngestCtx \<Rightarrow> bytes set \<Rightarrow> Chronicle \<Rightarrow> SourceId \<Rightarrow> nat \<Rightarrow> Submission \<Rightarrow> bool" where
  "sub_inv cx R G source n s \<longleftrightarrow>
     run_inv (pm_pow_limit (cx_params cx)) (cx_pow_verify cx) R G (su_index s) (su_ingest s) (su_memo s) \<and>
     (\<exists>st. in_source (su_ingest s) source = Some st \<and> unat (ss_dups st) + n < 2 ^ 32) \<and>
     length (hx_nodes (su_index s)) + staged_count (su_ingest s) source + n < 2 ^ 32 - 1 \<and>
     unat (ap_connected (su_out s)) + staged_count (su_ingest s) source + n < 2 ^ 32 \<and>
     unat (ap_duplicates (su_out s)) + n < 2 ^ 32 \<and> unat (ap_rejected (su_out s)) + n < 2 ^ 32 \<and>
     unat (ap_staged (su_out s)) + n < 2 ^ 32 \<and> unat (su_batch_dups s) + n < 2 ^ 32"

lemma sub_inv_fewer: "sub_inv cx R G source n s \<Longrightarrow> m \<le> n \<Longrightarrow> sub_inv cx R G source m s"
  by (auto simp: sub_inv_def)

lemma checked_add_room: "unat (a :: u32) + Suc n < 2 ^ 32 \<Longrightarrow> checked_add a 1 = Some (a + 1) \<and> unat (a + 1) = unat a + 1"
  by (simp add: checked_add_def unat_word_ariths)

lemma drain_staged_simps [simp]:
  "ss_dups (drain_staged failed k st) = ss_dups st"
  "length (ss_staged (drain_staged failed k st)) = length (ss_staged st) - (if failed then length (ss_staged st) else k)"
  "set (ss_staged (drain_staged failed k st)) \<subseteq> set (ss_staged st)"
  by (auto simp: drain_staged_def Let_def set_drop_subset min_def)

lemma promote_ok:
  assumes inv: "sub_inv cx R G source n s"
    and p: "pr_ingest p = su_ingest s" "pr_index p = su_index s" "pr_connected p = 0" "pr_consumed p = 0"
  shows "\<exists>p'. promote cx source p = Some p' \<and> arena_good (cx_params cx) (cx_pow_verify cx) G (pr_index p') \<and>
    ingest_in (pm_pow_limit (cx_params cx)) G (pr_ingest p') \<and>
    (\<exists>st. in_source (pr_ingest p') source = Some st \<and> unat (ss_dups st) + n < 2 ^ 32) \<and>
    length (hx_nodes (pr_index p')) + staged_count (pr_ingest p') source \<le>
      length (hx_nodes (su_index s)) + staged_count (su_ingest s) source \<and>
    unat (pr_connected p') + staged_count (pr_ingest p') source \<le> staged_count (su_ingest s) source \<and>
    arena_steps vk verify (cx_params cx) (su_index s) (pr_index p')"
proof -
  let ?l = "pm_pow_limit (cx_params cx)" and ?V = "cx_pow_verify cx"
  have I: "arena_good (cx_params cx) ?V G (pr_index p)" "ingest_in ?l G (pr_ingest p)"
    using run_invD [of ?l ?V R G "su_index s" "su_ingest s" "su_memo s"] inv by (simp_all add: sub_inv_def arena_good_def p)
  obtain st where st: "in_source (pr_ingest p) source = Some st" "unat (ss_dups st) + n < 2 ^ 32"
    using inv by (auto simp: sub_inv_def p)
  have stay: ?thesis if "promote cx source p = Some p'" "pr_index p' = pr_index p" "pr_ingest p' = pr_ingest p" "pr_connected p' = 0" for p'
    using that I st p(3,4) by (auto simp: p(1,2) [symmetric])
  show ?thesis
  proof (cases "promote cx source p = do {
                    p \<leftarrow> promote_loop cx source (ss_staged st) p;
                    st \<leftarrow> in_source (pr_ingest p) source;
                    Some (p\<lparr>pr_ingest := put_source source (drain_staged (pr_failed p) (pr_consumed p) st) (pr_ingest p)\<rparr>)
                  }")
    case False
    then consider "promote cx source p = Some p" | c where "promote cx source p = Some (pr_observe c p)"
      | h where "promote cx source p = Some (p\<lparr>pr_held := h\<rparr>)"
      using st by (auto simp: promote_def Let_def split: list.splits if_splits)
    then show ?thesis
    proof cases
      case 1
      then show ?thesis by (rule stay) (simp_all add: p)
    next
      case 2
      then show ?thesis by (rule stay) (simp_all add: p)
    next
      case 3
      then show ?thesis by (rule stay) (simp_all add: p)
    qed
  next
    case True
    have count: "staged_count (pr_ingest p) source = length (ss_staged st)" using st by (simp add: staged_count_def)
    have staged: "\<forall>s \<in> set (ss_staged st). staged_in ?l G s" using I(2) st by (simp add: ingest_in_def)
    obtain q where q: "promote_loop cx source (ss_staged st) p = Some q"
      "loop_frame vk verify (cx_params cx) ?V G p q (length (ss_staged st))"
      using promote_loop_ok [OF HOL.refl staged I(1), of source vk verify] st inv count by (auto simp: sub_inv_def p)
    obtain st' where st': "in_source (pr_ingest q) source = Some st'" "ss_staged st' = ss_staged st" "ss_dups st' = ss_dups st"
      using q(2) st by (auto simp: loop_frame_def elim: same_staged_source)
    have "ingest_in ?l G (pr_ingest q)" using ingest_in_same I(2) q(2) by (auto simp: loop_frame_def)
    then have "ingest_in ?l G (put_source source (drain_staged (pr_failed q) (pr_consumed q) st') (pr_ingest q))"
      using staged st'(2) drain_staged_simps(3) [of "pr_failed q" "pr_consumed q" st'] by (intro ingest_in_put) auto
    then show ?thesis
      using True q st' st(2) count by (auto simp: loop_frame_def p)
  qed
qed

lemma su_promote_ok:
  assumes inv: "sub_inv cx R G source n s"
  shows "\<exists>s'. su_promote cx source s = Some s' \<and> sub_inv cx R G source n s' \<and>
    arena_steps vk verify (cx_params cx) (su_index s) (su_index s')"
proof -
  obtain p where p: "promote cx source \<lparr>pr_ingest = su_ingest s, pr_index = su_index s, pr_out = su_connected s,
       pr_observed = su_observed s, pr_lost = ap_first_rejection (su_out s), pr_held = ap_first_held (su_out s),
       pr_connected = 0, pr_consumed = 0, pr_failed = False\<rparr> = Some p"
    "arena_good (cx_params cx) (cx_pow_verify cx) G (pr_index p)" "ingest_in (pm_pow_limit (cx_params cx)) G (pr_ingest p)"
    "\<exists>st. in_source (pr_ingest p) source = Some st \<and> unat (ss_dups st) + n < 2 ^ 32"
    "length (hx_nodes (pr_index p)) + staged_count (pr_ingest p) source \<le>
      length (hx_nodes (su_index s)) + staged_count (su_ingest s) source"
    "unat (pr_connected p) + staged_count (pr_ingest p) source \<le> staged_count (su_ingest s) source"
    "arena_steps vk verify (cx_params cx) (su_index s) (pr_index p)"
    using promote_ok [OF inv, of "\<lparr>pr_ingest = su_ingest s, pr_index = su_index s, pr_out = su_connected s,
       pr_observed = su_observed s, pr_lost = ap_first_rejection (su_out s), pr_held = ap_first_held (su_out s),
       pr_connected = 0, pr_consumed = 0, pr_failed = False\<rparr>" vk verify] by auto
  have "checked_add (ap_connected (su_out s)) (pr_connected p) = Some (ap_connected (su_out s) + pr_connected p)"
    "unat (ap_connected (su_out s) + pr_connected p) = unat (ap_connected (su_out s)) + unat (pr_connected p)"
    using inv p(6) by (simp_all add: sub_inv_def checked_add_def unat_word_ariths)
  then show ?thesis
    using p inv by (auto simp: su_promote_def sub_inv_def run_inv_def arena_good_def)
qed

lemma known_header_ok:
  assumes inv: "sub_inv cx R G source (Suc n) s"
  shows "\<exists>s' stop. known_header cx source h s = Some (s', stop) \<and> sub_inv cx R G source n s' \<and> su_index s' = su_index s"
proof -
  obtain st where st: "in_source (su_ingest s) source = Some st" "unat (ss_dups st) + Suc n < 2 ^ 32"
    using inv by (auto simp: sub_inv_def)
  have "\<forall>x \<in> set (ss_staged st). staged_in (pm_pow_limit (cx_params cx)) G x"
    using inv st by (simp add: sub_inv_def run_inv_def ingest_in_def)
  then have "ingest_in (pm_pow_limit (cx_params cx)) G (put_source source (st\<lparr>ss_dups := d\<rparr>) (su_ingest s))" for d
    using inv by (intro ingest_in_put) (simp_all add: sub_inv_def run_inv_def)
  moreover have "staged_count (su_ingest s) source = length (ss_staged st)" using st by (simp add: staged_count_def)
  ultimately show ?thesis
    using inv st checked_add_room [of "ss_dups st" n] checked_add_room [of "ap_duplicates (su_out s)" n]
      checked_add_room [of "su_batch_dups s" n]
    by (simp add: known_header_def sub_inv_def run_inv_def Let_def)
qed

lemma fresh_header_ok:
  assumes inv: "sub_inv cx R G source (Suc n) s" and inj: "inj_on header_hash R" "raw \<in> R"
  shows "\<exists>s' G'. fresh_header cx source raw (header_hash raw) s = Some s' \<and> G \<subseteq>\<^sub>m G' \<and> sub_inv cx R G' source n s' \<and>
    arena_steps vk verify (cx_params cx) (su_index s) (su_index s')"
proof -
  let ?l = "pm_pow_limit (cx_params cx)"
  obtain t where t: "(if pm_max_staged_headers (cx_params cx) \<le> staged_count (su_ingest s) source then su_promote cx source s else Some s) = Some t"
    "sub_inv cx R G source (Suc n) t" "arena_steps vk verify (cx_params cx) (su_index s) (su_index t)"
    using su_promote_ok [OF inv, of vk verify] inv
    by (cases "pm_max_staged_headers (cx_params cx) \<le> staged_count (su_ingest s) source") auto
  then have tinv: "run_inv ?l (cx_pow_verify cx) R G (su_index t) (su_ingest t) (su_memo t)" by (simp add: sub_inv_def)
  obtain g memo res G' where g: "stage_one (su_ingest t) (su_index t) (su_memo t) cx source raw (header_hash raw) = Some (g, memo, res)"
    "G \<subseteq>\<^sub>m G'" "run_inv ?l (cx_pow_verify cx) R G' (su_index t) g memo" "source_frame source (su_ingest t) g 1"
    using stage_one_ok [OF tinv inj] by blast
  have room: "unat (ap_staged (su_out t)) + Suc n < 2 ^ 32" "unat (ap_rejected (su_out t)) + Suc n < 2 ^ 32"
    using t(2) by (simp_all add: sub_inv_def)
  have neg: "run_inv ?l (cx_pow_verify cx) R G' (su_index t) (g\<lparr>in_neg := c\<rparr>) memo" for c
    using g(3) by (simp add: run_inv_def ingest_in_def)
  have count: "staged_count (g\<lparr>in_neg := c\<rparr>) source = staged_count g source" for c by (simp add: staged_count_def)
  show ?thesis
    using t g neg count checked_add_room [OF room(1)] checked_add_room [OF room(2)]
    by (cases res) (fastforce simp: fresh_header_def sub_inv_def source_frame_def Let_def)+
qed

lemma batch_loop_ok:
  assumes inj: "inj_on header_hash R"
  shows "set raws \<subseteq> R \<Longrightarrow> sub_inv cx R G source (length raws) s \<Longrightarrow>
    \<exists>s' G'. batch_loop cx source raws s = Some s' \<and> sub_inv cx R G' source 0 s' \<and>
      arena_steps vk verify (cx_params cx) (su_index s) (su_index s')"
proof (induction raws arbitrary: s G)
  case Nil
  then show ?case by auto
next
  case (Cons raw raws)
  have inv: "sub_inv cx R G source (Suc (length raws)) s" using Cons.prems by simp
  show ?case
  proof (cases "header_known cx source (header_hash raw) s")
    case True
    obtain t stop where t: "known_header cx source (header_hash raw) s = Some (t, stop)"
      "sub_inv cx R G source (length raws) t" "su_index t = su_index s"
      using known_header_ok [OF inv] by blast
    show ?thesis
    proof (cases stop)
      case True
      then show ?thesis using \<open>header_known cx source (header_hash raw) s\<close> t sub_inv_fewer [OF t(2), of 0] by (auto simp: Let_def)
    next
      case False
      then show ?thesis
        using \<open>header_known cx source (header_hash raw) s\<close> t Cons.IH [OF _ t(2)] Cons.prems(1) by (simp add: Let_def)
    qed
  next
    case False
    obtain t G' where t: "fresh_header cx source raw (header_hash raw) s = Some t" "sub_inv cx R G' source (length raws) t"
      "arena_steps vk verify (cx_params cx) (su_index s) (su_index t)"
      using fresh_header_ok [OF inv inj, of raw vk verify] Cons.prems(1) by auto
    then show ?thesis
      using False Cons.IH [OF _ t(2)] Cons.prems(1) by (auto simp: Let_def intro: arena_steps_trans)
  qed
qed

definition source_dups :: "Ingest \<Rightarrow> SourceId \<Rightarrow> nat" where
  "source_dups g a = (case in_source g a of None \<Rightarrow> 0 | Some st \<Rightarrow> unat (ss_dups st))"

lemma in_source_delete [simp]: "in_source (g\<lparr>in_sources := AList.delete i xs\<rparr>) a = (if a = i then None else map_of xs a)"
  by (simp add: in_source_def delete_conv')

lemma refilled: "map_of (map (\<lambda>(i, s). (i, f s)) xs) a = map_option f (map_of xs a)"
  by (simp add: map_of_map)

lemma ingest_in_refilled:
  assumes "ingest_in limit G g" "\<And>a st. in_source g' a = Some st \<Longrightarrow> \<exists>st0. in_source g a = Some st0 \<and> ss_staged st = ss_staged st0"
  shows "ingest_in limit G g'"
  using assms unfolding ingest_in_def by metis

lemma touch_ok:
  assumes inv: "ingest_in limit G g" and t: "touch source params cost now g = (g', r)"
  shows "ingest_in limit G g'"
    "r = Inr () \<Longrightarrow> \<exists>st. in_source g' source = Some st \<and> length (ss_staged st) = staged_count g source \<and> unat (ss_dups st) = source_dups g source"
proof -
  let ?f = "state_refill params cost now"
  let ?st = "\<lambda>g. case in_source g source of None \<Rightarrow> source_state_default | Some st \<Rightarrow> st"
  have put: "ingest_in limit G (put_source source (?f (?st h)) h)" if "ingest_in limit G h" for h
    using that by (intro ingest_in_put) (auto simp: ingest_in_def split: option.splits)
  have keep: "\<exists>st. in_source (put_source source (?f (?st h)) h) source = Some st \<and> length (ss_staged st) = staged_count g source \<and>
      unat (ss_dups st) = source_dups g source" if "in_source h source = in_source g source" for h
    using that by (simp add: staged_count_def source_dups_def split: option.splits)
  consider (known) "g' = put_source source (?f (?st g)) g" "r = Inr ()"
    | (full) "g' = g\<lparr>in_sources := map (\<lambda>(i, s). (i, ?f s)) (in_sources g)\<rparr>" "r \<noteq> Inr ()"
    | (evict) h i where "in_source g source = None" "h = g\<lparr>in_sources := AList.delete i (map (\<lambda>(i, s). (i, ?f s)) (in_sources g))\<rparr>"
        "g' = put_source source (?f (?st h)) h" "r = Inr ()"
  proof (cases "in_source g source = None \<and> pm_max_sources params \<le> length (in_sources g)")
    case False
    then show thesis using t that(1) by (auto simp: touch_def)
  next
    case True
    let ?xs = "map (\<lambda>(i, s). (i, ?f s)) (in_sources g)"
    obtain idle parked where v: "fold (pick_victim params cost) ?xs (None, None) = (idle, parked)" by fastforce
    show thesis
    proof (cases "case idle of Some i \<Rightarrow> Some i | None \<Rightarrow> map_option snd parked")
      case None
      then show thesis using t v True by (intro that(2)) (auto simp: touch_def Let_def)
    next
      case (Some i)
      then show thesis using t v True by (intro that(3) [OF _ HOL.refl, of i]) (auto simp: touch_def Let_def)
    qed
  qed
  then have "ingest_in limit G g' \<and> (r = Inr () \<longrightarrow> (\<exists>st. in_source g' source = Some st \<and>
      length (ss_staged st) = staged_count g source \<and> unat (ss_dups st) = source_dups g source))"
  proof cases
    case known
    then show ?thesis using put [OF inv] keep by simp
  next
    case full
    have "in_source g' a = map_option ?f (in_source g a)" for a by (simp add: full(1) in_source_def refilled)
    then have "ingest_in limit G g'" by (intro ingest_in_refilled [OF inv]) auto
    then show ?thesis using full(2) by simp
  next
    case evict
    have e: "in_source h a = (if a = i then None else map_option ?f (in_source g a))" for a
      by (simp add: evict(2) in_source_def refilled delete_conv')
    then have "ingest_in limit G h" by (intro ingest_in_refilled [OF inv]) (auto split: if_splits)
    then show ?thesis using put [of h] keep [of h] e [of source] evict by simp
  qed
  then show "ingest_in limit G g'"
    "r = Inr () \<Longrightarrow> \<exists>st. in_source g' source = Some st \<and> length (ss_staged st) = staged_count g source \<and> unat (ss_dups st) = source_dups g source"
    by simp_all
qed

lemma open_window_ok:
  assumes "unat (pm_duplicate_window_secs (cx_params cx)) * 1000 < 2 ^ 64"
  shows "\<exists>st'. open_window cx st = Some st' \<and> ss_staged st' = ss_staged st \<and> unat (ss_dups st') \<le> unat (ss_dups st)"
  using assms by (simp add: open_window_def roll_quota_epoch_def Let_def)

definition submit_room :: "IngestCtx \<Rightarrow> Ingest \<Rightarrow> HeaderIndex \<Rightarrow> SourceId \<Rightarrow> nat \<Rightarrow> bool" where
  "submit_room cx g ix source n \<longleftrightarrow> length (hx_nodes ix) + staged_count g source + n < 2 ^ 32 - 1 \<and>
     source_dups g source + n < 2 ^ 32 \<and> unat (pm_duplicate_window_secs (cx_params cx)) * 1000 < 2 ^ 64"

lemma index_tip_height_ok: "arena_inv ix limit \<Longrightarrow> \<exists>h. index_tip_height ix = Some h"
  by (erule arena_facts) (simp add: index_tip_height_def)

lemma submit_headers_ok:
  assumes inv: "run_inv (pm_pow_limit (cx_params cx)) (cx_pow_verify cx) R G ix g memo" and inj: "inj_on header_hash R"
    and raws: "set raws \<subseteq> R" and room: "submit_room cx g ix source (length raws)"
  shows "\<exists>g' ix' memo' out conds r G'. submit_headers g ix memo cx source raws = Some (g', ix', memo', out, conds, r) \<and>
    run_inv (pm_pow_limit (cx_params cx)) (cx_pow_verify cx) R G' ix' g' memo' \<and> arena_steps vk verify (cx_params cx) ix ix'"
proof -
  let ?l = "pm_pow_limit (cx_params cx)" and ?V = "cx_pow_verify cx"
  let ?g = "refill_shared (cx_params cx) (cx_mono_ms cx) g"
  note I = run_invD [OF inv]
  have same: "in_source ?g a = in_source g a" for a by (simp add: refill_shared_def Let_def split: prod.splits)
  then have "ingest_in ?l G ?g" using I(6) by (simp add: ingest_in_def)
  moreover obtain g1 r where t: "touch source (cx_params cx) (cx_pow_cost cx) (cx_mono_ms cx) ?g = (g1, r)" by fastforce
  ultimately have T: "ingest_in ?l G g1" "r = Inr () \<Longrightarrow> \<exists>st. in_source g1 source = Some st \<and>
      length (ss_staged st) = staged_count g source \<and> unat (ss_dups st) = source_dups g source"
    using touch_ok [OF _ t] same by (simp_all add: staged_count_def source_dups_def)
  have keep: "run_inv ?l ?V R G ix g' memo" if "ingest_in ?l G g'" for g' using that inv by (simp add: run_inv_def)
  show ?thesis
  proof (cases r)
    case (Inl e)
    then show ?thesis using t keep [OF T(1)] by (auto simp: submit_headers_def)
  next
    case (Inr u)
    then obtain st where st: "in_source g1 source = Some st" "length (ss_staged st) = staged_count g source"
      "unat (ss_dups st) = source_dups g source" using T(2) by auto
    obtain st' where w: "open_window cx st = Some st'" "ss_staged st' = ss_staged st" "unat (ss_dups st') \<le> unat (ss_dups st)"
      using open_window_ok [of cx st] room by (auto simp: submit_room_def)
    obtain tip where tip: "index_tip_height ix = Some tip" using index_tip_height_ok [OF I(3)] by blast
    let ?s = "\<lparr>su_ingest = put_source source st' g1, su_index = ix, su_memo = memo, su_out = accepted_new tip,
             su_batch_dups = 0, su_staged_first = None, su_connected = [], su_observed = []\<rparr>"
    have "\<forall>s \<in> set (ss_staged st'). staged_in ?l G s" using T(1) st(1) w(2) by (simp add: ingest_in_def)
    then have "run_inv ?l ?V R G ix (put_source source st' g1) memo" by (intro keep ingest_in_put [OF T(1)])
    then have "sub_inv cx R G source (length raws) ?s"
      using room st w by (simp add: sub_inv_def submit_room_def accepted_new_def)
    then obtain s1 G1 where s1: "batch_loop cx source raws ?s = Some s1" "sub_inv cx R G1 source 0 s1"
      "arena_steps vk verify (cx_params cx) ix (su_index s1)"
      using batch_loop_ok [OF inj raws, of cx G source ?s vk verify] by auto
    obtain s2 where s2: "su_promote cx source s1 = Some s2" "sub_inv cx R G1 source 0 s2"
      "arena_steps vk verify (cx_params cx) (su_index s1) (su_index s2)"
      using su_promote_ok [OF s1(2), of vk verify] by blast
    have inv2: "run_inv ?l ?V R G1 (su_index s2) (su_ingest s2) (su_memo s2)" using s2(2) by (simp add: sub_inv_def)
    obtain out where "close_batch source s2 = Some out"
      using index_tip_height_ok [OF run_invD(3) [OF inv2]] by (auto simp: close_batch_def Let_def)
    then show ?thesis
      using t Inr st(1) w(1) tip s1 s2 inv2 arena_steps_trans [OF s1(3) s2(3)] by (auto simp: submit_headers_def)
  qed
qed

end
