(* ===== verification/HeaderLife.thy ===== *)
theory HeaderLife imports HeaderRuns begin

text \<open>
  The ingest beside the arena it fills, over the life of a node: a genesis block, then batches of headers of
  any sources, sources forgotten, and every step of the arena that inserts nothing. \<open>R\<close> holds the bytes of
  the headers the node has seen; the theorems assume of the hash no more than that no two of them collide.
\<close>

section \<open>Remembered verdicts\<close>

definition neg_ok :: "NegativeCache \<Rightarrow> bool" where
  "neg_ok c \<longleftrightarrow> 0 < nc_cap c \<and> set (nc_ring c) = nc_set c \<and> distinct (nc_ring c) \<and> length (nc_ring c) \<le> nc_cap c"

lemma neg_insert_ok: "neg_ok c \<Longrightarrow> neg_ok (neg_insert h p c)"
  by (cases "nc_ring c") (auto simp: neg_ok_def neg_insert_def Let_def)

lemma neg_insert_cap [simp]: "nc_cap (neg_insert h p c) = nc_cap c"
  by (simp add: neg_insert_def Let_def split: list.splits)

lemma neg_insert_contains: "neg_contains (neg_insert h p c) x \<Longrightarrow> neg_contains c x \<or> x = h \<and> p = Permanent"
  by (cases "nc_ring c") (auto simp: neg_contains_def neg_insert_def Let_def split: if_splits)

definition neg_of :: "nat \<Rightarrow> (Hash32 \<times> Permanence) list \<Rightarrow> NegativeCache" where
  "neg_of cap vs = fold (\<lambda>(h, p). neg_insert h p) vs (neg_new cap)"

lemma neg_of_ok: "neg_ok (neg_of cap vs) \<and> nc_cap (neg_of cap vs) = max cap 1 \<and>
    (neg_contains (neg_of cap vs) h \<longrightarrow> (h, Permanent) \<in> set vs)"
proof (induction vs rule: rev_induct)
  case Nil
  then show ?case by (simp add: neg_of_def neg_ok_def neg_new_def neg_contains_def)
next
  case (snoc v vs)
  obtain x p where v: "v = (x, p)" by (cases v)
  have "neg_of cap (vs @ [v]) = neg_insert x p (neg_of cap vs)" by (simp add: neg_of_def v)
  then show ?case using snoc neg_insert_ok neg_insert_contains [of x p "neg_of cap vs" h] by (auto simp: v)
qed

text \<open>C19: The cache of bad headers stays bounded and remembers only verdicts that are final: however many
  verdicts are entered, it never holds more than its capacity, every header it answers for was entered as
  permanently invalid, and the last permanent verdict is always among them.\<close>

theorem verdicts_bounded:
  "neg_len (neg_of cap vs) \<le> max cap 1 \<and>
   {h. neg_contains (neg_of cap vs) h} \<subseteq> {h. (h, Permanent) \<in> set vs} \<and>
   neg_contains (neg_of cap (vs @ [(h, Permanent)])) h"
proof (intro conjI)
  show "neg_len (neg_of cap vs) \<le> max cap 1"
    using neg_of_ok [of cap vs h] unfolding neg_len_def neg_ok_def by (metis distinct_card)
  show "{h. neg_contains (neg_of cap vs) h} \<subseteq> {h. (h, Permanent) \<in> set vs}" using neg_of_ok [of cap vs] by blast
  show "neg_contains (neg_of cap (vs @ [(h, Permanent)])) h"
    by (simp add: neg_of_def neg_contains_def neg_insert_def Let_def)
qed

section \<open>The arena keeps the chronicle\<close>

definition node_key :: "Node \<Rightarrow> Hash32 \<times> u32 \<times> u64 \<times> Work" where
  "node_key n = (nd_hash n, nd_prev n, nd_height n, nd_cum_work n)"

lemma arena_in_keys:
  assumes "map node_key (hx_nodes ix') = map node_key (hx_nodes ix)" "arena_in limit V G ix" "nodes_ok (hx_nodes ix)"
  shows "arena_in limit V G ix'"
proof -
  have len: "length (hx_nodes ix') = length (hx_nodes ix)" using assms(1) by (metis length_map)
  have key: "node_key (hx_nodes ix' ! i) = node_key (hx_nodes ix ! i)" if "i < length (hx_nodes ix)" for i
    using that assms(1) len by (metis nth_map)
  have "node_in limit V G (hx_nodes ix') i" if i: "i < length (hx_nodes ix)" for i
  proof -
    have "0 < i \<Longrightarrow> par (hx_nodes ix) i < length (hx_nodes ix)" using nodes_ok_par(2) [OF assms(3) _ i] by simp
    then show ?thesis
      using assms(2) i key [OF i] key [of "par (hx_nodes ix) i"] unfolding arena_in_def node_in_def node_key_def by auto
  qed
  then show ?thesis by (simp add: arena_in_def len)
qed

lemma for_each_keeps:
  "for_each f xs s = Some s' \<Longrightarrow> (\<And>x t t'. f x t = Some t' \<Longrightarrow> k t' = k t) \<Longrightarrow> k s' = k s"
  by (induction xs arbitrary: s) (auto split: option.splits)

lemma keys_update: "node_key m = node_key (ns ! i) \<Longrightarrow> map node_key (ns[i := m]) = map node_key ns"
  by (metis list_update_id map_update)

lemma set_flag_keys: "set_flag b ix i = Some ix' \<Longrightarrow> map node_key (hx_nodes ix') = map node_key (hx_nodes ix)"
proof -
  assume "set_flag b ix i = Some ix'"
  then obtain n where "node ix i = Some n" "ix' = ix\<lparr>hx_nodes := (hx_nodes ix)[unat i := n\<lparr>nd_flags := nd_flags n OR b\<rparr>]\<rparr>"
    by (cases "node ix i") (simp_all add: set_flag_def)
  then show ?thesis using keys_update [of _ "hx_nodes ix" "unat i"] by (auto simp: node_def node_key_def split: if_splits)
qed

lemma poison_step_keys: "poison_step x t = Some t' \<Longrightarrow> map node_key (fst t') = map node_key (fst t)"
  using keys_update [of "(fst t ! x)\<lparr>nd_flags := nd_flags (fst t ! x) OR FLAG_INVALID\<rparr>" "fst t" x]
  by (cases t) (auto simp: poison_step_def Let_def node_key_def split: if_splits)

lemma mark_invalid_keys: "mark_invalid ix i = Some (n, ix') \<Longrightarrow> map node_key (hx_nodes ix') = map node_key (hx_nodes ix)"
proof -
  assume m: "mark_invalid ix i = Some (n, ix')"
  then obtain ix1 where s1: "set_flag FLAG_INVALID ix i = Some ix1"
    by (cases "set_flag FLAG_INVALID ix i") (simp_all add: mark_invalid_def)
  then obtain ns where s2: "for_each poison_step [unat i + 1..<length (hx_nodes ix1)] (hx_nodes ix1, 0) = Some (ns, n)"
    "ix' = ix1\<lparr>hx_nodes := ns\<rparr>"
    using m by (cases "for_each poison_step [unat i + 1..<length (hx_nodes ix1)] (hx_nodes ix1, 0)")
      (auto simp: mark_invalid_def simp del: upt_Suc)
  have "map node_key (fst (ns, n)) = map node_key (fst (hx_nodes ix1, 0 :: u64))"
    by (rule for_each_keeps [OF s2(1) poison_step_keys])
  then show ?thesis using set_flag_keys [OF s1] s2(2) by simp
qed

lemma rebase_step_keys: "rebase_step cs x ns = Some ns' \<Longrightarrow> map node_key ns' = map node_key ns"
  using keys_update [of "(ns ! x)\<lparr>nd_branch_base_height := b\<rparr>" ns x for b]
  by (auto simp: rebase_step_def Let_def node_key_def split: if_splits)

lemma adopt_chain_keys: "adopt_chain ix best = Some ix' \<Longrightarrow> map node_key (hx_nodes ix') = map node_key (hx_nodes ix)"
proof -
  assume a: "adopt_chain ix best = Some ix'"
  then obtain chain where c: "ancestry ix best = Some chain" by (cases "ancestry ix best") (simp_all add: adopt_chain_def)
  then obtain ns where s: "for_each (rebase_step chain) [0..<length (hx_nodes ix)] (hx_nodes ix) = Some ns"
    "ix' = ix\<lparr>hx_canonical := chain, hx_nodes := ns\<rparr>"
    using a by (cases "for_each (rebase_step chain) [0..<length (hx_nodes ix)] (hx_nodes ix)")
      (auto simp: adopt_chain_def set_canonical_def)
  have "map node_key ns = map node_key (hx_nodes ix)" by (rule for_each_keeps [OF s(1) rebase_step_keys])
  then show ?thesis by (simp add: s(2))
qed

text \<open>A step that does not lengthen the arena keeps what the chronicle knows of its nodes.\<close>

lemma core_step_keys:
  assumes "core_step vk verify params c c'" "length (hx_nodes (co_index c')) = length (hx_nodes (co_index c))"
  shows "map node_key (hx_nodes (co_index c')) = map node_key (hx_nodes (co_index c))"
  using assms
proof (induction rule: core_step.induct)
  case (insert ix r parent pn w cum pow i ix' cps)
  then have "length (hx_nodes ix') = length (hx_nodes ix) + 1"
    by (cases "is_canonical ix parent") (auto simp: index_insert_def Let_def)
  then show ?case using insert.prems by simp
next
  case (body ix h i ix' cps)
  then show ?case using set_flag_keys by (auto simp: set_have_body_def)
next
  case (invalidate ix h i n ix' cps)
  then show ?case using mark_invalid_keys by auto
next
  case (adopt ix skip best p cps now v conds ix')
  then show ?case using adopt_chain_keys by auto
qed simp_all

section \<open>The life of an ingest\<close>

record Life =
  lf_core :: Core
  lf_ingest :: Ingest
  lf_memo :: WorkCache

inductive ingest_run ::
  "(bytes \<Rightarrow> 'vk option) \<Rightarrow> ('vk \<Rightarrow> bytes \<Rightarrow> bytes \<Rightarrow> bool) \<Rightarrow> ChainParams \<Rightarrow> (bytes \<Rightarrow> bool) \<Rightarrow> bytes set \<Rightarrow> Life \<Rightarrow> bool"
  for vk verify params V R where
  genesis: "header_decode raw = Inr hh \<Longrightarrow> hd_height hh = 0 \<Longrightarrow> raw \<in> R \<Longrightarrow>
     direct_work (hd_bits hh) (pm_pow_limit params) = Some w \<Longrightarrow>
     insert_genesis index_new \<lparr>hr_height = hd_height hh, hr_hash = header_hash raw, hr_prev_hash = hd_prev_hash hh,
       hr_time = hd_time hh, hr_bits = hd_bits hh, hr_raw = raw\<rparr> w = Some (i, ix) \<Longrightarrow>
     ingest_run vk verify params V R \<lparr>lf_core = \<lparr>co_index = ix, co_checkpoints = checkpoints_new\<rparr>,
       lf_ingest = ingest_new params, lf_memo = cache_new\<rparr>"
| headers: "ingest_run vk verify params V R s \<Longrightarrow> cx_params cx = params \<Longrightarrow> cx_pow_verify cx = V \<Longrightarrow> set raws \<subseteq> R \<Longrightarrow>
     submit_room cx (lf_ingest s) (co_index (lf_core s)) source (length raws) \<Longrightarrow>
     submit_headers (lf_ingest s) (co_index (lf_core s)) (lf_memo s) cx source raws = Some (g, ix, memo, out, conds, r) \<Longrightarrow>
     ingest_run vk verify params V R \<lparr>lf_core = (lf_core s)\<lparr>co_index := ix\<rparr>, lf_ingest = g, lf_memo = memo\<rparr>"
| core: "ingest_run vk verify params V R s \<Longrightarrow> core_step vk verify params (lf_core s) c \<Longrightarrow>
     length (hx_nodes (co_index c)) = length (hx_nodes (co_index (lf_core s))) \<Longrightarrow>
     ingest_run vk verify params V R (s\<lparr>lf_core := c\<rparr>)"
| forget: "ingest_run vk verify params V R s \<Longrightarrow>
     ingest_run vk verify params V R (s\<lparr>lf_ingest := ingest_forget_source source (lf_ingest s)\<rparr>)"

lemma genesis_chronicle:
  assumes "header_decode raw = Inr hh" "hd_height hh = 0" "raw \<in> R" "direct_work (hd_bits hh) (pm_pow_limit params) = Some w"
    and ins: "insert_genesis index_new \<lparr>hr_height = hd_height hh, hr_hash = header_hash raw, hr_prev_hash = hd_prev_hash hh,
       hr_time = hd_time hh, hr_bits = hd_bits hh, hr_raw = raw\<rparr> w = Some (i, ix)"
  shows "core_start params \<lparr>co_index = ix, co_checkpoints = checkpoints_new\<rparr>"
    "run_inv (pm_pow_limit params) V R [header_hash raw \<mapsto> (raw, w, 0)] ix (ingest_new params) cache_new"
proof -
  show start: "core_start params \<lparr>co_index = ix, co_checkpoints = checkpoints_new\<rparr>"
    by (rule core_start.intros [OF _ _ ins]) (simp_all add: assms(2,4))
  have nodes: "\<exists>n. hx_nodes ix = [n] \<and> nd_hash n = header_hash raw \<and> nd_height n = hd_height hh \<and> nd_cum_work n = w"
    using ins by (auto simp: insert_genesis_def index_new_def)
  have "arena_inv ix (pm_pow_limit params)" using core_start_ok [OF start] by (simp add: core_ok_def)
  moreover have "arena_in (pm_pow_limit params) V [header_hash raw \<mapsto> (raw, w, 0)] ix"
    using nodes assms(1) by (auto simp: arena_in_def node_in_def)
  moreover have "chronicle_ok (pm_pow_limit params) R [header_hash raw \<mapsto> (raw, w, 0)]"
    using assms(1-3) by (auto simp: chronicle_ok_def split: if_splits)
  moreover have "ingest_in (pm_pow_limit params) [header_hash raw \<mapsto> (raw, w, 0)] (ingest_new params)"
    by (simp add: ingest_in_def ingest_new_def in_source_def)
  ultimately show "run_inv (pm_pow_limit params) V R [header_hash raw \<mapsto> (raw, w, 0)] ix (ingest_new params) cache_new"
    by (simp add: run_inv_def cache_ok_new)
qed

definition life_ok ::
  "(bytes \<Rightarrow> 'vk option) \<Rightarrow> ('vk \<Rightarrow> bytes \<Rightarrow> bytes \<Rightarrow> bool) \<Rightarrow> ChainParams \<Rightarrow> (bytes \<Rightarrow> bool) \<Rightarrow> bytes set \<Rightarrow> Life \<Rightarrow> bool" where
  "life_ok vk verify params V R s \<longleftrightarrow>
     (\<exists>s0. core_start params s0 \<and> core_steps vk verify params s0 (lf_core s)) \<and>
     (\<exists>G. run_inv (pm_pow_limit params) V R G (co_index (lf_core s)) (lf_ingest s) (lf_memo s))"

lemma arena_stepsD: "arena_steps vk verify params (co_index c) ix \<Longrightarrow> core_steps vk verify params c (c\<lparr>co_index := ix\<rparr>)"
  unfolding arena_steps_def by (cases c) (auto dest: spec [of _ "co_checkpoints c"])

lemma ingest_run_ok:
  assumes "ingest_run vk verify params V R s" "inj_on header_hash R"
  shows "life_ok vk verify params V R s"
  using assms(1)
proof (induction rule: ingest_run.induct)
  case (genesis raw hh w i ix)
  show ?case
    using genesis_chronicle(1) [OF genesis] genesis_chronicle(2) [OF genesis, where V = V] core_steps.refl by (fastforce simp: life_ok_def)
next
  case (headers s cx raws source g ix memo out conds r)
  let ?c = "lf_core s"
  obtain s0 G where i: "core_start params s0" "core_steps vk verify params s0 ?c"
    "run_inv (pm_pow_limit params) V R G (co_index ?c) (lf_ingest s) (lf_memo s)"
    using headers.IH by (auto simp: life_ok_def)
  have "\<exists>G'. run_inv (pm_pow_limit params) V R G' ix g memo \<and> arena_steps vk verify params (co_index ?c) ix"
    using submit_headers_ok [of cx R G "co_index ?c" "lf_ingest s" "lf_memo s" raws source vk verify] i(3) assms(2) headers.hyps
    by auto
  then show ?case
    using i(1,2) arena_stepsD core_steps_trans by (fastforce simp: life_ok_def)
next
  case (core s c)
  obtain s0 G where i: "core_start params s0" "core_steps vk verify params s0 (lf_core s)"
    "run_inv (pm_pow_limit params) V R G (co_index (lf_core s)) (lf_ingest s) (lf_memo s)"
    using core.IH by (auto simp: life_ok_def)
  note I = run_invD [OF i(3)]
  have steps: "core_steps vk verify params s0 c" using i(2) core.hyps(2) by (rule core_steps.step)
  have "arena_inv (co_index c) (pm_pow_limit params)"
    using core_steps_ok [OF steps core_start_ok [OF i(1)]] by (simp add: core_ok_def)
  moreover have "arena_in (pm_pow_limit params) V G (co_index c)"
    by (rule arena_in_keys [OF core_step_keys [OF core.hyps(2,3)] I(2) index_okD(1) [OF I(4)]])
  ultimately show ?case using i(1) steps I by (auto simp: life_ok_def run_inv_def)
next
  case (forget s source)
  have "ingest_in (pm_pow_limit params) G (ingest_forget_source source (lf_ingest s))"
    if "ingest_in (pm_pow_limit params) G (lf_ingest s)" for G
    using that by (auto simp: ingest_in_def ingest_forget_source_def in_source_def delete_conv' split: if_splits)
  then show ?case using forget.IH by (auto simp: life_ok_def run_inv_def)
qed

section \<open>What holds of every life\<close>

definition sample_genesis :: Header where
  "sample_genesis = \<lparr>hd_version = 1, hd_height = 0, hd_prev_hash = replicate 32 0, hd_tx_root = replicate 32 0,
     hd_ext_root = replicate 32 0, hd_time = 0, hd_bits = 0x1f00ffff, hd_author_note_len = 0, hd_nonce = 0\<rparr>"

definition genesis_raw :: bytes where "genesis_raw = header_encode sample_genesis"

definition sample_ctx :: IngestCtx where
  "sample_ctx = \<lparr>cx_store_invalid = \<lambda>_. False, cx_pow_verify = \<lambda>_. True, cx_pow_cost = 1000, cx_checkpoints = [], cx_anchor = None,
     cx_params = default_params, cx_now = 0, cx_mono_ms = 0,
     cx_tip = \<lparr>tip_height = 0, tip_hash = header_hash genesis_raw, tip_time = 0, tip_chainwork = work_ONE\<rparr>,
     cx_genesis_time = 0, cx_solicitation = Unsolicited, cx_tip_epoch = 0, cx_side_capacity = 100\<rparr>"

lemma sample_inj: "inj_on header_hash {genesis_raw}"
  by simp

lemma sample_life:
  obtains s where "ingest_run (\<lambda>_. Some ()) (\<lambda>_ _ _. True) default_params (\<lambda>_. True) {genesis_raw} s"
    "length (hx_nodes (co_index (lf_core s))) = 1" "nd_hash (hx_nodes (co_index (lf_core s)) ! 0) = header_hash genesis_raw"
    "lf_ingest s = ingest_new default_params"
proof -
  have "header_ok sample_genesis" by (simp add: header_ok_def sample_genesis_def HASH_BYTES_def)
  then have d: "header_decode genesis_raw = Inr sample_genesis" using header_canonical by (simp add: genesis_raw_def)
  obtain w where "direct_work 0x1f00ffff (pm_pow_limit sample_params) = Some w" using sample_work by blast
  then have w: "direct_work (hd_bits sample_genesis) (pm_pow_limit default_params) = Some w"
    by (simp add: sample_genesis_def sample_params_def)
  let ?r = "\<lparr>hr_height = hd_height sample_genesis, hr_hash = header_hash genesis_raw, hr_prev_hash = hd_prev_hash sample_genesis,
    hr_time = hd_time sample_genesis, hr_bits = hd_bits sample_genesis, hr_raw = genesis_raw\<rparr>"
  have z: "hd_height sample_genesis = 0" by (simp add: sample_genesis_def)
  then have "hr_height ?r = 0" by simp
  then obtain ix where g: "insert_genesis index_new ?r w = Some (0, ix)" "length (hx_nodes ix) = 1" "nd_hash (hx_nodes ix ! 0) = hr_hash ?r"
    by (rule genesis_index_ok [of ?r w])
  show thesis
    by (rule that [OF ingest_run.genesis [OF d z _ w g(1)]]) (simp_all add: g(2,3))
qed

text \<open>C1: A batch of headers is always answered. In every life of the node, for every batch of byte strings from
  any source (malformed, duplicated, out of order, with bad work or none), the whole handler returns: no
  arithmetic overflows, no index is out of range and no walk over ancestors runs forever. What is assumed is
  that no two headers seen collide, and that there is room: the arena indices are 32 bits wide, and so are
  the counters of one batch.\<close>

theorem headers_always_answered:
  assumes "ingest_run vk verify params V R s" "inj_on header_hash R" "cx_params cx = params" "cx_pow_verify cx = V"
    and "set raws \<subseteq> R" "submit_room cx (lf_ingest s) (co_index (lf_core s)) source (length raws)"
  shows "submit_headers (lf_ingest s) (co_index (lf_core s)) (lf_memo s) cx source raws \<noteq> None"
proof -
  obtain G where "run_inv (pm_pow_limit params) V R G (co_index (lf_core s)) (lf_ingest s) (lf_memo s)"
    using ingest_run_ok [OF assms(1,2)] by (auto simp: life_ok_def)
  then show ?thesis
    using submit_headers_ok [of cx R G "co_index (lf_core s)" "lf_ingest s" "lf_memo s" raws source vk verify] assms by auto
qed

theorem headers_always_answered_witness:
  "\<exists>s :: Life. submit_headers (lf_ingest s) (co_index (lf_core s)) (lf_memo s) sample_ctx 7 [genesis_raw, genesis_raw] \<noteq> None"
proof -
  obtain s where s: "ingest_run (\<lambda>_. Some ()) (\<lambda>_ _ _. True) default_params (\<lambda>_. True) {genesis_raw} s"
    "length (hx_nodes (co_index (lf_core s))) = 1" "lf_ingest s = ingest_new default_params"
    by (rule sample_life)
  have room: "submit_room sample_ctx (lf_ingest s) (co_index (lf_core s)) 7 (length [genesis_raw, genesis_raw])"
    using s(2,3) by (simp add: submit_room_def staged_count_def source_dups_def in_source_def ingest_new_def sample_ctx_def default_params_def)
  have cx: "cx_params sample_ctx = default_params" "cx_pow_verify sample_ctx = (\<lambda>_. True)" by (simp_all add: sample_ctx_def)
  have "submit_headers (lf_ingest s) (co_index (lf_core s)) (lf_memo s) sample_ctx 7 [genesis_raw, genesis_raw] \<noteq> None"
    by (rule headers_always_answered [OF s(1) sample_inj cx _ room]) simp
  then show ?thesis by blast
qed





end
