(* ===== verification/Crc32c.thy ===== *)
theory Crc32c imports Prelude begin

unbundle bit_operations_syntax

text \<open>
  \<open>lib/storage/src/crc32c.rs\<close>: the checksum of a body frame, with the eight tables that let the loop take
  eight bytes at a time, the shift register it stands for, and what the checksum detects.
\<close>

section \<open>The tables and the loop\<close>

definition POLY :: u32 where "POLY = 0x82F63B78"

definition crc_bit :: "u32 \<Rightarrow> u32" where
  "crc_bit crc = (if crc AND 1 \<noteq> 0 then drop_bit 1 crc XOR POLY else drop_bit 1 crc)"

definition first_row :: "u32 list" where
  "first_row = map (\<lambda>i. (crc_bit ^^ 8) (word_of_nat i)) [0..<256]"

definition next_row :: "u32 list \<Rightarrow> u32 list \<Rightarrow> u32 list" where
  "next_row row0 row = map (\<lambda>prev. drop_bit 8 prev XOR row0 ! unat (prev AND 0xFF)) row"

definition crc_build :: "u32 list list" where
  "crc_build = fold (\<lambda>_ t. t @ [next_row (t ! 0) (last t)]) [1..<8] [first_row]"

definition TABLE :: "u32 list list" where "TABLE = crc_build"

definition crc_chunk :: "u32 \<Rightarrow> bytes \<Rightarrow> u32" where
  "crc_chunk crc c =
     (let lo = from_le (take 4 c) XOR crc; hi = (from_le (drop 4 c) :: u32) in
      TABLE ! 7 ! unat (lo AND 0xFF) XOR TABLE ! 6 ! unat (drop_bit 8 lo AND 0xFF) XOR
      TABLE ! 5 ! unat (drop_bit 16 lo AND 0xFF) XOR TABLE ! 4 ! unat (drop_bit 24 lo AND 0xFF) XOR
      TABLE ! 3 ! unat (hi AND 0xFF) XOR TABLE ! 2 ! unat (drop_bit 8 hi AND 0xFF) XOR
      TABLE ! 1 ! unat (drop_bit 16 hi AND 0xFF) XOR TABLE ! 0 ! unat (drop_bit 24 hi AND 0xFF))"

definition crc_byte :: "u8 \<Rightarrow> u32 \<Rightarrow> u32" where
  "crc_byte b crc = drop_bit 8 crc XOR TABLE ! 0 ! unat ((crc XOR ucast b) AND 0xFF)"

fun crc_loop :: "u32 \<Rightarrow> bytes \<Rightarrow> u32" where
  "crc_loop crc data =
     (if 8 \<le> length data then crc_loop (crc_chunk crc (take 8 data)) (drop 8 data) else fold crc_byte data crc)"

declare crc_loop.simps [simp del]

definition crc32c :: "bytes \<Rightarrow> u32" where
  "crc32c data = NOT (crc_loop (NOT 0) data)"

section \<open>The shift register\<close>

definition crc_ref :: "bytes \<Rightarrow> u32" where
  "crc_ref data = NOT (fold (\<lambda>b crc. (crc_bit ^^ 8) (crc XOR ucast b)) data (NOT 0))"

lemma xor_cancel: "a XOR b = 0 \<Longrightarrow> a = (b :: 'a::len word)"
  "a XOR x = b XOR x \<Longrightarrow> a = b" "x XOR a = x XOR b \<Longrightarrow> a = b"
  by (metis xor.assoc xor.left_neutral xor.right_neutral xor_self_eq)
    (metis xor.assoc xor.left_neutral xor.right_neutral xor_self_eq)+

lemma crc_bit_alt: "crc_bit c = drop_bit 1 c XOR (if bit c 0 then POLY else 0)"
  by (simp add: crc_bit_def and_one_eq odd_iff_mod_2_eq_one bit_0)

lemma crc_bit_xor: "crc_bit (a XOR b) = crc_bit a XOR crc_bit b"
  by (rule bit_eqI) (auto simp: crc_bit_alt bit_xor_iff bit_drop_bit_eq)

lemma crc_bits_xor: "(crc_bit ^^ n) (a XOR b) = (crc_bit ^^ n) a XOR (crc_bit ^^ n) b"
  by (induction n) (simp_all add: crc_bit_xor)

lemma crc_bits_zero [simp]: "(crc_bit ^^ n) 0 = 0"
  by (induction n) (simp_all add: crc_bit_def)

lemma crc_bit_push:
  assumes "m = 1" "\<not> bit x 31"
  shows "crc_bit (push_bit m x) = x"
proof -
  have "bit (drop_bit m (push_bit m x)) k \<longleftrightarrow> m + k < 32 \<and> bit x k" for k
    by (auto simp: bit_drop_bit_eq bit_push_bit_iff)
  moreover have "m + k < 32 \<and> bit x k \<longleftrightarrow> bit x k" if "k < 32" for k
    using that assms by (cases "k = 31") auto
  ultimately have "drop_bit m (push_bit m x) = x" by (intro bit_word_eqI) simp
  moreover have "bit (push_bit m x) 0 \<longleftrightarrow> m = 0 \<and> bit x 0" by (auto simp: bit_push_bit_iff)
  then have "\<not> bit (push_bit m x) 0" using assms(1) by (simp only: one_neq_zero simp_thms)
  ultimately show ?thesis using assms(1) by (simp only: crc_bit_alt if_False xor.right_neutral)
qed

lemma crc_bits_push: "(\<forall>k < 32. 32 - n \<le> k \<longrightarrow> \<not> bit x k) \<Longrightarrow> n \<le> 32 \<Longrightarrow> (crc_bit ^^ n) (push_bit n (x :: u32)) = x"
proof (induction n)
  case (Suc n)
  have e: "push_bit (Suc n) x = push_bit 1 (push_bit n x)" by (simp add: push_bit_push_bit)
  have "\<not> bit (push_bit n x) 31" using Suc.prems by (simp add: bit_push_bit_iff)
  then have "crc_bit (push_bit (Suc n) x) = push_bit n x" unfolding e by (rule crc_bit_push [OF HOL.refl])
  moreover have "(crc_bit ^^ n) (push_bit n x) = x" using Suc.prems by (intro Suc.IH) auto
  ultimately show ?case by (simp only: funpow_Suc_right comp_apply)
qed simp

lemma low_mask: "(0xFF :: u32) = mask 8"
  by (simp add: mask_eq_exp_minus_1)

lemma low_byte_split: "(x :: u32) = (x AND 0xFF) XOR push_bit 8 (drop_bit 8 x)"
  unfolding low_mask
  by (rule bit_word_eqI) (auto simp: bit_and_iff bit_xor_iff bit_push_bit_iff bit_drop_bit_eq bit_mask_iff)

lemma crc_byte_shift: "(crc_bit ^^ (8 + n)) x = (crc_bit ^^ (8 + n)) (x AND 0xFF) XOR (crc_bit ^^ n) (drop_bit 8 x)"
proof -
  have "(crc_bit ^^ 8) (push_bit 8 (drop_bit 8 x)) = drop_bit 8 x"
    by (rule crc_bits_push) (simp_all add: bit_drop_bit_eq bit_word_iff_drop_bit_and)
  then have "(crc_bit ^^ 8) x = (crc_bit ^^ 8) (x AND 0xFF) XOR drop_bit 8 x"
    using crc_bits_xor [of 8 "x AND 0xFF" "push_bit 8 (drop_bit 8 x)"] low_byte_split [of x] by simp
  then show ?thesis by (simp only: add.commute [of 8] funpow_add comp_apply crc_bits_xor)
qed

section \<open>What the tables hold\<close>

lemma byte_index: "unat ((x :: u32) AND 0xFF) < 256"
proof -
  have "x AND 0xFF \<le> 0xFF" by (rule word_and_le1)
  then show ?thesis by (simp add: word_le_nat_alt)
qed

lemma first_row_nth: "i < 256 \<Longrightarrow> first_row ! i = (crc_bit ^^ 8) (word_of_nat i)"
  by (simp add: first_row_def)

definition row_ok :: "nat \<Rightarrow> u32 list \<Rightarrow> bool" where
  "row_ok s row \<longleftrightarrow> length row = 256 \<and> (\<forall>i < 256. row ! i = (crc_bit ^^ (8 * Suc s)) (word_of_nat i))"

lemma next_row_ok:
  assumes "row_ok s row"
  shows "row_ok (Suc s) (next_row first_row row)"
proof -
  have "next_row first_row row ! i = (crc_bit ^^ (8 + 8 * Suc s)) (word_of_nat i)" if i: "i < 256" for i
  proof -
    let ?p = "row ! i"
    have "next_row first_row row ! i = (crc_bit ^^ 8) ?p"
      using assms i byte_index [of ?p] crc_byte_shift [of 0 ?p] by (simp add: next_row_def row_ok_def first_row_nth xor.commute)
    then show ?thesis using assms i by (simp only: row_ok_def funpow_add comp_apply)
  qed
  then show ?thesis using assms by (simp add: row_ok_def next_row_def)
qed

definition rows :: "nat \<Rightarrow> u32 list list" where
  "rows k = fold (\<lambda>_ t. t @ [next_row (t ! 0) (last t)]) [1..<Suc k] [first_row]"

lemma rows_simps: "rows 0 = [first_row]" "rows (Suc k) = rows k @ [next_row (rows k ! 0) (last (rows k))]"
  by (simp_all add: rows_def)

lemma rows_ok: "length (rows k) = Suc k \<and> (\<forall>s \<le> k. row_ok s (rows k ! s)) \<and> rows k ! 0 = first_row"
proof (induction k)
  case 0
  then show ?case by (simp add: rows_simps row_ok_def first_row_def)
next
  case (Suc k)
  then have "last (rows k) = rows k ! k" using last_conv_nth [of "rows k"] by (metis diff_Suc_1 length_0_conv nat.distinct(1))
  then have "row_ok (Suc k) (next_row first_row (last (rows k)))" using Suc next_row_ok by simp
  then show ?case using Suc by (auto simp: rows_simps nth_append le_Suc_eq)
qed

lemma TABLE_nth: "s \<le> 7 \<Longrightarrow> TABLE ! s ! unat (x AND 0xFF :: u32) = (crc_bit ^^ (8 * Suc s)) (x AND 0xFF)"
proof -
  assume s: "s \<le> 7"
  have "TABLE = rows 7" by (simp add: TABLE_def crc_build_def rows_def)
  then have "row_ok s (TABLE ! s)" using rows_ok [of 7] s by simp
  then show ?thesis using byte_index [of x] by (simp add: row_ok_def)
qed

section \<open>The loop is the shift register\<close>

abbreviation crc_step :: "u8 \<Rightarrow> u32 \<Rightarrow> u32" where
  "crc_step b crc \<equiv> (crc_bit ^^ 8) (crc XOR ucast b)"

lemma drop_byte [simp]: "drop_bit 8 (ucast (b :: u8) :: u32) = 0"
  by (rule bit_word_eqI) (auto simp: bit_drop_bit_eq bit_ucast_iff dest: bit_imp_le_length)

lemma crc_byte_step: "crc_byte b crc = crc_step b crc"
  using crc_byte_shift [of 0 "crc XOR ucast b"] TABLE_nth [of 0 "crc XOR ucast b"]
  by (simp add: crc_byte_def xor.commute)

lemma four_tables:
  "(crc_bit ^^ (32 + n)) x = (crc_bit ^^ (32 + n)) (x AND 0xFF) XOR (crc_bit ^^ (24 + n)) (drop_bit 8 x AND 0xFF) XOR
     (crc_bit ^^ (16 + n)) (drop_bit 16 x AND 0xFF) XOR (crc_bit ^^ (8 + n)) (drop_bit 24 x AND 0xFF)"
proof -
  have z: "drop_bit 32 x = 0" by (rule bit_word_eqI) (auto simp: bit_drop_bit_eq dest: bit_imp_le_length)
  show ?thesis
    using crc_byte_shift [of "24 + n" x] crc_byte_shift [of "16 + n" "drop_bit 8 x"] crc_byte_shift [of "8 + n" "drop_bit 16 x"]
      crc_byte_shift [of n "drop_bit 24 x"] z by (simp add: xor.assoc)
qed

lemma from_le_Cons_xor: "from_le (b # bs) = (ucast b :: u32) XOR push_bit 8 (from_le bs)"
  by (rule bit_word_eqI) (auto simp: bit_or_iff bit_xor_iff bit_push_bit_iff bit_ucast_iff dest: bit_imp_le_length)

lemma crc_few: "length bs \<le> 4 \<Longrightarrow> fold crc_step bs crc = (crc_bit ^^ (8 * length bs)) (crc XOR from_le bs)"
proof (induction bs arbitrary: crc)
  case (Cons b bs)
  have "\<not> bit (from_le bs :: u32) k" if "24 \<le> k" for k
  proof -
    have "length bs \<le> k div 8" using that Cons.prems by simp
    then show ?thesis by (simp add: bit_from_le)
  qed
  then have p: "(crc_bit ^^ 8) (push_bit 8 (from_le bs)) = (from_le bs :: u32)" by (intro crc_bits_push) simp_all
  have "(crc_bit ^^ (8 * length (b # bs))) (crc XOR from_le (b # bs)) =
      (crc_bit ^^ (8 * length bs)) ((crc_bit ^^ 8) (crc XOR ucast b XOR push_bit 8 (from_le bs)))"
    by (simp only: from_le_Cons_xor length_Cons mult_Suc_right add.commute [of 8] funpow_add comp_apply xor.assoc)
  also have "\<dots> = (crc_bit ^^ (8 * length bs)) (crc_step b crc XOR from_le bs)" by (simp only: crc_bits_xor p xor.assoc)
  finally show ?case using Cons by simp
qed simp

lemma crc_chunk_steps:
  assumes "length c = 8"
  shows "crc_chunk crc c = fold crc_step c crc"
proof -
  let ?a = "take 4 c" and ?b = "drop 4 c"
  have len: "length ?a = 4" "length ?b = 4" using assms by simp_all
  have "fold crc_step c crc = fold crc_step ?b (fold crc_step ?a crc)" by (metis append_take_drop_id fold_append comp_apply)
  also have "\<dots> = (crc_bit ^^ 32) ((crc_bit ^^ 32) (crc XOR from_le ?a) XOR from_le ?b)" using crc_few len by simp
  also have "\<dots> = (crc_bit ^^ (32 + 32)) (from_le ?a XOR crc) XOR (crc_bit ^^ (32 + 0)) (from_le ?b)"
    by (simp only: crc_bits_xor funpow_add comp_apply xor.commute [of crc] add_0_right)
  also have "\<dots> = crc_chunk crc c"
    by (subst four_tables [of 32 "from_le ?a XOR crc"], subst four_tables [of 0 "from_le ?b"])
      (simp add: crc_chunk_def Let_def TABLE_nth xor.assoc)
  finally show ?thesis by simp
qed

lemma crc_loop_steps: "crc_loop crc data = fold crc_step data crc"
proof (induction crc data rule: crc_loop.induct)
  case (1 crc data)
  have f: "fold crc_byte xs c = fold crc_step xs c" for xs c by (induction xs arbitrary: c) (simp_all add: crc_byte_step)
  show ?case
  proof (cases "8 \<le> length data")
    case True
    then have "crc_loop crc data = fold crc_step (drop 8 data) (fold crc_step (take 8 data) crc)"
      using 1 crc_chunk_steps [of "take 8 data" crc] by (simp add: crc_loop.simps [of crc data])
    then show ?thesis by (metis append_take_drop_id fold_append comp_apply)
  next
    case False
    then show ?thesis by (simp add: crc_loop.simps [of crc data] f)
  qed
qed

text \<open>The checksum is CRC-32C: with its eight tables and eight bytes at a time the function returns, for
  every input, what the shift register of the Castagnoli polynomial returns one bit at a time.\<close>

theorem crc32c_bitwise: "crc32c data = crc_ref data"
  by (simp add: crc32c_def crc_ref_def crc_loop_steps)

section \<open>What it detects\<close>

lemma crc_bit_0: "crc_bit c = 0 \<Longrightarrow> c = 0"
proof -
  assume z: "crc_bit c = 0"
  have top: "bit (crc_bit c) 31 \<longleftrightarrow> bit c 0"
  proof -
    have "\<not> bit c 32" using bit_imp_le_length by fastforce
    moreover have "bit POLY 31" by (simp add: POLY_def)
    ultimately show ?thesis by (simp add: crc_bit_alt bit_xor_iff bit_drop_bit_eq)
  qed
  then have "\<not> bit c 0" using z by simp
  then have d: "drop_bit 1 c = 0" "\<not> bit c 0" using z by (simp_all add: crc_bit_alt)
  have "\<not> bit c k" for k using d(2) arg_cong [OF d(1), of "\<lambda>x. bit x (k - 1)"] by (cases k) (simp_all add: bit_drop_bit_eq)
  then show "c = 0" by (intro bit_word_eqI) simp
qed

lemma crc_bits_inj: "(crc_bit ^^ n) a = (crc_bit ^^ n) b \<Longrightarrow> a = b"
proof (induction n)
  case (Suc n)
  have "crc_bit ((crc_bit ^^ n) a XOR (crc_bit ^^ n) b) = 0" using Suc.prems by (simp add: crc_bit_xor)
  then have "(crc_bit ^^ n) a XOR (crc_bit ^^ n) b = 0" by (rule crc_bit_0)
  then have "(crc_bit ^^ n) a = (crc_bit ^^ n) b" by (rule xor_cancel)
  then show ?case by (rule Suc.IH)
qed simp

lemma crc_steps_inj: "fold crc_step bs a = fold crc_step bs b \<Longrightarrow> a = b"
proof (induction bs arbitrary: a b)
  case (Cons x bs)
  then have "crc_step x a = crc_step x b" by simp
  then have "a XOR ucast x = b XOR ucast x" by (rule crc_bits_inj)
  then show ?case by (rule xor_cancel)
qed simp

text \<open>C25: A burst of errors is always detected: when four consecutive bytes of a body (any 25 consecutive bits
  among them) change in any way, wherever they stand, the checksum changes.\<close>

theorem crc_burst_detected:
  assumes "length damaged = length burst" "length burst \<le> 4" "damaged \<noteq> burst"
  shows "crc32c (before @ damaged @ after) \<noteq> crc32c (before @ burst @ after)"
proof
  assume "crc32c (before @ damaged @ after) = crc32c (before @ burst @ after)"
  then have "fold crc_step after (fold crc_step damaged (fold crc_step before (NOT 0))) =
      fold crc_step after (fold crc_step burst (fold crc_step before (NOT 0)))"
    by (simp add: crc32c_def crc_loop_steps)
  then have "fold crc_step damaged (fold crc_step before (NOT 0)) = fold crc_step burst (fold crc_step before (NOT 0))"
    by (rule crc_steps_inj)
  then have "fold crc_step before (NOT 0) XOR from_le damaged = fold crc_step before (NOT 0) XOR from_le burst"
    using assms(1,2) crc_few [of damaged] crc_few [of burst] by (auto dest: crc_bits_inj)
  then have "(from_le damaged :: u32) = from_le burst" by (rule xor_cancel)
  then have "to_le (length burst) (from_le damaged :: u32) = to_le (length burst) (from_le burst :: u32)" by simp
  then show False using assms to_le_from_le [where ?'a = 32] by simp
qed

theorem crc_burst_detected_witness: "crc32c ([1, 2] @ [3, 0] @ [5]) \<noteq> crc32c ([1, 2] @ [3, 4] @ [5])"
  by (rule crc_burst_detected) simp_all

end
