(* ===== verification/StoreCodec.thy ===== *)
theory StoreCodec imports Crc32c Blake3 Constants "HOL-Library.Monad_Syntax" begin

unbundle bit_operations_syntax

text \<open>
  The formats of \<open>lib/storage\<close>: where a height lives (\<open>layout.rs\<close>), the rows of the tables and the frames of
  the body segments (\<open>codec.rs\<close>, \<open>types.rs\<close>), the append and the scan of a body segment (\<open>committer.rs\<close>,
  \<open>segment.rs\<close>). A file is its bytes, and a positional read returns what the file holds there.
\<close>

section \<open>Layout\<close>

definition SEG_SHIFT :: nat where "SEG_SHIFT = 12"

definition SEG_BLOCKS :: u64 where "SEG_BLOCKS = push_bit SEG_SHIFT 1"

definition SEG_MASK :: u64 where "SEG_MASK = SEG_BLOCKS - 1"

definition HDR_SEG_BYTES :: u64 where "HDR_SEG_BYTES = word_of_nat HEADER_BYTES * SEG_BLOCKS"

definition BIDX_ENTRY_BYTES :: u64 where "BIDX_ENTRY_BYTES = 8"

definition BIDX_SEG_BYTES :: u64 where "BIDX_SEG_BYTES = BIDX_ENTRY_BYTES * SEG_BLOCKS"

definition seg_of :: "u64 \<Rightarrow> u32" where "seg_of h = ucast (drop_bit SEG_SHIFT h)"

definition slot_of :: "u64 \<Rightarrow> u64" where "slot_of h = h AND SEG_MASK"

definition hdr_offset :: "u64 \<Rightarrow> u64" where "hdr_offset h = slot_of h * word_of_nat HEADER_BYTES"

definition bidx_offset :: "u64 \<Rightarrow> u64" where "bidx_offset h = slot_of h * BIDX_ENTRY_BYTES"

definition seg_first_height :: "u32 \<Rightarrow> u64" where "seg_first_height s = push_bit SEG_SHIFT (ucast s)"

definition BODY_FRAME_BYTES :: nat where "BODY_FRAME_BYTES = 8"

definition MAX_BODY_BYTES :: nat where "MAX_BODY_BYTES = MAX_BLOCK_BYTES - HEADER_BYTES"

definition UNDO_RING :: u64 where "UNDO_RING = 256"

definition CHAINWORK_CKPT_SHIFT :: nat where "CHAINWORK_CKPT_SHIFT = 10"

definition store_static_asserts :: bool where
  "store_static_asserts \<longleftrightarrow> unat SEG_BLOCKS * (BODY_FRAME_BYTES + MAX_BODY_BYTES) \<le> 2 ^ 32 - 1 \<and>
     MAX_REORG_DEPTH < UNDO_RING \<and> HEADER_BYTES = 132"

section \<open>Rows\<close>

record StoredAccount =
  sa_balance :: u128
  sa_nonce :: u64

definition row_absent :: "StoredAccount \<Rightarrow> bool" where
  "row_absent a \<longleftrightarrow> sa_balance a = 0 \<and> sa_nonce a = 0"

definition STATE_VALUE_BYTES :: nat where "STATE_VALUE_BYTES = 24"

definition encode_account :: "StoredAccount \<Rightarrow> bytes" where
  "encode_account a = to_le 16 (sa_balance a) @ to_le 8 (sa_nonce a)"

definition decode_account :: "bytes \<Rightarrow> StoredAccount" where
  "decode_account v = \<lparr>sa_balance = from_le (take 16 v), sa_nonce = from_le (take 8 (drop 16 v))\<rparr>"

record StoredUndo =
  ur_addr :: bytes
  ur_prev_balance :: u128
  ur_prev_nonce :: u64
  ur_existed :: bool

record StoredDelta =
  sd_addr :: bytes
  sd_balance :: u128
  sd_nonce :: u64

definition UNDO_REC_BYTES :: nat where "UNDO_REC_BYTES = 45"

definition MAX_UNDO_RECS :: nat where "MAX_UNDO_RECS = 2 * MAX_TXS_PER_BLOCK + 1"

definition UNDO_HDR_BYTES :: nat where "UNDO_HDR_BYTES = 20"

definition MAX_UNDO_BLOB_BYTES :: nat where "MAX_UNDO_BLOB_BYTES = UNDO_HDR_BYTES + MAX_UNDO_RECS * UNDO_REC_BYTES"

definition encode_undo_rec :: "StoredUndo \<Rightarrow> bytes" where
  "encode_undo_rec r = ur_addr r @ to_le 16 (ur_prev_balance r) @ to_le 8 (ur_prev_nonce r) @ [if ur_existed r then 0 else 1]"

definition encode_undo :: "StoredUndo list \<Rightarrow> u128 \<Rightarrow> bytes" where
  "encode_undo recs issued_delta =
     to_le 4 (word_of_nat (length recs) :: u32) @ to_le 16 issued_delta @ concat (map encode_undo_rec recs)"

definition decode_undo_rec :: "bytes \<Rightarrow> StoredUndo" where
  "decode_undo_rec b = \<lparr>ur_addr = take 20 b, ur_prev_balance = from_le (take 16 (drop 20 b)),
     ur_prev_nonce = from_le (take 8 (drop 36 b)), ur_existed = (b ! 44 AND 1 = 0)\<rparr>"

definition decode_undo :: "bytes \<Rightarrow> (StoredUndo list \<times> u128) option" where
  "decode_undo blob =
     (if length blob < UNDO_HDR_BYTES then None
      else let count = unat (from_le (take 4 blob) :: u32) in
        if MAX_UNDO_RECS < count \<or> length blob \<noteq> UNDO_HDR_BYTES + count * UNDO_REC_BYTES then None
        else Some (map (\<lambda>i. decode_undo_rec (take UNDO_REC_BYTES (drop (UNDO_HDR_BYTES + i * UNDO_REC_BYTES) blob))) [0..<count],
                   from_le (take 16 (drop 4 blob))))"

datatype HeaderStatus = ValidHeader | PowOk | BodyOk | StConnected

fun status_code :: "HeaderStatus \<Rightarrow> u8" where
  "status_code ValidHeader = 1"
| "status_code PowOk = 2"
| "status_code BodyOk = 3"
| "status_code StConnected = 4"

definition status_from_code :: "u8 \<Rightarrow> HeaderStatus option" where
  "status_from_code c = (if c = 1 then Some ValidHeader else if c = 2 then Some PowOk else if c = 3 then Some BodyOk
     else if c = 4 then Some StConnected else None)"

record SideHeader =
  sh_header :: bytes
  sh_height :: u64
  sh_status :: HeaderStatus

definition SIDE_VALUE_BYTES :: nat where "SIDE_VALUE_BYTES = HEADER_BYTES + 9"

definition encode_side :: "bytes \<Rightarrow> u64 \<Rightarrow> HeaderStatus \<Rightarrow> bytes" where
  "encode_side h height st = h @ to_le 8 height @ [status_code st]"

definition decode_side :: "bytes \<Rightarrow> SideHeader option" where
  "decode_side v = do {
     st \<leftarrow> status_from_code (v ! (HEADER_BYTES + 8));
     Some \<lparr>sh_header = take HEADER_BYTES v, sh_height = from_le (take 8 (drop HEADER_BYTES v)), sh_status = st\<rparr>
   }"

definition side_by_height_key :: "u64 \<Rightarrow> bytes \<Rightarrow> bytes" where
  "side_by_height_key height hash = to_be 8 height @ hash"

definition hash_prefix_n :: "bytes \<Rightarrow> u32 \<Rightarrow> u64" where
  "hash_prefix_n h n = fold (\<lambda>b v. push_bit 8 v OR ucast b) (take (unat (max 1 (min n 8))) h) 0"

definition txid_key :: "bytes \<Rightarrow> bytes" where "txid_key txid = take 16 txid"

definition encode_txloc :: "u64 \<Rightarrow> u16 \<Rightarrow> bytes" where
  "encode_txloc height index = to_le 8 height @ to_le 2 index"

definition decode_txloc :: "bytes \<Rightarrow> u64 \<times> u16" where
  "decode_txloc v = (from_le (take 8 v), from_le (drop 8 v))"

definition encode_frame_header :: "u32 \<Rightarrow> u32 \<Rightarrow> bytes" where
  "encode_frame_header len crc = to_le 4 len @ to_le 4 crc"

definition decode_frame_header :: "bytes \<Rightarrow> u32 \<times> u32" where
  "decode_frame_header v = (from_le (take 4 v), from_le (take 4 (drop 4 v)))"

definition encode_bidx :: "u32 \<Rightarrow> u32 \<Rightarrow> bytes" where
  "encode_bidx offset len = to_le 4 offset @ to_le 4 len"

definition decode_bidx :: "bytes \<Rightarrow> u32 \<times> u32" where
  "decode_bidx v = (from_le (take 4 v), from_le (take 4 (drop 4 v)))"

definition row_digest :: "bytes \<Rightarrow> StoredAccount \<Rightarrow> bytes" where
  "row_digest addr a = blake3_hash (addr @ encode_account a)"

definition fp_xor :: "bytes \<Rightarrow> bytes \<Rightarrow> bytes" where
  "fp_xor fp d = map (\<lambda>i. fp ! i XOR d ! i) [0..<32]"

section \<open>Body segments\<close>

definition pread :: "bytes \<Rightarrow> nat \<Rightarrow> nat \<Rightarrow> bytes" where
  "pread f off n = take n (drop off f)"

definition pwrite_all :: "bytes \<Rightarrow> nat \<Rightarrow> bytes \<Rightarrow> bytes" where
  "pwrite_all f off buf = take off f @ replicate (off - length f) 0 @ buf @ drop (off + length buf) f"

text \<open>The frame that \<open>write_body\<close> writes at the append offset, and the new offset; \<open>None\<close> is the refusal
  of a segment that would outgrow its 32-bit offsets.\<close>

definition write_frame :: "bytes \<Rightarrow> u32 \<Rightarrow> bytes \<Rightarrow> (bytes \<times> u32) option" where
  "write_frame f off body =
     (let fin = unat off + BODY_FRAME_BYTES + length body in
      if 2 ^ 32 - 1 < fin then None
      else Some (pwrite_all f (unat off) (encode_frame_header (word_of_nat (length body)) (crc32c body) @ body), word_of_nat fin))"

fun scan_loop :: "bytes \<Rightarrow> nat \<Rightarrow> nat \<Rightarrow> (u32 \<times> u32 \<times> u32) list \<times> nat" where
  "scan_loop f 0 off = ([], off)"
| "scan_loop f (Suc slots) off =
     (let fh = pread f off 8 in
      if length fh \<noteq> 8 then ([], off)
      else let (len, crc) = decode_frame_header fh in
        if MAX_BODY_BYTES < unat len then ([], off)
        else let payload = pread f (off + 8) (unat len) in
          if length payload \<noteq> unat len then ([], off)
          else if crc32c payload \<noteq> crc then ([], off)
          else if 2 ^ 32 - 1 < off + 8 + unat len then ([], off)
          else let (out, e) = scan_loop f slots (off + 8 + unat len) in ((word_of_nat off, len, crc) # out, e))"

definition scan_body_segment :: "bytes \<Rightarrow> nat \<Rightarrow> (u32 \<times> u32 \<times> u32) list \<times> nat" where
  "scan_body_segment f limit_slots = scan_loop f limit_slots 0"

end
