(* ===== verification/StoreFacts.thy ===== *)
theory StoreFacts imports StoreCodec begin

text \<open>
  What is written to a store is read back: rows of every table, undo journals, and the frames of a body
  segment even when the last write was torn.
\<close>

section \<open>Rows\<close>

lemma unat_of_small: "n < 2 ^ 32 \<Longrightarrow> unat (word_of_nat n :: u32) = n"
  by (simp add: unsigned_of_nat take_bit_nat_eq_self)

lemma decode_encode_account: "decode_account (encode_account a) = a"
  by (simp add: decode_account_def encode_account_def)

lemma length_encode_account [simp]: "length (encode_account a) = STATE_VALUE_BYTES"
  by (simp add: encode_account_def STATE_VALUE_BYTES_def)

definition undo_rec_ok :: "StoredUndo \<Rightarrow> bool" where
  "undo_rec_ok r \<longleftrightarrow> length (ur_addr r) = 20"

lemma length_encode_undo_rec: "undo_rec_ok r \<Longrightarrow> length (encode_undo_rec r) = UNDO_REC_BYTES"
  by (simp add: undo_rec_ok_def encode_undo_rec_def UNDO_REC_BYTES_def)

lemma decode_encode_undo_rec: "undo_rec_ok r \<Longrightarrow> decode_undo_rec (encode_undo_rec r) = r"
  by (simp add: undo_rec_ok_def encode_undo_rec_def decode_undo_rec_def nth_append)

lemma take_concat_block:
  assumes "\<forall>x \<in> set xs. length (f x) = n" "i < length xs"
  shows "take n (drop (i * n) (concat (map f xs))) = f (xs ! i)"
  using assms
proof (induction xs arbitrary: i)
  case (Cons x xs)
  then show ?case by (cases i) simp_all
qed simp

lemma length_concat_block: "\<forall>x \<in> set xs. length (f x) = n \<Longrightarrow> length (concat (map f xs)) = length xs * n"
  by (induction xs) simp_all

lemma undo_roundtrip:
  assumes "\<forall>r \<in> set recs. undo_rec_ok r" "length recs \<le> MAX_UNDO_RECS"
  shows "decode_undo (encode_undo recs issued) = Some (recs, issued)" "length (encode_undo recs issued) \<le> MAX_UNDO_BLOB_BYTES"
proof -
  have blocks: "\<forall>r \<in> set recs. length (encode_undo_rec r) = UNDO_REC_BYTES" using assms(1) length_encode_undo_rec by simp
  have len: "length (encode_undo recs issued) = UNDO_HDR_BYTES + length recs * UNDO_REC_BYTES"
    using length_concat_block [OF blocks] by (simp add: encode_undo_def UNDO_HDR_BYTES_def)
  then show "length (encode_undo recs issued) \<le> MAX_UNDO_BLOB_BYTES" using assms(2) by (simp add: MAX_UNDO_BLOB_BYTES_def)
  have count: "unat (from_le (take 4 (encode_undo recs issued)) :: u32) = length recs"
    using assms(2) by (simp add: encode_undo_def MAX_UNDO_RECS_def unat_of_small)
  have "decode_undo_rec (take UNDO_REC_BYTES (drop (UNDO_HDR_BYTES + i * UNDO_REC_BYTES) (encode_undo recs issued))) = recs ! i"
    if "i < length recs" for i
  proof -
    have "drop (UNDO_HDR_BYTES + i * UNDO_REC_BYTES) (encode_undo recs issued) =
        drop (i * UNDO_REC_BYTES) (concat (map encode_undo_rec recs))"
      by (simp add: encode_undo_def UNDO_HDR_BYTES_def drop_drop [symmetric] del: drop_drop)
    then show ?thesis using take_concat_block [OF blocks that] assms(1) that decode_encode_undo_rec by simp
  qed
  then have "map (\<lambda>i. decode_undo_rec (take UNDO_REC_BYTES (drop (UNDO_HDR_BYTES + i * UNDO_REC_BYTES) (encode_undo recs issued))))
      [0..<length recs] = recs"
    by (intro nth_equalityI) simp_all
  moreover have "from_le (take 16 (drop 4 (encode_undo recs issued))) = issued" by (simp add: encode_undo_def)
  ultimately show "decode_undo (encode_undo recs issued) = Some (recs, issued)"
    using len count assms(2) by (simp add: decode_undo_def Let_def)
qed

lemma status_code_back [simp]: "status_from_code (status_code s) = Some s"
  by (cases s) (simp_all add: status_from_code_def)

lemma side_roundtrip:
  "length h = HEADER_BYTES \<Longrightarrow> decode_side (encode_side h height st) = Some \<lparr>sh_header = h, sh_height = height, sh_status = st\<rparr>"
  by (simp add: decode_side_def encode_side_def nth_append)

lemma location_roundtrip [simp]:
  "decode_txloc (encode_txloc height index) = (height, index)" "decode_frame_header (encode_frame_header len crc) = (len, crc)"
  "decode_bidx (encode_bidx off len) = (off, len)"
  by (simp_all add: decode_txloc_def encode_txloc_def decode_frame_header_def encode_frame_header_def decode_bidx_def encode_bidx_def)

lemma SEG_MASK_eq: "SEG_MASK = mask 12"
  by (simp add: SEG_MASK_def SEG_BLOCKS_def SEG_SHIFT_def mask_eq_exp_minus_1)

lemma layout_splits:
  assumes "unat h < 2 ^ 44"
  shows "seg_first_height (seg_of h) OR slot_of h = h" "seg_first_height (seg_of h) AND slot_of h = 0"
proof -
  have "\<not> bit h k" if "44 \<le> k" for k
  proof -
    have "unat (take_bit 44 h) = unat h" using assms by (simp add: unsigned_take_bit_eq take_bit_nat_eq_self)
    then have "take_bit 44 h = h" by (simp add: word_unat_eq_iff)
    then show ?thesis using that by (metis bit_take_bit_iff not_le)
  qed
  then have "n < 44" if "bit h n" for n using that not_le by blast
  then have "n - 12 < 32" if "bit h n" for n using that by fastforce
  then show "seg_first_height (seg_of h) OR slot_of h = h"
    by (intro bit_word_eqI) (auto simp: seg_first_height_def seg_of_def slot_of_def SEG_MASK_eq SEG_SHIFT_def bit_or_iff bit_and_iff
      bit_push_bit_iff bit_ucast_iff bit_drop_bit_eq bit_mask_iff not_less)
  show "seg_first_height (seg_of h) AND slot_of h = 0"
    by (intro bit_word_eqI) (auto simp: seg_first_height_def slot_of_def SEG_MASK_eq SEG_SHIFT_def bit_and_iff bit_push_bit_iff bit_mask_iff)
qed

section \<open>Torn segments\<close>

abbreviation body_frame :: "bytes \<Rightarrow> bytes" where
  "body_frame body \<equiv> encode_frame_header (word_of_nat (length body)) (crc32c body) @ body"

fun write_bodies :: "bytes \<Rightarrow> u32 \<Rightarrow> bytes list \<Rightarrow> (bytes \<times> u32) option" where
  "write_bodies f off [] = Some (f, off)"
| "write_bodies f off (b # bs) = (case write_frame f off b of None \<Rightarrow> None | Some (f, off) \<Rightarrow> write_bodies f off bs)"

lemma length_frame_header [simp]: "length (encode_frame_header len crc) = 8"
  by (simp add: encode_frame_header_def)

lemma write_frame_appends:
  assumes "write_frame f off body = Some (f', off')" "unat off = length f"
  shows "f' = f @ body_frame body" "unat off' = length f'" "length f' \<le> 2 ^ 32 - 1"
proof -
  let ?n = "unat off + BODY_FRAME_BYTES + length body"
  have w: "?n \<le> 2 ^ 32 - 1" "off' = word_of_nat ?n"
    "f' = pwrite_all f (unat off) (encode_frame_header (word_of_nat (length body)) (crc32c body) @ body)"
    using assms(1) by (auto simp: write_frame_def Let_def simp del: of_nat_add split: if_splits)
  then show "f' = f @ body_frame body" using assms(2) by (simp add: pwrite_all_def)
  then have len: "length f' = ?n" using assms(2) by (simp add: BODY_FRAME_BYTES_def)
  then show "length f' \<le> 2 ^ 32 - 1" using w(1) by simp
  have "?n < 2 ^ 32" using w(1) by simp
  then show "unat off' = length f'" unfolding w(2) len by (rule unat_of_small)
qed

definition body_ok :: "bytes \<Rightarrow> bool" where "body_ok b \<longleftrightarrow> length b \<le> MAX_BODY_BYTES"

lemma body_ok_len: "body_ok b \<Longrightarrow> unat (word_of_nat (length b) :: u32) = length b"
  by (simp add: body_ok_def MAX_BODY_BYTES_def unat_of_small)

lemma pread_app [simp]: "pread (xs @ ys) (length xs + k) n = pread ys k n"
  by (simp add: pread_def)

lemma scan_torn:
  assumes "body_ok b" "k < length (body_frame b)"
  shows "scan_loop (f @ take k (body_frame b)) slots (length f) = ([], length f)"
proof (cases slots)
  case (Suc n)
  show ?thesis
  proof (cases "k < 8")
    case True
    then show ?thesis using assms(2) pread_app [of f "take k (body_frame b)" 0 8] by (simp add: Suc pread_def Let_def)
  next
    case False
    let ?h = "encode_frame_header (word_of_nat (length b)) (crc32c b)"
    have t: "take k (body_frame b) = ?h @ take (k - 8) b" using False by simp
    have "pread (f @ ?h @ take (k - 8) b) (length f) 8 = ?h" by (simp add: pread_def)
    moreover have "pread (f @ ?h @ take (k - 8) b) (length f + 8) (length b) = take (k - 8) b"
      by (simp add: pread_def min_def)
    ultimately show ?thesis
      unfolding t using assms False body_ok_len [OF assms(1)] by (auto simp: Suc Let_def)
  qed
qed simp

text \<open>What the scan reports of frames written one after the other.\<close>

fun entries_of :: "nat \<Rightarrow> bytes list \<Rightarrow> (u32 \<times> u32 \<times> u32) list" where
  "entries_of off [] = []"
| "entries_of off (b # bs) = (word_of_nat off, word_of_nat (length b), crc32c b) # entries_of (off + 8 + length b) bs"

lemma write_bodies_file:
  "write_bodies f off bs = Some (f', off') \<Longrightarrow> unat off = length f \<Longrightarrow>
   f' = f @ concat (map body_frame bs) \<and> unat off' = length f' \<and> (bs = [] \<or> length f' \<le> 2 ^ 32 - 1)"
proof (induction bs arbitrary: f off)
  case (Cons b bs)
  obtain f1 off1 where w: "write_frame f off b = Some (f1, off1)" "write_bodies f1 off1 bs = Some (f', off')"
    using Cons.prems(1) by (auto split: option.splits)
  have "f1 = f @ body_frame b" "unat off1 = length f1" "length f1 \<le> 2 ^ 32 - 1" using write_frame_appends [OF w(1) Cons.prems(2)] by blast+
  then show ?case using Cons.IH [OF w(2)] w(2) by (cases bs) auto
qed simp

lemma scan_frames:
  "\<forall>b \<in> set bs. body_ok b \<Longrightarrow> length (f @ concat (map body_frame bs)) \<le> 2 ^ 32 - 1 \<Longrightarrow> body_ok nxt \<Longrightarrow> k < length (body_frame nxt) \<Longrightarrow>
   length bs \<le> slots \<Longrightarrow>
   scan_loop (f @ concat (map body_frame bs) @ take k (body_frame nxt)) slots (length f) =
     (entries_of (length f) bs, length (f @ concat (map body_frame bs)))"
proof (induction bs arbitrary: f slots)
  case Nil
  then show ?case using scan_torn by simp
next
  case (Cons b bs)
  obtain n where n: "slots = Suc n" using Cons.prems(5) by (cases slots) auto
  let ?h = "encode_frame_header (word_of_nat (length b)) (crc32c b)"
  let ?rest = "concat (map body_frame bs) @ take k (body_frame nxt)"
  let ?F = "f @ concat (map body_frame (b # bs)) @ take k (body_frame nxt)"
  have F: "?F = f @ ?h @ b @ ?rest" "?F = (f @ body_frame b) @ ?rest" by simp_all
  have "scan_loop ((f @ body_frame b) @ ?rest) n (length (f @ body_frame b)) =
      (entries_of (length (f @ body_frame b)) bs, length ((f @ body_frame b) @ concat (map body_frame bs)))"
    using Cons.prems n by (intro Cons.IH) auto
  then have rec: "scan_loop ?F n (length f + 8 + length b) =
      (entries_of (length f + 8 + length b) bs, length (f @ concat (map body_frame (b # bs))))"
    unfolding F(2) by (simp add: add.assoc)
  have r: "pread ?F (length f) 8 = ?h" "pread ?F (length f + 8) (length b) = b"
    unfolding F(1) by (simp_all add: pread_def)
  have ok: "unat (word_of_nat (length b) :: u32) = length b" "length b \<le> MAX_BODY_BYTES" "length f + 8 + length b \<le> 2 ^ 32 - 1"
    using Cons.prems(1,2) body_ok_len by (auto simp: body_ok_def)
  show ?case
    unfolding n scan_loop.simps r(1) by (simp only: location_roundtrip prod.case Let_def ok(1) r(2) rec length_frame_header
      entries_of.simps simp_thms if_False not_less [symmetric] prod.inject if_not_P) (use ok in auto)
qed

lemma entries_read_back:
  "length (f @ concat (map body_frame bs)) \<le> 2 ^ 32 - 1 \<Longrightarrow> \<forall>b \<in> set bs. body_ok b \<Longrightarrow>
   map (\<lambda>(o', n, crc). pread (f @ concat (map body_frame bs) @ torn) (unat o' + 8) (unat n)) (entries_of (length f) bs) = bs"
proof (induction bs arbitrary: f)
  case (Cons b bs)
  have low: "length f < 2 ^ 32" using Cons.prems(1) by simp
  have "pread (f @ concat (map body_frame (b # bs)) @ torn) (length f + 8) (length b) = b" by (simp add: pread_def)
  moreover have "map (\<lambda>(o', n, crc). pread ((f @ body_frame b) @ concat (map body_frame bs) @ torn) (unat o' + 8) (unat n))
      (entries_of (length (f @ body_frame b)) bs) = bs"
    using Cons.prems by (intro Cons.IH) simp_all
  ultimately show ?case using unat_of_small [OF low] body_ok_len [of b] Cons.prems(2) by (simp add: add.assoc)
qed simp

text \<open>C23: A torn write costs the torn body and nothing else: when bodies have been appended to a segment one
  after the other and the machine stops anywhere inside the write of the next one, the scan at start-up
  ends exactly where the last whole body ends, reports one entry for every body written, and each entry
  leads back to its body.\<close>

theorem torn_segment_recovers:
  assumes "list_all body_ok bodies" "body_ok torn" "write_bodies [] 0 bodies = Some (f, off)"
    and "k < length (body_frame torn)" "length bodies \<le> slots"
  shows "snd (scan_body_segment (f @ take k (body_frame torn)) slots) = unat off \<and>
    map (\<lambda>(o', n, crc). pread (f @ take k (body_frame torn)) (unat o' + 8) (unat n))
      (fst (scan_body_segment (f @ take k (body_frame torn)) slots)) = bodies \<and>
    map (\<lambda>(o', n, crc). crc) (fst (scan_body_segment (f @ take k (body_frame torn)) slots)) = map crc32c bodies"
proof -
  have ok: "\<forall>b \<in> set bodies. body_ok b" using assms(1) by (simp add: list_all_iff)
  have f: "f = concat (map body_frame bodies)" "unat off = length f" "length f \<le> 2 ^ 32 - 1"
    using write_bodies_file [OF assms(3)] by auto
  have s: "scan_body_segment (f @ take k (body_frame torn)) slots = (entries_of 0 bodies, length f)"
    using scan_frames [OF ok _ assms(2,4,5), of "[]"] f by (simp add: scan_body_segment_def)
  have "map (\<lambda>(o', n, crc). crc) (entries_of i bodies) = map crc32c bodies" for i
    by (induction bodies arbitrary: i) simp_all
  then show ?thesis
    using entries_read_back [OF _ ok, of "[]" "take k (body_frame torn)"] f unfolding s by simp
qed

theorem torn_segment_recovers_witness:
  "\<exists>f off. write_bodies [] 0 [[1, 2], [3]] = Some (f, off) \<and>
     snd (scan_body_segment (f @ take 9 (body_frame [4, 5, 6])) 4096) = unat off"
proof -
  have "body_ok [1, 2]" "body_ok [3]" "body_ok [4, 5, 6]" by (simp_all add: body_ok_def MAX_BODY_BYTES_def)
  moreover obtain f off where w: "write_bodies [] 0 [[1, 2], [3]] = Some (f, off)"
    by (simp add: write_frame_def Let_def BODY_FRAME_BYTES_def)
  ultimately show ?thesis using torn_segment_recovers [OF _ _ w, of "[4, 5, 6]" 9 4096] by auto
qed

end
