(* ===== verification/StoreMeta.thy ===== *)
theory StoreMeta imports StoreCodec begin

text \<open>
  The meta row group of \<open>lib/storage\<close> (\<open>meta.rs\<close>) with the errors the modelled part of the store gives
  (\<open>error.rs\<close>). The table is a map from keys to bytes; a table that does not exist reads like an empty one.
\<close>

section \<open>Keys and values\<close>

datatype StoreError =
    BadPlan string
  | UndoExhausted u64 u64 u64
  | EmissionMismatch u128 u128
  | StateFingerprint bytes bytes
  | MetaRowMalformed string nat nat

definition SCHEMA_VERSION :: u32 where "SCHEMA_VERSION = 1"

definition K_SCHEMA :: string where "K_SCHEMA = ''schema_version''"

definition K_NETWORK :: string where "K_NETWORK = ''network''"

definition K_TIP :: string where "K_TIP = ''tip''"

definition K_HDR_WM :: string where "K_HDR_WM = ''hdr_watermark''"

definition K_BODY_WM :: string where "K_BODY_WM = ''body_watermark''"

definition K_PRUNE_FLOOR :: string where "K_PRUNE_FLOOR = ''prune_floor''"

definition K_UNDO_FLOOR :: string where "K_UNDO_FLOOR = ''undo_floor''"

definition K_ISSUED :: string where "K_ISSUED = ''issued''"

definition K_FINGERPRINT :: string where "K_FINGERPRINT = ''state_fingerprint''"

definition K_INDEX_STATE :: string where "K_INDEX_STATE = ''index_state''"

definition K_STALE_INDEX :: string where "K_STALE_INDEX = ''stale_index_count''"

definition K_TXINDEX_FROM :: string where "K_TXINDEX_FROM = ''txindex_from''"

definition K_IBD_BATCH :: string where "K_IBD_BATCH = ''ibd_batch_blocks''"

definition K_BIDX_SEALED :: string where "K_BIDX_SEALED = ''bidx_sealed_through''"

definition K_FULLIDX_ROWS :: string where "K_FULLIDX_ROWS = ''hash_index_full_rows''"

definition K_INVALID_SEQ :: string where "K_INVALID_SEQ = ''invalid_next_seq''"

definition K_INVALID_ROWS :: string where "K_INVALID_ROWS = ''invalid_rows''"

definition K_SIDE_ROWS :: string where "K_SIDE_ROWS = ''side_rows''"

definition K_BODY_APPEND :: string where "K_BODY_APPEND = ''body_append_offset''"

definition K_ANCHOR_FLOOR :: string where "K_ANCHOR_FLOOR = ''anchor_floor''"

lemmas key_defs = K_SCHEMA_def K_NETWORK_def K_TIP_def K_HDR_WM_def K_BODY_WM_def K_PRUNE_FLOOR_def K_UNDO_FLOOR_def
  K_ISSUED_def K_FINGERPRINT_def K_INDEX_STATE_def K_STALE_INDEX_def K_TXINDEX_FROM_def K_IBD_BATCH_def K_BIDX_SEALED_def
  K_FULLIDX_ROWS_def K_INVALID_SEQ_def K_INVALID_ROWS_def K_SIDE_ROWS_def K_BODY_APPEND_def K_ANCHOR_FLOOR_def

record StoredTip =
  stp_hash :: bytes
  stp_height :: u64
  stp_chainwork :: bytes

definition tip_default :: StoredTip where
  "tip_default = \<lparr>stp_hash = replicate 32 0, stp_height = 0, stp_chainwork = replicate 32 0\<rparr>"

record Meta =
  me_schema_version :: u32
  me_network :: bytes
  me_tip :: StoredTip
  me_hdr_watermark :: u64
  me_body_watermark :: u64
  me_prune_floor :: u64
  me_undo_floor :: u64
  me_issued :: u128
  me_fingerprint :: bytes
  me_index_state :: u8
  me_stale_index_count :: u64
  me_txindex_from :: "u64 option"
  me_ibd_batch_blocks :: u32
  me_bidx_sealed_through :: int
  me_hash_index_full_rows :: u64
  me_invalid_next_seq :: u64
  me_invalid_rows :: u64
  me_side_rows :: u64
  me_body_append_offset :: u32
  me_anchor_floor :: "u64 option"

definition meta_fresh :: "bytes \<Rightarrow> u64 \<Rightarrow> u32 \<Rightarrow> Meta" where
  "meta_fresh network prune_floor ibd_batch_blocks =
     \<lparr>me_schema_version = SCHEMA_VERSION, me_network = network, me_tip = tip_default, me_hdr_watermark = 0,
      me_body_watermark = 0, me_prune_floor = prune_floor, me_undo_floor = 0, me_issued = 0, me_fingerprint = replicate 32 0,
      me_index_state = 0, me_stale_index_count = 0, me_txindex_from = None, me_ibd_batch_blocks = ibd_batch_blocks,
      me_bidx_sealed_through = - 1, me_hash_index_full_rows = 0, me_invalid_next_seq = 0, me_invalid_rows = 0,
      me_side_rows = 0, me_body_append_offset = 0, me_anchor_floor = None\<rparr>"

section \<open>Reading and writing\<close>

type_synonym meta_table = "string \<rightharpoonup> bytes"

definition u64_of :: "bytes \<Rightarrow> u64" where
  "u64_of b = (let n = min (length b) 8 in from_le (take n b @ replicate (8 - n) 0))"

definition fixed_row :: "string \<Rightarrow> bytes \<Rightarrow> nat \<Rightarrow> StoreError + bytes" where
  "fixed_row k v want = (if length v \<noteq> want then Inl (MetaRowMalformed k (length v) want) else Inr v)"

definition schema_of :: "meta_table \<Rightarrow> u32 option" where
  "schema_of t = map_option (\<lambda>v. ucast (u64_of v)) (t K_SCHEMA)"

definition row_or :: "meta_table \<Rightarrow> string \<Rightarrow> nat \<Rightarrow> 'a \<Rightarrow> (bytes \<Rightarrow> 'a) \<Rightarrow> StoreError + 'a" where
  "row_or t k want dflt f = (case t k of None \<Rightarrow> Inr dflt | Some v \<Rightarrow> and_then (fixed_row k v want) (\<lambda>v. Inr (f v)))"

definition tip_of_row :: "bytes \<Rightarrow> StoredTip" where
  "tip_of_row v = \<lparr>stp_hash = take 32 v, stp_height = u64_of (take 8 (drop 32 v)), stp_chainwork = take 32 (drop 40 v)\<rparr>"

definition load_sealed :: "meta_table \<Rightarrow> StoreError + int" where
  "load_sealed t =
     (case t K_BIDX_SEALED of
        None \<Rightarrow> Inr (- 1)
      | Some v \<Rightarrow> and_then (fixed_row K_BIDX_SEALED v 8) (\<lambda>v.
          let raw = u64_of v in
          if 0xffffffff + 1 < raw then Inl (MetaRowMalformed K_BIDX_SEALED (unat raw) (2 ^ 32))
          else Inr (uint raw - 1)))"

definition meta_load :: "meta_table \<Rightarrow> StoreError + Meta option" where
  "meta_load t =
     (let num = (\<lambda>k. case t k of None \<Rightarrow> 0 | Some v \<Rightarrow> u64_of v) in
      case t K_SCHEMA of
        None \<Rightarrow> Inr None
      | Some schema \<Rightarrow>
          and_then (row_or t K_NETWORK 4 (replicate 4 0) id) (\<lambda>network.
          and_then (row_or t K_TIP 72 tip_default tip_of_row) (\<lambda>tip.
          and_then (row_or t K_FINGERPRINT 32 (replicate 32 0) id) (\<lambda>fingerprint.
          and_then (row_or t K_ISSUED 16 0 from_le) (\<lambda>issued.
          and_then (row_or t K_INDEX_STATE 1 0 (\<lambda>v. v ! 0)) (\<lambda>index_state.
          and_then (load_sealed t) (\<lambda>bidx_sealed.
          Inr (Some \<lparr>me_schema_version = ucast (u64_of schema), me_network = network, me_tip = tip,
            me_hdr_watermark = num K_HDR_WM, me_body_watermark = num K_BODY_WM, me_prune_floor = num K_PRUNE_FLOOR,
            me_undo_floor = num K_UNDO_FLOOR, me_issued = issued, me_fingerprint = fingerprint, me_index_state = index_state,
            me_stale_index_count = num K_STALE_INDEX, me_txindex_from = map_option u64_of (t K_TXINDEX_FROM),
            me_ibd_batch_blocks = (case t K_IBD_BATCH of None \<Rightarrow> 8192 | Some v \<Rightarrow> ucast (u64_of v)),
            me_bidx_sealed_through = bidx_sealed, me_hash_index_full_rows = num K_FULLIDX_ROWS,
            me_invalid_next_seq = num K_INVALID_SEQ, me_invalid_rows = num K_INVALID_ROWS, me_side_rows = num K_SIDE_ROWS,
            me_body_append_offset = ucast (num K_BODY_APPEND), me_anchor_floor = map_option u64_of (t K_ANCHOR_FLOOR)\<rparr>))))))))"

definition put_opt :: "string \<Rightarrow> u64 option \<Rightarrow> meta_table \<Rightarrow> meta_table" where
  "put_opt k x t = (case x of None \<Rightarrow> t | Some f \<Rightarrow> t(k \<mapsto> to_le 8 f))"

definition meta_store :: "Meta \<Rightarrow> meta_table \<Rightarrow> meta_table" where
  "meta_store m t =
     (let t = t(K_SCHEMA \<mapsto> to_le 8 (ucast (me_schema_version m) :: u64), K_NETWORK \<mapsto> me_network m);
          t = t(K_TIP \<mapsto> stp_hash (me_tip m) @ to_le 8 (stp_height (me_tip m)) @ stp_chainwork (me_tip m));
          t = t(K_HDR_WM \<mapsto> to_le 8 (me_hdr_watermark m), K_BODY_WM \<mapsto> to_le 8 (me_body_watermark m),
                K_PRUNE_FLOOR \<mapsto> to_le 8 (me_prune_floor m), K_UNDO_FLOOR \<mapsto> to_le 8 (me_undo_floor m),
                K_ISSUED \<mapsto> to_le 16 (me_issued m), K_FINGERPRINT \<mapsto> me_fingerprint m,
                K_INDEX_STATE \<mapsto> [me_index_state m], K_STALE_INDEX \<mapsto> to_le 8 (me_stale_index_count m));
          t = put_opt K_TXINDEX_FROM (me_txindex_from m) t;
          t = t(K_IBD_BATCH \<mapsto> to_le 8 (ucast (me_ibd_batch_blocks m) :: u64),
                K_BIDX_SEALED \<mapsto> to_le 8 (word_of_int (me_bidx_sealed_through m + 1) :: u64),
                K_FULLIDX_ROWS \<mapsto> to_le 8 (me_hash_index_full_rows m), K_INVALID_SEQ \<mapsto> to_le 8 (me_invalid_next_seq m),
                K_INVALID_ROWS \<mapsto> to_le 8 (me_invalid_rows m), K_SIDE_ROWS \<mapsto> to_le 8 (me_side_rows m),
                K_BODY_APPEND \<mapsto> to_le 8 (ucast (me_body_append_offset m) :: u64))
      in put_opt K_ANCHOR_FLOOR (me_anchor_floor m) t)"

section \<open>A restart\<close>

definition meta_ok :: "Meta \<Rightarrow> bool" where
  "meta_ok m \<longleftrightarrow> length (me_network m) = 4 \<and> length (stp_hash (me_tip m)) = 32 \<and> length (stp_chainwork (me_tip m)) = 32 \<and>
     length (me_fingerprint m) = 32 \<and> - 1 \<le> me_bidx_sealed_through m \<and> me_bidx_sealed_through m < 2 ^ 32"

lemma u64_of_to_le [simp]: "u64_of (to_le 8 x) = x"
  by (simp add: u64_of_def)

lemma widen_narrow: "ucast (ucast (x :: u32) :: u64) = x"
  by (rule bit_word_eqI) (simp add: bit_simps)

lemma put_opt_other [simp]: "k \<noteq> k' \<Longrightarrow> put_opt k x t k' = t k'"
  by (simp add: put_opt_def split: option.splits)

lemma put_opt_same [simp]: "put_opt k x t k = (case x of None \<Rightarrow> t k | Some f \<Rightarrow> Some (to_le 8 f))"
  by (simp add: put_opt_def split: option.splits)

lemma meta_store_rows:
  "meta_store m t K_SCHEMA = Some (to_le 8 (ucast (me_schema_version m) :: u64))"
  "meta_store m t K_NETWORK = Some (me_network m)"
  "meta_store m t K_TIP = Some (stp_hash (me_tip m) @ to_le 8 (stp_height (me_tip m)) @ stp_chainwork (me_tip m))"
  "meta_store m t K_HDR_WM = Some (to_le 8 (me_hdr_watermark m))"
  "meta_store m t K_BODY_WM = Some (to_le 8 (me_body_watermark m))"
  "meta_store m t K_PRUNE_FLOOR = Some (to_le 8 (me_prune_floor m))"
  "meta_store m t K_UNDO_FLOOR = Some (to_le 8 (me_undo_floor m))"
  "meta_store m t K_ISSUED = Some (to_le 16 (me_issued m))"
  "meta_store m t K_FINGERPRINT = Some (me_fingerprint m)"
  "meta_store m t K_INDEX_STATE = Some [me_index_state m]"
  "meta_store m t K_STALE_INDEX = Some (to_le 8 (me_stale_index_count m))"
  "meta_store m t K_TXINDEX_FROM = (case me_txindex_from m of None \<Rightarrow> t K_TXINDEX_FROM | Some f \<Rightarrow> Some (to_le 8 f))"
  "meta_store m t K_IBD_BATCH = Some (to_le 8 (ucast (me_ibd_batch_blocks m) :: u64))"
  "meta_store m t K_BIDX_SEALED = Some (to_le 8 (word_of_int (me_bidx_sealed_through m + 1) :: u64))"
  "meta_store m t K_FULLIDX_ROWS = Some (to_le 8 (me_hash_index_full_rows m))"
  "meta_store m t K_INVALID_SEQ = Some (to_le 8 (me_invalid_next_seq m))"
  "meta_store m t K_INVALID_ROWS = Some (to_le 8 (me_invalid_rows m))"
  "meta_store m t K_SIDE_ROWS = Some (to_le 8 (me_side_rows m))"
  "meta_store m t K_BODY_APPEND = Some (to_le 8 (ucast (me_body_append_offset m) :: u64))"
  "meta_store m t K_ANCHOR_FLOOR = (case me_anchor_floor m of None \<Rightarrow> t K_ANCHOR_FLOOR | Some f \<Rightarrow> Some (to_le 8 f))"
  by (simp_all add: meta_store_def Let_def key_defs cong: option.case_cong)

lemma meta_load_store:
  assumes ok: "meta_ok m" and opt: "me_txindex_from m = None \<Longrightarrow> t K_TXINDEX_FROM = None"
    "me_anchor_floor m = None \<Longrightarrow> t K_ANCHOR_FLOOR = None"
  shows "meta_load (meta_store m t) = Inr (Some m)"
proof -
  let ?s = "meta_store m t"
  have rows: "row_or ?s K_NETWORK 4 (replicate 4 0) id = Inr (me_network m)"
    "row_or ?s K_TIP 72 tip_default tip_of_row = Inr (me_tip m)"
    "row_or ?s K_FINGERPRINT 32 (replicate 32 0) id = Inr (me_fingerprint m)"
    "row_or ?s K_ISSUED 16 0 from_le = Inr (me_issued m)"
    "row_or ?s K_INDEX_STATE (Suc 0) 0 (\<lambda>v. v ! 0) = Inr (me_index_state m)"
    using ok by (simp_all add: row_or_def meta_store_rows fixed_row_def meta_ok_def tip_of_row_def)
  have "uint (word_of_int (me_bidx_sealed_through m + 1) :: u64) = me_bidx_sealed_through m + 1"
    using ok by (simp add: meta_ok_def uint_word_of_int take_bit_int_eq_self del: of_int_add)
  then have sealed: "load_sealed ?s = Inr (me_bidx_sealed_through m)"
    using ok by (simp add: load_sealed_def meta_store_rows fixed_row_def Let_def word_less_def meta_ok_def del: of_int_add)
  have opts: "map_option u64_of (?s K_TXINDEX_FROM) = me_txindex_from m" "map_option u64_of (?s K_ANCHOR_FLOOR) = me_anchor_floor m"
    using opt by (auto simp: meta_store_rows split: option.splits)
  show ?thesis
    by (simp add: meta_load_def Let_def rows sealed opts widen_narrow meta_store_rows(1,4-7,11,13,15-19))
qed

lemma meta_store_opts:
  "(\<forall>m \<in> set ms. me_txindex_from m = None) \<Longrightarrow> fold meta_store ms t K_TXINDEX_FROM = t K_TXINDEX_FROM"
  "(\<forall>m \<in> set ms. me_anchor_floor m = None) \<Longrightarrow> fold meta_store ms t K_ANCHOR_FLOOR = t K_ANCHOR_FLOOR"
  by (induction ms arbitrary: t) (simp_all add: meta_store_rows)



end
