(* ===== verification/StoreTables.thy ===== *)
theory StoreTables imports StoreFacts StoreMeta Crypto Emission "HOL-Library.AList" begin

text \<open>
  The tables of \<open>lib/storage\<close> and the transactions on them (\<open>committer.rs\<close>, \<open>tables.rs\<close>, lookups of
  \<open>reader.rs\<close>). A table of the database is a map from keys to values; the table of accounts is the list of
  its rows, for the pass over all of them. A transaction that fails is dropped by the caller, so an error
  is just the error. The bytes of a stored header are a parameter of what reads them.
\<close>

section \<open>The database\<close>

datatype InvalidReason = BadPow | InvBits | BadMtp | BadMerkle | BadTx | BadParent | InvCheckpoint | Other

fun reason_code :: "InvalidReason \<Rightarrow> u8" where
  "reason_code BadPow = 1"
| "reason_code InvBits = 2"
| "reason_code BadMtp = 3"
| "reason_code BadMerkle = 4"
| "reason_code BadTx = 5"
| "reason_code BadParent = 6"
| "reason_code InvCheckpoint = 7"
| "reason_code Other = 255"

definition reason_from_code :: "u8 \<Rightarrow> InvalidReason" where
  "reason_from_code c = (if c = 1 then BadPow else if c = 2 then InvBits else if c = 3 then BadMtp else if c = 4 then BadMerkle
     else if c = 5 then BadTx else if c = 6 then BadParent else if c = 7 then InvCheckpoint else Other)"

datatype TxLocation = LocFound u64 u16 | NotIndexed u64 | LocAbsent

record Database =
  db_state :: "(bytes \<times> bytes) list"
  db_undo :: "u64 \<rightharpoonup> bytes"
  db_hash_index :: "u64 \<rightharpoonup> u64"
  db_hash_index_full :: "bytes \<rightharpoonup> u64"
  db_chainwork_ckpt :: "u64 \<rightharpoonup> bytes"
  db_txindex :: "bytes \<rightharpoonup> bytes"
  db_invalid :: "bytes \<rightharpoonup> u8"
  db_invalid_seq :: "(u64 \<times> bytes) list"
  db_meta :: Meta

record StoredBlock =
  sb_header :: bytes
  sb_hash :: bytes
  sb_height :: u64
  sb_body :: bytes
  sb_deltas :: "StoredDelta list"
  sb_undo :: "StoredUndo list"
  sb_issued_delta :: u128
  sb_chainwork :: bytes
  sb_txids :: "bytes list option"

section \<open>A block\<close>

definition check_block_inputs :: "StoredBlock \<Rightarrow> StoreError + unit" where
  "check_block_inputs b =
     (if length (sb_deltas b) \<noteq> length (sb_undo b) then Inl (BadPlan ''deltas and undo must be paired'')
      else if list_ex (\<lambda>(d, u). sd_addr d \<noteq> ur_addr u) (zip (sb_deltas b) (sb_undo b))
      then Inl (BadPlan ''deltas and undo must be address-aligned'')
      else if MAX_BODY_BYTES < length (sb_body b) then Inl (BadPlan ''body exceeds MAX_BLOCK_BYTES - HEADER_BYTES'')
      else if sb_body b = [] then Inl (BadPlan ''body must be non-empty: len == 0 is the sidecar's absent sentinel'')
      else Inr ())"

fun apply_rows :: "(StoredDelta \<times> StoredUndo) list \<Rightarrow> (bytes \<times> bytes) list \<Rightarrow> bytes \<Rightarrow> StoreError + (bytes \<times> bytes) list \<times> bytes" where
  "apply_rows [] st fp = Inr (st, fp)"
| "apply_rows ((d, u) # rest) st fp =
     (if sd_addr d \<noteq> ur_addr u then Inl (BadPlan ''deltas and undo must be address-aligned'')
      else
        let fp = (if ur_existed u
                  then fp_xor fp (row_digest (ur_addr u) \<lparr>sa_balance = ur_prev_balance u, sa_nonce = ur_prev_nonce u\<rparr>) else fp);
            nxt = \<lparr>sa_balance = sd_balance d, sa_nonce = sd_nonce d\<rparr>
        in if row_absent nxt then apply_rows rest (AList.delete (sd_addr d) st) fp
           else apply_rows rest (AList.update (sd_addr d) (encode_account nxt) st) (fp_xor fp (row_digest (sd_addr d) nxt)))"

definition index_hash :: "(u64 \<Rightarrow> bytes option) \<Rightarrow> u32 \<Rightarrow> StoredBlock \<Rightarrow> Database \<Rightarrow> Database" where
  "index_hash header_raw prefix_bytes b db =
     (let p = hash_prefix_n (sb_hash b) prefix_bytes in
      case db_hash_index db p of
        None \<Rightarrow> db\<lparr>db_hash_index := (db_hash_index db)(p \<mapsto> sb_height b)\<rparr>
      | Some h0 \<Rightarrow>
          if h0 = sb_height b then db
          else
            let still_valid = (case header_raw h0 of Some hdr \<Rightarrow> hash_prefix_n (header_hash hdr) prefix_bytes = p | None \<Rightarrow> False)
            in if still_valid
               then let m = db_meta db;
                        fresh = (db_hash_index_full db (sb_hash b) = None)
                    in db\<lparr>db_hash_index_full := (db_hash_index_full db)(sb_hash b \<mapsto> sb_height b),
                          db_meta := (if fresh then m\<lparr>me_hash_index_full_rows := me_hash_index_full_rows m + 1\<rparr> else m)\<rparr>
               else db\<lparr>db_hash_index := (db_hash_index db)(p \<mapsto> sb_height b)\<rparr>)"

fun index_txids :: "u64 \<Rightarrow> nat \<Rightarrow> bytes list \<Rightarrow> (bytes \<rightharpoonup> bytes) \<Rightarrow> (bytes \<rightharpoonup> bytes)" where
  "index_txids height i [] t = t"
| "index_txids height i (x # xs) t = index_txids height (Suc i) xs (t(txid_key x \<mapsto> encode_txloc height (word_of_nat i)))"

definition apply_block :: "(u64 \<Rightarrow> bytes option) \<Rightarrow> u32 \<Rightarrow> bool \<Rightarrow> StoredBlock \<Rightarrow> Database \<Rightarrow> StoreError + Database" where
  "apply_block header_raw prefix_bytes txindex b db =
     and_then (apply_rows (zip (sb_deltas b) (sb_undo b)) (db_state db) (me_fingerprint (db_meta db))) (\<lambda>(st, fp).
       let h = sb_height b;
           undo = (db_undo db)(h \<mapsto> encode_undo (sb_undo b) (sb_issued_delta b));
           undo = (if UNDO_RING \<le> h then undo(h - UNDO_RING := None) else undo);
           db = db\<lparr>db_state := st, db_meta := (db_meta db)\<lparr>me_fingerprint := fp\<rparr>, db_undo := undo\<rparr>;
           db = index_hash header_raw prefix_bytes b db;
           db = (if h AND (push_bit CHAINWORK_CKPT_SHIFT 1 - 1) = 0
                 then db\<lparr>db_chainwork_ckpt := (db_chainwork_ckpt db)(h \<mapsto> sb_chainwork b)\<rparr> else db);
           db = (case sb_txids b of
                   Some ids \<Rightarrow>
                     if txindex
                     then let m = db_meta db in db\<lparr>db_txindex := index_txids h 0 ids (db_txindex db),
                       db_meta := (if me_txindex_from m = None then m\<lparr>me_txindex_from := Some h\<rparr> else m)\<rparr>
                     else db
                 | None \<Rightarrow> db);
           m = db_meta db
       in Inr (db\<lparr>db_meta := m\<lparr>me_issued := saturating_add (me_issued m) (sb_issued_delta b),
            me_tip := \<lparr>stp_hash = sb_hash b, stp_height = h, stp_chainwork = sb_chainwork b\<rparr>,
            me_hdr_watermark := h + 1, me_body_watermark := h + 1, me_undo_floor := saturating_sub (h + 1) UNDO_RING\<rparr>\<rparr>))"

section \<open>Taking a block back\<close>

fun undo_rows :: "StoredUndo list \<Rightarrow> (bytes \<times> bytes) list \<Rightarrow> bytes \<Rightarrow> (bytes \<times> bytes) list \<times> bytes" where
  "undo_rows [] st fp = (st, fp)"
| "undo_rows (r # rs) st fp =
     (let fp = (case map_of st (ur_addr r) of None \<Rightarrow> fp | Some cur \<Rightarrow> fp_xor fp (row_digest (ur_addr r) (decode_account cur)));
          prev = \<lparr>sa_balance = ur_prev_balance r, sa_nonce = ur_prev_nonce r\<rparr>
      in if ur_existed r
         then undo_rows rs (AList.update (ur_addr r) (encode_account prev) st) (fp_xor fp (row_digest (ur_addr r) prev))
         else undo_rows rs (AList.delete (ur_addr r) st) fp)"

definition rollback_height :: "u64 \<Rightarrow> Database \<Rightarrow> StoreError + Database" where
  "rollback_height h db =
     (let m = db_meta db in
      case db_undo db h of
        None \<Rightarrow> Inl (UndoExhausted h (me_undo_floor m) 0)
      | Some blob \<Rightarrow>
          (case decode_undo blob of
             None \<Rightarrow> Inl (BadPlan ''undo blob is malformed'')
           | Some (recs, issued_delta) \<Rightarrow>
               (case checked_sub (me_issued m) issued_delta of
                  None \<Rightarrow> Inl (EmissionMismatch (me_issued m) issued_delta)
                | Some issued \<Rightarrow>
                    let (st, fp) = undo_rows recs (db_state db) (me_fingerprint m);
                        ck = (if h AND (push_bit CHAINWORK_CKPT_SHIFT 1 - 1) = 0 then (db_chainwork_ckpt db)(h := None)
                              else db_chainwork_ckpt db)
                    in Inr (db\<lparr>db_state := st, db_undo := (db_undo db)(h := None), db_chainwork_ckpt := ck,
                          db_meta := m\<lparr>me_issued := issued, me_fingerprint := fp\<rparr>\<rparr>))))"

text \<open>The part of \<open>commit_branch\<close> that works on the tables: heights are taken back, the hashes they had
  leave the index, the watermarks move to the fork, and the new blocks are applied.\<close>

fun rollback_all :: "u64 list \<Rightarrow> Database \<Rightarrow> StoreError + Database" where
  "rollback_all [] db = Inr db"
| "rollback_all (h # hs) db = and_then (rollback_height h db) (rollback_all hs)"

definition unindex_hash :: "u32 \<Rightarrow> u64 \<times> bytes \<Rightarrow> Database \<Rightarrow> Database" where
  "unindex_hash prefix_bytes = (\<lambda>(h, hash) db.
     let p = hash_prefix_n hash prefix_bytes;
         db = (if db_hash_index db p = Some h then db\<lparr>db_hash_index := (db_hash_index db)(p := None)\<rparr> else db);
         m = db_meta db
     in if 0 < me_hash_index_full_rows m \<and> db_hash_index_full db hash \<noteq> None
        then db\<lparr>db_hash_index_full := (db_hash_index_full db)(hash := None),
                db_meta := m\<lparr>me_hash_index_full_rows := me_hash_index_full_rows m - 1\<rparr>\<rparr>
        else db)"

fun apply_all :: "(u64 \<Rightarrow> bytes option) \<Rightarrow> u32 \<Rightarrow> bool \<Rightarrow> StoredBlock list \<Rightarrow> Database \<Rightarrow> StoreError + Database" where
  "apply_all header_raw prefix_bytes txindex [] db = Inr db"
| "apply_all header_raw prefix_bytes txindex (b # bs) db =
     and_then (check_block_inputs b) (\<lambda>_. and_then (apply_block header_raw prefix_bytes txindex b db)
       (apply_all header_raw prefix_bytes txindex bs))"

definition commit_branch ::
  "(u64 \<Rightarrow> bytes option) \<Rightarrow> u32 \<Rightarrow> bool \<Rightarrow> u64 \<Rightarrow> u64 list \<Rightarrow> (u64 \<times> bytes) list \<Rightarrow> StoredBlock list \<Rightarrow> Database \<Rightarrow> StoreError + Database" where
  "commit_branch header_raw prefix_bytes txindex fork_height rollback old_hashes blocks db =
     and_then (rollback_all rollback db) (\<lambda>db.
       let db = fold (unindex_hash prefix_bytes) old_hashes db;
           m = db_meta db;
           m = m\<lparr>me_stale_index_count := me_stale_index_count m + word_of_nat (length rollback),
                 me_tip := (me_tip m)\<lparr>stp_height := fork_height\<rparr>, me_hdr_watermark := fork_height + 1,
                 me_body_watermark := fork_height + 1\<rparr>
       in apply_all header_raw prefix_bytes txindex blocks (db\<lparr>db_meta := m\<rparr>))"

text \<open>What \<open>reorg\<close> asks of a plan before it touches the store; the old hashes are those of the headers it
  can still read at the heights that are taken back.\<close>

fun adjacent_ok :: "u64 list \<Rightarrow> bool" where
  "adjacent_ok (a # b # r) \<longleftrightarrow> \<not> a \<le> b \<and> adjacent_ok (b # r)"
| "adjacent_ok r \<longleftrightarrow> True"

fun check_heights :: "u64 \<Rightarrow> StoredBlock list \<Rightarrow> StoreError + unit" where
  "check_heights h [] = Inr ()"
| "check_heights h (b # bs) =
     (if sb_height b \<noteq> h then Inl (BadPlan ''apply heights must be contiguous ascending'')
      else and_then (check_block_inputs b) (\<lambda>_. check_heights (h + 1) bs))"

definition check_reorg_plan :: "Meta \<Rightarrow> u64 \<Rightarrow> u64 \<Rightarrow> u64 list \<Rightarrow> StoredBlock list \<Rightarrow> StoreError + unit" where
  "check_reorg_plan m replay_floor fork_height rollback blocks =
     (let old_tip = stp_height (me_tip m) in
      if unat MAX_REORG_DEPTH < length rollback then Inl (BadPlan ''rollback deeper than MAX_REORG_DEPTH'')
      else if \<not> adjacent_ok rollback then Inl (BadPlan ''rollback heights must be DESCENDING'')
      else
        and_then (case rollback of
            [] \<Rightarrow> if fork_height \<noteq> old_tip then Inl (BadPlan ''empty rollback with fork below tip'') else Inr ()
          | r0 # _ \<Rightarrow>
              let lowest = last rollback in
              if lowest \<noteq> fork_height + 1 \<or> r0 \<noteq> old_tip then Inl (BadPlan ''rollback must cover fork_height+1..=tip'')
              else if lowest < me_undo_floor m then Inl (UndoExhausted fork_height (me_undo_floor m) replay_floor)
              else Inr ()) (\<lambda>_.
          case blocks of
            [] \<Rightarrow> Inl (BadPlan ''apply must start at fork_height+1'')
          | b # _ \<Rightarrow>
              if sb_height b \<noteq> fork_height + 1 then Inl (BadPlan ''apply must start at fork_height+1'')
              else check_heights (fork_height + 1) blocks))"

definition old_hashes_of :: "(u64 \<Rightarrow> bytes option) \<Rightarrow> u64 list \<Rightarrow> (u64 \<times> bytes) list" where
  "old_hashes_of header_raw rollback =
     List.map_filter (\<lambda>h. map_option (\<lambda>hdr. (h, header_hash hdr)) (header_raw h)) rollback"

section \<open>Headers known to be bad\<close>

fun insert_invalid :: "(bytes \<times> InvalidReason) list \<Rightarrow> Database \<Rightarrow> Database" where
  "insert_invalid [] db = db"
| "insert_invalid ((hash, r) # rest) db =
     (let m = db_meta db; fresh = (db_invalid db hash = None);
          db = db\<lparr>db_invalid := (db_invalid db)(hash \<mapsto> reason_code r)\<rparr>
      in insert_invalid rest
           (if fresh then db\<lparr>db_invalid_seq := db_invalid_seq db @ [(me_invalid_next_seq m, hash)],
                             db_meta := m\<lparr>me_invalid_next_seq := me_invalid_next_seq m + 1, me_invalid_rows := me_invalid_rows m + 1\<rparr>\<rparr>
            else db))"

fun evict_invalid :: "u64 \<Rightarrow> (u64 \<times> bytes) list \<Rightarrow> Database \<Rightarrow> Database" where
  "evict_invalid cap [] db = db\<lparr>db_invalid_seq := []\<rparr>"
| "evict_invalid cap ((k, h) # sq) db =
     (if cap < me_invalid_rows (db_meta db)
      then evict_invalid cap sq
        (if db_invalid db h \<noteq> None
         then db\<lparr>db_invalid := (db_invalid db)(h := None),
                 db_meta := (db_meta db)\<lparr>me_invalid_rows := me_invalid_rows (db_meta db) - 1\<rparr>\<rparr> else db)
      else db\<lparr>db_invalid_seq := (k, h) # sq\<rparr>)"

definition mark_invalid_batch :: "u64 \<Rightarrow> (bytes \<times> InvalidReason) list \<Rightarrow> Database \<Rightarrow> Database" where
  "mark_invalid_batch cap rs db = (let db = insert_invalid rs db in evict_invalid cap (db_invalid_seq db) db)"

definition clear_invalid_all :: "Database \<Rightarrow> Database" where
  "clear_invalid_all db = db\<lparr>db_invalid := (\<lambda>_. None), db_invalid_seq := [], db_meta := (db_meta db)\<lparr>me_invalid_rows := 0\<rparr>\<rparr>"

section \<open>Lookups\<close>

definition store_account :: "Database \<Rightarrow> bytes \<Rightarrow> StoredAccount" where
  "store_account db addr = (case map_of (db_state db) addr of Some v \<Rightarrow> decode_account v | None \<Rightarrow> \<lparr>sa_balance = 0, sa_nonce = 0\<rparr>)"

definition store_undo_at :: "Database \<Rightarrow> u64 \<Rightarrow> StoredUndo list option" where
  "store_undo_at db h = (case db_undo db h of None \<Rightarrow> None | Some v \<Rightarrow> map_option fst (decode_undo v))"

definition store_is_invalid :: "Database \<Rightarrow> bytes \<Rightarrow> bool" where
  "store_is_invalid db hash \<longleftrightarrow> db_invalid db hash \<noteq> None"

definition store_invalid_reason :: "Database \<Rightarrow> bytes \<Rightarrow> InvalidReason option" where
  "store_invalid_reason db hash = map_option reason_from_code (db_invalid db hash)"

definition txindex_lookup :: "Database \<Rightarrow> bytes \<Rightarrow> TxLocation" where
  "txindex_lookup db tx_id =
     (case me_txindex_from (db_meta db) of
        None \<Rightarrow> NotIndexed (- 1)
      | Some start \<Rightarrow>
          (case db_txindex db (txid_key tx_id) of
             None \<Rightarrow> LocAbsent
           | Some v \<Rightarrow> (case decode_txloc v of (height, index) \<Rightarrow>
               if height < start then NotIndexed start else LocFound height index)))"

definition header_by_hash :: "(u64 \<Rightarrow> bytes option) \<Rightarrow> u32 \<Rightarrow> Database \<Rightarrow> bytes \<Rightarrow> (u64 \<times> bytes) option" where
  "header_by_hash header_at prefix_bytes db hash =
     (let confirm = (\<lambda>r. case r of None \<Rightarrow> None
            | Some height \<Rightarrow> (case header_at height of None \<Rightarrow> None
                | Some hdr \<Rightarrow> if header_hash hdr = hash then Some (height, hdr) else None))
      in case confirm (db_hash_index db (hash_prefix_n hash prefix_bytes)) of
           Some r \<Rightarrow> Some r
         | None \<Rightarrow> if 0 < me_hash_index_full_rows (db_meta db) then confirm (db_hash_index_full db hash) else None)"

definition verify_state_fingerprint :: "Database \<Rightarrow> StoreError + unit" where
  "verify_state_fingerprint db =
     (let fp = fold (\<lambda>(k, v) fp. fp_xor fp (row_digest k (decode_account v))) (db_state db) (replicate 32 0);
          stored = me_fingerprint (db_meta db)
      in if fp = stored then Inr () else Inl (StateFingerprint stored fp))"

definition verify_emission :: "Database \<Rightarrow> StoreError + unit" where
  "verify_emission db =
     (let m = db_meta db in
      if me_hdr_watermark m = 0 then Inr ()
      else let formula = issued_through (stp_height (me_tip m)) in
        if formula = me_issued m then Inr () else Inl (EmissionMismatch (me_issued m) formula))"

end
