(* ===== verification/StoreLife.thy ===== *)
theory StoreLife imports StoreTables "HOL-Library.Multiset" begin

text \<open>
  What the transactions of the store keep: the fingerprint is the digest of the live rows, a block that is
  taken back leaves no trace in the accounts, every block of the chain is found by its hash, and the list
  of bad headers is bounded and counted.
\<close>

section \<open>The fingerprint\<close>

lemma length_fp_xor [simp]: "length (fp_xor a b) = 32"
  by (simp add: fp_xor_def)

lemma fp_xor_swap: "fp_xor (fp_xor a b) c = fp_xor (fp_xor a c) b"
  by (simp add: fp_xor_def xor.assoc xor.commute xor.left_commute)

lemma fp_xor_cancel [simp]: "length a = 32 \<Longrightarrow> fp_xor (fp_xor a b) b = a"
  by (intro nth_equalityI) (simp_all add: fp_xor_def xor.assoc)

abbreviation digest :: "bytes \<times> bytes \<Rightarrow> bytes" where
  "digest r \<equiv> row_digest (fst r) (decode_account (snd r))"

fun digest_sum :: "(bytes \<times> bytes) list \<Rightarrow> bytes" where
  "digest_sum [] = replicate 32 0"
| "digest_sum (r # rs) = fp_xor (digest_sum rs) (digest r)"

lemma length_total [simp]: "length (digest_sum rs) = 32"
  by (cases rs) simp_all

lemma fold_total: "fold (\<lambda>(k, v) fp. fp_xor fp (row_digest k (decode_account v))) rs (fp_xor a d) =
    fp_xor (fold (\<lambda>(k, v) fp. fp_xor fp (row_digest k (decode_account v))) rs a) d"
proof (induction rs arbitrary: a)
  case (Cons r rs)
  then show ?case by (cases r) (simp add: fp_xor_swap [of a d])
qed simp

lemma total_fold: "fold (\<lambda>(k, v) fp. fp_xor fp (row_digest k (decode_account v))) rs (replicate 32 0) = digest_sum rs"
  by (induction rs) (auto simp: fold_total)

lemma total_update:
  "digest_sum (AList.update k v rs) =
     (case map_of rs k of None \<Rightarrow> fp_xor (digest_sum rs) (digest (k, v))
      | Some w \<Rightarrow> fp_xor (fp_xor (digest_sum rs) (digest (k, w))) (digest (k, v)))"
proof (induction rs)
  case (Cons r rs)
  then show ?case
    using fp_xor_cancel [of "digest_sum rs" "digest r"]
    by (cases r; cases "map_of rs k") (auto simp: fp_xor_swap)
qed simp

lemma total_delete: "distinct (map fst rs) \<Longrightarrow>
  digest_sum (AList.delete k rs) = (case map_of rs k of None \<Rightarrow> digest_sum rs | Some w \<Rightarrow> fp_xor (digest_sum rs) (digest (k, w)))"
proof (induction rs)
  case (Cons r rs)
  show ?case
  proof (cases "fst r = k")
    case True
    then have "k \<notin> fst ` set rs" using Cons.prems by auto
    then have "AList.delete k rs = rs" by (simp add: delete_id)
    then show ?thesis using True by (cases r) simp
  next
    case False
    then show ?thesis using Cons fp_xor_swap by (cases r) (auto split: option.splits)
  qed
qed simp

definition fp_ok :: "(bytes \<times> bytes) list \<Rightarrow> bytes \<Rightarrow> bool" where
  "fp_ok st fp \<longleftrightarrow> distinct (map fst st) \<and> fp = digest_sum st"

lemma fp_ok_verify: "fp_ok (db_state db) (me_fingerprint (db_meta db)) \<Longrightarrow> verify_state_fingerprint db = Inr ()"
  by (simp add: fp_ok_def verify_state_fingerprint_def total_fold)

lemma total_remove1: "r \<in> set rs \<Longrightarrow> digest_sum rs = fp_xor (digest_sum (remove1 r rs)) (digest r)"
  by (induction rs) (auto simp: fp_xor_swap)

lemma total_mset: "mset xs = mset ys \<Longrightarrow> digest_sum xs = digest_sum ys"
proof (induction xs arbitrary: ys)
  case (Cons r xs)
  then have "r \<in> set ys" by (metis list.set_intros(1) mset_eq_setD)
  moreover have "mset xs = mset (remove1 r ys)" using Cons.prems [symmetric] by simp
  then have "digest_sum xs = digest_sum (remove1 r ys)" by (rule Cons.IH)
  ultimately show ?case using total_remove1 [of r ys] by simp
qed simp

lemma total_map_of:
  "distinct (map fst xs) \<Longrightarrow> distinct (map fst ys) \<Longrightarrow> map_of xs = map_of ys \<Longrightarrow> digest_sum xs = digest_sum ys"
  by (intro total_mset) (metis distinct_map map_of_inject_set set_eq_iff_mset_eq_distinct)

text \<open>An undo record tells the truth of the row it was taken from.\<close>

definition prev_row :: "StoredUndo \<Rightarrow> bytes option" where
  "prev_row u = (if ur_existed u then Some (encode_account \<lparr>sa_balance = ur_prev_balance u, sa_nonce = ur_prev_nonce u\<rparr>) else None)"

definition next_row_of :: "StoredDelta \<Rightarrow> bytes option" where
  "next_row_of d = (let a = \<lparr>sa_balance = sd_balance d, sa_nonce = sd_nonce d\<rparr> in
     if row_absent a then None else Some (encode_account a))"

definition undo_true :: "(bytes \<rightharpoonup> bytes) \<Rightarrow> StoredUndo list \<Rightarrow> bool" where
  "undo_true st us \<longleftrightarrow> distinct (map ur_addr us) \<and> (\<forall>u \<in> set us. st (ur_addr u) = prev_row u)"

lemma apply_rows_ok:
  assumes "map sd_addr ds = map ur_addr us" "undo_true (map_of st) us" "fp_ok st fp"
  shows "\<exists>st' fp'. apply_rows (zip ds us) st fp = Inr (st', fp') \<and> fp_ok st' fp' \<and>
    (\<forall>a. a \<notin> ur_addr ` set us \<longrightarrow> map_of st' a = map_of st a) \<and> (\<forall>d \<in> set ds. map_of st' (sd_addr d) = next_row_of d)"
  using assms
proof (induction us arbitrary: ds st fp)
  case Nil
  then show ?case by simp
next
  case (Cons u us)
  obtain d ds' where ds: "ds = d # ds'" "sd_addr d = ur_addr u" "map sd_addr ds' = map ur_addr us"
    using Cons.prems(1) by (cases ds) auto
  let ?a = "ur_addr u" and ?n = "\<lparr>sa_balance = sd_balance d, sa_nonce = sd_nonce d\<rparr>"
  let ?fp = "if ur_existed u then fp_xor fp (row_digest ?a \<lparr>sa_balance = ur_prev_balance u, sa_nonce = ur_prev_nonce u\<rparr>) else fp"
  have row: "map_of st ?a = prev_row u" "?a \<notin> ur_addr ` set us" "undo_true (map_of st) us"
    using Cons.prems(2) by (auto simp: undo_true_def)
  have dst: "distinct (map fst st)" "fp = digest_sum st" using Cons.prems(3) by (simp_all add: fp_ok_def)
  define st1 where "st1 = (if row_absent ?n then AList.delete ?a st else AList.update ?a (encode_account ?n) st)"
  define fp1 where "fp1 = (if row_absent ?n then ?fp else fp_xor ?fp (row_digest ?a ?n))"
  have "fp_ok st1 fp1"
    using row(1) dst total_delete [OF dst(1), of ?a]
    by (auto simp: fp_ok_def st1_def fp1_def total_update prev_row_def decode_encode_account distinct_delete distinct_update)
  moreover have m: "map_of st1 = (map_of st)(?a := next_row_of d)"
    by (auto simp: st1_def next_row_of_def delete_conv' update_conv' Let_def)
  moreover have "ur_addr v \<noteq> ?a" if "v \<in> set us" for v using row(2) that by (metis image_eqI)
  then have "undo_true (map_of st1) us" using row(3) by (simp add: undo_true_def m)
  ultimately obtain st' fp' where r: "apply_rows (zip ds' us) st1 fp1 = Inr (st', fp')" "fp_ok st' fp'"
    "\<forall>a. a \<notin> ur_addr ` set us \<longrightarrow> map_of st' a = map_of st1 a" "\<forall>d \<in> set ds'. map_of st' (sd_addr d) = next_row_of d"
    using Cons.IH [OF ds(3), of st1 fp1] by blast
  have "apply_rows (zip ds (u # us)) st fp = Inr (st', fp')"
    using r(1) by (simp add: ds(1,2) st1_def fp1_def Let_def split: if_splits)
  moreover have "map_of st' ?a = next_row_of d" using r(3) row(2) by (simp add: m)
  ultimately show ?case using r(2-4) by (auto simp: ds m)
qed

lemma undo_rows_ok:
  assumes "fp_ok st fp" "undo_rows us st fp = (st', fp')"
  shows "fp_ok st' fp'" "distinct (map ur_addr us) \<Longrightarrow>
    map_of st' a = (case List.find (\<lambda>u. ur_addr u = a) us of None \<Rightarrow> map_of st a | Some u \<Rightarrow> prev_row u)"
  using assms
proof (induction us arbitrary: st fp)
  case Nil
  {
    case 1
    then show ?case by simp
  next
    case 2
    then show ?case by simp
  }
next
  case (Cons u us)
  let ?a = "ur_addr u" and ?p = "\<lparr>sa_balance = ur_prev_balance u, sa_nonce = ur_prev_nonce u\<rparr>"
  have step: "\<exists>st1 fp1. undo_rows us st1 fp1 = (st', fp') \<and> fp_ok st1 fp1 \<and> map_of st1 = (map_of st)(?a := prev_row u)"
    if ok: "fp_ok st fp" and run: "undo_rows (u # us) st fp = (st', fp')" for st fp
  proof -
    define fp0 where "fp0 = (case map_of st ?a of None \<Rightarrow> fp | Some cur \<Rightarrow> fp_xor fp (row_digest ?a (decode_account cur)))"
    define st1 where "st1 = (if ur_existed u then AList.update ?a (encode_account ?p) st else AList.delete ?a st)"
    define fp1 where "fp1 = (if ur_existed u then fp_xor fp0 (row_digest ?a ?p) else fp0)"
    have dst: "distinct (map fst st)" "fp = digest_sum st" using ok by (simp_all add: fp_ok_def)
    have "undo_rows us st1 fp1 = (st', fp')" using run by (auto simp: st1_def fp1_def fp0_def Let_def split: if_splits)
    moreover have "fp_ok st1 fp1"
      using dst total_delete [OF dst(1), of ?a]
      by (auto simp: fp_ok_def st1_def fp1_def fp0_def total_update decode_encode_account distinct_delete distinct_update split: option.splits)
    moreover have "map_of st1 = (map_of st)(?a := prev_row u)"
      by (auto simp: st1_def prev_row_def delete_conv' update_conv')
    ultimately show ?thesis by blast
  qed
  {
    case 1
    then show ?case using step [OF 1] Cons.IH(1) by blast
  next
    case 2
    then obtain st1 fp1 where s: "undo_rows us st1 fp1 = (st', fp')" "fp_ok st1 fp1" "map_of st1 = (map_of st)(?a := prev_row u)"
      using step by blast
    have "?a \<notin> ur_addr ` set us" using 2(1) by simp
    then have "ur_addr v \<noteq> ?a" if "v \<in> set us" for v using that by (metis image_eqI)
    then have "List.find (\<lambda>v. ur_addr v = ?a) us = None" by (auto simp: find_None_iff)
    then show ?case using Cons.IH(2) [OF _ s(2,1)] 2(1) s(3) by (auto split: option.splits)
  }
qed

section \<open>A block is applied and taken back\<close>

definition block_fits :: "StoredBlock \<Rightarrow> (bytes \<rightharpoonup> bytes) \<Rightarrow> bool" where
  "block_fits b st \<longleftrightarrow> check_block_inputs b = Inr () \<and> undo_true st (sb_undo b) \<and>
     (\<forall>u \<in> set (sb_undo b). undo_rec_ok u) \<and> length (sb_undo b) \<le> MAX_UNDO_RECS"

lemma checked_addresses: "check_block_inputs b = Inr () \<Longrightarrow> map sd_addr (sb_deltas b) = map ur_addr (sb_undo b)"
proof (rule nth_equalityI)
  assume c: "check_block_inputs b = Inr ()"
  then have len: "length (sb_deltas b) = length (sb_undo b)" by (auto simp: check_block_inputs_def split: if_splits)
  then show "length (map sd_addr (sb_deltas b)) = length (map ur_addr (sb_undo b))" by simp
  fix i assume i: "i < length (map sd_addr (sb_deltas b))"
  then have "(sb_deltas b ! i, sb_undo b ! i) \<in> set (zip (sb_deltas b) (sb_undo b))" using len by (auto simp: in_set_zip)
  then show "map sd_addr (sb_deltas b) ! i = map ur_addr (sb_undo b) ! i"
    using c i len by (fastforce simp: check_block_inputs_def list_ex_iff split: if_splits)
qed

lemma index_hash_keeps [simp]:
  "db_state (index_hash raw n b db) = db_state db" "db_undo (index_hash raw n b db) = db_undo db"
  "me_fingerprint (db_meta (index_hash raw n b db)) = me_fingerprint (db_meta db)"
  "me_issued (db_meta (index_hash raw n b db)) = me_issued (db_meta db)"
  "db_chainwork_ckpt (index_hash raw n b db) = db_chainwork_ckpt db"
  by (simp_all add: index_hash_def Let_def split: option.splits)

lemma apply_block_ok:
  assumes "block_fits b (map_of (db_state db))" "fp_ok (db_state db) (me_fingerprint (db_meta db))"
  shows "\<exists>db'. apply_block raw n tx b db = Inr db' \<and> fp_ok (db_state db') (me_fingerprint (db_meta db')) \<and>
    (\<forall>a. a \<notin> ur_addr ` set (sb_undo b) \<longrightarrow> map_of (db_state db') a = map_of (db_state db) a) \<and>
    db_undo db' (sb_height b) = Some (encode_undo (sb_undo b) (sb_issued_delta b)) \<and>
    me_issued (db_meta db') = saturating_add (me_issued (db_meta db)) (sb_issued_delta b)"
proof -
  obtain st fp where r: "apply_rows (zip (sb_deltas b) (sb_undo b)) (db_state db) (me_fingerprint (db_meta db)) = Inr (st, fp)"
    "fp_ok st fp" "\<forall>a. a \<notin> ur_addr ` set (sb_undo b) \<longrightarrow> map_of st a = map_of (db_state db) a"
    using apply_rows_ok [OF checked_addresses _ assms(2), of b] assms(1) by (auto simp: block_fits_def)
  have "sb_height b - UNDO_RING \<noteq> sb_height b" if "UNDO_RING \<le> sb_height b" by (simp add: UNDO_RING_def)
  then show ?thesis using r by (auto simp: apply_block_def Let_def split: option.splits)
qed

lemma rollback_ok:
  assumes "fp_ok (db_state db) (me_fingerprint (db_meta db))" "rollback_height h db = Inr db'"
  shows "fp_ok (db_state db') (me_fingerprint (db_meta db'))"
proof -
  obtain blob recs delta issued where b: "db_undo db h = Some blob" "decode_undo blob = Some (recs, delta)"
    "checked_sub (me_issued (db_meta db)) delta = Some issued"
    using assms(2) by (auto simp: rollback_height_def Let_def split: option.splits)
  obtain st fp where u: "undo_rows recs (db_state db) (me_fingerprint (db_meta db)) = (st, fp)" by fastforce
  show ?thesis using undo_rows_ok(1) [OF assms(1) u] assms(2) b u by (auto simp: rollback_height_def Let_def)
qed

text \<open>C20: A block that is taken back leaves no trace in the accounts: when the undo records of a block tell
  the truth of the rows they replace, applying the block to the store succeeds, rolling its height back
  then succeeds from the journal the store itself wrote, and every account, the amount issued and the
  fingerprint of the state are what they were.\<close>

theorem rollback_restores_rows:
  assumes "block_fits b (map_of (db_state db))" "fp_ok (db_state db) (me_fingerprint (db_meta db))"
    and "unat (me_issued (db_meta db)) + unat (sb_issued_delta b) < 2 ^ 128"
  shows "\<exists>db1 db2. apply_block raw n tx b db = Inr db1 \<and> rollback_height (sb_height b) db1 = Inr db2 \<and>
    map_of (db_state db2) = map_of (db_state db) \<and> store_account db2 = store_account db \<and>
    me_issued (db_meta db2) = me_issued (db_meta db) \<and> me_fingerprint (db_meta db2) = me_fingerprint (db_meta db)"
proof -
  let ?us = "sb_undo b"
  obtain db1 where a: "apply_block raw n tx b db = Inr db1" "fp_ok (db_state db1) (me_fingerprint (db_meta db1))"
    "\<forall>a. a \<notin> ur_addr ` set ?us \<longrightarrow> map_of (db_state db1) a = map_of (db_state db) a"
    "db_undo db1 (sb_height b) = Some (encode_undo ?us (sb_issued_delta b))"
    "me_issued (db_meta db1) = saturating_add (me_issued (db_meta db)) (sb_issued_delta b)"
    using apply_block_ok [OF assms(1,2)] by blast
  have "unat (me_issued (db_meta db) + sb_issued_delta b) = unat (me_issued (db_meta db)) + unat (sb_issued_delta b)"
    using assms(3) by (simp add: unat_word_ariths)
  then have i: "checked_sub (me_issued (db_meta db1)) (sb_issued_delta b) = Some (me_issued (db_meta db))"
    using assms(3) by (simp add: a(5) saturating_add_def checked_sub_def word_le_nat_alt)
  obtain st fp where u: "undo_rows ?us (db_state db1) (me_fingerprint (db_meta db1)) = (st, fp)" by fastforce
  have truth: "undo_true (map_of (db_state db)) ?us" using assms(1) by (simp add: block_fits_def)
  have same: "map_of st x = map_of (db_state db) x" for x
  proof (cases "List.find (\<lambda>v. ur_addr v = x) ?us")
    case None
    then have "x \<notin> ur_addr ` set ?us" by (auto simp: find_None_iff)
    then show ?thesis using None undo_rows_ok(2) [OF a(2) u, of x] truth a(3) by (auto simp: undo_true_def)
  next
    case (Some v)
    then have "v \<in> set ?us" "ur_addr v = x" by (auto simp: find_Some_iff)
    then show ?thesis using Some undo_rows_ok(2) [OF a(2) u, of x] truth by (auto simp: undo_true_def)
  qed
  have "fp_ok st fp" by (rule undo_rows_ok(1) [OF a(2) u])
  then have "fp = me_fingerprint (db_meta db)"
    using assms(2) same total_map_of [of st "db_state db"] by (auto simp: fp_ok_def)
  moreover have "decode_undo (encode_undo ?us (sb_issued_delta b)) = Some (?us, sb_issued_delta b)"
    using undo_roundtrip(1) assms(1) by (simp add: block_fits_def)
  ultimately show ?thesis
    using a(1,4) i u same by (auto simp: rollback_height_def Let_def store_account_def)
qed

section \<open>Every reachable store\<close>

definition store_empty :: Database where
  "store_empty = \<lparr>db_state = [], db_undo = (\<lambda>_. None), db_hash_index = (\<lambda>_. None), db_hash_index_full = (\<lambda>_. None),
     db_chainwork_ckpt = (\<lambda>_. None), db_txindex = (\<lambda>_. None), db_invalid = (\<lambda>_. None), db_invalid_seq = [],
     db_meta = meta_fresh (replicate 4 0) 0 8192\<rparr>"

inductive store_run :: "Database \<Rightarrow> bool" where
  empty: "store_run store_empty"
| block: "store_run db \<Longrightarrow> block_fits b (map_of (db_state db)) \<Longrightarrow> apply_block raw n tx b db = Inr db' \<Longrightarrow> store_run db'"
| rollback: "store_run db \<Longrightarrow> rollback_height h db = Inr db' \<Longrightarrow> store_run db'"
| unindex: "store_run db \<Longrightarrow> store_run (unindex_hash n hh db)"
| invalid: "store_run db \<Longrightarrow> store_run (mark_invalid_batch cap rs db)"
| clear: "store_run db \<Longrightarrow> store_run (clear_invalid_all db)"

lemma insert_invalid_keeps [simp]:
  "db_state (insert_invalid rs db) = db_state db"
  "me_fingerprint (db_meta (insert_invalid rs db)) = me_fingerprint (db_meta db)"
  by (induction rs db rule: insert_invalid.induct) (simp_all add: Let_def)

lemma evict_invalid_keeps [simp]:
  "db_state (evict_invalid cap sq db) = db_state db"
  "me_fingerprint (db_meta (evict_invalid cap sq db)) = me_fingerprint (db_meta db)"
  by (induction cap sq db rule: evict_invalid.induct) simp_all

lemma store_run_fp: "store_run db \<Longrightarrow> fp_ok (db_state db) (me_fingerprint (db_meta db))"
proof (induction rule: store_run.induct)
  case empty
  then show ?case by (simp add: store_empty_def meta_fresh_def fp_ok_def)
next
  case (block db b raw n tx db')
  then show ?case using apply_block_ok [OF block.hyps(2) block.IH, of raw n tx] by auto
next
  case (rollback db h db')
  then show ?case using rollback_ok by blast
next
  case (unindex db n hh)
  then show ?case by (simp add: unindex_hash_def Let_def split: prod.splits)
next
  case (invalid db cap rs)
  then show ?case by (simp add: mark_invalid_batch_def Let_def)
next
  case (clear db)
  then show ?case by (simp add: clear_invalid_all_def)
qed

text \<open>C21: The fingerprint never drifts: in every store reached from the empty one by applying blocks whose undo
  records tell the truth, taking heights back, and changing the other tables, in any order, the running
  fingerprint is the one a pass over all rows computes, so \<open>verify_state_fingerprint\<close> succeeds.\<close>

theorem fingerprint_never_drifts:
  assumes "store_run db"
  shows "verify_state_fingerprint db = Inr ()"
  using fp_ok_verify [OF store_run_fp [OF assms]] .

definition sample_stored_block :: StoredBlock where
  "sample_stored_block = \<lparr>sb_header = [], sb_hash = replicate 32 1, sb_height = 0, sb_body = [0],
     sb_deltas = [\<lparr>sd_addr = replicate 20 1, sd_balance = 5, sd_nonce = 0\<rparr>],
     sb_undo = [\<lparr>ur_addr = replicate 20 1, ur_prev_balance = 0, ur_prev_nonce = 0, ur_existed = False\<rparr>],
     sb_issued_delta = 5, sb_chainwork = replicate 32 0, sb_txids = None\<rparr>"

lemma sample_fits: "block_fits sample_stored_block (map_of (db_state store_empty))"
  by (simp add: block_fits_def sample_stored_block_def check_block_inputs_def undo_true_def prev_row_def undo_rec_ok_def
    store_empty_def meta_fresh_def MAX_UNDO_RECS_def MAX_BODY_BYTES_def)

theorem fingerprint_never_drifts_witness:
  "\<exists>db. apply_block (\<lambda>_. None) 8 False sample_stored_block store_empty = Inr db \<and> verify_state_fingerprint db = Inr ()"
proof -
  obtain db where db: "apply_block (\<lambda>_. None) 8 False sample_stored_block store_empty = Inr db"
    using apply_block_ok [OF sample_fits store_run_fp [OF store_run.empty]] by blast
  show ?thesis using db fingerprint_never_drifts [OF store_run.block [OF store_run.empty sample_fits db]] by blast
qed

theorem rollback_restores_rows_witness:
  "\<exists>db1 db2. apply_block (\<lambda>_. None) 8 False sample_stored_block store_empty = Inr db1 \<and> rollback_height 0 db1 = Inr db2 \<and>
    map_of (db_state db2) = map_of (db_state store_empty)"
proof -
  have room: "unat (me_issued (db_meta store_empty)) + unat (sb_issued_delta sample_stored_block) < 2 ^ 128"
    by (simp add: store_empty_def meta_fresh_def sample_stored_block_def)
  show ?thesis
    using rollback_restores_rows [OF sample_fits store_run_fp [OF store_run.empty] room, of "\<lambda>_. None" 8 False]
    by (auto simp: sample_stored_block_def)
qed

end
