(* ===== verification/StoreIndex.thy ===== *)
theory StoreIndex imports StoreLife begin

text \<open>
  The index of hashes: a short index keyed by a prefix of the hash and an overflow for the prefixes that
  clash. Every block of the chain is found by its hash, through appends and reorganisations.
\<close>

section \<open>The index and the chain\<close>

definition index_part :: "Database \<Rightarrow> (u64 \<rightharpoonup> u64) \<times> (bytes \<rightharpoonup> u64) \<times> u64" where
  "index_part db = (db_hash_index db, db_hash_index_full db, me_hash_index_full_rows (db_meta db))"

definition indexed :: "u32 \<Rightarrow> Database \<Rightarrow> u64 \<Rightarrow> bytes \<Rightarrow> bool" where
  "indexed n db h hash \<longleftrightarrow> db_hash_index db (hash_prefix_n hash n) = Some h \<or> db_hash_index_full db hash = Some h"

definition full_ok :: "bytes set \<Rightarrow> Database \<Rightarrow> bool" where
  "full_ok H db \<longleftrightarrow> dom (db_hash_index_full db) \<subseteq> H \<and>
     unat (me_hash_index_full_rows (db_meta db)) = card (dom (db_hash_index_full db))"

definition index_inv :: "u32 \<Rightarrow> bytes list \<Rightarrow> Database \<Rightarrow> bool" where
  "index_inv n chain db \<longleftrightarrow> full_ok (header_hash ` set chain) db \<and>
     (\<forall>i < length chain. indexed n db (word_of_nat i) (header_hash (chain ! i)))"

lemma unat_of_small64: "n < 2 ^ 64 \<Longrightarrow> unat (word_of_nat n :: u64) = n"
  by (simp add: unsigned_of_nat take_bit_nat_eq_self)

lemma heights_differ: "i \<noteq> j \<Longrightarrow> i < 2 ^ 64 \<Longrightarrow> j < 2 ^ 64 \<Longrightarrow> (word_of_nat i :: u64) \<noteq> word_of_nat j"
  by (metis unat_of_small64)

lemma index_inv_part: "index_part db = index_part db' \<Longrightarrow> index_inv n chain db = index_inv n chain db'"
  by (simp add: index_part_def index_inv_def full_ok_def indexed_def)

lemma index_hash_part: "index_part db = index_part db' \<Longrightarrow> index_part (index_hash raw n b db) = index_part (index_hash raw n b db')"
  by (auto simp: index_part_def index_hash_def Let_def split: option.splits)

lemma index_hash_new: "indexed n (index_hash raw n b db) (sb_height b) (sb_hash b)"
  by (simp add: indexed_def index_hash_def Let_def split: option.splits)

lemma index_hash_old:
  assumes "indexed n db h hash" "raw h = Some hdr" "header_hash hdr = hash" "hash \<noteq> sb_hash b" "h \<noteq> sb_height b"
  shows "indexed n (index_hash raw n b db) h hash"
proof (cases "hash_prefix_n hash n = hash_prefix_n (sb_hash b) n")
  case True
  then show ?thesis using assms by (auto simp: indexed_def index_hash_def Let_def split: option.splits)
next
  case False
  then show ?thesis using assms by (auto simp: indexed_def index_hash_def Let_def split: option.splits)
qed

lemma index_hash_full:
  assumes "full_ok H db" "finite H" "card H < 2 ^ 64 - 1"
  shows "full_ok (insert (sb_hash b) H) (index_hash raw n b db)"
proof -
  let ?F = "db_hash_index_full db"
  have fin: "finite (dom ?F)" "card (dom ?F) < 2 ^ 64 - 1"
    using assms finite_subset card_mono [OF assms(2), of "dom ?F"] by (auto simp: full_ok_def)
  have "card (insert (sb_hash b) (dom ?F)) = (if sb_hash b \<in> dom ?F then card (dom ?F) else card (dom ?F) + 1)"
    using fin(1) by (simp add: insert_absorb)
  then have "?F (sb_hash b) = None \<Longrightarrow> unat (me_hash_index_full_rows (db_meta db) + 1) = card (insert (sb_hash b) (dom ?F))"
    "?F (sb_hash b) \<noteq> None \<Longrightarrow> card (insert (sb_hash b) (dom ?F)) = card (dom ?F)"
    using assms(1) fin(2) by (auto simp: full_ok_def unat_word_ariths domIff)
  then show ?thesis using assms(1) by (auto simp: full_ok_def index_hash_def Let_def split: option.splits)
qed

lemma unindex_ok:
  assumes "full_ok H db" "finite H"
  shows "full_ok (H - {hash0}) (unindex_hash n (h0, hash0) db)"
    "indexed n db h hash \<Longrightarrow> h \<noteq> h0 \<Longrightarrow> hash \<noteq> hash0 \<Longrightarrow> indexed n (unindex_hash n (h0, hash0) db) h hash"
proof -
  let ?F = "db_hash_index_full db"
  have fin: "finite (dom ?F)" using assms finite_subset by (auto simp: full_ok_def)
  show "indexed n db h hash \<Longrightarrow> h \<noteq> h0 \<Longrightarrow> hash \<noteq> hash0 \<Longrightarrow> indexed n (unindex_hash n (h0, hash0) db) h hash"
    by (auto simp: indexed_def unindex_hash_def Let_def)
  show "full_ok (H - {hash0}) (unindex_hash n (h0, hash0) db)"
  proof (cases "?F hash0")
    case None
    then show ?thesis using assms(1) by (auto simp: full_ok_def unindex_hash_def Let_def)
  next
    case (Some x)
    then have "hash0 \<in> dom ?F" by blast
    then have "0 < card (dom ?F)" using fin card_gt_0_iff by blast
    then have pos: "0 < unat (me_hash_index_full_rows (db_meta db))" using assms(1) by (simp add: full_ok_def)
    then have "me_hash_index_full_rows (db_meta db) \<noteq> 0" by auto
    then have "unat (me_hash_index_full_rows (db_meta db) - 1) = card (dom ?F - {hash0})"
      using assms(1) \<open>hash0 \<in> dom ?F\<close> fin by (simp add: full_ok_def unat_minus_one)
    moreover have "0 < me_hash_index_full_rows (db_meta db)" using pos by (simp add: word_less_nat_alt)
    ultimately show ?thesis using assms(1) Some by (auto simp: full_ok_def unindex_hash_def Let_def)
  qed
qed

section \<open>Transactions\<close>

lemma apply_block_part: "apply_block raw n tx b db = Inr db' \<Longrightarrow> index_part db' = index_part (index_hash raw n b db)"
proof -
  assume a: "apply_block raw n tx b db = Inr db'"
  then obtain st fp where r: "apply_rows (zip (sb_deltas b) (sb_undo b)) (db_state db) (me_fingerprint (db_meta db)) = Inr (st, fp)"
    by (cases "apply_rows (zip (sb_deltas b) (sb_undo b)) (db_state db) (me_fingerprint (db_meta db))")
      (auto simp: apply_block_def)
  obtain un where "index_part db' = index_part (index_hash raw n b
      (db\<lparr>db_state := st, db_meta := (db_meta db)\<lparr>me_fingerprint := fp\<rparr>, db_undo := un\<rparr>))"
    using a r by (auto simp: apply_block_def Let_def index_part_def split: option.splits if_splits)
  moreover have "index_part (db\<lparr>db_state := st, db_meta := (db_meta db)\<lparr>me_fingerprint := fp\<rparr>, db_undo := un\<rparr>) = index_part db"
    by (simp add: index_part_def)
  ultimately show ?thesis using index_hash_part by metis
qed

lemma rollback_part: "rollback_height h db = Inr db' \<Longrightarrow> index_part db' = index_part db"
  by (auto simp: rollback_height_def Let_def index_part_def split: option.splits prod.splits)

lemma rollback_all_part: "rollback_all hs db = Inr db' \<Longrightarrow> index_part db' = index_part db"
proof (induction hs arbitrary: db)
  case (Cons h hs)
  then show ?case using rollback_part by (auto simp: and_then_Ok)
qed simp

lemma apply_block_index:
  assumes inv: "index_inv n chain db" and b: "sb_height b = word_of_nat (length chain)" "sb_hash b = header_hash (sb_header b)"
    and raw: "\<forall>i < length chain. raw (word_of_nat i) = Some (chain ! i)" and len: "length chain < 2 ^ 64 - 1"
    and fresh: "header_hash (sb_header b) \<notin> header_hash ` set chain" and a: "apply_block raw n tx b db = Inr db'"
  shows "index_inv n (chain @ [sb_header b]) db'"
proof -
  let ?db = "index_hash raw n b db"
  have "card (header_hash ` set chain) \<le> length chain" by (metis card_image_le card_length finite_set le_trans)
  then have full: "full_ok (header_hash ` set (chain @ [sb_header b])) ?db"
    using index_hash_full [of "header_hash ` set chain" db b raw n] inv len by (simp add: index_inv_def b(2))
  have "indexed n ?db (word_of_nat i) (header_hash ((chain @ [sb_header b]) ! i))" if i: "i < length (chain @ [sb_header b])" for i
  proof (cases "i < length chain")
    case True
    then have h: "(word_of_nat i :: u64) \<noteq> sb_height b" using heights_differ [of i "length chain"] len by (simp add: b(1))
    have "indexed n db (word_of_nat i) (header_hash (chain ! i))" using inv True by (simp add: index_inv_def)
    moreover have "raw (word_of_nat i) = Some (chain ! i)" using raw True by blast
    moreover have "header_hash (chain ! i) \<noteq> sb_hash b" using fresh True b(2) by (metis image_eqI nth_mem)
    ultimately show ?thesis using h True by (simp add: index_hash_old nth_append)
  next
    case False
    then show ?thesis using index_hash_new [of n raw b db] i by (cases "i = length chain") (simp_all add: nth_append b)
  qed
  then have "index_inv n (chain @ [sb_header b]) ?db" using full by (simp add: index_inv_def)
  then show ?thesis using index_inv_part [OF apply_block_part [OF a]] by blast
qed

lemma unindex_all_ok:
  assumes "full_ok H db" "finite H"
  shows "full_ok (H - snd ` set old) (fold (unindex_hash n) old db)"
    "indexed n db h hash \<Longrightarrow> h \<notin> fst ` set old \<Longrightarrow> hash \<notin> snd ` set old \<Longrightarrow> indexed n (fold (unindex_hash n) old db) h hash"
  using assms
proof (induction old arbitrary: db H)
  case (Cons o1 old)
  obtain h0 hash0 where o1: "o1 = (h0, hash0)" by fastforce
  {
    case 1
    have "full_ok (H - {hash0} - snd ` set old) (fold (unindex_hash n) old (unindex_hash n (h0, hash0) db))"
      using Cons.IH(1) unindex_ok(1) [OF 1] 1 by blast
    moreover have "H - {hash0} - snd ` set old = H - snd ` set (o1 # old)" by (auto simp: o1)
    ultimately show ?case by (simp add: o1)
  next
    case 2
    have "indexed n (unindex_hash n (h0, hash0) db) h hash"
      using unindex_ok(2) [OF 2(4,5) 2(1), of h0 hash0] 2(2,3) by (simp add: o1)
    then show ?case using Cons.IH(2) [OF _ _ _ unindex_ok(1) [OF 2(4,5)]] 2(2,3,5) by (simp add: o1)
  }
qed simp_all

lemma apply_all_index:
  assumes "index_inv n chain db" "apply_all raw n tx bs db = Inr db'"
    and "\<forall>i < length bs. sb_height (bs ! i) = word_of_nat (length chain + i) \<and> sb_hash (bs ! i) = header_hash (sb_header (bs ! i))"
    and "\<forall>i < length (chain @ map sb_header bs). raw (word_of_nat i) = Some ((chain @ map sb_header bs) ! i)"
    and "length chain + length bs < 2 ^ 64" "distinct (map header_hash (chain @ map sb_header bs))"
  shows "index_inv n (chain @ map sb_header bs) db'"
  using assms
proof (induction bs arbitrary: chain db)
  case (Cons b bs)
  obtain db1 where a: "apply_block raw n tx b db = Inr db1" "apply_all raw n tx bs db1 = Inr db'"
    using Cons.prems(2) by (auto simp: and_then_Ok)
  have b: "sb_height b = word_of_nat (length chain)" "sb_hash b = header_hash (sb_header b)"
    using Cons.prems(3) by (auto dest: spec [of _ 0])
  have raw: "raw (word_of_nat i) = Some (chain ! i)" if "i < length chain" for i
    using Cons.prems(4) that by (auto simp: nth_append dest: spec [of _ i])
  have "index_inv n (chain @ [sb_header b]) db1"
    by (rule apply_block_index [OF Cons.prems(1) b _ _ _ a(1)]) (use raw Cons.prems(5,6) in auto)
  moreover have "sb_height (bs ! i) = word_of_nat (length (chain @ [sb_header b]) + i) \<and> sb_hash (bs ! i) = header_hash (sb_header (bs ! i))"
    if "i < length bs" for i using Cons.prems(3) that by (auto dest: spec [of _ "Suc i"])
  ultimately show ?case using Cons.IH [of "chain @ [sb_header b]" db1] a(2) Cons.prems(4-6) by simp
qed simp

lemma commit_branch_index:
  assumes inv: "index_inv n (base @ old) db" and c: "commit_branch raw n tx fork rollback hs blocks db = Inr db'"
    and hs: "set hs = {(word_of_nat (length base + i), header_hash (old ! i)) | i. i < length old}"
    and blocks: "\<forall>i < length blocks. sb_height (blocks ! i) = word_of_nat (length base + i) \<and> sb_hash (blocks ! i) = header_hash (sb_header (blocks ! i))"
    and raw: "\<forall>i < length (base @ map sb_header blocks). raw (word_of_nat i) = Some ((base @ map sb_header blocks) ! i)"
    and len: "length base + length old < 2 ^ 64" "length base + length blocks < 2 ^ 64"
    and dst: "distinct (map header_hash (base @ old))" "distinct (map header_hash (base @ map sb_header blocks))"
  shows "index_inv n (base @ map sb_header blocks) db'"
proof -
  obtain db1 m where r: "rollback_all rollback db = Inr db1"
    "apply_all raw n tx blocks ((fold (unindex_hash n) hs db1)\<lparr>db_meta := m\<rparr>) = Inr db'"
    "me_hash_index_full_rows m = me_hash_index_full_rows (db_meta (fold (unindex_hash n) hs db1))"
    using c by (auto simp: commit_branch_def Let_def and_then_Ok)
  let ?db = "fold (unindex_hash n) hs db1"
  have inv1: "index_inv n (base @ old) db1" using index_inv_part [OF rollback_all_part [OF r(1)]] inv by blast
  have snd: "snd ` set hs = header_hash ` set old" by (force simp: hs in_set_conv_nth)
  have "header_hash ` set (base @ old) - snd ` set hs = header_hash ` set base"
    using dst(1) by (auto simp: snd)
  then have full: "full_ok (header_hash ` set base) ?db"
    using unindex_all_ok(1) [of "header_hash ` set (base @ old)" db1 hs n] inv1 by (simp add: index_inv_def)
  have "indexed n ?db (word_of_nat i) (header_hash (base ! i))" if i: "i < length base" for i
  proof (rule unindex_all_ok(2))
    show "indexed n db1 (word_of_nat i) (header_hash (base ! i))" using inv1 i by (auto simp: index_inv_def nth_append dest: spec [of _ i])
    have "(word_of_nat i :: u64) \<noteq> word_of_nat (length base + j)" if "j < length old" for j
      using heights_differ [of i "length base + j"] i that len(1) by (simp del: of_nat_add)
    then show "word_of_nat i \<notin> fst ` set hs" by (fastforce simp: hs simp del: of_nat_add)
    show "header_hash (base ! i) \<notin> snd ` set hs" using dst(1) i unfolding snd by (auto dest!: nth_mem)
    show "full_ok (header_hash ` set (base @ old)) db1" using inv1 by (simp add: index_inv_def)
  qed simp
  then have "index_inv n base ?db" using full by (simp add: index_inv_def)
  then have "index_inv n base (?db\<lparr>db_meta := m\<rparr>)"
    using index_inv_part [of ?db "?db\<lparr>db_meta := m\<rparr>"] r(3) by (simp add: index_part_def)
  from apply_all_index [OF this r(2) blocks raw len(2) dst(2)] show ?thesis .
qed

section \<open>Every block of the chain is found\<close>

text \<open>A store and the chain it holds: \<open>raw\<close> reads the header file, which \<open>commit_block\<close> and \<open>reorg\<close> write before
  the transaction; before a reorganisation it still holds the headers of the old branch.\<close>

abbreviation holds :: "(u64 \<Rightarrow> bytes option) \<Rightarrow> bytes list \<Rightarrow> bool" where
  "holds raw chain \<equiv> \<forall>i < length chain. raw (word_of_nat i) = Some (chain ! i)"

inductive index_run :: "u32 \<Rightarrow> bytes list \<Rightarrow> Database \<Rightarrow> bool" for n where
  empty: "index_run n [] store_empty"
| extend: "index_run n chain db \<Longrightarrow> sb_height b = word_of_nat (length chain) \<Longrightarrow> sb_hash b = header_hash (sb_header b) \<Longrightarrow>
    holds raw chain \<Longrightarrow> length chain + 1 < 2 ^ 64 \<Longrightarrow> distinct (map header_hash (chain @ [sb_header b])) \<Longrightarrow>
    apply_block raw n tx b db = Inr db' \<Longrightarrow> index_run n (chain @ [sb_header b]) db'"
| reorg: "index_run n (base @ old) db \<Longrightarrow> base \<noteq> [] \<Longrightarrow> holds before (base @ old) \<Longrightarrow>
    rollback = map word_of_nat (rev [length base..<length base + length old]) \<Longrightarrow>
    \<forall>i < length blocks. sb_height (blocks ! i) = word_of_nat (length base + i) \<and> sb_hash (blocks ! i) = header_hash (sb_header (blocks ! i)) \<Longrightarrow>
    holds after (base @ map sb_header blocks) \<Longrightarrow> length base + length old < 2 ^ 64 \<Longrightarrow> length base + length blocks < 2 ^ 64 \<Longrightarrow>
    distinct (map header_hash (base @ map sb_header blocks)) \<Longrightarrow>
    commit_branch after n tx (word_of_nat (length base - 1)) rollback (old_hashes_of before rollback) blocks db = Inr db' \<Longrightarrow>
    index_run n (base @ map sb_header blocks) db'"

lemma old_hashes_set:
  assumes "holds before (base @ old)"
  shows "set (old_hashes_of before (map word_of_nat (rev [length base..<length base + length old]))) =
    {(word_of_nat (length base + i), header_hash (old ! i)) | i. i < length old}"
proof -
  have "map_option (\<lambda>hdr. (word_of_nat k :: u64, header_hash hdr)) (before (word_of_nat k)) =
      Some (word_of_nat k, header_hash (old ! (k - length base)))" if "k \<in> set [length base..<length base + length old]" for k
    using assms that by (auto simp: nth_append dest: spec [of _ k])
  then have "set (old_hashes_of before (map word_of_nat (rev [length base..<length base + length old]))) =
      (\<lambda>k. (word_of_nat k, header_hash (old ! (k - length base)))) ` {length base..<length base + length old}"
    by (force simp: old_hashes_of_def map_filter_def image_image)
  also have "\<dots> = {(word_of_nat (length base + i), header_hash (old ! i)) | i. i < length old}"
  proof (rule set_eqI, rule iffI)
    fix x assume "x \<in> (\<lambda>k. (word_of_nat k :: u64, header_hash (old ! (k - length base)))) ` {length base..<length base + length old}"
    then obtain k where k: "length base \<le> k" "k < length base + length old" "x = (word_of_nat k, header_hash (old ! (k - length base)))"
      by auto
    then have "x = (word_of_nat (length base + (k - length base)), header_hash (old ! (k - length base)))" "k - length base < length old" by simp_all
    then show "x \<in> {(word_of_nat (length base + i), header_hash (old ! i)) | i. i < length old}" by blast
  next
    fix x assume "x \<in> {(word_of_nat (length base + i) :: u64, header_hash (old ! i)) | i. i < length old}"
    then obtain i where i: "i < length old" "x = (word_of_nat (length base + i), header_hash (old ! i))" by blast
    then show "x \<in> (\<lambda>k. (word_of_nat k, header_hash (old ! (k - length base)))) ` {length base..<length base + length old}"
      by (intro image_eqI [of _ _ "length base + i"]) simp_all
  qed
  finally show ?thesis .
qed

lemma index_run_inv: "index_run n chain db \<Longrightarrow> index_inv n chain db \<and> distinct (map header_hash chain) \<and> length chain < 2 ^ 64"
proof (induction rule: index_run.induct)
  case empty
  then show ?case by (simp add: index_inv_def full_ok_def store_empty_def meta_fresh_def)
next
  case (extend chain db b raw tx db')
  then have "header_hash (sb_header b) \<notin> header_hash ` set chain" by auto
  then show ?case using apply_block_index [of n chain db b raw tx db'] extend by simp
next
  case (reorg base old db before rollback blocks after tx db')
  have "index_inv n (base @ map sb_header blocks) db'"
    by (rule commit_branch_index [OF _ reorg.hyps(10) _ reorg.hyps(5-8) _ reorg.hyps(9)])
      (use reorg.IH old_hashes_set [OF reorg.hyps(3)] reorg.hyps(4) in simp_all)
  then show ?case using reorg.hyps by simp
qed

definition stored_headers :: "bytes list \<Rightarrow> u64 \<Rightarrow> bytes option" where
  "stored_headers chain h = (if unat h < length chain then Some (chain ! unat h) else None)"

lemma stored_headers_at: "i < length chain \<Longrightarrow> length chain < 2 ^ 64 \<Longrightarrow> stored_headers chain (word_of_nat i) = Some (chain ! i)"
  by (simp add: stored_headers_def unat_of_small64)

lemma stored_headers_unique:
  assumes "distinct (map header_hash chain)" "i < length chain" "stored_headers chain h = Some hdr" "header_hash hdr = header_hash (chain ! i)"
  shows "h = word_of_nat i \<and> hdr = chain ! i"
proof -
  have h: "unat h < length chain" "hdr = chain ! unat h" using assms(3) by (auto simp: stored_headers_def split: if_splits)
  then have "map header_hash chain ! unat h = map header_hash chain ! i" using assms(2,4) by simp
  then have "unat h = i" using nth_eq_iff_index_eq [OF assms(1)] h(1) assms(2) by simp
  then show ?thesis using h(2) by auto
qed

lemma full_ok_rows:
  assumes "full_ok H db" "finite H" "db_hash_index_full db x = Some y"
  shows "0 < me_hash_index_full_rows (db_meta db)"
proof -
  have "finite (dom (db_hash_index_full db))" using assms(1,2) finite_subset by (auto simp: full_ok_def)
  then have "0 < card (dom (db_hash_index_full db))" using assms(3) card_gt_0_iff by blast
  then show ?thesis using assms(1) by (simp add: full_ok_def word_less_nat_alt)
qed

lemma two_probes:
  assumes "\<And>r. c r = None \<or> c r = Some v" "c a = Some v \<or> c b = Some v \<and> p"
  shows "(case c a of Some r \<Rightarrow> Some r | None \<Rightarrow> if p then c b else None) = Some v"
  using assms(1) [of a] assms(2) by auto

text \<open>C22: Every block of the chain is found by its hash: in every store reached from the empty one by appending
  blocks and by reorganisations of any depth, a look-up with the hash of a block of the chain returns its
  height and header, also when the short prefixes of hashes collide, as long as the hashes themselves do
  not.\<close>

theorem hash_index_complete:
  assumes "index_run n chain db" "i < length chain"
  shows "header_by_hash (stored_headers chain) n db (header_hash (chain ! i)) = Some (word_of_nat i, chain ! i)"
proof -
  let ?h = "header_hash (chain ! i)"
  let ?c = "\<lambda>r. case r of None \<Rightarrow> None | Some height \<Rightarrow> (case stored_headers chain height of None \<Rightarrow> None
    | Some hdr \<Rightarrow> if header_hash hdr = ?h then Some (height, hdr) else None)"
  have inv: "index_inv n chain db" "distinct (map header_hash chain)" "length chain < 2 ^ 64"
    using index_run_inv [OF assms(1)] by auto
  have "indexed n db (word_of_nat i) (header_hash (chain ! i))" using inv(1) assms(2) by (simp add: index_inv_def)
  then have idx: "db_hash_index db (hash_prefix_n ?h n) = Some (word_of_nat i) \<or>
      db_hash_index_full db ?h = Some (word_of_nat i) \<and> 0 < me_hash_index_full_rows (db_meta db)"
    using full_ok_rows [of _ db] inv(1) by (auto simp: indexed_def index_inv_def)
  have hit: "?c (Some (word_of_nat i)) = Some (word_of_nat i, chain ! i)"
    by (simp add: stored_headers_at [OF assms(2) inv(3)])
  have "?c r = None \<or> ?c r = Some (word_of_nat i, chain ! i)" for r
    using stored_headers_unique [OF inv(2) assms(2)] by (auto split: option.splits)
  then show ?thesis
    unfolding header_by_hash_def Let_def by (intro two_probes) (use idx hit in auto)
qed

theorem hash_index_complete_witness:
  "\<exists>db. apply_block (\<lambda>_. None) 8 False (sample_stored_block\<lparr>sb_hash := header_hash []\<rparr>) store_empty = Inr db \<and>
    header_by_hash (stored_headers [[]]) 8 db (header_hash []) = Some (0, [])"
proof -
  let ?b = "sample_stored_block\<lparr>sb_hash := header_hash []\<rparr>"
  have "block_fits ?b (map_of (db_state store_empty))"
    by (simp add: block_fits_def sample_stored_block_def check_block_inputs_def undo_true_def prev_row_def undo_rec_ok_def
      store_empty_def meta_fresh_def MAX_UNDO_RECS_def MAX_BODY_BYTES_def)
  then obtain db where db: "apply_block (\<lambda>_. None) 8 False ?b store_empty = Inr db"
    using apply_block_ok [OF _ store_run_fp [OF store_run.empty], of ?b] by blast
  have "index_run 8 ([] @ [sb_header ?b]) db"
    by (rule index_run.extend [OF index_run.empty _ _ _ _ _ db]) (simp_all add: sample_stored_block_def)
  then have "header_by_hash (stored_headers [[]]) 8 db (header_hash ([[]] ! 0)) = Some (word_of_nat 0, [[]] ! 0)"
    by (intro hash_index_complete) (simp_all add: sample_stored_block_def)
  then show ?thesis using db by auto
qed

section \<open>Plans of a reorganisation\<close>

text \<open>The check that a rollback covers every height from the tip to the fork compares the two ends and the
  order only, so a plan with a gap passes it.\<close>

lemma reorg_plan_gap:
  assumes "stp_height (me_tip m) = 10" "me_undo_floor m \<le> 5" "sb_height b = 5" "check_block_inputs b = Inr ()"
  shows "check_reorg_plan m replay_floor 4 [10, 5] [b] = Inr ()"
  using assms by (simp add: check_reorg_plan_def MAX_REORG_DEPTH_def not_less)

end
