(* ===== verification/Spec2Isabelle.thy ===== *)
theory Spec2Isabelle imports Emission Blake3 Asert Rules Merkle CheckpointRecord TxRules ChainTypes Index ForkChoice Errors Body Reorg Lifecycle ManagerPool PowRuns Addresses WireFacts HeaderLife StoreIndex begin

text \<open>
  A verification library for the Plaine node: the crate \<open>lib/consensus\<close> (pure rules), the proof of
  work \<open>lib/pow\<close>, the chain \<open>lib/chain\<close> (headers, accounts, the canonical chain, the mempool), the wire
  format of \<open>lib/p2p\<close>, the rows and transactions of \<open>lib/storage\<close>, and the login of \<open>lib/stratum\<close>.
  Paths below are relative to \<open>src/\<close>.

  How the program fits together. A block travels as a 132-byte header and a body of transaction
  records, in framed messages between peers (\<open>lib/p2p/src/wire\<close>). Headers are charged to the peer that
  sent them, gated (\<open>gates.rs\<close>) and staged (\<open>header.rs\<close>); the best staged branch is promoted: its proof
  of work is checked against a target that the ASERT rule computes, and it enters the arena of headers
  (\<open>index.rs\<close>). The manager
  (\<open>manager.rs\<close>) picks the best head (\<open>forkchoice.rs\<close>), asks the consensus rules for a verdict on the
  plan that leads to it (\<open>rules.rs\<close>), validates the bodies of the branch (\<open>body.rs\<close>) over an
  overlay of accounts (\<open>state.rs\<close>), commits, and moves the canonical list of the arena. Signed
  checkpoints (\<open>checkpoints.rs\<close>) bound what a reorganisation may undo. A commit appends bodies to segment
  files under a checksum and changes rows of accounts, journal and indices in one transaction
  (\<open>committer.rs\<close>); a reorganisation takes heights back by their journal and applies the new branch.

  Theories and the code they model.
  \<^item> Prelude: results as \<open>'e + 'a\<close> (\<open>Inl\<close> the error) with their \<open>?\<close> operator (\<open>and_then\<close>), an
    option around it where the code can panic (\<open>None\<close>, \<open>and_thenp\<close>), saturating and checked word
    arithmetic, loops over lists that may panic, little-endian bytes.
  \<^item> Constants, Emission: \<open>lib/consensus/src/constants.rs\<close>, \<open>emission.rs\<close>.
  \<^item> Interfaces: the locales, one for each contract that two parts share. A locale is interpreted in
    the theory of the component that provides it, on the definitions of the model.
  \<^item> Blake3, Hex: \<open>blake3.rs\<close> (the incremental hasher with its lazy blocks and stack of chaining
    values) and \<open>hex.rs\<close>.
  \<^item> Limbs, Targets, Asert: \<open>asert.rs\<close>: limb arithmetic, 256-bit targets and their compact form, the
    difficulty rule.
  \<^item> Works, Rules: \<open>rules.rs\<close>: 512-bit work and its long division; reorganisation verdicts, anchors,
    checkpoint signatures, time, maturity.
  \<^item> Codec, Crypto, Merkle, CheckpointRecord, TxRules: \<open>codec.rs\<close>, \<open>crypto.rs\<close> with \<open>pow.rs\<close>,
    \<open>merkle.rs\<close>, \<open>checkpoint_record.rs\<close>, \<open>tx.rs\<close>.
  \<^item> ChainTypes, ChainWork, Errors: \<open>lib/chain/src/types.rs\<close>, \<open>work.rs\<close>, \<open>error.rs\<close> with \<open>traits.rs\<close>.
  \<^item> Index, ForkChoice: \<open>index.rs\<close>, \<open>forkchoice.rs\<close>: the arena and the walks over it.
  \<^item> State, Body, Reorg: \<open>state.rs\<close>, \<open>body.rs\<close>, \<open>reorg.rs\<close>: the overlay with its undo journal, block
    validation, and the replay of a reorganisation on the accounts.
  \<^item> Gates, Checkpoints, Manager, Lifecycle: \<open>gates.rs\<close>, \<open>checkpoints.rs\<close>, the verdict on a plan in
    \<open>manager.rs\<close>, and the steps the manager takes on arena and checkpoints as inductive relations.
  \<^item> Mempool: the first part of \<open>mempool.rs\<close>, with a panic as \<open>None\<close>. MempoolFacts (the invariant and what
    removing and re-marking do), MempoolAdmit (eviction), MempoolCheck (the books of a sender),
    MempoolCommit (replacement, refusal, acceptance), MempoolLife (sequences of operations), Template (the
    order of a block template). Ingress: its second part, the token buckets. ManagerPool: \<open>submit_tx\<close>,
    \<open>update_mempool\<close> and \<open>block_template\<close> of \<open>manager.rs\<close>.
  \<^item> PowProgram, PowMachine: \<open>lib/pow\<close>: the generator of the random program, the interpreter, the two
    ways to fill the scratch pad, the hash. PowFacts and PowRuns hold their lemmas.
  \<^item> Bech32, BechSum, BechBits, Addresses: \<open>lib/consensus/src/bech32m.rs\<close>, the addresses of \<open>crypto.rs\<close>
    and the login string of \<open>lib/stratum/src/login.rs\<close>; BechSum treats the checksum as a linear code,
    BechBits the regrouping of bits.
  \<^item> Wire, WireFacts: \<open>lib/p2p/src/wire\<close>: commands, payloads with a cursor over their bytes, frames.
  \<^item> HeaderIngest: \<open>lib/chain/src/header.rs\<close> with a panic as \<open>None\<close>: verdicts, sources and their budgets,
    the gates of a batch, staging and promotion. HeaderFacts (what each operation keeps), HeaderPromote,
    HeaderRuns (a batch), HeaderLife (every life of the node).
  \<^item> Crc32c: \<open>lib/storage/src/crc32c.rs\<close>. StoreCodec, StoreFacts: \<open>layout.rs\<close>, \<open>codec.rs\<close>, \<open>types.rs\<close>,
    the append of a body (\<open>committer.rs\<close>) and the scan of a segment (\<open>segment.rs\<close>). StoreMeta: \<open>meta.rs\<close>.
    StoreTables: the transactions of \<open>committer.rs\<close> on the tables and the lookups of \<open>reader.rs\<close>; StoreLife
    (rows and fingerprint), StoreIndex (the index of hashes) hold their lemmas.

  How code and model correspond. Structs are records, enums datatypes, machine integers words of
  their width, so that arithmetic wraps, saturates or is checked as in the code. \<open>usize\<close> is a
  natural number where the code only measures or indexes with it. Hash maps are maps. Mutation is a
  returned state. A slice out of range, an \<open>expect\<close> or a failed conversion is \<open>None\<close>. Signature
  verification, the round of AES, the observers of the node and, for the chain, the store are
  parameters; the header file is a parameter of the transactions on tables. \<open>Condition\<close>s for the
  observer are returned as lists.

  What the lemmas show.
  \<^item> Arithmetic: the limb code of targets, work and ASERT computes exact numbers; compact bits round
    trip; targets are monotone in time and height and stay in range.
  \<^item> Formats: headers, transactions, bodies, anchor files and hex strings are accepted exactly when they
    are the encoding of a value; signed preimages and Merkle roots determine what they commit to, up to
    an explicit BLAKE3 collision.
  \<^item> Arena: \<open>index_ok\<close> is kept by every operation; marking a block invalid reaches exactly its
    descendants; fork choice is maximal; a plan leads from the tip to the head over the common
    ancestor; the walks end.
  \<^item> Accounts: block validation refines a ledger over integers (\<open>ledger_run\<close>): it conserves value up to
    the subsidy, advances nonces one by one, never spends immature rewards, and its undo records
    restore every account; a whole branch is rewound and replayed exactly, its first bad block is
    named, and the window of sixty blocks from which the locked rewards are rebuilt is enough.
  \<^item> Life of a node: in every reachable state the arena is sound and the enforced checkpoints are on
    the canonical chain; they stay there; work and anchor never go back; a heavier branch within the
    cap passes the rules; a reorganisation within the cap spares matured rewards.
  \<^item> Mempool: \<open>pool_ok\<close> ties the index, the counters and the transactions together, \<open>pool_inv\<close> adds that
    the executable transactions of a sender are one run of nonces, \<open>mempool_valid\<close> the caps and the sums.
    Every operation keeps it and none panics; what is admitted its sender can pay; eviction is fair; a
    template executes in order; a source gets no more through than its bucket holds.
  \<^item> Proof of work: a generated program is well-formed and has the fixed mix of operations, the fast fill
    equals its reference, and the hash of a seed is computed without an index out of range whatever the
    pad held before.
  \<^item> Text forms: a string in bech32m is read exactly when the writer makes it, in one case; damage within
    six neighbouring characters is noticed.
  \<^item> Wire: a payload is accepted exactly when it is the encoding of its message; frames come out the same
    however the stream is cut; what is sent arrives.
  \<^item> Ingest: a batch of headers is answered whatever its bytes, the arena grows only by headers that pass
    the proof of work, in the steps of the arena's specification, and verdicts stay within their cap.
  \<^item> Storage: the checksum is CRC-32C and sees every change within four bytes; a torn write costs only the
    torn body; the meta rows survive a restart; a block taken back leaves no trace in the accounts; the
    running fingerprint equals that of a full pass; every block is found by its hash.

  Bounds and fuel. No definition runs on fuel: loops over lists are structural, the others are
  \<open>function\<close>s with a measure, and the two walks over parent links are \<open>partial_function (option)\<close>,
  which return for every node of a sound arena (\<open>arena_walks_return\<close>). The arena holds fewer than
  \<open>2 ^ 32 - 1\<close> nodes, as its 32-bit indices and the sentinel \<open>NO_PARENT\<close> require.

  What is not modelled. Of \<open>manager.rs\<close> in \<open>lib/chain\<close>: the start-up, the body half of \<open>try_adopt\<close>,
  \<open>advance\<close> and the queries; \<open>core_step\<close> therefore allows an adoption whose bodies the code may still
  refuse, which the safety theorems cover and the progress theorem leaves open. In \<open>lib/storage\<close>: the
  files behind headers and sidecar indices, batches, side headers, snapshots, recovery at start-up,
  anchors and sweeps, which work on the file system; increments of 64-bit counters are taken to wrap. In
  \<open>lib/p2p\<close>: peers, gates, synchronisation and transport beyond the wire format. The RPC and Stratum
  servers, the node's wiring, miner, wallet and desktop interface are input and output around this core;
  Ed25519, the AES instruction, redb and the operating system are not in the repository.
\<close>

end
